(* ===== verification/Prelude.thy ===== *)
theory Prelude
  imports Main "HOL-Library.Word" "HOL-Library.AList"
begin

text \<open>
  Shared vocabulary of the development: byte strings, JavaScript strings, numbers and
  dates, the protocol's status codes, the result type \<open>vs\<close> that models a
  \<open>ValStat\<close> together with a thrown exception or a loop that never ends, JavaScript's
  insertion-ordered \<open>Map\<close> and \<open>Set\<close>, and the lemmas the components share.
\<close>

unbundle bit_operations_syntax

section \<open>Types of the source language\<close>

type_synonym byte = "8 word"
type_synonym bytes = "byte list"

text \<open>A JavaScript string is its list of UTF-16 code units.\<close>

type_synonym jsstr = "16 word list"

definition js :: "string \<Rightarrow> jsstr" where
  "js s = map (\<lambda>c. word_of_nat (of_char c)) s"

text \<open>
  A date is its time value in milliseconds; \<^term>\<open>None\<close> is JavaScript's Invalid Date, whose
  time value is NaN. Comparisons with NaN are false and arithmetic with NaN is NaN.
\<close>

type_synonym date = "int option"

definition max_time :: int where
  "max_time = 8640000000000000"

definition mk_date :: "int \<Rightarrow> date" where
  "mk_date t = (if \<bar>t\<bar> \<le> max_time then Some t else None)"

definition date_add :: "date \<Rightarrow> int \<Rightarrow> date" where
  "date_add d off = (case d of None \<Rightarrow> None | Some t \<Rightarrow> mk_date (t + off))"

definition date_le :: "date \<Rightarrow> date \<Rightarrow> bool" where
  "date_le a b = (case (a, b) of (Some x, Some y) \<Rightarrow> x \<le> y | _ \<Rightarrow> False)"

definition date_less :: "date \<Rightarrow> date \<Rightarrow> bool" where
  "date_less a b = (case (a, b) of (Some x, Some y) \<Rightarrow> x < y | _ \<Rightarrow> False)"

text \<open>Equality of two time values: false as soon as one of them is NaN.\<close>

definition date_eq :: "date \<Rightarrow> date \<Rightarrow> bool" where
  "date_eq a b = (case (a, b) of (Some x, Some y) \<Rightarrow> x = y | _ \<Rightarrow> False)"

section \<open>Status codes (shared/consts.ts)\<close>

datatype status =
    Success | InvalidSignature | ClockOutOfSync | UserNotRegistered | ServerMisconfigured
  | MissingBody | ExtraBodyContent | MissingParam | InvalidParam | InvalidRequest
  | InternalError | NotFound | InvalidMessage | NoChange | DatabaseClosed | StorageError
  | DatabaseError | HashMismatch | DecryptionError | NotImplemented | MissingSeed
  | OutOfBounds | HostError | CommunicationError | VarLimitExceeded | InvalidResponse
  | ConnectionClosed | CryptoError | WebAuthnError
  | StatusNum nat \<comment> \<open>a byte cast to \<open>Status\<close> that is no member of the enum\<close>

fun status_code :: "status \<Rightarrow> nat" where
  "status_code Success = 0"
| "status_code InvalidSignature = 3"
| "status_code ClockOutOfSync = 4"
| "status_code UserNotRegistered = 5"
| "status_code ServerMisconfigured = 6"
| "status_code MissingBody = 7"
| "status_code ExtraBodyContent = 8"
| "status_code MissingParam = 9"
| "status_code InvalidParam = 10"
| "status_code InvalidRequest = 11"
| "status_code InternalError = 12"
| "status_code NotFound = 13"
| "status_code InvalidMessage = 14"
| "status_code NoChange = 15"
| "status_code DatabaseClosed = 16"
| "status_code StorageError = 17"
| "status_code DatabaseError = 18"
| "status_code HashMismatch = 19"
| "status_code DecryptionError = 20"
| "status_code NotImplemented = 21"
| "status_code MissingSeed = 22"
| "status_code OutOfBounds = 23"
| "status_code HostError = 24"
| "status_code CommunicationError = 25"
| "status_code VarLimitExceeded = 26"
| "status_code InvalidResponse = 27"
| "status_code ConnectionClosed = 28"
| "status_code CryptoError = 29"
| "status_code WebAuthnError = 30"
| "status_code (StatusNum n) = n"

text \<open>The cast \<open>bytes[0] as Status\<close> on the byte's value.\<close>

definition status_names :: "status list" where
  "status_names =
    [Success, InvalidSignature, ClockOutOfSync, UserNotRegistered, ServerMisconfigured,
     MissingBody, ExtraBodyContent, MissingParam, InvalidParam, InvalidRequest,
     InternalError, NotFound, InvalidMessage, NoChange, DatabaseClosed, StorageError,
     DatabaseError, HashMismatch, DecryptionError, NotImplemented, MissingSeed,
     OutOfBounds, HostError, CommunicationError, VarLimitExceeded, InvalidResponse,
     ConnectionClosed, CryptoError, WebAuthnError]"

definition status_of_code :: "nat \<Rightarrow> status" where
  "status_of_code n =
     (case find (\<lambda>s. status_code s = n) status_names of
        Some s \<Rightarrow> s | None \<Rightarrow> StatusNum n)"

definition sigBytes :: nat where "sigBytes = 64"
definition hashBytes :: nat where "hashBytes = 32"
definition pubKeyBytes :: nat where "pubKeyBytes = 32"
definition kdmBytes :: nat where "kdmBytes = 8"
definition hshBytes :: nat where "hshBytes = 32"
definition clockToleranceMs :: int where "clockToleranceMs = 30000"
definition notifInlineBodyBytesThreshold :: nat where "notifInlineBodyBytesThreshold = 512"

section \<open>Results (shared/valstat.ts)\<close>

text \<open>
  \<open>ValStat<T>\<close> is \<open>Ok\<close> or \<open>Err\<close>. A JavaScript function may also throw, and a loop
  may run forever without progress; both are values of the model, so that no theorem
  hides them. A function that returns a bare \<open>Status\<close> is modelled by \<^typ>\<open>unit\<close>
  results: \<open>Ok ()\<close> is \<open>Status.Success\<close>.
\<close>

datatype 'a vs = Ok 'a | Err status | Throw | Hang

fun andThen :: "'a vs \<Rightarrow> ('a \<Rightarrow> 'b vs) \<Rightarrow> 'b vs" where
  "andThen (Ok a) f = f a"
| "andThen (Err s) f = Err s"
| "andThen Throw f = Throw"
| "andThen Hang f = Hang"

text \<open>A loop that stops at the first failing element.\<close>

fun vs_map :: "('a \<Rightarrow> 'b vs) \<Rightarrow> 'a list \<Rightarrow> 'b list vs" where
  "vs_map f [] = Ok []"
| "vs_map f (x # xs) = andThen (f x) (\<lambda>y. andThen (vs_map f xs) (\<lambda>ys. Ok (y # ys)))"

text \<open>A \<open>try\<close> block whose \<open>catch\<close> returns a status.\<close>

fun catch_err :: "'a vs \<Rightarrow> status \<Rightarrow> 'a vs" where
  "catch_err Throw s = Err s"
| "catch_err r s = r"

section \<open>Map and Set\<close>

text \<open>
  A JavaScript \<open>Map\<close> iterates in insertion order and \<open>set\<close> on a present key keeps its
  place: an association list with \<^const>\<open>AList.update\<close> and \<^const>\<open>AList.delete\<close>. A
  \<open>Set\<close> is a duplicate-free list.
\<close>

type_synonym ('k, 'v) jsmap = "('k \<times> 'v) list"

abbreviation map_get :: "('k, 'v) jsmap \<Rightarrow> 'k \<Rightarrow> 'v option" where
  "map_get m k \<equiv> map_of m k"

abbreviation map_set :: "'k \<Rightarrow> 'v \<Rightarrow> ('k, 'v) jsmap \<Rightarrow> ('k, 'v) jsmap" where
  "map_set \<equiv> AList.update"

abbreviation map_delete :: "'k \<Rightarrow> ('k, 'v) jsmap \<Rightarrow> ('k, 'v) jsmap" where
  "map_delete \<equiv> AList.delete"

abbreviation map_has :: "('k, 'v) jsmap \<Rightarrow> 'k \<Rightarrow> bool" where
  "map_has m k \<equiv> map_of m k \<noteq> None"

definition set_add :: "'a \<Rightarrow> 'a list \<Rightarrow> 'a list" where
  "set_add x xs = (if x \<in> set xs then xs else xs @ [x])"

definition set_delete :: "'a \<Rightarrow> 'a list \<Rightarrow> 'a list" where
  "set_delete x xs = filter (\<lambda>y. y \<noteq> x) xs"

section \<open>Shared lemmas\<close>

named_theorems wire_simps \<open>lengths and shapes of encoded fields\<close>

lemma status_of_code_named: "s \<in> set status_names \<Longrightarrow> status_of_code (status_code s) = s"
  by (cases s) (simp_all add: status_names_def status_of_code_def)

lemma status_code_small: "s \<in> set status_names \<Longrightarrow> status_code s < 256"
  by (cases s) (simp_all add: status_names_def)

lemma andThen_Ok_iff [simp]: "(andThen r f = Ok b) = (\<exists>a. r = Ok a \<and> f a = Ok b)"
  by (cases r) auto

lemma andThen_Ok_rev [simp]: "(Ok b = andThen r f) = (\<exists>a. r = Ok a \<and> f a = Ok b)"
  by (cases r) auto

lemma andThen_Hang_iff: "(andThen r f = Hang) = (r = Hang \<or> (\<exists>a. r = Ok a \<and> f a = Hang))"
  by (cases r) auto

lemma andThen_Throw_iff: "(andThen r f = Throw) = (r = Throw \<or> (\<exists>a. r = Ok a \<and> f a = Throw))"
  by (cases r) auto

lemma andThen_Err_iff:
  "(andThen r f = Err s) = (r = Err s \<or> (\<exists>a. r = Ok a \<and> f a = Err s))"
  by (cases r) auto

lemma andThen_assoc: "andThen (andThen r f) g = andThen r (\<lambda>a. andThen (f a) g)"
  by (cases r) auto

lemma vs_map_Ok: "(\<And>x. x \<in> set xs \<Longrightarrow> f x = Ok (g x)) \<Longrightarrow> vs_map f xs = Ok (map g xs)"
  by (induction xs) auto

lemma catch_err_Ok_iff [simp]: "(catch_err r s = Ok a) = (r = Ok a)"
  by (cases r) auto

lemma set_set_add [simp]: "set (set_add x xs) = insert x (set xs)"
  by (auto simp: set_add_def)

lemma set_set_delete [simp]: "set (set_delete x xs) = set xs - {x}"
  by (auto simp: set_delete_def)

lemma distinct_set_add [simp]: "distinct xs \<Longrightarrow> distinct (set_add x xs)"
  by (simp add: set_add_def)

lemma distinct_set_delete [simp]: "distinct xs \<Longrightarrow> distinct (set_delete x xs)"
  by (simp add: set_delete_def)

lemma map_get_set [simp]: "map_get (map_set k v m) k' = (if k' = k then Some v else map_get m k')"
  by (simp add: update_conv')

lemma map_get_delete [simp]: "map_get (map_delete k m) k' = (if k' = k then None else map_get m k')"
  by (simp add: delete_conv')

lemma mk_date_Some_iff: "(mk_date t = Some t') = (\<bar>t\<bar> \<le> max_time \<and> t' = t)"
  by (auto simp: mk_date_def)

lemma date_le_Some [simp]: "date_le (Some x) (Some y) = (x \<le> y)"
  by (simp add: date_le_def)

lemma date_le_None [simp]: "\<not> date_le None d" "\<not> date_le d None"
  by (simp_all add: date_le_def split: option.splits)

end
