(* ===== verification/Utf8.thy ===== *)
theory Utf8
  imports Prelude
begin

text \<open>
  The two platform functions the codec uses on strings: \<open>TextEncoder.encode\<close> (UTF-16 code
  units to UTF-8, a lone surrogate becoming U+FFFD) and \<open>TextDecoder.decode\<close> in its default
  mode (a leading byte-order mark is dropped, each maximal ill-formed subsequence becomes
  U+FFFD). The theory shows that decoding undoes encoding on every well-formed string that
  does not begin with U+FEFF.
\<close>

section \<open>TextEncoder\<close>

definition is_high :: "16 word \<Rightarrow> bool" where
  "is_high u = (0xD800 \<le> unat u \<and> unat u < 0xDC00)"

definition is_low :: "16 word \<Rightarrow> bool" where
  "is_low u = (0xDC00 \<le> unat u \<and> unat u < 0xE000)"

definition pair_cp :: "16 word \<Rightarrow> 16 word \<Rightarrow> nat" where
  "pair_cp u v = 0x10000 + (unat u - 0xD800) * 0x400 + (unat v - 0xDC00)"

fun units_to_cps :: "jsstr \<Rightarrow> nat list" where
  "units_to_cps [] = []"
| "units_to_cps [u] = [if is_high u \<or> is_low u then 0xFFFD else unat u]"
| "units_to_cps (u # v # us) =
     (if is_high u \<and> is_low v then pair_cp u v # units_to_cps us
      else (if is_high u \<or> is_low u then 0xFFFD else unat u) # units_to_cps (v # us))"

definition utf8_of_cp :: "nat \<Rightarrow> nat list" where
  "utf8_of_cp c =
     (if c < 0x80 then [c]
      else if c < 0x800 then [0xC0 + c div 64, 0x80 + c mod 64]
      else if c < 0x10000 then [0xE0 + c div 4096, 0x80 + c div 64 mod 64, 0x80 + c mod 64]
      else [0xF0 + c div 262144, 0x80 + c div 4096 mod 64, 0x80 + c div 64 mod 64,
            0x80 + c mod 64])"

definition textEncode :: "jsstr \<Rightarrow> bytes" where
  "textEncode s = map word_of_nat (concat (map utf8_of_cp (units_to_cps s)))"

section \<open>TextDecoder\<close>

definition cont :: "nat \<Rightarrow> bool" where
  "cont b = (0x80 \<le> b \<and> b < 0xC0)"

definition second3 :: "nat \<Rightarrow> nat \<Rightarrow> bool" where
  "second3 a b = ((if a = 0xE0 then 0xA0 else 0x80) \<le> b \<and> b < (if a = 0xED then 0xA0 else 0xC0))"

definition second4 :: "nat \<Rightarrow> nat \<Rightarrow> bool" where
  "second4 a b = ((if a = 0xF0 then 0x90 else 0x80) \<le> b \<and> b < (if a = 0xF4 then 0x90 else 0xC0))"

function utf8_cps :: "nat list \<Rightarrow> nat list" where
  "utf8_cps [] = []"
| "utf8_cps (a # bs) =
     (if a < 0x80 then a # utf8_cps bs
      else if 0xC2 \<le> a \<and> a < 0xE0 then
        (case bs of
           b # cs \<Rightarrow> if cont b then ((a - 0xC0) * 64 + (b - 0x80)) # utf8_cps cs
                     else 0xFFFD # utf8_cps bs
         | [] \<Rightarrow> [0xFFFD])
      else if 0xE0 \<le> a \<and> a < 0xF0 then
        (case bs of
           b # cs \<Rightarrow>
             if \<not> second3 a b then 0xFFFD # utf8_cps bs
             else (case cs of
                     c # ds \<Rightarrow>
                       if cont c
                       then ((a - 0xE0) * 4096 + (b - 0x80) * 64 + (c - 0x80)) # utf8_cps ds
                       else 0xFFFD # utf8_cps cs
                   | [] \<Rightarrow> [0xFFFD])
         | [] \<Rightarrow> [0xFFFD])
      else if 0xF0 \<le> a \<and> a < 0xF5 then
        (case bs of
           b # cs \<Rightarrow>
             if \<not> second4 a b then 0xFFFD # utf8_cps bs
             else (case cs of
                     c # ds \<Rightarrow>
                       if \<not> cont c then 0xFFFD # utf8_cps cs
                       else (case ds of
                               d # es \<Rightarrow>
                                 if cont d
                                 then ((a - 0xF0) * 262144 + (b - 0x80) * 4096
                                       + (c - 0x80) * 64 + (d - 0x80)) # utf8_cps es
                                 else 0xFFFD # utf8_cps ds
                             | [] \<Rightarrow> [0xFFFD])
                   | [] \<Rightarrow> [0xFFFD])
         | [] \<Rightarrow> [0xFFFD])
      else 0xFFFD # utf8_cps bs)"
  by pat_completeness auto
termination
  by (relation "measure length") auto

definition cp_units :: "nat \<Rightarrow> jsstr" where
  "cp_units c =
     (if c < 0x10000 then [word_of_nat c]
      else [word_of_nat (0xD800 + (c - 0x10000) div 0x400),
            word_of_nat (0xDC00 + (c - 0x10000) mod 0x400)])"

fun strip_bom :: "bytes \<Rightarrow> bytes" where
  "strip_bom (a # b # c # bs) =
     (if a = 0xEF \<and> b = 0xBB \<and> c = 0xBF then bs else a # b # c # bs)"
| "strip_bom bs = bs"

definition textDecode :: "bytes \<Rightarrow> jsstr" where
  "textDecode bs = concat (map cp_units (utf8_cps (map unat (strip_bom bs))))"

section \<open>Decoding undoes encoding\<close>

declare utf8_cps.simps(2) [simp del]

text \<open>A well-formed string has no lone surrogate; \<open>plain_str\<close> also excludes a leading U+FEFF.\<close>

fun wf_js :: "jsstr \<Rightarrow> bool" where
  "wf_js [] = True"
| "wf_js [u] = (\<not> is_high u \<and> \<not> is_low u)"
| "wf_js (u # v # us) =
     (if is_high u then is_low v \<and> wf_js us else \<not> is_low u \<and> wf_js (v # us))"

definition plain_str :: "jsstr \<Rightarrow> bool" where
  "plain_str s = (wf_js s \<and> (case s of [] \<Rightarrow> True | u # _ \<Rightarrow> u \<noteq> 0xFEFF))"

definition scalar :: "nat \<Rightarrow> bool" where
  "scalar c = (c < 0x110000 \<and> \<not> (0xD800 \<le> c \<and> c < 0xE000))"

lemma unat_word16: "unat (u :: 16 word) < 0x10000"
proof -
  have "unat u < 2 ^ LENGTH(16)" by (rule unsigned_less)
  then show ?thesis by simp
qed

lemma pair_cp_bounds:
  "is_high u \<Longrightarrow> is_low v \<Longrightarrow> 0x10000 \<le> pair_cp u v \<and> pair_cp u v < 0x110000"
  by (auto simp: is_high_def is_low_def pair_cp_def)

lemma units_to_cps_scalar: "c \<in> set (units_to_cps s) \<Longrightarrow> scalar c"
proof (induction s rule: units_to_cps.induct)
  case (2 u)
  then show ?case using unat_word16 [of u]
    by (auto simp: scalar_def is_high_def is_low_def split: if_splits)
next
  case (3 u v us)
  then show ?case using unat_word16 [of u] pair_cp_bounds [of u v]
    by (auto simp: scalar_def is_high_def is_low_def split: if_splits)
qed simp

lemma cp_units_pair: "is_high u \<Longrightarrow> is_low v \<Longrightarrow> cp_units (pair_cp u v) = [u, v]"
proof -
  assume h: "is_high u" "is_low v"
  let ?h = "unat u - 0xD800" and ?l = "unat v - 0xDC00"
  have "?l < 0x400" using h by (auto simp: is_low_def)
  then have "(?h * 0x400 + ?l) div 0x400 = ?h" "(?h * 0x400 + ?l) mod 0x400 = ?l"
    by simp_all
  moreover have "0xD800 + ?h = unat u" "0xDC00 + ?l = unat v"
    using h by (auto simp: is_high_def is_low_def)
  ultimately show ?thesis
    by (simp add: cp_units_def pair_cp_def)
qed

lemma cp_units_single: "cp_units (unat (u :: 16 word)) = [u]"
  using unat_word16 [of u] by (simp add: cp_units_def)

lemma cps_units_roundtrip: "wf_js s \<Longrightarrow> concat (map cp_units (units_to_cps s)) = s"
proof (induction s rule: units_to_cps.induct)
  case (2 u)
  then show ?case by (simp add: cp_units_single)
next
  case (3 u v us)
  then show ?case
    by (cases "is_high u") (auto simp: cp_units_single cp_units_pair)
qed simp

lemma utf8_of_cp_bytes: "c < 0x110000 \<Longrightarrow> b \<in> set (utf8_of_cp c) \<Longrightarrow> b < 256"
  by (auto simp: utf8_of_cp_def split: if_splits)

lemma utf8_cps_1: "c < 0x80 \<Longrightarrow> utf8_cps (c # bs) = c # utf8_cps bs"
  by (simp add: utf8_cps.simps(2))

lemma utf8_cps_2:
  assumes "0x80 \<le> c" "c < 0x800"
  shows "utf8_cps ((0xC0 + c div 64) # (0x80 + c mod 64) # bs) = c # utf8_cps bs"
proof -
  have "2 \<le> c div 64" "c div 64 < 32" using assms by (auto simp: div_less_iff_less_mult less_eq_div_iff_mult_less_eq)
  then show ?thesis by (simp add: utf8_cps.simps(2) cont_def)
qed

lemma split_64: "(c :: nat) = c div 4096 * 4096 + c div 64 mod 64 * 64 + c mod 64"
proof -
  have "c div 4096 = c div 64 div 64" by (simp flip: div_mult2_eq)
  then have "c div 4096 * 64 + c div 64 mod 64 = c div 64" by simp
  then have "c div 4096 * 4096 + c div 64 mod 64 * 64 = c div 64 * 64" by simp
  then show ?thesis by simp
qed

lemma split_64_4:
  "(c :: nat) = c div 262144 * 262144 + c div 4096 mod 64 * 4096 + c div 64 mod 64 * 64 + c mod 64"
proof -
  have "c div 262144 = c div 4096 div 64" by (simp flip: div_mult2_eq)
  then have "c div 262144 * 64 + c div 4096 mod 64 = c div 4096" by simp
  then have "c div 262144 * 262144 + c div 4096 mod 64 * 4096 = c div 4096 * 4096" by simp
  with split_64 [of c] show ?thesis by simp
qed

lemma second3_ok:
  assumes "c = a * 4096 + b * 64 + d" "b < 64" "d < 64"
    and "0x800 \<le> c" "\<not> (0xD800 \<le> c \<and> c < 0xE000)"
  shows "second3 (0xE0 + a) (0x80 + b)"
proof -
  have "a = 0 \<Longrightarrow> 32 \<le> b" "a = 13 \<Longrightarrow> b < 32" using assms by auto
  with assms(2) show ?thesis by (auto simp: second3_def)
qed

lemma second4_ok:
  assumes "c = a * 262144 + b * 4096 + d * 64 + e" "b < 64" "d < 64" "e < 64"
    and "0x10000 \<le> c" "c < 0x110000"
  shows "second4 (0xF0 + a) (0x80 + b)"
proof -
  have "a = 0 \<Longrightarrow> 16 \<le> b" "a = 4 \<Longrightarrow> b < 16" using assms by auto
  with assms(2) show ?thesis by (auto simp: second4_def)
qed

lemma utf8_cps_3:
  assumes "0x800 \<le> c" "c < 0x10000" "\<not> (0xD800 \<le> c \<and> c < 0xE000)"
  shows "utf8_cps ((0xE0 + c div 4096) # (0x80 + c div 64 mod 64) # (0x80 + c mod 64) # bs) =
         c # utf8_cps bs"
proof -
  define a where "a = c div 4096"
  define b where "b = c div 64 mod 64"
  define d where "d = c mod 64"
  have c: "c = a * 4096 + b * 64 + d"
    unfolding a_def b_def d_def by (rule split_64)
  have lt: "a < 16" "b < 64" "d < 64"
    using assms by (simp_all add: a_def b_def d_def div_less_iff_less_mult)
  have "second3 (0xE0 + a) (0x80 + b)" by (rule second3_ok [OF c lt(2,3) assms(1,3)])
  then have "utf8_cps ((0xE0 + a) # (0x80 + b) # (0x80 + d) # bs) =
      (a * 4096 + b * 64 + d) # utf8_cps bs"
    using lt by (simp add: utf8_cps.simps(2) [of "0xE0 + a"] cont_def)
  then show ?thesis by (simp only: a_def [symmetric] b_def [symmetric] d_def [symmetric] c [symmetric])
qed

lemma utf8_cps_4:
  assumes "0x10000 \<le> c" "c < 0x110000"
  shows "utf8_cps ((0xF0 + c div 262144) # (0x80 + c div 4096 mod 64)
           # (0x80 + c div 64 mod 64) # (0x80 + c mod 64) # bs) = c # utf8_cps bs"
proof -
  define a where "a = c div 262144"
  define b where "b = c div 4096 mod 64"
  define d where "d = c div 64 mod 64"
  define e where "e = c mod 64"
  have c: "c = a * 262144 + b * 4096 + d * 64 + e"
    unfolding a_def b_def d_def e_def by (rule split_64_4)
  have lt: "a < 5" "b < 64" "d < 64" "e < 64"
    using assms by (simp_all add: a_def b_def d_def e_def div_less_iff_less_mult)
  have "second4 (0xF0 + a) (0x80 + b)" by (rule second4_ok [OF c lt(2-4) assms])
  then have "utf8_cps ((0xF0 + a) # (0x80 + b) # (0x80 + d) # (0x80 + e) # bs) =
      (a * 262144 + b * 4096 + d * 64 + e) # utf8_cps bs"
    using lt by (simp add: utf8_cps.simps(2) [of "0xF0 + a"] cont_def)
  then show ?thesis
    by (simp only: a_def [symmetric] b_def [symmetric] d_def [symmetric] e_def [symmetric] c [symmetric])
qed

lemma utf8_cps_encoded: "scalar c \<Longrightarrow> utf8_cps (utf8_of_cp c @ bs) = c # utf8_cps bs"
  by (auto simp: utf8_of_cp_def scalar_def utf8_cps_1 utf8_cps_2 utf8_cps_3 utf8_cps_4)

lemma utf8_cps_concat: "(\<And>c. c \<in> set cs \<Longrightarrow> scalar c) \<Longrightarrow> utf8_cps (concat (map utf8_of_cp cs)) = cs"
  by (induction cs) (auto simp: utf8_cps_encoded)

lemma map_unat_of_nat_bytes:
  "(\<And>b. b \<in> set bs \<Longrightarrow> b < 256) \<Longrightarrow> map unat (map word_of_nat bs :: bytes) = bs"
  by (induction bs) (auto simp: unat_of_nat)

lemma map_unat_textEncode: "map unat (textEncode s) = concat (map utf8_of_cp (units_to_cps s))"
  unfolding textEncode_def
proof (rule map_unat_of_nat_bytes)
  fix b assume "b \<in> set (concat (map utf8_of_cp (units_to_cps s)))"
  then show "b < 256"
    using units_to_cps_scalar utf8_of_cp_bytes by (fastforce simp: scalar_def)
qed

text \<open>The byte-order mark is exactly the encoding of U+FEFF, so only that unit is lost.\<close>

lemma utf8_bom_cp:
  assumes "scalar c" "utf8_of_cp c @ bs = 0xEF # 0xBB # 0xBF # cs"
  shows "c = 0xFEFF"
proof -
  have "utf8_cps (utf8_of_cp c @ bs) = 0xFEFF # utf8_cps cs"
    unfolding assms(2) using utf8_cps_3 [of "0xFEFF" cs] by simp
  with utf8_cps_encoded [OF assms(1)] show ?thesis by simp
qed

lemma units_to_cps_Cons: "\<exists>c cs. units_to_cps (u # us) = c # cs"
  by (cases us) auto

lemma units_to_cps_hd:
  "wf_js (u # us) \<Longrightarrow> units_to_cps (u # us) = c # cs \<Longrightarrow> c = 0xFEFF \<Longrightarrow> u = 0xFEFF"
proof (cases us)
  case Nil
  assume "wf_js (u # us)" "units_to_cps (u # us) = c # cs" "c = 0xFEFF"
  with Nil have "unat u = unat (0xFEFF :: 16 word)" by simp
  then show ?thesis by (simp only: word_unat_eq_iff)
next
  case (Cons v vs)
  assume a: "wf_js (u # us)" "units_to_cps (u # us) = c # cs" "c = 0xFEFF"
  with Cons have "\<not> is_high u" using pair_cp_bounds [of u v] by (auto split: if_splits)
  with a Cons have "unat u = unat (0xFEFF :: 16 word)" by (auto split: if_splits)
  then show ?thesis by (simp only: word_unat_eq_iff)
qed

lemma strip_bom_textEncode:
  assumes "plain_str s" shows "strip_bom (textEncode s) = textEncode s"
proof (rule ccontr)
  assume ne: "strip_bom (textEncode s) \<noteq> textEncode s"
  then obtain bs where e: "textEncode s = 0xEF # 0xBB # 0xBF # bs"
    by (cases "textEncode s" rule: strip_bom.cases) (auto split: if_splits)
  then obtain u us where s: "s = u # us"
    by (cases s) (auto simp: textEncode_def)
  obtain c cs where cps: "units_to_cps s = c # cs"
    unfolding s using units_to_cps_Cons by blast
  have "utf8_of_cp c @ concat (map utf8_of_cp cs) = 0xEF # 0xBB # 0xBF # map unat bs"
    using map_unat_textEncode [of s] by (simp add: e cps)
  moreover have "scalar c" using units_to_cps_scalar [of c s] cps by simp
  ultimately have "c = 0xFEFF" using utf8_bom_cp by blast
  with cps s assms show False
    using units_to_cps_hd [of u us c cs] by (auto simp: plain_str_def)
qed

lemma textDecode_textEncode: "plain_str s \<Longrightarrow> textDecode (textEncode s) = s"
  by (simp add: textDecode_def strip_bom_textEncode map_unat_textEncode utf8_cps_concat
      units_to_cps_scalar cps_units_roundtrip plain_str_def)

section \<open>ASCII strings\<close>

definition ascii :: "jsstr \<Rightarrow> bool" where
  "ascii s = list_all (\<lambda>u. u < 0x80) s"

lemma ascii_unit: "(u :: 16 word) < 0x80 \<Longrightarrow> unat u < 0x80 \<and> \<not> is_high u \<and> \<not> is_low u"
proof -
  assume "u < 0x80"
  then have "unat u < 0x80" by (simp add: word_less_nat_alt)
  then show ?thesis by (simp add: is_high_def is_low_def)
qed

lemma units_to_cps_ascii: "ascii s \<Longrightarrow> units_to_cps s = map unat s"
  by (induction s rule: units_to_cps.induct) (auto simp: ascii_def ascii_unit)

lemma wf_js_ascii: "ascii s \<Longrightarrow> wf_js s"
  by (induction s rule: wf_js.induct) (auto simp: ascii_def ascii_unit)

lemma plain_str_ascii: "ascii s \<Longrightarrow> plain_str s"
  unfolding plain_str_def using wf_js_ascii [of s] by (cases s) (auto simp: ascii_def)

lemma length_textEncode_ascii: "ascii s \<Longrightarrow> length (textEncode s) = length s"
proof -
  assume a: "ascii s"
  have "length (concat (map utf8_of_cp (map unat s))) = length s" using a
    by (induction s) (auto simp: ascii_def utf8_of_cp_def dest: ascii_unit)
  then show ?thesis by (simp add: textEncode_def units_to_cps_ascii a)
qed

end
