(* ===== verification/Codec.thy ===== *)
theory Codec
  imports Utf8
begin

text \<open>
  The binary encoding infrastructure of \<^verbatim>\<open>shared/codec.ts\<close>: variable-length integers, the
  \<open>Decoder\<close> (a byte buffer with a cursor) and the \<open>Encoder\<close> (a list of parts). JavaScript
  numbers are modelled by the integers they hold; the only place where the code turns a
  \<open>bigint\<close> above \<open>2\<^sup>5\<^sup>3 - 1\<close> into a \<open>number\<close> rounds it as IEEE doubles do.
\<close>

section \<open>Variable-length integers\<close>

function varint_groups :: "int \<Rightarrow> bytes" where
  "varint_groups n =
     (if n > 0 then
        (let byte = n AND 0x7f; n' = drop_bit 7 n
         in word_of_int (if n' > 0 then byte OR 0x80 else byte) # varint_groups n')
      else [])"
  by pat_completeness auto
termination
  by (relation "measure nat") (auto simp: drop_bit_eq_div)

definition encodeVarInt :: "int \<Rightarrow> bytes vs" where
  "encodeVarInt n =
     (if n < 0 then Err InvalidParam
      else let bs = varint_groups n
           in if length bs = 0 then Ok [0]
              else if length bs > 8 then Err VarLimitExceeded
              else Ok bs)"

function decodeVarInt_loop :: "bytes \<Rightarrow> nat \<Rightarrow> int \<Rightarrow> nat \<Rightarrow> nat \<Rightarrow> (int \<times> nat) vs" where
  "decodeVarInt_loop bs offset result shift i =
     (if i \<ge> length bs then Err InvalidMessage
      else
        let byte = bs ! i;
            result' = result OR push_bit shift (uint (byte AND 0x7f))
        in if byte AND 0x80 = 0 then
             (if Suc i - offset > 8 then Err VarLimitExceeded
              else Ok (result', Suc i - offset))
           else if shift + 7 \<ge> 56 then Err VarLimitExceeded
           else decodeVarInt_loop bs offset result' (shift + 7) (Suc i))"
  by pat_completeness auto
termination
  by (relation "measure (\<lambda>(bs, offset, result, shift, i). length bs - i)") auto

definition decodeVarInt :: "bytes \<Rightarrow> nat \<Rightarrow> (int \<times> nat) vs" where
  "decodeVarInt bs offset = decodeVarInt_loop bs offset 0 0 offset"

text \<open>
  \<open>Number(b)\<close> of a non-negative \<open>bigint\<close>: at most 53 significant bits are kept, rounding
  to nearest with ties to even.
\<close>

function bit_count :: "int \<Rightarrow> nat" where
  "bit_count n = (if n \<le> 0 then 0 else Suc (bit_count (n div 2)))"
  by pat_completeness auto
termination
  by (relation "measure nat") auto

definition Number_of :: "int \<Rightarrow> int" where
  "Number_of n =
     (if n \<le> 2 ^ 53 then n
      else
        let e = bit_count n - 53; q = n div 2 ^ e; r = n mod 2 ^ e;
            up = (2 * r > 2 ^ e \<or> (2 * r = 2 ^ e \<and> odd q))
        in (if up then q + 1 else q) * 2 ^ e)"

section \<open>Decoder\<close>

record decoder =
  dec_data :: bytes
  dec_pos :: nat

definition Decoder :: "bytes \<Rightarrow> decoder" where
  "Decoder bs = \<lparr>dec_data = bs, dec_pos = 0\<rparr>"

definition readBigInt :: "decoder \<Rightarrow> (int \<times> decoder) vs" where
  "readBigInt d =
     (if dec_pos d + 8 > length (dec_data d) then Err MissingBody
      else Ok (foldl (\<lambda>acc b. acc * 256 + uint b) 0 (take 8 (drop (dec_pos d) (dec_data d))),
               d\<lparr>dec_pos := dec_pos d + 8\<rparr>))"

definition readVarInt :: "decoder \<Rightarrow> (int \<times> decoder) vs" where
  "readVarInt d =
     andThen (decodeVarInt (dec_data d) (dec_pos d))
       (\<lambda>(val, bytesRead).
          Ok (if val > 0x1fffffffffffff then Number_of val else val,
              d\<lparr>dec_pos := dec_pos d + bytesRead\<rparr>))"

definition readDate :: "decoder \<Rightarrow> (date \<times> decoder) vs" where
  "readDate d = andThen (readVarInt d) (\<lambda>(offset, d). Ok (mk_date offset, d))"

definition readBytes :: "decoder \<Rightarrow> int \<Rightarrow> (bytes \<times> decoder) vs" where
  "readBytes d num =
     (if num < 0 then Err InvalidParam
      else if int (dec_pos d) + num > int (length (dec_data d)) then Err OutOfBounds
      else Ok (take (nat num) (drop (dec_pos d) (dec_data d)),
               d\<lparr>dec_pos := dec_pos d + nat num\<rparr>))"

definition readVarString :: "decoder \<Rightarrow> (jsstr \<times> decoder) vs" where
  "readVarString d =
     andThen (readVarInt d) (\<lambda>(len, d).
     andThen (readBytes d len) (\<lambda>(bs, d).
     Ok (textDecode bs, d)))"

text \<open>The loop \<open>for (let i = 0; i < n; i++)\<close> over one read.\<close>

fun read_times :: "(decoder \<Rightarrow> ('a \<times> decoder) vs) \<Rightarrow> nat \<Rightarrow> decoder \<Rightarrow> ('a list \<times> decoder) vs" where
  "read_times rd 0 d = Ok ([], d)"
| "read_times rd (Suc n) d =
     andThen (rd d) (\<lambda>(v, d).
     andThen (read_times rd n d) (\<lambda>(vs, d).
     Ok (v # vs, d)))"

definition remaining :: "decoder \<Rightarrow> int" where
  "remaining d = int (length (dec_data d)) - int (dec_pos d)"

definition readVarStrings :: "decoder \<Rightarrow> (jsstr list \<times> decoder) vs" where
  "readVarStrings d =
     andThen (readVarInt d) (\<lambda>(n, d).
     if n < 0 \<or> n > remaining d then Err InvalidMessage
     else read_times readVarString (nat n) d)"

definition readVarBytes :: "decoder \<Rightarrow> (bytes \<times> decoder) vs" where
  "readVarBytes d = andThen (readVarInt d) (\<lambda>(len, d). readBytes d len)"

definition done_dec :: "decoder \<Rightarrow> bool" where
  "done_dec d = (dec_pos d \<ge> length (dec_data d))"

text \<open>
  \<open>while (!this.done())\<close> over one struct. A read that succeeds without moving the cursor
  is repeated forever: that is the result \<^const>\<open>Hang\<close>.
\<close>

function readStructs_from ::
  "(decoder \<Rightarrow> ('a \<times> decoder) vs) \<Rightarrow> 'a list \<Rightarrow> decoder \<Rightarrow> ('a list \<times> decoder) vs" where
  "readStructs_from rd results d =
     (if done_dec d then Ok (results, d)
      else case rd d of
        Ok (v, d') \<Rightarrow>
          if dec_data d' = dec_data d \<and> dec_pos d < dec_pos d'
          then readStructs_from rd (results @ [v]) d' else Hang
      | Err s \<Rightarrow> Err s
      | Throw \<Rightarrow> Throw
      | Hang \<Rightarrow> Hang)"
  by pat_completeness auto
termination
  by (relation "measure (\<lambda>(rd, results, d). length (dec_data d) - dec_pos d)")
     (auto simp: done_dec_def)

definition readStructs :: "(decoder \<Rightarrow> ('a \<times> decoder) vs) \<Rightarrow> decoder \<Rightarrow> ('a list \<times> decoder) vs" where
  "readStructs rd d = readStructs_from rd [] d"

definition readBytesSeq :: "int \<Rightarrow> decoder \<Rightarrow> (bytes list \<times> decoder) vs" where
  "readBytesSeq len d = readStructs (\<lambda>d. readBytes d len) d"

definition readRest :: "decoder \<Rightarrow> bytes \<times> decoder" where
  "readRest d = (drop (dec_pos d) (dec_data d), d\<lparr>dec_pos := length (dec_data d)\<rparr>)"

definition consumed :: "decoder \<Rightarrow> nat" where
  "consumed d = dec_pos d"

section \<open>Encoder\<close>

text \<open>
  An encoder is its list of parts. A write returns its status and the encoder, which on
  an error keeps the parts written so far.
\<close>

type_synonym encoder = "bytes list"
type_synonym written = "unit vs \<times> encoder"

definition Encoder :: encoder where
  "Encoder = []"

fun thenW :: "written \<Rightarrow> (encoder \<Rightarrow> written) \<Rightarrow> written" where
  "thenW (Ok _, e) f = f e"
| "thenW (Err s, e) f = (Err s, e)"
| "thenW (Throw, e) f = (Throw, e)"
| "thenW (Hang, e) f = (Hang, e)"

definition writeBytes :: "encoder \<Rightarrow> bytes \<Rightarrow> written" where
  "writeBytes e bs = (Ok (), e @ [bs])"

fun bigint_be :: "nat \<Rightarrow> int \<Rightarrow> bytes" where
  "bigint_be 0 b = []"
| "bigint_be (Suc k) b = word_of_int (b div 256 ^ k) # bigint_be k b"

text \<open>\<open>setBigUint64\<close> stores the value modulo \<open>2\<^sup>6\<^sup>4\<close>, most significant byte first.\<close>

definition writeBigInt :: "encoder \<Rightarrow> int \<Rightarrow> encoder" where
  "writeBigInt e b = e @ [bigint_be 8 b]"

definition writeVarInt :: "encoder \<Rightarrow> int \<Rightarrow> written" where
  "writeVarInt e n =
     (case encodeVarInt n of
        Ok bs \<Rightarrow> (Ok (), e @ [bs])
      | Err s \<Rightarrow> (Err s, e)
      | Throw \<Rightarrow> (Throw, e)
      | Hang \<Rightarrow> (Hang, e))"

text \<open>The time value of an Invalid Date is NaN, on which \<open>BigInt\<close> throws.\<close>

definition writeDate :: "encoder \<Rightarrow> date \<Rightarrow> written" where
  "writeDate e ts = (case ts of None \<Rightarrow> (Throw, e) | Some t \<Rightarrow> writeVarInt e t)"

definition writeVarBytes :: "encoder \<Rightarrow> bytes \<Rightarrow> written" where
  "writeVarBytes e bs = thenW (writeVarInt e (int (length bs))) (\<lambda>e. writeBytes e bs)"

definition writeVarString :: "encoder \<Rightarrow> jsstr \<Rightarrow> written" where
  "writeVarString e s =
     (let bs = textEncode s
      in thenW (writeVarInt e (int (length bs))) (\<lambda>e. writeBytes e bs))"

fun writeStructs :: "(encoder \<Rightarrow> 'a \<Rightarrow> written) \<Rightarrow> encoder \<Rightarrow> 'a list \<Rightarrow> written" where
  "writeStructs wr e [] = (Ok (), e)"
| "writeStructs wr e (x # xs) = thenW (wr e x) (\<lambda>e. writeStructs wr e xs)"

definition writeVarStrings :: "encoder \<Rightarrow> jsstr list \<Rightarrow> written" where
  "writeVarStrings e strs =
     thenW (writeVarInt e (int (length strs))) (\<lambda>e. writeStructs writeVarString e strs)"

definition prependBytes :: "encoder \<Rightarrow> bytes \<Rightarrow> encoder" where
  "prependBytes e bs = bs # e"

definition writeBytesSeq :: "encoder \<Rightarrow> bytes list \<Rightarrow> encoder" where
  "writeBytesSeq e bss = e @ bss"

definition enc_result :: "encoder \<Rightarrow> bytes" where
  "enc_result e = concat e"

text \<open>\<open>wipe\<close> zeroes every part, then drops them.\<close>

definition enc_wipe :: "encoder \<Rightarrow> encoder \<times> encoder" where
  "enc_wipe e = (map (\<lambda>p. replicate (length p) 0) e, [])"

text \<open>\<open>new Encoder()\<close>, one write, \<open>result()\<close>: the idiom of every call site.\<close>

definition encode_with :: "(encoder \<Rightarrow> written) \<Rightarrow> bytes vs" where
  "encode_with wr =
     (case wr Encoder of
        (Ok _, e) \<Rightarrow> Ok (enc_result e)
      | (Err s, _) \<Rightarrow> Err s
      | (Throw, _) \<Rightarrow> Throw
      | (Hang, _) \<Rightarrow> Hang)"

section \<open>Laws of the integer encoding\<close>

declare varint_groups.simps [simp del] decodeVarInt_loop.simps [simp del]
  bit_count.simps [simp del] readStructs_from.simps [simp del]

definition varint_wire :: "int \<Rightarrow> bytes" where
  "varint_wire n = (if n = 0 then [0] else varint_groups n)"

lemma group_bytes_check:
  "\<forall>m \<in> set [0..127].
     uint ((word_of_int (m OR 0x80) :: byte) AND 0x7f) = m
   \<and> (word_of_int (m OR 0x80) :: byte) AND 0x80 \<noteq> 0
   \<and> uint ((word_of_int m :: byte) AND 0x7f) = m
   \<and> (word_of_int m :: byte) AND 0x80 = 0"
  by code_simp

lemma group_bytes:
  assumes "0 \<le> m" "m < 128"
  shows "uint ((word_of_int (m OR 0x80) :: byte) AND 0x7f) = m"
    and "(word_of_int (m OR 0x80) :: byte) AND 0x80 \<noteq> 0"
    and "uint ((word_of_int m :: byte) AND 0x7f) = m"
    and "(word_of_int m :: byte) AND 0x80 = 0"
  using group_bytes_check assms by auto

lemma and_7f: "(n :: int) AND 0x7f = n mod 128"
  using take_bit_eq_mask [of 7 n] by (simp add: take_bit_eq_mod mask_eq_exp_minus_1)

lemma drop_bit_7: "drop_bit 7 (n :: int) = n div 128"
  by (simp add: drop_bit_eq_div)

lemma or_shifted:
  "0 \<le> (r :: int) \<Longrightarrow> r < 2 ^ s \<Longrightarrow> r OR push_bit s x = r + x * 2 ^ s"
proof -
  assume "0 \<le> r" "r < 2 ^ s"
  then have r: "take_bit s r = r" by (simp add: take_bit_int_eq_self)
  have "take_bit s r OR push_bit s x = take_bit s r + push_bit s x"
    by (simp flip: concat_bit_eq concat_bit_def)
  then show ?thesis by (simp add: r push_bit_eq_mult)
qed

lemma varint_groups_step:
  "n > 0 \<Longrightarrow> varint_groups n =
     word_of_int (if n div 128 > 0 then n mod 128 OR 0x80 else n mod 128) # varint_groups (n div 128)"
  by (subst varint_groups.simps) (simp add: Let_def and_7f drop_bit_7)

lemma varint_groups_0 [simp]: "n \<le> 0 \<Longrightarrow> varint_groups n = []"
  by (subst varint_groups.simps) simp

lemma div_less_128: "((n :: int) div 128 < q) = (n < q * 128)"
proof -
  have "n = n div 128 * 128 + n mod 128" "0 \<le> n mod 128" "n mod 128 < 128" by simp_all
  then show ?thesis by linarith
qed

lemma length_varint_groups: "(length (varint_groups n) \<le> k) = (n < 2 ^ (7 * k))"
proof (induction k arbitrary: n)
  case 0
  then show ?case by (cases "n > 0") (auto simp: varint_groups_step)
next
  case (Suc k)
  show ?case
  proof (cases "n > 0")
    case True
    have "(length (varint_groups n) \<le> Suc k) = (n div 128 < 2 ^ (7 * k))"
      using True Suc.IH [of "n div 128"] by (simp add: varint_groups_step)
    also have "\<dots> = (n < 2 ^ (7 * k) * 128)"
      by (rule div_less_128)
    also have "2 ^ (7 * k) * (128 :: int) = 2 ^ (7 * Suc k)"
      by (simp add: power_add)
    finally show ?thesis .
  next
    case False
    have "(0 :: int) < 2 ^ (7 * Suc k)" by (rule zero_less_power) simp
    with False have "n < 2 ^ (7 * Suc k)" by linarith
    with False show ?thesis by (simp only: varint_groups_0 linorder_not_less list.size le0)
  qed
qed

lemma decodeVarInt_loop_groups:
  assumes "0 < n" "drop i bs = varint_groups n @ rest" "0 \<le> r" "r < 2 ^ shift"
    and "shift + 7 * length (varint_groups n) \<le> 56" "shift = 7 * (i - offset)" "offset \<le> i"
  shows "decodeVarInt_loop bs offset r shift i =
           Ok (r + n * 2 ^ shift, i + length (varint_groups n) - offset)"
  using assms
proof (induction n arbitrary: i r shift rule: varint_groups.induct)
  case (1 n)
  let ?m = "n mod 128" and ?n' = "n div 128"
  let ?b = "word_of_int (if ?n' > 0 then ?m OR 0x80 else ?m) :: byte"
  have m: "0 \<le> ?m" "?m < 128" by simp_all
  have g: "varint_groups n = ?b # varint_groups ?n'" using 1 by (simp add: varint_groups_step)
  have lt: "i < length bs" using 1(3) g by (metis drop_all append_Cons list.distinct(1) not_le_imp_less)
  have b: "bs ! i = ?b" and d: "drop (Suc i) bs = varint_groups ?n' @ rest"
    using 1(3) g lt by (simp_all add: Cons_nth_drop_Suc [symmetric])
  have r': "r OR push_bit shift (uint (?b AND 0x7f)) = r + ?m * 2 ^ shift"
    using group_bytes(1,3) [OF m] 1(4,5) by (simp add: or_shifted)
  show ?case
  proof (cases "?n' > 0")
    case True
    have bound: "r + ?m * 2 ^ shift < 2 ^ (shift + 7)"
    proof -
      have "?m * 2 ^ shift \<le> 127 * (2 :: int) ^ shift" using m by (intro mult_right_mono) auto
      then have "r + ?m * 2 ^ shift < 2 ^ shift + 127 * 2 ^ shift" using 1(5) by linarith
      then show ?thesis by (simp add: power_add)
    qed
    have pos: "length (varint_groups ?n') > 0" using True by (simp add: varint_groups_step)
    have "decodeVarInt_loop bs offset (r + ?m * 2 ^ shift) (shift + 7) (Suc i) =
        Ok (r + ?m * 2 ^ shift + ?n' * 2 ^ (shift + 7), Suc i + length (varint_groups ?n') - offset)"
    proof (rule 1(1))
      show "0 \<le> r + ?m * 2 ^ shift" using m 1(4) by simp
      show "drop (Suc i) bs = varint_groups ?n' @ rest" by (rule d)
      show "shift + 7 + 7 * length (varint_groups ?n') \<le> 56" using 1(6) by (simp add: g)
      show "shift + 7 = 7 * (Suc i - offset)" using 1(7,8) by simp
    qed (use True 1(2,8) bound in \<open>simp_all add: and_7f drop_bit_7\<close>)
    moreover have "?m * 2 ^ shift + ?n' * 2 ^ (shift + 7) = n * 2 ^ shift"
    proof -
      have "(2 :: int) ^ (shift + 7) = 128 * 2 ^ shift" by (simp add: power_add)
      then have "?m * 2 ^ shift + ?n' * 2 ^ (shift + 7) = (?n' * 128 + ?m) * 2 ^ shift"
        by (simp only: distrib_right mult.assoc add.commute)
      then show ?thesis by (simp only: div_mult_mod_eq)
    qed
    moreover have "\<not> shift + 7 \<ge> 56"
    proof -
      obtain k where "length (varint_groups ?n') = Suc k" using pos by (cases "varint_groups ?n'") auto
      with 1(6) show ?thesis unfolding g by simp
    qed
    ultimately show ?thesis
      using lt b r' True group_bytes(2) [OF m] g
      by (subst decodeVarInt_loop.simps) (simp add: Let_def add.assoc)
  next
    case False
    with 1 have n: "?m = n" by (simp add: pos_imp_zdiv_nonneg_iff)
    have "Suc i - offset \<le> 8" using 1(6,7) g by simp
    then show ?thesis
      using lt b r' False group_bytes(4) [OF m] g n
      by (subst decodeVarInt_loop.simps) (simp add: Let_def)
  qed
qed

lemma varint_groups_ne: "0 < n \<Longrightarrow> varint_groups n \<noteq> []"
  by (subst varint_groups_step) simp_all

lemma varint_wire_ne [simp]: "0 \<le> n \<Longrightarrow> varint_wire n \<noteq> []"
  using varint_groups_ne [of n] by (cases "n = 0") (simp_all add: varint_wire_def)

lemma encodeVarInt_eq:
  "encodeVarInt n =
     (if n < 0 then Err InvalidParam else if n < 2 ^ 56 then Ok (varint_wire n)
      else Err VarLimitExceeded)"
proof -
  have "(length (varint_groups n) > 8) = (\<not> n < 2 ^ 56)"
    using length_varint_groups [of n 8] by (simp only: not_le [symmetric]) simp
  moreover have "(length (varint_groups n) = 0) = (n \<le> 0)"
    using varint_groups_ne [of n] by (cases "n \<le> 0") simp_all
  ultimately show ?thesis
    by (simp add: encodeVarInt_def varint_wire_def Let_def)
qed

lemma length_varint_wire: "n < 2 ^ 56 \<Longrightarrow> length (varint_wire n) \<le> 8"
  using length_varint_groups [of n 8] by (simp add: varint_wire_def)

lemma decodeVarInt_wire:
  assumes "0 \<le> n" "n < 2 ^ 56" "drop off bs = varint_wire n @ rest"
  shows "decodeVarInt bs off = Ok (n, length (varint_wire n))"
proof (cases "n = 0")
  case True
  with assms(3) have "drop off bs = 0 # rest" by (simp add: varint_wire_def)
  then have "off < length bs" "bs ! off = 0"
    by (metis drop_all list.distinct(1) not_le_imp_less, metis hd_drop_conv_nth drop_all list.distinct(1) list.sel(1) not_le_imp_less)
  with True show ?thesis
    by (simp add: decodeVarInt_def decodeVarInt_loop.simps varint_wire_def)
next
  case False
  with assms have "0 < n" "drop off bs = varint_groups n @ rest"
    by (auto simp: varint_wire_def)
  moreover have "7 * length (varint_groups n) \<le> 56"
    using assms(2) length_varint_groups [of n 8] by simp
  ultimately show ?thesis
    using decodeVarInt_loop_groups [of n off bs rest 0 0 off] False
    by (simp add: decodeVarInt_def varint_wire_def)
qed

lemma uint_and_7f: "0 \<le> uint ((b :: byte) AND 0x7f)" "uint ((b :: byte) AND 0x7f) < 128"
proof -
  have "uint (b AND 0x7f) = uint b mod 128" by (simp add: uint_and and_7f)
  then show "uint (b AND 0x7f) < 128" by simp
qed simp

lemma decodeVarInt_loop_sound:
  assumes "decodeVarInt_loop bs offset r shift i = Ok (v, k)"
    and "0 \<le> r" "r < 2 ^ shift" "shift = 7 * (i - offset)" "offset \<le> i" "shift < 56"
  shows "0 \<le> v \<and> v < 2 ^ 56 \<and> 0 < k \<and> k \<le> 8 \<and> offset + k \<le> length bs"
  using assms
proof (induction bs offset r shift i rule: decodeVarInt_loop.induct)
  case (1 bs offset r shift i)
  let ?x = "uint (bs ! i AND 0x7f)"
  let ?r = "r OR push_bit shift ?x"
  have lt: "i < length bs" using 1(2) by (subst (asm) decodeVarInt_loop.simps) (auto split: if_splits)
  have r: "?r = r + ?x * 2 ^ shift" by (rule or_shifted) fact+
  have "?x * 2 ^ shift \<le> 127 * (2 :: int) ^ shift"
    using uint_and_7f [of "bs ! i"] by (intro mult_right_mono) auto
  with 1(4) have "r + ?x * 2 ^ shift < 2 ^ shift + 127 * 2 ^ shift" by linarith
  then have hi: "?r < 2 ^ (shift + 7)" unfolding r by (simp add: power_add)
  have lo: "0 \<le> ?r" unfolding r using 1(3) uint_and_7f(1) by simp
  show ?case
  proof (cases "bs ! i AND 0x80 = 0")
    case True
    with 1(2) lt have v: "v = ?r" "k = Suc i - offset" "k \<le> 8"
      by (subst (asm) decodeVarInt_loop.simps, simp add: Let_def split: if_splits)+
    have "(2 :: int) ^ (shift + 7) \<le> 2 ^ 56" using v 1(5,6) by (intro power_increasing) auto
    with hi lo v lt 1(6) show ?thesis by auto
  next
    case False
    with 1(2) lt have "\<not> shift + 7 \<ge> 56"
      and "decodeVarInt_loop bs offset ?r (shift + 7) (Suc i) = Ok (v, k)"
      by (subst (asm) decodeVarInt_loop.simps, simp add: Let_def split: if_splits)+
    moreover have "shift + 7 = 7 * (Suc i - offset)" using 1(5,6) by simp
    ultimately show ?thesis
      using 1(1) [OF _ refl refl False] lt lo hi 1(6) by (simp only: not_le le_SucI simp_thms)
  qed
qed

lemma decodeVarInt_sound:
  "decodeVarInt bs off = Ok (v, k) \<Longrightarrow>
     0 \<le> v \<and> v < 2 ^ 56 \<and> 0 < k \<and> k \<le> 8 \<and> off + k \<le> length bs"
  unfolding decodeVarInt_def by (erule decodeVarInt_loop_sound) auto

lemma decodeVarInt_loop_total:
  "decodeVarInt_loop bs offset r shift i \<noteq> Throw \<and> decodeVarInt_loop bs offset r shift i \<noteq> Hang"
proof (induction bs offset r shift i rule: decodeVarInt_loop.induct)
  case (1 bs offset r shift i)
  show ?case
    using 1 [OF _ refl refl]
    by (subst (1 2) decodeVarInt_loop.simps) (auto simp: Let_def)
qed

lemma decodeVarInt_total: "decodeVarInt bs off \<noteq> Throw" "decodeVarInt bs off \<noteq> Hang"
  by (simp_all add: decodeVarInt_def decodeVarInt_loop_total)

lemma decodeVarInt_loop_status:
  "decodeVarInt_loop bs offset r shift i = Err s \<Longrightarrow> s = InvalidMessage \<or> s = VarLimitExceeded"
proof (induction bs offset r shift i rule: decodeVarInt_loop.induct)
  case (1 bs offset r shift i)
  show ?case
    using 1(2) 1(1) [OF _ refl refl]
    by (subst (asm) decodeVarInt_loop.simps) (auto simp: Let_def split: if_splits)
qed

lemma decodeVarInt_status:
  "decodeVarInt bs off = Err s \<Longrightarrow> s = InvalidMessage \<or> s = VarLimitExceeded"
  unfolding decodeVarInt_def by (rule decodeVarInt_loop_status)

section \<open>Laws of reading and writing\<close>

text \<open>
  A write \<open>emits\<close> a byte string when it succeeds on every encoder and appends parts that
  spell that string. A read \<open>parses\<close> a byte string as a value when it returns the value and
  moves past the string wherever the unread data start with it. Both compose.
\<close>

definition unread :: "decoder \<Rightarrow> bytes" where
  "unread d = drop (dec_pos d) (dec_data d)"

definition wf_dec :: "decoder \<Rightarrow> bool" where
  "wf_dec d = (dec_pos d \<le> length (dec_data d))"

definition advance :: "decoder \<Rightarrow> nat \<Rightarrow> decoder" where
  "advance d n = d\<lparr>dec_pos := dec_pos d + n\<rparr>"

definition emits :: "(encoder \<Rightarrow> written) \<Rightarrow> bytes \<Rightarrow> bool" where
  "emits w bs = (\<forall>e. \<exists>ps. w e = (Ok (), e @ ps) \<and> concat ps = bs)"

definition parses :: "(decoder \<Rightarrow> ('a \<times> decoder) vs) \<Rightarrow> bytes \<Rightarrow> 'a \<Rightarrow> bool" where
  "parses rd bs v = (\<forall>d rest. wf_dec d \<longrightarrow> unread d = bs @ rest \<longrightarrow> rd d = Ok (v, advance d (length bs)))"

definition is_num :: "int \<Rightarrow> bool" where
  "is_num n = (0 \<le> n \<and> n < 2 ^ 56 \<and> Number_of n = n)"

named_theorems emits_rules \<open>what each write emits\<close>
named_theorems parses_rules \<open>what each read parses\<close>

lemma unread_advance [simp]: "unread (advance d n) = drop n (unread d)"
  by (simp add: unread_def advance_def add.commute)

lemma advance_advance [simp]: "advance (advance d m) n = advance d (m + n)"
  by (simp add: advance_def)

lemma advance_sel [simp]: "dec_data (advance d n) = dec_data d" "dec_pos (advance d n) = dec_pos d + n"
  by (simp_all add: advance_def)

lemma advance_0 [simp]: "advance d 0 = d"
  by (simp add: advance_def)

lemma unread_Decoder [simp]: "unread (Decoder bs) = bs"
  by (simp add: unread_def Decoder_def)

lemma wf_Decoder [simp]: "wf_dec (Decoder bs)"
  by (simp add: wf_dec_def Decoder_def)

lemma unread_length: "wf_dec d \<Longrightarrow> unread d = bs @ rest \<Longrightarrow> dec_pos d + length bs \<le> length (dec_data d)"
  by (auto simp: unread_def wf_dec_def dest!: arg_cong [of _ _ length])

lemma wf_advance: "wf_dec d \<Longrightarrow> unread d = bs @ rest \<Longrightarrow> wf_dec (advance d (length bs))"
  using unread_length [of d bs rest] by (simp add: wf_dec_def advance_def)

lemma emitsI: "(\<And>e. w e = (Ok (), e @ ps)) \<Longrightarrow> concat ps = bs \<Longrightarrow> emits w bs"
  by (auto simp: emits_def)

lemma emits_then [emits_rules]:
  assumes "emits w bs" "emits w' bs'"
  shows "emits (\<lambda>e. thenW (w e) w') (bs @ bs')"
  unfolding emits_def
proof
  fix e
  obtain ps where ps: "w e = (Ok (), e @ ps)" "concat ps = bs"
    using assms(1) by (auto simp: emits_def)
  obtain qs where qs: "w' (e @ ps) = (Ok (), (e @ ps) @ qs)" "concat qs = bs'"
    using assms(2) unfolding emits_def by blast
  show "\<exists>rs. thenW (w e) w' = (Ok (), e @ rs) \<and> concat rs = bs @ bs'"
    using ps qs by (intro exI [of _ "ps @ qs"]) simp
qed

lemma emits_nothing [emits_rules]: "emits (\<lambda>e. (Ok (), e)) []"
  by (rule emitsI [of _ "[]"]) auto

lemma emits_writeBytes [emits_rules]: "emits (\<lambda>e. writeBytes e bs) bs"
  by (rule emitsI [of _ "[bs]"]) (auto simp: writeBytes_def)

lemma emits_writeVarInt [emits_rules]:
  "0 \<le> n \<Longrightarrow> n < 2 ^ 56 \<Longrightarrow> emits (\<lambda>e. writeVarInt e n) (varint_wire n)"
  by (rule emitsI [of _ "[varint_wire n]"]) (auto simp: writeVarInt_def encodeVarInt_eq)

lemma emits_cong: "(\<And>e. w e = w' e) \<Longrightarrow> emits w' bs \<Longrightarrow> emits w bs"
  by (simp add: emits_def)

lemma encode_with_emits: "emits w bs \<Longrightarrow> encode_with w = Ok bs"
proof -
  assume "emits w bs"
  then obtain ps where "w Encoder = (Ok (), Encoder @ ps)" "concat ps = bs"
    unfolding emits_def by blast
  then show ?thesis by (simp add: encode_with_def enc_result_def Encoder_def)
qed

lemma parsesI:
  "(\<And>d rest. wf_dec d \<Longrightarrow> unread d = bs @ rest \<Longrightarrow> rd d = Ok (v, advance d (length bs)))
     \<Longrightarrow> parses rd bs v"
  by (simp add: parses_def)

lemma parsesD:
  "parses rd bs v \<Longrightarrow> wf_dec d \<Longrightarrow> unread d = bs @ rest \<Longrightarrow> rd d = Ok (v, advance d (length bs))"
  by (auto simp: parses_def)

lemma parses_bind [parses_rules]:
  assumes "parses rd bs v" "parses (f v) bs' v'"
  shows "parses (\<lambda>d. andThen (rd d) (\<lambda>(v, d). f v d)) (bs @ bs') v'"
proof (rule parsesI)
  fix d rest assume wf: "wf_dec d" and u: "unread d = (bs @ bs') @ rest"
  then have "rd d = Ok (v, advance d (length bs))"
    using parsesD [OF assms(1) wf, of "bs' @ rest"] by simp
  moreover have "f v (advance d (length bs)) = Ok (v', advance (advance d (length bs)) (length bs'))"
    using wf u by (intro parsesD [OF assms(2), of _ rest] wf_advance [of _ _ "bs' @ rest"]) simp_all
  ultimately show "andThen (rd d) (\<lambda>(v, d). f v d) = Ok (v', advance d (length (bs @ bs')))"
    by simp
qed

lemma parses_return [parses_rules]: "parses (\<lambda>d. Ok (v, d)) [] v"
  by (simp add: parses_def)

lemma parses_readBytes [parses_rules]:
  "n = int (length bs) \<Longrightarrow> parses (\<lambda>d. readBytes d n) bs bs"
proof (rule parsesI)
  fix d rest assume n: "n = int (length bs)" and wf: "wf_dec d" and u: "unread d = bs @ rest"
  then have "take (length bs) (drop (dec_pos d) (dec_data d)) = bs" by (simp add: unread_def)
  moreover have "dec_pos d + length bs \<le> length (dec_data d)" by (rule unread_length) fact+
  ultimately show "readBytes d n = Ok (bs, advance d (length bs))"
    using n by (auto simp: readBytes_def advance_def)
qed

lemma is_num_nonneg: "is_num n \<Longrightarrow> 0 \<le> n" and is_num_bound: "is_num n \<Longrightarrow> n < 2 ^ 56"
  by (simp_all add: is_num_def)

lemma is_num_safe: "0 \<le> n \<Longrightarrow> n \<le> 2 ^ 53 \<Longrightarrow> is_num n"
  by (simp add: is_num_def Number_of_def)

lemma parses_readVarInt [parses_rules]: "is_num n \<Longrightarrow> parses readVarInt (varint_wire n) n"
proof (rule parsesI)
  fix d rest assume n: "is_num n" and u: "unread d = varint_wire n @ rest"
  then have "decodeVarInt (dec_data d) (dec_pos d) = Ok (n, length (varint_wire n))"
    by (intro decodeVarInt_wire [of n _ _ rest]) (auto simp: is_num_def unread_def)
  with n show "readVarInt d = Ok (n, advance d (length (varint_wire n)))"
    by (simp add: readVarInt_def advance_def is_num_def)
qed

definition varbytes_wire :: "bytes \<Rightarrow> bytes" where
  "varbytes_wire bs = varint_wire (int (length bs)) @ bs"

definition varstring_wire :: "jsstr \<Rightarrow> bytes" where
  "varstring_wire s = varbytes_wire (textEncode s)"

definition short :: "'a list \<Rightarrow> bool" where
  "short xs = (int (length xs) \<le> 2 ^ 53)"

definition str_ok :: "jsstr \<Rightarrow> bool" where
  "str_ok s = (plain_str s \<and> short (textEncode s))"

definition date_ok :: "date \<Rightarrow> bool" where
  "date_ok t = (case t of None \<Rightarrow> False | Some n \<Rightarrow> 0 \<le> n \<and> n \<le> max_time)"

lemma str_ok_ascii: "ascii s \<Longrightarrow> short s \<Longrightarrow> str_ok s"
  by (simp add: str_ok_def plain_str_ascii length_textEncode_ascii short_def)

lemma short_num: "short xs \<Longrightarrow> is_num (int (length xs))"
  by (rule is_num_safe) (auto simp: short_def)

lemma short_bound: "short xs \<Longrightarrow> int (length xs) < 2 ^ 56"
  by (auto simp: short_def)

lemma emits_writeVarBytes [emits_rules]:
  "short bs \<Longrightarrow> emits (\<lambda>e. writeVarBytes e bs) (varbytes_wire bs)"
  unfolding writeVarBytes_def varbytes_wire_def
  by (intro emits_rules) (auto dest: short_bound)

lemma emits_writeVarString [emits_rules]:
  "short (textEncode s) \<Longrightarrow> emits (\<lambda>e. writeVarString e s) (varstring_wire s)"
  unfolding writeVarString_def varstring_wire_def varbytes_wire_def Let_def
  by (intro emits_rules) (auto dest: short_bound)

lemma emits_writeDate [emits_rules]:
  "date_ok t \<Longrightarrow> emits (\<lambda>e. writeDate e t) (varint_wire (the t))"
  unfolding writeDate_def date_ok_def
  by (auto split: option.splits intro!: emits_rules simp: max_time_def)

lemma parses_readVarBytes [parses_rules]:
  "short bs \<Longrightarrow> parses readVarBytes (varbytes_wire bs) bs"
  unfolding readVarBytes_def varbytes_wire_def
  by (rule parses_rules short_num | assumption | rule refl)+

lemma parses_readVarString [parses_rules]:
  assumes "str_ok s" shows "parses readVarString (varstring_wire s) s"
proof -
  have "parses (\<lambda>d. andThen (readBytes d (int (length (textEncode s))))
          (\<lambda>(bs, d). Ok (textDecode bs, d))) (textEncode s @ []) (textDecode (textEncode s))"
    by (rule parses_rules refl)+
  then have "parses (\<lambda>d. andThen (readBytes d (int (length (textEncode s))))
          (\<lambda>(bs, d). Ok (textDecode bs, d))) (textEncode s) s"
    using assms by (simp add: str_ok_def textDecode_textEncode)
  moreover have "is_num (int (length (textEncode s)))"
    using assms by (simp add: str_ok_def short_num)
  ultimately show ?thesis
    unfolding readVarString_def varstring_wire_def varbytes_wire_def
    by (rule parses_bind [OF parses_readVarInt, rotated])
qed

lemma mk_date_ok: "date_ok t \<Longrightarrow> mk_date (the t) = t"
  by (auto simp: date_ok_def mk_date_def split: option.splits)

lemma date_num: "date_ok t \<Longrightarrow> is_num (the t)"
  by (auto simp: date_ok_def max_time_def split: option.splits intro!: is_num_safe)

lemma parses_readDate [parses_rules]:
  assumes "date_ok t" shows "parses readDate (varint_wire (the t)) t"
proof -
  have "parses (\<lambda>d. andThen (readVarInt d) (\<lambda>(offset, d). Ok (mk_date offset, d)))
          (varint_wire (the t) @ []) (mk_date (the t))"
    by (rule parses_rules date_num assms)+
  then show ?thesis by (simp add: readDate_def [abs_def] mk_date_ok assms)
qed

lemma emits_writeStructs:
  "(\<And>x. x \<in> set xs \<Longrightarrow> emits (\<lambda>e. wr e x) (wire x)) \<Longrightarrow>
     emits (\<lambda>e. writeStructs wr e xs) (concat (map wire xs))"
proof (induction xs)
  case (Cons x xs)
  then show ?case by (simp add: emits_then)
qed (simp add: emits_nothing)

lemma parses_read_times:
  "(\<And>x. x \<in> set xs \<Longrightarrow> parses rd (wire x) x) \<Longrightarrow>
     parses (read_times rd (length xs)) (concat (map wire xs)) xs"
proof (induction xs)
  case (Cons x xs)
  have "parses (\<lambda>d. andThen (rd d) (\<lambda>(v, d). andThen (read_times rd (length xs) d)
          (\<lambda>(vs, d). Ok (v # vs, d)))) (wire x @ concat (map wire xs) @ []) (x # xs)"
    by (rule parses_rules Cons | simp)+
  then show ?case by simp
qed (simp add: parses_def)

lemma length_concat_ge:
  "(\<And>x. x \<in> set xs \<Longrightarrow> f x \<noteq> []) \<Longrightarrow> length xs \<le> length (concat (map f xs))"
proof (induction xs)
  case (Cons x xs)
  then have "f x \<noteq> []" "length xs \<le> length (concat (map f xs))" by auto
  then show ?case by (cases "f x") auto
qed simp

text \<open>A count followed by that many records, refused when the count exceeds the unread bytes.\<close>

lemma parses_counted:
  assumes "\<And>x. x \<in> set xs \<Longrightarrow> parses rd (wire x) x"
    and "\<And>x. x \<in> set xs \<Longrightarrow> wire x \<noteq> []"
    and "n = int (length xs)"
  shows "parses (\<lambda>d. if n < 0 \<or> n > remaining d then Err s else read_times rd (nat n) d)
           (concat (map wire xs)) xs"
proof (rule parsesI)
  fix d rest assume wf: "wf_dec d" and u: "unread d = concat (map wire xs) @ rest"
  have "length xs \<le> length (concat (map wire xs))" by (rule length_concat_ge) (rule assms(2))
  also have "dec_pos d + length (concat (map wire xs)) \<le> length (dec_data d)"
    by (rule unread_length) fact+
  finally have "n \<le> remaining d"
    using unread_length [OF wf u] \<open>length xs \<le> _\<close> by (simp add: assms(3) remaining_def)
  moreover have "read_times rd (length xs) d = Ok (xs, advance d (length (concat (map wire xs))))"
    by (rule parsesD [OF parses_read_times]) (auto intro: assms wf u)
  ultimately show "(if n < 0 \<or> n > remaining d then Err s else read_times rd (nat n) d)
      = Ok (xs, advance d (length (concat (map wire xs))))"
    by (simp add: assms(3))
qed

lemma varbytes_wire_ne [simp]: "varbytes_wire bs \<noteq> []"
  by (simp add: varbytes_wire_def)

lemma varstring_wire_ne [simp]: "varstring_wire s \<noteq> []"
  by (simp add: varstring_wire_def)

definition varstrings_wire :: "jsstr list \<Rightarrow> bytes" where
  "varstrings_wire ss = varint_wire (int (length ss)) @ concat (map varstring_wire ss)"

lemma emits_writeVarStrings [emits_rules]:
  "short ss \<Longrightarrow> list_all str_ok ss \<Longrightarrow> emits (\<lambda>e. writeVarStrings e ss) (varstrings_wire ss)"
  unfolding writeVarStrings_def varstrings_wire_def
  by (intro emits_rules emits_writeStructs)
     (auto simp: list_all_iff str_ok_def dest: short_bound)

lemma parses_readVarStrings [parses_rules]:
  assumes "short ss" "list_all str_ok ss"
  shows "parses readVarStrings (varstrings_wire ss) ss"
  unfolding readVarStrings_def varstrings_wire_def using assms
  by (intro parses_bind [OF parses_readVarInt [OF short_num]] parses_counted parses_readVarString)
     (auto simp: list_all_iff)

section \<open>Progress of reading\<close>

text \<open>
  A read \<open>moves\<close> by at least \<open>k\<close> when on every decoder it returns a value or a status
  (it neither throws nor loops), stays on the same buffer and inside it, and a successful
  read consumes at least \<open>k\<close> bytes.
\<close>

definition moves :: "nat \<Rightarrow> (decoder \<Rightarrow> ('a \<times> decoder) vs) \<Rightarrow> bool" where
  "moves k rd =
     (\<forall>d. wf_dec d \<longrightarrow>
        (case rd d of
           Ok (v, d') \<Rightarrow> dec_data d' = dec_data d \<and> dec_pos d + k \<le> dec_pos d' \<and> wf_dec d'
         | Err _ \<Rightarrow> True | Throw \<Rightarrow> False | Hang \<Rightarrow> False))"

named_theorems moves_rules \<open>how far each read moves\<close>

lemma moves_Ok:
  "moves k rd \<Longrightarrow> wf_dec d \<Longrightarrow> rd d = Ok (v, d') \<Longrightarrow>
     dec_data d' = dec_data d \<and> dec_pos d + k \<le> dec_pos d' \<and> wf_dec d'"
  by (fastforce simp: moves_def)

lemma moves_total: "moves k rd \<Longrightarrow> wf_dec d \<Longrightarrow> rd d \<noteq> Throw \<and> rd d \<noteq> Hang"
  by (fastforce simp: moves_def)

lemma movesI:
  assumes "\<And>d v d'. wf_dec d \<Longrightarrow> rd d = Ok (v, d') \<Longrightarrow>
      dec_data d' = dec_data d \<and> dec_pos d + k \<le> dec_pos d' \<and> wf_dec d'"
    and "\<And>d. wf_dec d \<Longrightarrow> rd d \<noteq> Throw" "\<And>d. wf_dec d \<Longrightarrow> rd d \<noteq> Hang"
  shows "moves k rd"
  unfolding moves_def
proof (intro allI impI)
  fix d assume "wf_dec d"
  then show "case rd d of
      Ok (v, d') \<Rightarrow> dec_data d' = dec_data d \<and> dec_pos d + k \<le> dec_pos d' \<and> wf_dec d'
    | Err _ \<Rightarrow> True | Throw \<Rightarrow> False | Hang \<Rightarrow> False"
    using assms(1) [of d] assms(2,3) [of d] by (cases "rd d") auto
qed

lemma moves_mono: "moves k rd \<Longrightarrow> j \<le> k \<Longrightarrow> moves j rd"
proof (rule movesI)
  fix d v d' assume "moves k rd" "j \<le> k" "wf_dec d" "rd d = Ok (v, d')"
  then show "dec_data d' = dec_data d \<and> dec_pos d + j \<le> dec_pos d' \<and> wf_dec d'"
    using moves_Ok [of k rd d v d'] by simp
qed (use moves_total in blast)+

lemma moves_return [moves_rules]: "moves 0 (\<lambda>d. Ok (v, d))"
  by (simp add: moves_def)

lemma moves_err [moves_rules]: "moves k (\<lambda>d. Err s)"
  by (simp add: moves_def)

lemma moves_if [moves_rules]:
  "moves k f \<Longrightarrow> moves k g \<Longrightarrow> moves k (\<lambda>d. if c d then f d else g d)"
  by (simp add: moves_def)

lemma moves_bind:
  assumes "moves j rd" "\<And>v. moves k (f v)"
  shows "moves (j + k) (\<lambda>d. andThen (rd d) (\<lambda>(v, d). f v d))"
proof (rule movesI)
  fix d v d'
  assume wf: "wf_dec d" and "andThen (rd d) (\<lambda>(v, d). f v d) = Ok (v, d')"
  then obtain a d1 where "rd d = Ok (a, d1)" "f a d1 = Ok (v, d')" by auto
  then show "dec_data d' = dec_data d \<and> dec_pos d + (j + k) \<le> dec_pos d' \<and> wf_dec d'"
    using moves_Ok [OF assms(1) wf] moves_Ok [OF assms(2)] by fastforce
next
  fix d assume wf: "wf_dec d"
  show "andThen (rd d) (\<lambda>(v, d). f v d) \<noteq> Throw"
    using moves_total [OF assms(1) wf] moves_Ok [OF assms(1) wf] moves_total [OF assms(2)]
    by (auto simp: andThen_Throw_iff)
  show "andThen (rd d) (\<lambda>(v, d). f v d) \<noteq> Hang"
    using moves_total [OF assms(1) wf] moves_Ok [OF assms(1) wf] moves_total [OF assms(2)]
    by (auto simp: andThen_Hang_iff)
qed

lemma moves_first [moves_rules]:
  "moves k rd \<Longrightarrow> (\<And>v. moves 0 (f v)) \<Longrightarrow> moves k (\<lambda>d. andThen (rd d) (\<lambda>(v, d). f v d))"
  using moves_bind [of k rd 0 f] by simp

lemma moves_pure [moves_rules]:
  "r \<noteq> Throw \<Longrightarrow> r \<noteq> Hang \<Longrightarrow> (\<And>v. moves k (f v)) \<Longrightarrow> moves k (\<lambda>d. andThen r (\<lambda>v. f v d))"
  by (cases r) (simp_all add: moves_def)

lemma moves_readVarInt: "moves 1 readVarInt"
proof (rule movesI)
  fix d v d'
  assume "wf_dec d" "readVarInt d = Ok (v, d')"
  then show "dec_data d' = dec_data d \<and> dec_pos d + 1 \<le> dec_pos d' \<and> wf_dec d'"
    by (auto simp: readVarInt_def wf_dec_def dest!: decodeVarInt_sound)
qed (auto simp: readVarInt_def andThen_Throw_iff andThen_Hang_iff decodeVarInt_total)

lemma moves_readBytes: "k \<le> nat n \<Longrightarrow> moves k (\<lambda>d. readBytes d n)"
  by (rule movesI) (auto simp: readBytes_def wf_dec_def split: if_splits)

lemma moves_readDate: "moves 1 readDate"
  unfolding readDate_def by (rule moves_rules moves_readVarInt)+

lemma moves_readVarBytes: "moves 1 readVarBytes"
  unfolding readVarBytes_def by (rule moves_rules moves_readVarInt moves_readBytes le0)+

lemma moves_readVarString: "moves 1 readVarString"
  unfolding readVarString_def by (rule moves_rules moves_readVarInt moves_readBytes le0)+

lemma moves_read_times [moves_rules]: "moves 0 rd \<Longrightarrow> moves 0 (read_times rd n)"
proof (induction n)
  case (Suc n)
  then show ?case unfolding read_times.simps [abs_def] by (simp add: moves_first moves_return)
qed (simp add: moves_def)

lemmas moves_fields =
  moves_readVarInt moves_readDate moves_readVarBytes moves_readVarString

lemmas moves_fields_0 [moves_rules] = moves_fields [THEN moves_mono, OF le0]

lemma moves_readVarStrings: "moves 1 readVarStrings"
  unfolding readVarStrings_def by (rule moves_readVarInt moves_rules)+

lemma readStructs_from_moves:
  assumes "moves 1 rd" "wf_dec d"
  shows "case readStructs_from rd acc d of
           Ok (xs, d') \<Rightarrow> done_dec d' | Err _ \<Rightarrow> True | Throw \<Rightarrow> False | Hang \<Rightarrow> False"
  using assms
proof (induction rd acc d rule: readStructs_from.induct)
  case (1 rd acc d)
  show ?case
  proof (cases "rd d")
    case (Ok p)
    obtain v d' where p: "p = (v, d')" by force
    have "dec_data d' = dec_data d" "dec_pos d < dec_pos d'" "wf_dec d'"
      using moves_Ok [OF 1(2,3)] Ok p by (auto simp: Suc_le_eq)
    with 1(1) [OF _ Ok] 1(2) p Ok show ?thesis
      by (subst readStructs_from.simps) simp
  qed (use moves_total [OF 1(2,3)] in \<open>subst readStructs_from.simps, simp\<close>)+
qed

section \<open>The contract of a struct codec\<close>

text \<open>
  \<open>ICodecStruct<T>\<close>: an encoder and a decoder of one type. \<open>wire\<close> is the byte string of a
  value and \<open>ok\<close> the values the format can carry. What a codec promises: encoding emits
  the wire form, decoding reads it back wherever it stands, and decoding arbitrary bytes
  makes progress or fails with a status.
\<close>

locale struct_codec =
  fixes wr :: "encoder \<Rightarrow> 'a \<Rightarrow> written"
    and rd :: "decoder \<Rightarrow> ('a \<times> decoder) vs"
    and wire :: "'a \<Rightarrow> bytes"
    and ok :: "'a \<Rightarrow> bool"
  assumes wr_emits: "ok x \<Longrightarrow> emits (\<lambda>e. wr e x) (wire x)"
    and rd_parses: "ok x \<Longrightarrow> parses rd (wire x) x"
    and rd_moves: "moves 1 rd"
begin

lemma encode_ok: "ok x \<Longrightarrow> encode_with (\<lambda>e. wr e x) = Ok (wire x)"
  by (rule encode_with_emits) (rule wr_emits)

lemma decode_ok:
  "ok x \<Longrightarrow> rd (Decoder (wire x @ rest)) = Ok (x, advance (Decoder (wire x @ rest)) (length (wire x)))"
  by (rule parsesD [OF rd_parses]) simp_all

lemma wire_ne: "ok x \<Longrightarrow> wire x \<noteq> []"
  using moves_Ok [OF rd_moves _ decode_ok [of x "[]"]] by (auto simp: advance_def)

lemma decode_total: "rd (Decoder bs) \<noteq> Throw \<and> rd (Decoder bs) \<noteq> Hang"
  by (rule moves_total [OF rd_moves]) simp

lemma prefix_free: "ok x \<Longrightarrow> ok y \<Longrightarrow> wire x @ r = wire y @ r' \<Longrightarrow> x = y \<and> r = r'"
proof -
  assume a: "ok x" "ok y" "wire x @ r = wire y @ r'"
  then have "x = y" using decode_ok [OF a(1), of r] decode_ok [OF a(2), of r'] by simp
  with a show ?thesis by simp
qed

lemma structs_encode:
  "list_all ok xs \<Longrightarrow> encode_with (\<lambda>e. writeStructs wr e xs) = Ok (concat (map wire xs))"
  by (intro encode_with_emits emits_writeStructs) (auto simp: list_all_iff wr_emits)

lemma structs_from:
  "list_all ok xs \<Longrightarrow> wf_dec d \<Longrightarrow> unread d = concat (map wire xs) \<Longrightarrow>
     readStructs_from rd acc d = Ok (acc @ xs, advance d (length (unread d)))"
proof (induction xs arbitrary: acc d)
  case Nil
  then show ?case by (subst readStructs_from.simps) (simp add: unread_def done_dec_def)
next
  case (Cons x xs)
  let ?d = "advance d (length (wire x))"
  have u: "unread d = wire x @ concat (map wire xs)" using Cons.prems by simp
  have r: "rd d = Ok (x, ?d)"
    by (rule parsesD [OF rd_parses]) (use Cons.prems u in auto)
  have "wire x \<noteq> []" using Cons.prems by (auto intro!: wire_ne)
  then have "\<not> done_dec d" using u by (auto simp: done_dec_def unread_def)
  moreover have "readStructs_from rd (acc @ [x]) ?d = Ok ((acc @ [x]) @ xs, advance ?d (length (unread ?d)))"
    using Cons.prems u by (intro Cons.IH wf_advance [OF _ u]) auto
  ultimately show ?case
    using r u \<open>wire x \<noteq> []\<close> by (subst readStructs_from.simps) simp
qed

lemma structs_decode:
  "list_all ok xs \<Longrightarrow> wf_dec d \<Longrightarrow> unread d = concat (map wire xs) \<Longrightarrow>
     readStructs rd d = Ok (xs, advance d (length (unread d)))"
  by (simp add: readStructs_def structs_from)

lemma structs_total:
  "wf_dec d \<Longrightarrow> readStructs rd d \<noteq> Throw \<and> readStructs rd d \<noteq> Hang"
  using readStructs_from_moves [OF rd_moves, of d "[]"] by (auto simp: readStructs_def)

lemma structs_done: "wf_dec d \<Longrightarrow> readStructs rd d = Ok (xs, d') \<Longrightarrow> done_dec d'"
  using readStructs_from_moves [OF rd_moves, of d "[]"] by (simp add: readStructs_def)

end

section \<open>Properties of the primitives\<close>

text \<open>Encoding an integer and reading it back. Every integer in \<open>[0, 2\<^sup>5\<^sup>6)\<close> that a
  JavaScript number can hold is written as one part of one to eight bytes, and reading it at
  any position of any buffer gives the integer and consumes exactly those bytes.\<close>

theorem varint_roundtrip:
  assumes "0 \<le> n" "n < 2 ^ 56" "Number_of n = n"
  shows "\<exists>bs. encodeVarInt n = Ok bs \<and> 1 \<le> length bs \<and> length bs \<le> 8 \<and>
           readVarInt \<lparr>dec_data = pre @ bs @ rest, dec_pos = length pre\<rparr> =
             Ok (n, \<lparr>dec_data = pre @ bs @ rest, dec_pos = length pre + length bs\<rparr>)"
proof (intro exI conjI)
  show "encodeVarInt n = Ok (varint_wire n)" using assms by (simp add: encodeVarInt_eq)
  show "1 \<le> length (varint_wire n)" using assms by (simp add: Suc_le_eq)
  show "length (varint_wire n) \<le> 8" using assms by (simp add: length_varint_wire)
  show "readVarInt \<lparr>dec_data = pre @ varint_wire n @ rest, dec_pos = length pre\<rparr> =
      Ok (n, \<lparr>dec_data = pre @ varint_wire n @ rest, dec_pos = length pre + length (varint_wire n)\<rparr>)"
    using parsesD [OF parses_readVarInt, of n "\<lparr>dec_data = pre @ varint_wire n @ rest, dec_pos = length pre\<rparr>" rest]
      assms by (simp add: is_num_def wf_dec_def unread_def advance_def)
qed

theorem varint_roundtrip_witness:
  "\<exists>bs. encodeVarInt 300 = Ok bs \<and> 1 \<le> length bs \<and> length bs \<le> 8 \<and>
     readVarInt \<lparr>dec_data = [7] @ bs @ [9], dec_pos = length [7 :: byte]\<rparr> =
       Ok (300, \<lparr>dec_data = [7] @ bs @ [9], dec_pos = length [7 :: byte] + length bs\<rparr>)"
  by (rule varint_roundtrip) (simp_all add: Number_of_def)

text \<open>C40: The range and the error branches of the integer encoding. A negative integer is
  refused with \<open>InvalidParam\<close> and one of 57 bits or more with \<open>VarLimitExceeded\<close>. On arbitrary
  bytes the decoder neither throws nor loops: it returns an integer of the encoder's range
  together with a length of at most eight bytes inside the buffer, or one of two statuses.\<close>

theorem varint_range:
  "(case encodeVarInt n of
      Ok bs \<Rightarrow> 0 \<le> n \<and> n < 2 ^ 56
    | Err s \<Rightarrow> (n < 0 \<and> s = InvalidParam) \<or> (n \<ge> 2 ^ 56 \<and> s = VarLimitExceeded)
    | Throw \<Rightarrow> False | Hang \<Rightarrow> False)
   \<and> (case decodeVarInt bytes off of
      Ok (v, k) \<Rightarrow> 0 \<le> v \<and> v < 2 ^ 56 \<and> 0 < k \<and> k \<le> 8 \<and> off + k \<le> length bytes
    | Err s \<Rightarrow> s = InvalidMessage \<or> s = VarLimitExceeded
    | Throw \<Rightarrow> False | Hang \<Rightarrow> False)"
proof (rule conjI)
  show "case decodeVarInt bytes off of
      Ok (v, k) \<Rightarrow> 0 \<le> v \<and> v < 2 ^ 56 \<and> 0 < k \<and> k \<le> 8 \<and> off + k \<le> length bytes
    | Err s \<Rightarrow> s = InvalidMessage \<or> s = VarLimitExceeded
    | Throw \<Rightarrow> False | Hang \<Rightarrow> False"
    using decodeVarInt_sound [of bytes off] decodeVarInt_total [of bytes off]
      decodeVarInt_status [of bytes off] by (cases "decodeVarInt bytes off") auto
qed (simp add: encodeVarInt_eq)

end
