(* ===== verification/Codecs.thy ===== *)
theory Codecs
  imports Codec
begin

text \<open>
  The wire formats of \<^verbatim>\<open>shared/codecs\<close>: one record (or datatype) and one encode and decode
  function per file, the wire form of each value, and the interpretation of the codec
  contract that gives its round trip, prefix freedom and totality.
\<close>

section \<open>Writing combinators\<close>

text \<open>A call whose status the code ignores: an error skips the write and execution goes on.\<close>

fun ignoreW :: "written \<Rightarrow> (encoder \<Rightarrow> written) \<Rightarrow> written" where
  "ignoreW (Throw, e) f = (Throw, e)"
| "ignoreW (Hang, e) f = (Hang, e)"
| "ignoreW (Ok _, e) f = f e"
| "ignoreW (Err _, e) f = f e"

text \<open>\<open>if (\<dots>) return Status.X\<close> ahead of the writes.\<close>

definition guardW :: "bool \<Rightarrow> status \<Rightarrow> (encoder \<Rightarrow> written) \<Rightarrow> encoder \<Rightarrow> written" where
  "guardW bad s w e = (if bad then (Err s, e) else w e)"

lemma emits_ignore [emits_rules]:
  assumes "emits w bs" "emits w' bs'"
  shows "emits (\<lambda>e. ignoreW (w e) w') (bs @ bs')"
proof -
  have "ignoreW (w e) w' = thenW (w e) w'" for e
  proof -
    obtain ps where "w e = (Ok (), e @ ps)" using assms(1) unfolding emits_def by blast
    then show ?thesis by simp
  qed
  then show ?thesis by (rule emits_cong) (intro emits_then assms)
qed

lemma emits_opt [emits_rules]:
  "emits (\<lambda>e. case x of None \<Rightarrow> (Ok (), e) | Some h \<Rightarrow> writeBytes e h)
     (case x of None \<Rightarrow> [] | Some h \<Rightarrow> h)"
  by (cases x) (simp_all add: emits_nothing emits_writeBytes)

lemma emits_guard [emits_rules]: "\<not> bad \<Longrightarrow> emits w bs \<Longrightarrow> emits (guardW bad s w) bs"
  by (rule emits_cong [of _ w]) (simp_all add: guardW_def)

lemma parses_then: "c \<Longrightarrow> parses f bs v \<Longrightarrow> parses (\<lambda>d. if c then f d else g d) bs v"
  by simp

lemma parses_else: "\<not> c \<Longrightarrow> parses g bs v \<Longrightarrow> parses (\<lambda>d. if c then f d else g d) bs v"
  by simp

lemma parses_pure:
  "r = Ok a \<Longrightarrow> parses (f a) bs v \<Longrightarrow> parses (\<lambda>d. andThen r (\<lambda>x. f x d)) bs v"
  by simp

text \<open>A decoder that ends by building its record.\<close>

lemma parses_done: "v = v' \<Longrightarrow> parses (\<lambda>d. Ok (v, d)) [] v'"
  by (simp add: parses_return)

lemma parses_final:
  "parses rd bs v \<Longrightarrow> g v = v' \<Longrightarrow> parses (\<lambda>d. andThen (rd d) (\<lambda>(v, d). Ok (g v, d))) bs v'"
  using parses_bind [of rd bs v "\<lambda>v d. Ok (g v, d)" "[]" v'] by (simp add: parses_done)

lemmas parses_fields =
  parses_final parses_bind parses_readVarString parses_readVarBytes parses_readVarInt
  parses_readDate parses_readVarStrings parses_readBytes

section \<open>Key derivation material (kdm.ts)\<close>

record IKDM =
  kdm_label :: jsstr
  kdm_index :: int

definition kdmEq :: "IKDM \<Rightarrow> IKDM \<Rightarrow> bool" where
  "kdmEq k1 k2 = (kdm_label k1 = kdm_label k2 \<and> kdm_index k1 = kdm_index k2)"

definition kdm_encode :: "encoder \<Rightarrow> IKDM \<Rightarrow> written" where
  "kdm_encode e k = thenW (writeVarString e (kdm_label k)) (\<lambda>e. writeVarInt e (kdm_index k))"

definition kdm_decode :: "decoder \<Rightarrow> (IKDM \<times> decoder) vs" where
  "kdm_decode d =
     andThen (readVarString d) (\<lambda>(l, d).
     andThen (readVarInt d) (\<lambda>(i, d).
     Ok (\<lparr>kdm_label = l, kdm_index = i\<rparr>, d)))"

definition kdm_wire :: "IKDM \<Rightarrow> bytes" where
  "kdm_wire k = varstring_wire (kdm_label k) @ varint_wire (kdm_index k)"

definition kdm_ok :: "IKDM \<Rightarrow> bool" where
  "kdm_ok k = (str_ok (kdm_label k) \<and> is_num (kdm_index k))"

lemma num_writes [emits_rules]: "is_num n \<Longrightarrow> emits (\<lambda>e. writeVarInt e n) (varint_wire n)"
  by (simp add: emits_writeVarInt is_num_def)

lemma str_writes [emits_rules]: "str_ok s \<Longrightarrow> emits (\<lambda>e. writeVarString e s) (varstring_wire s)"
  by (simp add: emits_writeVarString str_ok_def)

declare emits_writeVarInt [emits_rules del] emits_writeVarString [emits_rules del]

interpretation kdmCodec: struct_codec kdm_encode kdm_decode kdm_wire kdm_ok
proof
  fix k assume "kdm_ok k"
  then have k: "str_ok (kdm_label k)" "is_num (kdm_index k)" by (simp_all add: kdm_ok_def)
  show "emits (\<lambda>e. kdm_encode e k) (kdm_wire k)"
    unfolding kdm_encode_def kdm_wire_def by (rule emits_rules k)+
  show "parses kdm_decode (kdm_wire k) k"
    unfolding kdm_decode_def kdm_wire_def by (rule parses_fields k | (simp; fail))+
next
  show "moves 1 kdm_decode"
    unfolding kdm_decode_def by (rule moves_fields moves_rules)+
qed

section \<open>Entity identifiers (eid.ts)\<close>

record IEntityID =
  eid_id :: bytes
  eid_ts :: date

definition eid_encode :: "encoder \<Rightarrow> IEntityID \<Rightarrow> written" where
  "eid_encode e x = thenW (writeVarBytes e (eid_id x)) (\<lambda>e. writeDate e (eid_ts x))"

definition eid_decode :: "decoder \<Rightarrow> (IEntityID \<times> decoder) vs" where
  "eid_decode d =
     andThen (readVarBytes d) (\<lambda>(i, d).
     andThen (readDate d) (\<lambda>(ts, d).
     Ok (\<lparr>eid_id = i, eid_ts = ts\<rparr>, d)))"

definition makeEID :: "IEntityID \<Rightarrow> bytes vs" where
  "makeEID x = encode_with (\<lambda>e. eid_encode e x)"

definition genSingletonEID :: "bytes \<Rightarrow> bytes vs" where
  "genSingletonEID i = makeEID \<lparr>eid_id = i, eid_ts = mk_date 0\<rparr>"

definition eid_wire :: "IEntityID \<Rightarrow> bytes" where
  "eid_wire x = varbytes_wire (eid_id x) @ varint_wire (the (eid_ts x))"

definition eid_ok :: "IEntityID \<Rightarrow> bool" where
  "eid_ok x = (short (eid_id x) \<and> date_ok (eid_ts x))"

interpretation eidCodec: struct_codec eid_encode eid_decode eid_wire eid_ok
proof
  fix x assume "eid_ok x"
  then have k: "short (eid_id x)" "date_ok (eid_ts x)" by (simp_all add: eid_ok_def)
  show "emits (\<lambda>e. eid_encode e x) (eid_wire x)"
    unfolding eid_encode_def eid_wire_def by (rule emits_rules k)+
  show "parses eid_decode (eid_wire x) x"
    unfolding eid_decode_def eid_wire_def by (rule parses_fields k | (simp; fail))+
next
  show "moves 1 eid_decode"
    unfolding eid_decode_def by (rule moves_fields moves_rules)+
qed

text \<open>The identifiers that \<open>eidCodec\<close> reads: the check \<open>messageHeadCodec\<close> makes.\<close>

definition eid_readable :: "bytes \<Rightarrow> bool" where
  "eid_readable b = (case eid_decode (Decoder b) of Ok _ \<Rightarrow> True | _ \<Rightarrow> False)"

section \<open>Message heads (messageHead.ts)\<close>

record IMessageHead =
  mh_typ :: "jsstr option"
  mh_eid :: bytes
  mh_off :: int
  mh_ctr :: int
  mh_len :: int
  mh_hsh :: "bytes option"

definition messageHead_encode :: "encoder \<Rightarrow> IMessageHead \<Rightarrow> written" where
  "messageHead_encode e msg =
     thenW (writeVarString e (case mh_typ msg of None \<Rightarrow> [] | Some t \<Rightarrow> t)) (\<lambda>e.
     thenW (writeVarBytes e (mh_eid msg)) (\<lambda>e.
     thenW (writeVarInt e (mh_off msg)) (\<lambda>e.
     thenW (writeVarInt e (mh_ctr msg)) (\<lambda>e.
     thenW (writeVarInt e (mh_len msg)) (\<lambda>e.
     case mh_hsh msg of None \<Rightarrow> (Ok (), e) | Some h \<Rightarrow> writeBytes e h)))))"

definition messageHead_decode :: "decoder \<Rightarrow> (IMessageHead \<times> decoder) vs" where
  "messageHead_decode d =
     andThen (readVarString d) (\<lambda>(t, d).
     andThen (readVarBytes d) (\<lambda>(i, d).
     andThen (eid_decode (Decoder i)) (\<lambda>_.
     andThen (readVarInt d) (\<lambda>(o', d).
     andThen (readVarInt d) (\<lambda>(c, d).
     andThen (readVarInt d) (\<lambda>(l, d).
     if l > 0 then
       andThen (readBytes d (int hshBytes)) (\<lambda>(h, d).
       Ok (\<lparr>mh_typ = Some t, mh_eid = i, mh_off = o', mh_ctr = c, mh_len = l, mh_hsh = Some h\<rparr>, d))
     else Ok (\<lparr>mh_typ = Some t, mh_eid = i, mh_off = o', mh_ctr = c, mh_len = l, mh_hsh = None\<rparr>, d)))))))"

definition messageHead_wire :: "IMessageHead \<Rightarrow> bytes" where
  "messageHead_wire m =
     varstring_wire (the (mh_typ m)) @ varbytes_wire (mh_eid m) @ varint_wire (mh_off m)
     @ varint_wire (mh_ctr m) @ varint_wire (mh_len m) @ (case mh_hsh m of None \<Rightarrow> [] | Some h \<Rightarrow> h)"

definition messageHead_ok :: "IMessageHead \<Rightarrow> bool" where
  "messageHead_ok m =
     (mh_typ m \<noteq> None \<and> str_ok (the (mh_typ m)) \<and> short (mh_eid m) \<and> eid_readable (mh_eid m)
      \<and> is_num (mh_off m) \<and> is_num (mh_ctr m) \<and> is_num (mh_len m)
      \<and> (case mh_hsh m of None \<Rightarrow> mh_len m = 0 | Some h \<Rightarrow> mh_len m > 0 \<and> length h = hshBytes))"

lemma eid_decode_total: "eid_decode (Decoder b) \<noteq> Throw" "eid_decode (Decoder b) \<noteq> Hang"
  using eidCodec.decode_total by auto

interpretation messageHeadCodec:
  struct_codec messageHead_encode messageHead_decode messageHead_wire messageHead_ok
proof
  fix m assume ok: "messageHead_ok m"
  then obtain t where t: "mh_typ m = Some t" by (auto simp: messageHead_ok_def)
  have k: "str_ok t" "short (mh_eid m)" "is_num (mh_off m)" "is_num (mh_ctr m)" "is_num (mh_len m)"
    using ok t by (simp_all add: messageHead_ok_def)
  show "emits (\<lambda>e. messageHead_encode e m) (messageHead_wire m)"
    unfolding messageHead_encode_def messageHead_wire_def t option.case option.sel
    by (rule emits_rules k)+
  obtain p where p: "eid_decode (Decoder (mh_eid m)) = Ok p"
    using ok by (auto simp: messageHead_ok_def eid_readable_def split: vs.splits)
  show "parses messageHead_decode (messageHead_wire m) m"
  proof (cases "mh_hsh m")
    case None
    then have l: "mh_len m = 0" using ok by (simp add: messageHead_ok_def)
    show ?thesis
      unfolding messageHead_decode_def messageHead_wire_def t None option.case option.sel
      by (rule parses_fields parses_pure [OF p] parses_done parses_else k | (simp add: t None l; fail))+
  next
    case (Some h)
    then have l: "mh_len m > 0" "length h = hshBytes" using ok by (simp_all add: messageHead_ok_def)
    show ?thesis
      unfolding messageHead_decode_def messageHead_wire_def t Some option.case option.sel
      by (rule parses_fields parses_pure [OF p] parses_done parses_then k | (simp add: t Some l; fail))+
  qed
next
  show "moves 1 messageHead_decode"
    unfolding messageHead_decode_def
    by (rule moves_fields moves_rules moves_readBytes le0 eid_decode_total)+
qed

record IMinimalMessageHead =
  mm_eid :: bytes
  mm_off :: int
  mm_ctr :: int

definition minimalMessageHead_encode :: "encoder \<Rightarrow> IMinimalMessageHead \<Rightarrow> written" where
  "minimalMessageHead_encode e msg =
     thenW (writeVarBytes e (mm_eid msg)) (\<lambda>e.
     thenW (writeVarInt e (mm_off msg)) (\<lambda>e.
     writeVarInt e (mm_ctr msg)))"

definition minimalMessageHead_decode :: "decoder \<Rightarrow> (IMinimalMessageHead \<times> decoder) vs" where
  "minimalMessageHead_decode d =
     andThen (readVarBytes d) (\<lambda>(i, d).
     andThen (eid_decode (Decoder i)) (\<lambda>_.
     andThen (readVarInt d) (\<lambda>(o', d).
     andThen (readVarInt d) (\<lambda>(c, d).
     Ok (\<lparr>mm_eid = i, mm_off = o', mm_ctr = c\<rparr>, d)))))"

definition minimalMessageHead_wire :: "IMinimalMessageHead \<Rightarrow> bytes" where
  "minimalMessageHead_wire m = varbytes_wire (mm_eid m) @ varint_wire (mm_off m) @ varint_wire (mm_ctr m)"

definition minimalMessageHead_ok :: "IMinimalMessageHead \<Rightarrow> bool" where
  "minimalMessageHead_ok m =
     (short (mm_eid m) \<and> eid_readable (mm_eid m) \<and> is_num (mm_off m) \<and> is_num (mm_ctr m))"

interpretation minimalMessageHeadCodec: struct_codec
  minimalMessageHead_encode minimalMessageHead_decode minimalMessageHead_wire minimalMessageHead_ok
proof
  fix m assume ok: "minimalMessageHead_ok m"
  then have k: "short (mm_eid m)" "is_num (mm_off m)" "is_num (mm_ctr m)"
    by (simp_all add: minimalMessageHead_ok_def)
  obtain p where p: "eid_decode (Decoder (mm_eid m)) = Ok p"
    using ok by (auto simp: minimalMessageHead_ok_def eid_readable_def split: vs.splits)
  show "emits (\<lambda>e. minimalMessageHead_encode e m) (minimalMessageHead_wire m)"
    unfolding minimalMessageHead_encode_def minimalMessageHead_wire_def by (rule emits_rules k)+
  show "parses minimalMessageHead_decode (minimalMessageHead_wire m) m"
    unfolding minimalMessageHead_decode_def minimalMessageHead_wire_def
    by (rule parses_fields parses_pure [OF p] k | (simp; fail))+
next
  show "moves 1 minimalMessageHead_decode"
    unfolding minimalMessageHead_decode_def
    by (rule moves_fields moves_rules eid_decode_total)+
qed

section \<open>Authentication timestamps (authTimestamp.ts)\<close>

record IAuthTimestamp =
  at_pubKey :: bytes
  at_sig :: bytes
  at_timestamp :: date

definition authTimestamp_encode :: "encoder \<Rightarrow> IAuthTimestamp \<Rightarrow> written" where
  "authTimestamp_encode e x =
     thenW (writeBytes e (at_pubKey x)) (\<lambda>e.
     thenW (writeBytes e (at_sig x)) (\<lambda>e.
     writeDate e (at_timestamp x)))"

definition authTimestamp_decode :: "decoder \<Rightarrow> (IAuthTimestamp \<times> decoder) vs" where
  "authTimestamp_decode d =
     andThen (readBytes d (int pubKeyBytes)) (\<lambda>(pk, d).
     andThen (readBytes d (int sigBytes)) (\<lambda>(sg, d).
     andThen (readDate d) (\<lambda>(ts, d).
     Ok (\<lparr>at_pubKey = pk, at_sig = sg, at_timestamp = ts\<rparr>, d))))"

definition authTimestamp_wire :: "IAuthTimestamp \<Rightarrow> bytes" where
  "authTimestamp_wire x = at_pubKey x @ at_sig x @ varint_wire (the (at_timestamp x))"

definition authTimestamp_ok :: "IAuthTimestamp \<Rightarrow> bool" where
  "authTimestamp_ok x =
     (length (at_pubKey x) = pubKeyBytes \<and> length (at_sig x) = sigBytes \<and> date_ok (at_timestamp x))"

lemma moves_bytes1: "0 < n \<Longrightarrow> moves 1 (\<lambda>d. readBytes d (int n))"
  by (rule moves_readBytes) simp

interpretation authTimestampCodec:
  struct_codec authTimestamp_encode authTimestamp_decode authTimestamp_wire authTimestamp_ok
proof
  fix x assume "authTimestamp_ok x"
  then have k: "length (at_pubKey x) = pubKeyBytes" "length (at_sig x) = sigBytes" "date_ok (at_timestamp x)"
    by (simp_all add: authTimestamp_ok_def)
  show "emits (\<lambda>e. authTimestamp_encode e x) (authTimestamp_wire x)"
    unfolding authTimestamp_encode_def authTimestamp_wire_def by (rule emits_rules k)+
  show "parses authTimestamp_decode (authTimestamp_wire x) x"
    unfolding authTimestamp_decode_def authTimestamp_wire_def
    by (rule parses_fields k | (simp add: k; fail))+
next
  have p: "0 < pubKeyBytes" by (simp add: pubKeyBytes_def)
  show "moves 1 authTimestamp_decode"
    unfolding authTimestamp_decode_def
    by (rule moves_bytes1 [OF p] moves_rules moves_readBytes le0)+
qed

section \<open>Bags (bag.ts)\<close>

definition asChildKey :: "bytes \<Rightarrow> bytes vs" where
  "asChildKey b = (if length b \<noteq> hashBytes then Err InvalidParam else Ok b)"

definition asHostRlm :: "bytes \<Rightarrow> bytes vs" where
  "asHostRlm b = asChildKey b"

lemma asHostRlm_ok [simp]: "length b = hashBytes \<Longrightarrow> asHostRlm b = Ok b"
  by (simp add: asHostRlm_def asChildKey_def)

lemma asHostRlm_total: "asHostRlm b \<noteq> Throw" "asHostRlm b \<noteq> Hang"
  by (simp_all add: asHostRlm_def asChildKey_def)

lemma parses_hostRlm:
  "length b = hashBytes \<Longrightarrow> parses (f b) bs v \<Longrightarrow>
     parses (\<lambda>d. andThen (asHostRlm b) (\<lambda>x. f x d)) bs v"
  by (rule parses_pure) simp_all

record IBag =
  bag_rlm :: bytes
  bag_sig :: bytes
  bag_kdm :: bytes
  bag_headCph :: bytes
  bag_bodyCph :: bytes

definition bag_encode :: "encoder \<Rightarrow> IBag \<Rightarrow> written" where
  "bag_encode e b =
     guardW (length (bag_rlm b) \<noteq> hashBytes) InvalidParam (
     guardW (length (bag_sig b) \<noteq> sigBytes) InvalidParam (\<lambda>e.
     thenW (writeBytes e (bag_sig b)) (\<lambda>e.
     thenW (writeBytes e (bag_rlm b)) (\<lambda>e.
     thenW (writeBytes e (bag_kdm b)) (\<lambda>e.
     thenW (writeVarBytes e (bag_headCph b)) (\<lambda>e.
     writeVarBytes e (bag_bodyCph b))))))) e"

definition bag_decode :: "decoder \<Rightarrow> (IBag \<times> decoder) vs" where
  "bag_decode d =
     andThen (readBytes d (int sigBytes)) (\<lambda>(sg, d).
     andThen (readBytes d (int hashBytes)) (\<lambda>(raw, d).
     andThen (asHostRlm raw) (\<lambda>rlm.
     andThen (readBytes d (int kdmBytes)) (\<lambda>(kd, d).
     andThen (readVarBytes d) (\<lambda>(hd', d).
     andThen (readVarBytes d) (\<lambda>(bd, d).
     Ok (\<lparr>bag_rlm = rlm, bag_sig = sg, bag_kdm = kd, bag_headCph = hd', bag_bodyCph = bd\<rparr>, d)))))))"

definition bag_wire :: "IBag \<Rightarrow> bytes" where
  "bag_wire b =
     bag_sig b @ bag_rlm b @ bag_kdm b @ varbytes_wire (bag_headCph b) @ varbytes_wire (bag_bodyCph b)"

definition bag_ok :: "IBag \<Rightarrow> bool" where
  "bag_ok b =
     (length (bag_rlm b) = hashBytes \<and> length (bag_sig b) = sigBytes \<and> length (bag_kdm b) = kdmBytes
      \<and> short (bag_headCph b) \<and> short (bag_bodyCph b))"

interpretation bagCodec: struct_codec bag_encode bag_decode bag_wire bag_ok
proof
  fix b assume "bag_ok b"
  then have k: "length (bag_rlm b) = hashBytes" "length (bag_sig b) = sigBytes"
      "length (bag_kdm b) = kdmBytes" "short (bag_headCph b)" "short (bag_bodyCph b)"
    by (simp_all add: bag_ok_def)
  show "emits (\<lambda>e. bag_encode e b) (bag_wire b)"
    unfolding bag_encode_def bag_wire_def by (rule emits_rules k | (simp add: k; fail))+
  show "parses bag_decode (bag_wire b) b"
    unfolding bag_decode_def bag_wire_def
    by (rule parses_fields parses_hostRlm k | (simp add: k; fail))+
next
  have p: "0 < sigBytes" by (simp add: sigBytes_def)
  show "moves 1 bag_decode"
    unfolding bag_decode_def
    by (rule moves_bytes1 [OF p] moves_rules moves_readBytes le0 asHostRlm_total)+
qed

section \<open>Identity bundles (bundleHost.ts, identityBundle.ts)\<close>

record BundleHost =
  bh_handle :: jsstr
  bh_label :: jsstr
  bh_idx :: "int option"

definition bundleHost_encode :: "encoder \<Rightarrow> BundleHost \<Rightarrow> written" where
  "bundleHost_encode e h =
     thenW (writeVarString e (bh_handle h)) (\<lambda>e.
     thenW (writeVarString e (bh_label h)) (\<lambda>e.
     writeVarInt e (case bh_idx h of None \<Rightarrow> 0 | Some i \<Rightarrow> i)))"

definition bundleHost_decode :: "decoder \<Rightarrow> (BundleHost \<times> decoder) vs" where
  "bundleHost_decode d =
     andThen (readVarString d) (\<lambda>(h, d).
     andThen (readVarString d) (\<lambda>(l, d).
     andThen (readVarInt d) (\<lambda>(i, d).
     Ok (\<lparr>bh_handle = h, bh_label = l, bh_idx = Some i\<rparr>, d))))"

definition bundleHost_wire :: "BundleHost \<Rightarrow> bytes" where
  "bundleHost_wire h = varstring_wire (bh_handle h) @ varstring_wire (bh_label h) @ varint_wire (the (bh_idx h))"

definition bundleHost_ok :: "BundleHost \<Rightarrow> bool" where
  "bundleHost_ok h =
     (str_ok (bh_handle h) \<and> str_ok (bh_label h) \<and> bh_idx h \<noteq> None \<and> is_num (the (bh_idx h)))"

interpretation bundleHostCodec:
  struct_codec bundleHost_encode bundleHost_decode bundleHost_wire bundleHost_ok
proof
  fix h assume ok: "bundleHost_ok h"
  then obtain i where i: "bh_idx h = Some i" by (auto simp: bundleHost_ok_def)
  have k: "str_ok (bh_handle h)" "str_ok (bh_label h)" "is_num i"
    using ok i by (simp_all add: bundleHost_ok_def)
  show "emits (\<lambda>e. bundleHost_encode e h) (bundleHost_wire h)"
    unfolding bundleHost_encode_def bundleHost_wire_def i option.case option.sel by (rule emits_rules k)+
  show "parses bundleHost_decode (bundleHost_wire h) h"
    unfolding bundleHost_decode_def bundleHost_wire_def i option.sel
    by (rule parses_fields k | (simp add: i; fail))+
next
  show "moves 1 bundleHost_decode"
    unfolding bundleHost_decode_def by (rule moves_fields moves_rules)+
qed

definition identityHosts_encode :: "encoder \<Rightarrow> BundleHost list \<Rightarrow> written" where
  "identityHosts_encode e hosts =
     thenW (writeVarInt e (int (length hosts))) (\<lambda>e. writeStructs bundleHost_encode e hosts)"

definition identityHosts_decode :: "decoder \<Rightarrow> (BundleHost list \<times> decoder) vs" where
  "identityHosts_decode d =
     andThen (readVarInt d) (\<lambda>(n, d).
     if n < 0 then Err InvalidParam else read_times bundleHost_decode (nat n) d)"

definition identityHosts_wire :: "BundleHost list \<Rightarrow> bytes" where
  "identityHosts_wire hs = varint_wire (int (length hs)) @ concat (map bundleHost_wire hs)"

definition identityHosts_ok :: "BundleHost list \<Rightarrow> bool" where
  "identityHosts_ok hs = (short hs \<and> list_all bundleHost_ok hs)"

interpretation identityHostsCodec:
  struct_codec identityHosts_encode identityHosts_decode identityHosts_wire identityHosts_ok
proof
  fix hs assume ok: "identityHosts_ok hs"
  have k: "is_num (int (length hs))" using ok by (simp add: identityHosts_ok_def short_num)
  show "emits (\<lambda>e. identityHosts_encode e hs) (identityHosts_wire hs)"
    unfolding identityHosts_encode_def identityHosts_wire_def
    by (intro emits_then num_writes k emits_writeStructs bundleHostCodec.wr_emits)
       (use ok in \<open>auto simp: identityHosts_ok_def list_all_iff\<close>)
  have "parses (read_times bundleHost_decode (nat (int (length hs)))) (concat (map bundleHost_wire hs)) hs"
    using ok by (auto simp: identityHosts_ok_def list_all_iff bundleHostCodec.rd_parses
        intro!: parses_read_times)
  then show "parses identityHosts_decode (identityHosts_wire hs) hs"
    unfolding identityHosts_decode_def identityHosts_wire_def
    by (intro parses_bind [OF parses_readVarInt [OF k]] parses_else) simp_all
next
  show "moves 1 identityHosts_decode"
    unfolding identityHosts_decode_def
    by (rule moves_fields moves_rules moves_mono [OF bundleHostCodec.rd_moves le0])+
qed

section \<open>Export files (fileRealm.ts, fileHead.ts, fileIndexItem.ts, file.ts)\<close>

record IFileRealm =
  fr_realm :: IKDM
  fr_num :: int
  fr_hsh :: bytes

definition fileRealm_encode :: "encoder \<Rightarrow> IFileRealm \<Rightarrow> written" where
  "fileRealm_encode e row =
     guardW (fr_num row < 1) InvalidMessage (
     guardW (length (fr_hsh row) \<noteq> hshBytes) InvalidParam (\<lambda>e.
     thenW (kdm_encode e (fr_realm row)) (\<lambda>e.
     thenW (writeVarInt e (fr_num row)) (\<lambda>e.
     writeBytes e (fr_hsh row))))) e"

definition fileRealm_decode :: "decoder \<Rightarrow> (IFileRealm \<times> decoder) vs" where
  "fileRealm_decode d =
     andThen (kdm_decode d) (\<lambda>(r, d).
     andThen (readVarInt d) (\<lambda>(n, d).
     if n < 1 then Err InvalidMessage
     else andThen (readBytes d (int hshBytes)) (\<lambda>(h, d).
     Ok (\<lparr>fr_realm = r, fr_num = n, fr_hsh = h\<rparr>, d))))"

definition fileRealm_wire :: "IFileRealm \<Rightarrow> bytes" where
  "fileRealm_wire r = kdm_wire (fr_realm r) @ varint_wire (fr_num r) @ fr_hsh r"

definition fileRealm_ok :: "IFileRealm \<Rightarrow> bool" where
  "fileRealm_ok r =
     (kdm_ok (fr_realm r) \<and> is_num (fr_num r) \<and> 1 \<le> fr_num r \<and> length (fr_hsh r) = hshBytes)"

interpretation fileRealmCodec:
  struct_codec fileRealm_encode fileRealm_decode fileRealm_wire fileRealm_ok
proof
  fix r assume "fileRealm_ok r"
  then have k: "kdm_ok (fr_realm r)" "is_num (fr_num r)" "1 \<le> fr_num r" "length (fr_hsh r) = hshBytes"
    by (simp_all add: fileRealm_ok_def)
  show "emits (\<lambda>e. fileRealm_encode e r) (fileRealm_wire r)"
    unfolding fileRealm_encode_def fileRealm_wire_def
    by (rule kdmCodec.wr_emits emits_rules k | (use k in \<open>simp; fail\<close>))+
  show "parses fileRealm_decode (fileRealm_wire r) r"
    unfolding fileRealm_decode_def fileRealm_wire_def
    by (rule kdmCodec.rd_parses parses_fields parses_else k | (use k in \<open>simp; fail\<close>))+
next
  show "moves 1 fileRealm_decode"
    unfolding fileRealm_decode_def
    by (rule kdmCodec.rd_moves moves_rules moves_readBytes le0)+
qed

record IFileHead =
  fh_nonce :: bytes
  fh_realms :: "IFileRealm list"
  fh_hsh :: bytes
  fh_sig :: bytes

definition writeRealms :: "encoder \<Rightarrow> IFileRealm list \<Rightarrow> written" where
  "writeRealms e realms =
     thenW (writeVarInt e (int (length realms))) (\<lambda>e. writeStructs fileRealm_encode e realms)"

definition readRealms :: "decoder \<Rightarrow> (IFileRealm list \<times> decoder) vs" where
  "readRealms d =
     andThen (readVarInt d) (\<lambda>(n, d).
     if n < 0 \<or> n > remaining d then Err InvalidMessage
     else read_times fileRealm_decode (nat n) d)"

definition fileHeadPreimage :: "bytes \<Rightarrow> IFileRealm list \<Rightarrow> bytes vs" where
  "fileHeadPreimage nonce realms =
     (if length nonce \<noteq> hashBytes then Err InvalidParam
      else encode_with (\<lambda>e. thenW (writeBytes e nonce) (\<lambda>e. writeRealms e realms)))"

definition fileHead_encode :: "encoder \<Rightarrow> IFileHead \<Rightarrow> written" where
  "fileHead_encode e h =
     guardW (length (fh_nonce h) \<noteq> hashBytes) InvalidParam (
     guardW (length (fh_hsh h) \<noteq> hshBytes) InvalidParam (
     guardW (length (fh_sig h) \<noteq> sigBytes) InvalidParam (\<lambda>e.
     thenW (writeBytes e (fh_nonce h)) (\<lambda>e.
     thenW (writeRealms e (fh_realms h)) (\<lambda>e.
     thenW (writeBytes e (fh_hsh h)) (\<lambda>e.
     writeBytes e (fh_sig h))))))) e"

definition fileHead_decode :: "decoder \<Rightarrow> (IFileHead \<times> decoder) vs" where
  "fileHead_decode d =
     andThen (readBytes d (int hashBytes)) (\<lambda>(n, d).
     andThen (readRealms d) (\<lambda>(rs, d).
     andThen (readBytes d (int hshBytes)) (\<lambda>(h, d).
     andThen (readBytes d (int sigBytes)) (\<lambda>(sg, d).
     Ok (\<lparr>fh_nonce = n, fh_realms = rs, fh_hsh = h, fh_sig = sg\<rparr>, d)))))"

definition realms_wire :: "IFileRealm list \<Rightarrow> bytes" where
  "realms_wire rs = varint_wire (int (length rs)) @ concat (map fileRealm_wire rs)"

definition realms_ok :: "IFileRealm list \<Rightarrow> bool" where
  "realms_ok rs = (short rs \<and> list_all fileRealm_ok rs)"

definition fileHead_wire :: "IFileHead \<Rightarrow> bytes" where
  "fileHead_wire h = fh_nonce h @ realms_wire (fh_realms h) @ fh_hsh h @ fh_sig h"

definition fileHead_ok :: "IFileHead \<Rightarrow> bool" where
  "fileHead_ok h =
     (length (fh_nonce h) = hashBytes \<and> realms_ok (fh_realms h) \<and> length (fh_hsh h) = hshBytes
      \<and> length (fh_sig h) = sigBytes)"

lemma emits_writeRealms: "realms_ok rs \<Longrightarrow> emits (\<lambda>e. writeRealms e rs) (realms_wire rs)"
  unfolding writeRealms_def realms_wire_def
  by (intro emits_then num_writes emits_writeStructs fileRealmCodec.wr_emits)
     (auto simp: realms_ok_def list_all_iff short_num)

lemma parses_readRealms: "realms_ok rs \<Longrightarrow> parses readRealms (realms_wire rs) rs"
  unfolding readRealms_def realms_wire_def
  by (intro parses_bind [OF parses_readVarInt [OF short_num]] parses_counted
      fileRealmCodec.rd_parses fileRealmCodec.wire_ne)
     (auto simp: realms_ok_def list_all_iff)

interpretation fileHeadCodec: struct_codec fileHead_encode fileHead_decode fileHead_wire fileHead_ok
proof
  fix h assume "fileHead_ok h"
  then have k: "length (fh_nonce h) = hashBytes" "realms_ok (fh_realms h)"
      "length (fh_hsh h) = hshBytes" "length (fh_sig h) = sigBytes"
    by (simp_all add: fileHead_ok_def)
  show "emits (\<lambda>e. fileHead_encode e h) (fileHead_wire h)"
    unfolding fileHead_encode_def fileHead_wire_def
    by (rule emits_writeRealms emits_rules k | (simp add: k; fail))+
  show "parses fileHead_decode (fileHead_wire h) h"
    unfolding fileHead_decode_def fileHead_wire_def
    by (rule parses_readRealms parses_fields k | (simp add: k; fail))+
next
  have p: "0 < hashBytes" by (simp add: hashBytes_def)
  have r: "moves 0 readRealms"
    unfolding readRealms_def
    by (rule moves_rules moves_mono [OF fileRealmCodec.rd_moves le0])+
  show "moves 1 fileHead_decode"
    unfolding fileHead_decode_def
    by (rule moves_bytes1 [OF p] r moves_rules moves_readBytes le0)+
qed

record IFileIndexItem =
  fi_kdm :: bytes
  fi_headCph :: bytes
  fi_lenBody :: int

definition fileIndexItem_encode :: "encoder \<Rightarrow> IFileIndexItem \<Rightarrow> written" where
  "fileIndexItem_encode e x =
     thenW (writeBytes e (fi_kdm x)) (\<lambda>e.
     thenW (writeVarBytes e (fi_headCph x)) (\<lambda>e.
     writeVarInt e (fi_lenBody x)))"

definition fileIndexItem_decode :: "decoder \<Rightarrow> (IFileIndexItem \<times> decoder) vs" where
  "fileIndexItem_decode d =
     andThen (readBytes d (int kdmBytes)) (\<lambda>(k, d).
     andThen (readVarBytes d) (\<lambda>(h, d).
     andThen (readVarInt d) (\<lambda>(l, d).
     Ok (\<lparr>fi_kdm = k, fi_headCph = h, fi_lenBody = l\<rparr>, d))))"

definition fileIndexItem_wire :: "IFileIndexItem \<Rightarrow> bytes" where
  "fileIndexItem_wire x = fi_kdm x @ varbytes_wire (fi_headCph x) @ varint_wire (fi_lenBody x)"

definition fileIndexItem_ok :: "IFileIndexItem \<Rightarrow> bool" where
  "fileIndexItem_ok x = (length (fi_kdm x) = kdmBytes \<and> short (fi_headCph x) \<and> is_num (fi_lenBody x))"

interpretation fileIndexItemCodec:
  struct_codec fileIndexItem_encode fileIndexItem_decode fileIndexItem_wire fileIndexItem_ok
proof
  fix x assume "fileIndexItem_ok x"
  then have k: "length (fi_kdm x) = kdmBytes" "short (fi_headCph x)" "is_num (fi_lenBody x)"
    by (simp_all add: fileIndexItem_ok_def)
  show "emits (\<lambda>e. fileIndexItem_encode e x) (fileIndexItem_wire x)"
    unfolding fileIndexItem_encode_def fileIndexItem_wire_def by (rule emits_rules k)+
  show "parses fileIndexItem_decode (fileIndexItem_wire x) x"
    unfolding fileIndexItem_decode_def fileIndexItem_wire_def
    by (rule parses_fields k | (simp add: k; fail))+
next
  have p: "0 < kdmBytes" by (simp add: kdmBytes_def)
  show "moves 1 fileIndexItem_decode"
    unfolding fileIndexItem_decode_def by (rule moves_bytes1 [OF p] moves_rules)+
qed

record IFile =
  file_head :: IFileHead
  file_chunks :: bytes

definition file_encode :: "encoder \<Rightarrow> IFile \<Rightarrow> written" where
  "file_encode e f = thenW (fileHead_encode e (file_head f)) (\<lambda>e. writeBytes e (file_chunks f))"

definition file_decode :: "decoder \<Rightarrow> (IFile \<times> decoder) vs" where
  "file_decode d =
     andThen (fileHead_decode d) (\<lambda>(h, d).
     case readRest d of (c, d) \<Rightarrow> Ok (\<lparr>file_head = h, file_chunks = c\<rparr>, d))"

section \<open>Items of the protocol calls (notifItem.ts, peekItem.ts, peekItemHead.ts, pullItem.ts, pushItem.ts)\<close>

record IBagNotifItem =
  ni_seq :: int
  ni_rlm :: bytes
  ni_headCph :: bytes
  ni_bodyCph :: "bytes option"

definition notifItem_encode :: "encoder \<Rightarrow> IBagNotifItem \<Rightarrow> written" where
  "notifItem_encode e x =
     thenW (writeVarInt e (ni_seq x)) (
     guardW (length (ni_rlm x) \<noteq> hashBytes) InvalidParam (\<lambda>e.
     thenW (writeBytes e (ni_rlm x)) (\<lambda>e.
     thenW (writeVarBytes e (ni_headCph x)) (\<lambda>e.
     (let bodyLen = (case ni_bodyCph x of None \<Rightarrow> 0 | Some b \<Rightarrow> int (length b))
      in thenW (writeVarInt e bodyLen) (\<lambda>e.
         if bodyLen > 0
         then (case ni_bodyCph x of None \<Rightarrow> (Err InvalidParam, e) | Some b \<Rightarrow> writeBytes e b)
         else (Ok (), e)))))))"

definition notifItem_decode :: "decoder \<Rightarrow> (IBagNotifItem \<times> decoder) vs" where
  "notifItem_decode d =
     andThen (readVarInt d) (\<lambda>(sq, d).
     andThen (readBytes d (int hashBytes)) (\<lambda>(raw, d).
     andThen (asHostRlm raw) (\<lambda>rlm.
     andThen (readVarBytes d) (\<lambda>(h, d).
     andThen (readVarInt d) (\<lambda>(bodyLen, d).
     if bodyLen > 0 then
       andThen (readBytes d bodyLen) (\<lambda>(b, d).
       Ok (\<lparr>ni_seq = sq, ni_rlm = rlm, ni_headCph = h, ni_bodyCph = Some b\<rparr>, d))
     else Ok (\<lparr>ni_seq = sq, ni_rlm = rlm, ni_headCph = h, ni_bodyCph = None\<rparr>, d))))))"

definition notifItem_wire :: "IBagNotifItem \<Rightarrow> bytes" where
  "notifItem_wire x =
     varint_wire (ni_seq x) @ ni_rlm x @ varbytes_wire (ni_headCph x)
     @ (case ni_bodyCph x of None \<Rightarrow> varint_wire 0 | Some b \<Rightarrow> varint_wire (int (length b)) @ b)"

text \<open>An inlined body is non-empty: an empty one reads back as no body.\<close>

definition notifItem_ok :: "IBagNotifItem \<Rightarrow> bool" where
  "notifItem_ok x =
     (is_num (ni_seq x) \<and> length (ni_rlm x) = hashBytes \<and> short (ni_headCph x)
      \<and> (case ni_bodyCph x of None \<Rightarrow> True | Some b \<Rightarrow> b \<noteq> [] \<and> short b))"

lemma is_num_0 [simp]: "is_num 0"
  by (simp add: is_num_safe)

interpretation notifItemCodec:
  struct_codec notifItem_encode notifItem_decode notifItem_wire notifItem_ok
proof
  fix x assume ok: "notifItem_ok x"
  then have k: "is_num (ni_seq x)" "length (ni_rlm x) = hashBytes" "short (ni_headCph x)"
    by (simp_all add: notifItem_ok_def)
  show "emits (\<lambda>e. notifItem_encode e x) (notifItem_wire x)"
  proof (cases "ni_bodyCph x")
    case None
    have "emits (\<lambda>e. notifItem_encode e x)
        (varint_wire (ni_seq x) @ ni_rlm x @ varbytes_wire (ni_headCph x) @ varint_wire 0 @ [])"
      unfolding notifItem_encode_def Let_def None option.case
      by (rule emits_rules k is_num_0 | simp only: less_irrefl if_False k simp_thms)+
    then show ?thesis by (simp add: notifItem_wire_def None)
  next
    case (Some b)
    then have b: "is_num (int (length b))" "0 < int (length b)"
      using ok by (simp_all add: notifItem_ok_def short_num)
    show ?thesis
      unfolding notifItem_encode_def Let_def Some option.case notifItem_wire_def
      by (rule emits_rules k b | simp only: b if_True k simp_thms)+
  qed
  show "parses notifItem_decode (notifItem_wire x) x"
  proof (cases "ni_bodyCph x")
    case None
    have "parses notifItem_decode
        (varint_wire (ni_seq x) @ ni_rlm x @ varbytes_wire (ni_headCph x) @ varint_wire 0 @ []) x"
      unfolding notifItem_decode_def
      by (rule parses_fields parses_hostRlm parses_else parses_done k is_num_0
          | (simp add: k None; fail))+
    then show ?thesis by (simp add: notifItem_wire_def None)
  next
    case (Some b)
    then have b: "is_num (int (length b))" "0 < int (length b)"
      using ok by (simp_all add: notifItem_ok_def short_num)
    show ?thesis
      unfolding notifItem_decode_def notifItem_wire_def Some option.case
      by (rule parses_fields parses_hostRlm parses_then k b | (simp add: k Some; fail))+
  qed
next
  show "moves 1 notifItem_decode"
    unfolding notifItem_decode_def
    by (rule moves_fields moves_rules moves_readBytes le0 asHostRlm_total)+
qed

record IBagPeekItem =
  pk_seq :: int
  pk_headCph :: bytes

definition peekItem_encode :: "encoder \<Rightarrow> IBagPeekItem \<Rightarrow> written" where
  "peekItem_encode e x = thenW (writeVarBytes e (pk_headCph x)) (\<lambda>e. writeVarInt e (pk_seq x))"

definition peekItem_decode :: "decoder \<Rightarrow> (IBagPeekItem \<times> decoder) vs" where
  "peekItem_decode d =
     andThen (readVarBytes d) (\<lambda>(h, d).
     andThen (readVarInt d) (\<lambda>(sq, d).
     Ok (\<lparr>pk_seq = sq, pk_headCph = h\<rparr>, d)))"

definition peekItem_wire :: "IBagPeekItem \<Rightarrow> bytes" where
  "peekItem_wire x = varbytes_wire (pk_headCph x) @ varint_wire (pk_seq x)"

definition peekItem_ok :: "IBagPeekItem \<Rightarrow> bool" where
  "peekItem_ok x = (short (pk_headCph x) \<and> is_num (pk_seq x))"

interpretation peekItemCodec: struct_codec peekItem_encode peekItem_decode peekItem_wire peekItem_ok
proof
  fix x assume "peekItem_ok x"
  then have k: "short (pk_headCph x)" "is_num (pk_seq x)" by (simp_all add: peekItem_ok_def)
  show "emits (\<lambda>e. peekItem_encode e x) (peekItem_wire x)"
    unfolding peekItem_encode_def peekItem_wire_def by (rule emits_rules k)+
  show "parses peekItem_decode (peekItem_wire x) x"
    unfolding peekItem_decode_def peekItem_wire_def by (rule parses_fields k | (simp; fail))+
next
  show "moves 1 peekItem_decode"
    unfolding peekItem_decode_def by (rule moves_fields moves_rules)+
qed

record IBagPeekItemHead =
  ph_sig :: bytes
  ph_kdm :: bytes
  ph_headCph :: bytes

definition peekItemHead_encode :: "encoder \<Rightarrow> IBagPeekItemHead \<Rightarrow> written" where
  "peekItemHead_encode e x =
     thenW (writeBytes e (ph_sig x)) (\<lambda>e.
     thenW (writeBytes e (ph_kdm x)) (\<lambda>e.
     writeVarBytes e (ph_headCph x)))"

definition peekItemHead_decode :: "decoder \<Rightarrow> (IBagPeekItemHead \<times> decoder) vs" where
  "peekItemHead_decode d =
     andThen (readBytes d (int sigBytes)) (\<lambda>(sg, d).
     andThen (readBytes d (int kdmBytes)) (\<lambda>(k, d).
     andThen (readVarBytes d) (\<lambda>(h, d).
     Ok (\<lparr>ph_sig = sg, ph_kdm = k, ph_headCph = h\<rparr>, d))))"

definition peekItemHead_wire :: "IBagPeekItemHead \<Rightarrow> bytes" where
  "peekItemHead_wire x = ph_sig x @ ph_kdm x @ varbytes_wire (ph_headCph x)"

definition peekItemHead_ok :: "IBagPeekItemHead \<Rightarrow> bool" where
  "peekItemHead_ok x = (length (ph_sig x) = sigBytes \<and> length (ph_kdm x) = kdmBytes \<and> short (ph_headCph x))"

interpretation peekItemHeadCodec:
  struct_codec peekItemHead_encode peekItemHead_decode peekItemHead_wire peekItemHead_ok
proof
  fix x assume "peekItemHead_ok x"
  then have k: "length (ph_sig x) = sigBytes" "length (ph_kdm x) = kdmBytes" "short (ph_headCph x)"
    by (simp_all add: peekItemHead_ok_def)
  show "emits (\<lambda>e. peekItemHead_encode e x) (peekItemHead_wire x)"
    unfolding peekItemHead_encode_def peekItemHead_wire_def by (rule emits_rules k)+
  show "parses peekItemHead_decode (peekItemHead_wire x) x"
    unfolding peekItemHead_decode_def peekItemHead_wire_def
    by (rule parses_fields k | (simp add: k; fail))+
next
  have p: "0 < sigBytes" by (simp add: sigBytes_def)
  show "moves 1 peekItemHead_decode"
    unfolding peekItemHead_decode_def by (rule moves_bytes1 [OF p] moves_rules moves_readBytes le0)+
qed

record IBagPullItem =
  pl_seq :: int
  pl_bodyCph :: bytes

definition pullItem_encode :: "encoder \<Rightarrow> IBagPullItem \<Rightarrow> written" where
  "pullItem_encode e x = ignoreW (writeVarInt e (pl_seq x)) (\<lambda>e. writeVarBytes e (pl_bodyCph x))"

definition pullItem_decode :: "decoder \<Rightarrow> (IBagPullItem \<times> decoder) vs" where
  "pullItem_decode d =
     andThen (readVarInt d) (\<lambda>(sq, d).
     andThen (readVarBytes d) (\<lambda>(b, d).
     Ok (\<lparr>pl_seq = sq, pl_bodyCph = b\<rparr>, d)))"

definition pullItem_wire :: "IBagPullItem \<Rightarrow> bytes" where
  "pullItem_wire x = varint_wire (pl_seq x) @ varbytes_wire (pl_bodyCph x)"

definition pullItem_ok :: "IBagPullItem \<Rightarrow> bool" where
  "pullItem_ok x = (is_num (pl_seq x) \<and> short (pl_bodyCph x))"

interpretation pullItemCodec: struct_codec pullItem_encode pullItem_decode pullItem_wire pullItem_ok
proof
  fix x assume "pullItem_ok x"
  then have k: "is_num (pl_seq x)" "short (pl_bodyCph x)" by (simp_all add: pullItem_ok_def)
  show "emits (\<lambda>e. pullItem_encode e x) (pullItem_wire x)"
    unfolding pullItem_encode_def pullItem_wire_def by (rule emits_rules k)+
  show "parses pullItem_decode (pullItem_wire x) x"
    unfolding pullItem_decode_def pullItem_wire_def by (rule parses_fields k | (simp; fail))+
next
  show "moves 1 pullItem_decode"
    unfolding pullItem_decode_def by (rule moves_fields moves_rules)+
qed

datatype IBagPushItem =
    PushStored int int \<comment> \<open>\<open>idx\<close> and \<open>seq\<close>, with status Success\<close>
  | PushRefused int status \<comment> \<open>\<open>idx\<close> and a status other than Success\<close>

definition status_byte :: "status \<Rightarrow> byte" where
  "status_byte s = word_of_nat (status_code s)"

definition pushItem_encode :: "encoder \<Rightarrow> IBagPushItem \<Rightarrow> written" where
  "pushItem_encode e x =
     (case x of
        PushStored i sq \<Rightarrow>
          ignoreW (writeVarInt e i) (\<lambda>e.
          thenW (writeBytes e [status_byte Success]) (\<lambda>e.
          ignoreW (writeVarInt e sq) (\<lambda>e. (Ok (), e))))
      | PushRefused i s \<Rightarrow>
          ignoreW (writeVarInt e i) (\<lambda>e.
          thenW (writeBytes e [status_byte s]) (\<lambda>e. (Ok (), e))))"

definition pushItem_decode :: "decoder \<Rightarrow> (IBagPushItem \<times> decoder) vs" where
  "pushItem_decode d =
     andThen (readVarInt d) (\<lambda>(i, d).
     andThen (readBytes d 1) (\<lambda>(sb, d).
     if status_of_code (unat (sb ! 0)) \<noteq> Success
     then Ok (PushRefused i (status_of_code (unat (sb ! 0))), d)
     else andThen (readVarInt d) (\<lambda>(sq, d).
     Ok (PushStored i sq, d))))"

text \<open>The statuses a byte can carry.\<close>

definition status_ok :: "status \<Rightarrow> bool" where
  "status_ok s = (status_of_code (unat (status_byte s)) = s)"

fun pushItem_wire :: "IBagPushItem \<Rightarrow> bytes" where
  "pushItem_wire (PushStored i sq) = varint_wire i @ [status_byte Success] @ varint_wire sq"
| "pushItem_wire (PushRefused i s) = varint_wire i @ [status_byte s]"

fun pushItem_ok :: "IBagPushItem \<Rightarrow> bool" where
  "pushItem_ok (PushStored i sq) = (is_num i \<and> is_num sq)"
| "pushItem_ok (PushRefused i s) = (is_num i \<and> s \<noteq> Success \<and> status_ok s)"

lemma status_ok_named: "s \<in> set status_names \<Longrightarrow> status_ok s"
  using status_of_code_named [of s] status_code_small [of s]
  by (simp add: status_ok_def status_byte_def unat_of_nat)

lemma status_ok_Success [simp]: "status_of_code (unat (status_byte Success)) = Success"
  using status_ok_named [of Success] by (simp add: status_ok_def status_names_def)

interpretation pushItemCodec: struct_codec pushItem_encode pushItem_decode pushItem_wire pushItem_ok
proof
  fix x assume ok: "pushItem_ok x"
  show "emits (\<lambda>e. pushItem_encode e x) (pushItem_wire x)"
  proof (cases x)
    case (PushStored i sq)
    then have k: "is_num i" "is_num sq" using ok by simp_all
    have "emits (\<lambda>e. pushItem_encode e x) (varint_wire i @ [status_byte Success] @ varint_wire sq @ [])"
      unfolding pushItem_encode_def PushStored IBagPushItem.case by (rule emits_rules k)+
    then show ?thesis by (simp add: PushStored)
  next
    case (PushRefused i st)
    then have k: "is_num i" using ok by simp
    have "emits (\<lambda>e. pushItem_encode e x) (varint_wire i @ [status_byte st] @ [])"
      unfolding pushItem_encode_def PushRefused IBagPushItem.case by (rule emits_rules k)+
    then show ?thesis by (simp add: PushRefused)
  qed
  show "parses pushItem_decode (pushItem_wire x) x"
  proof (cases x)
    case (PushStored i sq)
    then have k: "is_num i" "is_num sq" using ok by simp_all
    show ?thesis
      unfolding pushItem_decode_def PushStored pushItem_wire.simps
      by (rule parses_fields parses_else k | (simp; fail))+
  next
    case (PushRefused i st)
    then have k: "is_num i" "st \<noteq> Success" "status_of_code (unat (status_byte st)) = st"
      using ok by (simp_all add: status_ok_def)
    have "parses pushItem_decode (varint_wire i @ [status_byte st] @ []) x"
      unfolding pushItem_decode_def PushRefused
      by (rule parses_fields parses_then parses_done k | (simp add: k; fail))+
    then show ?thesis by (simp add: PushRefused)
  qed
next
  show "moves 1 pushItem_decode"
    unfolding pushItem_decode_def by (rule moves_fields moves_rules moves_readBytes le0)+
qed

section \<open>Response heads (usageQuota.ts, respHead.ts)\<close>

record IUsageQuota =
  uq_quota :: int
  uq_usage :: "int option"

definition usageQuota_encode :: "encoder \<Rightarrow> IUsageQuota \<Rightarrow> written" where
  "usageQuota_encode e uq =
     ignoreW (writeVarInt e (uq_quota uq)) (\<lambda>e.
     if uq_quota uq > 0 then
       (case uq_usage uq of
          None \<Rightarrow> (Err MissingParam, e)
        | Some u \<Rightarrow> ignoreW (writeVarInt e u) (\<lambda>e. (Ok (), e)))
     else (Ok (), e))"

definition usageQuota_decode :: "decoder \<Rightarrow> (IUsageQuota \<times> decoder) vs" where
  "usageQuota_decode d =
     andThen (readVarInt d) (\<lambda>(q, d).
     if q > 0 then
       andThen (readVarInt d) (\<lambda>(u, d).
       Ok (\<lparr>uq_quota = q, uq_usage = Some u\<rparr>, d))
     else Ok (\<lparr>uq_quota = q, uq_usage = None\<rparr>, d))"

definition usageQuota_wire :: "IUsageQuota \<Rightarrow> bytes" where
  "usageQuota_wire uq =
     varint_wire (uq_quota uq) @ (case uq_usage uq of None \<Rightarrow> [] | Some u \<Rightarrow> varint_wire u)"

definition usageQuota_ok :: "IUsageQuota \<Rightarrow> bool" where
  "usageQuota_ok uq =
     (is_num (uq_quota uq)
      \<and> (case uq_usage uq of None \<Rightarrow> uq_quota uq = 0 | Some u \<Rightarrow> uq_quota uq > 0 \<and> is_num u))"

interpretation usageQuotaCodec:
  struct_codec usageQuota_encode usageQuota_decode usageQuota_wire usageQuota_ok
proof
  fix x assume ok: "usageQuota_ok x"
  then have k: "is_num (uq_quota x)" by (simp add: usageQuota_ok_def)
  show "emits (\<lambda>e. usageQuota_encode e x) (usageQuota_wire x)"
  proof (cases "uq_usage x")
    case None
    then have "uq_quota x = 0" using ok by (simp add: usageQuota_ok_def)
    then show ?thesis
      using emits_ignore [OF num_writes [OF k] emits_nothing]
      by (simp add: usageQuota_encode_def usageQuota_wire_def None)
  next
    case (Some u)
    then have u: "uq_quota x > 0" "is_num u" using ok by (simp_all add: usageQuota_ok_def)
    have "emits (\<lambda>e. usageQuota_encode e x) (varint_wire (uq_quota x) @ varint_wire u @ [])"
      unfolding usageQuota_encode_def Some option.case
      by (rule emits_rules k u | simp only: u if_True)+
    then show ?thesis by (simp add: usageQuota_wire_def Some)
  qed
  show "parses usageQuota_decode (usageQuota_wire x) x"
  proof (cases "uq_usage x")
    case None
    then have z: "uq_quota x = 0" using ok by (simp add: usageQuota_ok_def)
    show ?thesis
      unfolding usageQuota_decode_def usageQuota_wire_def None option.case
      by (rule parses_fields parses_else parses_done k | (simp add: z None; fail))+
  next
    case (Some u)
    then have u: "uq_quota x > 0" "is_num u" using ok by (simp_all add: usageQuota_ok_def)
    show ?thesis
      unfolding usageQuota_decode_def usageQuota_wire_def Some option.case
      by (rule parses_fields parses_then k u | (simp add: u Some; fail))+
  qed
next
  show "moves 1 usageQuota_decode"
    unfolding usageQuota_decode_def by (rule moves_fields moves_rules)+
qed

record ISubscriptionMetadata =
  sub_term :: int
  sub_elapsed :: int
  sub_stat :: IUsageQuota
  sub_dyn :: IUsageQuota

record IRespHead =
  rh_status :: status
  rh_timeRcvd :: date
  rh_timeSent :: date
  rh_subscription :: ISubscriptionMetadata

definition respHead_encode :: "encoder \<Rightarrow> IRespHead \<Rightarrow> written" where
  "respHead_encode e h =
     thenW (writeBytes e [status_byte (rh_status h)]) (\<lambda>e.
     thenW (writeDate e (rh_timeRcvd h)) (\<lambda>e.
     thenW (writeDate e (rh_timeSent h)) (\<lambda>e.
     thenW (writeVarInt e (sub_term (rh_subscription h))) (\<lambda>e.
     thenW (writeVarInt e (sub_elapsed (rh_subscription h))) (\<lambda>e.
     thenW (usageQuota_encode e (sub_stat (rh_subscription h))) (\<lambda>e.
     usageQuota_encode e (sub_dyn (rh_subscription h))))))))"

definition respHead_decode :: "decoder \<Rightarrow> (IRespHead \<times> decoder) vs" where
  "respHead_decode d =
     andThen (readBytes d 1) (\<lambda>(b, d).
     andThen (readDate d) (\<lambda>(tr, d).
     andThen (readDate d) (\<lambda>(ts, d).
     andThen (readVarInt d) (\<lambda>(term, d).
     andThen (readVarInt d) (\<lambda>(el, d).
     andThen (usageQuota_decode d) (\<lambda>(st, d).
     andThen (usageQuota_decode d) (\<lambda>(dy, d).
     Ok (\<lparr>rh_status = status_of_code (unat (b ! 0)), rh_timeRcvd = tr, rh_timeSent = ts,
          rh_subscription = \<lparr>sub_term = term, sub_elapsed = el, sub_stat = st, sub_dyn = dy\<rparr>\<rparr>, d))))))))"

definition respHead_wire :: "IRespHead \<Rightarrow> bytes" where
  "respHead_wire h =
     [status_byte (rh_status h)] @ varint_wire (the (rh_timeRcvd h)) @ varint_wire (the (rh_timeSent h))
     @ varint_wire (sub_term (rh_subscription h)) @ varint_wire (sub_elapsed (rh_subscription h))
     @ usageQuota_wire (sub_stat (rh_subscription h)) @ usageQuota_wire (sub_dyn (rh_subscription h))"

definition sub_ok :: "ISubscriptionMetadata \<Rightarrow> bool" where
  "sub_ok m = (is_num (sub_term m) \<and> is_num (sub_elapsed m)
     \<and> usageQuota_ok (sub_stat m) \<and> usageQuota_ok (sub_dyn m))"

definition respHead_ok :: "IRespHead \<Rightarrow> bool" where
  "respHead_ok h =
     (status_ok (rh_status h) \<and> date_ok (rh_timeRcvd h) \<and> date_ok (rh_timeSent h)
      \<and> sub_ok (rh_subscription h))"

interpretation respHeadCodec: struct_codec respHead_encode respHead_decode respHead_wire respHead_ok
proof
  fix x assume "respHead_ok x"
  then have k: "date_ok (rh_timeRcvd x)" "date_ok (rh_timeSent x)"
      "is_num (sub_term (rh_subscription x))" "is_num (sub_elapsed (rh_subscription x))"
      "usageQuota_ok (sub_stat (rh_subscription x))" "usageQuota_ok (sub_dyn (rh_subscription x))"
    and st: "status_of_code (unat (status_byte (rh_status x))) = rh_status x"
    by (simp_all add: respHead_ok_def sub_ok_def status_ok_def)
  show "emits (\<lambda>e. respHead_encode e x) (respHead_wire x)"
    unfolding respHead_encode_def respHead_wire_def
    by (rule usageQuotaCodec.wr_emits emits_rules k)+
  show "parses respHead_decode (respHead_wire x) x"
    unfolding respHead_decode_def respHead_wire_def
    by (rule usageQuotaCodec.rd_parses parses_fields k | (simp add: st; fail))+
next
  show "moves 1 respHead_decode"
    unfolding respHead_decode_def
    by (rule moves_readBytes moves_rules moves_mono [OF usageQuotaCodec.rd_moves le0] | simp)+
qed

section \<open>Ent bodies (ent.ts)\<close>

record IMsgEntBody =
  eb_pid :: "bytes option"
  eb_tags :: "jsstr list option"
  eb_body :: "bytes option"

definition ent_encode :: "encoder \<Rightarrow> IMsgEntBody \<Rightarrow> written" where
  "ent_encode e ent =
     thenW (writeVarBytes e (case eb_pid ent of None \<Rightarrow> [] | Some p \<Rightarrow> p)) (\<lambda>e.
     thenW (writeVarStrings e (case eb_tags ent of None \<Rightarrow> [] | Some ts \<Rightarrow> ts)) (\<lambda>e.
     case eb_body ent of
       None \<Rightarrow> (Ok (), e)
     | Some b \<Rightarrow> if length b > 0 then writeBytes e b else (Ok (), e)))"

definition ent_decode :: "decoder \<Rightarrow> (IMsgEntBody \<times> decoder) vs" where
  "ent_decode d =
     andThen (readVarBytes d) (\<lambda>(pidBytes, d).
     andThen
       (if length pidBytes > 0 then
          andThen (eid_decode (Decoder pidBytes)) (\<lambda>(parsed, inner).
          if \<not> done_dec inner then Err InvalidMessage
          else andThen (makeEID parsed) (\<lambda>pid. Ok (Some pid)))
        else Ok None) (\<lambda>pid.
     andThen (readVarStrings d) (\<lambda>(tags, d).
     case readRest d of (rest, d) \<Rightarrow>
       Ok (\<lparr>eb_pid = pid,
            eb_tags = (if length tags > 0 then Some tags else None),
            eb_body = (if length rest > 0 then Some rest else None)\<rparr>, d))))"

definition encodeEnt :: "IMsgEntBody \<Rightarrow> bytes vs" where
  "encodeEnt ent = encode_with (\<lambda>e. ent_encode e ent)"

text \<open>Identifiers in the form \<open>makeEID\<close> gives them.\<close>

definition eid_canon :: "bytes \<Rightarrow> bool" where
  "eid_canon p =
     (case eid_decode (Decoder p) of Ok (x, d) \<Rightarrow> done_dec d \<and> makeEID x = Ok p | _ \<Rightarrow> False)"

definition ent_wire :: "IMsgEntBody \<Rightarrow> bytes" where
  "ent_wire ent =
     varbytes_wire (case eb_pid ent of None \<Rightarrow> [] | Some p \<Rightarrow> p)
     @ varstrings_wire (case eb_tags ent of None \<Rightarrow> [] | Some ts \<Rightarrow> ts)
     @ (case eb_body ent of None \<Rightarrow> [] | Some b \<Rightarrow> b)"

text \<open>What survives a round trip: absent fields are omitted, never empty.\<close>

definition ent_ok :: "IMsgEntBody \<Rightarrow> bool" where
  "ent_ok ent =
     ((case eb_pid ent of None \<Rightarrow> True | Some p \<Rightarrow> short p \<and> eid_canon p)
      \<and> (case eb_tags ent of None \<Rightarrow> True | Some ts \<Rightarrow> ts \<noteq> [] \<and> short ts \<and> list_all str_ok ts)
      \<and> (case eb_body ent of None \<Rightarrow> True | Some b \<Rightarrow> b \<noteq> []))"

lemma emits_ent: "ent_ok ent \<Longrightarrow> emits (\<lambda>e. ent_encode e ent) (ent_wire ent)"
  unfolding ent_encode_def ent_wire_def
  by (intro emits_then emits_writeVarBytes emits_writeVarStrings)
     (auto simp: ent_ok_def short_def emits_nothing emits_writeBytes split: option.splits)

lemma readRest_end: "wf_dec d \<Longrightarrow> readRest d = (unread d, advance d (length (unread d)))"
  by (simp add: readRest_def unread_def advance_def wf_dec_def)

lemma eid_canon_ne: "eid_canon p \<Longrightarrow> p \<noteq> []"
  by (auto simp: eid_canon_def eid_decode_def readVarBytes_def readVarInt_def decodeVarInt_def
      decodeVarInt_loop.simps Decoder_def)

definition ent_read_pid :: "bytes \<Rightarrow> bytes option vs" where
  "ent_read_pid pidBytes =
     (if length pidBytes > 0 then
        andThen (eid_decode (Decoder pidBytes)) (\<lambda>(parsed, inner).
        if \<not> done_dec inner then Err InvalidMessage
        else andThen (makeEID parsed) (\<lambda>pid. Ok (Some pid)))
      else Ok None)"

lemma ent_read_pid_ok:
  "(case o' of None \<Rightarrow> True | Some p \<Rightarrow> eid_canon p) \<Longrightarrow>
     ent_read_pid (case o' of None \<Rightarrow> [] | Some p \<Rightarrow> p) = Ok o'"
  by (cases o') (auto simp: ent_read_pid_def eid_canon_ne, auto simp: eid_canon_def split: vs.splits)

lemma ent_decode_wire:
  assumes ok: "ent_ok ent"
  shows "\<exists>d. ent_decode (Decoder (ent_wire ent)) = Ok (ent, d) \<and> done_dec d"
proof -
  let ?p = "case eb_pid ent of None \<Rightarrow> [] | Some p \<Rightarrow> p"
  let ?t = "case eb_tags ent of None \<Rightarrow> [] | Some ts \<Rightarrow> ts"
  let ?b = "case eb_body ent of None \<Rightarrow> [] | Some b \<Rightarrow> b"
  let ?d0 = "Decoder (ent_wire ent)"
  define d1 where "d1 = advance ?d0 (length (varbytes_wire ?p))"
  define d2 where "d2 = advance d1 (length (varstrings_wire ?t))"
  have p: "short ?p" using ok by (auto simp: ent_ok_def short_def split: option.splits)
  have pid: "ent_read_pid ?p = Ok (eb_pid ent)"
    by (rule ent_read_pid_ok) (use ok in \<open>auto simp: ent_ok_def split: option.splits\<close>)
  have t: "short ?t" "list_all str_ok ?t"
    using ok by (auto simp: ent_ok_def short_def split: option.splits)
  have r1: "readVarBytes ?d0 = Ok (?p, d1)"
    unfolding d1_def by (rule parsesD [OF parses_readVarBytes [OF p]]) (simp_all add: ent_wire_def)
  have u1: "unread d1 = varstrings_wire ?t @ ?b" by (simp add: d1_def ent_wire_def)
  have wf1: "wf_dec d1" unfolding d1_def by (rule wf_advance) (simp_all add: ent_wire_def)
  have r2: "readVarStrings d1 = Ok (?t, d2)"
    unfolding d2_def by (rule parsesD [OF parses_readVarStrings [OF t] wf1 u1])
  have wf2: "wf_dec d2" unfolding d2_def by (rule wf_advance [OF wf1 u1])
  have u2: "unread d2 = ?b" by (simp add: d2_def d1_def ent_wire_def)
  have r3: "readRest d2 = (?b, advance d2 (length ?b))"
    using readRest_end [OF wf2] unfolding u2 .
  have "ent_decode ?d0 = Ok (ent, advance d2 (length ?b))"
    unfolding ent_decode_def ent_read_pid_def [symmetric] r1 using pid r2 r3 ok
    by (cases ent) (auto simp: ent_ok_def split: option.splits)
  moreover have "done_dec (advance d2 (length ?b))"
    by (simp add: done_dec_def d2_def d1_def ent_wire_def Decoder_def)
  ultimately show ?thesis by blast
qed

section \<open>Properties of the wire formats\<close>

text \<open>C37: a list of bags survives the push request. The bags are written one after another; the
  host's \<open>readStructs\<close> on the request tail gives the same list and consumes the whole buffer.\<close>

theorem bags_roundtrip:
  assumes "list_all bag_ok bags"
  shows "\<exists>bs d. encode_with (\<lambda>e. writeStructs bag_encode e bags) = Ok bs
           \<and> readStructs bag_decode (Decoder bs) = Ok (bags, d) \<and> done_dec d"
  using bagCodec.structs_encode [OF assms] bagCodec.structs_decode [OF assms, of "Decoder _"]
    bagCodec.structs_done [of "Decoder _"] by fastforce

theorem bags_roundtrip_witness:
  "\<exists>bs d. encode_with (\<lambda>e. writeStructs bag_encode e
       (replicate 2 \<lparr>bag_rlm = replicate 32 1, bag_sig = replicate 64 2, bag_kdm = replicate 8 3,
                     bag_headCph = [9], bag_bodyCph = []\<rparr>)) = Ok bs
     \<and> readStructs bag_decode (Decoder bs) =
         Ok (replicate 2 \<lparr>bag_rlm = replicate 32 1, bag_sig = replicate 64 2, bag_kdm = replicate 8 3,
                         bag_headCph = [9], bag_bodyCph = []\<rparr>, d) \<and> done_dec d"
  by (rule bags_roundtrip)
     (simp add: list_all_iff bag_ok_def short_def hashBytes_def sigBytes_def kdmBytes_def)

text \<open>A message head survives encoding: type, entity id, offset, counter and length come back
  as written, with the hash exactly when the length is positive, and the bytes that follow the
  head are left unread.\<close>

theorem messageHead_roundtrip:
  assumes "messageHead_ok m"
  shows "\<exists>bs. encode_with (\<lambda>e. messageHead_encode e m) = Ok bs
           \<and> messageHead_decode (Decoder (bs @ rest)) = Ok (m, advance (Decoder (bs @ rest)) (length bs))"
  using messageHeadCodec.encode_ok [OF assms] messageHeadCodec.decode_ok [OF assms] by blast

theorem messageHead_roundtrip_witness:
  "\<exists>bs. encode_with (\<lambda>e. messageHead_encode e
        \<lparr>mh_typ = Some [], mh_eid = [1, 5, 0], mh_off = 300, mh_ctr = 2, mh_len = 0, mh_hsh = None\<rparr>) = Ok bs
     \<and> messageHead_decode (Decoder (bs @ [1])) =
       Ok (\<lparr>mh_typ = Some [], mh_eid = [1, 5, 0], mh_off = 300, mh_ctr = 2, mh_len = 0, mh_hsh = None\<rparr>,
           advance (Decoder (bs @ [1])) (length bs))"
  by (rule messageHead_roundtrip) code_simp

text \<open>An ent body survives encoding. Parent id, tags and raw body are recovered, an omitted
  field staying omitted.\<close>

theorem ent_roundtrip:
  assumes "ent_ok ent"
  shows "\<exists>bs d. encodeEnt ent = Ok bs \<and> ent_decode (Decoder bs) = Ok (ent, d) \<and> done_dec d"
  using encode_with_emits [OF emits_ent [OF assms]] ent_decode_wire [OF assms]
  by (auto simp: encodeEnt_def)

lemma eid_canon_sample: "eid_canon [1, 5, 0]"
  by code_simp

theorem ent_roundtrip_witness:
  "\<exists>bs d. encodeEnt \<lparr>eb_pid = Some [1, 5, 0], eb_tags = Some [[65]], eb_body = Some [7]\<rparr> = Ok bs
     \<and> ent_decode (Decoder bs) =
         Ok (\<lparr>eb_pid = Some [1, 5, 0], eb_tags = Some [[65]], eb_body = Some [7]\<rparr>, d) \<and> done_dec d"
  by (rule ent_roundtrip)
     (simp add: ent_ok_def str_ok_ascii ascii_def short_def eid_canon_sample)

text \<open>An export file survives encoding: signed head with its realm directory, then the chunks,
  which take the rest of the buffer.\<close>

theorem file_roundtrip:
  assumes "fileHead_ok h"
  shows "\<exists>bs d. encode_with (\<lambda>e. file_encode e \<lparr>file_head = h, file_chunks = c\<rparr>) = Ok bs
           \<and> file_decode (Decoder bs) = Ok (\<lparr>file_head = h, file_chunks = c\<rparr>, d) \<and> done_dec d"
proof (intro exI conjI)
  let ?d = "advance (Decoder (fileHead_wire h @ c)) (length (fileHead_wire h))"
  have wf: "wf_dec ?d" by (rule wf_advance) simp_all
  show "encode_with (\<lambda>e. file_encode e \<lparr>file_head = h, file_chunks = c\<rparr>) = Ok (fileHead_wire h @ c)"
    unfolding file_encode_def
    by (rule encode_with_emits) (simp add: emits_then fileHeadCodec.wr_emits assms emits_writeBytes)
  show "file_decode (Decoder (fileHead_wire h @ c)) =
      Ok (\<lparr>file_head = h, file_chunks = c\<rparr>, advance ?d (length c))"
    by (simp add: file_decode_def fileHeadCodec.decode_ok assms readRest_end [OF wf])
  show "done_dec (advance ?d (length c))" by (simp add: done_dec_def Decoder_def)
qed

theorem file_roundtrip_witness:
  "\<exists>bs d. encode_with (\<lambda>e. file_encode e
       \<lparr>file_head = \<lparr>fh_nonce = replicate 32 1,
          fh_realms = [\<lparr>fr_realm = \<lparr>kdm_label = [65], kdm_index = 0\<rparr>, fr_num = 3, fr_hsh = replicate 32 2\<rparr>],
          fh_hsh = replicate 32 3, fh_sig = replicate 64 4\<rparr>, file_chunks = [7, 8]\<rparr>) = Ok bs
     \<and> file_decode (Decoder bs) = Ok (
       \<lparr>file_head = \<lparr>fh_nonce = replicate 32 1,
          fh_realms = [\<lparr>fr_realm = \<lparr>kdm_label = [65], kdm_index = 0\<rparr>, fr_num = 3, fr_hsh = replicate 32 2\<rparr>],
          fh_hsh = replicate 32 3, fh_sig = replicate 64 4\<rparr>, file_chunks = [7, 8]\<rparr>, d) \<and> done_dec d"
  by (rule file_roundtrip)
     (simp add: fileHead_ok_def realms_ok_def fileRealm_ok_def kdm_ok_def str_ok_ascii ascii_def
       short_def is_num_safe hashBytes_def hshBytes_def sigBytes_def)

text \<open>C38: no wire input can make a list decoder of the protocol loop or throw. On every byte
  string, reading bags, peek, pull, push or notification items, file index items, file realms
  and hosts of an identity bundle to the end of the buffer returns a list or a status.\<close>

theorem readStructs_total:
  "(let d = Decoder bytes in
     readStructs bag_decode d \<notin> {Throw, Hang} \<and> readStructs peekItem_decode d \<notin> {Throw, Hang}
   \<and> readStructs pullItem_decode d \<notin> {Throw, Hang} \<and> readStructs pushItem_decode d \<notin> {Throw, Hang}
   \<and> readStructs notifItem_decode d \<notin> {Throw, Hang}
   \<and> readStructs fileIndexItem_decode d \<notin> {Throw, Hang}
   \<and> readStructs peekItemHead_decode d \<notin> {Throw, Hang}
   \<and> readStructs messageHead_decode d \<notin> {Throw, Hang})"
  using bagCodec.structs_total peekItemCodec.structs_total pullItemCodec.structs_total
    pushItemCodec.structs_total notifItemCodec.structs_total fileIndexItemCodec.structs_total
    peekItemHeadCodec.structs_total messageHeadCodec.structs_total
  by (simp add: Let_def)

text \<open>The ent decoder can throw. A parent id whose creation time exceeds the range of a
  JavaScript date decodes to an Invalid Date; re-encoding it with \<open>makeEID\<close> converts NaN to a
  \<open>bigint\<close>, so \<open>entCodec.decode\<close> raises an exception instead of returning a status.\<close>

theorem ent_decode_throws:
  "ent_decode (Decoder [9, 0, 128, 128, 128, 128, 128, 128, 128, 127, 0]) = Throw"
  by code_simp

end
