(* ===== verification/Binary.thy ===== *)
theory Binary
  imports Codecs "HOL-Library.Multiset"
begin

text \<open>
  The byte-string helpers of \<^verbatim>\<open>shared/binary.ts\<close> and \<^verbatim>\<open>shared/crypto/binary.ts\<close> (hex, base64,
  base128, constant-time comparison) and the set checksums of \<^verbatim>\<open>shared/checksum.ts\<close>. Hex and
  base64 strings are the keys of the in-memory stores, so their injectivity is what makes
  those stores maps from byte strings.
\<close>

section \<open>Hexadecimal\<close>

definition hexdigit :: "nat \<Rightarrow> 16 word" where
  "hexdigit n = (if n < 10 then word_of_nat (48 + n) else word_of_nat (87 + n))"

definition hex_str :: "nat \<Rightarrow> jsstr" where
  "hex_str n = (if n < 16 then [hexdigit n] else [hexdigit (n div 16), hexdigit (n mod 16)])"

definition padStart :: "nat \<Rightarrow> 16 word \<Rightarrow> jsstr \<Rightarrow> jsstr" where
  "padStart n c s = replicate (n - length s) c @ s"

definition btoh :: "bytes \<Rightarrow> jsstr" where
  "btoh bs = concat (map (\<lambda>b. padStart 2 48 (hex_str (unat b))) bs)"

text \<open>
  \<open>Number.parseInt(s, 16)\<close> on two characters, stored into a \<open>Uint8Array\<close>: white space and a
  sign are skipped, a second character that is no digit is ignored, NaN is stored as zero and
  a negative number modulo 256.
\<close>

definition hexval :: "16 word \<Rightarrow> nat option" where
  "hexval c =
     (let n = unat c in
      if 48 \<le> n \<and> n \<le> 57 then Some (n - 48)
      else if 97 \<le> n \<and> n \<le> 102 then Some (n - 87)
      else if 65 \<le> n \<and> n \<le> 70 then Some (n - 55)
      else None)"

definition js_space :: "16 word \<Rightarrow> bool" where
  "js_space c =
     (c \<in> {9, 10, 11, 12, 13, 32, 160, 0x1680, 0x2028, 0x2029, 0x202F, 0x205F, 0x3000, 0xFEFF}
      \<or> (0x2000 \<le> c \<and> c \<le> 0x200A))"

definition parseHex2 :: "16 word \<Rightarrow> 16 word \<Rightarrow> byte" where
  "parseHex2 a b =
     (case hexval a of
        Some x \<Rightarrow>
          (case hexval b of
             Some y \<Rightarrow> word_of_nat (16 * x + y)
           | None \<Rightarrow> if x = 0 \<and> (b = 120 \<or> b = 88) then 0 else word_of_nat x)
      | None \<Rightarrow>
          (case hexval b of
             Some y \<Rightarrow>
               if a = 43 \<or> js_space a then word_of_nat y
               else if a = 45 then - word_of_nat y else 0
           | None \<Rightarrow> 0))"

fun htob_pairs :: "jsstr \<Rightarrow> bytes" where
  "htob_pairs (a # b # s) = parseHex2 a b # htob_pairs s"
| "htob_pairs _ = []"

definition htob :: "jsstr \<Rightarrow> bytes vs" where
  "htob hex = (if length hex mod 2 \<noteq> 0 then Throw else Ok (htob_pairs hex))"

section \<open>Comparison and concatenation\<close>

definition bytesEqual :: "bytes \<Rightarrow> bytes \<Rightarrow> bool" where
  "bytesEqual a b =
     (if length a \<noteq> length b then False
      else foldl (\<lambda>d i. d OR (a ! i XOR b ! i)) 0 [0..<length a] = 0)"

definition concat_bytes :: "bytes \<Rightarrow> bytes \<Rightarrow> bytes" where
  "concat_bytes a b = a @ b"

text \<open>The comparator of \<open>arr.sort(cmpBytes)\<close>: negative, zero or positive.\<close>

fun cmpBytes_from :: "bytes \<Rightarrow> bytes \<Rightarrow> int" where
  "cmpBytes_from (x # a) (y # b) = (if x \<noteq> y then uint x - uint y else cmpBytes_from a b)"
| "cmpBytes_from a b = int (length a) - int (length b)"

definition cmpBytes :: "bytes \<Rightarrow> bytes \<Rightarrow> int" where
  "cmpBytes a b = cmpBytes_from a b"

section \<open>Base64\<close>

definition b64digit :: "nat \<Rightarrow> 16 word" where
  "b64digit n =
     (if n < 26 then word_of_nat (65 + n)
      else if n < 52 then word_of_nat (71 + n)
      else if n < 62 then word_of_nat (n - 4)
      else if n = 62 then 43 else 47)"

fun b64_groups :: "nat list \<Rightarrow> jsstr" where
  "b64_groups [] = []"
| "b64_groups [a] = [b64digit (a div 4), b64digit (a mod 4 * 16), 61, 61]"
| "b64_groups [a, b] =
     [b64digit (a div 4), b64digit (a mod 4 * 16 + b div 16), b64digit (b mod 16 * 4), 61]"
| "b64_groups (a # b # c # r) =
     b64digit (a div 4) # b64digit (a mod 4 * 16 + b div 16)
     # b64digit (b mod 16 * 4 + c div 64) # b64digit (c mod 64) # b64_groups r"

definition btob64 :: "bytes \<Rightarrow> jsstr" where
  "btob64 bs = b64_groups (map unat bs)"

definition b64val :: "16 word \<Rightarrow> nat option" where
  "b64val c =
     (let n = unat c in
      if 65 \<le> n \<and> n \<le> 90 then Some (n - 65)
      else if 97 \<le> n \<and> n \<le> 122 then Some (n - 71)
      else if 48 \<le> n \<and> n \<le> 57 then Some (n + 4)
      else if n = 43 then Some 62
      else if n = 47 then Some 63
      else None)"

fun b64_ungroup :: "nat list \<Rightarrow> bytes vs" where
  "b64_ungroup [] = Ok []"
| "b64_ungroup [x] = Throw"
| "b64_ungroup [x, y] = Ok [word_of_nat (x * 4 + y div 16)]"
| "b64_ungroup [x, y, z] = Ok [word_of_nat (x * 4 + y div 16), word_of_nat (y mod 16 * 16 + z div 4)]"
| "b64_ungroup (x # y # z # w # r) =
     andThen (b64_ungroup r) (\<lambda>bs.
     Ok (word_of_nat (x * 4 + y div 16) # word_of_nat (y mod 16 * 16 + z div 4)
         # word_of_nat (z mod 4 * 64 + w) # bs))"

text \<open>
  The forgiving decoder of the platform: ASCII white space is skipped, at most two padding
  characters are dropped from a string whose length is a multiple of four, and any other
  character throws.
\<close>

definition b64_unpad :: "jsstr \<Rightarrow> jsstr" where
  "b64_unpad s =
     (if length s mod 4 = 0 \<and> s \<noteq> [] \<and> last s = 61 then
        (let t = butlast s in if t \<noteq> [] \<and> last t = 61 then butlast t else t)
      else s)"

definition b64tob :: "jsstr \<Rightarrow> bytes vs" where
  "b64tob b64 =
     (let s = b64_unpad (filter (\<lambda>c. c \<notin> {9, 10, 12, 13, 32}) b64)
      in if list_all (\<lambda>c. b64val c \<noteq> None) s then b64_ungroup (map (the \<circ> b64val) s) else Throw)"

definition btob64url :: "bytes \<Rightarrow> jsstr" where
  "btob64url bs =
     rev (dropWhile (\<lambda>c. c = 61)
       (rev (map (\<lambda>c. if c = 43 then 45 else if c = 47 then 95 else c) (btob64 bs))))"

definition b64urltob :: "jsstr \<Rightarrow> bytes vs" where
  "b64urltob s =
     (let pad = (if length s mod 4 = 0 then [] else replicate (4 - length s mod 4) 61)
      in b64tob (map (\<lambda>c. if c = 45 then 43 else if c = 95 then 47 else c) s @ pad))"

section \<open>Base128\<close>

text \<open>
  \<open>while (bitCount >= w)\<close>: move the low \<open>w\<close> bits of the accumulator to the output
  (\<open>bits & 0x7F\<close> and \<open>bits & 0xFF\<close> are \<open>take_bit\<close> of 7 and 8). At most
  15 bits are ever held, so the 32-bit shifts of the code never overflow.
\<close>

function drain :: "nat \<Rightarrow> nat \<Rightarrow> nat \<Rightarrow> nat list \<Rightarrow> nat \<times> nat \<times> nat list" where
  "drain w bits bitCount out =
     (if 0 < w \<and> bitCount \<ge> w then drain w (drop_bit w bits) (bitCount - w) (out @ [take_bit w bits])
      else (bits, bitCount, out))"
  by pat_completeness auto
termination
  by (relation "measure (\<lambda>(w, bits, bitCount, out). bitCount)") auto

declare drain.simps [simp del]

fun feed :: "nat \<Rightarrow> nat \<Rightarrow> nat list \<Rightarrow> nat \<times> nat \<times> nat list \<Rightarrow> nat \<times> nat \<times> nat list" where
  "feed v w [] st = st"
| "feed v w (x # xs) (bits, bitCount, out) =
     feed v w xs (drain w (bits OR push_bit bitCount x) (bitCount + v) out)"

definition btob128 :: "bytes \<Rightarrow> jsstr" where
  "btob128 bs =
     (case feed 8 7 (map unat bs) (0, 0, []) of
        (bits, bitCount, codes) \<Rightarrow>
          map word_of_nat (if bitCount > 0 then codes @ [bits AND 0x7F] else codes))"

definition b128tob :: "jsstr \<Rightarrow> bytes vs" where
  "b128tob s =
     (if list_all (\<lambda>c. unat c \<le> 127) s
      then (case feed 7 8 (map unat s) (0, 0, []) of (_, _, out) \<Rightarrow> Ok (map word_of_nat out))
      else Throw)"

section \<open>Set checksums (checksum.ts)\<close>

text \<open>
  \<open>arr.sort(cmp)\<close>: the platform sorts stably by the comparator. Insertion sort is the
  model; for a comparator whose zero is equality every sorting algorithm gives this list.
\<close>

fun sort_insert :: "('a \<Rightarrow> 'a \<Rightarrow> int) \<Rightarrow> 'a \<Rightarrow> 'a list \<Rightarrow> 'a list" where
  "sort_insert cmp x [] = [x]"
| "sort_insert cmp x (y # ys) = (if cmp x y \<le> 0 then x # y # ys else y # sort_insert cmp x ys)"

definition js_sort :: "('a \<Rightarrow> 'a \<Rightarrow> int) \<Rightarrow> 'a list \<Rightarrow> 'a list" where
  "js_sort cmp xs = foldr (sort_insert cmp) xs []"

definition checksumSet :: "(bytes \<Rightarrow> bytes) \<Rightarrow> bytes list \<Rightarrow> bytes" where
  "checksumSet blake3 items = blake3 (concat (js_sort cmpBytes items))"

record IEntRev =
  rev_eid :: bytes
  rev_ctr :: int
  rev_updatedAt :: date

definition entRev_write :: "encoder \<Rightarrow> IEntRev \<Rightarrow> written" where
  "entRev_write e r =
     thenW (writeVarBytes e (rev_eid r)) (\<lambda>e.
     thenW (writeDate e (rev_updatedAt r)) (\<lambda>e.
     writeVarInt e (rev_ctr r)))"

definition encodeEntRev :: "IEntRev \<Rightarrow> bytes vs" where
  "encodeEntRev r = encode_with (\<lambda>e. entRev_write e r)"

definition checksumEntRevs :: "(bytes \<Rightarrow> bytes) \<Rightarrow> IEntRev list \<Rightarrow> bytes vs" where
  "checksumEntRevs blake3 revs =
     andThen (vs_map encodeEntRev revs) (\<lambda>recs. Ok (checksumSet blake3 recs))"

section \<open>Hex strings\<close>

lemma unat_16: "n < 65536 \<Longrightarrow> unat (word_of_nat n :: 16 word) = n"
  by (simp add: unat_of_nat)

lemma unat_8: "n < 256 \<Longrightarrow> unat (word_of_nat n :: byte) = n"
  by (simp add: unat_of_nat)

lemma unat_hexdigit: "n < 16 \<Longrightarrow> unat (hexdigit n) = (if n < 10 then 48 + n else 87 + n)"
  unfolding hexdigit_def using unat_16 [of "48 + n"] unat_16 [of "87 + n"] by (simp del: of_nat_add)

lemma hexval_hexdigit [simp]: "n < 16 \<Longrightarrow> hexval (hexdigit n) = Some n"
  by (simp add: hexval_def Let_def unat_hexdigit)

lemma unat_byte: "unat (b :: byte) < 256"
proof -
  have "unat b < 2 ^ LENGTH(8)" by (rule unsigned_less)
  then show ?thesis by simp
qed

lemma hexdigit_0: "hexdigit 0 = 48"
  by (simp add: hexdigit_def)

lemma btoh_byte:
  "padStart 2 48 (hex_str (unat (b :: byte))) = [hexdigit (unat b div 16), hexdigit (unat b mod 16)]"
  by (simp add: padStart_def hex_str_def hexdigit_0)

lemma btoh_simps [simp]:
  "btoh [] = []"
  "btoh (b # bs) = hexdigit (unat b div 16) # hexdigit (unat b mod 16) # btoh bs"
  by (simp_all add: btoh_def btoh_byte del: One_nat_def)

lemma parseHex2_byte: "parseHex2 (hexdigit (unat (b :: byte) div 16)) (hexdigit (unat b mod 16)) = b"
  using unat_byte [of b] by (simp add: parseHex2_def div_less_iff_less_mult)

lemma length_btoh: "length (btoh bs) = 2 * length bs"
  by (induction bs) auto

lemma htob_btoh: "htob (btoh bs) = Ok bs"
proof -
  have "htob_pairs (btoh bs) = bs" by (induction bs) (simp_all add: parseHex2_byte)
  then show ?thesis by (simp add: htob_def length_btoh)
qed

lemma btoh_inj [simp]: "btoh a = btoh b \<longleftrightarrow> a = b"
  by (metis htob_btoh vs.inject(1))

section \<open>Constant-time comparison\<close>

lemma fold_or_zero:
  "(foldl (\<lambda>d i. d OR f i) (d0 :: byte) is = 0) = (d0 = 0 \<and> (\<forall>i \<in> set is. f i = 0))"
  by (induction "is" arbitrary: d0) (auto simp: or_eq_0_iff)

lemma xor_zero: "((x :: byte) XOR y = 0) = (x = y)"
proof
  assume "x XOR y = 0"
  then have "(x XOR y) XOR y = y" by simp
  then show "x = y" by (simp add: xor.assoc)
qed simp

lemma bytesEqual_eq: "bytesEqual a b = (a = b)"
  unfolding bytesEqual_def fold_or_zero xor_zero list_eq_iff_nth_eq [of a b]
  by (simp add: atLeast0LessThan Ball_def)

section \<open>The order of byte strings\<close>

lemma cmpBytes_simps [simp]:
  "cmpBytes [] [] = 0"
  "cmpBytes (x # a) [] = int (Suc (length a))"
  "cmpBytes [] (y # b) = - int (Suc (length b))"
  "cmpBytes (x # a) (y # b) = (if x \<noteq> y then uint x - uint y else cmpBytes a b)"
  by (simp_all add: cmpBytes_def)

definition bytes_le :: "bytes \<Rightarrow> bytes \<Rightarrow> bool" where
  "bytes_le a b = (cmpBytes a b \<le> 0)"

lemma cmpBytes_zero [simp]: "(cmpBytes a b = 0) = (a = b)"
proof (induction a arbitrary: b)
  case Nil
  show ?case by (cases b) simp_all
next
  case (Cons x a)
  then show ?case by (cases b) (auto simp: word_uint_eq_iff)
qed

lemma cmpBytes_swap: "cmpBytes a b = - cmpBytes b a"
  by (induction a b rule: cmpBytes_from.induct) (auto simp: cmpBytes_def)

lemma cmpBytes_trans: "cmpBytes a b \<le> 0 \<Longrightarrow> cmpBytes b c \<le> 0 \<Longrightarrow> cmpBytes a c \<le> 0"
proof (induction a arbitrary: b c)
  case Nil
  show ?case by (cases c) simp_all
next
  case (Cons x a)
  obtain y b' where b: "b = y # b'" using Cons.prems(1) by (cases b) auto
  obtain z c' where c: "c = z # c'" using Cons.prems(2) b by (cases c) auto
  show ?case
    using Cons.prems Cons.IH [of b' c'] unfolding b c
    by (auto simp: word_uint_eq_iff split: if_splits)
qed

lemma mset_sort_insert [simp]: "mset (sort_insert cmp x ys) = add_mset x (mset ys)"
  by (induction ys) auto

lemma mset_js_sort [simp]: "mset (js_sort cmp xs) = mset xs"
  by (induction xs) (auto simp: js_sort_def)

lemma set_js_sort [simp]: "set (js_sort cmp xs) = set xs"
  by (metis mset_js_sort set_mset_mset)

lemma length_js_sort [simp]: "length (js_sort cmp xs) = length xs"
  by (metis mset_js_sort size_mset)

lemma distinct_js_sort [simp]: "distinct (js_sort cmp xs) = distinct xs"
  by (metis mset_js_sort mset_eq_imp_distinct_iff)

locale comparator =
  fixes cmp :: "'a \<Rightarrow> 'a \<Rightarrow> int"
  assumes cmp_total: "cmp a b \<le> 0 \<or> cmp b a \<le> 0"
    and cmp_trans: "cmp a b \<le> 0 \<Longrightarrow> cmp b c \<le> 0 \<Longrightarrow> cmp a c \<le> 0"
begin

lemma sorted_insert:
  "sorted_wrt (\<lambda>a b. cmp a b \<le> 0) ys \<Longrightarrow> sorted_wrt (\<lambda>a b. cmp a b \<le> 0) (sort_insert cmp x ys)"
proof (induction ys)
  case (Cons y ys)
  have "set (sort_insert cmp x ys) = insert x (set ys)"
    by (metis mset_sort_insert set_mset_mset set_mset_add_mset_insert)
  with Cons show ?case using cmp_total [of x y] cmp_trans [of x y] by auto
qed simp

lemma sorted_js_sort: "sorted_wrt (\<lambda>a b. cmp a b \<le> 0) (js_sort cmp xs)"
  by (induction xs) (auto simp: js_sort_def sorted_insert)

end

text \<open>A comparator that distinguishes different values: the sorted list is unique.\<close>

locale strict_comparator = comparator +
  assumes cmp_antisym: "cmp a b \<le> 0 \<Longrightarrow> cmp b a \<le> 0 \<Longrightarrow> a = b"
begin

lemma sorted_unique:
  "mset xs = mset ys \<Longrightarrow> sorted_wrt (\<lambda>a b. cmp a b \<le> 0) xs \<Longrightarrow> sorted_wrt (\<lambda>a b. cmp a b \<le> 0) ys
     \<Longrightarrow> xs = ys"
proof (induction xs arbitrary: ys)
  case (Cons x xs)
  then obtain y ys' where ys: "ys = y # ys'" by (cases ys) auto
  have x: "x \<in> set ys" and y: "y \<in> set (x # xs)"
    using Cons.prems(1) ys by (metis list.set_intros(1) mset_eq_setD)+
  have "x = y"
  proof (rule ccontr)
    assume ne: "x \<noteq> y"
    then have "cmp x y \<le> 0" "cmp y x \<le> 0" using Cons.prems(2,3) x y ys by auto
    with ne cmp_antisym show False by blast
  qed
  moreover have "xs = ys'" using Cons ys \<open>x = y\<close> by simp
  ultimately show ?case by (simp add: ys)
qed simp

lemma js_sort_perm: "mset xs = mset ys \<Longrightarrow> js_sort cmp xs = js_sort cmp ys"
  by (rule sorted_unique) (simp_all add: sorted_js_sort)

end

interpretation cmpBytes: strict_comparator cmpBytes
proof
  fix a b c :: bytes
  show "cmpBytes a b \<le> 0 \<or> cmpBytes b a \<le> 0" using cmpBytes_swap [of a b] by linarith
  show "cmpBytes a b \<le> 0 \<Longrightarrow> cmpBytes b a \<le> 0 \<Longrightarrow> a = b"
    using cmpBytes_swap [of a b] cmpBytes_zero [of a b] by linarith
  show "cmpBytes a b \<le> 0 \<Longrightarrow> cmpBytes b c \<le> 0 \<Longrightarrow> cmpBytes a c \<le> 0" by (rule cmpBytes_trans)
qed

section \<open>Base64 strings\<close>

text \<open>The digits of an encoding, its padding aside.\<close>

fun b64_raw :: "nat list \<Rightarrow> nat list" where
  "b64_raw [] = []"
| "b64_raw [a] = [a div 4, a mod 4 * 16]"
| "b64_raw [a, b] = [a div 4, a mod 4 * 16 + b div 16, b mod 16 * 4]"
| "b64_raw (a # b # c # r) =
     a div 4 # (a mod 4 * 16 + b div 16) # (b mod 16 * 4 + c div 64) # (c mod 64) # b64_raw r"

definition b64_pad :: "nat list \<Rightarrow> jsstr" where
  "b64_pad ns = (if length ns mod 3 = 0 then [] else replicate (3 - length ns mod 3) 61)"

lemma unat_b64digit:
  "n < 64 \<Longrightarrow> unat (b64digit n) =
     (if n < 26 then 65 + n else if n < 52 then 71 + n else if n < 62 then n - 4
      else if n = 62 then 43 else 47)"
  unfolding b64digit_def using unat_16 [of "65 + n"] unat_16 [of "71 + n"] unat_16 [of "n - 4"]
  by (simp del: of_nat_add of_nat_diff)

lemma b64val_b64digit [simp]: "n < 64 \<Longrightarrow> b64val (b64digit n) = Some n"
  by (auto simp: b64val_def Let_def unat_b64digit)

lemma b64digit_not:
  assumes "n < 64" "unat c \<in> {9, 10, 12, 13, 32, 45, 61, 95}"
  shows "b64digit n \<noteq> c"
proof
  assume "b64digit n = c"
  then have "unat c = unat (b64digit n)" by simp
  with assms show False by (auto simp: unat_b64digit split: if_splits)
qed

lemma b64_pad_simps [simp]:
  "b64_pad [] = []" "b64_pad [a] = [61, 61]" "b64_pad [a, b] = [61]" "b64_pad (a # b # c # r) = b64_pad r"
proof -
  have "length (a # b # c # r) = length r + 3" by simp
  then have "length (a # b # c # r) mod 3 = length r mod 3" by (simp only: mod_add_self2)
  then show "b64_pad (a # b # c # r) = b64_pad r" unfolding b64_pad_def by (simp only:)
qed (simp_all add: b64_pad_def numeral_2_eq_2)

lemma b64_groups_raw: "b64_groups ns = map b64digit (b64_raw ns) @ b64_pad ns"
  by (induction ns rule: b64_groups.induct) simp_all

lemma b64_bytes:
  assumes "b < 256" "c < (256 :: nat)"
  shows "a div 4 * 4 + (a mod 4 * 16 + b div 16) div 16 = a"
    and "(a mod 4 * 16 + b div 16) mod 16 * 16 + (b mod 16 * 4 + c div 64) div 4 = b"
    and "(b mod 16 * 4 + c div 64) mod 4 * 64 + c mod 64 = c"
    and "a mod 4 * 16 + b div 16 < 64" "b mod 16 * 4 + c div 64 < 64"
proof -
  have b: "b div 16 < 16" and c: "c div 64 < 4" using assms by (simp_all add: div_less_iff_less_mult)
  have "a mod 4 \<le> 3" "b mod 16 \<le> 15" by (simp_all add: less_Suc_eq_le [symmetric])
  then show "a mod 4 * 16 + b div 16 < 64" "b mod 16 * 4 + c div 64 < 64" using b c by linarith+
  show "a div 4 * 4 + (a mod 4 * 16 + b div 16) div 16 = a"
    "(a mod 4 * 16 + b div 16) mod 16 * 16 + (b mod 16 * 4 + c div 64) div 4 = b"
    "(b mod 16 * 4 + c div 64) mod 4 * 64 + c mod 64 = c"
    using b c by simp_all
qed

lemma b64_raw_digits: "list_all (\<lambda>n. n < 256) ns \<Longrightarrow> list_all (\<lambda>n. n < 64) (b64_raw ns)"
proof (induction ns rule: b64_raw.induct)
  case (2 a)
  then show ?case using b64_bytes(4) [of 0 0 a] by (simp add: div_less_iff_less_mult)
next
  case (3 a b)
  then show ?case using b64_bytes(4) [of b 0 a] b64_bytes(5) [of b 0] by (simp add: div_less_iff_less_mult)
next
  case (4 a b c r)
  then show ?case using b64_bytes(4) [of b c a] b64_bytes(5) [of b c] by (simp add: div_less_iff_less_mult)
qed simp

lemma b64_ungroup_raw:
  "list_all (\<lambda>n. n < 256) ns \<Longrightarrow> b64_ungroup (b64_raw ns) = Ok (map word_of_nat ns)"
proof (induction ns rule: b64_raw.induct)
  case (2 a)
  then show ?case using b64_bytes(1) [of 0 0 a] by (simp only: b64_raw.simps b64_ungroup.simps) simp
next
  case (3 a b)
  then have "b < 256" by simp
  then show ?case
    using b64_bytes(1,2) [of b 0 a] by (simp only: b64_raw.simps b64_ungroup.simps div_0 add_0_right) simp
next
  case (4 a b c r)
  then have "b < 256" "c < 256" "b64_ungroup (b64_raw r) = Ok (map word_of_nat r)" by simp_all
  then show ?case
    using b64_bytes(1,2) [of b c a] b64_bytes(3) [of b c] by (simp only: b64_raw.simps b64_ungroup.simps andThen.simps) simp
qed simp

lemma length_b64_raw:
  "length (b64_raw ns) mod 4 = (if b64_pad ns = [] then 0 else 4 - length (b64_pad ns))"
proof (induction ns rule: b64_raw.induct)
  case (4 a b c r)
  have "length (b64_raw (a # b # c # r)) = length (b64_raw r) + 4" by simp
  then have "length (b64_raw (a # b # c # r)) mod 4 = length (b64_raw r) mod 4" by (simp only: mod_add_self2)
  with 4 show ?case by (simp only: b64_pad_simps)
qed simp_all

lemma b64_pad_cases: "b64_pad ns = [] \<or> b64_pad ns = [61] \<or> b64_pad ns = [61, 61]"
  by (induction ns rule: b64_raw.induct) simp_all

lemma map_b64val_digits: "list_all (\<lambda>n. n < 64) ds \<Longrightarrow> map (the \<circ> b64val) (map b64digit ds) = ds"
  by (induction ds) auto

lemma b64_not_pad: "list_all (\<lambda>n. n < 64) ds \<Longrightarrow> ds \<noteq> [] \<Longrightarrow> last (map b64digit ds) \<noteq> 61"
  using b64digit_not [of "last ds" 61] by (cases ds rule: rev_cases) auto

lemma b64_unpad_raw:
  assumes "list_all (\<lambda>n. n < 64) ds"
    and "length ds mod 4 = (if pad = [] then 0 else 4 - length pad)"
    and "pad = [] \<or> pad = [61] \<or> pad = [61, 61]"
  shows "b64_unpad (map b64digit ds @ pad) = map b64digit ds"
proof -
  have "pad \<noteq> [] \<Longrightarrow> length (map b64digit ds @ pad) mod 4 = 0"
    using assms(2,3) mod_add_left_eq [of "length ds" 4 "length pad"] by auto
  then show ?thesis
    using assms b64_not_pad [OF assms(1)]
    by (auto simp: b64_unpad_def Let_def butlast_append)
qed

lemma b64tob_digits:
  assumes "list_all (\<lambda>n. n < 256) ns"
  shows "b64tob (map b64digit (b64_raw ns) @ b64_pad ns) = Ok (map word_of_nat ns)"
proof -
  have d: "list_all (\<lambda>n. n < 64) (b64_raw ns)" by (rule b64_raw_digits) fact
  have "filter (\<lambda>c. c \<notin> {9, 10, 12, 13, 32}) (map b64digit (b64_raw ns) @ b64_pad ns) =
      map b64digit (b64_raw ns) @ b64_pad ns"
    using d b64_pad_cases [of ns] b64digit_not by (intro filter_True) (auto simp: list_all_iff)
  moreover have "b64_unpad (map b64digit (b64_raw ns) @ b64_pad ns) = map b64digit (b64_raw ns)"
    by (rule b64_unpad_raw [OF d length_b64_raw b64_pad_cases])
  moreover have "list_all (\<lambda>c. b64val c \<noteq> None) (map b64digit (b64_raw ns))"
    using d by (auto simp: list_all_iff)
  ultimately show ?thesis
    using b64_ungroup_raw [OF assms] map_b64val_digits [OF d] by (simp add: b64tob_def Let_def del: map_map)
qed

lemma bytes_nats: "list_all (\<lambda>n. n < 256) (map unat (bs :: bytes))"
  using unat_byte by (auto simp: list_all_iff)

lemma b64tob_btob64: "b64tob (btob64 bs) = Ok bs"
  using b64tob_digits [OF bytes_nats, of bs]
  by (simp add: btob64_def b64_groups_raw comp_def del: map_map) (simp add: comp_def)

lemma btob64_inj [simp]: "btob64 a = btob64 b \<longleftrightarrow> a = b"
  by (metis b64tob_btob64 vs.inject(1))

abbreviation url_sub :: "16 word \<Rightarrow> 16 word" where
  "url_sub c \<equiv> (if c = 43 then 45 else if c = 47 then 95 else c)"

abbreviation url_unsub :: "16 word \<Rightarrow> 16 word" where
  "url_unsub c \<equiv> (if c = 45 then 43 else if c = 95 then 47 else c)"

lemma url_unsub_sub: "n < 64 \<Longrightarrow> url_unsub (url_sub (b64digit n)) = b64digit n"
  using b64digit_not [of n 45] b64digit_not [of n 95] by auto

lemma map_url_unsub:
  "list_all (\<lambda>n. n < 64) ds \<Longrightarrow> map url_unsub (map url_sub (map b64digit ds)) = map b64digit ds"
proof (induction ds)
  case (Cons n ds)
  then have "n < 64" "map url_unsub (map url_sub (map b64digit ds)) = map b64digit ds" by simp_all
  then show ?case using url_unsub_sub [of n] by (simp only: list.map)
qed simp

lemma strip_pad:
  assumes "list_all (\<lambda>c. c \<noteq> 61) xs" "list_all (\<lambda>c. c = 61) pad"
  shows "rev (dropWhile (\<lambda>c. c = (61 :: 16 word)) (rev (xs @ pad))) = xs"
proof -
  have "dropWhile (\<lambda>c. c = 61) (rev pad @ rev xs) = dropWhile (\<lambda>c. c = 61) (rev xs)"
    using assms(2) by (intro dropWhile_append2) (auto simp: list_all_iff)
  also have "\<dots> = rev xs"
    using assms(1) by (cases xs rule: rev_cases) auto
  finally show ?thesis by simp
qed

lemma b64urltob_btob64url: "b64urltob (btob64url bs) = Ok bs"
proof -
  let ?ns = "map unat bs" and ?ds = "b64_raw (map unat bs)"
  have d: "list_all (\<lambda>n. n < 64) ?ds" by (rule b64_raw_digits [OF bytes_nats])
  have pad: "map url_sub (b64_pad ?ns) = b64_pad ?ns" "list_all (\<lambda>c. c = 61) (b64_pad ?ns)"
    using b64_pad_cases [of ?ns] by auto
  have u: "btob64url bs = map url_sub (map b64digit ?ds)"
    unfolding btob64url_def btob64_def b64_groups_raw map_append pad(1)
    by (rule strip_pad [OF _ pad(2)]) (use d b64digit_not [of _ 61] in \<open>auto simp: list_all_iff\<close>)
  have l: "length (btob64url bs) mod 4 = (if b64_pad ?ns = [] then 0 else 4 - length (b64_pad ?ns))"
    unfolding u using length_b64_raw [of ?ns] by (simp only: length_map)
  have "(if length (btob64url bs) mod 4 = 0 then [] else replicate (4 - length (btob64url bs) mod 4) 61)
      = b64_pad ?ns"
    using b64_pad_cases [of ?ns] unfolding l by (auto simp: numeral_2_eq_2)
  moreover have "map url_unsub (btob64url bs) = map b64digit ?ds"
    unfolding u by (rule map_url_unsub [OF d])
  ultimately show ?thesis
    using b64tob_digits [OF bytes_nats, of bs] unfolding b64urltob_def Let_def
    by (simp only: map_map) (simp add: comp_def)
qed

section \<open>Base128 strings\<close>

text \<open>The number a digit list spells in base \<open>2\<^sup>v\<close>, least significant digit first.\<close>

primrec spell :: "nat \<Rightarrow> nat list \<Rightarrow> nat" where
  "spell v [] = 0"
| "spell v (x # xs) = x + 2 ^ v * spell v xs"

lemma spell_append: "spell v (xs @ ys) = spell v xs + 2 ^ (v * length xs) * spell v ys"
  by (induction xs) (simp_all add: power_add algebra_simps)

lemma spell_bound: "list_all (\<lambda>x. x < 2 ^ v) xs \<Longrightarrow> spell v xs < 2 ^ (v * length xs)"
proof (induction xs)
  case (Cons x xs)
  then have "x < 2 ^ v" "Suc (spell v xs) \<le> 2 ^ (v * length xs)" by auto
  then have "x + 2 ^ v * spell v xs < 2 ^ v * Suc (spell v xs)" by simp
  also have "\<dots> \<le> 2 ^ v * 2 ^ (v * length xs)" by (rule mult_left_mono) (fact, simp)
  finally show ?case by (simp add: power_add)
qed simp

lemma spell_inj:
  "list_all (\<lambda>x. x < 2 ^ v) xs \<Longrightarrow> list_all (\<lambda>x. x < 2 ^ v) ys \<Longrightarrow> length xs = length ys \<Longrightarrow>
     spell v xs = spell v ys \<Longrightarrow> xs = ys"
proof (induction xs arbitrary: ys)
  case (Cons x xs)
  then obtain y ys' where ys: "ys = y # ys'" by (cases ys) auto
  have xy: "x < 2 ^ v" "y < 2 ^ v" "x + 2 ^ v * spell v xs = y + 2 ^ v * spell v ys'"
    using Cons.prems ys by auto
  have "x = (x + 2 ^ v * spell v xs) mod 2 ^ v" using xy(1) by simp
  also have "\<dots> = y" unfolding xy(3) using xy(2) by simp
  finally have "x = y" .
  with xy(3) have "spell v xs = spell v ys'" by simp
  with Cons ys \<open>x = y\<close> show ?case by auto
qed simp

lemma or_shifted_nat: "(r :: nat) < 2 ^ s \<Longrightarrow> r OR push_bit s x = r + x * 2 ^ s"
proof -
  assume "r < 2 ^ s"
  then have "int r < 2 ^ s" by (simp flip: of_nat_less_iff)
  then have "int r OR push_bit s (int x) = int r + int x * 2 ^ s" by (intro or_shifted) simp
  then have "int (r OR push_bit s x) = int (r + x * 2 ^ s)"
    by (simp add: of_nat_or_eq of_nat_push_bit)
  then show ?thesis by (simp only: of_nat_eq_iff)
qed

text \<open>
  Both directions re-group a bit stream: \<open>v\<close>-bit digits in, \<open>w\<close>-bit digits out. The
  accumulator keeps the number spelled so far.
\<close>

definition stream_inv :: "nat \<Rightarrow> nat \<Rightarrow> nat list \<Rightarrow> nat \<times> nat \<times> nat list \<Rightarrow> bool" where
  "stream_inv v w xs st =
     (case st of (bits, bitCount, out) \<Rightarrow>
        bits < 2 ^ bitCount \<and> v * length xs = w * length out + bitCount
        \<and> list_all (\<lambda>x. x < 2 ^ w) out
        \<and> spell v xs = spell w out + 2 ^ (w * length out) * bits)"

lemma drain_inv:
  "stream_inv v w xs (bits, bitCount, out) \<Longrightarrow> 0 < w \<Longrightarrow>
     stream_inv v w xs (drain w bits bitCount out) \<and> fst (snd (drain w bits bitCount out)) < w"
proof (induction w bits bitCount out rule: drain.induct)
  case (1 w bits bitCount out)
  show ?case
  proof (cases "bitCount \<ge> w")
    case True
    have "drop_bit w bits < 2 ^ (bitCount - w)"
      using 1(2) True by (simp add: stream_inv_def drop_bit_eq_div div_less_iff_less_mult flip: power_add)
    moreover have "spell w (out @ [take_bit w bits]) + 2 ^ (w * length (out @ [take_bit w bits])) * drop_bit w bits
        = spell w out + 2 ^ (w * length out) * (take_bit w bits + 2 ^ w * drop_bit w bits)"
      by (simp add: spell_append power_add algebra_simps)
    moreover have "take_bit w bits + 2 ^ w * drop_bit w bits = bits"
      by (simp add: take_bit_eq_mod drop_bit_eq_div)
    ultimately have "stream_inv v w xs (drop_bit w bits, bitCount - w, out @ [take_bit w bits])"
      using 1(2) True by (auto simp: stream_inv_def take_bit_eq_mod)
    with 1 True show ?thesis by (subst (1 2) drain.simps) simp
  next
    case False
    with 1 show ?thesis by (subst (1 2) drain.simps) simp
  qed
qed

lemma feed_inv:
  "stream_inv v w ys st \<Longrightarrow> fst (snd st) < w \<Longrightarrow> list_all (\<lambda>x. x < 2 ^ v) xs \<Longrightarrow> 0 < w \<Longrightarrow>
     stream_inv v w (ys @ xs) (feed v w xs st) \<and> fst (snd (feed v w xs st)) < w"
proof (induction xs arbitrary: ys st)
  case (Cons x xs)
  obtain bits bitCount out where st: "st = (bits, bitCount, out)" by (cases st)
  have i: "bits < 2 ^ bitCount" "v * length ys = w * length out + bitCount"
    "list_all (\<lambda>x. x < 2 ^ w) out" "spell v ys = spell w out + 2 ^ (w * length out) * bits" "x < 2 ^ v"
    using Cons.prems by (auto simp: stream_inv_def st)
  have "bits OR push_bit bitCount x = bits + x * 2 ^ bitCount" by (rule or_shifted_nat [OF i(1)])
  moreover have "bits + x * 2 ^ bitCount < 2 ^ (bitCount + v)"
  proof -
    have "Suc x * 2 ^ bitCount \<le> 2 ^ v * 2 ^ bitCount" using i(5) by (intro mult_right_mono) auto
    with i(1) show ?thesis by (simp add: power_add mult.commute)
  qed
  moreover have "spell v (ys @ [x]) = spell w out + 2 ^ (w * length out) * (bits + x * 2 ^ bitCount)"
    by (simp add: spell_append i(2,4) power_add algebra_simps)
  ultimately have s: "stream_inv v w (ys @ [x]) (bits OR push_bit bitCount x, bitCount + v, out)"
    using i by (simp add: stream_inv_def)
  show ?case
    using Cons.IH [of "ys @ [x]"] drain_inv [OF s Cons.prems(4)] Cons.prems st by simp
qed simp

lemma b128_roundtrip: "b128tob (btob128 bs) = Ok bs"
proof -
  let ?ns = "map unat bs"
  obtain bits bc codes where f: "feed 8 7 ?ns (0, 0, []) = (bits, bc, codes)" by (metis prod_cases3)
  have "stream_inv 8 7 [] (0, 0, [])" by (simp add: stream_inv_def)
  then have e: "stream_inv 8 7 ?ns (bits, bc, codes)" "bc < 7"
    using feed_inv [of 8 7 "[]" "(0, 0, [])" ?ns] bytes_nats [of bs] by (simp_all add: f)
  define ds where "ds = (if bc > 0 then codes @ [bits AND 0x7F] else codes)"
  have bits: "bits < 2 ^ bc" using e by (simp add: stream_inv_def)
  also have "(2 :: nat) ^ bc \<le> 2 ^ 7" using e(2) by (intro power_increasing) auto
  finally have "bits AND 0x7F = bits"
    using take_bit_eq_mask [of 7 bits] by (simp add: take_bit_eq_mod mask_eq_exp_minus_1)
  then have ds: "list_all (\<lambda>x. x < 2 ^ 7) ds" "spell 7 ds = spell 8 ?ns"
    using e \<open>bits < 2 ^ bc\<close> \<open>2 ^ bc \<le> 2 ^ 7\<close>
    by (auto simp: ds_def stream_inv_def spell_append less_le_trans)
  have len: "8 * length ?ns \<le> 7 * length ds" "7 * length ds < 8 * length ?ns + 7"
    using e by (auto simp: ds_def stream_inv_def)
  have u: "map unat (map word_of_nat ds :: jsstr) = ds"
    using ds(1) by (induction ds) (auto simp: unat_of_nat)
  obtain b2 bc2 out where g: "feed 7 8 ds (0, 0, []) = (b2, bc2, out)" by (metis prod_cases3)
  have "stream_inv 7 8 [] (0, 0, [])" by (simp add: stream_inv_def)
  then have d: "stream_inv 7 8 ds (b2, bc2, out)" "bc2 < 8"
    using feed_inv [of 7 8 "[]" "(0, 0, [])" ds] ds(1) by (simp_all add: g)
  have l: "length out = length ?ns" using d len by (auto simp: stream_inv_def)
  have "spell 8 ?ns < 2 ^ (8 * length ?ns)" by (rule spell_bound) (use bytes_nats in simp)
  then have "b2 = 0" using d ds(2) l by (cases b2) (auto simp: stream_inv_def)
  then have "out = ?ns"
    using d ds(2) l bytes_nats [of bs] by (intro spell_inj [of 8]) (auto simp: stream_inv_def)
  moreover have "btob128 bs = map word_of_nat ds" by (simp add: btob128_def f ds_def)
  moreover have "list_all (\<lambda>c. unat c \<le> 127) (map word_of_nat ds :: jsstr)"
    using ds(1) u by (auto simp: list_all_iff unat_of_nat)
  ultimately show ?thesis
    unfolding b128tob_def by (simp only: u g if_True prod.case) (simp add: comp_def)
qed

section \<open>Frontier records are self-delimiting\<close>

text \<open>A reader of frontier records, used only to show that their concatenation parses uniquely.\<close>

definition entRev_read :: "decoder \<Rightarrow> (IEntRev \<times> decoder) vs" where
  "entRev_read d =
     andThen (readVarBytes d) (\<lambda>(i, d).
     andThen (readDate d) (\<lambda>(t, d).
     andThen (readVarInt d) (\<lambda>(c, d).
     Ok (\<lparr>rev_eid = i, rev_ctr = c, rev_updatedAt = t\<rparr>, d))))"

definition entRev_wire :: "IEntRev \<Rightarrow> bytes" where
  "entRev_wire r =
     varbytes_wire (rev_eid r) @ varint_wire (the (rev_updatedAt r)) @ varint_wire (rev_ctr r)"

definition entRev_ok :: "IEntRev \<Rightarrow> bool" where
  "entRev_ok r = (short (rev_eid r) \<and> date_ok (rev_updatedAt r) \<and> is_num (rev_ctr r))"

interpretation entRev: struct_codec entRev_write entRev_read entRev_wire entRev_ok
proof
  fix r assume "entRev_ok r"
  then have k: "short (rev_eid r)" "date_ok (rev_updatedAt r)" "is_num (rev_ctr r)"
    by (simp_all add: entRev_ok_def)
  show "emits (\<lambda>e. entRev_write e r) (entRev_wire r)"
    unfolding entRev_write_def entRev_wire_def by (rule emits_rules k)+
  show "parses entRev_read (entRev_wire r) r"
    unfolding entRev_read_def entRev_wire_def by (rule parses_fields k | (simp; fail))+
next
  show "moves 1 entRev_read"
    unfolding entRev_read_def by (rule moves_fields moves_rules)+
qed

lemma encodeEntRev_ok: "entRev_ok r \<Longrightarrow> encodeEntRev r = Ok (entRev_wire r)"
  by (simp add: encodeEntRev_def entRev.encode_ok)

lemma concat_wire_inj:
  "list_all entRev_ok rs \<Longrightarrow> list_all entRev_ok rs' \<Longrightarrow>
     concat (map entRev_wire rs) = concat (map entRev_wire rs') \<Longrightarrow> rs = rs'"
proof (induction rs arbitrary: rs')
  case Nil
  then show ?case using entRev.wire_ne by (cases rs') auto
next
  case (Cons r rs)
  then obtain r' rs'' where rs': "rs' = r' # rs''" using entRev.wire_ne by (cases rs') auto
  with Cons.prems have "r = r' \<and> concat (map entRev_wire rs) = concat (map entRev_wire rs'')"
    by (intro entRev.prefix_free) auto
  with Cons rs' show ?case by simp
qed

definition entRev_of :: "bytes \<Rightarrow> IEntRev" where
  "entRev_of w = (case entRev_read (Decoder w) of Ok (r, _) \<Rightarrow> r | _ \<Rightarrow> undefined)"

lemma entRev_of_wire [simp]: "entRev_ok r \<Longrightarrow> entRev_of (entRev_wire r) = r"
  using entRev.decode_ok [of r "[]"] by (simp add: entRev_of_def)

lemma wire_mset_inj:
  assumes "list_all entRev_ok rs" "list_all entRev_ok rs'"
    and "mset (map entRev_wire rs) = mset (map entRev_wire rs')"
  shows "mset rs = mset rs'"
proof -
  have "map entRev_of (map entRev_wire rs) = rs" "map entRev_of (map entRev_wire rs') = rs'"
    using assms(1,2) by (auto simp: list_all_iff intro!: map_idI)
  then show ?thesis using arg_cong [OF assms(3), of "image_mset entRev_of"] by (metis mset_map)
qed

lemma sorted_wires:
  assumes "list_all entRev_ok rs"
  shows "\<exists>ys. js_sort cmpBytes (map entRev_wire rs) = map entRev_wire ys \<and> list_all entRev_ok ys"
proof (intro exI conjI)
  let ?zs = "js_sort cmpBytes (map entRev_wire rs)"
  show "?zs = map entRev_wire (map entRev_of ?zs)"
    using assms by (auto simp: list_all_iff intro!: map_idI [symmetric])
  show "list_all entRev_ok (map entRev_of ?zs)" using assms by (auto simp: list_all_iff)
qed

text \<open>The byte string that is hashed for a list of encodable revisions.\<close>

definition frontier_preimage :: "IEntRev list \<Rightarrow> bytes" where
  "frontier_preimage rs = concat (js_sort cmpBytes (map entRev_wire rs))"

lemma checksumEntRevs_ok:
  "list_all entRev_ok rs \<Longrightarrow>
     checksumEntRevs blake3 rs = Ok (blake3 (concat (js_sort cmpBytes (map entRev_wire rs))))"
proof -
  assume "list_all entRev_ok rs"
  then have "vs_map encodeEntRev rs = Ok (map entRev_wire rs)"
    by (intro vs_map_Ok) (auto simp: list_all_iff encodeEntRev_ok)
  then show ?thesis by (simp add: checksumEntRevs_def checksumSet_def)
qed

lemma checksumEntRevs_perm:
  assumes "list_all entRev_ok rs" "mset rs = mset rs'"
  shows "checksumEntRevs blake3 rs = checksumEntRevs blake3 rs'"
proof -
  have "set rs = set rs'" using assms(2) by (rule mset_eq_setD)
  then have "list_all entRev_ok rs'" using assms(1) by (simp add: list_all_iff)
  moreover have "js_sort cmpBytes (map entRev_wire rs) = js_sort cmpBytes (map entRev_wire rs')"
    using assms(2) by (intro cmpBytes.js_sort_perm) simp
  ultimately show ?thesis using assms(1) by (simp add: checksumEntRevs_ok)
qed

section \<open>Properties of the encodings and checksums\<close>

text \<open>The textual encodings of byte strings are lossless. Decoding the hex, base64, base64url
  and base128 form of a byte string gives that byte string; in particular the hex and base64
  strings the stores use as map keys are different for different byte strings.\<close>

theorem text_encodings_roundtrip:
  "htob (btoh bs) = Ok bs \<and> b64tob (btob64 bs) = Ok bs \<and> b64urltob (btob64url bs) = Ok bs
   \<and> b128tob (btob128 bs) = Ok bs"
  by (simp add: htob_btoh b64tob_btob64 b64urltob_btob64url b128_roundtrip)

text \<open>The constant-time comparison decides equality, and the comparator of the checksum sort is
  a total order whose zero is equality.\<close>

theorem byte_comparisons:
  "(bytesEqual a b = (a = b)) \<and> ((cmpBytes a b = 0) = (a = b)) \<and> cmpBytes a b = - cmpBytes b a
   \<and> (cmpBytes a b \<le> 0 \<and> cmpBytes b c \<le> 0 \<longrightarrow> cmpBytes a c \<le> 0)"
  using cmpBytes_swap [of a b] cmpBytes_trans [of a b c] by (auto simp: bytesEqual_eq)

theorem byte_comparisons_witness:
  "(bytesEqual [1] [2] = ([1] = ([2] :: bytes))) \<and> ((cmpBytes [1] [2] = 0) = ([1] = ([2] :: bytes)))
   \<and> cmpBytes [1] [2] = - cmpBytes [2] [1] \<and> cmpBytes [1] [2] \<le> 0 \<and> cmpBytes [2] [3, 4] \<le> 0
   \<and> cmpBytes [1] [3, 4] \<le> 0"
  using byte_comparisons [of "[1]" "[2]" "[3, 4]"] by simp

text \<open>C36: the frontier checksum identifies the frontier. It does not depend on the order in which the
  rows are visited, and two lists of encodable revisions whose hashed byte strings do not collide
  have the same checksum exactly when they hold the same revisions: the concatenated records
  parse uniquely.\<close>

theorem checksumEntRevs_frontier:
  assumes "list_all entRev_ok rs" "list_all entRev_ok rs'"
    and "inj_on blake3 {frontier_preimage rs, frontier_preimage rs'}"
  shows "(checksumEntRevs blake3 rs = checksumEntRevs blake3 rs') = (mset rs = mset rs')
         \<and> checksumEntRevs blake3 rs \<noteq> Throw \<and> checksumEntRevs blake3 rs \<noteq> Hang"
proof -
  note c = checksumEntRevs_ok [of _ blake3]
  have "mset rs = mset rs'"
    if eq: "concat (js_sort cmpBytes (map entRev_wire rs)) = concat (js_sort cmpBytes (map entRev_wire rs'))"
  proof -
    obtain ys where ys: "js_sort cmpBytes (map entRev_wire rs) = map entRev_wire ys" "list_all entRev_ok ys"
      using sorted_wires [OF assms(1)] by blast
    obtain ys' where ys': "js_sort cmpBytes (map entRev_wire rs') = map entRev_wire ys'" "list_all entRev_ok ys'"
      using sorted_wires [OF assms(2)] by blast
    have "ys = ys'" by (rule concat_wire_inj [OF ys(2) ys'(2)]) (use eq ys(1) ys'(1) in argo)
    then have "mset (js_sort cmpBytes (map entRev_wire rs)) = mset (js_sort cmpBytes (map entRev_wire rs'))"
      by (simp only: ys ys')
    then show ?thesis by (intro wire_mset_inj assms(1,2)) simp
  qed
  moreover have "js_sort cmpBytes (map entRev_wire rs) = js_sort cmpBytes (map entRev_wire rs')"
    if "mset rs = mset rs'" using that by (intro cmpBytes.js_sort_perm) simp
  ultimately show ?thesis
    using assms(3) by (auto simp: c assms(1,2) frontier_preimage_def inj_on_eq_iff)
qed

theorem checksumEntRevs_frontier_witness:
  "(checksumEntRevs (\<lambda>b. 7 # b)
      [\<lparr>rev_eid = [1], rev_ctr = 0, rev_updatedAt = Some 5\<rparr>, \<lparr>rev_eid = [2], rev_ctr = 1, rev_updatedAt = Some 4\<rparr>]
    = checksumEntRevs (\<lambda>b. 7 # b)
      [\<lparr>rev_eid = [2], rev_ctr = 1, rev_updatedAt = Some 4\<rparr>, \<lparr>rev_eid = [1], rev_ctr = 0, rev_updatedAt = Some 5\<rparr>])
   \<and> checksumEntRevs (\<lambda>b. 7 # b) [\<lparr>rev_eid = [1], rev_ctr = 0, rev_updatedAt = Some 5\<rparr>] \<noteq> Throw"
proof -
  have ok: "entRev_ok \<lparr>rev_eid = [a], rev_ctr = c, rev_updatedAt = Some t\<rparr>"
    if "0 \<le> c" "c < 9" "0 \<le> t" "t < 9" for a c t
    using that by (simp add: entRev_ok_def short_def date_ok_def max_time_def is_num_safe)
  have i: "inj_on (\<lambda>b :: bytes. 7 # b) A" for A by (simp add: inj_on_def)
  show ?thesis
    using checksumEntRevs_frontier [OF _ _ i, of
      "[\<lparr>rev_eid = [1], rev_ctr = 0, rev_updatedAt = Some 5\<rparr>, \<lparr>rev_eid = [2], rev_ctr = 1, rev_updatedAt = Some 4\<rparr>]"
      "[\<lparr>rev_eid = [2], rev_ctr = 1, rev_updatedAt = Some 4\<rparr>, \<lparr>rev_eid = [1], rev_ctr = 0, rev_updatedAt = Some 5\<rparr>]"]
      checksumEntRevs_frontier [OF _ _ i, of "[\<lparr>rev_eid = [1], rev_ctr = 0, rev_updatedAt = Some 5\<rparr>]"
      "[\<lparr>rev_eid = [1], rev_ctr = 0, rev_updatedAt = Some 5\<rparr>]"] ok by simp
qed

end
