(* ===== verification/Crypto.thy ===== *)
theory Crypto
  imports Binary
begin

text \<open>
  Keys: the wrappers of \<^verbatim>\<open>shared/crypto/noble.ts\<close> around the cryptographic
  primitives, key derivation (\<^verbatim>\<open>derivation.ts\<close>, \<^verbatim>\<open>realms.ts\<close>), the per-realm bag
  manager (\<^verbatim>\<open>bagman.ts\<close>), the enclave that holds the master seed (\<^verbatim>\<open>enclave.ts\<close>),
  export file keys (\<^verbatim>\<open>export.ts\<close>) and key tags (\<^verbatim>\<open>stores/keyTag.ts\<close>). The primitives
  themselves (the noble packages and WebCrypto) are a record of functions that every
  definition takes as an argument; random bytes are arguments too. Wiping of key buffers is
  not modelled: byte strings are values here.
\<close>

section \<open>Primitives outside the repository\<close>

datatype CryptoKey = VerifyKey bytes

text \<open>
  \<^term>\<open>None\<close> is a thrown exception. \<open>ed_public\<close> maps an Ed25519 PKCS\#8 document to the raw
  public key WebCrypto exports for it, \<open>ed_sign\<close> signs under such a document.
\<close>

record prims =
  blake3_hash :: "bytes \<Rightarrow> bytes"
  blake3_context :: "jsstr \<Rightarrow> bytes \<Rightarrow> bytes option"
  blake3_keyed :: "bytes \<Rightarrow> bytes \<Rightarrow> bytes option"
  salsa_encrypt :: "bytes \<Rightarrow> bytes \<Rightarrow> bytes \<Rightarrow> bytes option"
  salsa_decrypt :: "bytes \<Rightarrow> bytes \<Rightarrow> bytes \<Rightarrow> bytes option"
  ed_public :: "bytes \<Rightarrow> bytes option"
  ed_sign :: "bytes \<Rightarrow> bytes \<Rightarrow> bytes option"
  ed_import :: "bytes \<Rightarrow> CryptoKey option"
  ed_verify :: "CryptoKey \<Rightarrow> bytes \<Rightarrow> bytes \<Rightarrow> bool option"

fun prim :: "'a option \<Rightarrow> 'a vs" where
  "prim None = Throw"
| "prim (Some a) = Ok a"

section \<open>noble.ts\<close>

text \<open>\<open>buf.set(xs, off)\<close> on a \<open>Uint8Array\<close>: a RangeError when it does not fit.\<close>

definition ta_set :: "bytes \<Rightarrow> bytes \<Rightarrow> nat \<Rightarrow> bytes vs" where
  "ta_set buf xs off =
     (if length buf < off + length xs then Throw
      else Ok (take off buf @ xs @ drop (off + length xs) buf))"

definition ED25519_PKCS8_PREFIX :: bytes where
  "ED25519_PKCS8_PREFIX =
     [0x30, 0x2e, 0x02, 0x01, 0x00, 0x30, 0x05, 0x06, 0x03, 0x2b, 0x65, 0x70, 0x04, 0x22, 0x04, 0x20]"

definition ed25519Pkcs8FromSeed :: "bytes \<Rightarrow> bytes vs" where
  "ed25519Pkcs8FromSeed seed =
     (let out = replicate (length ED25519_PKCS8_PREFIX + 32) 0
      in andThen (ta_set out ED25519_PKCS8_PREFIX 0) (\<lambda>out.
         ta_set out (take 32 seed) (length ED25519_PKCS8_PREFIX)))"

datatype message = MsgBytes bytes | MsgStr jsstr

fun toBytes :: "message \<Rightarrow> bytes" where
  "toBytes (MsgStr s) = textEncode s"
| "toBytes (MsgBytes b) = b"

definition encryptXSalsa20Poly1305Combined :: "prims \<Rightarrow> bytes \<Rightarrow> bytes \<Rightarrow> bytes \<Rightarrow> bytes vs" where
  "encryptXSalsa20Poly1305Combined p nonce data key =
     andThen (prim (salsa_encrypt p key nonce data)) (\<lambda>ciphertext. Ok (nonce @ ciphertext))"

definition decryptXSalsa20Poly1305Combined :: "prims \<Rightarrow> bytes \<Rightarrow> bytes \<Rightarrow> bytes vs" where
  "decryptXSalsa20Poly1305Combined p data key =
     (let nonce = take 24 data; ciphertext = drop 24 data
      in prim (salsa_decrypt p key nonce ciphertext))"

record KeyPair =
  kp_privateKey :: bytes
  kp_publicKey :: bytes

definition deriveEd25519KeyPair :: "prims \<Rightarrow> bytes \<Rightarrow> KeyPair vs" where
  "deriveEd25519KeyPair p seed =
     andThen (ed25519Pkcs8FromSeed seed) (\<lambda>pkcs8.
     andThen (prim (ed_public p pkcs8)) (\<lambda>publicKey.
     andThen (ta_set (replicate 64 0) seed 0) (\<lambda>privateKey.
     andThen (ta_set privateKey publicKey 32) (\<lambda>privateKey.
     Ok \<lparr>kp_privateKey = privateKey, kp_publicKey = publicKey\<rparr>))))"

definition importVerifyKey :: "prims \<Rightarrow> bytes \<Rightarrow> CryptoKey vs" where
  "importVerifyKey p pubKey = prim (ed_import p pubKey)"

definition signEd25519 :: "prims \<Rightarrow> message \<Rightarrow> bytes \<Rightarrow> bytes vs" where
  "signEd25519 p msg secKey =
     andThen (ed25519Pkcs8FromSeed (take 32 secKey)) (\<lambda>pkcs8.
     prim (ed_sign p pkcs8 (toBytes msg)))"

definition checkSigEd25519 :: "prims \<Rightarrow> bytes \<Rightarrow> message \<Rightarrow> CryptoKey \<Rightarrow> bool" where
  "checkSigEd25519 p sig msg verifyKey =
     (case ed_verify p verifyKey sig (toBytes msg) of None \<Rightarrow> False | Some b \<Rightarrow> b)"

section \<open>Key derivation (derivation.ts)\<close>

datatype Purpose =
    Identity | Cipher | Bind | BindTag | Fingerprint | Pair | BagKdm | RealmKey | RealmID
  | HostRLM | Export

fun purpose_str :: "Purpose \<Rightarrow> jsstr" where
  "purpose_str Identity = js ''diplomatic.identity.v1''"
| "purpose_str Cipher = js ''diplomatic.cipher.v1''"
| "purpose_str Bind = js ''diplomatic.bind.v1''"
| "purpose_str BindTag = js ''diplomatic.bindtag.v1''"
| "purpose_str Fingerprint = js ''diplomatic.fingerprint.v1''"
| "purpose_str Pair = js ''diplomatic.qrpair.v1''"
| "purpose_str BagKdm = js ''diplomatic.bagkdm.v1''"
| "purpose_str RealmKey = js ''diplomatic.realmKey.v1''"
| "purpose_str RealmID = js ''diplomatic.realmID.v1''"
| "purpose_str HostRLM = js ''diplomatic.hostRLM.v1''"
| "purpose_str Export = js ''diplomatic.export.v1''"

definition nullKDM :: IKDM where
  "nullKDM = \<lparr>kdm_label = [], kdm_index = 0\<rparr>"

datatype kdm_arg = RawKdm bytes | Kdm IKDM

fun kdm2bytes :: "kdm_arg \<Rightarrow> bytes vs" where
  "kdm2bytes (RawKdm b) = Ok b"
| "kdm2bytes (Kdm k) = encode_with (\<lambda>e. kdm_encode e k)"

definition derivePDK :: "prims \<Rightarrow> bytes \<Rightarrow> Purpose \<Rightarrow> bytes vs" where
  "derivePDK p parent purpose =
     catch_err (prim (blake3_context p (purpose_str purpose) parent)) CryptoError"

definition deriveChild :: "prims \<Rightarrow> bytes \<Rightarrow> kdm_arg \<Rightarrow> bytes vs" where
  "deriveChild p pdk kdm =
     andThen (kdm2bytes kdm) (\<lambda>b.
     catch_err (prim (blake3_keyed p pdk b)) CryptoError)"

definition deriveKey :: "prims \<Rightarrow> bytes \<Rightarrow> Purpose \<Rightarrow> kdm_arg \<Rightarrow> bytes vs" where
  "deriveKey p parent purpose kdm =
     andThen (derivePDK p parent purpose) (\<lambda>pdk. deriveChild p pdk kdm)"

definition deriveRealmKey :: "prims \<Rightarrow> bytes \<Rightarrow> IKDM \<Rightarrow> bytes vs" where
  "deriveRealmKey p parent realmKDM = deriveKey p parent RealmKey (Kdm realmKDM)"

definition deriveRealmID :: "prims \<Rightarrow> bytes \<Rightarrow> IKDM \<Rightarrow> bytes vs" where
  "deriveRealmID p parent realmKDM = deriveKey p parent RealmID (Kdm realmKDM)"

definition deriveHostRLM :: "prims \<Rightarrow> bytes \<Rightarrow> IKDM \<Rightarrow> bytes vs" where
  "deriveHostRLM p parent hostKDM = deriveKey p parent HostRLM (Kdm hostKDM)"

section \<open>Bag manager (bagman.ts)\<close>

record BagManager =
  bm_publicKey :: bytes
  bm_idnt :: bytes
  bm_realm :: bytes
  bm_rlm :: bytes
  bm_idKDM :: IKDM
  bm_realmKDM :: IKDM

definition BagManager_init :: "prims \<Rightarrow> bytes \<Rightarrow> bytes \<Rightarrow> bytes \<Rightarrow> IKDM \<Rightarrow> IKDM \<Rightarrow> BagManager vs" where
  "BagManager_init p idnt realm rlm idKDM realmKDM =
     catch_err
       (andThen (deriveEd25519KeyPair p idnt) (\<lambda>keys.
        Ok \<lparr>bm_publicKey = kp_publicKey keys, bm_idnt = idnt, bm_realm = realm, bm_rlm = rlm,
            bm_idKDM = idKDM, bm_realmKDM = realmKDM\<rparr>))
       CryptoError"

definition bm_sign :: "prims \<Rightarrow> BagManager \<Rightarrow> message \<Rightarrow> bytes vs" where
  "bm_sign p bm msg =
     andThen (catch_err (deriveEd25519KeyPair p (bm_idnt bm)) CryptoError) (\<lambda>keys.
     catch_err (signEd25519 p msg (kp_privateKey keys)) CryptoError)"

definition bagKDM :: "prims \<Rightarrow> BagManager \<Rightarrow> bytes \<Rightarrow> bytes vs" where
  "bagKDM p bm msgHeadEnc =
     andThen (deriveKey p (bm_idnt bm) BagKdm (RawKdm msgHeadEnc)) (\<lambda>kdmPDK.
     Ok (take kdmBytes kdmPDK))"

definition bm_cipher :: "prims \<Rightarrow> BagManager \<Rightarrow> bytes \<Rightarrow> bytes vs" where
  "bm_cipher p bm kdm = deriveKey p (bm_realm bm) Cipher (RawKdm kdm)"

definition bm_encrypt :: "prims \<Rightarrow> bytes \<Rightarrow> BagManager \<Rightarrow> bytes \<Rightarrow> bytes \<Rightarrow> bytes vs" where
  "bm_encrypt p nonce bm kdm data =
     andThen (bm_cipher p bm kdm) (\<lambda>key.
     catch_err (encryptXSalsa20Poly1305Combined p nonce data key) CryptoError)"

definition bm_decrypt :: "prims \<Rightarrow> BagManager \<Rightarrow> bytes \<Rightarrow> bytes \<Rightarrow> bytes vs" where
  "bm_decrypt p bm kdm data =
     andThen (bm_cipher p bm kdm) (\<lambda>key.
     catch_err (decryptXSalsa20Poly1305Combined p data key) DecryptionError)"

section \<open>Export file keys (export.ts)\<close>

definition bagmanForExport :: "prims \<Rightarrow> bytes \<Rightarrow> IKDM \<Rightarrow> BagManager vs" where
  "bagmanForExport p key realmKDM =
     andThen (deriveKey p key Identity (Kdm nullKDM)) (\<lambda>idnt.
     andThen (deriveKey p key RealmKey (Kdm realmKDM)) (\<lambda>realm.
     andThen (deriveKey p key RealmID (Kdm realmKDM)) (\<lambda>rid.
     andThen (deriveHostRLM p rid nullKDM) (\<lambda>rlm.
     BagManager_init p idnt realm rlm nullKDM realmKDM))))"

section \<open>The enclave (seed.ts, enclave.ts)\<close>

definition MASTER_SEED_LEN :: nat where "MASTER_SEED_LEN = 32"
definition SEALED_MASTER_KEY_LEN :: nat where "SEALED_MASTER_KEY_LEN = 24 + MASTER_SEED_LEN + 16"
definition SEAL_PRF_MIN_LEN :: nat where "SEAL_PRF_MIN_LEN = 16"
definition MUSEC_MIN_LEN :: nat where "MUSEC_MIN_LEN = 32"
definition BIND_TAG_LEN :: nat where "BIND_TAG_LEN = 32"

definition asSealedMasterKey :: "bytes \<Rightarrow> bytes vs" where
  "asSealedMasterKey b = (if length b \<noteq> SEALED_MASTER_KEY_LEN then Err InvalidParam else Ok b)"

definition asMasterSeed :: "bytes \<Rightarrow> bytes vs" where
  "asMasterSeed b = (if length b \<noteq> MASTER_SEED_LEN then Err InvalidParam else Ok b)"

text \<open>\<open>InnerEnclave\<close> holds the seed; \<open>OuterEnclave\<close> holds an \<open>InnerEnclave\<close>.\<close>

record InnerEnclave =
  ie_seed :: bytes

record OuterEnclave =
  oe_inner :: InnerEnclave

definition sealKeyFromPRF :: "prims \<Rightarrow> bytes \<Rightarrow> bytes vs" where
  "sealKeyFromPRF p prf =
     (if length prf < SEAL_PRF_MIN_LEN then Err InvalidParam else deriveKey p prf Bind (Kdm nullKDM))"

definition enclave_mix :: "prims \<Rightarrow> bytes \<Rightarrow> bytes \<Rightarrow> InnerEnclave vs" where
  "enclave_mix p os musec =
     (if length musec < MUSEC_MIN_LEN then Err InvalidParam
      else andThen (asMasterSeed (blake3_hash p (os @ musec))) (\<lambda>seed. Ok \<lparr>ie_seed = seed\<rparr>))"

definition importSeed :: "bytes \<Rightarrow> InnerEnclave vs" where
  "importSeed b =
     andThen (asMasterSeed b) (\<lambda>seed.
     andThen (asMasterSeed seed) (\<lambda>owned. Ok \<lparr>ie_seed = owned\<rparr>))"

definition unseal :: "prims \<Rightarrow> bytes \<Rightarrow> bytes \<Rightarrow> InnerEnclave vs" where
  "unseal p sealed ikm =
     andThen (asSealedMasterKey sealed) (\<lambda>_.
     andThen (sealKeyFromPRF p ikm) (\<lambda>key.
     andThen (catch_err (decryptXSalsa20Poly1305Combined p sealed key) DecryptionError) importSeed))"

definition ie_idnt :: "prims \<Rightarrow> InnerEnclave \<Rightarrow> IKDM \<Rightarrow> bytes vs" where
  "ie_idnt p ie kdm = deriveKey p (ie_seed ie) Identity (Kdm kdm)"

definition exportFileKey :: "prims \<Rightarrow> InnerEnclave \<Rightarrow> bytes \<Rightarrow> bytes vs" where
  "exportFileKey p ie nonce = deriveKey p (ie_seed ie) Export (RawKdm nonce)"

definition ie_fingerprint :: "prims \<Rightarrow> InnerEnclave \<Rightarrow> kdm_arg \<Rightarrow> bytes vs" where
  "ie_fingerprint p ie kdm = deriveKey p (ie_seed ie) Fingerprint kdm"

definition bindTag :: "prims \<Rightarrow> InnerEnclave \<Rightarrow> bytes \<Rightarrow> bytes vs" where
  "bindTag p ie credId = deriveKey p (ie_seed ie) BindTag (RawKdm credId)"

definition seal :: "prims \<Rightarrow> bytes \<Rightarrow> InnerEnclave \<Rightarrow> bytes \<Rightarrow> bytes vs" where
  "seal p nonce ie ikm =
     andThen (sealKeyFromPRF p ikm) (\<lambda>key.
     catch_err
       (andThen (encryptXSalsa20Poly1305Combined p nonce (ie_seed ie) key) asSealedMasterKey)
       InternalError)"

definition exportSeedHosts :: "InnerEnclave \<Rightarrow> BundleHost list \<Rightarrow> bytes vs" where
  "exportSeedHosts ie hosts =
     andThen (encode_with (\<lambda>e. identityHosts_encode e
       (map (\<lambda>h. h\<lparr>bh_idx := Some (case bh_idx h of None \<Rightarrow> 0 | Some i \<Rightarrow> i)\<rparr>) hosts))) (\<lambda>hostsEnc.
     andThen (ta_set (replicate (MASTER_SEED_LEN + length hostsEnc) 0) (ie_seed ie) 0) (\<lambda>out.
     ta_set out hostsEnc MASTER_SEED_LEN))"

definition sealSeedHosts :: "prims \<Rightarrow> bytes \<Rightarrow> InnerEnclave \<Rightarrow> bytes \<Rightarrow> BundleHost list \<Rightarrow> bytes vs" where
  "sealSeedHosts p nonce ie wrapKey hosts =
     andThen (exportSeedHosts ie hosts) (\<lambda>plain.
     catch_err (encryptXSalsa20Poly1305Combined p nonce plain wrapKey) InternalError)"

definition fromRandom :: "prims \<Rightarrow> bytes \<Rightarrow> bytes \<Rightarrow> OuterEnclave vs" where
  "fromRandom p os musec = andThen (enclave_mix p os musec) (\<lambda>inner. Ok \<lparr>oe_inner = inner\<rparr>)"

definition fromBytes :: "bytes \<Rightarrow> OuterEnclave vs" where
  "fromBytes b = andThen (importSeed b) (\<lambda>inner. Ok \<lparr>oe_inner = inner\<rparr>)"

definition fromSeedHosts :: "bytes \<Rightarrow> (OuterEnclave \<times> BundleHost list) vs" where
  "fromSeedHosts buf =
     (if length buf = 0 \<or> list_all (\<lambda>b. b = 0) buf then Err MissingSeed
      else if length buf < MASTER_SEED_LEN + 1 then Err InvalidMessage
      else
        let seedRaw = take MASTER_SEED_LEN buf
        in if list_all (\<lambda>b. b = 0) seedRaw then Err MissingSeed
           else
             andThen (identityHosts_decode (Decoder (drop MASTER_SEED_LEN buf))) (\<lambda>(hosts, dec).
             if \<not> done_dec dec then Err InvalidMessage
             else andThen (fromBytes seedRaw) (\<lambda>enclave. Ok (enclave, hosts))))"

definition sealWithIKM :: "prims \<Rightarrow> bytes \<Rightarrow> OuterEnclave \<Rightarrow> bytes \<Rightarrow> bytes vs" where
  "sealWithIKM p nonce oe ikm = seal p nonce (oe_inner oe) ikm"

definition unsealWithIKM :: "prims \<Rightarrow> bytes \<Rightarrow> bytes \<Rightarrow> OuterEnclave vs" where
  "unsealWithIKM p sealed ikm = andThen (unseal p sealed ikm) (\<lambda>inner. Ok \<lparr>oe_inner = inner\<rparr>)"

text \<open>
  The passkey ceremony itself (WebAuthn) is an argument: \<open>ceremony\<close> is what \<open>sealPRF\<close> or
  \<open>unsealPRF\<close> returned. \<open>prfOut\<close> carries the PRF value and the credential id.
\<close>

record PrfOut =
  prf_prf :: bytes
  prf_salt :: bytes
  prf_credId :: bytes

record PrfSealedMaster =
  psm_sealedMaster :: bytes
  psm_salt :: bytes
  psm_credId :: bytes

definition sealWithPasskey :: "prims \<Rightarrow> bytes \<Rightarrow> PrfOut vs \<Rightarrow> OuterEnclave \<Rightarrow> PrfSealedMaster vs" where
  "sealWithPasskey p nonce ceremony oe =
     andThen ceremony (\<lambda>out.
     andThen (seal p nonce (oe_inner oe) (prf_prf out)) (\<lambda>sealed.
     Ok \<lparr>psm_sealedMaster = sealed, psm_salt = prf_salt out, psm_credId = prf_credId out\<rparr>))"

fun check_prior :: "prims \<Rightarrow> OuterEnclave \<Rightarrow> (bytes \<times> bytes) list \<Rightarrow> unit vs" where
  "check_prior p oe [] = Ok ()"
| "check_prior p oe ((credId, tag) # ps) =
     (if length tag \<noteq> BIND_TAG_LEN then Err InvalidParam
      else andThen (bindTag p (oe_inner oe) credId) (\<lambda>got.
           if \<not> bytesEqual got tag then Err InvalidParam else check_prior p oe ps))"

definition bind_enclave ::
    "prims \<Rightarrow> bytes \<Rightarrow> PrfOut vs \<Rightarrow> OuterEnclave \<Rightarrow> (bytes \<times> bytes) list option
     \<Rightarrow> (PrfSealedMaster \<times> bytes) vs" where
  "bind_enclave p nonce ceremony oe prior =
     andThen (case prior of None \<Rightarrow> Ok () | Some ps \<Rightarrow> check_prior p oe ps) (\<lambda>_.
     andThen (sealWithPasskey p nonce ceremony oe) (\<lambda>sealed.
     andThen (bindTag p (oe_inner oe) (psm_credId sealed)) (\<lambda>tag. Ok (sealed, tag))))"

fun unseal_first :: "prims \<Rightarrow> bytes list \<Rightarrow> bytes \<Rightarrow> InnerEnclave vs" where
  "unseal_first p [] prf = Err DecryptionError"
| "unseal_first p (w # ws) prf =
     (case unseal p w prf of
        Ok inner \<Rightarrow> Ok inner
      | Err _ \<Rightarrow> unseal_first p ws prf
      | Throw \<Rightarrow> Throw
      | Hang \<Rightarrow> Hang)"

definition unsealWithPasskey ::
    "prims \<Rightarrow> bytes list \<Rightarrow> (bytes list \<times> bytes \<times> bytes) vs \<Rightarrow> (OuterEnclave \<times> bytes) vs" where
  "unsealWithPasskey p bindings ceremony =
     (if bindings = [] then Err MissingSeed
      else andThen ceremony (\<lambda>(order, prf, credId).
           andThen (unseal_first p order prf) (\<lambda>inner. Ok (\<lparr>oe_inner = inner\<rparr>, credId))))"

definition exportKey :: "prims \<Rightarrow> OuterEnclave \<Rightarrow> bytes \<Rightarrow> bytes vs" where
  "exportKey p oe nonce =
     (if length nonce \<noteq> hashBytes then Err InvalidParam else exportFileKey p (oe_inner oe) nonce)"

definition bagman :: "prims \<Rightarrow> OuterEnclave \<Rightarrow> IKDM \<Rightarrow> IKDM \<Rightarrow> BagManager vs" where
  "bagman p oe idKDM realmKDM =
     andThen (ie_idnt p (oe_inner oe) idKDM) (\<lambda>idnt.
     andThen (deriveRealmKey p (ie_seed (oe_inner oe)) realmKDM) (\<lambda>realm.
     andThen (deriveRealmID p (ie_seed (oe_inner oe)) realmKDM) (\<lambda>rid.
     andThen (deriveHostRLM p rid idKDM) (\<lambda>rlm.
     BagManager_init p idnt realm rlm idKDM realmKDM))))"

section \<open>Key tags (stores/keyTag.ts)\<close>

record KeyTag =
  kt_n :: bytes
  kt_h :: bytes

definition keyTagDigest :: "prims \<Rightarrow> OuterEnclave \<Rightarrow> bytes \<Rightarrow> bytes vs" where
  "keyTagDigest p oe nonce =
     andThen (ie_fingerprint p (oe_inner oe) (RawKdm nonce)) (\<lambda>child. asChildKey child)"

definition makeKeyTag :: "prims \<Rightarrow> bytes \<Rightarrow> OuterEnclave \<Rightarrow> KeyTag vs" where
  "makeKeyTag p n oe = andThen (keyTagDigest p oe n) (\<lambda>h. Ok \<lparr>kt_n = n, kt_h = h\<rparr>)"

definition keyTagMatches :: "prims \<Rightarrow> OuterEnclave \<Rightarrow> KeyTag \<Rightarrow> bool vs" where
  "keyTagMatches p oe tag =
     (case keyTagDigest p oe (kt_n tag) of
        Ok h \<Rightarrow> Ok (bytesEqual h (kt_h tag))
      | Err _ \<Rightarrow> Ok False
      | Throw \<Rightarrow> Throw
      | Hang \<Rightarrow> Hang)"

definition decodeKeyTag :: "(bytes \<times> bytes) option \<Rightarrow> KeyTag option" where
  "decodeKeyTag raw =
     (case raw of
        None \<Rightarrow> None
      | Some (n, h) \<Rightarrow>
          if length n < 1 then None
          else (case asChildKey h of Ok h \<Rightarrow> Some \<lparr>kt_n = n, kt_h = h\<rparr> | _ \<Rightarrow> None))"

section \<open>What the code relies on\<close>

text \<open>
  The documented behaviour of the primitives on inputs of the documented sizes: digests and
  keys have 32 bytes, authenticated encryption under a 32-byte key and a 24-byte nonce adds a
  16-byte tag and is undone by decryption, an Ed25519 seed has a 32-byte public key whose
  verification accepts its 64-byte signatures. Nothing is assumed about forgeries or
  collisions.
\<close>

definition prims_ok :: "prims \<Rightarrow> bool" where
  "prims_ok p =
     ((\<forall>d. length (blake3_hash p d) = 32) \<and>
      (\<forall>c d. \<exists>h. blake3_context p c d = Some h \<and> length h = 32) \<and>
      (\<forall>k d. length k = 32 \<longrightarrow> (\<exists>h. blake3_keyed p k d = Some h \<and> length h = 32)) \<and>
      (\<forall>k n d. length k = 32 \<longrightarrow> length n = 24 \<longrightarrow>
         (\<exists>c. salsa_encrypt p k n d = Some c \<and> length c = length d + 16 \<and> salsa_decrypt p k n c = Some d)) \<and>
      (\<forall>seed. length seed = 32 \<longrightarrow>
         (\<exists>pk vk. ed_public p (ED25519_PKCS8_PREFIX @ seed) = Some pk \<and> length pk = 32 \<and> ed_import p pk = Some vk \<and>
           (\<forall>m. \<exists>s. ed_sign p (ED25519_PKCS8_PREFIX @ seed) m = Some s \<and> length s = 64 \<and>
              ed_verify p vk s m = Some True))))"

text \<open>The key and the public key that derivation computes when the primitives behave.\<close>

definition dkey :: "prims \<Rightarrow> bytes \<Rightarrow> Purpose \<Rightarrow> bytes \<Rightarrow> bytes" where
  "dkey p parent purpose b = the (blake3_keyed p (the (blake3_context p (purpose_str purpose) parent)) b)"

definition pub_of :: "prims \<Rightarrow> bytes \<Rightarrow> bytes" where
  "pub_of p seed = the (ed_public p (ED25519_PKCS8_PREFIX @ seed))"

lemma prims_context: "prims_ok p \<Longrightarrow> \<exists>h. blake3_context p c d = Some h \<and> length h = 32"
  by (simp add: prims_ok_def)

lemma prims_keyed: "prims_ok p \<Longrightarrow> length k = 32 \<Longrightarrow> \<exists>h. blake3_keyed p k d = Some h \<and> length h = 32"
  by (simp add: prims_ok_def)

lemma prims_hash [simp]: "prims_ok p \<Longrightarrow> length (blake3_hash p d) = 32"
  by (simp add: prims_ok_def)

lemma prims_box:
  "prims_ok p \<Longrightarrow> length k = 32 \<Longrightarrow> length n = 24 \<Longrightarrow>
     \<exists>c. salsa_encrypt p k n d = Some c \<and> length c = length d + 16 \<and> salsa_decrypt p k n c = Some d"
  by (simp add: prims_ok_def)

lemma prims_ed:
  "prims_ok p \<Longrightarrow> length seed = 32 \<Longrightarrow>
     \<exists>pk vk. ed_public p (ED25519_PKCS8_PREFIX @ seed) = Some pk \<and> length pk = 32 \<and> ed_import p pk = Some vk \<and>
       (\<forall>m. \<exists>s. ed_sign p (ED25519_PKCS8_PREFIX @ seed) m = Some s \<and> length s = 64 \<and>
          ed_verify p vk s m = Some True)"
  by (simp add: prims_ok_def)

lemma kdm2bytes_kdm: "kdm_ok k \<Longrightarrow> kdm2bytes (Kdm k) = Ok (kdm_wire k)"
  by (simp add: kdmCodec.encode_ok)

lemma kdm_ok_null [simp]: "kdm_ok nullKDM"
  by (simp add: kdm_ok_def nullKDM_def str_ok_ascii ascii_def short_def is_num_safe)

lemma deriveKey_eq:
  assumes "prims_ok p" "kdm2bytes kdm = Ok b"
  shows "deriveKey p parent purpose kdm = Ok (dkey p parent purpose b)"
proof -
  obtain h where h: "blake3_context p (purpose_str purpose) parent = Some h" "length h = 32"
    using prims_context [OF assms(1)] by blast
  obtain k where "blake3_keyed p h b = Some k" using prims_keyed [OF assms(1) h(2)] by blast
  then show ?thesis using h assms(2) by (simp add: deriveKey_def derivePDK_def deriveChild_def dkey_def)
qed

lemma length_dkey [simp]: "prims_ok p \<Longrightarrow> length (dkey p parent purpose b) = 32"
proof -
  assume p: "prims_ok p"
  obtain h where h: "blake3_context p (purpose_str purpose) parent = Some h" "length h = 32"
    using prims_context [OF p] by blast
  then show ?thesis using prims_keyed [OF p h(2), of b] by (auto simp: dkey_def)
qed

lemma deriveKey_kdm: "prims_ok p \<Longrightarrow> kdm_ok k \<Longrightarrow>
    deriveKey p parent purpose (Kdm k) = Ok (dkey p parent purpose (kdm_wire k))"
  by (rule deriveKey_eq) (simp_all add: kdm2bytes_kdm del: kdm2bytes.simps)

lemma deriveKey_raw: "prims_ok p \<Longrightarrow>
    deriveKey p parent purpose (RawKdm b) = Ok (dkey p parent purpose b)"
  by (rule deriveKey_eq) simp_all

lemma length_prefix [simp]: "length ED25519_PKCS8_PREFIX = 16"
  by (simp add: ED25519_PKCS8_PREFIX_def)

lemma pkcs8_of_seed [simp]: "length seed = 32 \<Longrightarrow> ed25519Pkcs8FromSeed seed = Ok (ED25519_PKCS8_PREFIX @ seed)"
  by (simp add: ed25519Pkcs8FromSeed_def ta_set_def)

lemma length_pub_of [simp]: "prims_ok p \<Longrightarrow> length seed = 32 \<Longrightarrow> length (pub_of p seed) = 32"
  using prims_ed [of p seed] by (auto simp: pub_of_def)

lemma keyPair_ok:
  assumes "prims_ok p" "length seed = 32"
  shows "deriveEd25519KeyPair p seed =
           Ok \<lparr>kp_privateKey = seed @ pub_of p seed, kp_publicKey = pub_of p seed\<rparr>"
  using prims_ed [OF assms] assms by (auto simp: deriveEd25519KeyPair_def ta_set_def pub_of_def)

lemma box_roundtrip:
  assumes "prims_ok p" "length key = 32" "length nonce = 24"
  obtains c where "encryptXSalsa20Poly1305Combined p nonce data key = Ok c"
    "decryptXSalsa20Poly1305Combined p c key = Ok data" "length c = length data + 40"
proof -
  obtain c where "salsa_encrypt p key nonce data = Some c" "length c = length data + 16"
      "salsa_decrypt p key nonce c = Some data"
    using prims_box [OF assms] by blast
  then show ?thesis using assms(3)
    by (intro that [of "nonce @ c"])
       (simp_all add: encryptXSalsa20Poly1305Combined_def decryptXSalsa20Poly1305Combined_def)
qed

subsection \<open>Bag managers\<close>

text \<open>A bag manager with keys of the right size and the public key of its identity.\<close>

definition bm_ok :: "prims \<Rightarrow> BagManager \<Rightarrow> bool" where
  "bm_ok p bm =
     (length (bm_idnt bm) = 32 \<and> length (bm_realm bm) = 32 \<and> length (bm_rlm bm) = 32 \<and>
      bm_publicKey bm = pub_of p (bm_idnt bm))"

lemma BagManager_init_ok:
  assumes "prims_ok p" "length idnt = 32"
  shows "BagManager_init p idnt realm rlm idk rlk =
     Ok \<lparr>bm_publicKey = pub_of p idnt, bm_idnt = idnt, bm_realm = realm, bm_rlm = rlm,
         bm_idKDM = idk, bm_realmKDM = rlk\<rparr>"
  by (simp add: BagManager_init_def keyPair_ok [OF assms])

lemma bm_cipher_ok: "prims_ok p \<Longrightarrow> bm_cipher p bm kdm = Ok (dkey p (bm_realm bm) Cipher kdm)"
  by (simp add: bm_cipher_def deriveKey_raw)

lemma bagKDM_ok: "prims_ok p \<Longrightarrow> bagKDM p bm h = Ok (take 8 (dkey p (bm_idnt bm) BagKdm h))"
  by (simp add: bagKDM_def deriveKey_raw kdmBytes_def)

lemma bm_roundtrip:
  assumes "prims_ok p" "length nonce = 24"
  obtains c where "bm_encrypt p nonce bm kdm data = Ok c" "bm_decrypt p bm kdm c = Ok data"
    "length c = length data + 40"
proof -
  obtain c where c: "encryptXSalsa20Poly1305Combined p nonce data (dkey p (bm_realm bm) Cipher kdm) = Ok c"
    "decryptXSalsa20Poly1305Combined p c (dkey p (bm_realm bm) Cipher kdm) = Ok data"
    "length c = length data + 40"
    using box_roundtrip [OF assms(1) length_dkey [OF assms(1)] assms(2)] by blast
  show ?thesis
    by (rule that [of c]) (simp_all add: bm_encrypt_def bm_decrypt_def bm_cipher_ok [OF assms(1)] c)
qed

lemma bm_sign_ok:
  assumes "prims_ok p" "bm_ok p bm"
  obtains sig vk where "bm_sign p bm msg = Ok sig" "length sig = 64"
    "importVerifyKey p (bm_publicKey bm) = Ok vk" "checkSigEd25519 p sig msg vk"
proof -
  have l: "length (bm_idnt bm) = 32" using assms(2) by (simp add: bm_ok_def)
  obtain pk vk where e: "ed_public p (ED25519_PKCS8_PREFIX @ bm_idnt bm) = Some pk" "ed_import p pk = Some vk"
      "\<forall>m. \<exists>s. ed_sign p (ED25519_PKCS8_PREFIX @ bm_idnt bm) m = Some s \<and> length s = 64 \<and> ed_verify p vk s m = Some True"
    using prims_ed [OF assms(1) l] by blast
  obtain s where s: "ed_sign p (ED25519_PKCS8_PREFIX @ bm_idnt bm) (toBytes msg) = Some s" "length s = 64"
      "ed_verify p vk s (toBytes msg) = Some True" using e(3) by blast
  have pk: "bm_publicKey bm = pk" using assms(2) e(1) by (simp add: bm_ok_def pub_of_def)
  show ?thesis
    by (rule that [of s vk])
       (simp_all add: bm_sign_def keyPair_ok [OF assms(1) l] signEd25519_def l s pk e(2)
          importVerifyKey_def checkSigEd25519_def)
qed

subsection \<open>Enclaves\<close>

lemma bagman_eq:
  assumes "prims_ok p" "kdm_ok idk" "kdm_ok rk"
  shows "bagman p oe idk rk =
    (let seed = ie_seed (oe_inner oe); idnt = dkey p seed Identity (kdm_wire idk)
     in Ok \<lparr>bm_publicKey = pub_of p idnt, bm_idnt = idnt,
            bm_realm = dkey p seed RealmKey (kdm_wire rk),
            bm_rlm = dkey p (dkey p seed RealmID (kdm_wire rk)) HostRLM (kdm_wire idk),
            bm_idKDM = idk, bm_realmKDM = rk\<rparr>)"
  using assms
  by (simp add: bagman_def ie_idnt_def deriveRealmKey_def deriveRealmID_def deriveHostRLM_def
      deriveKey_kdm BagManager_init_ok Let_def)

lemma bagmanForExport_eq:
  assumes "prims_ok p" "kdm_ok rk"
  shows "bagmanForExport p key rk =
    (let idnt = dkey p key Identity (kdm_wire nullKDM)
     in Ok \<lparr>bm_publicKey = pub_of p idnt, bm_idnt = idnt,
            bm_realm = dkey p key RealmKey (kdm_wire rk),
            bm_rlm = dkey p (dkey p key RealmID (kdm_wire rk)) HostRLM (kdm_wire nullKDM),
            bm_idKDM = nullKDM, bm_realmKDM = rk\<rparr>)"
  using assms by (simp add: bagmanForExport_def deriveHostRLM_def deriveKey_kdm BagManager_init_ok Let_def)

lemma bagman_ok: "prims_ok p \<Longrightarrow> kdm_ok idk \<Longrightarrow> kdm_ok rk \<Longrightarrow> bagman p oe idk rk = Ok bm \<Longrightarrow> bm_ok p bm"
  by (auto simp: bagman_eq bm_ok_def Let_def)

lemma bagmanForExport_ok:
  "prims_ok p \<Longrightarrow> kdm_ok rk \<Longrightarrow> bagmanForExport p key rk = Ok bm \<Longrightarrow> bm_ok p bm"
  by (auto simp: bagmanForExport_eq bm_ok_def Let_def)

lemma sealKey_ok:
  "prims_ok p \<Longrightarrow> 16 \<le> length prf \<Longrightarrow> sealKeyFromPRF p prf = Ok (dkey p prf Bind (kdm_wire nullKDM))"
  by (simp add: sealKeyFromPRF_def SEAL_PRF_MIN_LEN_def deriveKey_kdm)

definition seed_ok :: "InnerEnclave \<Rightarrow> bool" where
  "seed_ok ie = (length (ie_seed ie) = 32)"

lemma importSeed_ok: "seed_ok ie \<Longrightarrow> importSeed (ie_seed ie) = Ok ie"
  by (simp add: importSeed_def asMasterSeed_def seed_ok_def MASTER_SEED_LEN_def)

lemma fromBytes_ok: "seed_ok (oe_inner oe) \<Longrightarrow> fromBytes (ie_seed (oe_inner oe)) = Ok oe"
  by (simp add: fromBytes_def importSeed_ok)

lemma seal_unseal:
  assumes "prims_ok p" "seed_ok ie" "16 \<le> length ikm" "length nonce = 24"
  obtains c where "seal p nonce ie ikm = Ok c" "unseal p c ikm = Ok ie" "length c = 72"
proof -
  let ?k = "dkey p ikm Bind (kdm_wire nullKDM)"
  obtain c where c: "encryptXSalsa20Poly1305Combined p nonce (ie_seed ie) ?k = Ok c"
    "decryptXSalsa20Poly1305Combined p c ?k = Ok (ie_seed ie)" "length c = length (ie_seed ie) + 40"
    using box_roundtrip [OF assms(1) length_dkey [OF assms(1)] assms(4)] by blast
  have l: "length c = 72" using c(3) assms(2) by (simp add: seed_ok_def)
  show ?thesis
    by (rule that [of c])
       (simp_all add: seal_def unseal_def sealKey_ok assms(1,3) c(1,2) asSealedMasterKey_def l
          SEALED_MASTER_KEY_LEN_def MASTER_SEED_LEN_def importSeed_ok [OF assms(2)])
qed

text \<open>Hosts as the wire carries them: a missing index is sent as 0.\<close>

definition host_norm :: "BundleHost \<Rightarrow> BundleHost" where
  "host_norm h = h\<lparr>bh_idx := Some (case bh_idx h of None \<Rightarrow> 0 | Some i \<Rightarrow> i)\<rparr>"

lemma exportSeedHosts_ok:
  assumes "seed_ok ie" "identityHosts_ok (map host_norm hosts)"
  shows "exportSeedHosts ie hosts = Ok (ie_seed ie @ identityHosts_wire (map host_norm hosts))"
  using identityHostsCodec.encode_ok [OF assms(2)] assms(1)
  by (simp add: exportSeedHosts_def host_norm_def [abs_def] ta_set_def seed_ok_def MASTER_SEED_LEN_def)

lemma fromSeedHosts_ok:
  assumes "seed_ok (oe_inner oe)" "list_ex (\<lambda>b. b \<noteq> 0) (ie_seed (oe_inner oe))" "identityHosts_ok hs"
  shows "fromSeedHosts (ie_seed (oe_inner oe) @ identityHosts_wire hs) = Ok (oe, hs)"
proof -
  let ?s = "ie_seed (oe_inner oe)" and ?w = "identityHosts_wire hs"
  have l: "length ?s = 32" using assms(1) by (simp add: seed_ok_def)
  have nz: "\<not> list_all (\<lambda>b. b = 0) ?s" using assms(2) by (auto simp: list_ex_iff list_all_iff)
  have w: "0 < length ?w" using identityHostsCodec.wire_ne [OF assms(3)] by simp
  have d: "identityHosts_decode (Decoder ?w) = Ok (hs, advance (Decoder ?w) (length ?w))"
    using identityHostsCodec.decode_ok [OF assms(3), of "[]"] by simp
  have "done_dec (advance (Decoder ?w) (length ?w))" by (simp add: done_dec_def Decoder_def)
  then show ?thesis
    using l nz w d by (simp add: fromSeedHosts_def MASTER_SEED_LEN_def fromBytes_ok assms(1))
qed

subsection \<open>A concrete instance\<close>

text \<open>
  Simple functions with the behaviour \<^const>\<open>prims_ok\<close> asks for, to evaluate the model on
  concrete inputs: a digest is the first 32 bytes after padding, a box is tagged with the
  first half of its key, a signature is the public key followed by a digest.
\<close>

definition pad32 :: "bytes \<Rightarrow> bytes" where
  "pad32 b = take 32 (b @ replicate 32 0)"

definition toy_prims :: prims where
  "toy_prims =
     \<lparr>blake3_hash = \<lambda>d. pad32 d,
      blake3_context = \<lambda>c d. Some (pad32 (d @ textEncode (drop 11 c))),
      blake3_keyed = \<lambda>k d. if length k = 32 then Some (pad32 (d @ k)) else None,
      salsa_encrypt = \<lambda>k n d. if length k = 32 \<and> length n = 24 then Some (take 16 k @ d) else None,
      salsa_decrypt = \<lambda>k n c. if take 16 c = take 16 k then Some (drop 16 c) else None,
      ed_public = \<lambda>d. if length d = 48 then Some (drop 16 d) else None,
      ed_sign = \<lambda>d m. Some (pad32 (drop 16 d) @ pad32 m),
      ed_import = \<lambda>k. if length k = 32 then Some (VerifyKey k) else None,
      ed_verify = \<lambda>vk s m. (case vk of VerifyKey k \<Rightarrow> Some (s = k @ pad32 m))\<rparr>"

lemma length_pad32 [simp]: "length (pad32 b) = 32"
  by (simp add: pad32_def)

lemma pad32_full [simp]: "length b = 32 \<Longrightarrow> pad32 b = b"
  by (simp add: pad32_def)

lemma toy_prims_ok [simp]: "prims_ok toy_prims"
  unfolding prims_ok_def toy_prims_def by (intro conjI allI impI) simp_all

section \<open>Properties of the enclave\<close>

text \<open>Sealing keeps the master seed. A seed sealed under key material of at least 16 bytes is
  a 72-byte string that unseals, under the same material, to the same enclave; material that
  is too short is rejected by both directions.\<close>

theorem enclave_seal_roundtrip:
  assumes "prims_ok p" "seed_ok (oe_inner oe)" "length nonce = 24"
  shows "if length ikm < 16
         then sealWithIKM p nonce oe ikm = Err InvalidParam
              \<and> (length c = 72 \<longrightarrow> unsealWithIKM p c ikm = Err InvalidParam)
         else \<exists>c. sealWithIKM p nonce oe ikm = Ok c \<and> length c = 72 \<and> unsealWithIKM p c ikm = Ok oe"
proof (cases "length ikm < 16")
  case True
  then show ?thesis
    by (simp add: sealWithIKM_def unsealWithIKM_def seal_def unseal_def sealKeyFromPRF_def
        SEAL_PRF_MIN_LEN_def asSealedMasterKey_def SEALED_MASTER_KEY_LEN_def MASTER_SEED_LEN_def)
next
  case False
  then obtain c where "seal p nonce (oe_inner oe) ikm = Ok c" "unseal p c ikm = Ok (oe_inner oe)" "length c = 72"
    using seal_unseal [OF assms(1,2) _ assms(3)] by (metis not_less)
  then show ?thesis using False by (simp add: sealWithIKM_def unsealWithIKM_def)
qed

theorem enclave_seal_roundtrip_witness:
  "\<exists>c. sealWithIKM toy_prims (replicate 24 1) \<lparr>oe_inner = \<lparr>ie_seed = replicate 32 5\<rparr>\<rparr> (replicate 16 9) = Ok c
     \<and> length c = 72
     \<and> unsealWithIKM toy_prims c (replicate 16 9) = Ok \<lparr>oe_inner = \<lparr>ie_seed = replicate 32 5\<rparr>\<rparr>"
  using enclave_seal_roundtrip [of toy_prims "\<lparr>oe_inner = \<lparr>ie_seed = replicate 32 5\<rparr>\<rparr>" "replicate 24 1"
      "replicate 16 9"]
  by (simp add: seed_ok_def)

text \<open>The seed and host list wire. What \<open>exportSeedHosts\<close> writes, \<open>fromSeedHosts\<close> reads back as
  the same enclave and the same hosts (a missing index becomes 0); an all-zero seed, the content
  of a wiped buffer, is never accepted as a seed.\<close>

theorem seed_hosts_roundtrip:
  assumes "seed_ok (oe_inner oe)" "identityHosts_ok (map host_norm hosts)"
  shows "andThen (exportSeedHosts (oe_inner oe) hosts) fromSeedHosts =
           (if list_all (\<lambda>b. b = 0) (ie_seed (oe_inner oe)) then Err MissingSeed
            else Ok (oe, map host_norm hosts))"
proof (cases "list_all (\<lambda>b. b = 0) (ie_seed (oe_inner oe))")
  case True
  have w: "identityHosts_wire (map host_norm hosts) \<noteq> []"
    by (rule identityHostsCodec.wire_ne [OF assms(2)])
  then have "0 < length (identityHosts_wire (map host_norm hosts))" by simp
  then show ?thesis
    using True assms(1)
    by (simp add: exportSeedHosts_ok [OF assms] fromSeedHosts_def seed_ok_def MASTER_SEED_LEN_def)
next
  case False
  then have "list_ex (\<lambda>b. b \<noteq> 0) (ie_seed (oe_inner oe))" by (auto simp: list_ex_iff list_all_iff)
  then show ?thesis
    using False by (simp add: exportSeedHosts_ok [OF assms] fromSeedHosts_ok [OF assms(1) _ assms(2)])
qed

theorem seed_hosts_roundtrip_witness:
  "andThen (exportSeedHosts \<lparr>ie_seed = replicate 32 5\<rparr>
       [\<lparr>bh_handle = js ''http://h'', bh_label = js ''h'', bh_idx = None\<rparr>]) fromSeedHosts =
     Ok (\<lparr>oe_inner = \<lparr>ie_seed = replicate 32 5\<rparr>\<rparr>,
         [\<lparr>bh_handle = js ''http://h'', bh_label = js ''h'', bh_idx = Some 0\<rparr>])"
proof -
  have "str_ok (js ''http://h'')" "str_ok (js ''h'')"
    by (rule str_ok_ascii; simp add: js_def ascii_def short_def)+
  then have "identityHosts_ok (map host_norm [\<lparr>bh_handle = js ''http://h'', bh_label = js ''h'', bh_idx = None\<rparr>])"
    by (simp add: identityHosts_ok_def host_norm_def bundleHost_ok_def short_def is_num_safe)
  then show ?thesis
    using seed_hosts_roundtrip [of "\<lparr>oe_inner = \<lparr>ie_seed = replicate 32 5\<rparr>\<rparr>"
        "[\<lparr>bh_handle = js ''http://h'', bh_label = js ''h'', bh_idx = None\<rparr>]"]
    by (simp add: seed_ok_def host_norm_def list_all_iff)
qed

end
