(* ===== verification/EntDB.thy ===== *)
theory EntDB
  imports Binary
begin

text \<open>
  The entity database of \<^verbatim>\<open>web/src/entdb\<close>: operations and rows, the last-writer-wins rule
  \<open>applyOp\<close>, query specifications (\<^verbatim>\<open>entdb.ts\<close>) and the in-memory database with its secondary
  indexes (\<^verbatim>\<open>memory.ts\<close>). The theory shows that the indexes always agree with a full scan,
  that the rendered rows do not depend on the order in which operations with distinct
  timestamps arrive, and that tombstones keep deleted entities deleted.
\<close>

section \<open>Operations and rows (types.ts, entdb.ts)\<close>

datatype IOp =
    DeleteOp (op_eid: bytes) (op_off: int) (op_ctr: int)
  | MutateOp (op_eid: bytes) (op_off: int) (op_ctr: int)
      (op_type: jsstr) (op_pid: "bytes option") (op_tags: "jsstr list option") (op_body: "bytes option")

fun isDeleteOp :: "IOp \<Rightarrow> bool" where
  "isDeleteOp (DeleteOp _ _ _) = True"
| "isDeleteOp (MutateOp _ _ _ _ _ _ _) = False"

record IEntity =
  ent_type :: jsstr
  ent_eid :: bytes
  ent_updatedAt :: date
  ent_createdAt :: date
  ent_ctr :: int
  ent_pid :: "bytes option"
  ent_tags :: "jsstr list option"
  ent_body :: "bytes option"
  ent_rlm :: "jsstr option"

datatype IEntRow = Live IEntity | Tombstone (tomb_eid: bytes) (tomb_updatedAt: date) (tomb_ctr: int)

fun isLiveEnt :: "IEntRow \<Rightarrow> bool" where
  "isLiveEnt (Live _) = True"
| "isLiveEnt (Tombstone _ _ _) = False"

definition isTombstone :: "IEntRow \<Rightarrow> bool" where
  "isTombstone r = (\<not> isLiveEnt r)"

fun row_eid :: "IEntRow \<Rightarrow> bytes" where
  "row_eid (Live e) = ent_eid e"
| "row_eid (Tombstone i _ _) = i"

fun row_updatedAt :: "IEntRow \<Rightarrow> date" where
  "row_updatedAt (Live e) = ent_updatedAt e"
| "row_updatedAt (Tombstone _ t _) = t"

fun row_ctr :: "IEntRow \<Rightarrow> int" where
  "row_ctr (Live e) = ent_ctr e"
| "row_ctr (Tombstone _ _ c) = c"

definition normalizeTags :: "jsstr list option \<Rightarrow> jsstr list option" where
  "normalizeTags tags =
     (case tags of
        None \<Rightarrow> None
      | Some ts \<Rightarrow>
          (let out = foldl (\<lambda>out t. if t = [] then out else set_add t out) [] ts
           in if length out > 0 then Some out else None))"

definition revFromEntity :: "IEntRow \<Rightarrow> IEntRev" where
  "revFromEntity r = \<lparr>rev_eid = row_eid r, rev_ctr = row_ctr r, rev_updatedAt = row_updatedAt r\<rparr>"

definition revFromHead :: "IMessageHead \<Rightarrow> IEntRev vs" where
  "revFromHead h =
     andThen (eid_decode (Decoder (mh_eid h))) (\<lambda>(parsed, _).
     Ok \<lparr>rev_eid = mh_eid h, rev_ctr = mh_ctr h, rev_updatedAt = date_add (eid_ts parsed) (mh_off h)\<rparr>)"

definition applyOp :: "IEntRow option \<Rightarrow> IOp \<Rightarrow> IEntRow vs" where
  "applyOp cur op =
     andThen (eid_decode (Decoder (op_eid op))) (\<lambda>(opEID, _).
     let opUpdatedAt = date_add (eid_ts opEID) (op_off op)
     in if (case cur of None \<Rightarrow> False | Some c \<Rightarrow> date_le opUpdatedAt (row_updatedAt c))
        then Err NoChange
        else case op of
          MutateOp i _ c ty p ts b \<Rightarrow>
            Ok (Live \<lparr>ent_type = ty, ent_eid = i, ent_updatedAt = opUpdatedAt,
                      ent_createdAt = eid_ts opEID, ent_ctr = c, ent_pid = p,
                      ent_tags = normalizeTags ts, ent_body = b, ent_rlm = None\<rparr>)
        | DeleteOp i _ c \<Rightarrow> Ok (Tombstone i opUpdatedAt c))"

definition typesChanged :: "IEntRow option \<Rightarrow> IEntRow \<Rightarrow> jsstr list" where
  "typesChanged cur next =
     (let t1 = (case cur of Some (Live e) \<Rightarrow> [ent_type e] | _ \<Rightarrow> [])
      in case next of Live e \<Rightarrow> set_add (ent_type e) t1 | Tombstone _ _ _ \<Rightarrow> t1)"

section \<open>Query specifications (entdb.ts)\<close>

text \<open>JavaScript compares strings by their UTF-16 code units.\<close>

fun str_less :: "jsstr \<Rightarrow> jsstr \<Rightarrow> bool" where
  "str_less _ [] = False"
| "str_less [] (_ # _) = True"
| "str_less (x # xs) (y # ys) = (x < y \<or> (x = y \<and> str_less xs ys))"

record IDateRange =
  dr_start :: date
  dr_end :: date
  dr_excludeStart :: bool
  dr_excludeEnd :: bool

datatype DateSpec = DateExact date | DateRange IDateRange

record ITagRange =
  tr_start :: jsstr
  tr_end :: jsstr
  tr_excludeStart :: bool
  tr_excludeEnd :: bool

datatype TagSpec = TagExact jsstr | TagRange ITagRange | TagPrefix jsstr

datatype EntitiesQuery =
    QType jsstr
  | QPid jsstr bytes
  | QTag jsstr TagSpec
  | QUpdatedAt jsstr DateSpec

definition dateInRange :: "date \<Rightarrow> IDateRange \<Rightarrow> bool" where
  "dateInRange t r =
     ((if dr_excludeStart r then date_less (dr_start r) t else date_le (dr_start r) t)
      \<and> (if dr_excludeEnd r then date_less t (dr_end r) else date_le t (dr_end r)))"

definition dateSpecMayMatch :: "DateSpec \<Rightarrow> bool vs" where
  "dateSpecMayMatch spec =
     (case spec of
        DateExact _ \<Rightarrow> Ok True
      | DateRange r \<Rightarrow> if date_less (dr_end r) (dr_start r) then Err InvalidParam else Ok True)"

definition dateMatches :: "date \<Rightarrow> DateSpec \<Rightarrow> bool" where
  "dateMatches t spec =
     (case spec of DateExact d \<Rightarrow> date_eq t d | DateRange r \<Rightarrow> dateInRange t r)"

definition tagInRange :: "jsstr \<Rightarrow> ITagRange \<Rightarrow> bool" where
  "tagInRange tag r =
     ((if tr_excludeStart r then str_less (tr_start r) tag else \<not> str_less tag (tr_start r))
      \<and> (if tr_excludeEnd r then str_less tag (tr_end r) else \<not> str_less (tr_end r) tag))"

definition tagSpecMayMatch :: "TagSpec \<Rightarrow> bool vs" where
  "tagSpecMayMatch spec =
     (case spec of
        TagExact s \<Rightarrow> Ok (length s > 0)
      | TagRange r \<Rightarrow> if str_less (tr_end r) (tr_start r) then Err InvalidParam else Ok True
      | TagPrefix p \<Rightarrow> Ok (length p > 0))"

definition startsWith :: "jsstr \<Rightarrow> jsstr \<Rightarrow> bool" where
  "startsWith s p = (take (length p) s = p)"

definition tagMatches :: "jsstr \<Rightarrow> TagSpec \<Rightarrow> bool" where
  "tagMatches tag spec =
     (case spec of
        TagExact s \<Rightarrow> tag = s
      | TagRange r \<Rightarrow> tagInRange tag r
      | TagPrefix p \<Rightarrow> if length p = 0 then False else startsWith tag p)"

section \<open>The in-memory database (memory.ts)\<close>

type_synonym bucket = "(jsstr, IEntity) jsmap"
type_synonym index1 = "(jsstr, bucket) jsmap"
type_synonym index2 = "(jsstr, index1) jsmap"

record EntDBMemory =
  edb_ents :: "(jsstr, IEntRow) jsmap"
  edb_useIndex :: bool
  edb_byType :: index1
  edb_byTypePid :: index2
  edb_byTypeTag :: index2

text \<open>Bucket lookup that creates the bucket, and removal that drops an emptied bucket.\<close>

definition idx_put :: "jsstr \<Rightarrow> jsstr \<Rightarrow> IEntity \<Rightarrow> index1 \<Rightarrow> index1" where
  "idx_put t key ent m =
     map_set t (map_set key ent (case map_get m t of None \<Rightarrow> [] | Some b \<Rightarrow> b)) m"

definition idx_del :: "jsstr \<Rightarrow> jsstr \<Rightarrow> index1 \<Rightarrow> index1" where
  "idx_del t key m =
     (case map_get m t of
        None \<Rightarrow> m
      | Some b \<Rightarrow>
          (let b' = map_delete key b in if b' = [] then map_delete t m else map_set t b' m))"

definition index :: "jsstr \<Rightarrow> IEntity \<Rightarrow> EntDBMemory \<Rightarrow> EntDBMemory" where
  "index key ent db =
     (if \<not> edb_useIndex db then db
      else
        let ty = ent_type ent;
            db = db\<lparr>edb_byType := idx_put ty key ent (edb_byType db)\<rparr>;
            db = (case ent_pid ent of
                    None \<Rightarrow> db
                  | Some p \<Rightarrow>
                      (let byPid = (case map_get (edb_byTypePid db) ty of None \<Rightarrow> [] | Some x \<Rightarrow> x)
                       in db\<lparr>edb_byTypePid := map_set ty (idx_put (btob64 p) key ent byPid) (edb_byTypePid db)\<rparr>))
        in case ent_tags ent of
             None \<Rightarrow> db
           | Some ts \<Rightarrow>
               (let byTag = (case map_get (edb_byTypeTag db) ty of None \<Rightarrow> [] | Some x \<Rightarrow> x)
                in db\<lparr>edb_byTypeTag :=
                     map_set ty (foldl (\<lambda>m tag. idx_put tag key ent m) byTag ts) (edb_byTypeTag db)\<rparr>))"

definition unindex :: "jsstr \<Rightarrow> IEntity \<Rightarrow> EntDBMemory \<Rightarrow> EntDBMemory" where
  "unindex key ent db =
     (if \<not> edb_useIndex db then db
      else
        let ty = ent_type ent;
            db = db\<lparr>edb_byType := idx_del ty key (edb_byType db)\<rparr>;
            db = (case ent_pid ent of
                    None \<Rightarrow> db
                  | Some p \<Rightarrow>
                      (case map_get (edb_byTypePid db) ty of
                         None \<Rightarrow> db
                       | Some byPid \<Rightarrow>
                           (let byPid' = idx_del (btob64 p) key byPid
                            in db\<lparr>edb_byTypePid :=
                                 (if byPid' = [] then map_delete ty (edb_byTypePid db)
                                  else map_set ty byPid' (edb_byTypePid db))\<rparr>)))
        in case ent_tags ent of
             None \<Rightarrow> db
           | Some ts \<Rightarrow>
               (case map_get (edb_byTypeTag db) ty of
                  None \<Rightarrow> db
                | Some byTag \<Rightarrow>
                    (let byTag' = foldl (\<lambda>m tag. idx_del tag key m) byTag ts
                     in db\<lparr>edb_byTypeTag :=
                          (if byTag' = [] then map_delete ty (edb_byTypeTag db)
                           else map_set ty byTag' (edb_byTypeTag db))\<rparr>)))"

definition omitDefaultRealm :: "IEntity \<Rightarrow> IEntity" where
  "omitDefaultRealm row =
     (case ent_rlm row of Some r \<Rightarrow> if r = [] then row\<lparr>ent_rlm := None\<rparr> else row | None \<Rightarrow> row)"

definition put :: "IEntRow \<Rightarrow> EntDBMemory \<Rightarrow> EntDBMemory" where
  "put row db =
     (let next = (case row of Live e \<Rightarrow> Live (omitDefaultRealm e) | Tombstone _ _ _ \<Rightarrow> row);
          key = btob64 (row_eid next);
          db = (case map_get (edb_ents db) key of Some (Live prev) \<Rightarrow> unindex key prev db | _ \<Rightarrow> db);
          db = db\<lparr>edb_ents := map_set key next (edb_ents db)\<rparr>
      in case next of Live e \<Rightarrow> index key e db | Tombstone _ _ _ \<Rightarrow> db)"

definition del :: "jsstr \<Rightarrow> EntDBMemory \<Rightarrow> EntDBMemory" where
  "del key db =
     (case map_get (edb_ents db) key of
        None \<Rightarrow> db
      | Some prev \<Rightarrow>
          (let db = (case prev of Live e \<Rightarrow> unindex key e db | Tombstone _ _ _ \<Rightarrow> db)
           in db\<lparr>edb_ents := map_delete key (edb_ents db)\<rparr>))"

definition clearIndexes :: "EntDBMemory \<Rightarrow> EntDBMemory" where
  "clearIndexes db = db\<lparr>edb_byType := [], edb_byTypePid := [], edb_byTypeTag := []\<rparr>"

definition EntDBMemory_new :: "IEntity list \<Rightarrow> bool \<Rightarrow> EntDBMemory" where
  "EntDBMemory_new initEnts indexes =
     foldl (\<lambda>db e. put (Live e) db)
       \<lparr>edb_ents = [], edb_useIndex = indexes, edb_byType = [], edb_byTypePid = [], edb_byTypeTag = []\<rparr>
       initEnts"

definition edb_clear :: "EntDBMemory \<Rightarrow> EntDBMemory" where
  "edb_clear db = clearIndexes (db\<lparr>edb_ents := []\<rparr>)"

record ApplyResult =
  ar_stats :: "status list"
  ar_types :: "jsstr list"
  ar_eids :: "bytes list"

fun status_of :: "'a vs \<Rightarrow> status" where
  "status_of (Ok _) = Success"
| "status_of (Err s) = s"
| "status_of Throw = InternalError"
| "status_of Hang = InternalError"

text \<open>One iteration of the loop of \<open>apply\<close>.\<close>

definition apply_one :: "EntDBMemory \<times> ApplyResult \<Rightarrow> IOp \<Rightarrow> EntDBMemory \<times> ApplyResult" where
  "apply_one st op =
     (case st of (db, res) \<Rightarrow>
        let cur = map_get (edb_ents db) (btob64 (op_eid op))
        in case applyOp cur op of
             Ok next \<Rightarrow>
               (put next db,
                \<lparr>ar_stats = ar_stats res @ [Success],
                 ar_types = foldl (\<lambda>ts t. set_add t ts) (ar_types res) (typesChanged cur next),
                 ar_eids = ar_eids res @ [op_eid op]\<rparr>)
           | r \<Rightarrow> (db, res\<lparr>ar_stats := ar_stats res @ [status_of r]\<rparr>))"

definition edb_apply :: "IOp list \<Rightarrow> EntDBMemory \<Rightarrow> EntDBMemory \<times> ApplyResult" where
  "edb_apply ops db = foldl apply_one (db, \<lparr>ar_stats = [], ar_types = [], ar_eids = []\<rparr>) ops"

definition getRow :: "bytes \<Rightarrow> EntDBMemory \<Rightarrow> IEntRow option" where
  "getRow eid db = map_get (edb_ents db) (btob64 eid)"

definition getEnt :: "bytes \<Rightarrow> EntDBMemory \<Rightarrow> IEntity option" where
  "getEnt eid db = (case getRow eid db of Some (Live e) \<Rightarrow> Some e | _ \<Rightarrow> None)"

definition bucketList :: "bucket option \<Rightarrow> IEntity list" where
  "bucketList b = (case b of None \<Rightarrow> [] | Some b \<Rightarrow> map snd b)"

text \<open>Entities of the buckets whose tag matches, each key once.\<close>

definition add_once :: "bucket \<Rightarrow> jsstr \<times> IEntity \<Rightarrow> bucket" where
  "add_once out p = (if fst p \<in> set (map fst out) then out else out @ [p])"

definition collect_tags :: "TagSpec \<Rightarrow> index1 \<Rightarrow> bucket" where
  "collect_tags spec byTag =
     foldl add_once []
       (concat (map snd (filter (\<lambda>(tag, _). tagMatches tag spec) byTag)))"

definition byTagSpec :: "jsstr \<Rightarrow> TagSpec \<Rightarrow> EntDBMemory \<Rightarrow> IEntity list vs" where
  "byTagSpec ty spec db =
     andThen (tagSpecMayMatch spec) (\<lambda>may.
     if \<not> may then Ok []
     else case spec of
       TagExact s \<Rightarrow>
         Ok (bucketList (case map_get (edb_byTypeTag db) ty of None \<Rightarrow> None | Some m \<Rightarrow> map_get m s))
     | _ \<Rightarrow>
         (case map_get (edb_byTypeTag db) ty of
            None \<Rightarrow> Ok []
          | Some byTag \<Rightarrow> Ok (map snd (collect_tags spec byTag))))"

definition byDateSpec :: "jsstr \<Rightarrow> DateSpec \<Rightarrow> EntDBMemory \<Rightarrow> IEntity list vs" where
  "byDateSpec ty spec db =
     andThen (dateSpecMayMatch spec) (\<lambda>may.
     if \<not> may then Ok []
     else Ok (filter (\<lambda>e. dateMatches (ent_updatedAt e) spec) (bucketList (map_get (edb_byType db) ty))))"

definition live_rows :: "EntDBMemory \<Rightarrow> IEntity list" where
  "live_rows db = concat (map (\<lambda>(_, r). case r of Live e \<Rightarrow> [e] | Tombstone _ _ _ \<Rightarrow> []) (edb_ents db))"

definition getAllEntities :: "EntitiesQuery \<Rightarrow> EntDBMemory \<Rightarrow> IEntity list vs" where
  "getAllEntities q db =
     (if edb_useIndex db then
        (case q of
           QPid ty p \<Rightarrow>
             Ok (bucketList (case map_get (edb_byTypePid db) ty of
                               None \<Rightarrow> None | Some m \<Rightarrow> map_get m (btob64 p)))
         | QTag ty spec \<Rightarrow> byTagSpec ty spec db
         | QUpdatedAt ty spec \<Rightarrow> byDateSpec ty spec db
         | QType ty \<Rightarrow> Ok (bucketList (map_get (edb_byType db) ty)))
      else
        (case q of
           QPid ty p \<Rightarrow>
             Ok (filter (\<lambda>e. ent_type e = ty
                   \<and> (case ent_pid e of None \<Rightarrow> False | Some p' \<Rightarrow> bytesEqual p' p)) (live_rows db))
         | QTag ty spec \<Rightarrow>
             andThen (tagSpecMayMatch spec) (\<lambda>may.
             if \<not> may then Ok []
             else Ok (filter (\<lambda>e. ent_type e = ty
                        \<and> (case ent_tags e of None \<Rightarrow> False
                           | Some ts \<Rightarrow> list_ex (\<lambda>t. tagMatches t spec) ts)) (live_rows db)))
         | QUpdatedAt ty spec \<Rightarrow>
             andThen (dateSpecMayMatch spec) (\<lambda>may.
             if \<not> may then Ok []
             else Ok (filter (\<lambda>e. ent_type e = ty \<and> dateMatches (ent_updatedAt e) spec) (live_rows db)))
         | QType ty \<Rightarrow> Ok (filter (\<lambda>e. ent_type e = ty) (live_rows db))))"

definition getEntities :: "EntitiesQuery \<Rightarrow> EntDBMemory \<Rightarrow> IEntity list vs" where
  "getEntities q db = getAllEntities q db"

definition countEntities :: "jsstr \<Rightarrow> EntDBMemory \<Rightarrow> nat" where
  "countEntities ty db =
     (if edb_useIndex db
      then (case map_get (edb_byType db) ty of None \<Rightarrow> 0 | Some b \<Rightarrow> length b)
      else length (filter (\<lambda>e. ent_type e = ty) (live_rows db)))"

definition edb_checksum :: "(bytes \<Rightarrow> bytes) \<Rightarrow> EntDBMemory \<Rightarrow> bytes vs" where
  "edb_checksum blake3 db = checksumEntRevs blake3 (map (revFromEntity \<circ> snd) (edb_ents db))"

section \<open>Laws of the bucket maps\<close>

definition idx_get :: "index1 \<Rightarrow> jsstr \<Rightarrow> jsstr \<Rightarrow> IEntity option" where
  "idx_get m t k = (case map_get m t of None \<Rightarrow> None | Some b \<Rightarrow> map_get b k)"

definition idx2_get :: "index2 \<Rightarrow> jsstr \<Rightarrow> jsstr \<Rightarrow> jsstr \<Rightarrow> IEntity option" where
  "idx2_get m t p k = (case map_get m t of None \<Rightarrow> None | Some i \<Rightarrow> idx_get i p k)"

text \<open>Every map of the structure holds a key once.\<close>

definition keys_ok :: "('k, 'v) jsmap \<Rightarrow> bool" where
  "keys_ok m = distinct (map fst m)"

definition idx_ok :: "index1 \<Rightarrow> bool" where
  "idx_ok m = (keys_ok m \<and> list_all (\<lambda>(_, b). keys_ok b) m)"

definition idx2_ok :: "index2 \<Rightarrow> bool" where
  "idx2_ok m = (keys_ok m \<and> list_all (\<lambda>(_, i). idx_ok i) m)"

lemma keys_ok_set [simp]: "keys_ok m \<Longrightarrow> keys_ok (map_set k v m)"
  by (simp add: keys_ok_def distinct_update)

lemma keys_ok_delete [simp]: "keys_ok m \<Longrightarrow> keys_ok (map_delete k m)"
  by (simp add: keys_ok_def distinct_delete)

lemma keys_ok_Nil [simp]: "keys_ok []"
  by (simp add: keys_ok_def)

lemma keys_ok_single [simp]: "keys_ok [(k, v)]"
  by (simp add: keys_ok_def)

lemma set_map_set: "set (map_set k v m) \<subseteq> insert (k, v) (set m)"
  by (induction m) auto

lemma list_all_set: "list_all P m \<Longrightarrow> P (k, v) \<Longrightarrow> list_all P (map_set k v m)"
  using set_map_set [of k v m] by (auto simp: list_all_iff)

lemma list_all_delete: "list_all P m \<Longrightarrow> list_all P (map_delete k m)"
  by (auto simp: list_all_iff AList.delete_eq)

lemma list_all_get: "list_all (\<lambda>(_, b). P b) m \<Longrightarrow> map_get m k = Some b \<Longrightarrow> P b"
  by (auto simp: list_all_iff dest: map_of_SomeD)

lemma idx_ok_put: "idx_ok m \<Longrightarrow> idx_ok (idx_put t k e m)"
  unfolding idx_ok_def idx_put_def
  by (auto intro!: list_all_set dest: list_all_get split: option.splits)

lemma idx_ok_del: "idx_ok m \<Longrightarrow> idx_ok (idx_del t k m)"
  unfolding idx_ok_def idx_del_def Let_def
  by (auto intro!: list_all_set list_all_delete dest: list_all_get split: option.splits)

lemma idx_get_put [simp]:
  "idx_get (idx_put t k e m) t' k' = (if t' = t \<and> k' = k then Some e else idx_get m t' k')"
  by (auto simp: idx_get_def idx_put_def split: option.splits)

lemma idx_get_del [simp]:
  "idx_get (idx_del t k m) t' k' = (if t' = t \<and> k' = k then None else idx_get m t' k')"
proof (cases "map_get m t")
  case (Some b)
  have "map_get b k' = None" if "map_delete k b = []" "k' \<noteq> k" for k'
    using map_get_delete [of k b k'] that by simp
  with Some show ?thesis by (auto simp: idx_get_def idx_del_def Let_def split: option.splits)
qed (auto simp: idx_get_def idx_del_def)

lemma idx_get_foldl_put:
  "idx_get (foldl (\<lambda>m t. idx_put t k e m) m ts) t' k' =
     (if t' \<in> set ts \<and> k' = k then Some e else idx_get m t' k')"
  by (induction ts arbitrary: m) auto

lemma idx_get_foldl_del:
  "idx_get (foldl (\<lambda>m t. idx_del t k m) m ts) t' k' =
     (if t' \<in> set ts \<and> k' = k then None else idx_get m t' k')"
  by (induction ts arbitrary: m) auto

lemma idx_ok_foldl_put: "idx_ok m \<Longrightarrow> idx_ok (foldl (\<lambda>m t. idx_put t k e m) m ts)"
  by (induction ts arbitrary: m) (auto simp: idx_ok_put)

lemma idx_ok_foldl_del: "idx_ok m \<Longrightarrow> idx_ok (foldl (\<lambda>m t. idx_del t k m) m ts)"
  by (induction ts arbitrary: m) (auto simp: idx_ok_del)

lemma idx_get_Nil [simp]: "idx_get [] t k = None" "idx2_get [] t p k = None"
  by (simp_all add: idx_get_def idx2_get_def)

lemma idx_ok_Nil [simp]: "idx_ok []" "idx2_ok []"
  by (simp_all add: idx_ok_def idx2_ok_def)

lemma idx2_get_set: "idx2_get (map_set t i m) t' p k = (if t' = t then idx_get i p k else idx2_get m t' p k)"
  by (simp add: idx2_get_def)

lemma idx2_get_upd:
  "idx2_get (if i = [] then map_delete t m else map_set t i m) t' p k =
     (if t' = t then idx_get i p k else idx2_get m t' p k)"
  by (simp add: idx2_get_def)

lemma idx2_get_at: "idx_get (case map_get m t of None \<Rightarrow> [] | Some i \<Rightarrow> i) p k = idx2_get m t p k"
  by (simp add: idx2_get_def split: option.splits)

lemma idx2_ok_at: "idx2_ok m \<Longrightarrow> idx_ok (case map_get m t of None \<Rightarrow> [] | Some i \<Rightarrow> i)"
  by (auto simp: idx2_ok_def dest: list_all_get split: option.splits)

lemma idx2_ok_set: "idx2_ok m \<Longrightarrow> idx_ok i \<Longrightarrow> idx2_ok (map_set t i m)"
  by (auto simp: idx2_ok_def intro!: list_all_set)

lemma idx2_ok_delete: "idx2_ok m \<Longrightarrow> idx2_ok (map_delete t m)"
  by (auto simp: idx2_ok_def intro!: list_all_delete)

section \<open>The index invariant\<close>

text \<open>
  The rows are keyed by the base64 form of their entity id, and with indexes on, each
  index holds exactly the live rows it should.
\<close>

definition has_pid :: "IEntity \<Rightarrow> jsstr \<Rightarrow> bool" where
  "has_pid e p = (\<exists>pid. ent_pid e = Some pid \<and> btob64 pid = p)"

definition has_tag :: "IEntity \<Rightarrow> jsstr \<Rightarrow> bool" where
  "has_tag e g = (\<exists>ts. ent_tags e = Some ts \<and> g \<in> set ts)"

definition idx_agree :: "EntDBMemory \<Rightarrow> bool" where
  "idx_agree db =
     ((\<forall>t k e. (idx_get (edb_byType db) t k = Some e) =
         (map_get (edb_ents db) k = Some (Live e) \<and> ent_type e = t))
      \<and> (\<forall>t p k e. (idx2_get (edb_byTypePid db) t p k = Some e) =
         (map_get (edb_ents db) k = Some (Live e) \<and> ent_type e = t \<and> has_pid e p))
      \<and> (\<forall>t g k e. (idx2_get (edb_byTypeTag db) t g k = Some e) =
         (map_get (edb_ents db) k = Some (Live e) \<and> ent_type e = t \<and> has_tag e g)))"

definition idxs_ok :: "EntDBMemory \<Rightarrow> bool" where
  "idxs_ok db = (idx_ok (edb_byType db) \<and> idx2_ok (edb_byTypePid db) \<and> idx2_ok (edb_byTypeTag db))"

definition ents_ok :: "EntDBMemory \<Rightarrow> bool" where
  "ents_ok db =
     (keys_ok (edb_ents db) \<and> list_all (\<lambda>(k, r). k = btob64 (row_eid r)) (edb_ents db))"

definition edb_inv :: "EntDBMemory \<Rightarrow> bool" where
  "edb_inv db = (ents_ok db \<and> (edb_useIndex db \<longrightarrow> idxs_ok db \<and> idx_agree db))"

lemma index_sel [simp]:
  "edb_ents (index k e db) = edb_ents db" "edb_useIndex (index k e db) = edb_useIndex db"
  "edb_ents (unindex k e db) = edb_ents db" "edb_useIndex (unindex k e db) = edb_useIndex db"
  by (simp_all add: index_def unindex_def Let_def split: option.splits)

lemma index_get:
  assumes "edb_useIndex db"
  shows "idx_get (edb_byType (index k e db)) t k' =
           (if t = ent_type e \<and> k' = k then Some e else idx_get (edb_byType db) t k')"
    and "idx2_get (edb_byTypePid (index k e db)) t p k' =
           (if t = ent_type e \<and> has_pid e p \<and> k' = k then Some e else idx2_get (edb_byTypePid db) t p k')"
    and "idx2_get (edb_byTypeTag (index k e db)) t g k' =
           (if t = ent_type e \<and> has_tag e g \<and> k' = k then Some e else idx2_get (edb_byTypeTag db) t g k')"
  using assms
  by (auto simp: index_def Let_def has_pid_def has_tag_def idx2_get_set idx2_get_at idx_get_foldl_put
      split: option.splits)

lemma unindex_get:
  assumes "edb_useIndex db"
  shows "idx_get (edb_byType (unindex k e db)) t k' =
           (if t = ent_type e \<and> k' = k then None else idx_get (edb_byType db) t k')"
    and "idx2_get (edb_byTypePid (unindex k e db)) t p k' =
           (if t = ent_type e \<and> has_pid e p \<and> k' = k then None else idx2_get (edb_byTypePid db) t p k')"
    and "idx2_get (edb_byTypeTag (unindex k e db)) t g k' =
           (if t = ent_type e \<and> has_tag e g \<and> k' = k then None else idx2_get (edb_byTypeTag db) t g k')"
proof -
  show "idx_get (edb_byType (unindex k e db)) t k' =
      (if t = ent_type e \<and> k' = k then None else idx_get (edb_byType db) t k')"
    using assms by (simp add: unindex_def Let_def split: option.splits)
  show "idx2_get (edb_byTypePid (unindex k e db)) t p k' =
      (if t = ent_type e \<and> has_pid e p \<and> k' = k then None else idx2_get (edb_byTypePid db) t p k')"
    using assms
    by (cases "ent_pid e"; cases "map_get (edb_byTypePid db) (ent_type e)"; cases "ent_tags e";
        cases "map_get (edb_byTypeTag db) (ent_type e)")
       (auto simp: unindex_def Let_def has_pid_def idx2_get_upd, auto simp: idx2_get_def)
  show "idx2_get (edb_byTypeTag (unindex k e db)) t g k' =
      (if t = ent_type e \<and> has_tag e g \<and> k' = k then None else idx2_get (edb_byTypeTag db) t g k')"
    using assms
    by (cases "ent_pid e"; cases "map_get (edb_byTypePid db) (ent_type e)"; cases "ent_tags e";
        cases "map_get (edb_byTypeTag db) (ent_type e)")
       (auto simp: unindex_def Let_def has_tag_def idx2_get_upd idx_get_foldl_del,
        auto simp: idx2_get_def)
qed

lemma idx2_ok_get: "idx2_ok m \<Longrightarrow> map_get m t = Some i \<Longrightarrow> idx_ok i"
  using idx2_ok_at [of m t] by simp

lemma index_fields:
  assumes "edb_useIndex db"
  shows "edb_byType (index k e db) = idx_put (ent_type e) k e (edb_byType db)"
    and "edb_byTypePid (index k e db) =
      (case ent_pid e of None \<Rightarrow> edb_byTypePid db
       | Some p \<Rightarrow> map_set (ent_type e) (idx_put (btob64 p) k e
           (case map_get (edb_byTypePid db) (ent_type e) of None \<Rightarrow> [] | Some x \<Rightarrow> x)) (edb_byTypePid db))"
    and "edb_byTypeTag (index k e db) =
      (case ent_tags e of None \<Rightarrow> edb_byTypeTag db
       | Some ts \<Rightarrow> map_set (ent_type e) (foldl (\<lambda>m tag. idx_put tag k e m)
           (case map_get (edb_byTypeTag db) (ent_type e) of None \<Rightarrow> [] | Some x \<Rightarrow> x) ts) (edb_byTypeTag db))"
  using assms by (simp_all add: index_def Let_def split: option.split)

lemma unindex_fields:
  assumes "edb_useIndex db"
  shows "edb_byType (unindex k e db) = idx_del (ent_type e) k (edb_byType db)"
    and "edb_byTypePid (unindex k e db) =
      (case ent_pid e of None \<Rightarrow> edb_byTypePid db
       | Some p \<Rightarrow> (case map_get (edb_byTypePid db) (ent_type e) of None \<Rightarrow> edb_byTypePid db
         | Some m \<Rightarrow> if idx_del (btob64 p) k m = [] then map_delete (ent_type e) (edb_byTypePid db)
                     else map_set (ent_type e) (idx_del (btob64 p) k m) (edb_byTypePid db)))"
    and "edb_byTypeTag (unindex k e db) =
      (case ent_tags e of None \<Rightarrow> edb_byTypeTag db
       | Some ts \<Rightarrow> (case map_get (edb_byTypeTag db) (ent_type e) of None \<Rightarrow> edb_byTypeTag db
         | Some m \<Rightarrow> if foldl (\<lambda>m tag. idx_del tag k m) m ts = [] then map_delete (ent_type e) (edb_byTypeTag db)
                     else map_set (ent_type e) (foldl (\<lambda>m tag. idx_del tag k m) m ts) (edb_byTypeTag db)))"
  using assms by (simp_all add: unindex_def Let_def split: option.split)

lemma idxs_ok_index: "idxs_ok db \<Longrightarrow> idxs_ok (index k e db)"
proof (cases "edb_useIndex db")
  case True
  assume "idxs_ok db"
  then show ?thesis
    unfolding idxs_ok_def index_fields [OF True]
    by (cases "ent_pid e"; cases "ent_tags e")
       (simp_all add: idx_ok_put idx2_ok_set idx_ok_foldl_put idx2_ok_at)
qed (simp add: index_def)

lemma idxs_ok_unindex: "idxs_ok db \<Longrightarrow> idxs_ok (unindex k e db)"
proof (cases "edb_useIndex db")
  case True
  assume i: "idxs_ok db"
  have "idx2_ok (edb_byTypePid (unindex k e db))"
    using i unfolding idxs_ok_def unindex_fields [OF True]
    by (auto intro!: idx_ok_del idx2_ok_set idx2_ok_delete elim: idx2_ok_get split: option.split)
  moreover have "idx2_ok (edb_byTypeTag (unindex k e db))"
    using i unfolding idxs_ok_def unindex_fields [OF True]
    by (auto intro!: idx_ok_foldl_del idx2_ok_set idx2_ok_delete elim: idx2_ok_get split: option.split)
  ultimately show ?thesis
    using i by (simp add: idxs_ok_def unindex_fields [OF True] idx_ok_del)
qed (simp add: unindex_def)

text \<open>Removing a live row's entries leaves indexes that agree with the rows other than it.\<close>

definition set_row :: "jsstr \<Rightarrow> IEntRow option \<Rightarrow> EntDBMemory \<Rightarrow> EntDBMemory" where
  "set_row k r db =
     db\<lparr>edb_ents := (case r of None \<Rightarrow> map_delete k (edb_ents db) | Some x \<Rightarrow> map_set k x (edb_ents db))\<rparr>"

definition drop_idx :: "jsstr \<Rightarrow> EntDBMemory \<Rightarrow> EntDBMemory" where
  "drop_idx k db = (case map_get (edb_ents db) k of Some (Live e) \<Rightarrow> unindex k e db | _ \<Rightarrow> db)"

lemma drop_idx_sel [simp]:
  "edb_ents (drop_idx k db) = edb_ents db" "edb_useIndex (drop_idx k db) = edb_useIndex db"
  by (simp_all add: drop_idx_def split: option.splits IEntRow.splits)

lemma idxs_ok_drop: "idxs_ok db \<Longrightarrow> idxs_ok (drop_idx k db)"
  by (simp add: drop_idx_def idxs_ok_unindex split: option.splits IEntRow.splits)

lemma drop_idx_get:
  assumes "edb_useIndex db" "idx_agree db"
  shows "(idx_get (edb_byType (drop_idx k db)) t k' = Some e) =
           (k' \<noteq> k \<and> map_get (edb_ents db) k' = Some (Live e) \<and> ent_type e = t)"
    and "(idx2_get (edb_byTypePid (drop_idx k db)) t p k' = Some e) =
           (k' \<noteq> k \<and> map_get (edb_ents db) k' = Some (Live e) \<and> ent_type e = t \<and> has_pid e p)"
    and "(idx2_get (edb_byTypeTag (drop_idx k db)) t g k' = Some e) =
           (k' \<noteq> k \<and> map_get (edb_ents db) k' = Some (Live e) \<and> ent_type e = t \<and> has_tag e g)"
  using assms unfolding idx_agree_def drop_idx_def
  by (cases "map_get (edb_ents db) k"; auto simp: unindex_get split: IEntRow.splits)+

lemma put_alt:
  "put row db =
     (let next = (case row of Live e \<Rightarrow> Live (omitDefaultRealm e) | Tombstone _ _ _ \<Rightarrow> row);
          k = btob64 (row_eid next); db' = set_row k (Some next) (drop_idx k db)
      in case next of Live e \<Rightarrow> index k e db' | Tombstone _ _ _ \<Rightarrow> db')"
  by (simp add: put_def set_row_def drop_idx_def Let_def split: option.splits IEntRow.splits)

lemma del_alt:
  "del k db = (if map_get (edb_ents db) k = None then db else set_row k None (drop_idx k db))"
  by (auto simp: del_def set_row_def drop_idx_def Let_def split: option.splits IEntRow.splits)

lemma set_row_sel [simp]:
  "edb_useIndex (set_row k r db) = edb_useIndex db" "edb_byType (set_row k r db) = edb_byType db"
  "edb_byTypePid (set_row k r db) = edb_byTypePid db" "edb_byTypeTag (set_row k r db) = edb_byTypeTag db"
  "map_get (edb_ents (set_row k r db)) k' = (if k' = k then r else map_get (edb_ents db) k')"
  by (simp_all add: set_row_def split: option.splits)

lemma ents_ok_set_row:
  "ents_ok db \<Longrightarrow> (\<And>x. r = Some x \<Longrightarrow> k = btob64 (row_eid x)) \<Longrightarrow> ents_ok (set_row k r db)"
  by (auto simp: ents_ok_def set_row_def intro!: list_all_set list_all_delete split: option.split)

lemma agree_live:
  assumes "edb_useIndex db" "idx_agree db"
  shows "idx_agree (index k e (set_row k (Some (Live e)) (drop_idx k db)))"
  unfolding idx_agree_def using drop_idx_get [OF assms, of k] assms(1)
  by (auto simp: index_get)

lemma agree_gone:
  assumes "edb_useIndex db" "idx_agree db" "\<And>e. r \<noteq> Some (Live e)"
  shows "idx_agree (set_row k r (drop_idx k db))"
  unfolding idx_agree_def using drop_idx_get [OF assms(1,2), of k] assms(3) by auto

lemma put_inv: "edb_inv db \<Longrightarrow> edb_inv (put row db)"
proof -
  assume i: "edb_inv db"
  define next' where "next' = (case row of Live e \<Rightarrow> Live (omitDefaultRealm e) | Tombstone _ _ _ \<Rightarrow> row)"
  define k where "k = btob64 (row_eid next')"
  let ?db = "set_row k (Some next') (drop_idx k db)"
  have p: "put row db = (case next' of Live e \<Rightarrow> index k e ?db | Tombstone _ _ _ \<Rightarrow> ?db)"
    by (simp only: put_alt Let_def k_def next'_def)
  have e: "ents_ok ?db"
    using i by (intro ents_ok_set_row) (auto simp: edb_inv_def ents_ok_def k_def)
  have "idxs_ok ?db \<and> idx_agree (put row db)" if "edb_useIndex db"
  proof -
    have "idxs_ok (drop_idx k db)" "idx_agree db" using i that by (auto simp: edb_inv_def idxs_ok_drop)
    then show ?thesis
      using that agree_live [of db k] agree_gone [of db "Some next'" k]
      by (auto simp: p idxs_ok_def split: IEntRow.split)
  qed
  with e show ?thesis
    by (auto simp: edb_inv_def p idxs_ok_index ents_ok_def split: IEntRow.splits)
qed

lemma del_inv: "edb_inv db \<Longrightarrow> edb_inv (del k db)"
proof -
  assume i: "edb_inv db"
  have "ents_ok (set_row k None (drop_idx k db))"
    using i by (intro ents_ok_set_row) (auto simp: edb_inv_def ents_ok_def)
  moreover have "idxs_ok (set_row k None (drop_idx k db)) \<and> idx_agree (set_row k None (drop_idx k db))"
    if "edb_useIndex db"
  proof -
    have "idxs_ok (drop_idx k db)" "idx_agree db" using i that by (auto simp: edb_inv_def idxs_ok_drop)
    then show ?thesis using that agree_gone [of db None k] by (simp add: idxs_ok_def)
  qed
  ultimately show ?thesis using i by (simp add: del_alt edb_inv_def)
qed

lemma new_inv: "edb_inv (EntDBMemory_new es b)"
proof -
  have "edb_inv (foldl (\<lambda>db e. put (Live e) db) db es)" if "edb_inv db" for db
    using that by (induction es arbitrary: db) (auto simp: put_inv)
  then show ?thesis
    unfolding EntDBMemory_new_def by (simp add: edb_inv_def ents_ok_def idxs_ok_def idx_agree_def)
qed

lemma clear_inv: "edb_inv (edb_clear db)"
  by (simp add: edb_inv_def ents_ok_def idxs_ok_def idx_agree_def edb_clear_def clearIndexes_def)

lemma apply_one_inv: "edb_inv (fst st) \<Longrightarrow> edb_inv (fst (apply_one st op))"
  by (auto simp: apply_one_def Let_def put_inv split: prod.splits vs.splits)

lemma apply_inv: "edb_inv db \<Longrightarrow> edb_inv (fst (edb_apply ops db))"
proof -
  have "edb_inv (fst st) \<Longrightarrow> edb_inv (fst (foldl apply_one st ops))" for st
    by (induction ops arbitrary: st) (auto simp: apply_one_inv)
  then show "edb_inv db \<Longrightarrow> ?thesis" by (simp add: edb_apply_def)
qed

section \<open>Indexed queries are scans\<close>

lemma live_rows_set:
  "ents_ok db \<Longrightarrow> e \<in> set (live_rows db) \<longleftrightarrow> (\<exists>k. map_get (edb_ents db) k = Some (Live e))"
  by (force simp: live_rows_def ents_ok_def keys_ok_def split: IEntRow.splits prod.splits)

lemma row_key: "ents_ok db \<Longrightarrow> map_get (edb_ents db) k = Some r \<Longrightarrow> k = btob64 (row_eid r)"
  by (auto simp: ents_ok_def dest: list_all_get map_of_SomeD simp: list_all_iff)

lemma lives_keys:
  "list_all (\<lambda>(k, r). k = btob64 (row_eid r)) m \<Longrightarrow>
     map (\<lambda>e. btob64 (ent_eid e))
       (concat (map (\<lambda>(_, r). case r of Live e \<Rightarrow> [e] | Tombstone _ _ _ \<Rightarrow> []) m)) =
     map fst (filter (\<lambda>(_, r). isLiveEnt r) m)"
proof (induction m)
  case (Cons p m)
  then show ?case by (cases p; cases "snd p") auto
qed simp

lemma distinct_lives:
  "keys_ok m \<Longrightarrow> list_all (\<lambda>(k, r). k = btob64 (row_eid r)) m \<Longrightarrow>
     distinct (concat (map (\<lambda>(_, r). case r of Live e \<Rightarrow> [e] | Tombstone _ _ _ \<Rightarrow> []) m))"
  using lives_keys [of m] distinct_map_filter [of fst m]
  by (simp only: keys_ok_def) (metis (no_types, lifting) distinct_map)

lemma distinct_live_rows: "ents_ok db \<Longrightarrow> distinct (live_rows db)"
  by (simp add: ents_ok_def live_rows_def distinct_lives)

text \<open>A bucket whose entries are rows of the database lists different entities.\<close>

lemma distinct_bucket:
  "keys_ok b \<Longrightarrow> (\<And>k e. (k, e) \<in> set b \<Longrightarrow> k = btob64 (ent_eid e)) \<Longrightarrow> distinct (map snd b)"
proof -
  assume k: "keys_ok b" and e: "\<And>k e. (k, e) \<in> set b \<Longrightarrow> k = btob64 (ent_eid e)"
  have "map (\<lambda>e. btob64 (ent_eid e)) (map snd b) = map fst b"
    using e by (auto simp: comp_def)
  then have "distinct (map (\<lambda>e. btob64 (ent_eid e)) (map snd b))" using k by (simp only: keys_ok_def)
  then show ?thesis unfolding distinct_map [of _ "map snd b"] by blast
qed

lemma keys_ok_mem: "keys_ok b \<Longrightarrow> ((k, e) \<in> set b) = (map_get b k = Some e)"
  by (simp add: keys_ok_def)

lemma bucket_set:
  "keys_ok b \<Longrightarrow> set (map snd b) = {e. \<exists>k. map_get b k = Some e}"
  by (force simp: keys_ok_mem [symmetric])

lemma bucket_ok: "idx_ok m \<Longrightarrow> map_get m t = Some b \<Longrightarrow> keys_ok b"
  by (auto simp: idx_ok_def dest: list_all_get)

text \<open>What one bucket lists, for each of the three indexes.\<close>

lemma bucket_lists:
  assumes inv: "edb_inv db"
    and ok: "case b of None \<Rightarrow> True | Some b' \<Rightarrow> keys_ok b'"
    and get: "\<And>k e. (case b of None \<Rightarrow> None | Some b' \<Rightarrow> map_get b' k) = Some e \<longleftrightarrow>
                map_get (edb_ents db) k = Some (Live e) \<and> P e"
  shows "distinct (bucketList b)" "set (bucketList b) = {e \<in> set (live_rows db). P e}"
proof -
  have e: "ents_ok db" using inv by (simp add: edb_inv_def)
  show "set (bucketList b) = {e \<in> set (live_rows db). P e}"
  proof (cases b)
    case None
    then show ?thesis using get live_rows_set [OF e] by (auto simp: bucketList_def)
  next
    case (Some b')
    then have "set (bucketList b) = {e. \<exists>k. map_get b' k = Some e}"
      using ok bucket_set [of b'] by (simp only: bucketList_def option.case)
    also have "\<dots> = {e. \<exists>k. map_get (edb_ents db) k = Some (Live e) \<and> P e}"
      using get Some by simp
    finally show ?thesis using live_rows_set [OF e] by auto
  qed
  show "distinct (bucketList b)"
  proof (cases b)
    case (Some b')
    have "k = btob64 (ent_eid x)" if "(k, x) \<in> set b'" for k x
      using get [of k x] that ok Some row_key [OF e, of k "Live x"] by (simp add: keys_ok_mem)
    then show ?thesis using ok Some by (simp add: bucketList_def distinct_bucket)
  qed (simp add: bucketList_def)
qed

lemma mset_bucket:
  assumes "edb_inv db" "case b of None \<Rightarrow> True | Some b' \<Rightarrow> keys_ok b'"
    and "\<And>k e. (case b of None \<Rightarrow> None | Some b' \<Rightarrow> map_get b' k) = Some e \<longleftrightarrow>
           map_get (edb_ents db) k = Some (Live e) \<and> P e"
  shows "mset (bucketList b) = mset (filter P (live_rows db))"
proof -
  have "distinct (filter P (live_rows db))"
    using assms(1) by (simp add: edb_inv_def distinct_live_rows)
  then show ?thesis
    using bucket_lists [OF assms] set_eq_iff_mset_eq_distinct [of "bucketList b" "filter P (live_rows db)"]
    by auto
qed

lemma type_bucket:
  assumes "edb_inv db" "edb_useIndex db"
  shows "mset (bucketList (map_get (edb_byType db) ty)) = mset (filter (\<lambda>e. ent_type e = ty) (live_rows db))"
proof (rule mset_bucket [OF assms(1)])
  show "case map_get (edb_byType db) ty of None \<Rightarrow> True | Some b' \<Rightarrow> keys_ok b'"
    using assms by (auto simp: edb_inv_def idxs_ok_def dest: bucket_ok split: option.split)
  show "((case map_get (edb_byType db) ty of None \<Rightarrow> None | Some b' \<Rightarrow> map_get b' k) = Some e) =
      (map_get (edb_ents db) k = Some (Live e) \<and> ent_type e = ty)" for k e
    using assms by (auto simp: edb_inv_def idx_agree_def idx_get_def)
qed

lemma pid_bucket:
  assumes "edb_inv db" "edb_useIndex db"
  shows "mset (bucketList (case map_get (edb_byTypePid db) ty of None \<Rightarrow> None | Some m \<Rightarrow> map_get m p)) =
           mset (filter (\<lambda>e. ent_type e = ty \<and> has_pid e p) (live_rows db))"
proof (rule mset_bucket [OF assms(1)])
  show "case (case map_get (edb_byTypePid db) ty of None \<Rightarrow> None | Some m \<Rightarrow> map_get m p) of
      None \<Rightarrow> True | Some b' \<Rightarrow> keys_ok b'"
    using assms by (auto simp: edb_inv_def idxs_ok_def dest: idx2_ok_get bucket_ok split: option.splits)
  show "((case (case map_get (edb_byTypePid db) ty of None \<Rightarrow> None | Some m \<Rightarrow> map_get m p) of
        None \<Rightarrow> None | Some b' \<Rightarrow> map_get b' k) = Some e) =
      (map_get (edb_ents db) k = Some (Live e) \<and> ent_type e = ty \<and> has_pid e p)" for k e
  proof -
    have "(case (case map_get (edb_byTypePid db) ty of None \<Rightarrow> None | Some m \<Rightarrow> map_get m p) of
        None \<Rightarrow> None | Some b' \<Rightarrow> map_get b' k) = idx2_get (edb_byTypePid db) ty p k"
      by (simp add: idx2_get_def idx_get_def split: option.split)
    then show ?thesis using assms by (simp add: edb_inv_def idx_agree_def)
  qed
qed

lemma tag_bucket:
  assumes "edb_inv db" "edb_useIndex db"
  shows "mset (bucketList (case map_get (edb_byTypeTag db) ty of None \<Rightarrow> None | Some m \<Rightarrow> map_get m g)) =
           mset (filter (\<lambda>e. ent_type e = ty \<and> has_tag e g) (live_rows db))"
proof (rule mset_bucket [OF assms(1)])
  show "case (case map_get (edb_byTypeTag db) ty of None \<Rightarrow> None | Some m \<Rightarrow> map_get m g) of
      None \<Rightarrow> True | Some b' \<Rightarrow> keys_ok b'"
    using assms by (auto simp: edb_inv_def idxs_ok_def dest: idx2_ok_get bucket_ok split: option.splits)
  show "((case (case map_get (edb_byTypeTag db) ty of None \<Rightarrow> None | Some m \<Rightarrow> map_get m g) of
        None \<Rightarrow> None | Some b' \<Rightarrow> map_get b' k) = Some e) =
      (map_get (edb_ents db) k = Some (Live e) \<and> ent_type e = ty \<and> has_tag e g)" for k e
  proof -
    have "(case (case map_get (edb_byTypeTag db) ty of None \<Rightarrow> None | Some m \<Rightarrow> map_get m g) of
        None \<Rightarrow> None | Some b' \<Rightarrow> map_get b' k) = idx2_get (edb_byTypeTag db) ty g k"
      by (simp add: idx2_get_def idx_get_def split: option.split)
    then show ?thesis using assms by (simp add: edb_inv_def idx_agree_def)
  qed
qed

text \<open>Collecting several tag buckets keeps one entry per key.\<close>

lemma add_once_facts:
  "set (map fst (add_once out p)) = insert (fst p) (set (map fst out))"
  "keys_ok out \<Longrightarrow> keys_ok (add_once out p)"
  "set (add_once out p) \<subseteq> insert p (set out)"
  by (auto simp: add_once_def keys_ok_def)

lemma collect_keys: "set (map fst (foldl add_once out xs)) = set (map fst out) \<union> set (map fst xs)"
proof (induction xs arbitrary: out)
  case (Cons x xs)
  show ?case
    by (simp only: foldl_Cons Cons.IH add_once_facts(1) list.map list.set) blast
qed simp

lemma collect_ok: "keys_ok out \<Longrightarrow> keys_ok (foldl add_once out xs)"
  by (induction xs arbitrary: out) (simp_all add: add_once_facts(2))

lemma collect_sub: "set (foldl add_once out xs) \<subseteq> set out \<union> set xs"
proof (induction xs arbitrary: out)
  case (Cons x xs)
  show ?case using Cons.IH [of "add_once out x"] add_once_facts(3) [of out x] by auto
qed simp

lemma tag_entries:
  assumes "idx_ok byTag"
  shows "(k, e) \<in> set (concat (map snd (filter (\<lambda>(tag, _). tagMatches tag spec) byTag))) \<longleftrightarrow>
           (\<exists>g. tagMatches g spec \<and> idx_get byTag g k = Some e)"
proof -
  have "(g, b) \<in> set byTag \<longleftrightarrow> map_get byTag g = Some b" for g b
    using assms keys_ok_mem [of byTag g b] by (simp add: idx_ok_def)
  moreover have "(k, e) \<in> set b \<longleftrightarrow> map_get b k = Some e" if "map_get byTag g = Some b" for g b
    using bucket_ok [OF assms that] by (rule keys_ok_mem)
  ultimately show ?thesis by (fastforce simp: idx_get_def split: option.splits)
qed

lemma has_tag_ex: "(\<exists>g. tagMatches g spec \<and> has_tag e g) =
    (case ent_tags e of None \<Rightarrow> False | Some ts \<Rightarrow> list_ex (\<lambda>t. tagMatches t spec) ts)"
  by (auto simp: has_tag_def list_ex_iff split: option.split)

lemma collect_tags_mset:
  assumes "edb_inv db" "edb_useIndex db" "map_get (edb_byTypeTag db) ty = Some byTag"
  shows "mset (map snd (collect_tags spec byTag)) =
    mset (filter (\<lambda>e. ent_type e = ty \<and> (\<exists>g. tagMatches g spec \<and> has_tag e g)) (live_rows db))"
proof -
  let ?xs = "concat (map snd (filter (\<lambda>(tag, _). tagMatches tag spec) byTag))"
  have ok: "idx_ok byTag" using assms by (auto simp: edb_inv_def idxs_ok_def intro: idx2_ok_get)
  have cok: "keys_ok (collect_tags spec byTag)" by (simp add: collect_tags_def collect_ok)
  have e: "ents_ok db" using assms(1) by (simp add: edb_inv_def)
  have ent: "(k, x) \<in> set ?xs \<longleftrightarrow> map_get (edb_ents db) k = Some (Live x) \<and> ent_type x = ty
      \<and> (\<exists>g. tagMatches g spec \<and> has_tag x g)" for k x
  proof -
    have "idx_get byTag g k = idx2_get (edb_byTypeTag db) ty g k" for g
      using assms(3) by (simp add: idx2_get_def)
    then show ?thesis
      using assms(1,2) unfolding tag_entries [OF ok] by (auto simp: edb_inv_def idx_agree_def)
  qed
  have "map_get (collect_tags spec byTag) k = Some x \<longleftrightarrow> (k, x) \<in> set ?xs" for k x
  proof
    assume "map_get (collect_tags spec byTag) k = Some x"
    then have "(k, x) \<in> set (collect_tags spec byTag)" by (rule map_of_SomeD)
    then show "(k, x) \<in> set ?xs" using collect_sub [of "[]" ?xs] by (auto simp only: collect_tags_def list.set)
  next
    assume x: "(k, x) \<in> set ?xs"
    then have "fst (k, x) \<in> fst ` set ?xs" by (rule imageI)
    then have "k \<in> set (map fst (collect_tags spec byTag))"
      unfolding collect_tags_def collect_keys by (simp only: fst_conv set_map list.map list.set Un_empty_left)
    then obtain y where y: "(k, y) \<in> set (collect_tags spec byTag)" by auto
    then have "(k, y) \<in> set ?xs" using collect_sub [of "[]" ?xs] by (auto simp only: collect_tags_def list.set)
    then have "y = x" using x unfolding ent by simp
    with y show "map_get (collect_tags spec byTag) k = Some x" using cok by (simp add: keys_ok_mem)
  qed
  then show ?thesis
    using mset_bucket [OF assms(1), of "Some (collect_tags spec byTag)"
        "\<lambda>x. ent_type x = ty \<and> (\<exists>g. tagMatches g spec \<and> has_tag x g)"] cok ent
    by (simp add: bucketList_def)
qed

lemma has_pid_eq:
  "has_pid e (btob64 p) = (case ent_pid e of None \<Rightarrow> False | Some p' \<Rightarrow> bytesEqual p' p)"
  by (auto simp: has_pid_def bytesEqual_eq split: option.split)

lemma has_tag_exact: "has_tag e s = (\<exists>g. tagMatches g (TagExact s) \<and> has_tag e g)"
  by (simp add: tagMatches_def)

definition no_index :: "EntDBMemory \<Rightarrow> EntDBMemory" where
  "no_index db = db\<lparr>edb_useIndex := False\<rparr>"

lemma no_index_live [simp]: "live_rows (no_index db) = live_rows db" "\<not> edb_useIndex (no_index db)"
  by (simp_all add: no_index_def live_rows_def)

fun same_listing :: "IEntity list vs \<Rightarrow> IEntity list vs \<Rightarrow> bool" where
  "same_listing (Ok xs) (Ok ys) = (mset xs = mset ys)"
| "same_listing (Err s) (Err t) = (s = t)"
| "same_listing _ _ = False"

lemma tag_query_scan:
  assumes "edb_inv db" "edb_useIndex db"
  shows "same_listing (getEntities (QTag ty spec) db) (getEntities (QTag ty spec) (no_index db))"
proof (cases "tagSpecMayMatch spec")
  case (Ok may)
  have empty: "mset (filter (\<lambda>e. ent_type e = ty \<and> (\<exists>g. tagMatches g spec \<and> has_tag e g)) (live_rows db)) = {#}"
    if "map_get (edb_byTypeTag db) ty = None"
  proof -
    have "\<not> has_tag e g" if mem: "e \<in> set (live_rows db)" and ty: "ent_type e = ty" for e g
    proof
      assume "has_tag e g"
      then obtain k where "map_get (edb_ents db) k = Some (Live e)"
        using mem assms(1) live_rows_set [of db e] by (auto simp: edb_inv_def)
      then have "idx2_get (edb_byTypeTag db) ty g k = Some e"
        using assms \<open>has_tag e g\<close> ty by (simp add: edb_inv_def idx_agree_def)
      with \<open>map_get (edb_byTypeTag db) ty = None\<close> show False by (simp add: idx2_get_def)
    qed
    then show ?thesis by (auto simp: filter_empty_conv)
  qed
  note scan = has_tag_ex [symmetric]
  show ?thesis
  proof (cases may)
    case True
    show ?thesis
    proof (cases spec)
      case (TagExact g)
      then show ?thesis
        using tag_bucket [OF assms, where ty = ty and g = g] True assms(2) Ok
        by (simp add: getEntities_def getAllEntities_def byTagSpec_def scan tagMatches_def)
    next
      case (TagRange r)
      then show ?thesis
        using collect_tags_mset [OF assms, of ty _ spec] empty True assms(2) Ok
        by (cases "map_get (edb_byTypeTag db) ty")
           (simp_all add: getEntities_def getAllEntities_def byTagSpec_def scan)
    next
      case (TagPrefix p)
      then show ?thesis
        using collect_tags_mset [OF assms, of ty _ spec] empty True assms(2) Ok
        by (cases "map_get (edb_byTypeTag db) ty")
           (simp_all add: getEntities_def getAllEntities_def byTagSpec_def scan)
    qed
  qed (use assms(2) Ok in \<open>simp add: getEntities_def getAllEntities_def byTagSpec_def\<close>)
qed (use assms(2) in \<open>simp_all add: getEntities_def getAllEntities_def byTagSpec_def tagSpecMayMatch_def
      split: TagSpec.splits if_splits\<close>)

lemma date_query_scan:
  assumes "edb_inv db" "edb_useIndex db"
  shows "same_listing (getEntities (QUpdatedAt ty spec) db) (getEntities (QUpdatedAt ty spec) (no_index db))"
proof -
  let ?D = "\<lambda>e. dateMatches (ent_updatedAt e) spec"
  have "mset (filter ?D (bucketList (map_get (edb_byType db) ty))) =
      filter_mset ?D (mset (filter (\<lambda>e. ent_type e = ty) (live_rows db)))"
    by (simp only: mset_filter type_bucket [OF assms])
  also have "\<dots> = mset (filter (\<lambda>e. ent_type e = ty \<and> ?D e) (live_rows db))"
    by (simp only: mset_filter [symmetric] filter_filter)
  finally show ?thesis
    using assms(2)
    by (cases "dateSpecMayMatch spec")
       (auto simp: getEntities_def getAllEntities_def byDateSpec_def dateSpecMayMatch_def
        split: DateSpec.splits if_splits)
qed

lemma query_scan:
  assumes "edb_inv db" "edb_useIndex db"
  shows "same_listing (getEntities q db) (getEntities q (no_index db))"
proof (cases q)
  case (QType ty)
  then show ?thesis
    using type_bucket [OF assms, of ty] assms(2) by (simp add: getEntities_def getAllEntities_def)
next
  case (QPid ty p)
  then show ?thesis
    using pid_bucket [OF assms, where ty = ty and p = "btob64 p"] assms(2)
    by (simp add: getEntities_def getAllEntities_def has_pid_eq)
qed (use assms in \<open>simp_all add: tag_query_scan date_query_scan\<close>)

lemma count_scan:
  assumes "edb_inv db" "edb_useIndex db"
  shows "countEntities ty db = countEntities ty (no_index db)"
proof -
  have "countEntities ty db = size (mset (bucketList (map_get (edb_byType db) ty)))"
    using assms(2) by (simp add: countEntities_def bucketList_def split: option.split)
  then show ?thesis by (simp only: type_bucket [OF assms] size_mset) (simp add: countEntities_def)
qed

section \<open>Last writer wins\<close>

text \<open>
  A store that keeps, of the operations it has seen, the one with the greatest stamp. Such
  a store is a function of the set of operations delivered, not of their order or number.
\<close>

locale lww_register =
  fixes step :: "'row option \<Rightarrow> 'op \<Rightarrow> 'row option"
    and good :: "'op \<Rightarrow> bool"
    and stamp :: "'op \<Rightarrow> int"
    and render :: "'op \<Rightarrow> 'row"
    and rstamp :: "'row \<Rightarrow> int"
  assumes step_bad: "\<not> good op \<Longrightarrow> step cur op = cur"
    and step_first: "good op \<Longrightarrow> step None op = Some (render op)"
    and step_newer: "good op \<Longrightarrow> good op' \<Longrightarrow> stamp op' < stamp op \<Longrightarrow>
        step (Some (render op')) op = Some (render op)"
    and step_stale: "good op \<Longrightarrow> good op' \<Longrightarrow> stamp op \<le> stamp op' \<Longrightarrow>
        step (Some (render op')) op = Some (render op')"
begin

definition wins :: "'op \<Rightarrow> 'op set \<Rightarrow> bool" where
  "wins op S = (op \<in> S \<and> good op \<and> (\<forall>o' \<in> S. good o' \<longrightarrow> stamp o' \<le> stamp op))"

definition settled :: "'row option \<Rightarrow> 'op set \<Rightarrow> bool" where
  "settled r S = (case r of None \<Rightarrow> \<forall>op \<in> S. \<not> good op | Some x \<Rightarrow> \<exists>op. x = render op \<and> wins op S)"

lemma settled_step: "settled r S \<Longrightarrow> settled (step r x) (insert x S)"
proof (cases "good x")
  case False
  assume s: "settled r S"
  have "wins op (insert x S)" if "wins op S" for op using that False by (simp add: wins_def)
  with s False show ?thesis by (auto simp: settled_def step_bad split: option.split_asm option.split)
next
  case True
  assume s: "settled r S"
  show ?thesis
  proof (cases r)
    case None
    with s True show ?thesis by (simp add: settled_def step_first wins_def) blast
  next
    case (Some y)
    with s obtain w where w: "y = render w" "wins w S" by (auto simp: settled_def)
    then have gw: "good w" and ge: "\<forall>o' \<in> S. good o' \<longrightarrow> stamp o' \<le> stamp w" by (simp_all add: wins_def)
    show ?thesis
    proof (cases "stamp w < stamp x")
      case True
      have "wins x (insert x S)" using \<open>good x\<close> True ge by (force simp: wins_def)
      then show ?thesis using step_newer [OF \<open>good x\<close> gw True] Some w(1) by (auto simp: settled_def)
    next
      case False
      then have le: "stamp x \<le> stamp w" by simp
      have "wins w (insert x S)" using w(2) le by (simp add: wins_def)
      then show ?thesis using step_stale [OF \<open>good x\<close> gw le] Some w(1) by (auto simp: settled_def)
    qed
  qed
qed

lemma settled_fold: "settled r S \<Longrightarrow> settled (foldl step r ops) (S \<union> set ops)"
proof (induction ops arbitrary: r S)
  case (Cons x ops)
  show ?case using Cons.IH [OF settled_step [OF Cons.prems, of x]] by simp
qed simp

lemma winner_unique:
  assumes "inj_on stamp {op \<in> S. good op}" "wins a S" "wins b S" shows "a = b"
proof -
  have "stamp a = stamp b" using assms(2,3) by (intro order.antisym) (auto simp: wins_def)
  then show ?thesis using assms by (auto simp: wins_def dest: inj_onD)
qed

lemma settled_unique:
  assumes "inj_on stamp {op \<in> S. good op}" "settled r S" "settled r' S" shows "r = r'"
  using assms winner_unique [OF assms(1)]
  by (cases r; cases r') (auto simp: settled_def wins_def)

lemma convergence:
  assumes "set ops = set ops'" "inj_on stamp {op \<in> set ops. good op}"
  shows "foldl step None ops = foldl step None ops'"
proof -
  have "settled None {}" by (simp add: settled_def)
  then show ?thesis
    using settled_fold [of None "{}" ops] settled_fold [of None "{}" ops'] assms settled_unique by auto
qed

end

text \<open>One entity's row under one operation, and the stamp of an operation.\<close>

definition op_step :: "IEntRow option \<Rightarrow> IOp \<Rightarrow> IEntRow option" where
  "op_step cur op = (case applyOp cur op of Ok r \<Rightarrow> Some r | _ \<Rightarrow> cur)"

definition op_stamp :: "IOp \<Rightarrow> date" where
  "op_stamp op =
     (case eid_decode (Decoder (op_eid op)) of
        Ok (x, _) \<Rightarrow> date_add (eid_ts x) (op_off op) | _ \<Rightarrow> None)"

text \<open>The id does not parse, so the operation is refused: not what \<open>op_dated\<close> excludes.\<close>

definition op_parses :: "IOp \<Rightarrow> bool" where
  "op_parses op = (case eid_decode (Decoder (op_eid op)) of Ok _ \<Rightarrow> True | _ \<Rightarrow> False)"

definition op_dated :: "IOp \<Rightarrow> bool" where
  "op_dated op = (op_parses op \<longrightarrow> op_stamp op \<noteq> None)"

definition op_row :: "IOp \<Rightarrow> IEntRow" where
  "op_row op = (case applyOp None op of Ok r \<Rightarrow> r | _ \<Rightarrow> Tombstone [] None 0)"

lemma applyOp_parses:
  "op_parses op \<Longrightarrow> applyOp cur op =
     (if (case cur of None \<Rightarrow> False | Some c \<Rightarrow> date_le (op_stamp op) (row_updatedAt c))
      then Err NoChange else Ok (op_row op))"
  by (cases op; cases cur) (auto simp: op_parses_def applyOp_def op_stamp_def op_row_def Let_def split: vs.splits)

lemma applyOp_unparsed: "\<not> op_parses op \<Longrightarrow> \<exists>s. applyOp cur op = Err s"
  using eid_decode_total [of "op_eid op"]
  by (cases "eid_decode (Decoder (op_eid op))") (auto simp: op_parses_def applyOp_def)

lemma op_row_updatedAt: "op_parses op \<Longrightarrow> row_updatedAt (op_row op) = op_stamp op"
  by (cases op) (auto simp: op_parses_def applyOp_def op_stamp_def op_row_def Let_def split: vs.splits)

lemma op_row_eid: "op_parses op \<Longrightarrow> row_eid (op_row op) = op_eid op"
  by (cases op) (auto simp: op_parses_def applyOp_def op_row_def Let_def split: vs.splits)

definition op_good :: "IOp \<Rightarrow> bool" where
  "op_good op = (op_parses op \<and> op_stamp op \<noteq> None)"

text \<open>On operations whose stamp is a valid date the database is such a register.\<close>

definition dated_step :: "IEntRow option \<Rightarrow> IOp \<Rightarrow> IEntRow option" where
  "dated_step cur op = (if op_dated op then op_step cur op else cur)"

interpretation lww: lww_register dated_step op_good "\<lambda>op. the (op_stamp op)" op_row
    "\<lambda>r. the (row_updatedAt r)"
proof
  fix op op' cur
  show "\<not> op_good op \<Longrightarrow> dated_step cur op = cur"
    using applyOp_unparsed [of op cur] by (auto simp: dated_step_def op_good_def op_dated_def op_step_def)
  assume g: "op_good op"
  then have p: "op_parses op" "op_dated op" by (simp_all add: op_good_def op_dated_def)
  show "dated_step None op = Some (op_row op)"
    using p by (simp add: dated_step_def op_step_def applyOp_parses)
  assume g': "op_good op'"
  then have r: "row_updatedAt (op_row op') = op_stamp op'" by (simp add: op_good_def op_row_updatedAt)
  show "the (op_stamp op') < the (op_stamp op) \<Longrightarrow> dated_step (Some (op_row op')) op = Some (op_row op)"
    using p g g' by (auto simp: dated_step_def op_step_def applyOp_parses r op_good_def)
  show "the (op_stamp op) \<le> the (op_stamp op') \<Longrightarrow> dated_step (Some (op_row op')) op = Some (op_row op')"
    using p g g' by (auto simp: dated_step_def op_step_def applyOp_parses r op_good_def)
qed

text \<open>The database applies to each entity the operations that name it, in order.\<close>

lemma omit_op_row: "op_parses op \<Longrightarrow>
    (case op_row op of Live e \<Rightarrow> Live (omitDefaultRealm e) | Tombstone _ _ _ \<Rightarrow> op_row op) = op_row op"
  by (cases op) (auto simp: op_parses_def applyOp_def op_row_def Let_def omitDefaultRealm_def split: vs.splits)

lemma put_ents: "map_get (edb_ents (put row db)) k =
    (let r = (case row of Live e \<Rightarrow> Live (omitDefaultRealm e) | Tombstone _ _ _ \<Rightarrow> row)
     in if k = btob64 (row_eid r) then Some r else map_get (edb_ents db) k)"
  by (simp add: put_alt Let_def split: IEntRow.split)

lemma apply_one_row:
  "getRow i (fst (apply_one st op)) =
     (if op_eid op = i then op_step (getRow i (fst st)) op else getRow i (fst st))"
proof (cases "op_parses op")
  case True
  obtain db res where st: "st = (db, res)" by force
  show ?thesis
    using True omit_op_row [OF True]
    by (auto simp: st apply_one_def Let_def applyOp_parses getRow_def op_step_def put_ents op_row_eid
        split: option.splits)
next
  case False
  obtain db res where st: "st = (db, res)" by force
  obtain s where "applyOp (map_get (edb_ents db) (btob64 (op_eid op))) op = Err s"
    using applyOp_unparsed [OF False] by blast
  moreover obtain s' where "applyOp (getRow i db) op = Err s'"
    using applyOp_unparsed [OF False] by blast
  ultimately show ?thesis by (simp add: st apply_one_def Let_def op_step_def)
qed

lemma apply_row:
  "getRow i (fst (edb_apply ops db)) = foldl op_step (getRow i db) (filter (\<lambda>op. op_eid op = i) ops)"
proof -
  have "getRow i (fst (foldl apply_one st ops)) =
      foldl op_step (getRow i (fst st)) (filter (\<lambda>op. op_eid op = i) ops)" for st
    by (induction ops arbitrary: st) (auto simp: apply_one_row)
  then show ?thesis by (simp add: edb_apply_def)
qed

section \<open>Properties of the in-memory database\<close>

lemma put_useIndex [simp]: "edb_useIndex (put row db) = edb_useIndex db"
  by (simp add: put_alt Let_def split: IEntRow.split)

lemma apply_useIndex: "edb_useIndex (fst (edb_apply ops db)) = edb_useIndex db"
proof -
  have "edb_useIndex (fst (foldl apply_one st ops)) = edb_useIndex (fst st)" for st
  proof (induction ops arbitrary: st)
    case (Cons op ops)
    have "edb_useIndex (fst (apply_one st op)) = edb_useIndex (fst st)"
      by (simp add: apply_one_def Let_def split: prod.split vs.split)
    with Cons show ?case by simp
  qed simp
  then show ?thesis by (simp add: edb_apply_def)
qed

lemma new_useIndex: "edb_useIndex (EntDBMemory_new init b) = b"
proof -
  have "edb_useIndex (foldl (\<lambda>db e. put (Live e) db) db init) = edb_useIndex db" for db
    by (induction init arbitrary: db) auto
  then show ?thesis by (simp add: EntDBMemory_new_def)
qed

text \<open>C20: the secondary indexes never disagree with the rows. After any sequence of operations
  applied to any initial database, every query (by type, by type and parent, by tag, range or
  prefix, by update time) lists through the indexes exactly the entities that a scan of all
  rows finds, and fails with the same status; the counts agree as well.\<close>

theorem indexed_queries_are_scans:
  "let db = fst (edb_apply ops (EntDBMemory_new init True))
   in same_listing (getEntities q db) (getEntities q (no_index db))
      \<and> countEntities ty db = countEntities ty (no_index db)"
  unfolding Let_def
  by (intro conjI query_scan count_scan apply_inv new_inv) (simp_all add: apply_useIndex new_useIndex)

lemma fold_dated: "list_all op_dated ops \<Longrightarrow> foldl op_step r ops = foldl dated_step r ops"
  by (induction ops arbitrary: r) (simp_all add: dated_step_def)

lemma getRow_empty [simp]: "getRow i (EntDBMemory_new [] u) = None"
  by (simp add: getRow_def EntDBMemory_new_def)

definition stamps_differ :: "IOp list \<Rightarrow> bool" where
  "stamps_differ ops =
     list_all (\<lambda>a. list_all (\<lambda>b. op_eid a = op_eid b \<and> op_stamp a = op_stamp b \<longrightarrow> a = b) ops) ops"

lemma rows_converge:
  assumes "set ops = set ops'" "list_all op_dated ops" "stamps_differ ops"
  shows "getRow i (fst (edb_apply ops (EntDBMemory_new [] u))) =
         getRow i (fst (edb_apply ops' (EntDBMemory_new [] u')))"
proof -
  let ?f = "filter (\<lambda>op. op_eid op = i)"
  have d: "list_all op_dated (?f ops)" "list_all op_dated (?f ops')"
    using assms(1,2) by (auto simp: list_all_iff)
  have "inj_on (\<lambda>op. the (op_stamp op)) {op \<in> set (?f ops). op_good op}"
    using assms(3) by (auto simp: inj_on_def stamps_differ_def list_all_iff op_good_def)
  then have "foldl dated_step None (?f ops) = foldl dated_step None (?f ops')"
    using assms(1) by (intro lww.convergence) auto
  then show ?thesis by (simp add: apply_row fold_dated d)
qed

text \<open>C1: strong eventual consistency of the rendered state. Two databases that have applied the
  same set of operations, in any order and with any repetitions, hold the same row for every
  entity, provided no two different operations on one entity carry the same timestamp and no
  timestamp leaves the range of a date.\<close>

theorem entdb_convergence:
  assumes "set ops = set ops'" "list_all op_dated ops" "stamps_differ ops"
  shows "getRow i (fst (edb_apply ops (EntDBMemory_new [] u))) =
         getRow i (fst (edb_apply ops' (EntDBMemory_new [] u')))"
  by (rule rows_converge) fact+

theorem entdb_convergence_witness:
  "getRow [1, 5, 0] (fst (edb_apply [DeleteOp [1, 5, 0] 20 1, MutateOp [1, 5, 0] 10 0 [] None None None]
      (EntDBMemory_new [] True))) =
   getRow [1, 5, 0] (fst (edb_apply [MutateOp [1, 5, 0] 10 0 [] None None None, DeleteOp [1, 5, 0] 20 1,
      MutateOp [1, 5, 0] 10 0 [] None None None] (EntDBMemory_new [] False)))"
proof (rule entdb_convergence)
  show "list_all op_dated [DeleteOp [1, 5, 0] 20 1, MutateOp [1, 5, 0] 10 0 [] None None None]" by code_simp
  show "stamps_differ [DeleteOp [1, 5, 0] 20 1, MutateOp [1, 5, 0] 10 0 [] None None None]" by code_simp
qed auto

text \<open>C35: under operations with valid times the frontier of an entity only moves forward. Whatever such operations a database with a
  dated row applies, the entity keeps a row, its update time never decreases, and the row changes only if the time strictly
  increases; so a tombstone is replaced only by a strictly newer operation, and late or repeated older mutations cannot bring a
  deleted entity back. An operation whose time is out of range escapes this (\<open>invalid_date_always_wins\<close>).\<close>

theorem frontier_monotone:
  assumes "getRow i db = Some r" "row_updatedAt r = Some t" "list_all op_dated ops"
  shows "\<exists>r' t'. getRow i (fst (edb_apply ops db)) = Some r' \<and> row_updatedAt r' = Some t'
           \<and> t \<le> t' \<and> (t' = t \<longrightarrow> r' = r)"
proof -
  have step: "\<exists>r' t'. op_step (Some r) op = Some r' \<and> row_updatedAt r' = Some t' \<and> t \<le> t' \<and> (t' = t \<longrightarrow> r' = r)"
    if "row_updatedAt r = Some t" "op_dated op" for r t op
  proof (cases "op_parses op")
    case True
    then show ?thesis
      using that op_row_updatedAt [OF True] by (auto simp: op_step_def applyOp_parses op_dated_def)
  next
    case False
    then show ?thesis using that applyOp_unparsed [OF False, of "Some r"] by (auto simp: op_step_def)
  qed
  have "\<exists>r' t'. foldl op_step (Some r) ops = Some r' \<and> row_updatedAt r' = Some t' \<and> t \<le> t' \<and> (t' = t \<longrightarrow> r' = r)"
    if "row_updatedAt r = Some t" "list_all op_dated ops" for r t ops
    using that
  proof (induction ops arbitrary: r t)
    case (Cons op ops)
    obtain r1 t1 where 1: "op_step (Some r) op = Some r1" "row_updatedAt r1 = Some t1" "t \<le> t1" "t1 = t \<longrightarrow> r1 = r"
      using step [OF Cons.prems(1), of op] Cons.prems(2) by auto
    obtain r2 t2 where "foldl op_step (Some r1) ops = Some r2" "row_updatedAt r2 = Some t2" "t1 \<le> t2" "t2 = t1 \<longrightarrow> r2 = r1"
      using Cons.IH [OF 1(2)] Cons.prems(2) by auto
    with 1 show ?case by auto
  qed auto
  then show ?thesis
    unfolding apply_row assms(1) using assms(2,3) by (auto simp: list_all_iff)
qed

theorem frontier_monotone_witness:
  "\<exists>r' t'. getRow [1, 5, 0] (fst (edb_apply [MutateOp [1, 5, 0] 10 0 [] None None None]
       (put (Tombstone [1, 5, 0] (Some 20) 1) (EntDBMemory_new [] True)))) = Some r'
     \<and> row_updatedAt r' = Some t' \<and> 20 \<le> t' \<and> (t' = 20 \<longrightarrow> r' = Tombstone [1, 5, 0] (Some 20) 1)"
  by (rule frontier_monotone) code_simp+

text \<open>Ties are not resolved by content. Of two different operations with the same entity and
  timestamp, the one applied first stays, so replicas that receive them in different orders
  keep different rows for good.\<close>

theorem tie_keeps_first:
  assumes "op_good a" "op_good b" "op_eid a = op_eid b" "op_stamp a = op_stamp b"
  shows "getRow (op_eid a) (fst (edb_apply [a, b] (EntDBMemory_new [] u))) = Some (op_row a)
         \<and> getRow (op_eid a) (fst (edb_apply [b, a] (EntDBMemory_new [] u))) = Some (op_row b)"
  using assms by (auto simp: apply_row op_step_def applyOp_parses op_good_def op_row_updatedAt)

theorem tie_keeps_first_witness:
  "getRow [1, 5, 0] (fst (edb_apply [MutateOp [1, 5, 0] 10 0 [] None None (Some [1]),
       MutateOp [1, 5, 0] 10 0 [] None None (Some [2])] (EntDBMemory_new [] True)))
   \<noteq> getRow [1, 5, 0] (fst (edb_apply [MutateOp [1, 5, 0] 10 0 [] None None (Some [2]),
       MutateOp [1, 5, 0] 10 0 [] None None (Some [1])] (EntDBMemory_new [] True)))"
proof -
  let ?a = "MutateOp [1, 5, 0] 10 0 [] None None (Some [1])"
  let ?b = "MutateOp [1, 5, 0] 10 0 [] None None (Some [2])"
  have g: "op_good ?a" "op_good ?b" "op_stamp ?a = op_stamp ?b" by code_simp+
  have "op_row ?a \<noteq> op_row ?b" by code_simp
  then show ?thesis using tie_keeps_first [OF g(1,2) _ g(3), of True] by simp
qed

text \<open>An operation whose timestamp leaves the range of a date escapes the rule. It replaces any
  row, however new, and the row it leaves is replaced by any later operation, however old.\<close>

theorem invalid_date_always_wins:
  assumes "op_parses x" "op_stamp x = None" "op_parses old" "op_eid old = op_eid x"
  shows "getRow (op_eid x) (fst (edb_apply [x] db)) = Some (op_row x)
         \<and> getRow (op_eid x) (fst (edb_apply [x, old] db)) = Some (op_row old)"
proof -
  have x: "op_step cur x = Some (op_row x)" for cur
    using assms(1,2) by (cases cur) (simp_all add: op_step_def applyOp_parses)
  have "op_step (Some (op_row x)) old = Some (op_row old)"
    using assms by (simp add: op_step_def applyOp_parses op_row_updatedAt)
  with x show ?thesis using assms(4) by (simp add: apply_row)
qed

theorem invalid_date_always_wins_witness:
  "getRow [1, 5, 0] (fst (edb_apply [MutateOp [1, 5, 0] 9000000000000000 0 [] None None None]
      (put (Tombstone [1, 5, 0] (Some 20) 1) (EntDBMemory_new [] True))))
     = Some (op_row (MutateOp [1, 5, 0] 9000000000000000 0 [] None None None))
   \<and> getRow [1, 5, 0] (fst (edb_apply [MutateOp [1, 5, 0] 9000000000000000 0 [] None None None,
        MutateOp [1, 5, 0] 1 0 [] None None None]
      (put (Tombstone [1, 5, 0] (Some 20) 1) (EntDBMemory_new [] True))))
     = Some (op_row (MutateOp [1, 5, 0] 1 0 [] None None None))"
proof -
  let ?x = "MutateOp [1, 5, 0] 9000000000000000 0 [] None None None"
  let ?o = "MutateOp [1, 5, 0] 1 0 [] None None None"
  have "op_parses ?x" "op_stamp ?x = None" "op_parses ?o" by code_simp+
  then show ?thesis using invalid_date_always_wins [of ?x ?o] by simp
qed

section \<open>Replicas agree on checksums\<close>

lemma map_of_perm: "keys_ok m \<Longrightarrow> keys_ok m' \<Longrightarrow> map_of m = map_of m' \<Longrightarrow> mset m = mset m'"
proof -
  assume k: "keys_ok m" "keys_ok m'" and e: "map_of m = map_of m'"
  have "set m = set m'" using k e by (auto simp: keys_ok_mem)
  moreover have "distinct m" "distinct m'" using k by (simp_all add: keys_ok_def distinct_map)
  ultimately show ?thesis by (simp add: set_eq_iff_mset_eq_distinct)
qed

lemma apply_keys:
  assumes "edb_inv db" shows "map_get (edb_ents db) k = (if \<exists>i. k = btob64 i then getRow (THE i. k = btob64 i) db else None)"
proof (cases "\<exists>i. k = btob64 i")
  case True
  then obtain i where "k = btob64 i" by blast
  then have "(THE i. k = btob64 i) = i" by simp
  with \<open>k = btob64 i\<close> show ?thesis by (auto simp: getRow_def)
next
  case False
  have "map_get (edb_ents db) k = None"
  proof (rule ccontr)
    assume "map_get (edb_ents db) k \<noteq> None"
    then obtain r where "map_get (edb_ents db) k = Some r" by blast
    then have "k = btob64 (row_eid r)" using assms row_key [of db k r] by (simp add: edb_inv_def)
    with False show False by blast
  qed
  with False show ?thesis by simp
qed

definition op_encodable :: "IOp \<Rightarrow> bool" where
  "op_encodable op =
     (op_parses op \<longrightarrow> short (op_eid op) \<and> date_ok (op_stamp op) \<and> is_num (op_ctr op))"

lemma op_row_rev:
  "op_parses op \<Longrightarrow> op_encodable op \<Longrightarrow> entRev_ok (revFromEntity (op_row op))"
proof -
  assume p: "op_parses op" and e: "op_encodable op"
  have "row_ctr (op_row op) = op_ctr op"
    using p by (cases op) (auto simp: op_parses_def applyOp_def op_row_def Let_def split: vs.splits)
  with p e show ?thesis
    by (simp add: revFromEntity_def entRev_ok_def op_row_eid op_row_updatedAt op_encodable_def)
qed

lemma step_rev_ok:
  "(\<And>r. cur = Some r \<Longrightarrow> entRev_ok (revFromEntity r)) \<Longrightarrow> op_encodable op \<Longrightarrow>
     op_step cur op = Some r \<Longrightarrow> entRev_ok (revFromEntity r)"
  using op_row_rev [of op] applyOp_unparsed [of op cur]
  by (cases "op_parses op") (auto simp: op_step_def applyOp_parses split: if_splits)

lemma fold_rev_ok:
  "(\<And>r. cur = Some r \<Longrightarrow> entRev_ok (revFromEntity r)) \<Longrightarrow> list_all op_encodable ops \<Longrightarrow>
     foldl op_step cur ops = Some r \<Longrightarrow> entRev_ok (revFromEntity r)"
proof (induction ops arbitrary: cur)
  case (Cons op ops)
  show ?case
    by (rule Cons.IH [of "op_step cur op"]) (use Cons.prems step_rev_ok in auto)
qed auto

lemma rows_rev_ok:
  assumes "list_all op_encodable ops"
  shows "list_all entRev_ok (map (revFromEntity \<circ> snd) (edb_ents (fst (edb_apply ops (EntDBMemory_new [] u)))))"
proof -
  let ?db = "fst (edb_apply ops (EntDBMemory_new [] u))"
  have inv: "edb_inv ?db" by (intro apply_inv new_inv)
  have "entRev_ok (revFromEntity r)" if "(k, r) \<in> set (edb_ents ?db)" for k r
  proof -
    have g: "map_get (edb_ents ?db) k = Some r"
      using that inv by (simp add: edb_inv_def ents_ok_def keys_ok_mem)
    then have "k = btob64 (row_eid r)" using inv row_key [of ?db k r] by (simp add: edb_inv_def)
    with g have "getRow (row_eid r) ?db = Some r" by (simp add: getRow_def)
    then have f: "foldl op_step None (filter (\<lambda>op. op_eid op = row_eid r) ops) = Some r" by (simp add: apply_row)
    show ?thesis
      by (rule fold_rev_ok [OF _ _ f]) (use assms in \<open>auto simp: list_all_iff\<close>)
  qed
  then show ?thesis by (auto simp: list_all_iff)
qed

text \<open>C34: replicas can compare their states by checksum. Two databases that have applied the same set of operations have equal frontier
  checksums, whatever the order of delivery and whether or not they keep indexes, provided that every operation that parses is encodable
  (a short entity id, a valid time, a counter in range) and that no two different operations of an entity carry the same
  timestamp; with equal timestamps the rows, and so the checksums, depend on the order (\<open>tie_keeps_first\<close>).\<close>

theorem replicas_same_checksum:
  assumes "set ops = set ops'" "list_all op_encodable ops" "stamps_differ ops"
  shows "edb_checksum blake3 (fst (edb_apply ops (EntDBMemory_new [] u))) =
         edb_checksum blake3 (fst (edb_apply ops' (EntDBMemory_new [] u')))"
proof -
  let ?d = "fst (edb_apply ops (EntDBMemory_new [] u))" and ?d' = "fst (edb_apply ops' (EntDBMemory_new [] u'))"
  have inv: "edb_inv ?d" "edb_inv ?d'" by (intro apply_inv new_inv)+
  have "list_all op_dated ops"
    using assms(2) by (auto simp: list_all_iff op_dated_def op_encodable_def date_ok_def split: option.splits)
  then have "getRow i ?d = getRow i ?d'" for i by (rule rows_converge [OF assms(1) _ assms(3)])
  then have "map_of (edb_ents ?d) = map_of (edb_ents ?d')"
    by (intro ext) (simp only: apply_keys [OF inv(1)] apply_keys [OF inv(2)])
  then have "mset (edb_ents ?d) = mset (edb_ents ?d')"
    using inv by (intro map_of_perm) (simp_all add: edb_inv_def ents_ok_def)
  then have "mset (map (revFromEntity \<circ> snd) (edb_ents ?d)) = mset (map (revFromEntity \<circ> snd) (edb_ents ?d'))"
    by (simp only: mset_map)
  then show ?thesis
    unfolding edb_checksum_def by (intro checksumEntRevs_perm rows_rev_ok [OF assms(2)])
qed

theorem replicas_same_checksum_witness:
  "edb_checksum (\<lambda>b. b) (fst (edb_apply [DeleteOp [1, 5, 0] 20 1, MutateOp [1, 6, 0] 10 0 [] None None None]
      (EntDBMemory_new [] True))) =
   edb_checksum (\<lambda>b. b) (fst (edb_apply [MutateOp [1, 6, 0] 10 0 [] None None None, DeleteOp [1, 5, 0] 20 1]
      (EntDBMemory_new [] False)))"
proof (rule replicas_same_checksum)
  show "list_all op_encodable [DeleteOp [1, 5, 0] 20 1, MutateOp [1, 6, 0] 10 0 [] None None None]" by code_simp
  show "stamps_differ [DeleteOp [1, 5, 0] 20 1, MutateOp [1, 6, 0] 10 0 [] None None None]" by code_simp
qed auto

end
