(* ===== verification/Bag.thy ===== *)
theory Bag
  imports Crypto EntDB
begin

text \<open>
  Messages and bags: message heads (\<^verbatim>\<open>shared/message.ts\<close>), sealing a message into an encrypted
  and signed bag and opening it (\<^verbatim>\<open>shared/bag.ts\<close>), opening the head of a peeked bag
  (\<^verbatim>\<open>shared/sync.ts\<close>), and blob messages (\<^verbatim>\<open>shared/blobs.ts\<close>). The lemmas show that an
  opened bag is authentic and that sealing and opening are inverse.
\<close>

section \<open>Messages (message.ts)\<close>

text \<open>\<open>IMessage\<close> extends \<open>IMessageHead\<close> with the body.\<close>

record IMessage = IMessageHead +
  msg_bod :: "bytes option"

text \<open>\<open>a.getTime() - b.getTime()\<close>: \<^term>\<open>None\<close> is NaN.\<close>

definition date_diff :: "date \<Rightarrow> date \<Rightarrow> int option" where
  "date_diff a b = (case (a, b) of (Some x, Some y) \<Rightarrow> Some (x - y) | _ \<Rightarrow> None)"

text \<open>
  The head, or \<^term>\<open>None\<close> for a head whose \<open>off\<close> is NaN (an entity id with an out-of-range
  timestamp): writing such a head throws.
\<close>

definition genUpsertHead ::
    "prims \<Rightarrow> date \<Rightarrow> bytes \<Rightarrow> int \<Rightarrow> jsstr \<Rightarrow> bytes option \<Rightarrow> IMessageHead option vs" where
  "genUpsertHead p now eid ctr ty bod =
     andThen (eid_decode (Decoder eid)) (\<lambda>(eidParsed, _).
     let off = date_diff now (eid_ts eidParsed);
         len = (case bod of None \<Rightarrow> 0 | Some b \<Rightarrow> int (length b));
         hsh = (case bod of None \<Rightarrow> None | Some b \<Rightarrow> if len > 0 then Some (blake3_hash p b) else None)
     in Ok (map_option (\<lambda>off. \<lparr>mh_typ = Some ty, mh_eid = eid, mh_off = off, mh_ctr = ctr, mh_len = len, mh_hsh = hsh\<rparr>) off))"

definition genInsertHead ::
    "prims \<Rightarrow> bytes \<Rightarrow> date \<Rightarrow> bytes \<Rightarrow> jsstr \<Rightarrow> IMessageHead option vs" where
  "genInsertHead p rnd now bod ty =
     andThen (encode_with (\<lambda>e. eid_encode e \<lparr>eid_id = rnd, eid_ts = now\<rparr>)) (\<lambda>eid.
     genUpsertHead p now eid 0 ty (Some bod))"

definition genDeleteHead ::
    "prims \<Rightarrow> date \<Rightarrow> bytes \<Rightarrow> int \<Rightarrow> jsstr \<Rightarrow> IMessageHead option vs" where
  "genDeleteHead p now eid ctr ty = genUpsertHead p now eid ctr ty None"

section \<open>Bags (bag.ts)\<close>

definition bagSigMsg :: "bytes \<Rightarrow> bytes \<Rightarrow> bytes" where
  "bagSigMsg rlm headCph = concat_bytes rlm headCph"

definition bagSigValid :: "prims \<Rightarrow> IBag \<Rightarrow> CryptoKey \<Rightarrow> bool" where
  "bagSigValid p bag verifyKey =
     (if length (bag_rlm bag) \<noteq> hashBytes then False
      else checkSigEd25519 p (bag_sig bag) (MsgBytes (bagSigMsg (bag_rlm bag) (bag_headCph bag))) verifyKey)"

definition head_of :: "IMessage \<Rightarrow> IMessageHead" where
  "head_of m = \<lparr>mh_typ = mh_typ m, mh_eid = mh_eid m, mh_off = mh_off m, mh_ctr = mh_ctr m,
                mh_len = mh_len m, mh_hsh = mh_hsh m\<rparr>"

definition sealBag :: "prims \<Rightarrow> bytes \<Rightarrow> bytes \<Rightarrow> IMessage \<Rightarrow> BagManager \<Rightarrow> IBag vs" where
  "sealBag p nonceHead nonceBody msg bagMgr =
     (let hsh = (case msg_bod msg of
                   None \<Rightarrow> None
                 | Some b \<Rightarrow> if mh_len msg > 0 then Some (blake3_hash p b) else None)
      in andThen (encode_with (\<lambda>e. messageHead_encode e ((head_of msg)\<lparr>mh_hsh := hsh\<rparr>))) (\<lambda>headEnc.
         andThen (bagKDM p bagMgr headEnc) (\<lambda>kdm.
         let rlm = bm_rlm bagMgr
         in andThen (bm_encrypt p nonceHead bagMgr kdm headEnc) (\<lambda>headCph.
            andThen (case msg_bod msg of None \<Rightarrow> Ok [] | Some b \<Rightarrow> bm_encrypt p nonceBody bagMgr kdm b) (\<lambda>bodyCph.
            andThen (bm_sign p bagMgr (MsgBytes (bagSigMsg rlm headCph))) (\<lambda>sig.
            Ok \<lparr>bag_rlm = rlm, bag_sig = sig, bag_kdm = kdm, bag_headCph = headCph, bag_bodyCph = bodyCph\<rparr>))))))"

record IOpenBag =
  ob_msgHead :: IMessageHead
  ob_bod :: "bytes option"
  ob_headHash :: bytes

definition openBagBody ::
    "prims \<Rightarrow> bytes \<Rightarrow> bytes option \<Rightarrow> (bytes \<Rightarrow> bytes vs) \<Rightarrow> bytes option \<Rightarrow> IOpenBag vs" where
  "openBagBody p headEnc bodyCph decrypt headHashKnown =
     (case messageHead_decode (Decoder headEnc) of
        Throw \<Rightarrow> Throw | Hang \<Rightarrow> Hang
      | Err _ \<Rightarrow> Err InvalidMessage
      | Ok (msgHead, _) \<Rightarrow>
          andThen
            (case bodyCph of
               None \<Rightarrow> Ok None
             | Some c \<Rightarrow> if length c > 0 then andThen (decrypt c) (\<lambda>b. Ok (Some b)) else Ok None) (\<lambda>msgBody.
          let bodyMissing = (mh_hsh msgHead \<noteq> None \<and> msgBody = None);
              hashMissing = (mh_hsh msgHead = None \<and> msgBody \<noteq> None)
          in if bodyMissing \<or> hashMissing then Err HashMismatch
             else
               andThen
                 (case (mh_hsh msgHead, msgBody) of
                    (Some hsh, Some b) \<Rightarrow>
                      if \<not> bytesEqual (blake3_hash p b) hsh then Err HashMismatch else Ok ()
                  | _ \<Rightarrow> Ok ()) (\<lambda>_.
               let headHash = (case headHashKnown of Some h \<Rightarrow> h | None \<Rightarrow> blake3_hash p headEnc)
               in Ok \<lparr>ob_msgHead = msgHead, ob_bod = msgBody, ob_headHash = headHash\<rparr>)))"

record IMessageWithHash = IMessage +
  mwh_headHash :: bytes

definition msg_with_hash :: "IMessageHead \<Rightarrow> bytes option \<Rightarrow> bytes \<Rightarrow> IMessageWithHash" where
  "msg_with_hash h bod hsh =
     \<lparr>mh_typ = mh_typ h, mh_eid = mh_eid h, mh_off = mh_off h, mh_ctr = mh_ctr h, mh_len = mh_len h,
      mh_hsh = mh_hsh h, msg_bod = bod, mwh_headHash = hsh\<rparr>"

definition openBag :: "prims \<Rightarrow> IBag \<Rightarrow> CryptoKey \<Rightarrow> BagManager \<Rightarrow> IMessageWithHash vs" where
  "openBag p bag verifyKey bagMgr =
     (if \<not> bagSigValid p bag verifyKey then Err InvalidSignature
      else if \<not> bytesEqual (bm_rlm bagMgr) (bag_rlm bag) then Err NotFound
      else
        andThen (bm_decrypt p bagMgr (bag_kdm bag) (bag_headCph bag)) (\<lambda>msgHeadEnc.
        andThen (openBagBody p msgHeadEnc (Some (bag_bodyCph bag))
                   (\<lambda>data. bm_decrypt p bagMgr (bag_kdm bag) data) None) (\<lambda>c.
        Ok (msg_with_hash (ob_msgHead c) (ob_bod c) (ob_headHash c)))))"

section \<open>Peeked heads (shared/sync.ts)\<close>

definition decryptPeekItem ::
    "prims \<Rightarrow> IBagPeekItem \<Rightarrow> CryptoKey \<Rightarrow> BagManager \<Rightarrow> (bytes \<times> bytes) vs" where
  "decryptPeekItem p item verifyKey bagMgr =
     (let rlm = bm_rlm bagMgr
      in if length rlm \<noteq> hashBytes then Err InvalidParam
         else
           andThen (peekItemHead_decode (Decoder (pk_headCph item))) (\<lambda>(pi, _).
           if \<not> checkSigEd25519 p (ph_sig pi) (MsgBytes (bagSigMsg rlm (ph_headCph pi))) verifyKey
           then Err InvalidSignature
           else
             andThen (bm_decrypt p bagMgr (ph_kdm pi) (ph_headCph pi)) (\<lambda>headEnc.
             Ok (ph_kdm pi, headEnc))))"

section \<open>Blobs (blobs.ts)\<close>

definition blobPrefix :: jsstr where
  "blobPrefix = js ''blob:''"

definition blobTyp :: "jsstr \<Rightarrow> jsstr" where
  "blobTyp mime = blobPrefix @ mime"

definition isBlobTyp :: "jsstr option \<Rightarrow> bool" where
  "isBlobTyp ty = (case ty of None \<Rightarrow> False | Some t \<Rightarrow> startsWith t blobPrefix)"

definition mimeOf :: "jsstr option \<Rightarrow> jsstr option" where
  "mimeOf ty =
     (if \<not> isBlobTyp ty then None
      else let mime = drop (length blobPrefix) (the ty) in if length mime = 0 then None else Some mime)"

text \<open>Update options: the outer option tells whether the key is present.\<close>

record IBlobWrite =
  bw_tags :: "jsstr list option"
  bw_pid :: "bytes option"

record IBlobUpdate =
  bu_tags :: "jsstr list option option"
  bu_pid :: "bytes option option"
  bu_mime :: "jsstr option"

definition openBlob :: "bytes \<Rightarrow> IMsgEntBody vs" where
  "openBlob bod = andThen (ent_decode (Decoder bod)) (\<lambda>(ent, _). Ok ent)"

definition some_tags :: "jsstr list option \<Rightarrow> jsstr list option" where
  "some_tags tags = (case tags of None \<Rightarrow> None | Some ts \<Rightarrow> if length ts > 0 then Some ts else None)"

definition entOf :: "IBlobWrite option \<Rightarrow> bytes \<Rightarrow> IMsgEntBody" where
  "entOf opts b =
     \<lparr>eb_pid = (case opts of None \<Rightarrow> None | Some w \<Rightarrow> bw_pid w),
      eb_tags = (case opts of None \<Rightarrow> None | Some w \<Rightarrow> some_tags (bw_tags w)),
      eb_body = (if length b > 0 then Some b else None)\<rparr>"

definition entFromUpdate :: "IMsgEntBody \<Rightarrow> bytes \<Rightarrow> IBlobUpdate option \<Rightarrow> IMsgEntBody" where
  "entFromUpdate prev b opts =
     (let pid = (case opts of None \<Rightarrow> eb_pid prev
                 | Some u \<Rightarrow> (case bu_pid u of None \<Rightarrow> eb_pid prev | Some v \<Rightarrow> v));
          tags = (case opts of None \<Rightarrow> eb_tags prev
                  | Some u \<Rightarrow> (case bu_tags u of None \<Rightarrow> eb_tags prev | Some v \<Rightarrow> v))
      in \<lparr>eb_pid = pid, eb_tags = some_tags tags, eb_body = (if length b > 0 then Some b else None)\<rparr>)"

definition revOf :: "IMessageHead \<Rightarrow> IEntRev vs" where
  "revOf head =
     andThen (eid_decode (Decoder (mh_eid head))) (\<lambda>(parsed, _).
     Ok \<lparr>rev_eid = mh_eid head, rev_ctr = mh_ctr head, rev_updatedAt = date_add (eid_ts parsed) (mh_off head)\<rparr>)"

definition insertBlobMsg :: "jsstr \<Rightarrow> bytes \<Rightarrow> IBlobWrite option \<Rightarrow> (jsstr \<times> bytes) vs" where
  "insertBlobMsg mime b opts =
     (if length mime = 0 then Err InvalidParam
      else andThen (encodeEnt (entOf opts b)) (\<lambda>bod. Ok (blobTyp mime, bod)))"

definition updateBlobMsg ::
    "IMessage option \<Rightarrow> bytes \<Rightarrow> IBlobUpdate option \<Rightarrow> (jsstr \<times> bytes \<times> IEntRev) vs" where
  "updateBlobMsg prev b opts =
     (case prev of
        None \<Rightarrow> Err NotFound
      | Some prev \<Rightarrow>
         (case msg_bod prev of
            None \<Rightarrow> Err NotFound
          | Some prevBod \<Rightarrow>
              if length prevBod = 0 then Err NotFound
              else
               (case mimeOf (mh_typ prev) of
                  None \<Rightarrow> Err InvalidParam
                | Some prevMime \<Rightarrow>
                    andThen (revOf (head_of prev)) (\<lambda>prior.
                    andThen (openBlob prevBod) (\<lambda>opened.
                    let mime = (case opts of None \<Rightarrow> prevMime
                                | Some u \<Rightarrow> (case bu_mime u of None \<Rightarrow> prevMime | Some v \<Rightarrow> v))
                    in if length mime = 0 then Err InvalidParam
                       else andThen (encodeEnt (entFromUpdate opened b opts)) (\<lambda>bod.
                            Ok (blobTyp mime, bod, prior)))))))"

definition blobBytes :: "IMessage option \<Rightarrow> bytes vs" where
  "blobBytes msg =
     (case msg of
        None \<Rightarrow> Err NotFound
      | Some msg \<Rightarrow>
         (case msg_bod msg of
            None \<Rightarrow> Err NotFound
          | Some bod \<Rightarrow>
              if length bod = 0 then Err NotFound
              else if \<not> isBlobTyp (mh_typ msg) then Err NotFound
              else andThen (openBlob bod) (\<lambda>opened.
                   Ok (case eb_body opened of None \<Rightarrow> [] | Some b \<Rightarrow> b))))"

section \<open>Sealing and opening\<close>

text \<open>The head that is sealed: the caller's head with the hash of the body.\<close>

definition sealed_head :: "prims \<Rightarrow> IMessage \<Rightarrow> IMessageHead" where
  "sealed_head p msg =
     (head_of msg)\<lparr>mh_hsh := (case msg_bod msg of None \<Rightarrow> None
                             | Some b \<Rightarrow> if mh_len msg > 0 then Some (blake3_hash p b) else None)\<rparr>"

definition len_matches :: "IMessage \<Rightarrow> bool" where
  "len_matches msg = (mh_len msg = (case msg_bod msg of None \<Rightarrow> 0 | Some b \<Rightarrow> int (length b)))"

text \<open>What a sealed bag holds, with the keys that open it.\<close>

definition seals :: "prims \<Rightarrow> BagManager \<Rightarrow> IMessage \<Rightarrow> IBag \<Rightarrow> bool" where
  "seals p bm msg bag =
     (bag_rlm bag = bm_rlm bm \<and> length (bag_rlm bag) = 32 \<and> length (bag_sig bag) = 64 \<and> length (bag_kdm bag) = 8
      \<and> length (bag_headCph bag) = length (messageHead_wire (sealed_head p msg)) + 40
      \<and> length (bag_bodyCph bag) = (case msg_bod msg of None \<Rightarrow> 0 | Some b \<Rightarrow> length b + 40)
      \<and> (\<exists>vk. importVerifyKey p (bm_publicKey bm) = Ok vk
              \<and> checkSigEd25519 p (bag_sig bag) (MsgBytes (bag_rlm bag @ bag_headCph bag)) vk)
      \<and> bm_decrypt p bm (bag_kdm bag) (bag_headCph bag) = Ok (messageHead_wire (sealed_head p msg))
      \<and> (case msg_bod msg of None \<Rightarrow> bag_bodyCph bag = []
         | Some b \<Rightarrow> bm_decrypt p bm (bag_kdm bag) (bag_bodyCph bag) = Ok b))"

lemma sealBag_eq:
  "sealBag p n1 n2 msg bm =
     andThen (encode_with (\<lambda>e. messageHead_encode e (sealed_head p msg))) (\<lambda>headEnc.
     andThen (bagKDM p bm headEnc) (\<lambda>kdm.
     andThen (bm_encrypt p n1 bm kdm headEnc) (\<lambda>headCph.
     andThen (case msg_bod msg of None \<Rightarrow> Ok [] | Some b \<Rightarrow> bm_encrypt p n2 bm kdm b) (\<lambda>bodyCph.
     andThen (bm_sign p bm (MsgBytes (bm_rlm bm @ headCph))) (\<lambda>sig.
     Ok \<lparr>bag_rlm = bm_rlm bm, bag_sig = sig, bag_kdm = kdm, bag_headCph = headCph, bag_bodyCph = bodyCph\<rparr>)))))"
  by (simp add: sealBag_def sealed_head_def Let_def bagSigMsg_def concat_bytes_def)

lemma sealBag_seals:
  assumes p: "prims_ok p" and bm: "bm_ok p bm" and n: "length n1 = 24" "length n2 = 24"
    and h: "messageHead_ok (sealed_head p msg)"
  obtains bag where "sealBag p n1 n2 msg bm = Ok bag" "seals p bm msg bag"
proof -
  let ?w = "messageHead_wire (sealed_head p msg)"
  let ?kdm = "take 8 (dkey p (bm_idnt bm) BagKdm ?w)"
  have w: "encode_with (\<lambda>e. messageHead_encode e (sealed_head p msg)) = Ok ?w"
    by (rule messageHeadCodec.encode_ok [OF h])
  obtain hc where hc: "bm_encrypt p n1 bm ?kdm ?w = Ok hc" "bm_decrypt p bm ?kdm hc = Ok ?w" "length hc = length ?w + 40"
    using bm_roundtrip [OF p n(1), of bm ?kdm ?w] by metis
  obtain bc where bc: "(case msg_bod msg of None \<Rightarrow> Ok [] | Some b \<Rightarrow> bm_encrypt p n2 bm ?kdm b) = Ok bc"
    "case msg_bod msg of None \<Rightarrow> bc = [] | Some b \<Rightarrow> bm_decrypt p bm ?kdm bc = Ok b"
    "length bc = (case msg_bod msg of None \<Rightarrow> 0 | Some b \<Rightarrow> length b + 40)"
  proof (cases "msg_bod msg")
    case (Some b)
    obtain bc where "bm_encrypt p n2 bm ?kdm b = Ok bc" "bm_decrypt p bm ?kdm bc = Ok b" "length bc = length b + 40"
      using bm_roundtrip [OF p n(2), of bm ?kdm b] by metis
    with Some that show ?thesis by simp
  qed (use that in simp)
  obtain sig vk where sg: "bm_sign p bm (MsgBytes (bm_rlm bm @ hc)) = Ok sig" "length sig = 64"
    "importVerifyKey p (bm_publicKey bm) = Ok vk" "checkSigEd25519 p sig (MsgBytes (bm_rlm bm @ hc)) vk"
    using bm_sign_ok [OF p bm] by metis
  have r: "length (bm_rlm bm) = 32" using bm by (simp add: bm_ok_def)
  let ?bag = "\<lparr>bag_rlm = bm_rlm bm, bag_sig = sig, bag_kdm = ?kdm, bag_headCph = hc, bag_bodyCph = bc\<rparr>"
  show ?thesis
  proof (rule that [of ?bag])
    show "sealBag p n1 n2 msg bm = Ok ?bag"
      by (simp add: sealBag_eq w bagKDM_ok [OF p] hc(1) bc(1) sg(1))
    show "seals p bm msg ?bag" using hc bc sg r p by (cases "msg_bod msg") (auto simp: seals_def)
  qed
qed

lemma openBagBody_sealed:
  assumes h: "messageHead_ok h"
    and b: "case bod of None \<Rightarrow> bodyCph = [] \<and> mh_hsh h = None
            | Some b \<Rightarrow> bodyCph \<noteq> [] \<and> decrypt bodyCph = Ok b \<and> mh_hsh h = Some (blake3_hash p b)"
  shows "openBagBody p (messageHead_wire h) (Some bodyCph) decrypt known =
           Ok \<lparr>ob_msgHead = h, ob_bod = bod,
               ob_headHash = (case known of Some x \<Rightarrow> x | None \<Rightarrow> blake3_hash p (messageHead_wire h))\<rparr>"
  using messageHeadCodec.decode_ok [OF h, of "[]"] b
  by (cases bod) (auto simp: openBagBody_def bytesEqual_eq)

lemma bagSigValid_iff:
  "bagSigValid p bag vk =
     (length (bag_rlm bag) = 32 \<and> checkSigEd25519 p (bag_sig bag) (MsgBytes (bag_rlm bag @ bag_headCph bag)) vk)"
  by (simp add: bagSigValid_def hashBytes_def bagSigMsg_def concat_bytes_def)

text \<open>A bag manager and a message on the concrete primitives.\<close>

definition sample_bm :: BagManager where
  "sample_bm = \<lparr>bm_publicKey = replicate 32 4, bm_idnt = replicate 32 4, bm_realm = replicate 32 3,
                bm_rlm = replicate 32 2, bm_idKDM = nullKDM, bm_realmKDM = nullKDM\<rparr>"

definition sample_msg :: "bytes option \<Rightarrow> IMessage" where
  "sample_msg bod = \<lparr>mh_typ = Some [], mh_eid = [1, 5, 0], mh_off = 300, mh_ctr = 2,
     mh_len = (case bod of None \<Rightarrow> 0 | Some b \<Rightarrow> int (length b)), mh_hsh = None, msg_bod = bod\<rparr>"

lemma sample_bm_ok [simp]: "bm_ok toy_prims sample_bm"
  by (simp add: bm_ok_def sample_bm_def pub_of_def toy_prims_def)

lemma sample_head_ok [simp]:
  "messageHead_ok (sealed_head toy_prims (sample_msg None))"
  "messageHead_ok (sealed_head toy_prims (sample_msg (Some [])))"
  "messageHead_ok (sealed_head toy_prims (sample_msg (Some [7])))"
  by code_simp+

lemma concat_bytes_append [simp]: "concat_bytes a b = a @ b"
  by (simp add: concat_bytes_def)

lemma sealed_opens:
  assumes "prims_ok p" "bm_ok p bm" "length n1 = 24" "length n2 = 24"
    and "messageHead_ok (sealed_head p msg)" "len_matches msg" "msg_bod msg \<noteq> Some []"
  shows "\<exists>bag vk. sealBag p n1 n2 msg bm = Ok bag \<and> importVerifyKey p (bm_publicKey bm) = Ok vk
           \<and> openBag p bag vk bm =
               Ok (msg_with_hash (sealed_head p msg) (msg_bod msg)
                     (blake3_hash p (messageHead_wire (sealed_head p msg))))"
proof -
  obtain bag where bag: "sealBag p n1 n2 msg bm = Ok bag" "seals p bm msg bag"
    using sealBag_seals [OF assms(1-5)] by blast
  obtain vk where vk: "importVerifyKey p (bm_publicKey bm) = Ok vk"
      "checkSigEd25519 p (bag_sig bag) (MsgBytes (bag_rlm bag @ bag_headCph bag)) vk"
    using bag(2) by (auto simp: seals_def)
  let ?k = "bag_kdm bag"
  have b: "case msg_bod msg of None \<Rightarrow> bag_bodyCph bag = [] \<and> mh_hsh (sealed_head p msg) = None
            | Some b \<Rightarrow> bag_bodyCph bag \<noteq> [] \<and> bm_decrypt p bm ?k (bag_bodyCph bag) = Ok b
                        \<and> mh_hsh (sealed_head p msg) = Some (blake3_hash p b)"
    using bag(2) assms(6,7)
    by (auto simp: seals_def sealed_head_def len_matches_def split: option.splits)
  have "openBag p bag vk bm =
      Ok (msg_with_hash (sealed_head p msg) (msg_bod msg) (blake3_hash p (messageHead_wire (sealed_head p msg))))"
    using bag(2) vk(2) assms(2) openBagBody_sealed [where bod = "msg_bod msg" and decrypt = "bm_decrypt p bm ?k", OF assms(5) b]
    by (simp add: openBag_def bagSigValid_iff seals_def bytesEqual_eq bm_ok_def)
  then show ?thesis using bag(1) vk(1) by blast
qed

text \<open>C14: a sealed message opens. For a message whose head can be encoded and whose length is the
  length of its (non-empty or absent) body, \<open>sealBag\<close> succeeds, the bag verifies under the
  manager's public key, and \<open>openBag\<close> returns the message with the body hash filled in and the
  hash of the encoded head.\<close>

theorem seal_open_roundtrip:
  assumes "prims_ok p" "bm_ok p bm" "length n1 = 24" "length n2 = 24"
    and "messageHead_ok (sealed_head p msg)" "len_matches msg" "msg_bod msg \<noteq> Some []"
  shows "\<exists>bag vk. sealBag p n1 n2 msg bm = Ok bag \<and> importVerifyKey p (bm_publicKey bm) = Ok vk
           \<and> openBag p bag vk bm =
               Ok (msg_with_hash (sealed_head p msg) (msg_bod msg)
                     (blake3_hash p (messageHead_wire (sealed_head p msg))))"
  using assms by (rule sealed_opens)

theorem seal_open_roundtrip_witness:
  "\<exists>bag vk. sealBag toy_prims (replicate 24 1) (replicate 24 2) (sample_msg (Some [7])) sample_bm = Ok bag
     \<and> importVerifyKey toy_prims (bm_publicKey sample_bm) = Ok vk
     \<and> openBag toy_prims bag vk sample_bm =
         Ok (msg_with_hash (sealed_head toy_prims (sample_msg (Some [7]))) (msg_bod (sample_msg (Some [7])))
               (blake3_hash toy_prims (messageHead_wire (sealed_head toy_prims (sample_msg (Some [7]))))))"
  by (rule seal_open_roundtrip) (simp_all add: len_matches_def, simp_all add: sample_msg_def)

text \<open>C13: whatever \<open>openBag\<close> accepts is authentic. The signature verifies over the realm id and the
  encrypted head, the realm is the manager's, head and body come from decrypting this bag, the
  head hash is the hash of the decrypted head, and the body, present exactly when the
  ciphertext is, has the hash the signed head names.\<close>

theorem openBag_authentic:
  assumes "openBag p bag vk bm = Ok m"
  shows "checkSigEd25519 p (bag_sig bag) (MsgBytes (bag_rlm bag @ bag_headCph bag)) vk
       \<and> bag_rlm bag = bm_rlm bm \<and> length (bag_rlm bag) = 32
       \<and> (\<exists>headEnc h d. bm_decrypt p bm (bag_kdm bag) (bag_headCph bag) = Ok headEnc
            \<and> messageHead_decode (Decoder headEnc) = Ok (h, d)
            \<and> m = msg_with_hash h (msg_bod m) (blake3_hash p headEnc))
       \<and> (case msg_bod m of
            None \<Rightarrow> bag_bodyCph bag = [] \<and> mh_hsh m = None
          | Some b \<Rightarrow> bm_decrypt p bm (bag_kdm bag) (bag_bodyCph bag) = Ok b \<and> mh_hsh m = Some (blake3_hash p b))"
proof -
  from assms obtain headEnc c where g:
    "bagSigValid p bag vk" "bm_rlm bm = bag_rlm bag" "bm_decrypt p bm (bag_kdm bag) (bag_headCph bag) = Ok headEnc"
    "openBagBody p headEnc (Some (bag_bodyCph bag)) (bm_decrypt p bm (bag_kdm bag)) None = Ok c"
    "m = msg_with_hash (ob_msgHead c) (ob_bod c) (ob_headHash c)"
    by (auto simp: openBag_def bytesEqual_eq split: if_splits)
  from g(4) obtain h d where h: "messageHead_decode (Decoder headEnc) = Ok (h, d)" "ob_msgHead c = h"
    "ob_headHash c = blake3_hash p headEnc"
    "case ob_bod c of None \<Rightarrow> bag_bodyCph bag = [] \<and> mh_hsh h = None
     | Some b \<Rightarrow> bm_decrypt p bm (bag_kdm bag) (bag_bodyCph bag) = Ok b \<and> mh_hsh h = Some (blake3_hash p b)"
    by (auto simp: openBagBody_def Let_def bytesEqual_eq split: vs.splits prod.splits if_splits option.splits)
  show ?thesis
    using g h by (auto simp: bagSigValid_iff msg_with_hash_def split: option.splits)
qed

theorem openBag_authentic_witness:
  "\<exists>bag vk m. openBag toy_prims bag vk sample_bm = Ok m \<and> bag_rlm bag = bm_rlm sample_bm
   \<and> (case msg_bod m of
        None \<Rightarrow> bag_bodyCph bag = [] \<and> mh_hsh m = None
      | Some b \<Rightarrow> bm_decrypt toy_prims sample_bm (bag_kdm bag) (bag_bodyCph bag) = Ok b
                  \<and> mh_hsh m = Some (blake3_hash toy_prims b))"
proof -
  have "len_matches (sample_msg (Some [7]))" "msg_bod (sample_msg (Some [7])) \<noteq> Some []"
    by (simp_all add: len_matches_def sample_msg_def)
  then obtain bag vk m where o: "openBag toy_prims bag vk sample_bm = Ok m"
    using sealed_opens [of toy_prims sample_bm "replicate 24 1" "replicate 24 2" "sample_msg (Some [7])"]
    by auto
  show ?thesis using o openBag_authentic [OF o] by blast
qed

text \<open>A message with a present but empty body seals without an error, yet the bag cannot be
  opened: the ciphertext of the empty body decrypts to a body whose hash the head does not
  carry, and \<open>openBag\<close> answers \<open>HashMismatch\<close>.\<close>

theorem empty_body_unopenable:
  assumes "prims_ok p" "bm_ok p bm" "length n1 = 24" "length n2 = 24"
    and "messageHead_ok (sealed_head p msg)" "msg_bod msg = Some []" "mh_len msg = 0"
  shows "\<exists>bag vk. sealBag p n1 n2 msg bm = Ok bag \<and> importVerifyKey p (bm_publicKey bm) = Ok vk
           \<and> openBag p bag vk bm = Err HashMismatch"
proof -
  obtain bag where bag: "sealBag p n1 n2 msg bm = Ok bag" "seals p bm msg bag"
    using sealBag_seals [OF assms(1-5)] by blast
  obtain vk where vk: "importVerifyKey p (bm_publicKey bm) = Ok vk"
      "checkSigEd25519 p (bag_sig bag) (MsgBytes (bag_rlm bag @ bag_headCph bag)) vk"
    using bag(2) by (auto simp: seals_def)
  have "mh_hsh (sealed_head p msg) = None" using assms(6,7) by (simp add: sealed_head_def)
  moreover have "bag_bodyCph bag \<noteq> []" using bag(2) assms(6) by (auto simp: seals_def)
  ultimately have "openBag p bag vk bm = Err HashMismatch"
    using bag(2) vk(2) messageHeadCodec.decode_ok [OF assms(5), of "[]"] assms(2,6)
    by (simp add: openBag_def bagSigValid_iff seals_def bytesEqual_eq openBagBody_def bm_ok_def)
  then show ?thesis using bag(1) vk(1) by blast
qed

theorem empty_body_unopenable_witness:
  "\<exists>bag vk. sealBag toy_prims (replicate 24 1) (replicate 24 2) (sample_msg (Some [])) sample_bm = Ok bag
     \<and> importVerifyKey toy_prims (bm_publicKey sample_bm) = Ok vk
     \<and> openBag toy_prims bag vk sample_bm = Err HashMismatch"
  by (rule empty_body_unopenable) (simp_all, simp_all add: sample_msg_def)

section \<open>Realms are separate\<close>

lemma kdm_wire_inj: "kdm_ok k \<Longrightarrow> kdm_ok k' \<Longrightarrow> kdm_wire k = kdm_wire k' \<Longrightarrow> k = k'"
  using kdmCodec.prefix_free [of k k' "[]" "[]"] by simp

text \<open>C33: a bag of one realm is refused by the manager of another. Two managers of one enclave for the
  same host and different realms have different bag realm ids, provided the two derivations of
  realm ids and of host realm ids do not collide on these inputs; so a bag sealed by one opens
  under the other only as \<open>NotFound\<close>, before anything is decrypted.\<close>

theorem realm_isolation:
  assumes "prims_ok p" "kdm_ok idk" "kdm_ok rk" "kdm_ok rk'" "rk \<noteq> rk'"
    and "bagman p oe idk rk = Ok bm" "bagman p oe idk rk' = Ok bm'"
    and "inj_on (dkey p (ie_seed (oe_inner oe)) RealmID) {kdm_wire rk, kdm_wire rk'}"
    and "inj_on (\<lambda>rid. dkey p rid HostRLM (kdm_wire idk))
           {dkey p (ie_seed (oe_inner oe)) RealmID (kdm_wire rk), dkey p (ie_seed (oe_inner oe)) RealmID (kdm_wire rk')}"
    and "length n1 = 24" "length n2 = 24" "messageHead_ok (sealed_head p msg)"
  shows "\<exists>bag vk. sealBag p n1 n2 msg bm = Ok bag \<and> importVerifyKey p (bm_publicKey bm) = Ok vk
           \<and> openBag p bag vk bm' = Err NotFound"
proof -
  have bm: "bm_ok p bm" by (rule bagman_ok [OF assms(1,2,3,6)])
  obtain bag where bag: "sealBag p n1 n2 msg bm = Ok bag" "seals p bm msg bag"
    using sealBag_seals [OF assms(1) bm assms(10,11,12)] by blast
  obtain vk where vk: "importVerifyKey p (bm_publicKey bm) = Ok vk"
      "checkSigEd25519 p (bag_sig bag) (MsgBytes (bag_rlm bag @ bag_headCph bag)) vk"
    using bag(2) by (auto simp: seals_def)
  have "kdm_wire rk \<noteq> kdm_wire rk'" using kdm_wire_inj [OF assms(3,4)] assms(5) by blast
  then have "bm_rlm bm \<noteq> bm_rlm bm'"
    using assms(6-9) bagman_eq [OF assms(1,2,3), of oe] bagman_eq [OF assms(1,2,4), of oe]
    by (auto simp: Let_def inj_on_def)
  then have "openBag p bag vk bm' = Err NotFound"
    using bag(2) vk(2) bm by (auto simp: openBag_def bagSigValid_iff seals_def bytesEqual_eq bm_ok_def)
  then show ?thesis using bag(1) vk(1) by blast
qed

lemma dkey_toy: "length parent = 32 \<Longrightarrow> dkey toy_prims parent pu b = pad32 (b @ parent)"
  by (simp add: dkey_def toy_prims_def pad32_def)

lemma take_pad32: "k \<le> 32 \<Longrightarrow> k \<le> length b \<Longrightarrow> take k (pad32 (b @ x)) = take k b"
  by (simp add: pad32_def)

theorem realm_isolation_witness:
  "\<exists>bm bm' bag vk. bagman toy_prims \<lparr>oe_inner = \<lparr>ie_seed = replicate 32 5\<rparr>\<rparr> nullKDM nullKDM = Ok bm
     \<and> bagman toy_prims \<lparr>oe_inner = \<lparr>ie_seed = replicate 32 5\<rparr>\<rparr> nullKDM \<lparr>kdm_label = [], kdm_index = 1\<rparr> = Ok bm'
     \<and> sealBag toy_prims (replicate 24 1) (replicate 24 2) (sample_msg None) bm = Ok bag
     \<and> importVerifyKey toy_prims (bm_publicKey bm) = Ok vk \<and> openBag toy_prims bag vk bm' = Err NotFound"
proof -
  let ?oe = "\<lparr>oe_inner = \<lparr>ie_seed = replicate 32 5\<rparr>\<rparr>" and ?k = "\<lparr>kdm_label = [], kdm_index = 1\<rparr>"
  have k: "kdm_ok ?k" by (simp add: kdm_ok_def str_ok_ascii ascii_def short_def is_num_safe)
  obtain bm where bm: "bagman toy_prims ?oe nullKDM nullKDM = Ok bm"
    using bagman_eq [of toy_prims nullKDM nullKDM ?oe] by (simp add: Let_def)
  obtain bm' where bm': "bagman toy_prims ?oe nullKDM ?k = Ok bm'"
    using bagman_eq [of toy_prims nullKDM ?k ?oe] k by (simp add: Let_def)
  let ?s = "replicate 32 5 :: bytes"
  have w: "kdm_wire nullKDM = [0, 0]" "kdm_wire ?k = [0, 1]" by code_simp+
  have d: "dkey toy_prims ?s RealmID (kdm_wire nullKDM) \<noteq> dkey toy_prims ?s RealmID (kdm_wire ?k)"
  proof
    assume "dkey toy_prims ?s RealmID (kdm_wire nullKDM) = dkey toy_prims ?s RealmID (kdm_wire ?k)"
    then have "take 2 (pad32 ([0, 0] @ ?s)) = take 2 (pad32 ([0, 1] @ ?s))" by (simp add: w dkey_toy)
    then show False unfolding pad32_def by simp
  qed
  have d': "dkey toy_prims (dkey toy_prims (replicate 32 5) RealmID (kdm_wire nullKDM)) HostRLM (kdm_wire nullKDM)
           \<noteq> dkey toy_prims (dkey toy_prims (replicate 32 5) RealmID (kdm_wire ?k)) HostRLM (kdm_wire nullKDM)"
  proof
    assume "dkey toy_prims (dkey toy_prims ?s RealmID (kdm_wire nullKDM)) HostRLM (kdm_wire nullKDM)
           = dkey toy_prims (dkey toy_prims ?s RealmID (kdm_wire ?k)) HostRLM (kdm_wire nullKDM)"
    then have "pad32 ([0, 0] @ pad32 ([0, 0] @ ?s)) = pad32 ([0, 0] @ pad32 ([0, 1] @ ?s))"
      by (simp add: w dkey_toy)
    then have "take 2 (drop 2 (pad32 ([0, 0] @ pad32 ([0, 0] @ ?s)))) =
               take 2 (drop 2 (pad32 ([0, 0] @ pad32 ([0, 1] @ ?s))))" by (rule arg_cong)
    then show False unfolding pad32_def by simp
  qed
  have "\<exists>bag vk. sealBag toy_prims (replicate 24 1) (replicate 24 2) (sample_msg None) bm = Ok bag
     \<and> importVerifyKey toy_prims (bm_publicKey bm) = Ok vk \<and> openBag toy_prims bag vk bm' = Err NotFound"
  proof (rule realm_isolation)
    show "nullKDM \<noteq> ?k" by (simp add: nullKDM_def)
    show "bagman toy_prims ?oe nullKDM nullKDM = Ok bm" "bagman toy_prims ?oe nullKDM ?k = Ok bm'" by fact+
    show "inj_on (dkey toy_prims (ie_seed (oe_inner ?oe)) RealmID) {kdm_wire nullKDM, kdm_wire ?k}"
      using d by (auto simp: inj_on_def)
    show "inj_on (\<lambda>rid. dkey toy_prims rid HostRLM (kdm_wire nullKDM))
       {dkey toy_prims (ie_seed (oe_inner ?oe)) RealmID (kdm_wire nullKDM),
        dkey toy_prims (ie_seed (oe_inner ?oe)) RealmID (kdm_wire ?k)}"
      using d' by (auto simp: inj_on_def)
  qed (simp_all add: k)
  then show ?thesis using bm bm' by blast
qed

section \<open>Blob messages\<close>

lemma encodeEnt_ok: "ent_ok ent \<Longrightarrow> encodeEnt ent = Ok (ent_wire ent)"
  by (simp add: encodeEnt_def encode_with_emits [OF emits_ent])

lemma openBlob_wire: "ent_ok ent \<Longrightarrow> openBlob (ent_wire ent) = Ok ent"
  using ent_decode_wire [of ent] by (auto simp: openBlob_def)

lemma ent_wire_ne [simp]: "ent_wire ent \<noteq> []"
  by (simp add: ent_wire_def)

lemma mimeOf_blobTyp: "mimeOf (Some (blobTyp mime)) = (if mime = [] then None else Some mime)"
  by (simp add: mimeOf_def isBlobTyp_def startsWith_def blobTyp_def Let_def)

lemma isBlobTyp_blobTyp [simp]: "isBlobTyp (Some (blobTyp mime))"
  by (simp add: isBlobTyp_def startsWith_def blobTyp_def)

lemma some_tags_idem [simp]: "some_tags (some_tags ts) = some_tags ts"
  by (auto simp: some_tags_def split: option.splits)

lemma entFromUpdate_none: "entFromUpdate (entOf opts b) b' None = entOf opts b'"
  by (auto simp: entFromUpdate_def entOf_def some_tags_def split: option.splits)

lemma ent_ok_entOf: "ent_ok (entOf opts b) \<Longrightarrow> ent_ok (entOf opts b')"
  by (auto simp: ent_ok_def entOf_def)

text \<open>Blobs are kept byte for byte. A blob message carries the mime type it was inserted with and
  gives back exactly the inserted bytes; replacing the bytes without options keeps mime, parent
  and tags, and the prior revision of the update is the archived message's. An empty mime is
  rejected.\<close>

theorem blob_insert_update:
  assumes "ent_ok (entOf opts b)" "insertBlobMsg mime b opts = r"
    and "mh_typ prev = Some (blobTyp mime)" "msg_bod prev = Some (ent_wire (entOf opts b))"
    and "revOf (head_of prev) = Ok prior"
  shows "if mime = [] then r = Err InvalidParam
         else r = Ok (blobTyp mime, ent_wire (entOf opts b))
            \<and> mimeOf (mh_typ prev) = Some mime \<and> blobBytes (Some prev) = Ok b
            \<and> (\<exists>bod. updateBlobMsg (Some prev) b' None = Ok (blobTyp mime, bod, prior)
                 \<and> openBlob bod = Ok (entOf opts b'))"
proof (cases "mime = []")
  case True
  then show ?thesis using assms(2) by (auto simp: insertBlobMsg_def)
next
  case False
  have o: "openBlob (ent_wire (entOf opts b)) = Ok (entOf opts b)" by (rule openBlob_wire [OF assms(1)])
  have b: "(case eb_body (entOf opts b) of None \<Rightarrow> [] | Some x \<Rightarrow> x) = b" by (simp add: entOf_def)
  have k: "ent_ok (entOf opts b')" by (rule ent_ok_entOf [OF assms(1)])
  have "updateBlobMsg (Some prev) b' None = Ok (blobTyp mime, ent_wire (entOf opts b'), prior)"
    using False assms(3-5) o k
    by (simp add: updateBlobMsg_def mimeOf_blobTyp entFromUpdate_none encodeEnt_ok Let_def)
  then show ?thesis
    using False assms o b openBlob_wire [OF k]
    by (auto simp: insertBlobMsg_def encodeEnt_ok mimeOf_blobTyp blobBytes_def)
qed

theorem blob_insert_update_witness:
  "insertBlobMsg [65] [7, 8] None = Ok (blobTyp [65], ent_wire (entOf None [7, 8]))
   \<and> blobBytes (Some (sample_msg (Some (ent_wire (entOf None [7, 8]))) \<lparr>mh_typ := Some (blobTyp [65])\<rparr>)) = Ok [7, 8]"
proof -
  let ?m = "sample_msg (Some (ent_wire (entOf None [7, 8]))) \<lparr>mh_typ := Some (blobTyp [65])\<rparr>"
  have k: "ent_ok (entOf None [7, 8])" by (simp add: ent_ok_def entOf_def)
  have "eid_readable [1, 5, 0]" by code_simp
  then have "\<exists>pr. revOf (head_of ?m) = Ok pr"
    by (auto simp: sample_msg_def head_of_def revOf_def eid_readable_def split: vs.splits)
  then obtain pr where r: "revOf (head_of ?m) = Ok pr" by blast
  show ?thesis
    using blob_insert_update [OF k refl _ _ r, of "[65]"] by (simp add: sample_msg_def)
qed

end
