(* ===== verification/HostStorage.thy ===== *)
theory HostStorage
  imports Bag
begin

text \<open>
  Host storage. \<open>IStorage\<close> (\<^verbatim>\<open>shared/types.ts\<close>) is a record of operations on a state;
  \<^verbatim>\<open>shared/storage/memory.ts\<close> is one such record. The contract of the interface is the
  locale \<open>bag_storage\<close>: per user and realm an append-only log of bags, numbered from 1. The
  memory storage is shown to satisfy it.
\<close>

section \<open>The interface (types.ts)\<close>

datatype ISetBagResult = SetBag int | SetBagFailed status

record 's IStorage =
  st_addUser :: "bytes \<Rightarrow> 's \<Rightarrow> 's \<times> unit vs"
  st_hasUser :: "bytes \<Rightarrow> 's \<Rightarrow> bool vs"
  st_subMeta :: "bytes \<Rightarrow> 's \<Rightarrow> ISubscriptionMetadata vs"
  st_setBags :: "bytes \<Rightarrow> IBag list \<Rightarrow> 's \<Rightarrow> 's \<times> ISetBagResult list vs"
  st_getBodies :: "bytes \<Rightarrow> bytes \<Rightarrow> int list \<Rightarrow> 's \<Rightarrow> (int \<times> bytes) list vs"
  st_listHeads :: "bytes \<Rightarrow> bytes \<Rightarrow> int \<Rightarrow> 's \<Rightarrow> IBagPeekItem list vs"

definition nullSubMeta :: ISubscriptionMetadata where
  "nullSubMeta = \<lparr>sub_term = 0, sub_elapsed = 0, sub_stat = \<lparr>uq_quota = 0, uq_usage = None\<rparr>,
                  sub_dyn = \<lparr>uq_quota = 0, uq_usage = None\<rparr>\<rparr>"

section \<open>The memory storage (storage/memory.ts)\<close>

record stored_bag =
  sb_headCph :: bytes
  sb_bodyCph :: bytes

type_synonym realm_bags = "(int, stored_bag) jsmap"
type_synonym user_bags = "(jsstr, realm_bags) jsmap"

record MemoryStorage =
  ms_users :: "jsstr list"
  ms_bag :: "(jsstr, user_bags) jsmap"

definition createMemoryStorage :: MemoryStorage where
  "createMemoryStorage = \<lparr>ms_users = [], ms_bag = []\<rparr>"

definition mem_addUser :: "bytes \<Rightarrow> MemoryStorage \<Rightarrow> MemoryStorage \<times> unit vs" where
  "mem_addUser pubKey s = (s\<lparr>ms_users := set_add (btoh pubKey) (ms_users s)\<rparr>, Ok ())"

definition mem_hasUser :: "bytes \<Rightarrow> MemoryStorage \<Rightarrow> bool vs" where
  "mem_hasUser pubKey s = Ok (btoh pubKey \<in> set (ms_users s))"

definition mem_subMeta :: "bytes \<Rightarrow> MemoryStorage \<Rightarrow> ISubscriptionMetadata vs" where
  "mem_subMeta pubKey s = Ok nullSubMeta"

text \<open>\<open>writeStruct(peekItemHeadCodec, bag)\<close>: the fields of the bag that the codec reads.\<close>

definition bag_peekHead :: "IBag \<Rightarrow> IBagPeekItemHead" where
  "bag_peekHead b = \<lparr>ph_sig = bag_sig b, ph_kdm = bag_kdm b, ph_headCph = bag_headCph b\<rparr>"

definition max_seq :: "realm_bags \<Rightarrow> int" where
  "max_seq realm = foldl (\<lambda>m (seq, _). if seq > m then seq else m) 0 realm"

fun setBags_loop ::
    "IBag list \<Rightarrow> (jsstr, int) jsmap \<Rightarrow> user_bags \<Rightarrow> ISetBagResult list \<Rightarrow> user_bags \<times> ISetBagResult list vs" where
  "setBags_loop [] maxBy userBags out = (userBags, Ok out)"
| "setBags_loop (bag # bags) maxBy userBags out =
     (if length (bag_rlm bag) \<noteq> hashBytes then
        setBags_loop bags maxBy userBags (out @ [SetBagFailed InvalidParam])
      else
        let rlmHex = btoh (bag_rlm bag);
            userBags = (if map_has userBags rlmHex then userBags else map_set rlmHex [] userBags);
            realm = the (map_get userBags rlmHex);
            mx = (case map_get maxBy rlmHex of Some m \<Rightarrow> m | None \<Rightarrow> max_seq realm) + 1;
            maxBy = map_set rlmHex mx maxBy
        in case encode_with (\<lambda>e. peekItemHead_encode e (bag_peekHead bag)) of
             Ok headCph \<Rightarrow>
               setBags_loop bags maxBy
                 (map_set rlmHex (map_set mx \<lparr>sb_headCph = headCph, sb_bodyCph = bag_bodyCph bag\<rparr> realm) userBags)
                 (out @ [SetBag mx])
           | Err s \<Rightarrow> (userBags, Err s)
           | Throw \<Rightarrow> (userBags, Throw)
           | Hang \<Rightarrow> (userBags, Hang))"

definition mem_setBags :: "bytes \<Rightarrow> IBag list \<Rightarrow> MemoryStorage \<Rightarrow> MemoryStorage \<times> ISetBagResult list vs" where
  "mem_setBags pubKey bags s =
     (if length bags < 1 then (s, Ok [])
      else
        let pubKeyHex = btoh pubKey;
            userBags = (case map_get (ms_bag s) pubKeyHex of Some u \<Rightarrow> u | None \<Rightarrow> [])
        in case setBags_loop bags [] userBags [] of
             (userBags, r) \<Rightarrow> (s\<lparr>ms_bag := map_set pubKeyHex userBags (ms_bag s)\<rparr>, r))"

definition mem_realm :: "bytes \<Rightarrow> bytes \<Rightarrow> MemoryStorage \<Rightarrow> realm_bags option" where
  "mem_realm pubKey rlm s =
     (case map_get (ms_bag s) (btoh pubKey) of None \<Rightarrow> None | Some u \<Rightarrow> map_get u (btoh rlm))"

definition mem_getBodies :: "bytes \<Rightarrow> bytes \<Rightarrow> int list \<Rightarrow> MemoryStorage \<Rightarrow> (int \<times> bytes) list vs" where
  "mem_getBodies pubKey rlm seqs s =
     (if length rlm \<noteq> hashBytes then Err InvalidParam
      else if length seqs < 1 then Ok []
      else case mem_realm pubKey rlm s of
             None \<Rightarrow> Ok []
           | Some realm \<Rightarrow>
               Ok (List.map_filter (\<lambda>seq. map_option (\<lambda>item. (seq, sb_bodyCph item)) (map_get realm seq)) seqs))"

definition mem_listHeads :: "bytes \<Rightarrow> bytes \<Rightarrow> int \<Rightarrow> MemoryStorage \<Rightarrow> IBagPeekItem list vs" where
  "mem_listHeads pubKey rlm minSeq s =
     (if length rlm \<noteq> hashBytes then Err InvalidParam
      else
        let list = (case mem_realm pubKey rlm s of
                      None \<Rightarrow> []
                    | Some realm \<Rightarrow>
                        map (\<lambda>(seq, item). \<lparr>pk_seq = seq, pk_headCph = sb_headCph item\<rparr>)
                          (filter (\<lambda>(seq, item). seq > minSeq) realm))
        in Ok (js_sort (\<lambda>a b. pk_seq a - pk_seq b) list))"

definition memStorage :: "MemoryStorage IStorage" where
  "memStorage =
     \<lparr>st_addUser = mem_addUser, st_hasUser = mem_hasUser, st_subMeta = mem_subMeta,
      st_setBags = mem_setBags, st_getBodies = mem_getBodies, st_listHeads = mem_listHeads\<rparr>"

section \<open>The contract of a storage\<close>

text \<open>A log numbered from 1, and what the three bag operations return on it.\<close>

definition numbered :: "'a list \<Rightarrow> (int \<times> 'a) list" where
  "numbered l = zip (map int [1..<Suc (length l)]) l"

definition heads_after :: "int \<Rightarrow> stored_bag list \<Rightarrow> IBagPeekItem list" where
  "heads_after m l =
     map (\<lambda>(q, b). \<lparr>pk_seq = q, pk_headCph = sb_headCph b\<rparr>) (filter (\<lambda>(q, _). m < q) (numbered l))"

definition bodies_at :: "int list \<Rightarrow> stored_bag list \<Rightarrow> (int \<times> bytes) list" where
  "bodies_at seqs l =
     List.map_filter (\<lambda>q. map_option (\<lambda>b. (q, sb_bodyCph b)) (map_of (numbered l) q)) seqs"

definition entry_of :: "IBag \<Rightarrow> stored_bag" where
  "entry_of b = \<lparr>sb_headCph = peekItemHead_wire (bag_peekHead b), sb_bodyCph = bag_bodyCph b\<rparr>"

definition valid_rlm :: "bytes \<Rightarrow> bool" where
  "valid_rlm rlm = (length rlm = 32)"

definition appended :: "bytes \<Rightarrow> IBag list \<Rightarrow> stored_bag list" where
  "appended rlm bags = map entry_of (filter (\<lambda>b. valid_rlm (bag_rlm b) \<and> bag_rlm b = rlm) bags)"

fun set_results :: "(bytes \<Rightarrow> nat) \<Rightarrow> IBag list \<Rightarrow> ISetBagResult list" where
  "set_results n [] = []"
| "set_results n (b # bs) =
     (if valid_rlm (bag_rlm b) then SetBag (int (n (bag_rlm b)) + 1) # set_results (n(bag_rlm b := n (bag_rlm b) + 1)) bs
      else SetBagFailed InvalidParam # set_results n bs)"

definition storable :: "IBag \<Rightarrow> bool" where
  "storable b = short (peekItemHead_wire (bag_peekHead b))"

locale bag_storage =
  fixes S :: "'s IStorage"
    and inv :: "'s \<Rightarrow> bool"
    and registered :: "'s \<Rightarrow> bytes \<Rightarrow> bool"
    and log :: "'s \<Rightarrow> bytes \<Rightarrow> bytes \<Rightarrow> stored_bag list"
  assumes add_user:
      "inv s \<Longrightarrow> \<exists>s'. st_addUser S pk s = (s', Ok ()) \<and> inv s' \<and> log s' = log s
                 \<and> (\<forall>pk'. registered s' pk' = (pk' = pk \<or> registered s pk'))"
    and has_user: "inv s \<Longrightarrow> st_hasUser S pk s = Ok (registered s pk)"
    and set_bags:
      "inv s \<Longrightarrow> list_all storable bags \<Longrightarrow>
         \<exists>s'. st_setBags S pk bags s = (s', Ok (set_results (\<lambda>rlm. length (log s pk rlm)) bags))
            \<and> inv s' \<and> registered s' = registered s
            \<and> (\<forall>pk' rlm. log s' pk' rlm = log s pk' rlm @ (if pk' = pk then appended rlm bags else []))"
    and set_bags_any:
      "inv s \<Longrightarrow> st_setBags S pk bags s = (s', r) \<Longrightarrow>
         inv s' \<and> registered s' = registered s
         \<and> (\<exists>n. \<forall>pk' rlm. log s' pk' rlm = log s pk' rlm @ (if pk' = pk then appended rlm (take n bags) else []))"
    and get_bodies: "inv s \<Longrightarrow> valid_rlm rlm \<Longrightarrow> st_getBodies S pk rlm seqs s = Ok (bodies_at seqs (log s pk rlm))"
    and list_heads: "inv s \<Longrightarrow> valid_rlm rlm \<Longrightarrow> st_listHeads S pk rlm m s = Ok (heads_after m (log s pk rlm))"
begin

text \<open>Results of a batch: one per bag, and the numbers given out in one realm are consecutive.\<close>

lemma set_results_length [simp]: "length (set_results n bags) = length bags"
  by (induction bags arbitrary: n) auto

end

section \<open>The memory storage keeps the contract\<close>

lemma numbered_Nil [simp]: "numbered [] = []"
  by (simp add: numbered_def)

lemma numbered_snoc: "numbered (l @ [x]) = numbered l @ [(int (length l) + 1, x)]"
proof -
  have "[1..<Suc (length (l @ [x]))] = [1..<Suc (length l)] @ [Suc (length l)]" by simp
  then show ?thesis unfolding numbered_def by (simp add: add.commute del: upt_Suc)
qed

lemma map_fst_numbered: "map fst (numbered l) = map int [1..<Suc (length l)]"
  by (simp add: numbered_def del: upt_Suc)

lemma map_snd_numbered [simp]: "map snd (numbered l) = l"
  by (simp add: numbered_def del: upt_Suc)

lemma distinct_numbered: "distinct (map fst (numbered l))"
  by (simp add: map_fst_numbered distinct_map inj_on_def del: upt_Suc)

lemma sorted_numbered: "sorted_wrt (<) (map fst (numbered l))"
  by (simp add: map_fst_numbered sorted_wrt_map del: upt_Suc)

lemma map_of_numbered:
  "map_of (numbered l) q = (if 1 \<le> q \<and> q \<le> int (length l) then Some (l ! nat (q - 1)) else None)"
proof (induction l rule: rev_induct)
  case (snoc x l)
  have f: "q \<notin> fst ` set (numbered l)" if "q = int (length l) + 1"
    using that arg_cong [OF map_fst_numbered [of l], of set] by auto
  show ?case
    by (auto simp: numbered_snoc snoc map_add_def nth_append split: option.splits)
qed simp

definition realm_ok :: "realm_bags \<Rightarrow> bool" where
  "realm_ok r = (r = numbered (map snd r))"

definition user_ok :: "user_bags \<Rightarrow> bool" where
  "user_ok u = (\<forall>h r. map_get u h = Some r \<longrightarrow> realm_ok r)"

definition ms_inv :: "MemoryStorage \<Rightarrow> bool" where
  "ms_inv s = (\<forall>h u. map_get (ms_bag s) h = Some u \<longrightarrow> user_ok u)"

definition user_log :: "user_bags \<Rightarrow> bytes \<Rightarrow> stored_bag list" where
  "user_log u rlm = (case map_get u (btoh rlm) of None \<Rightarrow> [] | Some r \<Rightarrow> map snd r)"

definition mem_log :: "MemoryStorage \<Rightarrow> bytes \<Rightarrow> bytes \<Rightarrow> stored_bag list" where
  "mem_log s pubKey rlm =
     (case map_get (ms_bag s) (btoh pubKey) of None \<Rightarrow> [] | Some u \<Rightarrow> user_log u rlm)"

definition mem_registered :: "MemoryStorage \<Rightarrow> bytes \<Rightarrow> bool" where
  "mem_registered s pubKey = (btoh pubKey \<in> set (ms_users s))"

lemma btoh_eq [simp]: "(btoh a = btoh b) = (a = b)"
  using btoh_inj by blast

lemma realm_ok_Nil [simp]: "realm_ok []"
  by (simp add: realm_ok_def)

lemma max_seq_numbered: "max_seq (numbered l) = int (length l)"
  by (induction l rule: rev_induct) (simp_all add: max_seq_def numbered_snoc)

lemma max_seq_ok: "realm_ok r \<Longrightarrow> max_seq r = int (length r)"
  using max_seq_numbered [of "map snd r"] by (simp add: realm_ok_def)

lemma update_fresh: "k \<notin> fst ` set m \<Longrightarrow> map_set k v m = m @ [(k, v)]"
  by (induction m) auto

lemma realm_append:
  assumes "realm_ok r"
  shows "map_set (int (length r) + 1) x r = r @ [(int (length r) + 1, x)]"
    and "realm_ok (r @ [(int (length r) + 1, x)])"
proof -
  have k: "map fst r = map int [1..<Suc (length r)]"
    using assms map_fst_numbered [of "map snd r"] by (simp add: realm_ok_def del: upt_Suc)
  have "int (length r) + 1 \<notin> fst ` set r"
    using arg_cong [OF k, of set] by (auto simp del: upt_Suc)
  then show "map_set (int (length r) + 1) x r = r @ [(int (length r) + 1, x)]" by (rule update_fresh)
  show "realm_ok (r @ [(int (length r) + 1, x)])"
    using assms by (simp add: realm_ok_def numbered_snoc)
qed

lemma storable_short: "storable b \<Longrightarrow> short (bag_headCph b)"
  by (simp add: storable_def short_def peekItemHead_wire_def varbytes_wire_def bag_peekHead_def)

lemma peekHead_encodes:
  "storable b \<Longrightarrow> encode_with (\<lambda>e. peekItemHead_encode e (bag_peekHead b)) = Ok (peekItemHead_wire (bag_peekHead b))"
  unfolding peekItemHead_encode_def peekItemHead_wire_def
  by (intro encode_with_emits emits_then emits_writeBytes emits_writeVarBytes)
     (simp add: storable_short bag_peekHead_def)

text \<open>The largest number already given out in a batch is the length of the realm.\<close>

definition max_ok :: "(jsstr, int) jsmap \<Rightarrow> user_bags \<Rightarrow> bool" where
  "max_ok maxBy u = (\<forall>h m. map_get maxBy h = Some m \<longrightarrow> (\<exists>r. map_get u h = Some r \<and> m = int (length r)))"

lemma user_ok_set: "user_ok u \<Longrightarrow> realm_ok r \<Longrightarrow> user_ok (map_set h r u)"
  by (auto simp: user_ok_def)

text \<open>One bag with a valid realm id: the realm it goes to, before and after.\<close>

lemma setBags_loop_valid:
  assumes "valid_rlm (bag_rlm b)" "user_ok u" "max_ok maxBy u"
    and "encode_with (\<lambda>e. peekItemHead_encode e (bag_peekHead b)) = Ok hc"
  obtains u' maxBy' where
    "setBags_loop (b # bs) maxBy u out =
       setBags_loop bs maxBy' u' (out @ [SetBag (int (length (user_log u (bag_rlm b))) + 1)])"
    "user_ok u'" "max_ok maxBy' u'"
    "\<And>rlm. user_log u' rlm = user_log u rlm @
       (if rlm = bag_rlm b then [\<lparr>sb_headCph = hc, sb_bodyCph = bag_bodyCph b\<rparr>] else [])"
proof -
  let ?h = "btoh (bag_rlm b)" and ?x = "\<lparr>sb_headCph = hc, sb_bodyCph = bag_bodyCph b\<rparr>"
  let ?u1 = "if map_has u ?h then u else map_set ?h [] u"
  let ?r = "the (map_get ?u1 ?h)"
  let ?n = "int (length ?r)"
  have u1: "user_ok ?u1" using assms(2) user_ok_set [OF assms(2) realm_ok_Nil] by simp
  have g: "map_get ?u1 ?h = Some ?r" by auto
  have r: "realm_ok ?r" using u1 g unfolding user_ok_def by blast
  have len: "length ?r = length (user_log u (bag_rlm b))" by (auto simp: user_log_def)
  have mx: "(case map_get maxBy ?h of Some m \<Rightarrow> m | None \<Rightarrow> max_seq ?r) = ?n"
    using assms(3) max_seq_ok [OF r] by (fastforce simp: max_ok_def split: option.splits)
  let ?u' = "map_set ?h (?r @ [(?n + 1, ?x)]) ?u1"
  let ?m' = "map_set ?h (?n + 1) maxBy"
  have l: "length (bag_rlm b) = hashBytes" using assms(1) by (simp add: valid_rlm_def hashBytes_def)
  show ?thesis
  proof (rule that [of ?m' ?u'])
    show "setBags_loop (b # bs) maxBy u out =
        setBags_loop bs ?m' ?u' (out @ [SetBag (int (length (user_log u (bag_rlm b))) + 1)])"
      using mx realm_append(1) [OF r, of ?x] unfolding len [symmetric]
      by (cases "map_has u ?h") (simp_all add: Let_def l assms(4) del: not_None_eq)
    show "user_ok ?u'" by (rule user_ok_set [OF u1 realm_append(2) [OF r]])
    show "max_ok ?m' ?u'" using assms(3) by (auto simp: max_ok_def)
    show "user_log ?u' rlm = user_log u rlm @ (if rlm = bag_rlm b then [?x] else [])" for rlm
      by (auto simp: user_log_def)
  qed
qed

lemma setBags_loop_ok:
  "user_ok u \<Longrightarrow> max_ok maxBy u \<Longrightarrow> list_all storable bags \<Longrightarrow>
   \<exists>u'. setBags_loop bags maxBy u out = (u', Ok (out @ set_results (\<lambda>rlm. length (user_log u rlm)) bags))
      \<and> user_ok u' \<and> (\<forall>rlm. user_log u' rlm = user_log u rlm @ appended rlm bags)"
proof (induction bags arbitrary: maxBy u out)
  case (Cons b bs)
  show ?case
  proof (cases "valid_rlm (bag_rlm b)")
    case True
    let ?o = "out @ [SetBag (int (length (user_log u (bag_rlm b))) + 1)]"
    have st: "storable b" "list_all storable bs" using Cons.prems(3) by auto
    obtain u1 m1 where s: "setBags_loop (b # bs) maxBy u out = setBags_loop bs m1 u1 ?o"
      "user_ok u1" "max_ok m1 u1"
      "\<And>rlm. user_log u1 rlm = user_log u rlm @ (if rlm = bag_rlm b then [entry_of b] else [])"
      using setBags_loop_valid [OF True Cons.prems(1,2) peekHead_encodes [OF st(1)], of bs out]
      unfolding entry_of_def by metis
    have f: "(\<lambda>rlm. length (user_log u1 rlm)) =
        (\<lambda>rlm. length (user_log u rlm))(bag_rlm b := length (user_log u (bag_rlm b)) + 1)"
      by (auto simp: s(4))
    show ?thesis
      using Cons.IH [OF s(2,3) st(2), of ?o] True unfolding s(1) f by (auto simp: s(4) appended_def)
  next
    case False
    then show ?thesis
      using Cons.IH [OF Cons.prems(1,2), of "out @ [SetBagFailed InvalidParam]"] Cons.prems(3)
      by (auto simp: appended_def valid_rlm_def hashBytes_def)
  qed
qed (simp add: appended_def)

lemma peekHead_encoded:
  "encode_with (\<lambda>e. peekItemHead_encode e x) = Ok h \<Longrightarrow> h = peekItemHead_wire x"
  by (auto simp: encode_with_def peekItemHead_encode_def peekItemHead_wire_def writeBytes_def writeVarBytes_def
      writeVarInt_def Encoder_def enc_result_def varbytes_wire_def encodeVarInt_eq split: vs.splits if_splits)

text \<open>A batch that fails on a bag keeps the bags before it.\<close>

lemma setBags_loop_any:
  "user_ok u \<Longrightarrow> max_ok maxBy u \<Longrightarrow> setBags_loop bags maxBy u out = (u', r) \<Longrightarrow>
   user_ok u' \<and> (\<exists>n. \<forall>rlm. user_log u' rlm = user_log u rlm @ appended rlm (take n bags))"
proof (induction bags arbitrary: maxBy u out)
  case (Cons b bs)
  show ?case
  proof (cases "valid_rlm (bag_rlm b)")
    case True
    let ?u1 = "if map_has u (btoh (bag_rlm b)) then u else map_set (btoh (bag_rlm b)) [] u"
    have e: "user_ok ?u1" "user_log ?u1 = user_log u"
      using Cons.prems(1) user_ok_set [OF Cons.prems(1) realm_ok_Nil]
      by (auto simp: user_log_def fun_eq_iff split: option.splits)
    show ?thesis
    proof (cases "encode_with (\<lambda>e. peekItemHead_encode e (bag_peekHead b))")
      case (Ok hc)
      have hc: "\<lparr>sb_headCph = hc, sb_bodyCph = bag_bodyCph b\<rparr> = entry_of b"
        using peekHead_encoded [OF Ok] by (simp add: entry_of_def)
      obtain u1 m1 where s: "setBags_loop (b # bs) maxBy u out =
            setBags_loop bs m1 u1 (out @ [SetBag (int (length (user_log u (bag_rlm b))) + 1)])"
        "user_ok u1" "max_ok m1 u1"
        "\<And>rlm. user_log u1 rlm = user_log u rlm @ (if rlm = bag_rlm b then [entry_of b] else [])"
        using setBags_loop_valid [OF True Cons.prems(1,2) Ok, of bs out] unfolding hc by metis
      obtain n where n: "user_ok u'" "\<forall>rlm. user_log u' rlm = user_log u1 rlm @ appended rlm (take n bs)"
        using Cons.IH [OF s(2,3)] Cons.prems(3) unfolding s(1) by metis
      then have "\<forall>rlm. user_log u' rlm = user_log u rlm @ appended rlm (take (Suc n) (b # bs))"
        using True by (simp add: s(4) appended_def)
      then show ?thesis using n(1) by metis
    qed (use True Cons.prems e in
        \<open>auto simp: Let_def valid_rlm_def hashBytes_def appended_def split: if_splits intro!: exI [of _ 0]\<close>)
  next
    case False
    then obtain n where n: "user_ok u'" "\<forall>rlm. user_log u' rlm = user_log u rlm @ appended rlm (take n bs)"
      using Cons.IH [OF Cons.prems(1,2)] Cons.prems(3) by (auto simp: valid_rlm_def hashBytes_def)
    then have "\<forall>rlm. user_log u' rlm = user_log u rlm @ appended rlm (take (Suc n) (b # bs))"
      using False by (simp add: appended_def)
    then show ?thesis using n(1) by metis
  qed
qed (auto simp: appended_def)

lemma mem_realm_log: "mem_log s pk rlm = (case mem_realm pk rlm s of None \<Rightarrow> [] | Some r \<Rightarrow> map snd r)"
  by (auto simp: mem_log_def mem_realm_def user_log_def split: option.splits)

lemma mem_realm_ok: "ms_inv s \<Longrightarrow> mem_realm pk rlm s = Some r \<Longrightarrow> realm_ok r"
  by (auto simp: mem_realm_def ms_inv_def user_ok_def split: option.splits)

lemma mem_realm_numbered: "ms_inv s \<Longrightarrow> mem_realm pk rlm s = Some r \<Longrightarrow> r = numbered (mem_log s pk rlm)"
  using mem_realm_ok [of s pk rlm r] by (simp add: mem_realm_log realm_ok_def)

lemma user_ok_get: "ms_inv s \<Longrightarrow> user_ok (case map_get (ms_bag s) h of Some u \<Rightarrow> u | None \<Rightarrow> [])"
  by (auto simp: ms_inv_def user_ok_def split: option.splits)

lemma max_ok_Nil [simp]: "max_ok [] u"
  by (simp add: max_ok_def)

lemma ms_inv_set: "ms_inv s \<Longrightarrow> user_ok u \<Longrightarrow> ms_inv (s\<lparr>ms_bag := map_set h u (ms_bag s)\<rparr>)"
  by (auto simp: ms_inv_def)

lemma mem_setBags_ok:
  assumes "ms_inv s" "list_all storable bags"
  shows "\<exists>s'. mem_setBags pk bags s = (s', Ok (set_results (\<lambda>rlm. length (mem_log s pk rlm)) bags))
            \<and> ms_inv s' \<and> mem_registered s' = mem_registered s
            \<and> (\<forall>pk' rlm. mem_log s' pk' rlm = mem_log s pk' rlm @ (if pk' = pk then appended rlm bags else []))"
proof (cases "bags = []")
  case False
  let ?h = "btoh pk"
  let ?u = "case map_get (ms_bag s) ?h of Some u \<Rightarrow> u | None \<Rightarrow> []"
  have l: "user_log ?u rlm = mem_log s pk rlm" for rlm
    by (simp add: mem_log_def user_log_def split: option.splits)
  obtain u' where u': "setBags_loop bags [] ?u [] = (u', Ok (set_results (\<lambda>rlm. length (mem_log s pk rlm)) bags))"
      "user_ok u'" "\<forall>rlm. user_log u' rlm = mem_log s pk rlm @ appended rlm bags"
    using setBags_loop_ok [OF user_ok_get [OF assms(1)] max_ok_Nil assms(2), of ?h "[]"]
    unfolding l by auto
  let ?s' = "s\<lparr>ms_bag := map_set ?h u' (ms_bag s)\<rparr>"
  show ?thesis
  proof (intro exI conjI allI)
    show "mem_setBags pk bags s = (?s', Ok (set_results (\<lambda>rlm. length (mem_log s pk rlm)) bags))"
      using u'(1) False by (simp add: mem_setBags_def Let_def Suc_le_eq)
    show "ms_inv ?s'" by (rule ms_inv_set [OF assms(1) u'(2)])
    show "mem_registered ?s' = mem_registered s" by (simp add: mem_registered_def fun_eq_iff)
    show "mem_log ?s' pk' rlm = mem_log s pk' rlm @ (if pk' = pk then appended rlm bags else [])" for pk' rlm
      using u'(3) by (simp add: mem_log_def)
  qed
qed (use assms in \<open>simp add: mem_setBags_def appended_def\<close>)

lemma mem_setBags_any:
  assumes "ms_inv s" "mem_setBags pk bags s = (s', r)"
  shows "ms_inv s' \<and> mem_registered s' = mem_registered s
         \<and> (\<exists>n. \<forall>pk' rlm. mem_log s' pk' rlm = mem_log s pk' rlm @ (if pk' = pk then appended rlm (take n bags) else []))"
proof (cases "bags = []")
  case False
  let ?u = "case map_get (ms_bag s) (btoh pk) of Some u \<Rightarrow> u | None \<Rightarrow> []"
  have l: "user_log ?u rlm = mem_log s pk rlm" for rlm
    by (simp add: mem_log_def user_log_def split: option.splits)
  obtain u' r' where u': "setBags_loop bags [] ?u [] = (u', r')" by (cases "setBags_loop bags [] ?u []")
  have s': "s' = s\<lparr>ms_bag := map_set (btoh pk) u' (ms_bag s)\<rparr>"
    using assms(2) False u' by (simp add: mem_setBags_def Let_def Suc_le_eq)
  obtain n where "user_ok u'" "\<forall>rlm. user_log u' rlm = mem_log s pk rlm @ appended rlm (take n bags)"
    using setBags_loop_any [OF user_ok_get [OF assms(1)] max_ok_Nil u'] unfolding l by blast
  then show ?thesis
    using ms_inv_set [OF assms(1)] by (auto simp: s' mem_registered_def mem_log_def fun_eq_iff)
qed (use assms in \<open>auto simp: mem_setBags_def appended_def\<close>)

text \<open>The list is already in order of sequence numbers, so the sort of \<open>listHeads\<close> keeps it.\<close>

lemma js_sort_sorted:
  "sorted_wrt (\<lambda>a b. cmp a b < 0) xs \<Longrightarrow> js_sort cmp xs = xs"
proof (induction xs)
  case (Cons x xs)
  then have "js_sort cmp (x # xs) = sort_insert cmp x xs" by (simp add: js_sort_def)
  also have "\<dots> = x # xs" using Cons.prems by (cases xs) auto
  finally show ?case .
qed (simp add: js_sort_def)

lemma heads_after_sorted: "sorted_wrt (\<lambda>a b. pk_seq a - pk_seq b < 0) (heads_after m l)"
proof -
  have "sorted_wrt (<) (map fst (filter (\<lambda>(q, _). m < q) (numbered l)))"
    using sorted_numbered [of l] by (simp add: sorted_wrt_map sorted_wrt_filter)
  then show ?thesis
    unfolding heads_after_def by (simp add: sorted_wrt_map case_prod_unfold)
qed

lemma mem_listHeads_ok:
  "ms_inv s \<Longrightarrow> valid_rlm rlm \<Longrightarrow> mem_listHeads pk rlm m s = Ok (heads_after m (mem_log s pk rlm))"
proof -
  assume a: "ms_inv s" "valid_rlm rlm"
  have "(case mem_realm pk rlm s of None \<Rightarrow> [] | Some realm \<Rightarrow>
      map (\<lambda>(seq, item). \<lparr>pk_seq = seq, pk_headCph = sb_headCph item\<rparr>) (filter (\<lambda>(seq, item). seq > m) realm))
      = heads_after m (mem_log s pk rlm)"
    using mem_realm_numbered [OF a(1), of pk rlm]
    by (auto simp: heads_after_def mem_realm_log split: option.splits)
  then show ?thesis
    using a(2) heads_after_sorted [of m "mem_log s pk rlm"]
    by (simp add: mem_listHeads_def valid_rlm_def hashBytes_def js_sort_sorted)
qed

lemma map_filter_none: "List.map_filter (\<lambda>_. None) xs = []"
  by (induction xs) (simp_all add: List.map_filter_def)

lemma mem_getBodies_ok:
  "ms_inv s \<Longrightarrow> valid_rlm rlm \<Longrightarrow> mem_getBodies pk rlm seqs s = Ok (bodies_at seqs (mem_log s pk rlm))"
proof -
  assume a: "ms_inv s" "valid_rlm rlm"
  show ?thesis
  proof (cases "mem_realm pk rlm s")
    case None
    then show ?thesis
      using a(2) by (simp add: mem_getBodies_def valid_rlm_def hashBytes_def bodies_at_def mem_realm_log map_filter_none)
  next
    case (Some r)
    then show ?thesis
      using a(2) mem_realm_numbered [OF a(1) Some]
      by (cases seqs) (simp_all add: mem_getBodies_def valid_rlm_def hashBytes_def bodies_at_def List.map_filter_def)
  qed
qed

interpretation mem: bag_storage memStorage ms_inv mem_registered mem_log
proof
  fix s pk
  assume s: "ms_inv s"
  show "\<exists>s'. st_addUser memStorage pk s = (s', Ok ()) \<and> ms_inv s' \<and> mem_log s' = mem_log s
          \<and> (\<forall>pk'. mem_registered s' pk' = (pk' = pk \<or> mem_registered s pk'))"
    using s by (simp add: memStorage_def mem_addUser_def ms_inv_def mem_log_def fun_eq_iff mem_registered_def)
  show "st_hasUser memStorage pk s = Ok (mem_registered s pk)"
    by (simp add: memStorage_def mem_hasUser_def mem_registered_def)
  fix bags
  show "ms_inv s' \<and> mem_registered s' = mem_registered s
         \<and> (\<exists>n. \<forall>pk' rlm. mem_log s' pk' rlm = mem_log s pk' rlm @ (if pk' = pk then appended rlm (take n bags) else []))"
    if "st_setBags memStorage pk bags s = (s', r)" for s' r
    using mem_setBags_any [OF s] that by (simp add: memStorage_def)
  assume "list_all storable bags"
  then show "\<exists>s'. st_setBags memStorage pk bags s = (s', Ok (set_results (\<lambda>rlm. length (mem_log s pk rlm)) bags))
            \<and> ms_inv s' \<and> mem_registered s' = mem_registered s
            \<and> (\<forall>pk' rlm. mem_log s' pk' rlm = mem_log s pk' rlm @ (if pk' = pk then appended rlm bags else []))"
    using mem_setBags_ok [OF s] by (simp add: memStorage_def)
next
  fix s rlm pk seqs m
  assume a: "ms_inv s" "valid_rlm rlm"
  show "st_getBodies memStorage pk rlm seqs s = Ok (bodies_at seqs (mem_log s pk rlm))"
    using mem_getBodies_ok [OF a] by (simp add: memStorage_def)
  show "st_listHeads memStorage pk rlm m s = Ok (heads_after m (mem_log s pk rlm))"
    using mem_listHeads_ok [OF a] by (simp add: memStorage_def)
qed

end
