(* ===== verification/HostApi.thy ===== *)
theory HostApi
  imports HostStorage
begin

text \<open>
  The host side of the protocol: signed timestamps (\<^verbatim>\<open>shared/auth.ts\<close>), the request handlers
  of the four calls (\<^verbatim>\<open>shared/api\<close>), dispatch over HTTP (\<^verbatim>\<open>shared/http/server.ts\<close>,
  \<^verbatim>\<open>shared/http.ts\<close>) and by local call (\<^verbatim>\<open>shared/lpc\<close>). Handlers work on any storage that
  keeps the contract of \<open>HostStorage\<close>; a reading of the clock is an argument.
\<close>

section \<open>Signed timestamps (auth.ts)\<close>

definition makeAuthTimestamp :: "prims \<Rightarrow> BagManager \<Rightarrow> date \<Rightarrow> IAuthTimestamp vs" where
  "makeAuthTimestamp p identity ts =
     andThen (encode_with (\<lambda>e. writeDate e ts)) (\<lambda>encodedTs.
     andThen (bm_sign p identity (MsgBytes encodedTs)) (\<lambda>sig.
     Ok \<lparr>at_pubKey = bm_publicKey identity, at_sig = sig, at_timestamp = ts\<rparr>))"

text \<open>A difference with NaN is NaN and no larger than the tolerance.\<close>

definition clock_too_far :: "date \<Rightarrow> date \<Rightarrow> bool" where
  "clock_too_far now ts =
     (case (now, ts) of (Some n, Some t) \<Rightarrow> \<bar>n - t\<bar> > clockToleranceMs | _ \<Rightarrow> False)"

definition validateAuthTimestamp :: "prims \<Rightarrow> date \<Rightarrow> IAuthTimestamp \<Rightarrow> unit vs" where
  "validateAuthTimestamp p now authTS =
     (if clock_too_far now (at_timestamp authTS) then Err ClockOutOfSync
      else case writeDate Encoder (at_timestamp authTS) of
        (Throw, _) \<Rightarrow> Throw
      | (Hang, _) \<Rightarrow> Hang
      | (_, enc) \<Rightarrow>
          let data = enc_result enc
          in andThen (catch_err (importVerifyKey p (at_pubKey authTS)) CryptoError) (\<lambda>verifyKey.
             if \<not> checkSigEd25519 p (at_sig authTS) (MsgBytes data) verifyKey then Err InvalidSignature
             else Ok ()))"

section \<open>Request formats (api/peek.ts, api/pull.ts, api/push.ts)\<close>

record IPeekCursor =
  pc_rlm :: bytes
  pc_seq :: int

definition peekCursor_encode :: "encoder \<Rightarrow> IPeekCursor \<Rightarrow> written" where
  "peekCursor_encode e c =
     guardW (length (pc_rlm c) \<noteq> hashBytes) InvalidParam (\<lambda>e.
     thenW (writeBytes e (pc_rlm c)) (\<lambda>e. writeVarInt e (pc_seq c))) e"

definition peekCursor_decode :: "decoder \<Rightarrow> (IPeekCursor \<times> decoder) vs" where
  "peekCursor_decode d =
     andThen (readBytes d (int hashBytes)) (\<lambda>(raw, d).
     andThen (asHostRlm raw) (\<lambda>rlm.
     andThen (readVarInt d) (\<lambda>(seq, d).
     Ok (\<lparr>pc_rlm = rlm, pc_seq = seq\<rparr>, d))))"

record IPullReq =
  pr_rlm :: bytes
  pr_seqs :: "int list"

text \<open>The loop over the seqs is that of \<open>writeStructs\<close> and \<open>readStructs\<close>.\<close>

definition pullReq_encode :: "encoder \<Rightarrow> IPullReq \<Rightarrow> written" where
  "pullReq_encode e r =
     guardW (length (pr_rlm r) \<noteq> hashBytes) InvalidParam (\<lambda>e.
     thenW (writeBytes e (pr_rlm r)) (\<lambda>e. writeStructs writeVarInt e (pr_seqs r))) e"

definition pullReq_decode :: "decoder \<Rightarrow> (IPullReq \<times> decoder) vs" where
  "pullReq_decode d =
     andThen (readBytes d (int hashBytes)) (\<lambda>(raw, d).
     andThen (asHostRlm raw) (\<lambda>rlm.
     andThen (readStructs readVarInt d) (\<lambda>(seqs, d).
     Ok (\<lparr>pr_rlm = rlm, pr_seqs = seqs\<rparr>, d))))"

definition pushReq_encode :: "encoder \<Rightarrow> IBag list \<Rightarrow> written" where
  "pushReq_encode e bags = writeStructs bag_encode e bags"

definition pushReq_decode :: "decoder \<Rightarrow> (IBag list \<times> decoder) vs" where
  "pushReq_decode d = readStructs bag_decode d"

section \<open>Handlers (api/*.ts, handleReq)\<close>

text \<open>
  A host is its storage and the calls \<open>notifier.push(pubKey, data)\<close> it has made. A handler
  returns the host, its status and the response encoder.
\<close>

record 's Host =
  h_storage :: 's
  h_pushes :: "(bytes \<times> bytes) list"

type_synonym 's handled = "'s Host \<times> written"

fun andThenH :: "'a vs \<Rightarrow> 's Host \<Rightarrow> encoder \<Rightarrow> ('a \<Rightarrow> 's handled) \<Rightarrow> 's handled" where
  "andThenH (Ok a) h e f = f a"
| "andThenH (Err s) h e f = (h, (Err s, e))"
| "andThenH Throw h e f = (h, (Throw, e))"
| "andThenH Hang h e f = (h, (Hang, e))"

text \<open>The opening of every handler: auth timestamp, its validation, and the registration check.\<close>

definition authenticate :: "prims \<Rightarrow> date \<Rightarrow> decoder \<Rightarrow> (bytes \<times> decoder) vs" where
  "authenticate p now reqDec =
     andThen (authTimestamp_decode reqDec) (\<lambda>(authTS, reqDec).
     andThen (validateAuthTimestamp p now authTS) (\<lambda>_.
     Ok (at_pubKey authTS, reqDec)))"

definition authenticate_user :: "prims \<Rightarrow> 's IStorage \<Rightarrow> date \<Rightarrow> 's Host \<Rightarrow> decoder \<Rightarrow> (bytes \<times> decoder) vs" where
  "authenticate_user p S now host reqDec =
     andThen (authenticate p now reqDec) (\<lambda>(pubKey, reqDec).
     andThen (st_hasUser S pubKey (h_storage host)) (\<lambda>hasUser.
     if \<not> hasUser then Err UserNotRegistered else Ok (pubKey, reqDec)))"

definition user_handleReq :: "prims \<Rightarrow> 's IStorage \<Rightarrow> date \<Rightarrow> 's Host \<Rightarrow> decoder \<Rightarrow> encoder \<Rightarrow> 's handled" where
  "user_handleReq p S now host reqDec respEnc =
     andThenH (authenticate p now reqDec) host respEnc (\<lambda>(pubKey, reqDec).
     if \<not> done_dec reqDec then (host, (Err ExtraBodyContent, respEnc))
     else case st_addUser S pubKey (h_storage host) of
       (s, r) \<Rightarrow> (host\<lparr>h_storage := s\<rparr>, (r, respEnc)))"

definition peek_handleReq :: "prims \<Rightarrow> 's IStorage \<Rightarrow> date \<Rightarrow> 's Host \<Rightarrow> decoder \<Rightarrow> encoder \<Rightarrow> 's handled" where
  "peek_handleReq p S now host reqDec respEnc =
     andThenH (authenticate_user p S now host reqDec) host respEnc (\<lambda>(pubKey, reqDec).
     andThenH (peekCursor_decode reqDec) host respEnc (\<lambda>(cursor, reqDec).
     if \<not> done_dec reqDec then (host, (Err ExtraBodyContent, respEnc))
     else
       andThenH (st_listHeads S pubKey (pc_rlm cursor) (pc_seq cursor) (h_storage host)) host respEnc (\<lambda>items.
       (host, writeStructs peekItem_encode respEnc items))))"

definition pull_handleReq :: "prims \<Rightarrow> 's IStorage \<Rightarrow> date \<Rightarrow> 's Host \<Rightarrow> decoder \<Rightarrow> encoder \<Rightarrow> 's handled" where
  "pull_handleReq p S now host reqDec respEnc =
     andThenH (authenticate_user p S now host reqDec) host respEnc (\<lambda>(pubKey, reqDec).
     andThenH (pullReq_decode reqDec) host respEnc (\<lambda>(req, reqDec).
     andThenH (st_getBodies S pubKey (pr_rlm req) (pr_seqs req) (h_storage host)) host respEnc (\<lambda>bodies.
     (host, writeStructs (\<lambda>e (seq, bodyCph). pullItem_encode e \<lparr>pl_seq = seq, pl_bodyCph = bodyCph\<rparr>) respEnc bodies))))"

text \<open>The signature loop of a push: refused bags are answered at once, the others collected.\<close>

fun push_verify ::
    "prims \<Rightarrow> CryptoKey \<Rightarrow> IBag list \<Rightarrow> int \<Rightarrow> (int \<times> IBag) list \<Rightarrow> encoder \<Rightarrow> (int \<times> IBag) list \<times> written" where
  "push_verify p vk [] idx valid e = (valid, (Ok (), e))"
| "push_verify p vk (bag # bags) idx valid e =
     (if \<not> bagSigValid p bag vk then
        (case pushItem_encode e (PushRefused idx InvalidSignature) of
           (Ok _, e) \<Rightarrow> push_verify p vk bags (idx + 1) valid e
         | w \<Rightarrow> (valid, w))
      else push_verify p vk bags (idx + 1) (valid @ [(idx, bag)]) e)"

text \<open>The answer loop: one item per stored bag and the notifications to send.\<close>

fun push_answer ::
    "nat \<Rightarrow> (int \<times> IBag) list \<Rightarrow> ISetBagResult list \<Rightarrow> IBagNotifItem list \<Rightarrow> encoder
     \<Rightarrow> IBagNotifItem list \<times> written" where
  "push_answer n ((idx, bag) # valid) (SetBagFailed st # stored) notifs e =
     (case pushItem_encode e (PushRefused idx st) of
        (Ok _, e) \<Rightarrow> push_answer n valid stored notifs e
      | w \<Rightarrow> (notifs, w))"
| "push_answer n ((idx, bag) # valid) (SetBag seq # stored) notifs e =
     (case encode_with (\<lambda>e. peekItemHead_encode e (bag_peekHead bag)) of
        Err s \<Rightarrow> (notifs, (Err s, e))
      | Throw \<Rightarrow> (notifs, (Throw, e))
      | Hang \<Rightarrow> (notifs, (Hang, e))
      | Ok headCph \<Rightarrow>
          let notif = \<lparr>ni_seq = seq, ni_rlm = bag_rlm bag, ni_headCph = headCph,
                       ni_bodyCph = (if n = 1 \<and> length (bag_bodyCph bag) \<le> notifInlineBodyBytesThreshold
                                     then Some (bag_bodyCph bag) else None)\<rparr>;
              notifs = notifs @ [notif]
          in (case pushItem_encode e (PushStored idx seq) of
                (Ok _, e) \<Rightarrow> push_answer n valid stored notifs e
              | w \<Rightarrow> (notifs, w)))"
| "push_answer n _ _ notifs e = (notifs, (Ok (), e))"

definition push_handleReq :: "prims \<Rightarrow> 's IStorage \<Rightarrow> date \<Rightarrow> 's Host \<Rightarrow> decoder \<Rightarrow> encoder \<Rightarrow> 's handled" where
  "push_handleReq p S now host reqDec respEnc =
     andThenH (authenticate_user p S now host reqDec) host respEnc (\<lambda>(pubKey, reqDec).
     andThenH (pushReq_decode reqDec) host respEnc (\<lambda>(bags, reqDec).
     andThenH (catch_err (importVerifyKey p pubKey) CryptoError) host respEnc (\<lambda>verifyKey.
     case push_verify p verifyKey bags 0 [] respEnc of
       (valid, (Ok _, respEnc)) \<Rightarrow>
         (case st_setBags S pubKey (map snd valid) (h_storage host) of
           (s, r) \<Rightarrow>
             let host = host\<lparr>h_storage := s\<rparr>
             in andThenH r host respEnc (\<lambda>stored.
                if length stored \<noteq> length valid then (host, (Err StorageError, respEnc))
                else
                  (case push_answer (length bags) valid stored [] respEnc of
                     (notifs, (Ok _, respEnc)) \<Rightarrow>
                       if length notifs > 0 then
                         andThenH (encode_with (\<lambda>e. writeStructs notifItem_encode e notifs)) host respEnc (\<lambda>batchEnc.
                         (host\<lparr>h_pushes := h_pushes host @ [(pubKey, batchEnc)]\<rparr>, (Ok (), respEnc)))
                       else (host, (Ok (), respEnc))
                   | (_, w) \<Rightarrow> (host, w))))
     | (_, w) \<Rightarrow> (host, w))))"

section \<open>Dispatch (http.ts, http/server.ts, lpc/server.ts)\<close>

datatype APICallName = CallUser | CallPeek | CallPush | CallPull

fun handleReq :: "APICallName \<Rightarrow> prims \<Rightarrow> 's IStorage \<Rightarrow> date \<Rightarrow> 's Host \<Rightarrow> decoder \<Rightarrow> encoder \<Rightarrow> 's handled" where
  "handleReq CallUser = user_handleReq"
| "handleReq CallPeek = peek_handleReq"
| "handleReq CallPush = push_handleReq"
| "handleReq CallPull = pull_handleReq"

definition callPaths :: "jsstr \<Rightarrow> APICallName option" where
  "callPaths path =
     map_of [(js ''/user'', CallUser), (js ''/push'', CallPush), (js ''/peek'', CallPeek), (js ''/pull'', CallPull)] path"

text \<open>The status of a handler as the header carries it; a throw is not a status.\<close>

fun status_value :: "unit vs \<Rightarrow> status vs" where
  "status_value (Ok _) = Ok Success"
| "status_value (Err s) = Ok s"
| "status_value Throw = Throw"
| "status_value Hang = Hang"

text \<open>
  A call through \<open>LPCTransport\<close>: the readings of the host clock on receipt, during validation
  and on sending. The header goes in front of whatever the handler wrote, also when it failed.
\<close>

definition lpc_call ::
    "prims \<Rightarrow> 's IStorage \<Rightarrow> date \<times> date \<times> date \<Rightarrow> APICallName \<Rightarrow> encoder \<Rightarrow> 's Host \<Rightarrow> 's Host \<times> decoder vs" where
  "lpc_call p S clk name enc host =
     (case clk of (timeRcvd, now, timeSent) \<Rightarrow>
      case handleReq name p S now host (Decoder (enc_result enc)) Encoder of
        (host, (st, respEnc)) \<Rightarrow>
          (host,
           andThen (status_value st) (\<lambda>status.
           andThen (encode_with (\<lambda>e. respHead_encode e
             \<lparr>rh_status = status, rh_timeRcvd = timeRcvd, rh_timeSent = timeSent, rh_subscription = nullSubMeta\<rparr>)) (\<lambda>headEnc.
           Ok (Decoder (enc_result (prependBytes respEnc headEnc)))))))"

record Request =
  rq_method :: jsstr
  rq_path :: jsstr
  rq_body :: "bytes option"

record Response =
  rs_status :: nat
  rs_body :: "bytes option"

definition binResp :: "encoder \<Rightarrow> Response" where
  "binResp enc = \<lparr>rs_status = 200, rs_body = Some (enc_result enc)\<rparr>"

definition resp_head :: "status \<Rightarrow> date \<Rightarrow> date \<Rightarrow> IRespHead" where
  "resp_head st rcvd sent =
     \<lparr>rh_status = st, rh_timeRcvd = rcvd, rh_timeSent = sent, rh_subscription = nullSubMeta\<rparr>"

definition errResp :: "IRespHead \<Rightarrow> Response vs" where
  "errResp head =
     (case respHead_encode Encoder head of
        (Ok _, enc) \<Rightarrow> Ok (binResp enc)
      | (Err _, _) \<Rightarrow> Ok \<lparr>rs_status = 500, rs_body = None\<rparr>
      | (Throw, _) \<Rightarrow> Throw
      | (Hang, _) \<Rightarrow> Hang)"

text \<open>
  \<open>DiplomaticHTTPServer.handler\<close>: the readings of the clock on receipt, during validation,
  for the header of a handled request and for an error response.
\<close>

definition http_handler ::
    "prims \<Rightarrow> 's IStorage \<Rightarrow> date \<times> date \<times> date \<times> date \<Rightarrow> Request \<Rightarrow> 's Host \<Rightarrow> 's Host \<times> Response vs" where
  "http_handler p S clk rq host =
     (case clk of (timeRcvd, now, timeSent, errSent) \<Rightarrow>
      if rq_method rq \<noteq> js ''POST'' then (host, errResp (resp_head NotFound timeRcvd errSent))
      else case rq_body rq of
        None \<Rightarrow> (host, errResp (resp_head MissingBody timeRcvd errSent))
      | Some body \<Rightarrow>
         (case callPaths (rq_path rq) of
            None \<Rightarrow> (host, errResp (resp_head NotFound timeRcvd errSent))
          | Some name \<Rightarrow>
             (case handleReq name p S now host (Decoder body) Encoder of
                (host, (st, enc)) \<Rightarrow>
                  (host,
                   case
                     andThen (status_value st) (\<lambda>status.
                     case respHead_encode Encoder (resp_head status timeRcvd timeSent) of
                       (Err _, _) \<Rightarrow> Ok \<lparr>rs_status = 500, rs_body = None\<rparr>
                     | (Throw, _) \<Rightarrow> Throw
                     | (Hang, _) \<Rightarrow> Hang
                     | (Ok _, encHead) \<Rightarrow>
                         if status \<noteq> Success then errResp (resp_head status timeRcvd errSent)
                         else Ok (binResp (prependBytes enc (enc_result encHead))))
                   of Throw \<Rightarrow> errResp (resp_head InternalError timeRcvd errSent)
                    | r \<Rightarrow> r))))"

text \<open>The token of a push connection over a websocket: hex of an auth timestamp.\<close>

definition validateWebSocketAuth :: "prims \<Rightarrow> date \<Rightarrow> jsstr option \<Rightarrow> IAuthTimestamp vs" where
  "validateWebSocketAuth p now authTSHex =
     (case authTSHex of
        None \<Rightarrow> Err InvalidRequest
      | Some hex \<Rightarrow>
          if hex = [] then Err InvalidRequest
          else
            andThen (htob hex) (\<lambda>authTSEnc.
            case authTimestamp_decode (Decoder authTSEnc) of
              Ok (authTS, _) \<Rightarrow> andThen (validateAuthTimestamp p now authTS) (\<lambda>_. Ok authTS)
            | Err _ \<Rightarrow> Err InvalidRequest
            | Throw \<Rightarrow> Throw
            | Hang \<Rightarrow> Hang))"

section \<open>Push delivery (lpc/pusher.ts, lpc/listener.ts)\<close>

text \<open>Receivers are named by numbers; calling one is an entry of the delivery trace.\<close>

record CallbackNotifier =
  cn_recvs :: "(jsstr, nat list) jsmap"

definition CallbackNotifier_new :: CallbackNotifier where
  "CallbackNotifier_new = \<lparr>cn_recvs = []\<rparr>"

datatype IPushOpenResponse = Opened jsstr nat | NotOpened status

definition cn_open ::
    "prims \<Rightarrow> date \<Rightarrow> IAuthTimestamp \<Rightarrow> nat \<Rightarrow> CallbackNotifier \<Rightarrow> CallbackNotifier \<times> IPushOpenResponse vs" where
  "cn_open p now authTS recv cn =
     (case validateAuthTimestamp p now authTS of
        Throw \<Rightarrow> (cn, Throw) | Hang \<Rightarrow> (cn, Hang)
      | Err s \<Rightarrow> (cn, Ok (NotOpened s))
      | Ok _ \<Rightarrow>
          let hex = btoh (at_pubKey authTS);
              cn = (if map_has (cn_recvs cn) hex then cn else cn\<lparr>cn_recvs := map_set hex [] (cn_recvs cn)\<rparr>)
          in (cn\<lparr>cn_recvs := map_set hex (set_add recv (the (map_get (cn_recvs cn) hex))) (cn_recvs cn)\<rparr>,
              Ok (Opened hex recv)))"

definition cn_shut :: "IPushOpenResponse \<Rightarrow> CallbackNotifier \<Rightarrow> CallbackNotifier \<times> unit vs" where
  "cn_shut resp cn =
     (case resp of
        NotOpened s \<Rightarrow> (cn, Err s)
      | Opened hex recv \<Rightarrow>
          (case map_get (cn_recvs cn) hex of
             None \<Rightarrow> (cn, Ok ())
           | Some rs \<Rightarrow> (cn\<lparr>cn_recvs := map_set hex (set_delete recv rs) (cn_recvs cn)\<rparr>, Ok ())))"

definition cn_push :: "bytes \<Rightarrow> bytes \<Rightarrow> CallbackNotifier \<Rightarrow> (nat \<times> bytes) list" where
  "cn_push pubKey data cn =
     (case map_get (cn_recvs cn) (btoh pubKey) of None \<Rightarrow> [] | Some rs \<Rightarrow> map (\<lambda>r. (r, data)) rs)"

record CallbackListener =
  cl_connected :: bool
  cl_shut :: "IPushOpenResponse option"

definition cl_connect ::
    "prims \<Rightarrow> date \<Rightarrow> IAuthTimestamp \<Rightarrow> nat \<Rightarrow> CallbackListener \<Rightarrow> CallbackNotifier
     \<Rightarrow> CallbackListener \<times> CallbackNotifier \<times> unit vs" where
  "cl_connect p now authTS recv cl cn =
     (case cn_open p now authTS recv cn of
        (cn, Ok (Opened hex r)) \<Rightarrow> (\<lparr>cl_connected = True, cl_shut = Some (Opened hex r)\<rparr>, cn, Ok ())
      | (cn, Ok (NotOpened s)) \<Rightarrow> (\<lparr>cl_connected = False, cl_shut = Some (NotOpened s)\<rparr>, cn, Err s)
      | (cn, Err s) \<Rightarrow> (cl, cn, Err s)
      | (cn, Throw) \<Rightarrow> (cl, cn, Throw)
      | (cn, Hang) \<Rightarrow> (cl, cn, Hang))"

definition cl_disconnect :: "CallbackListener \<Rightarrow> CallbackNotifier \<Rightarrow> CallbackListener \<times> CallbackNotifier" where
  "cl_disconnect cl cn =
     (\<lparr>cl_connected = False, cl_shut = None\<rparr>,
      case cl_shut cl of None \<Rightarrow> cn | Some r \<Rightarrow> fst (cn_shut r cn))"

section \<open>Lemmas on requests\<close>

lemma validate_made:
  assumes "prims_ok p" "bm_ok p bm" "date_ok (Some t)" "\<bar>n - t\<bar> \<le> 30000"
  obtains a where "makeAuthTimestamp p bm (Some t) = Ok a" "authTimestamp_ok a"
    "at_pubKey a = bm_publicKey bm" "validateAuthTimestamp p (Some n) a = Ok ()"
proof -
  have w: "writeDate Encoder (Some t) = (Ok (), [varint_wire t])"
    using assms(3) by (simp add: writeDate_def writeVarInt_def encodeVarInt_eq Encoder_def date_ok_def max_time_def)
  obtain sig vk where sg: "bm_sign p bm (MsgBytes (varint_wire t)) = Ok sig" "length sig = 64"
    "importVerifyKey p (bm_publicKey bm) = Ok vk" "checkSigEd25519 p sig (MsgBytes (varint_wire t)) vk"
    using bm_sign_ok [OF assms(1,2)] by metis
  have "length (bm_publicKey bm) = 32" using assms(1,2) by (simp add: bm_ok_def)
  then show ?thesis
    using w sg assms(3,4)
    by (intro that [of "\<lparr>at_pubKey = bm_publicKey bm, at_sig = sig, at_timestamp = Some t\<rparr>"])
       (simp_all add: makeAuthTimestamp_def encode_with_def enc_result_def authTimestamp_ok_def pubKeyBytes_def
          sigBytes_def validateAuthTimestamp_def clock_too_far_def clockToleranceMs_def)
qed

lemma authenticate_wire:
  assumes "authTimestamp_ok a" "validateAuthTimestamp p now a = Ok ()"
  shows "authenticate p now (Decoder (authTimestamp_wire a @ rest)) =
           Ok (at_pubKey a, advance (Decoder (authTimestamp_wire a @ rest)) (length (authTimestamp_wire a)))"
  using authTimestampCodec.decode_ok [OF assms(1)] assms(2) by (simp add: authenticate_def)

definition peekCursor_wire :: "IPeekCursor \<Rightarrow> bytes" where
  "peekCursor_wire c = pc_rlm c @ varint_wire (pc_seq c)"

definition peekCursor_ok :: "IPeekCursor \<Rightarrow> bool" where
  "peekCursor_ok c = (length (pc_rlm c) = hashBytes \<and> is_num (pc_seq c))"

interpretation peekCursorCodec: struct_codec peekCursor_encode peekCursor_decode peekCursor_wire peekCursor_ok
proof
  fix c assume "peekCursor_ok c"
  then have k: "length (pc_rlm c) = hashBytes" "is_num (pc_seq c)" by (simp_all add: peekCursor_ok_def)
  show "emits (\<lambda>e. peekCursor_encode e c) (peekCursor_wire c)"
    unfolding peekCursor_encode_def peekCursor_wire_def by (rule emits_rules k | (simp add: k; fail))+
  show "parses peekCursor_decode (peekCursor_wire c) c"
    unfolding peekCursor_decode_def peekCursor_wire_def
    by (rule parses_fields parses_hostRlm k | (simp add: k; fail))+
next
  have p: "0 < hashBytes" by (simp add: hashBytes_def)
  show "moves 1 peekCursor_decode"
    unfolding peekCursor_decode_def
    by (rule moves_bytes1 [OF p] moves_fields moves_rules moves_readBytes le0 asHostRlm_total)+
qed

interpretation varintCodec: struct_codec writeVarInt readVarInt varint_wire is_num
  by unfold_locales (rule num_writes parses_readVarInt moves_readVarInt; assumption?)+

definition pullReq_wire :: "IPullReq \<Rightarrow> bytes" where
  "pullReq_wire r = pr_rlm r @ concat (map varint_wire (pr_seqs r))"

definition pullReq_ok :: "IPullReq \<Rightarrow> bool" where
  "pullReq_ok r = (length (pr_rlm r) = hashBytes \<and> list_all is_num (pr_seqs r))"

lemma emits_pullReq: "pullReq_ok r \<Longrightarrow> emits (\<lambda>e. pullReq_encode e r) (pullReq_wire r)"
proof -
  assume r: "pullReq_ok r"
  then have k: "length (pr_rlm r) = hashBytes" by (simp add: pullReq_ok_def)
  have w: "emits (\<lambda>e. writeStructs writeVarInt e (pr_seqs r)) (concat (map varint_wire (pr_seqs r)))"
    by (rule emits_writeStructs) (use r in \<open>auto simp: pullReq_ok_def list_all_iff num_writes\<close>)
  show ?thesis
    unfolding pullReq_encode_def pullReq_wire_def by (rule emits_rules w | (simp add: k; fail))+
qed

lemma pullReq_decode_wire:
  assumes r: "pullReq_ok r" and d: "wf_dec d" "unread d = pullReq_wire r"
  shows "\<exists>d'. pullReq_decode d = Ok (r, d')"
proof -
  let ?d = "advance d (length (pr_rlm r))"
  have l: "length (pr_rlm r) = hashBytes" using r by (simp add: pullReq_ok_def)
  have rb: "readBytes d (int hashBytes) = Ok (pr_rlm r, ?d)"
    using parsesD [OF parses_readBytes [where bs = "pr_rlm r" and n = "int hashBytes"] d(1), of "concat (map varint_wire (pr_seqs r))"]
      d(2) l by (simp add: pullReq_wire_def)
  have "wf_dec ?d" by (rule wf_advance [OF d(1)]) (simp add: d(2) pullReq_wire_def)
  moreover have "unread ?d = concat (map varint_wire (pr_seqs r))" by (simp add: d(2) pullReq_wire_def)
  ultimately obtain d' where "readStructs readVarInt ?d = Ok (pr_seqs r, d')"
    using varintCodec.structs_decode [of "pr_seqs r" ?d] r by (auto simp: pullReq_ok_def)
  then show ?thesis using rb l by (simp add: pullReq_decode_def asHostRlm_def asChildKey_def)
qed

section \<open>Lemmas on pushes\<close>

text \<open>The bags of a push with their indices, and the answers of the protocol.\<close>

definition indexed :: "int \<Rightarrow> 'a list \<Rightarrow> (int \<times> 'a) list" where
  "indexed n xs = zip (map (\<lambda>i. n + int i) [0..<length xs]) xs"

definition accepted :: "prims \<Rightarrow> CryptoKey \<Rightarrow> int \<Rightarrow> IBag list \<Rightarrow> (int \<times> IBag) list" where
  "accepted p vk n bags = filter (\<lambda>(_, b). bagSigValid p b vk) (indexed n bags)"

definition refused :: "prims \<Rightarrow> CryptoKey \<Rightarrow> int \<Rightarrow> IBag list \<Rightarrow> IBagPushItem list" where
  "refused p vk n bags =
     map (\<lambda>(i, _). PushRefused i InvalidSignature) (filter (\<lambda>(_, b). \<not> bagSigValid p b vk) (indexed n bags))"

fun answer :: "(int \<times> IBag) \<times> ISetBagResult \<Rightarrow> IBagPushItem" where
  "answer ((i, _), SetBag q) = PushStored i q"
| "answer ((i, _), SetBagFailed st) = PushRefused i st"

fun item_idx :: "IBagPushItem \<Rightarrow> int" where
  "item_idx (PushStored i _) = i"
| "item_idx (PushRefused i _) = i"

lemma indexed_Nil [simp]: "indexed n [] = []"
  by (simp add: indexed_def)

lemma indexed_Cons [simp]: "indexed n (x # xs) = (n, x) # indexed (n + 1) xs"
  unfolding indexed_def by (simp add: upt_conv_Cons map_Suc_upt [symmetric] comp_def add.assoc del: upt_Suc map_Suc_upt)

lemma indexed_bounds: "(i, b) \<in> set (indexed n bags) \<Longrightarrow> n \<le> i \<and> i < n + int (length bags) \<and> b \<in> set bags"
  by (induction bags arbitrary: n) force+

lemma push_item_writes:
  assumes "pushItem_ok x"
  obtains ps where "pushItem_encode e x = (Ok (), e @ ps)" "concat ps = pushItem_wire x"
  using pushItemCodec.wr_emits [OF assms] unfolding emits_def by blast

lemma push_verify_ok:
  "0 \<le> n \<Longrightarrow> n + int (length bags) \<le> 2 ^ 53 \<Longrightarrow>
   \<exists>ps. push_verify p vk bags n valid e = (valid @ accepted p vk n bags, (Ok (), e @ ps))
      \<and> concat ps = concat (map pushItem_wire (refused p vk n bags))"
proof (induction bags arbitrary: n valid e)
  case (Cons b bs)
  show ?case
  proof (cases "bagSigValid p b vk")
    case True
    then show ?thesis using Cons.IH [of "n + 1" "valid @ [(n, b)]" e] Cons.prems
      by (simp add: accepted_def refused_def)
  next
    case False
    have "InvalidSignature \<in> set status_names" by (simp add: status_names_def)
    then have "pushItem_ok (PushRefused n InvalidSignature)"
      using Cons.prems status_ok_named by (auto simp: is_num_safe)
    then obtain ps where ps: "pushItem_encode e (PushRefused n InvalidSignature) = (Ok (), e @ ps)"
      "concat ps = pushItem_wire (PushRefused n InvalidSignature)" by (rule push_item_writes)
    obtain ps' where ps': "push_verify p vk bs (n + 1) valid (e @ ps) =
        (valid @ accepted p vk (n + 1) bs, (Ok (), (e @ ps) @ ps'))"
      "concat ps' = concat (map pushItem_wire (refused p vk (n + 1) bs))"
      using Cons.IH [of "n + 1" valid "e @ ps"] Cons.prems by auto
    show ?thesis
      using False ps ps' by (intro exI [of _ "ps @ ps'"]) (simp add: accepted_def refused_def)
  qed
qed (simp add: accepted_def refused_def)

text \<open>The notifications of a batch of stored bags.\<close>

fun notif_of :: "nat \<Rightarrow> (int \<times> IBag) \<times> ISetBagResult \<Rightarrow> IBagNotifItem list" where
  "notif_of n ((_, b), SetBag q) =
     [\<lparr>ni_seq = q, ni_rlm = bag_rlm b, ni_headCph = peekItemHead_wire (bag_peekHead b),
       ni_bodyCph = (if n = 1 \<and> length (bag_bodyCph b) \<le> notifInlineBodyBytesThreshold
                     then Some (bag_bodyCph b) else None)\<rparr>]"
| "notif_of n (_, SetBagFailed _) = []"

lemma push_answer_ok:
  "length stored = length valid \<Longrightarrow> list_all storable (map snd valid)
   \<Longrightarrow> list_all pushItem_ok (map answer (zip valid stored)) \<Longrightarrow>
   \<exists>ps. push_answer n valid stored notifs e = (notifs @ concat (map (notif_of n) (zip valid stored)), (Ok (), e @ ps))
      \<and> concat ps = concat (map pushItem_wire (map answer (zip valid stored)))"
proof (induction stored valid arbitrary: notifs e rule: list_induct2)
  case (Cons st sts v vs)
  obtain i b where v: "v = (i, b)" by force
  have b: "storable b" and k: "pushItem_ok (answer ((i, b), st))" using Cons.prems by (simp_all add: v)
  obtain ps where ps: "pushItem_encode e (answer ((i, b), st)) = (Ok (), e @ ps)"
    "concat ps = pushItem_wire (answer ((i, b), st))" using push_item_writes [OF k] by blast
  obtain ps' where ps': "push_answer n vs sts (notifs @ notif_of n ((i, b), st)) (e @ ps) =
      ((notifs @ notif_of n ((i, b), st)) @ concat (map (notif_of n) (zip vs sts)), (Ok (), (e @ ps) @ ps'))"
    "concat ps' = concat (map pushItem_wire (map answer (zip vs sts)))"
    using Cons.IH [of "notifs @ notif_of n ((i, b), st)" "e @ ps"] Cons.prems by auto
  show ?case
    using ps ps' peekHead_encodes [OF b]
    by (cases st) (auto simp: v Let_def intro!: exI [of _ "ps @ ps'"])
qed simp

text \<open>Notifications encode whether or not the inlined body is empty.\<close>

lemma notif_encodes:
  assumes "is_num (ni_seq x)" "length (ni_rlm x) = 32" "short (ni_headCph x)"
    and "case ni_bodyCph x of None \<Rightarrow> True | Some b \<Rightarrow> short b"
  shows "\<exists>w. emits (\<lambda>e. notifItem_encode e x) w"
proof (cases "ni_bodyCph x = Some []")
  case True
  have "notifItem_encode e x = notifItem_encode e (x\<lparr>ni_bodyCph := None\<rparr>)" for e
    by (simp add: notifItem_encode_def True)
  moreover have "notifItem_ok (x\<lparr>ni_bodyCph := None\<rparr>)"
    using assms by (simp add: notifItem_ok_def hashBytes_def)
  ultimately show ?thesis using notifItemCodec.wr_emits by (metis emits_cong)
next
  case False
  then have "notifItem_ok x" using assms by (auto simp: notifItem_ok_def hashBytes_def split: option.splits)
  then show ?thesis using notifItemCodec.wr_emits by blast
qed

lemma emits_structs_ex:
  "\<forall>x \<in> set xs. \<exists>w. emits (\<lambda>e. wr e x) w \<Longrightarrow> \<exists>w. encode_with (\<lambda>e. writeStructs wr e xs) = Ok w"
proof -
  assume "\<forall>x \<in> set xs. \<exists>w. emits (\<lambda>e. wr e x) w"
  then obtain f where f: "\<forall>x \<in> set xs. emits (\<lambda>e. wr e x) (f x)" by metis
  then have "emits (\<lambda>e. writeStructs wr e xs) (concat (map f xs))" by (intro emits_writeStructs) auto
  then show ?thesis using encode_with_emits by blast
qed

text \<open>Bounds under which a batch can be answered: sequence numbers stay exact doubles.\<close>

definition seqs_fit :: "(bytes \<Rightarrow> nat) \<Rightarrow> nat \<Rightarrow> bool" where
  "seqs_fit n k = (\<forall>rlm. int (n rlm) + int k \<le> 2 ^ 53)"

lemma seqs_fit_mono: "seqs_fit n k \<Longrightarrow> j \<le> k \<Longrightarrow> seqs_fit n j"
  unfolding seqs_fit_def by (metis add_left_mono of_nat_mono order_trans)

lemma seqs_fit_upd: "seqs_fit n (Suc k) \<Longrightarrow> seqs_fit (n(r := n r + 1)) k"
proof (unfold seqs_fit_def, intro allI)
  fix rlm assume a: "\<forall>rlm. int (n rlm) + int (Suc k) \<le> 2 ^ 53"
  then have "int (n r) + int (Suc k) \<le> 2 ^ 53" "int (n rlm) + int (Suc k) \<le> 2 ^ 53" by blast+
  then show "int ((n(r := n r + 1)) rlm) + int k \<le> 2 ^ 53" by simp
qed

lemma seqs_fit_at: "seqs_fit n (Suc k) \<Longrightarrow> int (n r) + 1 \<le> 2 ^ 53"
  unfolding seqs_fit_def by (drule spec [of _ r]) simp

lemma set_results_ok:
  "seqs_fit n (length bags) \<Longrightarrow> SetBag q \<in> set (set_results n bags) \<Longrightarrow> 0 \<le> q \<and> q \<le> 2 ^ 53"
proof (induction bags arbitrary: n)
  case (Cons b bs)
  have k: "seqs_fit n (Suc (length bs))" using Cons.prems(1) by simp
  show ?case
    using Cons.prems(2) Cons.IH [OF seqs_fit_upd [OF k]] Cons.IH [OF seqs_fit_mono [OF k]]
      seqs_fit_at [OF k, of "bag_rlm b"]
    by (auto split: if_splits simp del: fun_upd_apply)
qed simp

lemma set_results_valid:
  "list_all (\<lambda>b. valid_rlm (bag_rlm b)) bags \<Longrightarrow> r \<in> set (set_results n bags) \<Longrightarrow> \<exists>q. r = SetBag q"
  by (induction bags arbitrary: n) auto

section \<open>What a handler does, for any storage that keeps the contract\<close>

context bag_storage
begin

lemma register_effect:
  assumes "inv (h_storage host)" "authenticate p now d = Ok (pk, d')" "done_dec d'"
  shows "\<exists>s'. user_handleReq p S now host d e = (host\<lparr>h_storage := s'\<rparr>, (Ok (), e)) \<and> inv s'
           \<and> log s' = log (h_storage host) \<and> (\<forall>pk'. registered s' pk' = (pk' = pk \<or> registered (h_storage host) pk'))"
  using add_user [OF assms(1), of pk] assms(2,3) by (auto simp: user_handleReq_def)

lemma user_authenticated:
  "inv (h_storage host) \<Longrightarrow> authenticate p now d = Ok (pk, d') \<Longrightarrow>
     authenticate_user p S now host d =
       (if registered (h_storage host) pk then Ok (pk, d') else Err UserNotRegistered)"
  by (simp add: authenticate_user_def has_user)

lemma peek_effect:
  assumes "inv (h_storage host)" "authenticate p now d = Ok (pk, d')" "registered (h_storage host) pk"
    and "peekCursor_decode d' = Ok (c, d'')" "done_dec d''" "valid_rlm (pc_rlm c)"
    and "list_all peekItem_ok (heads_after (pc_seq c) (log (h_storage host) pk (pc_rlm c)))"
  shows "\<exists>ps. peek_handleReq p S now host d e = (host, (Ok (), e @ ps))
           \<and> concat ps = concat (map peekItem_wire (heads_after (pc_seq c) (log (h_storage host) pk (pc_rlm c))))"
proof -
  let ?items = "heads_after (pc_seq c) (log (h_storage host) pk (pc_rlm c))"
  have "emits (\<lambda>e. writeStructs peekItem_encode e ?items) (concat (map peekItem_wire ?items))"
    by (rule emits_writeStructs) (use assms(7) peekItemCodec.wr_emits in \<open>auto simp: list_all_iff\<close>)
  then show ?thesis
    using user_authenticated [OF assms(1,2)] list_heads [OF assms(1,6)] assms(3-5)
    by (auto simp: peek_handleReq_def emits_def)
qed

lemma pull_effect:
  assumes "inv (h_storage host)" "authenticate p now d = Ok (pk, d')" "registered (h_storage host) pk"
    and "pullReq_decode d' = Ok (r, d'')" "valid_rlm (pr_rlm r)"
    and "list_all (\<lambda>(q, b). pullItem_ok \<lparr>pl_seq = q, pl_bodyCph = b\<rparr>)
           (bodies_at (pr_seqs r) (log (h_storage host) pk (pr_rlm r)))"
  shows "\<exists>ps. pull_handleReq p S now host d e = (host, (Ok (), e @ ps))
           \<and> concat ps = concat (map (\<lambda>(q, b). pullItem_wire \<lparr>pl_seq = q, pl_bodyCph = b\<rparr>)
                            (bodies_at (pr_seqs r) (log (h_storage host) pk (pr_rlm r))))"
proof -
  let ?items = "bodies_at (pr_seqs r) (log (h_storage host) pk (pr_rlm r))"
  have "emits (\<lambda>e. writeStructs (\<lambda>e (seq, bodyCph). pullItem_encode e \<lparr>pl_seq = seq, pl_bodyCph = bodyCph\<rparr>) e ?items)
          (concat (map (\<lambda>(q, b). pullItem_wire \<lparr>pl_seq = q, pl_bodyCph = b\<rparr>) ?items))"
    by (rule emits_writeStructs) (use assms(6) pullItemCodec.wr_emits in \<open>auto simp: list_all_iff\<close>)
  then show ?thesis
    using user_authenticated [OF assms(1,2)] get_bodies [OF assms(1,5)] assms(3,4)
    by (auto simp: pull_handleReq_def emits_def)
qed

text \<open>The accepted bags of a push, what the storage answers, and the items of the response.\<close>

lemma push_effect:
  assumes "inv (h_storage host)" "authenticate p now d = Ok (pk, d')" "registered (h_storage host) pk"
    and "pushReq_decode d' = Ok (bags, d'')" "importVerifyKey p pk = Ok vk"
    and "list_all storable bags" "seqs_fit (\<lambda>rlm. length (log (h_storage host) pk rlm)) (length bags)"
  defines "acc \<equiv> accepted p vk 0 bags"
    and "res \<equiv> set_results (\<lambda>rlm. length (log (h_storage host) pk rlm)) (map snd (accepted p vk 0 bags))"
  shows "\<exists>host' ps. push_handleReq p S now host d e = (host', (Ok (), e @ ps))
     \<and> concat ps = concat (map pushItem_wire (refused p vk 0 bags @ map answer (zip acc res)))
     \<and> inv (h_storage host') \<and> registered (h_storage host') = registered (h_storage host)
     \<and> (\<forall>pk' rlm. log (h_storage host') pk' rlm =
          log (h_storage host) pk' rlm @ (if pk' = pk then appended rlm (map snd acc) else []))
     \<and> (\<exists>push. h_pushes host' = h_pushes host @ push
          \<and> (if acc = [] then push = [] else \<exists>data. push = [(pk, data)]
              \<and> encode_with (\<lambda>e. writeStructs notifItem_encode e (concat (map (notif_of (length bags)) (zip acc res)))) = Ok data))"
proof -
  let ?n = "\<lambda>rlm. length (log (h_storage host) pk rlm)"
  have "int (?n []) + int (length bags) \<le> 2 ^ 53" using assms(7) unfolding seqs_fit_def by blast
  then have n: "0 + int (length bags) \<le> 2 ^ 53" by linarith
  have acc: "b \<in> set bags \<and> bagSigValid p b vk \<and> 0 \<le> i \<and> i \<le> 2 ^ 53" if "(i, b) \<in> set acc" for i b
    using that n indexed_bounds [of i b 0 bags] by (auto simp: acc_def accepted_def)
  have valid: "list_all (\<lambda>b. valid_rlm (bag_rlm b)) (map snd acc)"
    using acc by (auto simp: list_all_iff bagSigValid_iff valid_rlm_def)
  have st: "list_all storable (map snd acc)" using acc assms(6) by (auto simp: list_all_iff)
  have la: "length acc \<le> length bags"
    unfolding acc_def accepted_def by (rule le_trans [OF length_filter_le]) (simp add: indexed_def)
  have fit: "seqs_fit ?n (length (map snd acc))"
    using seqs_fit_mono [OF assms(7)] la by simp
  have lr: "length res = length acc" by (simp add: res_def acc_def)
  have pair: "\<exists>i b q. x = ((i, b), SetBag q) \<and> (i, b) \<in> set acc \<and> is_num i \<and> is_num q" if "x \<in> set (zip acc res)" for x
  proof -
    obtain i b r where e: "x = ((i, b), r)" by (metis surj_pair)
    then have x: "x = ((i, b), r)" "(i, b) \<in> set acc" "r \<in> set res"
      using that by (auto dest: set_zip_leftD set_zip_rightD)
    obtain q where q: "r = SetBag q" using set_results_valid [OF valid] x(3) by (auto simp: res_def acc_def)
    have "0 \<le> q \<and> q \<le> 2 ^ 53"
      using set_results_ok [OF fit] x(3) by (auto simp: q res_def acc_def)
    then show ?thesis using x acc [OF x(2)] q by (auto simp: is_num_safe)
  qed
  have ans: "list_all pushItem_ok (map answer (zip acc res))" using pair by (fastforce simp: list_all_iff)
  let ?notifs = "concat (map (notif_of (length bags)) (zip acc res))"
  obtain data where data: "encode_with (\<lambda>e. writeStructs notifItem_encode e ?notifs) = Ok data"
  proof -
    have "\<exists>w. emits (\<lambda>e. notifItem_encode e x) w" if x: "x \<in> set ?notifs" for x
    proof -
      obtain i b q where q: "((i, b), SetBag q) \<in> set (zip acc res)" "x \<in> set (notif_of (length bags) ((i, b), SetBag q))"
        "is_num q" "(i, b) \<in> set acc" using x pair by fastforce
      have "storable b" "length (bag_rlm b) = 32"
        using acc [OF q(4)] assms(6) by (auto simp: list_all_iff bagSigValid_iff)
      then show ?thesis
        using q(2,3) by (intro notif_encodes) (auto simp: storable_def short_def notifInlineBodyBytesThreshold_def)
    qed
    then show ?thesis using emits_structs_ex [of ?notifs notifItem_encode] that by blast
  qed
  have empty: "(length ?notifs > 0) = (acc \<noteq> [])"
  proof (cases acc)
    case (Cons v vs)
    then obtain r rs where r: "res = r # rs" using lr by (cases res) auto
    obtain i b where v: "v = (i, b)" by force
    have "(v, r) \<in> set (zip acc res)" by (simp add: Cons r)
    then obtain q where "r = SetBag q" using pair by blast
    then show ?thesis by (simp add: Cons r v)
  qed simp
  obtain ps1 where v: "push_verify p vk bags 0 [] e = (acc, (Ok (), e @ ps1))"
      "concat ps1 = concat (map pushItem_wire (refused p vk 0 bags))"
    using push_verify_ok [of 0 bags p vk "[]" e] n unfolding acc_def by auto
  obtain ps2 where a: "push_answer (length bags) acc res [] (e @ ps1) = (?notifs, (Ok (), (e @ ps1) @ ps2))"
      "concat ps2 = concat (map pushItem_wire (map answer (zip acc res)))"
    using push_answer_ok [OF lr st ans, of "length bags" "[]" "e @ ps1"] by auto
  obtain s' where s': "st_setBags S pk (map snd acc) (h_storage host) = (s', Ok res)" "inv s'"
      "registered s' = registered (h_storage host)"
      "\<forall>pk' rlm. log s' pk' rlm = log (h_storage host) pk' rlm @ (if pk' = pk then appended rlm (map snd acc) else [])"
    using set_bags [OF assms(1) st, of pk] unfolding res_def acc_def by blast
  let ?h = "host\<lparr>h_storage := s'\<rparr>"
  let ?h' = "if acc = [] then ?h else ?h\<lparr>h_pushes := h_pushes host @ [(pk, data)]\<rparr>"
  have "push_handleReq p S now host d e = (?h', (Ok (), e @ ps1 @ ps2))"
    using user_authenticated [OF assms(1,2)] assms(3-5) v(1) a(1) s'(1) data empty lr
    by (simp add: push_handleReq_def Let_def split del: if_split) simp
  then show ?thesis
    using v(2) a(2) s' data by (intro exI [of _ ?h'] exI [of _ "ps1 @ ps2"] conjI) auto
qed

end

section \<open>What no request can do\<close>

lemma push_verify_valid: "push_verify p vk bags n valid e = (valid', (Ok u, e')) \<Longrightarrow> valid' = valid @ accepted p vk n bags"
proof (induction bags arbitrary: n valid e)
  case (Cons b bs)
  show ?case
  proof (cases "bagSigValid p b vk")
    case True
    then show ?thesis using Cons.IH [of "n + 1" "valid @ [(n, b)]" e] Cons.prems by (simp add: accepted_def)
  next
    case False
    then obtain u1 e1 where "push_verify p vk bs (n + 1) valid e1 = (valid', (Ok u, e'))"
      using Cons.prems by (auto split: prod.splits vs.splits)
    then show ?thesis using Cons.IH False by (simp add: accepted_def)
  qed
qed (simp add: accepted_def)

lemma appended_in: "x \<in> set (appended rlm bags) \<Longrightarrow> \<exists>b \<in> set bags. x = entry_of b \<and> bag_rlm b = rlm"
  by (auto simp: appended_def)

lemma andThenH_cases:
  "andThenH r h e f = (h', w) \<Longrightarrow> (\<And>a. r = Ok a \<Longrightarrow> f a = (h', w) \<Longrightarrow> P) \<Longrightarrow> (h' = h \<Longrightarrow> P) \<Longrightarrow> P"
  by (cases r) auto

context bag_storage
begin

definition changed_by :: "prims \<Rightarrow> bytes \<Rightarrow> 's Host \<Rightarrow> 's Host \<Rightarrow> bool" where
  "changed_by p pk host host' =
     ((\<forall>pk'. pk' \<noteq> pk \<longrightarrow> log (h_storage host') pk' = log (h_storage host) pk'
              \<and> registered (h_storage host') pk' = registered (h_storage host) pk')
      \<and> (\<forall>rlm. \<exists>new. log (h_storage host') pk rlm = log (h_storage host) pk rlm @ new
            \<and> (\<forall>x \<in> set new. \<exists>b vk. x = entry_of b \<and> bag_rlm b = rlm \<and> importVerifyKey p pk = Ok vk
                 \<and> bagSigValid p b vk))
      \<and> (\<exists>push. h_pushes host' = h_pushes host @ push \<and> (\<forall>(pk', _) \<in> set push. pk' = pk)))"

lemma changed_by_storage:
  assumes "inv (h_storage host)" "importVerifyKey p pk = Ok vk" "\<forall>b \<in> set bags. bagSigValid p b vk"
    and "st_setBags S pk bags (h_storage host) = (s', r)"
    and "h_storage host' = s'" "h_pushes host' = h_pushes host @ push" "\<forall>(pk', _) \<in> set push. pk' = pk"
  shows "inv (h_storage host') \<and> changed_by p pk host host'"
proof -
  obtain n where n: "inv s'" "registered s' = registered (h_storage host)"
    "\<forall>pk' rlm. log s' pk' rlm = log (h_storage host) pk' rlm @ (if pk' = pk then appended rlm (take n bags) else [])"
    using set_bags_any [OF assms(1,4)] by blast
  have "\<exists>b vk. x = entry_of b \<and> bag_rlm b = rlm \<and> importVerifyKey p pk = Ok vk \<and> bagSigValid p b vk"
    if "x \<in> set (appended rlm (take n bags))" for x rlm
    using appended_in [OF that] assms(2,3) by (meson in_set_takeD)
  then have "\<exists>new. log (h_storage host') pk rlm = log (h_storage host) pk rlm @ new
      \<and> (\<forall>x \<in> set new. \<exists>b vk. x = entry_of b \<and> bag_rlm b = rlm \<and> importVerifyKey p pk = Ok vk \<and> bagSigValid p b vk)" for rlm
    using n(3) assms(5) by auto
  moreover have "log (h_storage host') pk' = log (h_storage host) pk'" if "pk' \<noteq> pk" for pk'
    using n(3) assms(5) that by (simp add: fun_eq_iff)
  ultimately show ?thesis
    using n(1,2) assms(5-7) unfolding changed_by_def by auto
qed

lemma user_safe:
  assumes "inv (h_storage host)" "user_handleReq p S now host d e = (host', w)" "host' \<noteq> host"
  shows "inv (h_storage host') \<and> (\<exists>pk d'. authenticate p now d = Ok (pk, d') \<and> changed_by p pk host host')"
proof -
  obtain pk d' where a: "authenticate p now d = Ok (pk, d')"
    and h: "(if \<not> done_dec d' then (host, (Err ExtraBodyContent, e))
         else case st_addUser S pk (h_storage host) of (s, r) \<Rightarrow> (host\<lparr>h_storage := s\<rparr>, (r, e))) = (host', w)"
    using assms(2,3) unfolding user_handleReq_def by (elim andThenH_cases) auto
  obtain s' where s': "st_addUser S pk (h_storage host) = (s', Ok ())" "inv s'" "log s' = log (h_storage host)"
    "\<forall>pk'. registered s' pk' = (pk' = pk \<or> registered (h_storage host) pk')"
    using add_user [OF assms(1), of pk] by blast
  have "host' = host\<lparr>h_storage := s'\<rparr>" using h s'(1) assms(3) by (auto split: if_splits)
  then show ?thesis using s' a by (auto simp: changed_by_def)
qed

lemma push_safe:
  assumes i: "inv (h_storage host)" and q: "push_handleReq p S now host d e = (host', w)" and n: "host' \<noteq> host"
  shows "inv (h_storage host') \<and>
    (\<exists>pk d'. authenticate p now d = Ok (pk, d') \<and> registered (h_storage host) pk \<and> changed_by p pk host host')"
proof -
  from q n obtain pk d' bags d'' vk where a: "authenticate_user p S now host d = Ok (pk, d')"
    "pushReq_decode d' = Ok (bags, d'')" "catch_err (importVerifyKey p pk) CryptoError = Ok vk"
    unfolding push_handleReq_def by (auto elim!: andThenH_cases)
  from a(1) have u: "authenticate p now d = Ok (pk, d')" "registered (h_storage host) pk"
    using user_authenticated [OF i] by (auto simp: authenticate_user_def has_user [OF i] split: if_splits)
  from a(3) have vk: "importVerifyKey p pk = Ok vk" by simp
  obtain valid vr e1 where v: "push_verify p vk bags 0 [] e = (valid, (vr, e1))" by (metis prod.exhaust)
  from q n a v have "\<exists>y. vr = Ok y" by (cases vr) (auto simp: push_handleReq_def)
  then have valid: "valid = accepted p vk 0 bags" using push_verify_valid [of p vk bags 0 "[]" e] v by auto
  then have sv: "\<forall>b \<in> set (map snd valid). bagSigValid p b vk" by (auto simp: accepted_def)
  obtain s' r where s': "st_setBags S pk (map snd valid) (h_storage host) = (s', r)" by force
  have "\<exists>push. h_storage host' = s' \<and> h_pushes host' = h_pushes host @ push \<and> (\<forall>(pk', _) \<in> set push. pk' = pk)"
  proof -
    obtain y where y: "vr = Ok y" using \<open>\<exists>y. vr = Ok y\<close> ..
    let ?h = "host\<lparr>h_storage := s'\<rparr>"
    from q have "andThenH r ?h e1 (\<lambda>stored.
                if length stored \<noteq> length valid then (?h, (Err StorageError, e1))
                else
                  (case push_answer (length bags) valid stored [] e1 of
                     (notifs, (Ok _, respEnc)) \<Rightarrow>
                       if length notifs > 0 then
                         andThenH (encode_with (\<lambda>e. writeStructs notifItem_encode e notifs)) ?h respEnc (\<lambda>batchEnc.
                         (?h\<lparr>h_pushes := h_pushes ?h @ [(pk, batchEnc)]\<rparr>, (Ok (), respEnc)))
                       else (?h, (Ok (), respEnc))
                   | (_, w) \<Rightarrow> (?h, w))) = (host', w)"
      using a v y s' by (simp add: push_handleReq_def Let_def)
    then show ?thesis
      by (elim andThenH_cases)
         (auto split: if_splits prod.splits vs.splits elim!: andThenH_cases)
  qed
  then obtain push where push: "h_storage host' = s'" "h_pushes host' = h_pushes host @ push"
    "\<forall>(pk', _) \<in> set push. pk' = pk" by blast
  show ?thesis using changed_by_storage [OF i vk sv s' push] u by blast
qed

lemma peek_pull_safe:
  "peek_handleReq p S now host d e = (host', w) \<Longrightarrow> host' = host"
  "pull_handleReq p S now host d e = (host', w) \<Longrightarrow> host' = host"
  by (auto simp: peek_handleReq_def pull_handleReq_def split: if_splits elim!: andThenH_cases)

lemma handler_safe:
  assumes "inv (h_storage host)" "handleReq name p S now host d e = (host', w)"
  shows "inv (h_storage host') \<and>
    (host' = host \<or> (\<exists>pk d'. authenticate p now d = Ok (pk, d') \<and> changed_by p pk host host'
        \<and> (name = CallUser \<or> name = CallPush \<and> registered (h_storage host) pk)))"
proof (cases "host' = host")
  case False
  show ?thesis
  proof (cases name)
    case CallUser
    then have "user_handleReq p S now host d e = (host', w)" using assms(2) by simp
    from user_safe [OF assms(1) this False] show ?thesis using CallUser by blast
  next
    case CallPush
    then have "push_handleReq p S now host d e = (host', w)" using assms(2) by simp
    from push_safe [OF assms(1) this False] show ?thesis using CallPush by blast
  qed (use assms(2) False peek_pull_safe in auto)
qed (use assms in simp)

end

section \<open>Properties of the host\<close>

lemma set_results_locate:
  "list_all (\<lambda>b. valid_rlm (bag_rlm b)) bags
   \<Longrightarrow> (b, SetBag q) \<in> set (zip bags (set_results (\<lambda>rlm. length (L rlm)) bags))
   \<Longrightarrow> 1 \<le> q \<and> nat (q - 1) < length (L (bag_rlm b) @ appended (bag_rlm b) bags)
       \<and> (L (bag_rlm b) @ appended (bag_rlm b) bags) ! nat (q - 1) = entry_of b"
proof (induction bags arbitrary: L)
  case (Cons c bs)
  have v: "valid_rlm (bag_rlm c)" "list_all (\<lambda>b. valid_rlm (bag_rlm b)) bs" using Cons.prems(1) by auto
  let ?L = "\<lambda>rlm. if rlm = bag_rlm c then L rlm @ [entry_of c] else L rlm"
  have f: "(\<lambda>rlm. length (L rlm))(bag_rlm c := length (L (bag_rlm c)) + 1) = (\<lambda>rlm. length (?L rlm))" by auto
  have ap: "?L rlm @ appended rlm bs = L rlm @ appended rlm (c # bs)" for rlm
    using v(1) by (simp add: appended_def)
  consider "b = c" "q = int (length (L (bag_rlm c))) + 1"
    | "(b, SetBag q) \<in> set (zip bs (set_results (\<lambda>rlm. length (?L rlm)) bs))"
    using Cons.prems(2) v(1) f by auto
  then show ?case
  proof cases
    case 1
    then show ?thesis using v(1) by (auto simp: appended_def nth_append nat_add_distrib)
  next
    case 2
    show ?thesis using Cons.IH [OF v(2) 2] unfolding ap by blast
  qed
qed simp

lemma indexed_map: "map fst (indexed n xs) = map (\<lambda>i. n + int i) [0..<length xs]"
  by (simp add: indexed_def)

lemma indexed_nth: "(i, b) \<in> set (indexed 0 bags) \<Longrightarrow> b = bags ! nat i"
  by (auto simp: indexed_def set_zip)

lemma accepted_bags: "map snd (accepted p vk n bags) = filter (\<lambda>b. bagSigValid p b vk) bags"
  by (induction bags arbitrary: n) (simp_all add: accepted_def)

lemma accepted_valid: "list_all (\<lambda>b. valid_rlm (bag_rlm b)) (map snd (accepted p vk n bags))"
  unfolding accepted_bags by (auto simp: list_all_iff bagSigValid_iff valid_rlm_def)

text \<open>The bags that a push stores and what the storage answers for them.\<close>

definition stored_of :: "prims \<Rightarrow> CryptoKey \<Rightarrow> (bytes \<Rightarrow> nat) \<Rightarrow> IBag list \<Rightarrow> ISetBagResult list" where
  "stored_of p vk n bags = set_results n (map snd (accepted p vk 0 bags))"

definition push_items :: "prims \<Rightarrow> CryptoKey \<Rightarrow> (bytes \<Rightarrow> nat) \<Rightarrow> IBag list \<Rightarrow> IBagPushItem list" where
  "push_items p vk n bags =
     refused p vk 0 bags @ map answer (zip (accepted p vk 0 bags) (stored_of p vk n bags))"

lemma length_set_results [simp]: "length (set_results n bags) = length bags"
  by (induction bags arbitrary: n) auto

lemma stored_answer:
  assumes "x \<in> set (map answer (zip (accepted p vk 0 bags) (stored_of p vk n bags)))"
  obtains i b q where "x = PushStored i q" "(i, b) \<in> set (indexed 0 bags)" "bagSigValid p b vk"
    "(b, SetBag q) \<in> set (zip (map snd (accepted p vk 0 bags)) (stored_of p vk n bags))"
proof -
  let ?acc = "accepted p vk 0 bags" and ?res = "stored_of p vk n bags"
  from assms obtain i b r where r: "x = answer ((i, b), r)" "((i, b), r) \<in> set (zip ?acc ?res)" by auto
  have m: "(b, r) \<in> set (zip (map snd ?acc) ?res)" using r(2) by (force simp: zip_map1)
  obtain q where "r = SetBag q"
    using set_results_valid [OF accepted_valid] set_zip_rightD [OF m] unfolding stored_of_def by blast
  moreover have "(i, b) \<in> set ?acc" using r(2) by (auto dest: set_zip_leftD)
  ultimately show ?thesis using r(1) m that by (auto simp: accepted_def)
qed

lemma push_items_cases:
  assumes "x \<in> set (push_items p vk n bags)"
  obtains (refused) i b where "x = PushRefused i InvalidSignature" "(i, b) \<in> set (indexed 0 bags)" "\<not> bagSigValid p b vk"
  | (stored) i b q where "x = PushStored i q" "(i, b) \<in> set (indexed 0 bags)" "bagSigValid p b vk"
    "(b, SetBag q) \<in> set (zip (map snd (accepted p vk 0 bags)) (stored_of p vk n bags))"
proof (cases "x \<in> set (refused p vk 0 bags)")
  case True
  then show ?thesis using refused by (auto simp: refused_def)
next
  case False
  then have "x \<in> set (map answer (zip (accepted p vk 0 bags) (stored_of p vk n bags)))"
    using assms by (auto simp: push_items_def)
  then show ?thesis by (rule stored_answer) (rule stored)
qed

lemma push_items_ok:
  assumes "seqs_fit n (length bags)"
  shows "list_all pushItem_ok (push_items p vk n bags)"
  unfolding list_all_iff
proof
  fix x assume x: "x \<in> set (push_items p vk n bags)"
  have "int (n []) + int (length bags) \<le> 2 ^ 53" using assms unfolding seqs_fit_def by blast
  then have i: "is_num i" if "(i, b) \<in> set (indexed 0 bags)" for i b
    using indexed_bounds [OF that] by (auto simp: is_num_safe)
  have "length (map snd (accepted p vk 0 bags)) \<le> length bags" unfolding accepted_bags by (rule length_filter_le)
  then have f: "seqs_fit n (length (map snd (accepted p vk 0 bags)))" by (rule seqs_fit_mono [OF assms])
  show "pushItem_ok x"
    using x
  proof (cases rule: push_items_cases)
    case (refused j b)
    have "status_ok InvalidSignature" by (rule status_ok_named) (simp add: status_names_def)
    then show ?thesis using refused i by simp
  next
    case (stored j b q)
    then have "SetBag q \<in> set (stored_of p vk n bags)" by (blast dest: set_zip_rightD)
    then have "is_num q" using set_results_ok [OF f] by (auto simp: stored_of_def is_num_safe)
    then show ?thesis using stored i by simp
  qed
qed

lemma push_indices:
  "mset (map item_idx (push_items p vk n bags)) = mset (map int [0..<length bags])"
proof -
  let ?f = "\<lambda>(_, b). bagSigValid p b vk" and ?acc = "accepted p vk 0 bags"
  have a: "map item_idx (map answer (zip acc res)) = map fst acc" if "length res = length acc" for acc res
    using that
  proof (induction res acc rule: list_induct2)
    case (Cons r rs a as) then show ?case by (cases a; cases r) simp_all
  qed simp
  have r: "map item_idx (refused p vk 0 bags) = map fst (filter (\<lambda>x. \<not> ?f x) (indexed 0 bags))"
    by (auto simp: refused_def case_prod_unfold)
  have "mset (map fst (filter (\<lambda>x. \<not> ?f x) (indexed 0 bags))) + mset (map fst (filter ?f (indexed 0 bags)))
      = image_mset fst (mset (indexed 0 bags))"
    by (simp add: image_mset_union [symmetric] add.commute multiset_partition [symmetric] del: image_mset_union)
  then show ?thesis
    using a [of "stored_of p vk n bags" ?acc] r indexed_map [of 0 bags]
    by (simp add: push_items_def stored_of_def accepted_def mset_map [symmetric] del: mset_map)
qed

text \<open>C7: what a request can change. Whatever bytes arrive, and whichever call they are sent to, the
  memory host stays well formed, and it is unchanged unless the request carries an auth timestamp
  that validates for some public key. Then only that user's state changes, only by
  registration, or, for a registered user, by appending bags whose signatures verify under the
  user's key; and notifications go to that user only.\<close>

theorem request_safety:
  assumes "ms_inv (h_storage host)"
    and "handleReq name p memStorage now host (Decoder req) Encoder = (host', w)"
  shows "ms_inv (h_storage host') \<and>
    (host' = host \<or>
     (\<exists>pk d'. authenticate p now (Decoder req) = Ok (pk, d')
       \<and> (name = CallUser \<or> name = CallPush \<and> mem_registered (h_storage host) pk)
       \<and> (\<forall>pk'. pk' \<noteq> pk \<longrightarrow> mem_log (h_storage host') pk' = mem_log (h_storage host) pk'
              \<and> mem_registered (h_storage host') pk' = mem_registered (h_storage host) pk')
       \<and> (\<forall>rlm. \<exists>new. mem_log (h_storage host') pk rlm = mem_log (h_storage host) pk rlm @ new
            \<and> (\<forall>x \<in> set new. \<exists>b vk. x = entry_of b \<and> bag_rlm b = rlm \<and> importVerifyKey p pk = Ok vk
                 \<and> bagSigValid p b vk))
       \<and> (\<exists>push. h_pushes host' = h_pushes host @ push \<and> (\<forall>(pk', _) \<in> set push. pk' = pk))))"
  using mem.handler_safe [OF assms] unfolding mem.changed_by_def by blast

theorem request_safety_witness:
  "\<exists>host' w. handleReq CallPush toy_prims memStorage (Some 5) \<lparr>h_storage = createMemoryStorage, h_pushes = []\<rparr>
       (Decoder [1, 2, 3]) Encoder = (host', w) \<and> ms_inv (h_storage host')"
proof -
  obtain host' w where h: "handleReq CallPush toy_prims memStorage (Some 5) \<lparr>h_storage = createMemoryStorage, h_pushes = []\<rparr>
       (Decoder [1, 2, 3]) Encoder = (host', w)" by (metis surj_pair)
  have "ms_inv (h_storage \<lparr>h_storage = createMemoryStorage, h_pushes = []\<rparr>)"
    by (simp add: ms_inv_def createMemoryStorage_def)
  from request_safety [OF this h] h show ?thesis by blast
qed

text \<open>C32: a push is answered bag by bag. For a registered user the response decodes to one item per
  bag of the request, each index once; a bag with a bad signature is refused with
  \<open>InvalidSignature\<close>, every other is stored, and the sequence number in its answer is the place
  of the bag in the user's log of its realm, which grows by exactly these bags in order.\<close>

theorem push_answers_every_bag:
  assumes "ms_inv (h_storage host)" "authenticate p now d = Ok (pk, d')" "mem_registered (h_storage host) pk"
    and "pushReq_decode d' = Ok (bags, d'')" "importVerifyKey p pk = Ok vk"
    and "list_all storable bags" "seqs_fit (\<lambda>rlm. length (mem_log (h_storage host) pk rlm)) (length bags)"
  shows "\<exists>host' e items d3. push_handleReq p memStorage now host d Encoder = (host', (Ok (), e))
    \<and> readStructs pushItem_decode (Decoder (enc_result e)) = Ok (items, d3)
    \<and> mset (map item_idx items) = mset (map int [0..<length bags])
    \<and> (\<forall>rlm. mem_log (h_storage host') pk rlm =
         mem_log (h_storage host) pk rlm @ appended rlm (filter (\<lambda>b. bagSigValid p b vk) bags))
    \<and> (\<forall>x \<in> set items. case x of
         PushRefused i st \<Rightarrow> st = InvalidSignature \<and> \<not> bagSigValid p (bags ! nat i) vk
       | PushStored i q \<Rightarrow> bagSigValid p (bags ! nat i) vk
           \<and> nat (q - 1) < length (mem_log (h_storage host') pk (bag_rlm (bags ! nat i)))
           \<and> mem_log (h_storage host') pk (bag_rlm (bags ! nat i)) ! nat (q - 1) = entry_of (bags ! nat i))"
proof -
  let ?L = "mem_log (h_storage host) pk"
  let ?items = "push_items p vk (\<lambda>rlm. length (?L rlm)) bags"
  obtain host' ps where h: "push_handleReq p memStorage now host d Encoder = (host', (Ok (), Encoder @ ps))"
    "concat ps = concat (map pushItem_wire ?items)"
    "\<forall>pk' rlm. mem_log (h_storage host') pk' rlm = mem_log (h_storage host) pk' rlm
       @ (if pk' = pk then appended rlm (filter (\<lambda>b. bagSigValid p b vk) bags) else [])"
    using mem.push_effect [OF assms] unfolding push_items_def stored_of_def accepted_bags by blast
  have items: "case x of
         PushRefused i st \<Rightarrow> st = InvalidSignature \<and> \<not> bagSigValid p (bags ! nat i) vk
       | PushStored i q \<Rightarrow> bagSigValid p (bags ! nat i) vk
           \<and> nat (q - 1) < length (mem_log (h_storage host') pk (bag_rlm (bags ! nat i)))
           \<and> mem_log (h_storage host') pk (bag_rlm (bags ! nat i)) ! nat (q - 1) = entry_of (bags ! nat i)"
    if "x \<in> set ?items" for x
    using that
  proof (cases rule: push_items_cases)
    case (stored i b q)
    then show ?thesis
      using set_results_locate [OF accepted_valid, of b q p vk 0 bags ?L] h(3) indexed_nth [OF stored(2)]
      by (simp add: stored_of_def accepted_bags)
  next
    case (refused i b)
    then show ?thesis using indexed_nth [OF refused(2)] by simp
  qed
  obtain d3 where "readStructs pushItem_decode (Decoder (enc_result (Encoder @ ps))) = Ok (?items, d3)"
    using pushItemCodec.structs_decode [OF push_items_ok [OF assms(7)], of "Decoder (concat ps)" p vk] h(2)
    by (auto simp: enc_result_def Encoder_def)
  then show ?thesis
    using h(1,3) items push_indices by (intro exI conjI ballI) auto
qed

text \<open>The decoder after the auth timestamp of a request.\<close>

lemma request_rest:
  "wf_dec (advance (Decoder (w @ rest)) (length w))" "unread (advance (Decoder (w @ rest)) (length w)) = rest"
  by (rule wf_advance) simp_all

lemma pushReq_decode_wire:
  "list_all bag_ok bags \<Longrightarrow> wf_dec d \<Longrightarrow> unread d = concat (map bag_wire bags) \<Longrightarrow> \<exists>d'. pushReq_decode d = Ok (bags, d')"
  by (simp add: pushReq_decode_def bagCodec.structs_decode)

lemma seals_bag_ok:
  "seals p bm msg bag \<Longrightarrow> short (bag_headCph bag) \<Longrightarrow> short (bag_bodyCph bag) \<Longrightarrow> bag_ok bag"
  by (auto simp: seals_def bag_ok_def hashBytes_def sigBytes_def kdmBytes_def)

theorem push_answers_every_bag_witness:
  "\<exists>host' e items d3 d. push_handleReq toy_prims memStorage (Some 5)
       \<lparr>h_storage = \<lparr>ms_users = [btoh (replicate 32 4)], ms_bag = []\<rparr>, h_pushes = []\<rparr> d Encoder = (host', (Ok (), e))
    \<and> readStructs pushItem_decode (Decoder (enc_result e)) = Ok (items, d3)
    \<and> mset (map item_idx items) = mset [0]"
proof -
  let ?h = "\<lparr>h_storage = \<lparr>ms_users = [btoh (replicate 32 4)], ms_bag = []\<rparr>, h_pushes = []\<rparr>"
  obtain a where a: "authTimestamp_ok a" "at_pubKey a = bm_publicKey sample_bm"
      "validateAuthTimestamp toy_prims (Some 5) a = Ok ()"
    using validate_made [of toy_prims sample_bm 5 5] by (auto simp: date_ok_def max_time_def)
  obtain vk where vk: "importVerifyKey toy_prims (replicate 32 4) = Ok vk"
    by (simp add: importVerifyKey_def toy_prims_def)
  let ?bag = "\<lparr>bag_rlm = replicate 32 2, bag_sig = replicate 64 0, bag_kdm = replicate 8 0, bag_headCph = [], bag_bodyCph = []\<rparr>"
  have bag: "list_all bag_ok [?bag]"
    by (simp add: bag_ok_def hashBytes_def sigBytes_def kdmBytes_def short_def)
  let ?w = "authTimestamp_wire a" and ?b = "concat (map bag_wire [?bag])"
  let ?d' = "advance (Decoder (?w @ ?b)) (length ?w)"
  obtain d'' where d'': "pushReq_decode ?d' = Ok ([?bag], d'')"
    using pushReq_decode_wire [OF bag request_rest] by blast
  have "\<exists>host' e items d3. push_handleReq toy_prims memStorage (Some 5) ?h (Decoder (?w @ ?b)) Encoder = (host', (Ok (), e))
    \<and> readStructs pushItem_decode (Decoder (enc_result e)) = Ok (items, d3)
    \<and> mset (map item_idx items) = mset [0]"
    using push_answers_every_bag [OF _ authenticate_wire [OF a(1,3)] _ d'', of ?h] vk
    by (force simp: a(2) sample_bm_def ms_inv_def mem_registered_def storable_def short_def bag_peekHead_def
        peekItemHead_wire_def varbytes_wire_def seqs_fit_def mem_log_def varint_wire_def)
  then show ?thesis by blast
qed

end
