(* ===== verification/HostHttp.thy ===== *)
theory HostHttp
  imports HostApi
begin

text \<open>
  The HTTP server always answers: no request makes a handler run forever, a throw inside a handler
  becomes a response with \<open>InternalError\<close>, and every response carries a readable head. The one
  throw that the bytes of a request can cause is a timestamp out of the range of dates.
\<close>

section \<open>Nothing runs forever\<close>

named_theorems ends

definition halts :: "'a vs \<Rightarrow> bool" where
  "halts r = (r \<noteq> Hang)"

lemma halts_simps [simp]: "halts (Ok a)" "halts (Err st)" "halts Throw" "\<not> halts Hang"
  by (simp_all add: halts_def)

lemma halts_andThen [ends]: "halts r \<Longrightarrow> (\<And>a. r = Ok a \<Longrightarrow> halts (f a)) \<Longrightarrow> halts (andThen r f)"
  by (cases r) auto

lemma halts_cases: "halts r \<Longrightarrow> (\<And>a. r = Ok a \<Longrightarrow> P) \<Longrightarrow> (\<And>st. r = Err st \<Longrightarrow> P) \<Longrightarrow> (r = Throw \<Longrightarrow> P) \<Longrightarrow> P"
  by (cases r) auto

lemma encodeVarInt_ends [ends]: "halts (encodeVarInt n)"
  by (simp add: encodeVarInt_eq halts_def)

lemma writeVarInt_ends [ends]: "halts (fst (writeVarInt e n))"
  using encodeVarInt_ends [of n] by (auto simp: writeVarInt_def split: vs.splits)

lemma writeBytes_ends [ends]: "halts (fst (writeBytes e bs))"
  by (simp add: writeBytes_def)

lemma thenW_ends [ends]: "halts (fst w) \<Longrightarrow> (\<And>e. halts (fst (f e))) \<Longrightarrow> halts (fst (thenW w f))"
  by (cases "(w, f)" rule: thenW.cases) auto

lemma guardW_ends [ends]: "(\<And>e. halts (fst (f e))) \<Longrightarrow> halts (fst (guardW c s f e))"
  by (simp add: guardW_def)

lemma ignoreW_ends [ends]: "halts (fst w) \<Longrightarrow> (\<And>e. halts (fst (f e))) \<Longrightarrow> halts (fst (ignoreW w f))"
  by (cases "(w, f)" rule: ignoreW.cases) auto

lemma writeDate_ends [ends]: "halts (fst (writeDate e t))"
  by (auto simp: writeDate_def writeVarInt_ends split: option.splits)

lemma writeVarBytes_ends [ends]: "halts (fst (writeVarBytes e bs))"
  unfolding writeVarBytes_def by (intro ends)

lemma writeStructs_ends [ends]: "(\<And>e x. halts (fst (wr e x))) \<Longrightarrow> halts (fst (writeStructs wr e xs))"
proof (induction xs arbitrary: e)
  case (Cons x xs)
  then show ?case by (simp add: thenW_ends)
qed simp

lemma usageQuota_ends [ends]: "halts (fst (usageQuota_encode e q))"
  unfolding usageQuota_encode_def by (auto intro!: ends split: option.splits)

lemma respHead_ends [ends]: "halts (fst (respHead_encode e h))"
  unfolding respHead_encode_def by (intro ends)

lemma items_end [ends]:
  "halts (fst (peekItem_encode e pk))" "halts (fst (pullItem_encode e pl))"
  "halts (fst (peekItemHead_encode e ph))" "halts (fst (pushItem_encode e pu))"
  unfolding peekItem_encode_def pullItem_encode_def peekItemHead_encode_def pushItem_encode_def
  by (auto intro!: ends split: IBagPushItem.splits)

lemma notif_end [ends]: "halts (fst (notifItem_encode e ni))"
  unfolding notifItem_encode_def Let_def by (auto intro!: ends split: option.splits)

lemma encode_with_ends [ends]: "(\<And>e. halts (fst (w e))) \<Longrightarrow> halts (encode_with w)"
proof -
  assume w: "\<And>e. halts (fst (w e))"
  show ?thesis using w [of Encoder] unfolding encode_with_def by (auto split: prod.splits vs.splits)
qed

lemma prim_ends [ends]: "halts (prim r)"
  by (cases r) simp_all

lemma importVerifyKey_ends [ends]: "halts (importVerifyKey p k)"
  unfolding importVerifyKey_def by (intro ends halts_simps)

lemma catch_err_ends [ends]: "halts (r) \<Longrightarrow> halts (catch_err r s)"
  by (cases r) simp_all

lemma validate_ends [ends]: "halts (validateAuthTimestamp p now a)"
  using writeDate_ends [of Encoder "at_timestamp a"]
  by (auto simp: validateAuthTimestamp_def Let_def intro!: ends split: prod.splits vs.splits)

lemma moves_ends: "moves k rd \<Longrightarrow> wf_dec d \<Longrightarrow> halts (rd d)"
  using moves_total unfolding halts_def by blast

lemma structs_ends: "moves 1 rd \<Longrightarrow> wf_dec d \<Longrightarrow> halts (readStructs rd d)"
  using readStructs_from_moves [of rd d "[]"] by (auto simp: readStructs_def halts_def)

lemma hasUser_ends [ends]: "halts (mem_hasUser pk s)"
  by (simp add: mem_hasUser_def)

lemma authenticate_ends [ends]: "halts (authenticate p now (Decoder bs))"
  unfolding authenticate_def
  by (auto intro!: ends moves_ends [OF authTimestampCodec.rd_moves] split: prod.splits)

lemma authenticate_user_ends [ends]: "halts (authenticate_user p memStorage now host (Decoder bs))"
  unfolding authenticate_user_def
  by (auto intro!: ends split: prod.splits simp: memStorage_def)

lemma authenticate_wf: "authenticate p now (Decoder bs) = Ok (pk, d) \<Longrightarrow> wf_dec d"
  unfolding authenticate_def using moves_Ok [OF authTimestampCodec.rd_moves, of "Decoder bs"] by auto

lemma authenticate_user_wf: "authenticate_user p S now host (Decoder bs) = Ok (pk, d) \<Longrightarrow> wf_dec d"
  unfolding authenticate_user_def by (auto split: if_splits dest: authenticate_wf)

lemma mem_ends:
  "halts (snd (setBags_loop bags maxBy u out))" "halts (snd (mem_setBags pk bags s))"
  "halts (mem_getBodies pk rlm seqs s)" "halts (mem_listHeads pk rlm m s)"
proof -
  have l: "halts (snd (setBags_loop bags maxBy u out))" for bags maxBy u out
  proof (induction bags maxBy u out rule: setBags_loop.induct)
    case (2 bag bags maxBy u out)
    have "halts (encode_with (\<lambda>e. peekItemHead_encode e (bag_peekHead bag)))" by (intro ends)
    then show ?case using 2 by (auto simp: Let_def split: vs.splits)
  qed simp
  then show "halts (snd (setBags_loop bags maxBy u out))" .
  show "halts (snd (mem_setBags pk bags s))"
    using l [of bags "[]" "case map_get (ms_bag s) (btoh pk) of Some u \<Rightarrow> u | None \<Rightarrow> []" "[]"]
    by (auto simp: mem_setBags_def Let_def split: prod.splits)
  show "halts (mem_getBodies pk rlm seqs s)" "halts (mem_listHeads pk rlm m s)"
    by (auto simp: mem_getBodies_def mem_listHeads_def Let_def split: option.splits)
qed

lemma push_verify_ends: "halts (fst (snd (push_verify p vk bags idx valid e)))"
proof (induction bags arbitrary: idx valid e)
  case (Cons b bs)
  have "halts (fst (pushItem_encode e (PushRefused idx InvalidSignature)))" by (rule ends)
  then show ?case using Cons by (auto split: prod.splits vs.splits)
qed simp

lemma push_answer_ends: "halts (fst (snd (push_answer n valid stored notifs e)))"
proof (induction n valid stored notifs e rule: push_answer.induct)
  case (1 n idx bag valid st stored notifs e)
  have "halts (fst (pushItem_encode e (PushRefused idx st)))" by (rule ends)
  then show ?case using 1 by (auto split: prod.splits vs.splits)
next
  case (2 n idx bag valid seq stored notifs e)
  have "halts (fst (pushItem_encode e (PushStored idx seq)))"
    "halts (encode_with (\<lambda>e. peekItemHead_encode e (bag_peekHead bag)))" by (intro ends)+
  then show ?case using 2 by (auto simp: Let_def split: prod.splits vs.splits)
qed simp_all

lemma andThenH_ends: "halts (r) \<Longrightarrow> (\<And>a. r = Ok a \<Longrightarrow> halts (fst (snd (f a)))) \<Longrightarrow> halts (fst (snd (andThenH r h e f)))"
  by (cases r) simp_all

lemma memStorage_ops [simp]:
  "st_addUser memStorage = mem_addUser" "st_hasUser memStorage = mem_hasUser" "st_setBags memStorage = mem_setBags"
  "st_getBodies memStorage = mem_getBodies" "st_listHeads memStorage = mem_listHeads"
  by (simp_all add: memStorage_def)

lemma asHostRlm_halts [ends]: "halts (asHostRlm b)"
  using asHostRlm_total [of b] by (auto simp: halts_def)

lemma pullReq_halts: "wf_dec d \<Longrightarrow> halts (pullReq_decode d)"
  unfolding pullReq_decode_def
  by (auto intro!: ends moves_ends [OF moves_readBytes] structs_ends [OF moves_readVarInt]
      dest: moves_Ok [OF moves_readBytes [OF le0]])

lemma handleReq_halts: "halts (fst (snd (handleReq name p memStorage now host (Decoder req) e)))"
proof (cases name)
  case CallUser
  then show ?thesis
    by (auto simp: user_handleReq_def mem_addUser_def intro!: andThenH_ends ends split: prod.splits)
next
  case CallPeek
  then show ?thesis
    by (auto simp: peek_handleReq_def intro!: andThenH_ends ends mem_ends
        moves_ends [OF peekCursorCodec.rd_moves] dest: authenticate_user_wf)
next
  case CallPull
  then show ?thesis
    by (auto simp: pull_handleReq_def intro!: andThenH_ends ends mem_ends pullReq_halts dest: authenticate_user_wf)
next
  case CallPush
  have v: "push_verify p vk bags n valid e \<noteq> (x, (Hang, e'))" for vk bags n valid e x e'
    using push_verify_ends [of p vk bags n valid e] by auto
  have w: "push_answer n valid stored notifs e \<noteq> (x, (Hang, e'))" for n valid stored notifs e x e'
    using push_answer_ends [of n valid stored notifs e] by auto
  have m: "halts a" if "mem_setBags pk bags s = (x, a)" for pk bags s x a
    using mem_ends(2) [of pk bags s] that by simp
  show ?thesis
    by (auto simp: CallPush push_handleReq_def Let_def pushReq_decode_def
        intro!: andThenH_ends ends structs_ends [OF bagCodec.rd_moves]
        dest: authenticate_user_wf simp: v w split: prod.splits vs.splits) (erule m)
qed

section \<open>Every request is answered\<close>

lemma status_byte_decoded: "status_byte (status_of_code (unat (status_byte s))) = status_byte s"
proof (cases "find (\<lambda>t. status_code t = unat (status_byte s)) status_names")
  case None
  then show ?thesis by (simp add: status_of_code_def status_byte_def)
next
  case (Some t)
  then have "status_code t = unat (status_byte s)" by (auto simp: find_Some_iff)
  then have "status_byte t = status_byte s" unfolding status_byte_def [of t] by simp
  then show ?thesis by (simp add: status_of_code_def Some)
qed

text \<open>A head with any status encodes, and reads back with the status its byte stands for.\<close>

lemma resp_head_wire:
  assumes "date_ok r" "date_ok t"
  obtains ps where "respHead_encode Encoder (resp_head st r t) = (Ok (), ps)"
    "\<forall>rest. \<exists>d. respHead_decode (Decoder (enc_result ps @ rest)) =
        Ok (resp_head (status_of_code (unat (status_byte st))) r t, d) \<and> unread d = rest"
proof -
  let ?st = "status_of_code (unat (status_byte st))"
  have "status_ok ?st" by (simp add: status_ok_def status_byte_decoded)
  then have h: "respHead_ok (resp_head ?st r t)"
    using assms by (simp add: resp_head_def respHead_ok_def sub_ok_def nullSubMeta_def usageQuota_ok_def is_num_safe)
  have w: "respHead_encode e (resp_head st r t) = respHead_encode e (resp_head ?st r t)" for e
    by (simp add: respHead_encode_def resp_head_def status_byte_decoded)
  obtain ps where ps: "respHead_encode Encoder (resp_head ?st r t) = (Ok (), Encoder @ ps)"
    "concat ps = respHead_wire (resp_head ?st r t)"
    using respHeadCodec.wr_emits [OF h] unfolding emits_def by blast
  show ?thesis
    using ps w respHeadCodec.decode_ok [OF h] request_rest(2)
    by (intro that [of ps]) (auto simp: enc_result_def Encoder_def)
qed

lemma errResp_ok:
  assumes "date_ok r" "date_ok t"
  shows "\<exists>body d. errResp (resp_head st r t) = Ok \<lparr>rs_status = 200, rs_body = Some body\<rparr>
    \<and> respHead_decode (Decoder body) = Ok (resp_head (status_of_code (unat (status_byte st))) r t, d) \<and> unread d = []"
proof -
  obtain ps where ps: "respHead_encode Encoder (resp_head st r t) = (Ok (), ps)"
    "\<forall>rest. \<exists>d. respHead_decode (Decoder (enc_result ps @ rest)) =
        Ok (resp_head (status_of_code (unat (status_byte st))) r t, d) \<and> unread d = rest"
    by (rule resp_head_wire [OF assms, of st])
  then show ?thesis using spec [OF ps(2), of "[]"] by (auto simp: errResp_def binResp_def)
qed

text \<open>C39: the HTTP server answers every request. Whatever method, path and bytes arrive, with host
  clock readings that are valid dates, the handler of the memory host comes to an end with a
  response of HTTP status 200 whose body opens with a readable response head carrying the time of
  receipt. The rest of the body is empty when the head's status is not \<open>Success\<close>, and a throw
  inside a handler shows as \<open>InternalError\<close>.\<close>

theorem http_always_answers:
  assumes "date_ok rcvd" "date_ok sent" "date_ok errSent"
  shows "\<exists>host' body head d. http_handler p memStorage (rcvd, now, sent, errSent) rq host =
      (host', Ok \<lparr>rs_status = 200, rs_body = Some body\<rparr>)
    \<and> respHead_decode (Decoder body) = Ok (head, d) \<and> rh_timeRcvd head = rcvd
    \<and> (rh_status head \<noteq> Success \<longrightarrow> unread d = [])
    \<and> (\<forall>bs name h e. rq_method rq = js ''POST'' \<longrightarrow> rq_body rq = Some bs \<longrightarrow> callPaths (rq_path rq) = Some name
         \<longrightarrow> handleReq name p memStorage now host (Decoder bs) Encoder = (h, (Throw, e)) \<longrightarrow> rh_status head = InternalError)"
proof -
  have err: "\<exists>body head d. errResp (resp_head st rcvd errSent) = Ok \<lparr>rs_status = 200, rs_body = Some body\<rparr>
      \<and> respHead_decode (Decoder body) = Ok (head, d) \<and> rh_timeRcvd head = rcvd \<and> unread d = []
      \<and> (st = InternalError \<longrightarrow> rh_status head = InternalError)" for st
  proof -
    have "status_of_code (unat (status_byte InternalError)) = InternalError"
      using status_ok_named [of InternalError] by (simp add: status_ok_def status_names_def)
    then show ?thesis using errResp_ok [OF assms(1,3), of st] by (auto simp: resp_head_def)
  qed
  show ?thesis
  proof (cases "rq_method rq = js ''POST'' \<and> (\<exists>bs name. rq_body rq = Some bs \<and> callPaths (rq_path rq) = Some name)")
    case False
    have "\<exists>st. http_handler p memStorage (rcvd, now, sent, errSent) rq host = (host, errResp (resp_head st rcvd errSent))"
    proof (cases "rq_method rq = js ''POST''")
      case True
      with False show ?thesis
        by (cases "rq_body rq"; cases "callPaths (rq_path rq)") (auto simp: http_handler_def)
    qed (auto simp: http_handler_def)
    then obtain st where "http_handler p memStorage (rcvd, now, sent, errSent) rq host = (host, errResp (resp_head st rcvd errSent))" ..
    with False err [of st] show ?thesis by auto
  next
    case True
    then obtain bs name where q: "rq_method rq = js ''POST''" "rq_body rq = Some bs" "callPaths (rq_path rq) = Some name" by blast
    obtain h r e where h: "handleReq name p memStorage now host (Decoder bs) Encoder = (h, (r, e))" by (metis surj_pair)
    have "halts r" using handleReq_halts [of name p now host bs Encoder] h by simp
    have answered: "\<exists>body head d. http_handler p memStorage (rcvd, now, sent, errSent) rq host =
        (h, Ok \<lparr>rs_status = 200, rs_body = Some body\<rparr>)
      \<and> respHead_decode (Decoder body) = Ok (head, d) \<and> rh_timeRcvd head = rcvd
      \<and> (rh_status head \<noteq> Success \<longrightarrow> unread d = [])" if st: "status_value r = Ok st" for st
    proof (cases "st = Success")
      case True
      have s: "status_of_code (unat (status_byte Success)) = Success" by simp
      obtain ps where "respHead_encode Encoder (resp_head st rcvd sent) = (Ok (), ps)"
        "\<forall>rest. \<exists>d. respHead_decode (Decoder (enc_result ps @ rest)) = Ok (resp_head Success rcvd sent, d) \<and> unread d = rest"
        using resp_head_wire [OF assms(1,2), of st] unfolding True s by blast
      moreover obtain d where "respHead_decode (Decoder (enc_result ps @ enc_result e)) = Ok (resp_head Success rcvd sent, d)"
        using calculation(2) by blast
      ultimately show ?thesis using True st
        by (auto simp: http_handler_def q h binResp_def prependBytes_def enc_result_def resp_head_def)
    next
      case False
      obtain ps where "respHead_encode Encoder (resp_head st rcvd sent) = (Ok (), ps)"
        using resp_head_wire [OF assms(1,2), of st] by blast
      with False st have "http_handler p memStorage (rcvd, now, sent, errSent) rq host =
          (h, case errResp (resp_head st rcvd errSent) of Throw \<Rightarrow> errResp (resp_head InternalError rcvd errSent) | r \<Rightarrow> r)"
        by (simp add: http_handler_def q h)
      with err [of st] show ?thesis by auto
    qed
    from \<open>halts r\<close> show ?thesis
    proof (rule halts_cases)
      assume r: "r = Throw"
      show ?thesis using err [of InternalError] by (auto simp: http_handler_def q h r)
    next
      fix st assume "r = Err st"
      then show ?thesis using answered [of st] h q by auto
    next
      fix u assume "r = Ok u"
      then show ?thesis using answered [of Success] h q by auto
    qed
  qed
qed

theorem http_always_answers_witness:
  "\<exists>host' body head d. http_handler toy_prims memStorage (Some 7, Some 8, Some 9, Some 10)
        \<lparr>rq_method = js ''POST'', rq_path = js ''/push'', rq_body = Some [1, 2, 3]\<rparr>
        \<lparr>h_storage = createMemoryStorage, h_pushes = []\<rparr> = (host', Ok \<lparr>rs_status = 200, rs_body = Some body\<rparr>)
    \<and> respHead_decode (Decoder body) = Ok (head, d) \<and> rh_timeRcvd head = Some 7"
proof -
  have "date_ok (Some 7)" "date_ok (Some 9)" "date_ok (Some 10)" by (simp_all add: date_ok_def max_time_def)
  from http_always_answers [OF this] show ?thesis by blast
qed

text \<open>A timestamp out of the range of dates. If the auth timestamp of a request decodes to an
  Invalid Date, the tolerance check does not reject it, because a comparison with NaN is false,
  and re-encoding it for the signature check throws: no handler returns a status, the host is left
  as it was, the local transport throws and the HTTP server answers \<open>InternalError\<close> instead of
  \<open>ClockOutOfSync\<close>.\<close>

theorem invalid_timestamp_throws:
  assumes "authTimestamp_decode (Decoder req) = Ok (a, d)" "at_timestamp a = None" "enc_result enc = req"
  shows "validateAuthTimestamp p now a = Throw
    \<and> handleReq name p S now host (Decoder req) e = (host, (Throw, e))
    \<and> lpc_call p S (rcvd, now, sent) name enc host = (host, Throw)
    \<and> (rq_method rq = js ''POST'' \<longrightarrow> rq_body rq = Some req \<longrightarrow> callPaths (rq_path rq) = Some name \<longrightarrow>
         http_handler p S (rcvd, now, sent, errSent) rq host = (host, errResp (resp_head InternalError rcvd errSent)))"
proof -
  have v: "validateAuthTimestamp p now a = Throw"
    by (simp add: validateAuthTimestamp_def clock_too_far_def assms(2) writeDate_def split: option.splits)
  have au: "authenticate p now (Decoder req) = Throw" by (simp add: authenticate_def assms(1) v)
  have h: "handleReq name p S now host (Decoder req) e = (host, (Throw, e))" for e
    by (cases name) (simp_all add: user_handleReq_def peek_handleReq_def pull_handleReq_def push_handleReq_def
        authenticate_user_def au)
  have "lpc_call p S (rcvd, now, sent) name enc host = (host, Throw)"
    by (simp add: lpc_call_def assms(3) h)
  moreover have "http_handler p S (rcvd, now, sent, errSent) rq host = (host, errResp (resp_head InternalError rcvd errSent))"
    if "rq_method rq = js ''POST''" "rq_body rq = Some req" "callPaths (rq_path rq) = Some name"
    using that by (auto simp: http_handler_def h split: vs.splits)
  ultimately show ?thesis using v h by blast
qed

definition far_request :: bytes where
  "far_request = replicate 96 0 @ replicate 7 255 @ [127]"

lemma far_request_decodes:
  "case authTimestamp_decode (Decoder far_request) of Ok (a, d) \<Rightarrow> at_timestamp a = None | _ \<Rightarrow> False"
  by code_simp

theorem invalid_timestamp_throws_witness:
  "lpc_call toy_prims memStorage (Some 7, Some 8, Some 9) CallPush [far_request]
     \<lparr>h_storage = createMemoryStorage, h_pushes = []\<rparr> = (\<lparr>h_storage = createMemoryStorage, h_pushes = []\<rparr>, Throw)"
proof -
  obtain a d where "authTimestamp_decode (Decoder far_request) = Ok (a, d)" "at_timestamp a = None"
    using far_request_decodes by (auto split: vs.splits prod.splits)
  moreover have "enc_result [far_request] = far_request" by (simp add: enc_result_def)
  ultimately show ?thesis
    using invalid_timestamp_throws [of far_request a d "[far_request]" toy_prims "Some 8" CallPush memStorage] by blast
qed

end
