(* ===== verification/HostClient.thy ===== *)
theory HostClient
  imports HostApi Complex_Main
begin

text \<open>
  The client side of the protocol: the clock offset of \<^verbatim>\<open>shared/clock.ts\<close> and the API client of
  \<^verbatim>\<open>shared/client.ts\<close>, over any transport. A world \<open>'w\<close> is whatever the transport and the
  metadata callback change; readings of the client's clock are arguments. The properties put
  the client, the local transport and the memory host together.
\<close>

section \<open>The clock offset (clock.ts)\<close>

text \<open>
  Milliseconds as the exact quotient; NaN when one of the dates is invalid. (A difference of two
  times of more than $2^{53}$ ms would be rounded by the double subtraction.)
\<close>

definition offset :: "date \<Rightarrow> date \<Rightarrow> date \<Rightarrow> date \<Rightarrow> rat option" where
  "offset timeSentClient timeRcvdHost timeSentHost timeRcvdClient =
     (case (timeSentClient, timeRcvdHost, timeSentHost, timeRcvdClient) of
        (Some sc, Some rh, Some sh, Some rc) \<Rightarrow>
          (let delayHostRecv = rh - sc; delayClientRecv = sh - rc
           in Some (of_int (delayHostRecv + delayClientRecv) / 2))
      | _ \<Rightarrow> None)"

section \<open>The client (client.ts)\<close>

definition hostBagMgrs :: "prims \<Rightarrow> OuterEnclave \<Rightarrow> IKDM \<Rightarrow> IKDM list \<Rightarrow> BagManager list vs" where
  "hostBagMgrs p enclave idKDM realms = vs_map (\<lambda>realm. bagman p enclave idKDM realm) realms"

record DiplomaticClientAPI =
  ca_bagMgrs :: "BagManager list"

definition bagMgrFor :: "DiplomaticClientAPI \<Rightarrow> IKDM \<Rightarrow> BagManager option" where
  "bagMgrFor c realm = find (\<lambda>bagMgr. kdmEq realm (bm_realmKDM bagMgr)) (ca_bagMgrs c)"

definition client_add :: "BagManager \<Rightarrow> DiplomaticClientAPI \<Rightarrow> DiplomaticClientAPI" where
  "client_add bagMgr c =
     (if bagMgrFor c (bm_realmKDM bagMgr) \<noteq> None then c
      else c\<lparr>ca_bagMgrs := ca_bagMgrs c @ [bagMgr]\<rparr>)"

definition client_identity :: "DiplomaticClientAPI \<Rightarrow> BagManager vs" where
  "client_identity c =
     (case bagMgrFor c nullKDM of
        Some bagMgr \<Rightarrow> Ok bagMgr
      | None \<Rightarrow> (case ca_bagMgrs c of [] \<Rightarrow> Err NotFound | bagMgr # _ \<Rightarrow> Ok bagMgr))"

definition hostRlm :: "DiplomaticClientAPI \<Rightarrow> IKDM \<Rightarrow> bytes vs" where
  "hostRlm c realm = (case bagMgrFor c realm of None \<Rightarrow> Err NotFound | Some bagMgr \<Rightarrow> Ok (bm_rlm bagMgr))"

definition client_seal :: "prims \<Rightarrow> bytes \<Rightarrow> bytes \<Rightarrow> DiplomaticClientAPI \<Rightarrow> IMessage \<Rightarrow> IKDM \<Rightarrow> IBag vs" where
  "client_seal p n1 n2 c msg realm =
     (case bagMgrFor c realm of None \<Rightarrow> Err NotFound | Some bagMgr \<Rightarrow> sealBag p n1 n2 msg bagMgr)"

text \<open>An endpoint as the client uses it, and the four of \<^verbatim>\<open>shared/api\<close>.\<close>

record ('q, 'r) Endpoint =
  ep_name :: APICallName
  ep_encodeReq :: "IAuthTimestamp \<Rightarrow> 'q \<Rightarrow> encoder \<Rightarrow> written"
  ep_decodeResp :: "decoder \<Rightarrow> 'r vs"

definition api_user :: "(unit, unit) Endpoint" where
  "api_user = \<lparr>ep_name = CallUser, ep_encodeReq = (\<lambda>authTS _ e. authTimestamp_encode e authTS),
               ep_decodeResp = (\<lambda>_. Ok ())\<rparr>"

definition api_peek :: "(IPeekCursor, IBagPeekItem list) Endpoint" where
  "api_peek = \<lparr>ep_name = CallPeek,
     ep_encodeReq = (\<lambda>authTS cursor e. thenW (authTimestamp_encode e authTS) (\<lambda>e. peekCursor_encode e cursor)),
     ep_decodeResp = (\<lambda>d. andThen (readStructs peekItem_decode d) (\<lambda>(xs, _). Ok xs))\<rparr>"

definition api_push :: "(IBag list, IBagPushItem list) Endpoint" where
  "api_push = \<lparr>ep_name = CallPush,
     ep_encodeReq = (\<lambda>authTS bags e. thenW (authTimestamp_encode e authTS) (\<lambda>e. pushReq_encode e bags)),
     ep_decodeResp = (\<lambda>d. andThen (readStructs pushItem_decode d) (\<lambda>(xs, _). Ok xs))\<rparr>"

definition api_pull :: "(IPullReq, IBagPullItem list) Endpoint" where
  "api_pull = \<lparr>ep_name = CallPull,
     ep_encodeReq = (\<lambda>authTS req e. thenW (authTimestamp_encode e authTS) (\<lambda>e. pullReq_encode e req)),
     ep_decodeResp = (\<lambda>d. andThen (readStructs pullItem_decode d) (\<lambda>(xs, _). Ok xs))\<rparr>"

record IHostMetadata =
  hm_clockOffset :: "rat option"
  hm_subscription :: ISubscriptionMetadata

type_synonym 'w transport = "APICallName \<Rightarrow> encoder \<Rightarrow> 'w \<Rightarrow> 'w \<times> decoder vs"
type_synonym 'w metaUpdate = "IHostMetadata \<Rightarrow> 'w \<Rightarrow> 'w \<times> unit vs"

fun andThenC :: "'a vs \<Rightarrow> 'w \<Rightarrow> ('a \<Rightarrow> 'w \<times> 'b vs) \<Rightarrow> 'w \<times> 'b vs" where
  "andThenC (Ok a) w f = f a"
| "andThenC (Err s) w f = (w, Err s)"
| "andThenC Throw w f = (w, Throw)"
| "andThenC Hang w f = (w, Hang)"

text \<open>One call: the readings of the clock for the auth timestamp, on sending and on receipt.\<close>

definition client_call ::
    "prims \<Rightarrow> 'w transport \<Rightarrow> 'w metaUpdate \<Rightarrow> date \<times> date \<times> date \<Rightarrow> DiplomaticClientAPI
     \<Rightarrow> ('q, 'r) Endpoint \<Rightarrow> 'q \<Rightarrow> 'w \<Rightarrow> 'w \<times> 'r vs" where
  "client_call p transport updateHostMeta clk c ep body w =
     (case clk of (now, timeSent, timeRcvd) \<Rightarrow>
      andThenC (client_identity c) w (\<lambda>identity.
      andThenC (makeAuthTimestamp p identity now) w (\<lambda>authTS.
      case ep_encodeReq ep authTS body Encoder of
        (Err s, _) \<Rightarrow> (w, Err s) | (Throw, _) \<Rightarrow> (w, Throw) | (Hang, _) \<Rightarrow> (w, Hang)
      | (Ok _, enc) \<Rightarrow>
         (case transport (ep_name ep) enc w of
            (w, dec) \<Rightarrow>
              andThenC dec w (\<lambda>dec.
              andThenC (respHead_decode dec) w (\<lambda>(head, dec).
              if rh_status head \<noteq> Success then (w, Err (rh_status head))
              else
                let meta = \<lparr>hm_clockOffset = offset timeSent (rh_timeRcvd head) (rh_timeSent head) timeRcvd,
                            hm_subscription = rh_subscription head\<rparr>
                in (case updateHostMeta meta w of
                      (w, statMeta) \<Rightarrow> andThenC statMeta w (\<lambda>_. (w, ep_decodeResp ep dec)))))))))"

definition client_register ::
    "prims \<Rightarrow> 'w transport \<Rightarrow> 'w metaUpdate \<Rightarrow> date \<times> date \<times> date \<Rightarrow> DiplomaticClientAPI \<Rightarrow> 'w \<Rightarrow> 'w \<times> unit vs" where
  "client_register p T U clk c w = client_call p T U clk c api_user () w"

definition client_push ::
    "prims \<Rightarrow> 'w transport \<Rightarrow> 'w metaUpdate \<Rightarrow> date \<times> date \<times> date \<Rightarrow> DiplomaticClientAPI
     \<Rightarrow> IBag list \<Rightarrow> 'w \<Rightarrow> 'w \<times> IBagPushItem list vs" where
  "client_push p T U clk c bags w = client_call p T U clk c api_push bags w"

definition client_peek ::
    "prims \<Rightarrow> 'w transport \<Rightarrow> 'w metaUpdate \<Rightarrow> date \<times> date \<times> date \<Rightarrow> DiplomaticClientAPI
     \<Rightarrow> int \<Rightarrow> IKDM \<Rightarrow> 'w \<Rightarrow> 'w \<times> IBagPeekItem list vs" where
  "client_peek p T U clk c lastSeq realm w =
     andThenC (hostRlm c realm) w (\<lambda>rlm. client_call p T U clk c api_peek \<lparr>pc_rlm = rlm, pc_seq = lastSeq\<rparr> w)"

definition client_pull ::
    "prims \<Rightarrow> 'w transport \<Rightarrow> 'w metaUpdate \<Rightarrow> date \<times> date \<times> date \<Rightarrow> DiplomaticClientAPI
     \<Rightarrow> int list \<Rightarrow> IKDM \<Rightarrow> 'w \<Rightarrow> 'w \<times> IBagPullItem list vs" where
  "client_pull p T U clk c seqs realm w =
     andThenC (hostRlm c realm) w (\<lambda>rlm. client_call p T U clk c api_pull \<lparr>pr_rlm = rlm, pr_seqs = seqs\<rparr> w)"

text \<open>Listening over a local connection: receiver \<open>recv\<close> of the notifier gets the batches.\<close>

definition client_listen ::
    "prims \<Rightarrow> date \<Rightarrow> date \<Rightarrow> DiplomaticClientAPI \<Rightarrow> nat \<Rightarrow> CallbackListener \<times> CallbackNotifier
     \<Rightarrow> (CallbackListener \<times> CallbackNotifier) \<times> unit vs" where
  "client_listen p now hostNow c recv w =
     andThenC (client_identity c) w (\<lambda>identity.
     andThenC (makeAuthTimestamp p identity now) w (\<lambda>authTS.
     case cl_connect p hostNow authTS recv (fst w) (snd w) of (cl, cn, r) \<Rightarrow> ((cl, cn), r)))"

definition closeListener :: "CallbackListener \<times> CallbackNotifier \<Rightarrow> CallbackListener \<times> CallbackNotifier" where
  "closeListener w = cl_disconnect (fst w) (snd w)"

section \<open>A client and a host joined by local calls\<close>

text \<open>The world of a local connection: the host and the metadata the client has been given.\<close>

type_synonym 's local = "'s Host \<times> IHostMetadata list"

definition lpc_transport :: "prims \<Rightarrow> 's IStorage \<Rightarrow> date \<times> date \<times> date \<Rightarrow> 's local transport" where
  "lpc_transport p S hclk name enc w =
     (case lpc_call p S hclk name enc (fst w) of (host, r) \<Rightarrow> ((host, snd w), r))"

definition record_meta :: "'s local metaUpdate" where
  "record_meta meta w = ((fst w, snd w @ [meta]), Ok ())"

section \<open>Lemmas on exchanges\<close>

text \<open>Client and host clocks that agree within the tolerance, and a client with a usable identity.\<close>

definition linked ::
    "prims \<Rightarrow> DiplomaticClientAPI \<Rightarrow> BagManager \<Rightarrow> date \<times> date \<times> date \<Rightarrow> date \<times> date \<times> date \<Rightarrow> bool" where
  "linked p c bm clk hclk =
     (prims_ok p \<and> client_identity c = Ok bm \<and> bm_ok p bm \<and>
      (case (clk, hclk) of ((now, _, _), (r, n, s)) \<Rightarrow>
         date_ok now \<and> date_ok n \<and> date_ok r \<and> date_ok s \<and> \<bar>the n - the now\<bar> \<le> clockToleranceMs))"

lemma linked_cases:
  assumes "linked p c bm clk hclk"
  obtains t t1 t4 r n s a where "clk = (Some t, t1, t4)" "hclk = (r, Some n, s)" "date_ok r" "date_ok s"
    "makeAuthTimestamp p bm (Some t) = Ok a" "authTimestamp_ok a" "at_pubKey a = bm_publicKey bm"
    "validateAuthTimestamp p (Some n) a = Ok ()"
proof -
  obtain now t1 t4 r hn s where k: "clk = (now, t1, t4)" "hclk = (r, hn, s)" by (metis prod.exhaust)
  have d: "date_ok now" "date_ok hn" "date_ok r" "date_ok s" "\<bar>the hn - the now\<bar> \<le> clockToleranceMs"
    using assms by (simp_all add: linked_def k)
  obtain t n where t: "now = Some t" "hn = Some n"
    using d(1,2) unfolding date_ok_def by (cases now; cases hn) auto
  obtain a where "makeAuthTimestamp p bm (Some t) = Ok a" "authTimestamp_ok a" "at_pubKey a = bm_publicKey bm"
    "validateAuthTimestamp p (Some n) a = Ok ()"
    using validate_made [of p bm t n] assms d by (auto simp: linked_def t clockToleranceMs_def)
  then show ?thesis using that k t d(3,4) by blast
qed

lemma sub_ok_null [simp]: "sub_ok nullSubMeta"
  by (simp add: sub_ok_def nullSubMeta_def usageQuota_ok_def is_num_safe)

lemma lpc_answer:
  assumes "handleReq name p S n host (Decoder (enc_result enc)) Encoder = (host', (res, e'))"
    and "status_value res = Ok st" "status_ok st" "date_ok r" "date_ok s"
  obtains d d' where "lpc_call p S (r, n, s) name enc host = (host', Ok d)"
    "respHead_decode d = Ok (resp_head st r s, d')" "wf_dec d'" "unread d' = enc_result e'"
proof -
  let ?h = "resp_head st r s"
  have h: "respHead_ok ?h" using assms(3-5) by (simp add: resp_head_def respHead_ok_def)
  show ?thesis
    using assms(1,2) respHeadCodec.encode_ok [OF h] respHeadCodec.decode_ok [OF h, of "enc_result e'"]
      request_rest [of "respHead_wire ?h" "enc_result e'"]
    by (intro that [of "Decoder (respHead_wire ?h @ enc_result e')"
          "advance (Decoder (respHead_wire ?h @ enc_result e')) (length (respHead_wire ?h))"])
       (simp_all add: lpc_call_def resp_head_def prependBytes_def enc_result_def)
qed

lemma client_exchange:
  assumes "client_identity c = Ok bm" "makeAuthTimestamp p bm now = Ok a"
    and "ep_encodeReq ep a body Encoder = (Ok (), enc)"
    and "handleReq (ep_name ep) p S n (fst w) (Decoder (enc_result enc)) Encoder = (host', (res, e'))"
    and "status_value res = Ok st" "status_ok st" "date_ok r" "date_ok s"
  shows "\<exists>d. wf_dec d \<and> unread d = enc_result e' \<and>
    client_call p (lpc_transport p S (r, n, s)) record_meta (now, t1, t4) c ep body w =
      (if st \<noteq> Success then ((host', snd w), Err st)
       else ((host', snd w @ [\<lparr>hm_clockOffset = offset t1 r s t4, hm_subscription = nullSubMeta\<rparr>]),
             ep_decodeResp ep d))"
proof -
  obtain d d' where d: "lpc_call p S (r, n, s) (ep_name ep) enc (fst w) = (host', Ok d)"
    "respHead_decode d = Ok (resp_head st r s, d')" "wf_dec d'" "unread d' = enc_result e'"
    by (rule lpc_answer [OF assms(4-8)])
  then show ?thesis
    using assms(1-3)
    by (intro exI [of _ d'])
       (simp add: client_call_def lpc_transport_def record_meta_def resp_head_def Let_def)
qed

text \<open>The four requests as the encoders write them, and the handlers on them.\<close>

lemma emits_result: "emits w bs \<Longrightarrow> \<exists>e. w Encoder = (Ok (), e) \<and> enc_result e = bs"
  unfolding emits_def Encoder_def enc_result_def by (metis append_Nil)

lemmas authTimestamp_emits = authTimestampCodec.wr_emits

lemma user_request: "authTimestamp_ok a \<Longrightarrow>
    \<exists>enc. ep_encodeReq api_user a () Encoder = (Ok (), enc) \<and> enc_result enc = authTimestamp_wire a @ []"
  using emits_result [OF authTimestamp_emits] by (simp add: api_user_def)

lemma push_request: "authTimestamp_ok a \<Longrightarrow> list_all bag_ok bags \<Longrightarrow>
    \<exists>enc. ep_encodeReq api_push a bags Encoder = (Ok (), enc)
      \<and> enc_result enc = authTimestamp_wire a @ concat (map bag_wire bags)"
  unfolding api_push_def pushReq_encode_def
  by (simp, intro emits_result emits_then authTimestamp_emits emits_writeStructs)
     (auto simp: list_all_iff bagCodec.wr_emits)

lemma peek_request: "authTimestamp_ok a \<Longrightarrow> peekCursor_ok cur \<Longrightarrow>
    \<exists>enc. ep_encodeReq api_peek a cur Encoder = (Ok (), enc)
      \<and> enc_result enc = authTimestamp_wire a @ peekCursor_wire cur"
  unfolding api_peek_def
  by (simp, intro emits_result emits_then authTimestamp_emits peekCursorCodec.wr_emits)

lemma pull_request: "authTimestamp_ok a \<Longrightarrow> pullReq_ok q \<Longrightarrow>
    \<exists>enc. ep_encodeReq api_pull a q Encoder = (Ok (), enc)
      \<and> enc_result enc = authTimestamp_wire a @ pullReq_wire q"
  unfolding api_pull_def
  by (simp, intro emits_result emits_then authTimestamp_emits emits_pullReq)

text \<open>One call over a local connection, from what the handler does once the client is authenticated.\<close>

lemma done_advance: "wf_dec d \<Longrightarrow> unread d = w \<Longrightarrow> done_dec (advance d (length w))"
  by (auto simp: wf_dec_def unread_def done_dec_def advance_def)

lemma local_call:
  assumes l: "linked p c bm clk hclk"
    and req: "\<And>a. authTimestamp_ok a \<Longrightarrow> \<exists>enc. ep_encodeReq ep a body Encoder = (Ok (), enc)
                \<and> enc_result enc = authTimestamp_wire a @ bw"
    and handler: "\<And>n d0 d. authenticate p n d0 = Ok (bm_publicKey bm, d) \<Longrightarrow> wf_dec d \<Longrightarrow> unread d = bw \<Longrightarrow>
         \<exists>host' e'. handleReq (ep_name ep) p S n (fst w) d0 Encoder = (host', (Ok (), e')) \<and> Q host' e'"
  shows "\<exists>host' e' m d. Q host' e' \<and> wf_dec d \<and> unread d = enc_result e' \<and>
    client_call p (lpc_transport p S hclk) record_meta clk c ep body w = ((host', snd w @ [m]), ep_decodeResp ep d)"
proof -
  obtain t t1 t4 r n s a where k: "clk = (Some t, t1, t4)" "hclk = (r, Some n, s)" "date_ok r" "date_ok s"
    "makeAuthTimestamp p bm (Some t) = Ok a" "authTimestamp_ok a" "at_pubKey a = bm_publicKey bm"
    "validateAuthTimestamp p (Some n) a = Ok ()" by (rule linked_cases [OF l])
  obtain enc where e: "ep_encodeReq ep a body Encoder = (Ok (), enc)" "enc_result enc = authTimestamp_wire a @ bw"
    using req [OF k(6)] by blast
  have au: "authenticate p (Some n) (Decoder (enc_result enc)) =
      Ok (bm_publicKey bm, advance (Decoder (authTimestamp_wire a @ bw)) (length (authTimestamp_wire a)))"
    using authenticate_wire [OF k(6,8), of bw] e(2) k(7) by simp
  obtain host' e' where h: "handleReq (ep_name ep) p S (Some n) (fst w) (Decoder (enc_result enc)) Encoder = (host', (Ok (), e'))"
    "Q host' e'" using handler [OF au request_rest] by blast
  have id: "client_identity c = Ok bm" using l by (simp add: linked_def)
  have "status_ok Success" by (rule status_ok_named) (simp add: status_names_def)
  from client_exchange [OF id k(5) e(1) h(1) _ this k(3,4), of t1 t4] obtain d where
    "wf_dec d" "unread d = enc_result e'"
    "client_call p (lpc_transport p S hclk) record_meta clk c ep body w =
       ((host', snd w @ [\<lparr>hm_clockOffset = offset t1 r s t4, hm_subscription = nullSubMeta\<rparr>]), ep_decodeResp ep d)"
    by (auto simp: k)
  with h(2) show ?thesis by blast
qed

lemma local_register:
  assumes l: "linked p c bm clk hclk" and i: "ms_inv (h_storage (fst w))"
  shows "\<exists>host' m. client_register p (lpc_transport p memStorage hclk) record_meta clk c w =
      ((host', snd w @ [m]), Ok ()) \<and> ms_inv (h_storage host') \<and> mem_log (h_storage host') = mem_log (h_storage (fst w))
      \<and> (\<forall>pk. mem_registered (h_storage host') pk = (pk = bm_publicKey bm \<or> mem_registered (h_storage (fst w)) pk))"
proof -
  let ?Q = "\<lambda>host' e'. ms_inv (h_storage host') \<and> mem_log (h_storage host') = mem_log (h_storage (fst w))
      \<and> (\<forall>pk. mem_registered (h_storage host') pk = (pk = bm_publicKey bm \<or> mem_registered (h_storage (fst w)) pk))"
  have h: "\<exists>host' e'. handleReq (ep_name api_user) p memStorage n (fst w) d0 Encoder = (host', (Ok (), e')) \<and> ?Q host' e'"
    if "authenticate p n d0 = Ok (bm_publicKey bm, d)" "wf_dec d" "unread d = []" for n d0 d
  proof -
    have "done_dec d" using that(2,3) by (simp add: done_dec_def unread_def)
    then show ?thesis using mem.register_effect [OF i that(1), of Encoder] by (force simp: api_user_def)
  qed
  have "\<exists>host' e' m d. ?Q host' e' \<and> wf_dec d \<and> unread d = enc_result e' \<and>
    client_call p (lpc_transport p memStorage hclk) record_meta clk c api_user () w =
      ((host', snd w @ [m]), ep_decodeResp api_user d)"
    by (rule local_call [OF l user_request]) (assumption, rule h, assumption+)
  then show ?thesis unfolding client_register_def api_user_def by auto
qed

lemma local_push:
  assumes l: "linked p c bm clk hclk" and i: "ms_inv (h_storage (fst w))"
    and r: "mem_registered (h_storage (fst w)) (bm_publicKey bm)"
    and b: "list_all bag_ok bags" "list_all storable bags" "importVerifyKey p (bm_publicKey bm) = Ok vk"
    and f: "seqs_fit (\<lambda>rlm. length (mem_log (h_storage (fst w)) (bm_publicKey bm) rlm)) (length bags)"
  shows "\<exists>host' m. client_push p (lpc_transport p memStorage hclk) record_meta clk c bags w =
      ((host', snd w @ [m]),
       Ok (push_items p vk (\<lambda>rlm. length (mem_log (h_storage (fst w)) (bm_publicKey bm) rlm)) bags))
      \<and> ms_inv (h_storage host') \<and> mem_registered (h_storage host') = mem_registered (h_storage (fst w))
      \<and> (\<forall>rlm. mem_log (h_storage host') (bm_publicKey bm) rlm = mem_log (h_storage (fst w)) (bm_publicKey bm) rlm
            @ appended rlm (filter (\<lambda>b. bagSigValid p b vk) bags))"
proof -
  let ?items = "push_items p vk (\<lambda>rlm. length (mem_log (h_storage (fst w)) (bm_publicKey bm) rlm)) bags"
  let ?Q = "\<lambda>host' e'. enc_result e' = concat (map pushItem_wire ?items)
      \<and> ms_inv (h_storage host') \<and> mem_registered (h_storage host') = mem_registered (h_storage (fst w))
      \<and> (\<forall>rlm. mem_log (h_storage host') (bm_publicKey bm) rlm = mem_log (h_storage (fst w)) (bm_publicKey bm) rlm
            @ appended rlm (filter (\<lambda>b. bagSigValid p b vk) bags))"
  have h: "\<exists>host' e'. handleReq (ep_name api_push) p memStorage n (fst w) d0 Encoder = (host', (Ok (), e')) \<and> ?Q host' e'"
    if a: "authenticate p n d0 = Ok (bm_publicKey bm, d)" "wf_dec d" "unread d = concat (map bag_wire bags)" for n d0 d
  proof -
    obtain d'' where "pushReq_decode d = Ok (bags, d'')" using pushReq_decode_wire [OF b(1) a(2,3)] by blast
    from mem.push_effect [OF i a(1) r this b(3,2) f, of Encoder]
    obtain host' ps where "push_handleReq p memStorage n (fst w) d0 Encoder = (host', (Ok (), Encoder @ ps))"
      "?Q host' (Encoder @ ps)"
      unfolding accepted_bags push_items_def stored_of_def by (auto simp: enc_result_def Encoder_def)
    then show ?thesis by (intro exI [of _ host'] exI [of _ "Encoder @ ps"]) (simp add: api_push_def)
  qed
  have dec: "ep_decodeResp api_push d = Ok ?items"
    if "wf_dec d" "unread d = concat (map pushItem_wire ?items)" for d
    using pushItemCodec.structs_decode [OF push_items_ok [OF f] that] by (simp add: api_push_def)
  from local_call [OF l push_request [OF _ b(1)] h] dec show ?thesis
    unfolding client_push_def by fastforce
qed

lemma local_peek:
  assumes l: "linked p c bm clk hclk" and i: "ms_inv (h_storage (fst w))"
    and r: "mem_registered (h_storage (fst w)) (bm_publicKey bm)"
    and m: "bagMgrFor c realm = Some rbm" "length (bm_rlm rbm) = 32" "is_num lastSeq"
    and ok: "list_all peekItem_ok (heads_after lastSeq (mem_log (h_storage (fst w)) (bm_publicKey bm) (bm_rlm rbm)))"
  shows "\<exists>m. client_peek p (lpc_transport p memStorage hclk) record_meta clk c lastSeq realm w =
      ((fst w, snd w @ [m]), Ok (heads_after lastSeq (mem_log (h_storage (fst w)) (bm_publicKey bm) (bm_rlm rbm))))"
proof -
  let ?cur = "\<lparr>pc_rlm = bm_rlm rbm, pc_seq = lastSeq\<rparr>"
  let ?items = "heads_after lastSeq (mem_log (h_storage (fst w)) (bm_publicKey bm) (bm_rlm rbm))"
  let ?Q = "\<lambda>host' e'. host' = fst w \<and> enc_result e' = concat (map peekItem_wire ?items)"
  have cur: "peekCursor_ok ?cur" using m by (simp add: peekCursor_ok_def hashBytes_def)
  have h: "\<exists>host' e'. handleReq (ep_name api_peek) p memStorage n (fst w) d0 Encoder = (host', (Ok (), e')) \<and> ?Q host' e'"
    if a: "authenticate p n d0 = Ok (bm_publicKey bm, d)" "wf_dec d" "unread d = peekCursor_wire ?cur" for n d0 d
  proof -
    have "peekCursor_decode d = Ok (?cur, advance d (length (peekCursor_wire ?cur)))"
      by (rule parsesD [OF peekCursorCodec.rd_parses [OF cur] a(2), of "[]"]) (simp add: a(3))
    moreover have "done_dec (advance d (length (peekCursor_wire ?cur)))"
      using a(2,3) by (rule done_advance)
    ultimately obtain ps where "peek_handleReq p memStorage n (fst w) d0 Encoder = (fst w, (Ok (), Encoder @ ps))"
      "concat ps = concat (map peekItem_wire ?items)"
      using mem.peek_effect [OF i a(1) r, of ?cur _ Encoder] ok m by (auto simp: valid_rlm_def)
    then show ?thesis by (intro exI [of _ "fst w"] exI [of _ "Encoder @ ps"])
       (simp add: api_peek_def enc_result_def Encoder_def)
  qed
  have dec: "ep_decodeResp api_peek d = Ok ?items"
    if "wf_dec d" "unread d = concat (map peekItem_wire ?items)" for d
    using peekItemCodec.structs_decode [OF ok that] by (simp add: api_peek_def)
  from local_call [OF l peek_request [OF _ cur] h] dec m(1) show ?thesis
    unfolding client_peek_def hostRlm_def by fastforce
qed

lemma local_pull:
  assumes l: "linked p c bm clk hclk" and i: "ms_inv (h_storage (fst w))"
    and r: "mem_registered (h_storage (fst w)) (bm_publicKey bm)"
    and m: "bagMgrFor c realm = Some rbm" "length (bm_rlm rbm) = 32" "list_all is_num seqs"
    and ok: "list_all pullItem_ok (map (\<lambda>(q, b). \<lparr>pl_seq = q, pl_bodyCph = b\<rparr>)
               (bodies_at seqs (mem_log (h_storage (fst w)) (bm_publicKey bm) (bm_rlm rbm))))"
  shows "\<exists>m. client_pull p (lpc_transport p memStorage hclk) record_meta clk c seqs realm w =
      ((fst w, snd w @ [m]), Ok (map (\<lambda>(q, b). \<lparr>pl_seq = q, pl_bodyCph = b\<rparr>)
         (bodies_at seqs (mem_log (h_storage (fst w)) (bm_publicKey bm) (bm_rlm rbm)))))"
proof -
  let ?q = "\<lparr>pr_rlm = bm_rlm rbm, pr_seqs = seqs\<rparr>"
  let ?items = "map (\<lambda>(q, b). \<lparr>pl_seq = q, pl_bodyCph = b\<rparr>)
     (bodies_at seqs (mem_log (h_storage (fst w)) (bm_publicKey bm) (bm_rlm rbm)))"
  let ?Q = "\<lambda>host' e'. host' = fst w \<and> enc_result e' = concat (map pullItem_wire ?items)"
  have q: "pullReq_ok ?q" using m by (simp add: pullReq_ok_def hashBytes_def)
  have h: "\<exists>host' e'. handleReq (ep_name api_pull) p memStorage n (fst w) d0 Encoder = (host', (Ok (), e')) \<and> ?Q host' e'"
    if a: "authenticate p n d0 = Ok (bm_publicKey bm, d)" "wf_dec d" "unread d = pullReq_wire ?q" for n d0 d
  proof -
    obtain d' where "pullReq_decode d = Ok (?q, d')" using pullReq_decode_wire [OF q a(2,3)] by blast
    then obtain ps where "pull_handleReq p memStorage n (fst w) d0 Encoder = (fst w, (Ok (), Encoder @ ps))"
      "concat ps = concat (map pullItem_wire ?items)"
      using mem.pull_effect [OF i a(1) r, of ?q _ Encoder] ok m
      by (auto simp: valid_rlm_def list_all_iff case_prod_unfold comp_def)
    then show ?thesis by (intro exI [of _ "fst w"] exI [of _ "Encoder @ ps"])
       (simp add: api_pull_def enc_result_def Encoder_def)
  qed
  have dec: "ep_decodeResp api_pull d = Ok ?items"
    if "wf_dec d" "unread d = concat (map pullItem_wire ?items)" for d
    using pullItemCodec.structs_decode [OF ok that] by (simp add: api_pull_def)
  from local_call [OF l pull_request [OF _ q] h] dec m(1) show ?thesis
    unfolding client_pull_def hostRlm_def by fastforce
qed

section \<open>From sealing to opening through a host\<close>

lemma seals_peekHead: "seals p bm msg bag \<Longrightarrow> short (bag_headCph bag) \<Longrightarrow> peekItemHead_ok (bag_peekHead bag)"
  by (simp add: seals_def peekItemHead_ok_def bag_peekHead_def sigBytes_def kdmBytes_def)

lemma decrypt_sealed:
  assumes "seals p bm msg bag" "short (bag_headCph bag)" "importVerifyKey p (bm_publicKey bm) = Ok vk"
  shows "decryptPeekItem p \<lparr>pk_seq = q, pk_headCph = peekItemHead_wire (bag_peekHead bag)\<rparr> vk bm =
           Ok (bag_kdm bag, messageHead_wire (sealed_head p msg))"
proof -
  have "bm_rlm bm = bag_rlm bag" using assms(1) by (simp add: seals_def)
  then show ?thesis
    using peekItemHeadCodec.decode_ok [OF seals_peekHead [OF assms(1,2)], of "[]"] assms(1,3)
    by (simp add: decryptPeekItem_def seals_def hashBytes_def bag_peekHead_def bagSigMsg_def Let_def)
qed

lemma open_sealed_body:
  assumes "seals p bm msg bag" "prims_ok p" "messageHead_ok (sealed_head p msg)" "len_matches msg" "msg_bod msg \<noteq> Some []"
  shows "openBagBody p (messageHead_wire (sealed_head p msg)) (Some (bag_bodyCph bag)) (bm_decrypt p bm (bag_kdm bag)) None =
    Ok \<lparr>ob_msgHead = sealed_head p msg, ob_bod = msg_bod msg, ob_headHash = blake3_hash p (messageHead_wire (sealed_head p msg))\<rparr>"
proof -
  have "case msg_bod msg of None \<Rightarrow> bag_bodyCph bag = [] \<and> mh_hsh (sealed_head p msg) = None
      | Some b \<Rightarrow> bag_bodyCph bag \<noteq> [] \<and> bm_decrypt p bm (bag_kdm bag) (bag_bodyCph bag) = Ok b
          \<and> mh_hsh (sealed_head p msg) = Some (blake3_hash p b)"
    using assms(1,4,5) by (cases "msg_bod msg") (auto simp: seals_def sealed_head_def len_matches_def)
  from openBagBody_sealed [where bod = "msg_bod msg" and known = None and bodyCph = "bag_bodyCph bag"
      and decrypt = "bm_decrypt p bm (bag_kdm bag)", OF assms(3) this] show ?thesis by simp
qed

lemma accepted_own:
  assumes "seals p rbm msg bag" "importVerifyKey p (bm_publicKey rbm) = Ok vk"
  shows "bagSigValid p bag vk"
  using assms by (auto simp: seals_def bagSigValid_iff)

lemma push_items_own:
  assumes "bagSigValid p bag vk"
  shows "push_items p vk n [bag] = [PushStored 0 (int (n (bag_rlm bag)) + 1)]"
  using assms by (simp add: push_items_def stored_of_def accepted_def refused_def bagSigValid_iff valid_rlm_def)

lemma numbered_last: "filter (\<lambda>(q, _). int (length l) < q) (numbered (l @ [x])) = [(int (length l) + 1, x)]"
proof -
  have "\<not> int (length l) < q" if "(q, y) \<in> set (numbered l)" for q y
    using that map_of_is_SomeI [OF distinct_numbered that] map_of_numbered [of l q] by (auto split: if_splits)
  then have "filter (\<lambda>(q, _). int (length l) < q) (numbered l) = []" by (auto simp: filter_empty_conv)
  then show ?thesis by (simp add: numbered_snoc)
qed

lemma heads_after_last: "heads_after (int (length l)) (l @ [x]) = [\<lparr>pk_seq = int (length l) + 1, pk_headCph = sb_headCph x\<rparr>]"
  by (simp add: heads_after_def numbered_last)

lemma bodies_at_last: "bodies_at [int (length l) + 1] (l @ [x]) = [(int (length l) + 1, sb_bodyCph x)]"
proof -
  have "nat (int (length l) + 1 - 1) = length l" by simp
  then have "map_of (numbered (l @ [x])) (int (length l) + 1) = Some x"
    unfolding map_of_numbered by (simp add: nth_append)
  then show ?thesis by (simp add: bodies_at_def List.map_filter_simps)
qed

text \<open>C15: the whole path of a message. A client registers on a memory host reached by local calls,
  seals a message, pushes it, peeks from the sequence number before it and pulls the one it is
  told. Every call succeeds whatever the host already holds, the push answers the place of the
  bag in the realm's log, the peek lists exactly the new head, which decrypts under the realm's
  manager, and the pulled body opens to the very message that was sealed.\<close>

theorem message_reaches_reader:
  assumes l: "\<And>i. linked p c bm (clk i) (hclk i)"
    and i: "ms_inv (h_storage host)"
    and m: "bagMgrFor c realm = Some rbm" "bm_ok p rbm" "bm_publicKey rbm = bm_publicKey bm"
    and n: "length n1 = 24" "length n2 = 24"
    and msg: "messageHead_ok (sealed_head p msg)" "len_matches msg" "msg_bod msg \<noteq> Some []"
    and sz: "length (messageHead_wire (sealed_head p msg)) \<le> 2 ^ 32" "\<forall>b. msg_bod msg = Some b \<longrightarrow> length b \<le> 2 ^ 32"
    and f: "seqs_fit (\<lambda>rlm. length (mem_log (h_storage host) (bm_publicKey bm) rlm)) 1"
  defines "T \<equiv> \<lambda>i. lpc_transport p memStorage (hclk i)"
    and "q \<equiv> int (length (mem_log (h_storage host) (bm_publicKey bm) (bm_rlm rbm))) + 1"
  shows "\<exists>w1 bag w2 w3 w4 item vk headEnc bodyCph.
     client_register p (T 0) record_meta (clk 0) c (host, []) = (w1, Ok ())
   \<and> client_seal p n1 n2 c msg realm = Ok bag
   \<and> client_push p (T 1) record_meta (clk 1) c [bag] w1 = (w2, Ok [PushStored 0 q])
   \<and> client_peek p (T 2) record_meta (clk 2) c (q - 1) realm w2 = (w3, Ok [item]) \<and> pk_seq item = q
   \<and> importVerifyKey p (bm_publicKey bm) = Ok vk
   \<and> decryptPeekItem p item vk rbm = Ok (bag_kdm bag, headEnc)
   \<and> client_pull p (T 3) record_meta (clk 3) c [q] realm w3 = (w4, Ok [\<lparr>pl_seq = q, pl_bodyCph = bodyCph\<rparr>])
   \<and> openBagBody p headEnc (Some bodyCph) (bm_decrypt p rbm (bag_kdm bag)) None =
       Ok \<lparr>ob_msgHead = sealed_head p msg, ob_bod = msg_bod msg, ob_headHash = blake3_hash p headEnc\<rparr>"
proof -
  have p: "prims_ok p" using l by (simp add: linked_def)
  obtain bag where bag: "sealBag p n1 n2 msg rbm = Ok bag" "seals p rbm msg bag"
    by (rule sealBag_seals [OF p m(2) n msg(1)])
  have rlm: "bag_rlm bag = bm_rlm rbm" "length (bm_rlm rbm) = 32" using bag(2) by (auto simp: seals_def)
  obtain vk where vk: "importVerifyKey p (bm_publicKey bm) = Ok vk"
    using bag(2) m(3) by (auto simp: seals_def)
  have sh: "short (bag_headCph bag)" "short (bag_bodyCph bag)"
    using bag(2) sz unfolding seals_def short_def by (auto split: option.splits)
  have ok: "list_all bag_ok [bag]" using seals_bag_ok [OF bag(2) sh] by simp
  have st: "list_all storable [bag]"
    using bag(2) sz(1) by (simp add: storable_def short_def seals_def peekItemHead_wire_def varbytes_wire_def
        bag_peekHead_def) (use length_varint_wire [of "int (length (bag_headCph bag))"] in \<open>auto simp: seals_def\<close>)
  have sv: "bagSigValid p bag vk" using accepted_own [OF bag(2)] vk m(3) by simp
  obtain h1 m1 where w1: "client_register p (T 0) record_meta (clk 0) c (host, []) = ((h1, [m1]), Ok ())"
      "ms_inv (h_storage h1)" "mem_log (h_storage h1) = mem_log (h_storage host)"
      "mem_registered (h_storage h1) (bm_publicKey bm)"
    using local_register [OF l, of "(host, [])" 0] i unfolding T_def by auto
  obtain h2 m2 where w2: "client_push p (T 1) record_meta (clk 1) c [bag] (h1, [m1]) = ((h2, [m1, m2]), Ok [PushStored 0 q])"
      "ms_inv (h_storage h2)" "mem_registered (h_storage h2) (bm_publicKey bm)"
      "mem_log (h_storage h2) (bm_publicKey bm) (bm_rlm rbm) = mem_log (h_storage host) (bm_publicKey bm) (bm_rlm rbm) @ [entry_of bag]"
    using local_push [OF l, of "(h1, [m1])" "[bag]" vk 1] w1(2-4) ok st vk f sv rlm push_items_own [OF sv]
    unfolding T_def q_def by (auto simp: appended_def valid_rlm_def)
  let ?L = "mem_log (h_storage host) (bm_publicKey bm) (bm_rlm rbm)"
  have "int (length ?L) + 1 \<le> 2 ^ 53" using f unfolding seqs_fit_def by (metis of_nat_1)
  then have q: "is_num q" "is_num (q - 1)" unfolding q_def by (auto intro: is_num_safe)
  have pk: "heads_after (q - 1) (?L @ [entry_of bag]) = [\<lparr>pk_seq = q, pk_headCph = peekItemHead_wire (bag_peekHead bag)\<rparr>]"
    using heads_after_last [of ?L "entry_of bag"] by (simp add: q_def entry_of_def)
  obtain m3 where w3: "client_peek p (T 2) record_meta (clk 2) c (q - 1) realm (h2, [m1, m2]) =
      ((h2, [m1, m2, m3]), Ok [\<lparr>pk_seq = q, pk_headCph = peekItemHead_wire (bag_peekHead bag)\<rparr>])"
    using local_peek [OF l, of "(h2, [m1, m2])" realm rbm "q - 1" 2] w2(2-4) m(1) rlm q st pk
    unfolding T_def by (auto simp: peekItem_ok_def storable_def)
  have pl: "bodies_at [q] (?L @ [entry_of bag]) = [(q, bag_bodyCph bag)]"
    using bodies_at_last [of ?L "entry_of bag"] by (simp add: q_def entry_of_def)
  obtain m4 where w4: "client_pull p (T 3) record_meta (clk 3) c [q] realm (h2, [m1, m2, m3]) =
      ((h2, [m1, m2, m3, m4]), Ok [\<lparr>pl_seq = q, pl_bodyCph = bag_bodyCph bag\<rparr>])"
    using local_pull [OF l, of "(h2, [m1, m2, m3])" realm rbm "[q]" 3] w2(2-4) m(1) rlm q sh pl
    unfolding T_def by (auto simp: pullItem_ok_def)
  have sl: "client_seal p n1 n2 c msg realm = Ok bag" by (simp add: client_seal_def m(1) bag(1))
  have "importVerifyKey p (bm_publicKey rbm) = Ok vk" using vk m(3) by simp
  note dec = decrypt_sealed [OF bag(2) sh(1) this, of q]
  note bod = open_sealed_body [OF bag(2) p msg]
  show ?thesis
    by (intro exI conjI) (rule w1(1) sl w2(1) w3 vk dec w4 bod | simp)+
qed

definition sample_client :: DiplomaticClientAPI where
  "sample_client = \<lparr>ca_bagMgrs = [sample_bm]\<rparr>"

lemma bagMgrFor_sample [simp]: "bagMgrFor sample_client nullKDM = Some sample_bm"
  by (simp add: bagMgrFor_def sample_client_def sample_bm_def kdmEq_def)

lemma linked_sample [simp]:
  "linked toy_prims sample_client sample_bm (Some 5, Some 5, Some 9) (Some 7, Some 7, Some 8)"
  by (simp add: linked_def client_identity_def date_ok_def max_time_def clockToleranceMs_def)

lemma sample_head_len: "length (messageHead_wire (sealed_head toy_prims (sample_msg (Some [7])))) \<le> 100"
  by code_simp

theorem message_reaches_reader_witness:
  "\<exists>w1 bag w2 w3 w4 item vk headEnc bodyCph.
     let T = lpc_transport toy_prims memStorage (Some 7, Some 7, Some 8); clk = (Some 5, Some 5, Some 9);
         c = sample_client; host = \<lparr>h_storage = createMemoryStorage, h_pushes = []\<rparr>
     in client_register toy_prims T record_meta clk c (host, []) = (w1, Ok ())
      \<and> client_seal toy_prims (replicate 24 1) (replicate 24 2) c (sample_msg (Some [7])) nullKDM = Ok bag
      \<and> client_push toy_prims T record_meta clk c [bag] w1 = (w2, Ok [PushStored 0 1])
      \<and> client_peek toy_prims T record_meta clk c 0 nullKDM w2 = (w3, Ok [item])
      \<and> decryptPeekItem toy_prims item vk sample_bm = Ok (bag_kdm bag, headEnc)
      \<and> client_pull toy_prims T record_meta clk c [1] nullKDM w3 = (w4, Ok [\<lparr>pl_seq = 1, pl_bodyCph = bodyCph\<rparr>])
      \<and> openBagBody toy_prims headEnc (Some bodyCph) (bm_decrypt toy_prims sample_bm (bag_kdm bag)) None =
          Ok \<lparr>ob_msgHead = sealed_head toy_prims (sample_msg (Some [7])), ob_bod = Some [7],
              ob_headHash = blake3_hash toy_prims headEnc\<rparr>"
proof -
  let ?host = "\<lparr>h_storage = createMemoryStorage, h_pushes = []\<rparr>"
  let ?m = "sample_msg (Some [7])"
  have sz: "length (messageHead_wire (sealed_head toy_prims ?m)) \<le> 2 ^ 32" using sample_head_len by simp
  have bod: "msg_bod ?m = Some [7]" "len_matches ?m" by (simp_all add: sample_msg_def len_matches_def)
  have inv: "ms_inv (h_storage ?host)" by (simp add: ms_inv_def createMemoryStorage_def)
  have log: "mem_log createMemoryStorage pk rlm = []" for pk rlm by (simp add: mem_log_def createMemoryStorage_def)
  have sz2: "\<forall>b. msg_bod ?m = Some b \<longrightarrow> length b \<le> 2 ^ 32" by (simp add: bod)
  have fit: "seqs_fit (\<lambda>rlm. length (mem_log (h_storage ?host) (bm_publicKey sample_bm) rlm)) 1" by (simp add: seqs_fit_def log)
  have ne: "msg_bod ?m \<noteq> Some []" by (simp add: bod)
  have q: "int (length (mem_log (h_storage ?host) (bm_publicKey sample_bm) (bm_rlm sample_bm))) + 1 = 1" "(1 :: int) - 1 = 0"
    by (simp_all add: log)
  show ?thesis
    using message_reaches_reader [OF linked_sample inv bagMgrFor_sample sample_bm_ok refl
        length_replicate [of 24 1] length_replicate [of 24 2]
        sample_head_ok(3) bod(2) ne sz sz2 fit]
    unfolding Let_def q bod(1) by blast
qed

section \<open>The clock offset and the client's managers\<close>

text \<open>What the clock offset means. Let the host's clock be ahead of the client's by \<open>theta\<close>, let the
  request take \<open>d1\<close> and the response \<open>d2\<close> milliseconds, whatever the host does in between. Then the
  estimate is off by half the difference of the two delays: exact when they are equal, and in any
  case within half the round trip time.\<close>

theorem offset_error:
  assumes "rh = sc + d1 + theta" "rc + theta = sh + d2"
  shows "\<exists>x. offset (Some sc) (Some rh) (Some sh) (Some rc) = Some x
    \<and> x - of_int theta = of_int (d1 - d2) / 2
    \<and> (d1 = d2 \<longrightarrow> x = of_int theta)
    \<and> (0 \<le> d1 \<longrightarrow> 0 \<le> d2 \<longrightarrow> \<bar>x - of_int theta\<bar> \<le> of_int ((rc - sc) - (sh - rh)) / 2)"
proof -
  let ?x = "of_int ((rh - sc) + (sh - rc)) / 2 :: rat"
  have e: "(rh - sc) + (sh - rc) = 2 * theta + (d1 - d2)" "(rc - sc) - (sh - rh) = d1 + d2"
    using assms by simp_all
  have x: "?x - of_int theta = of_int (d1 - d2) / 2" unfolding e by (simp add: field_simps)
  have b: "\<bar>?x - of_int theta\<bar> \<le> of_int ((rc - sc) - (sh - rh)) / 2" if "0 \<le> d1" "0 \<le> d2"
    using that unfolding x e(2) by (simp add: abs_le_iff)
  have "?x = of_int theta" if "d1 = d2" using x that by simp
  moreover have "offset (Some sc) (Some rh) (Some sh) (Some rc) = Some ?x" by (simp add: offset_def Let_def)
  ultimately show ?thesis using x b by blast
qed

theorem offset_error_witness:
  "offset (Some 1000) (Some 6040) (Some 6050) (Some 1070) = Some 5010"
  using offset_error [of 6040 1000 30 5010 1070 6050 30] by auto

lemma find_append: "find P (xs @ ys) = (case find P xs of None \<Rightarrow> find P ys | r \<Rightarrow> r)"
  by (induction xs) auto

lemma kdmEq_eq [simp]: "kdmEq a b = (a = b)"
  by (cases a; cases b) (auto simp: kdmEq_def)

lemma client_add_for:
  "bagMgrFor (client_add x c) realm =
     (case bagMgrFor c realm of None \<Rightarrow> if bm_realmKDM x = realm then Some x else None | r \<Rightarrow> r)"
  by (auto simp: client_add_def bagMgrFor_def find_append split: option.splits)

lemma client_add_distinct:
  "distinct (map bm_realmKDM (ca_bagMgrs c)) \<Longrightarrow> distinct (map bm_realmKDM (ca_bagMgrs (client_add x c)))"
  by (auto simp: client_add_def bagMgrFor_def find_None_iff)

lemma client_add_set:
  "set (ca_bagMgrs (client_add x c)) \<subseteq> insert x (set (ca_bagMgrs c)) \<and> ca_bagMgrs (client_add x c) \<noteq> []"
  by (cases "ca_bagMgrs c") (auto simp: client_add_def bagMgrFor_def)

text \<open>A client keeps one manager per realm. From a client without managers, any managers
  added in any order leave the realms distinct; the manager found for a realm is the first that
  was added for it; and the client speaks as the null realm's manager if it has one.\<close>

theorem managers_unique:
  fixes added :: "BagManager list"
  defines "c \<equiv> fold client_add added \<lparr>ca_bagMgrs = []\<rparr>"
  shows "distinct (map bm_realmKDM (ca_bagMgrs c))
    \<and> bagMgrFor c realm = find (\<lambda>bm. bm_realmKDM bm = realm) added
    \<and> (\<forall>bm. find (\<lambda>bm. bm_realmKDM bm = nullKDM) added = Some bm \<longrightarrow> client_identity c = Ok bm)
    \<and> (added = [] \<longrightarrow> client_identity c = Err NotFound)
    \<and> (added \<noteq> [] \<longrightarrow> (\<exists>bm \<in> set added. client_identity c = Ok bm))"
proof -
  let ?c = "\<lambda>xs. fold client_add xs \<lparr>ca_bagMgrs = []\<rparr>"
  have k: "distinct (map bm_realmKDM (ca_bagMgrs (?c xs)))
      \<and> (\<forall>realm. bagMgrFor (?c xs) realm = find (\<lambda>bm. bm_realmKDM bm = realm) xs)
      \<and> set (ca_bagMgrs (?c xs)) \<subseteq> set xs \<and> (ca_bagMgrs (?c xs) = [] \<longrightarrow> xs = [])" for xs
  proof (induction xs rule: rev_induct)
    case (snoc x xs)
    then show ?case
      using client_add_distinct [of "?c xs" x] client_add_set [of x "?c xs"]
      by (auto simp: client_add_for find_append split: option.splits)
  qed (simp add: bagMgrFor_def)
  have id: "client_identity c = Ok bm" if "find (\<lambda>bm. bm_realmKDM bm = nullKDM) added = Some bm" for bm
    using k [of added] that by (simp add: client_identity_def c_def)
  have "\<exists>bm \<in> set added. client_identity c = Ok bm" if "added \<noteq> []"
  proof (cases "bagMgrFor c nullKDM")
    case None
    then show ?thesis using k [of added] that
      by (cases "ca_bagMgrs c") (auto simp: client_identity_def c_def)
  next
    case (Some bm)
    then have "bm \<in> set added" using k [of added] by (metis c_def find_Some_iff nth_mem)
    with Some show ?thesis by (auto simp: client_identity_def)
  qed
  moreover have "client_identity c = Err NotFound" if "added = []"
    using that by (simp add: c_def client_identity_def bagMgrFor_def)
  ultimately show ?thesis using k [of added] id unfolding c_def by blast
qed

theorem managers_unique_witness:
  "client_identity (fold client_add [sample_bm, sample_bm\<lparr>bm_idnt := []\<rparr>] \<lparr>ca_bagMgrs = []\<rparr>) = Ok sample_bm"
  using managers_unique [of "[sample_bm, sample_bm\<lparr>bm_idnt := []\<rparr>]" nullKDM] by (simp add: sample_bm_def)

section \<open>Who is notified\<close>

text \<open>Events of a callback notifier: a connection is opened or one that was opened is shut.\<close>

datatype cn_event = EvOpen date IAuthTimestamp nat | EvShut bytes nat

fun cn_run :: "prims \<Rightarrow> cn_event list \<Rightarrow> CallbackNotifier \<Rightarrow> CallbackNotifier" where
  "cn_run p [] cn = cn"
| "cn_run p (EvOpen now a recv # evs) cn = cn_run p evs (fst (cn_open p now a recv cn))"
| "cn_run p (EvShut pubKey recv # evs) cn = cn_run p evs (fst (cn_shut (Opened (btoh pubKey) recv) cn))"

text \<open>Whether the last event that concerns receiver \<open>r\<close> under key \<open>pk\<close> opened it, from an earlier answer.\<close>

fun listening :: "prims \<Rightarrow> bytes \<Rightarrow> nat \<Rightarrow> cn_event list \<Rightarrow> bool \<Rightarrow> bool" where
  "listening p pk r [] b = b"
| "listening p pk r (EvOpen now a recv # evs) b =
     listening p pk r evs
       (if validateAuthTimestamp p now a = Ok () \<and> at_pubKey a = pk then r = recv \<or> b else b)"
| "listening p pk r (EvShut pubKey recv # evs) b = listening p pk r evs (if pubKey = pk then b \<and> r \<noteq> recv else b)"

definition recvs_of :: "bytes \<Rightarrow> CallbackNotifier \<Rightarrow> nat list" where
  "recvs_of pk cn = (case map_get (cn_recvs cn) (btoh pk) of None \<Rightarrow> [] | Some rs \<Rightarrow> rs)"

lemma recvs_of_open:
  "recvs_of pk (fst (cn_open p now a recv cn)) =
     (if validateAuthTimestamp p now a = Ok () \<and> at_pubKey a = pk then set_add recv (recvs_of pk cn) else recvs_of pk cn)"
  by (auto simp: cn_open_def recvs_of_def Let_def split: vs.splits option.splits)

lemma recvs_of_shut:
  "recvs_of pk (fst (cn_shut (Opened (btoh pubKey) recv) cn)) =
     (if pubKey = pk then set_delete recv (recvs_of pk cn) else recvs_of pk cn)"
  by (auto simp: cn_shut_def recvs_of_def set_delete_def split: option.splits)

lemma recvs_of_run:
  "r \<in> set (recvs_of pk (cn_run p evs cn)) = listening p pk r evs (r \<in> set (recvs_of pk cn))"
  by (induction p evs cn rule: cn_run.induct) (auto simp: recvs_of_open recvs_of_shut)

lemma recvs_of_distinct: "distinct (recvs_of pk cn) \<Longrightarrow> distinct (recvs_of pk (cn_run p evs cn))"
  by (induction p evs cn rule: cn_run.induct) (auto simp: recvs_of_open recvs_of_shut)

text \<open>Notifications reach exactly their owners. After any openings and shuttings, in any order and
  under any keys, a push for a user's key calls each receiver at most once, and calls precisely
  the receivers last opened under that key with an auth timestamp that validated when it was
  presented. A connection refused at opening never hears anything.\<close>

theorem notifications_reach_owner:
  "distinct (map fst (cn_push pk data (cn_run p evs CallbackNotifier_new)))
   \<and> (\<forall>r d. (r, d) \<in> set (cn_push pk data (cn_run p evs CallbackNotifier_new))
        \<longleftrightarrow> d = data \<and> listening p pk r evs False)
   \<and> (listening p pk r evs False \<longrightarrow>
        (\<exists>now a. EvOpen now a r \<in> set evs \<and> validateAuthTimestamp p now a = Ok () \<and> at_pubKey a = pk))"
proof -
  let ?cn = "cn_run p evs CallbackNotifier_new"
  have new: "recvs_of pk CallbackNotifier_new = []" for pk by (simp add: recvs_of_def CallbackNotifier_new_def)
  have push: "cn_push pk data ?cn = map (\<lambda>r. (r, data)) (recvs_of pk ?cn)"
    by (auto simp: cn_push_def recvs_of_def split: option.splits)
  have "listening p pk r evs b \<Longrightarrow> b \<or>
      (\<exists>now a. EvOpen now a r \<in> set evs \<and> validateAuthTimestamp p now a = Ok () \<and> at_pubKey a = pk)" for b
    by (induction p pk r evs b rule: listening.induct) (auto split: if_splits)
  then show ?thesis
    using recvs_of_run [of _ pk p evs CallbackNotifier_new] recvs_of_distinct [of pk CallbackNotifier_new p evs] new
    by (auto simp: push comp_def)
qed

theorem notifications_reach_owner_witness:
  "\<exists>a. at_pubKey a = replicate 32 4 \<and>
     cn_push (replicate 32 4) [1, 2] (cn_run toy_prims [EvOpen (Some 5) a 3] CallbackNotifier_new) = [(3, [1, 2])]"
proof -
  obtain a where a: "at_pubKey a = replicate 32 4" "validateAuthTimestamp toy_prims (Some 5) a = Ok ()"
    using validate_made [of toy_prims sample_bm 5 5]
    by (auto simp: date_ok_def max_time_def sample_bm_def [THEN arg_cong, of bm_publicKey])
  let ?l = "cn_push (replicate 32 4) [1, 2] (cn_run toy_prims [EvOpen (Some 5) a 3] CallbackNotifier_new)"
  have l: "distinct (map fst ?l)" "set ?l = {(3, [1, 2])}"
    using notifications_reach_owner [of "replicate 32 4" "[1, 2]" toy_prims "[EvOpen (Some 5) a 3]"] a by auto
  then have "card (set ?l) = length ?l" by (metis distinct_card distinct_map)
  with l(2) have "length ?l = 1" by simp
  then have "?l = [(3, [1, 2])]" using l(2) by (cases ?l) auto
  with a(1) show ?thesis by blast
qed

end
