(* ===== verification/State.thy ===== *)
theory State
  imports Bag
begin

text \<open>
  From messages to application state: the typed event emitter (\<^verbatim>\<open>shared/events.ts\<close>) and the state
  manager (\<^verbatim>\<open>web/src/state.ts\<close>) over any applier. Listeners are numbers; calling one is an entry
  of the trace of deliveries. The properties put the state manager on the entity database.
\<close>

section \<open>The event emitter (events.ts)\<close>

type_synonym listeners = "(jsstr, nat list) jsmap"

definition addEventListener :: "jsstr \<Rightarrow> nat \<Rightarrow> listeners \<Rightarrow> listeners" where
  "addEventListener eventType listener ls =
     map_set eventType (set_add listener (case map_get ls eventType of None \<Rightarrow> [] | Some l \<Rightarrow> l)) ls"

definition removeEventListener :: "jsstr \<Rightarrow> nat \<Rightarrow> listeners \<Rightarrow> listeners" where
  "removeEventListener eventType listener ls =
     (case map_get ls eventType of
        None \<Rightarrow> ls
      | Some l \<Rightarrow>
          (let l = set_delete listener l
           in if l = [] then map_delete eventType ls else map_set eventType l ls))"

definition em_emit :: "jsstr \<Rightarrow> listeners \<Rightarrow> (nat \<times> jsstr) list" where
  "em_emit eventType ls =
     (case map_get ls eventType of None \<Rightarrow> [] | Some l \<Rightarrow> map (\<lambda>x. (x, eventType)) l)"

definition emitAll :: "listeners \<Rightarrow> (nat \<times> jsstr) list" where
  "emitAll ls = concat (map (\<lambda>t. em_emit t ls) (map fst ls))"

section \<open>The state manager (state.ts)\<close>

text \<open>A message as an operation; an empty body is a delete.\<close>

definition msgToOp :: "IMessage \<Rightarrow> IOp vs" where
  "msgToOp msg =
     (case msg_bod msg of
        None \<Rightarrow> Ok (DeleteOp (mh_eid msg) (mh_off msg) (mh_ctr msg))
      | Some b \<Rightarrow>
          if length b = 0 then Ok (DeleteOp (mh_eid msg) (mh_off msg) (mh_ctr msg))
          else
            andThen (ent_decode (Decoder b)) (\<lambda>(ent, _).
            Ok (MutateOp (mh_eid msg) (mh_off msg) (mh_ctr msg)
                  (case mh_typ msg of None \<Rightarrow> [] | Some t \<Rightarrow> t) (eb_pid ent) (eb_tags ent) (eb_body ent))))"

text \<open>
  A manager over application state \<open>'s\<close>: the state, its listeners, and the deliveries and the
  dirty entity ids announced so far.
\<close>

record 's StateManager =
  sm_state :: 's
  sm_listeners :: listeners
  sm_cacheDriven :: bool
  sm_emitted :: "(nat \<times> jsstr) list"
  sm_dirty :: "bytes list list"

fun parse_msgs :: "IMessage list \<Rightarrow> IOp list \<Rightarrow> status list \<Rightarrow> (IOp list \<times> status list) vs" where
  "parse_msgs [] ops stats = Ok (ops, stats)"
| "parse_msgs (msg # msgs) ops stats =
     (case msgToOp msg of
        Ok op \<Rightarrow> parse_msgs msgs (ops @ [op]) (stats @ [Success])
      | Err s \<Rightarrow> parse_msgs msgs ops (stats @ [s])
      | Throw \<Rightarrow> Throw
      | Hang \<Rightarrow> Hang)"

text \<open>
  The loop over \<open>i < msgs.length\<close>: \<open>applyStats[i]\<close> beyond the end of the array is \<open>undefined\<close>,
  here \<^term>\<open>None\<close>.
\<close>

definition merge_stats :: "status list \<Rightarrow> status list \<Rightarrow> status option list" where
  "merge_stats parseStats applyStats =
     map (\<lambda>i. if parseStats ! i \<noteq> Success then Some (parseStats ! i)
              else if i < length applyStats then Some (applyStats ! i)
              else None) [0..<length parseStats]"

definition sm_apply ::
    "('s \<Rightarrow> IOp list \<Rightarrow> 's \<times> ApplyResult) \<Rightarrow> IMessage list \<Rightarrow> 's StateManager
     \<Rightarrow> 's StateManager \<times> status option list vs" where
  "sm_apply applier msgs sm =
     (case parse_msgs msgs [] [] of
        Err s \<Rightarrow> (sm, Err s) | Throw \<Rightarrow> (sm, Throw) | Hang \<Rightarrow> (sm, Hang)
      | Ok (ops, parseStats) \<Rightarrow>
          (case applier (sm_state sm) ops of
             (s, r) \<Rightarrow>
               let results = merge_stats parseStats (ar_stats r);
                   sm = sm\<lparr>sm_state := s\<rparr>;
                   sm = (if \<not> sm_cacheDriven sm
                         then sm\<lparr>sm_emitted := sm_emitted sm @ concat (map (\<lambda>t. em_emit t (sm_listeners sm)) (ar_types r))\<rparr>
                         else sm);
                   sm = (if length (ar_eids r) > 0 then sm\<lparr>sm_dirty := sm_dirty sm @ [ar_eids r]\<rparr> else sm)
               in (sm, Ok results)))"

definition sm_clear :: "('s \<Rightarrow> 's \<times> unit vs) \<Rightarrow> 's StateManager \<Rightarrow> 's StateManager \<times> unit vs" where
  "sm_clear clearer sm =
     (case clearer (sm_state sm) of
        (s, Ok _) \<Rightarrow> (sm\<lparr>sm_state := s, sm_emitted := sm_emitted sm @ emitAll (sm_listeners sm)\<rparr>, Ok ())
      | (s, r) \<Rightarrow> (sm\<lparr>sm_state := s\<rparr>, r))"

definition sm_notify :: "jsstr list \<Rightarrow> 's StateManager \<Rightarrow> 's StateManager" where
  "sm_notify types sm = sm\<lparr>sm_emitted := sm_emitted sm @ concat (map (\<lambda>t. em_emit t (sm_listeners sm)) types)\<rparr>"

definition sm_on :: "jsstr \<Rightarrow> nat \<Rightarrow> 's StateManager \<Rightarrow> 's StateManager" where
  "sm_on opType listener sm = sm\<lparr>sm_listeners := addEventListener opType listener (sm_listeners sm)\<rparr>"

definition sm_off :: "jsstr \<Rightarrow> nat \<Rightarrow> 's StateManager \<Rightarrow> 's StateManager" where
  "sm_off opType listener sm = sm\<lparr>sm_listeners := removeEventListener opType listener (sm_listeners sm)\<rparr>"

text \<open>The memory database as applier and clearer.\<close>

definition edb_applier :: "EntDBMemory \<Rightarrow> IOp list \<Rightarrow> EntDBMemory \<times> ApplyResult" where
  "edb_applier db ops = edb_apply ops db"

definition edb_clearer :: "EntDBMemory \<Rightarrow> EntDBMemory \<times> unit vs" where
  "edb_clearer db = (edb_clear db, Ok ())"

section \<open>Lemmas\<close>

lemma parse_msgs_acc:
  "parse_msgs msgs ops stats = andThen (parse_msgs msgs [] []) (\<lambda>(o', s'). Ok (ops @ o', stats @ s'))"
proof (induction msgs arbitrary: ops stats)
  case (Cons m ms)
  show ?case
  proof (cases "msgToOp m")
    case (Ok op)
    then show ?thesis using Cons.IH [of "ops @ [op]" "stats @ [Success]"] Cons.IH [of "[op]" "[Success]"]
      by (simp add: andThen_assoc case_prod_unfold)
  next
    case (Err s)
    then show ?thesis using Cons.IH [of ops "stats @ [s]"] Cons.IH [of "[]" "[s]"]
      by (simp add: andThen_assoc case_prod_unfold)
  qed simp_all
qed simp

text \<open>The operations of the messages that parse, in order.\<close>

definition ops_of :: "IMessage list \<Rightarrow> IOp list" where
  "ops_of msgs = List.map_filter (\<lambda>m. case msgToOp m of Ok op \<Rightarrow> Some op | _ \<Rightarrow> None) msgs"

definition no_throw :: "IMessage list \<Rightarrow> bool" where
  "no_throw msgs = list_all (\<lambda>m. msgToOp m \<noteq> Throw \<and> msgToOp m \<noteq> Hang) msgs"

lemma ops_of_simps [simp]:
  "ops_of [] = []"
  "ops_of (m # ms) = (case msgToOp m of Ok op \<Rightarrow> op # ops_of ms | _ \<Rightarrow> ops_of ms)"
  "ops_of (xs @ ys) = ops_of xs @ ops_of ys"
  by (simp_all add: ops_of_def List.map_filter_def split: vs.splits)

lemma parse_msgs_ok:
  "no_throw msgs \<Longrightarrow> parse_msgs msgs [] [] = Ok (ops_of msgs, map (\<lambda>m. status_of (msgToOp m)) msgs)"
proof (induction msgs)
  case (Cons m ms)
  then have ih: "parse_msgs ms [] [] = Ok (ops_of ms, map (\<lambda>m. status_of (msgToOp m)) ms)" by (simp add: no_throw_def)
  show ?case using Cons.prems
    by (cases "msgToOp m") (simp_all add: no_throw_def parse_msgs_acc [of ms "[_]"] parse_msgs_acc [of ms "[]" "[_]"] ih)
qed simp

lemma apply_stats_length: "length (ar_stats (snd (edb_apply ops db))) = length ops"
proof -
  have "length (ar_stats (snd (foldl apply_one st ops))) = length (ar_stats (snd st)) + length ops" for st
  proof (induction ops arbitrary: st)
    case (Cons x xs)
    have "length (ar_stats (snd (apply_one st x))) = Suc (length (ar_stats (snd st)))"
      by (auto simp: apply_one_def Let_def split: prod.splits vs.splits)
    then show ?case using Cons.IH [of "apply_one st x"] by simp
  qed simp
  then show ?thesis by (simp add: edb_apply_def)
qed

lemma merge_parsed: "length applyStats = n \<Longrightarrow> merge_stats (replicate n Success) applyStats = map Some applyStats"
  by (rule nth_equalityI) (simp_all add: merge_stats_def)

lemma merge_shift:
  assumes "length stats = length pre + n" "st \<noteq> Success"
  shows "merge_stats (map (\<lambda>_. Success) pre @ st # replicate n Success) stats =
    map Some (take (length pre) stats) @ Some st # drop (Suc (length pre)) (map Some stats) @ (if n = 0 then [] else [None])"
    (is "?l = ?r")
proof (rule nth_equalityI)
  show "length ?l = length ?r" using assms(1) by (auto simp: merge_stats_def)
  fix i assume i: "i < length ?l"
  consider "i < length pre" | "i = length pre" | "length pre < i" by linarith
  then show "?l ! i = ?r ! i"
  proof cases
    case 3
    then obtain j where j: "i = length pre + Suc j" "j < n" using i
      by (auto simp: merge_stats_def dest!: less_imp_Suc_add)
    show ?thesis using j assms(1)
      by (simp add: merge_stats_def nth_append min_def not_less) (auto simp: nth_append)
  qed (use i assms in \<open>auto simp: merge_stats_def nth_append min_def\<close>)
qed

lemma sm_apply_eq:
  assumes "no_throw msgs"
  shows "snd (sm_apply applier msgs sm) =
           Ok (merge_stats (map (\<lambda>m. status_of (msgToOp m)) msgs) (ar_stats (snd (applier (sm_state sm) (ops_of msgs)))))"
    and "sm_state (fst (sm_apply applier msgs sm)) = fst (applier (sm_state sm) (ops_of msgs))"
    and "sm_emitted (fst (sm_apply applier msgs sm)) = sm_emitted sm @
           (if sm_cacheDriven sm then []
            else concat (map (\<lambda>t. em_emit t (sm_listeners sm)) (ar_types (snd (applier (sm_state sm) (ops_of msgs))))))"
  by (simp_all add: sm_apply_def parse_msgs_ok [OF assms] Let_def split: prod.splits)

lemma em_emit_set: "(l, t) \<in> set (em_emit t' ls) = (t = t' \<and> l \<in> set (case map_get ls t of None \<Rightarrow> [] | Some x \<Rightarrow> x))"
  by (auto simp: em_emit_def split: option.splits)

text \<open>A batch of messages that all parse. The statuses that the state manager returns are, message
  by message, those of the entity database for the corresponding operations; the state is the
  database after them; and, unless a cache notifies, exactly the listeners of the types that the
  batch changed are called.\<close>

theorem state_apply_aligned:
  assumes "\<forall>m \<in> set msgs. \<exists>op. msgToOp m = Ok op" "\<not> sm_cacheDriven sm"
  shows "\<exists>sm' r. edb_apply (map (\<lambda>m. case msgToOp m of Ok op \<Rightarrow> op) msgs) (sm_state sm) = (sm_state sm', r)
    \<and> sm_apply edb_applier msgs sm = (sm', Ok (map Some (ar_stats r))) \<and> length (ar_stats r) = length msgs
    \<and> (\<exists>new. sm_emitted sm' = sm_emitted sm @ new
        \<and> (\<forall>l t. (l, t) \<in> set new \<longleftrightarrow>
             t \<in> set (ar_types r) \<and> l \<in> set (case map_get (sm_listeners sm) t of None \<Rightarrow> [] | Some ls \<Rightarrow> ls)))"
proof -
  have nt: "no_throw msgs" using assms(1) by (auto simp: no_throw_def list_all_iff)
  have ops: "ops_of msgs = map (\<lambda>m. case msgToOp m of Ok op \<Rightarrow> op) msgs"
    using assms(1) by (induction msgs) auto
  have st: "map (\<lambda>m. status_of (msgToOp m)) msgs = replicate (length msgs) Success"
    using assms(1) by (induction msgs) auto
  obtain db r where r: "edb_apply (ops_of msgs) (sm_state sm) = (db, r)" by (metis surj_pair)
  have l: "length (ar_stats r) = length msgs" using apply_stats_length [of "ops_of msgs" "sm_state sm"] r ops by simp
  have "sm_apply edb_applier msgs sm = (fst (sm_apply edb_applier msgs sm), Ok (map Some (ar_stats r)))"
    using sm_apply_eq(1) [OF nt, of edb_applier sm] st merge_parsed [OF l] r
    by (metis edb_applier_def prod.collapse snd_conv)
  then show ?thesis
    using sm_apply_eq(2,3) [OF nt, of edb_applier sm] r l assms(2) unfolding ops
    by (intro exI [of _ "fst (sm_apply edb_applier msgs sm)"] exI [of _ r]) (auto simp: edb_applier_def em_emit_set)
qed

text \<open>One message that does not parse shifts the statuses of those after it. The applier's statuses
  are indexed by the position of the message although the message that failed to parse has no
  operation: every later message is reported with the status of the message after it, and the last
  one with \<open>undefined\<close>, while the operations are applied to the database all the same.\<close>

theorem state_apply_misaligned:
  assumes "\<forall>m \<in> set (pre @ post). \<exists>op. msgToOp m = Ok op" "msgToOp bad = Err st" "st \<noteq> Success"
  shows "\<exists>sm' r. edb_apply (ops_of pre @ ops_of post) (sm_state sm) = (sm_state sm', r)
    \<and> length (ar_stats r) = length pre + length post
    \<and> sm_apply edb_applier (pre @ [bad] @ post) sm = (sm', Ok
        (map Some (take (length pre) (ar_stats r)) @ [Some st]
         @ map Some (drop (length pre + 1) (ar_stats r)) @ (if post = [] then [] else [None])))"
proof -
  let ?msgs = "pre @ [bad] @ post"
  have "msgToOp m \<noteq> Throw \<and> msgToOp m \<noteq> Hang" if "m \<in> set ?msgs" for m
  proof (cases "m = bad")
    case False
    then have "m \<in> set (pre @ post)" using that by simp
    then show ?thesis using assms(1) by fastforce
  qed (simp add: assms(2))
  then have nt: "no_throw ?msgs" by (simp add: no_throw_def list_all_iff)
  have ops: "ops_of ?msgs = ops_of pre @ ops_of post" by (simp add: assms(2))
  have sts: "map (\<lambda>m. status_of (msgToOp m)) xs = map (\<lambda>_. Success) xs" if "\<forall>m \<in> set xs. \<exists>op. msgToOp m = Ok op" for xs
    using that by auto
  have len: "length (ops_of xs) = length xs" if "\<forall>m \<in> set xs. \<exists>op. msgToOp m = Ok op" for xs
    using that by (induction xs) auto
  obtain db r where r: "edb_apply (ops_of pre @ ops_of post) (sm_state sm) = (db, r)" by (metis surj_pair)
  have l: "length (ar_stats r) = length pre + length post"
    using apply_stats_length [of "ops_of pre @ ops_of post" "sm_state sm"] r assms(1) len by simp
  have st: "map (\<lambda>m. status_of (msgToOp m)) ?msgs = map (\<lambda>_. Success) pre @ st # replicate (length post) Success"
    using assms(1) by (simp add: sts assms(2) map_replicate_const)
  have "snd (sm_apply edb_applier ?msgs sm) = Ok
      (map Some (take (length pre) (ar_stats r)) @ [Some st]
       @ map Some (drop (length pre + 1) (ar_stats r)) @ (if post = [] then [] else [None]))"
    unfolding sm_apply_eq(1) [OF nt] ops st merge_shift [OF l assms(3)] edb_applier_def r snd_conv
    by (simp add: r merge_shift [OF l assms(3)] drop_map)
  then show ?thesis
    using sm_apply_eq(2) [OF nt, of edb_applier sm] r l unfolding ops
    by (intro exI [of _ "fst (sm_apply edb_applier ?msgs sm)"] exI [of _ r]) (simp add: edb_applier_def prod_eq_iff)
qed

definition sample_sm :: "EntDBMemory StateManager" where
  "sample_sm = \<lparr>sm_state = EntDBMemory_new [] True, sm_listeners = [], sm_cacheDriven = False,
                sm_emitted = [], sm_dirty = []\<rparr>"

definition delete_msg :: IMessage where
  "delete_msg = sample_msg None"

definition garbled_msg :: IMessage where
  "garbled_msg = sample_msg (Some [255])"

lemma sample_ops: "msgToOp delete_msg = Ok (DeleteOp [1, 5, 0] 300 2)" "msgToOp garbled_msg = Err InvalidMessage"
  by code_simp+

theorem state_apply_aligned_witness:
  "\<exists>sm' r. edb_apply [DeleteOp [1, 5, 0] 300 2] (sm_state sample_sm) = (sm_state sm', r)
    \<and> sm_apply edb_applier [delete_msg] sample_sm = (sm', Ok (map Some (ar_stats r)))"
  using state_apply_aligned [of "[delete_msg]" sample_sm] by (auto simp: sample_ops sample_sm_def)

theorem state_apply_misaligned_witness:
  "\<exists>sm' r. edb_apply [DeleteOp [1, 5, 0] 300 2] (sm_state sample_sm) = (sm_state sm', r) \<and> length (ar_stats r) = 1
    \<and> sm_apply edb_applier [garbled_msg, delete_msg] sample_sm = (sm', Ok [Some InvalidMessage, None])"
  using state_apply_misaligned [of "[]" "[delete_msg]" garbled_msg InvalidMessage sample_sm]
  by (auto simp: sample_ops)

end
