(* ===== verification/Stores.thy ===== *)
theory Stores
  imports HostClient State
begin

text \<open>
  The client's stores: account labels (\<^verbatim>\<open>web/src/stores/label.ts\<close>), realm rows (\<^verbatim>\<open>realm.ts\<close>), host
  cursors (\<^verbatim>\<open>cursor.ts\<close>), archive rows (\<^verbatim>\<open>web/src/types.ts\<close>), the ordering and batching helpers
  (\<^verbatim>\<open>hlc.ts\<close>, \<^verbatim>\<open>batch.ts\<close>) and the in-memory stores (\<^verbatim>\<open>stores/memory\<close>). The interface that
  synchronisation uses is a record of operations; its contract is the locale \<open>client_store\<close>,
  which the memory store is shown to satisfy.
\<close>

section \<open>Account labels (label.ts)\<close>

text \<open>The white space and line terminators that \<open>String.prototype.trim\<close> removes.\<close>

definition js_space :: "16 word \<Rightarrow> bool" where
  "js_space c = (c \<in> set ([9, 10, 11, 12, 13, 32, 160, 0x1680] @ map (\<lambda>i. 0x2000 + word_of_nat i) [0..<11]
     @ [0x2028, 0x2029, 0x202f, 0x205f, 0x3000, 0xfeff]))"

definition js_trim :: "jsstr \<Rightarrow> jsstr" where
  "js_trim s = rev (dropWhile js_space (rev (dropWhile js_space s)))"

definition accountLabel :: "jsstr option \<Rightarrow> jsstr vs" where
  "accountLabel raw = (case raw of None \<Rightarrow> Ok [] | Some s \<Rightarrow> Ok (js_trim s))"

definition singleAccountLabel :: "jsstr option \<Rightarrow> jsstr option \<Rightarrow> bool \<Rightarrow> jsstr vs" where
  "singleAccountLabel current raw occupied =
     (case accountLabel raw of
        Ok label \<Rightarrow>
          (case current of
             Some c \<Rightarrow> if occupied \<and> c \<noteq> label then Err InvalidParam else Ok label
           | None \<Rightarrow> Ok label)
      | Throw \<Rightarrow> Throw | Hang \<Rightarrow> Hang | Err _ \<Rightarrow> Err InvalidParam)"

section \<open>Realm rows (realm.ts)\<close>

record IRealm =
  rl_label :: jsstr
  rl_index :: int
  rl_prior :: "int list option"

definition realmLabel :: "jsstr option \<Rightarrow> jsstr option" where
  "realmLabel raw = (case raw of None \<Rightarrow> None | Some s \<Rightarrow> if s = [] then None else Some s)"

definition isIndex :: "int \<Rightarrow> bool" where
  "isIndex n = (n \<ge> 0)"

definition decodeRealm :: "IRealm \<Rightarrow> IRealm option" where
  "decodeRealm raw =
     (if \<not> isIndex (rl_index raw) then None
      else case rl_prior raw of
        None \<Rightarrow> Some raw
      | Some prior \<Rightarrow>
          if \<not> list_all isIndex prior then None
          else Some (raw\<lparr>rl_prior := (if length prior > 0 then Some prior else None)\<rparr>))"

definition advanceRealm :: "jsstr \<Rightarrow> IRealm option \<Rightarrow> int \<Rightarrow> IRealm vs" where
  "advanceRealm label prev idx =
     (if \<not> isIndex idx then Err InvalidParam
      else case prev of
        None \<Rightarrow> Ok \<lparr>rl_label = label, rl_index = idx, rl_prior = None\<rparr>
      | Some r \<Rightarrow>
          if idx < rl_index r then Err InvalidParam
          else if idx > rl_index r then
            Ok \<lparr>rl_label = label, rl_index = idx,
                rl_prior = Some ((case rl_prior r of None \<Rightarrow> [] | Some p \<Rightarrow> p) @ [rl_index r])\<rparr>
          else Ok \<lparr>rl_label = label, rl_index = idx, rl_prior = rl_prior r\<rparr>)"

section \<open>Host cursors (cursor.ts)\<close>

text \<open>\<open>String(n)\<close> of an integer: decimal digits.\<close>

fun nat_str :: "nat \<Rightarrow> jsstr" where
  "nat_str n = (if n < 10 then [word_of_nat (48 + n)] else nat_str (n div 10) @ [word_of_nat (48 + n mod 10)])"

declare nat_str.simps [simp del]

definition num_str :: "int \<Rightarrow> jsstr" where
  "num_str n = (if n < 0 then 45 # nat_str (nat (- n)) else nat_str (nat n))"

record RealmCursor =
  rc_realm :: IKDM
  rc_lastSeq :: int

record CursorRow =
  cr_lastSeq :: int
  cr_seqs :: "RealmCursor list option"

definition isDefaultRealm :: "IKDM option \<Rightarrow> bool" where
  "isDefaultRealm realm =
     (case realm of
        None \<Rightarrow> True
      | Some r \<Rightarrow> kdm_label r = kdm_label nullKDM \<and> kdm_index r = kdm_index nullKDM)"

definition sameRealm :: "IKDM \<Rightarrow> IKDM \<Rightarrow> bool" where
  "sameRealm a b = (kdm_label a = kdm_label b \<and> kdm_index a = kdm_index b)"

definition realmKey :: "IKDM \<Rightarrow> jsstr" where
  "realmKey realm = kdm_label realm @ [0] @ num_str (kdm_index realm)"

definition cursorOf :: "CursorRow \<Rightarrow> IKDM \<Rightarrow> int" where
  "cursorOf row realm =
     (if isDefaultRealm (Some realm) then cr_lastSeq row
      else case cr_seqs row of
        None \<Rightarrow> 0
      | Some seqs \<Rightarrow>
          (case find (\<lambda>s. kdm_label (rc_realm s) = kdm_label realm \<and> kdm_index (rc_realm s) = kdm_index realm) seqs of
             None \<Rightarrow> 0 | Some hit \<Rightarrow> rc_lastSeq hit))"

definition add_realm :: "IKDM list \<times> jsstr list \<Rightarrow> jsstr \<times> int \<Rightarrow> IKDM list \<times> jsstr list" where
  "add_realm st li =
     (let realm = (if fst li = [] \<and> snd li = 0 then nullKDM else \<lparr>kdm_label = fst li, kdm_index = snd li\<rparr>);
          key = realmKey realm
      in if key \<in> set (snd st) then st else (fst st @ [realm], snd st @ [key]))"

definition realmKDMs :: "IRealm list \<Rightarrow> IKDM list" where
  "realmKDMs rows =
     fst (foldl (\<lambda>st row.
            let st = add_realm st (rl_label row, rl_index row)
            in case rl_prior row of
                 None \<Rightarrow> st
               | Some prior \<Rightarrow> foldl (\<lambda>st idx. add_realm st (rl_label row, idx)) st prior)
          ([nullKDM], [realmKey nullKDM]) rows)"

definition realmKDM :: "jsstr option \<Rightarrow> IRealm list \<Rightarrow> IKDM" where
  "realmKDM label rows =
     (case label of
        None \<Rightarrow> nullKDM
      | Some l \<Rightarrow>
          if l = [] then nullKDM
          else case find (\<lambda>row. rl_label row = l) rows of
            Some row \<Rightarrow> \<lparr>kdm_label = rl_label row, kdm_index = rl_index row\<rparr>
          | None \<Rightarrow> \<lparr>kdm_label = l, kdm_index = 0\<rparr>)"

definition storedRealm :: "IKDM \<Rightarrow> IKDM option" where
  "storedRealm realm = (if isDefaultRealm (Some realm) then None else Some realm)"

definition downloadKey :: "jsstr \<Rightarrow> int \<Rightarrow> IKDM option \<Rightarrow> jsstr" where
  "downloadKey host seq realm =
     (let r = (case realm of None \<Rightarrow> nullKDM | Some r \<Rightarrow> r)
      in if isDefaultRealm (Some r) then host @ js '':'' @ num_str seq
         else host @ js '':'' @ kdm_label r @ js '':'' @ num_str (kdm_index r) @ js '':'' @ num_str seq)"

record HostSeqsUpdate =
  hu_lastSeq :: "int option"
  hu_setLastSeq :: "int option"

definition nextCursor :: "int \<Rightarrow> HostSeqsUpdate \<Rightarrow> int option" where
  "nextCursor cur u =
     (case hu_setLastSeq u of
        Some n \<Rightarrow> Some n
      | None \<Rightarrow> (case hu_lastSeq u of Some n \<Rightarrow> if n > cur then Some n else None | None \<Rightarrow> None))"

definition projectCursors :: "RealmCursor list \<Rightarrow> CursorRow" where
  "projectCursors cursors =
     (case foldl (\<lambda>(lastSeq, seqs) c. if isDefaultRealm (Some (rc_realm c)) then (rc_lastSeq c, seqs)
                                      else (lastSeq, seqs @ [c])) (0, []) cursors of
        (lastSeq, seqs) \<Rightarrow> \<lparr>cr_lastSeq = lastSeq, cr_seqs = (if length seqs = 0 then None else Some seqs)\<rparr>)"

section \<open>Archive rows and queue items (types.ts)\<close>

record IDownloadMessage =
  dm_kdm :: bytes
  dm_seq :: int
  dm_head :: IMessageHead
  dm_host :: jsstr
  dm_headEnc :: "bytes option"
  dm_headEncHash :: "bytes option"
  dm_realm :: "IKDM option"

datatype ApldState = APLD_PENDING | APLD_APPLIED | APLD_ERROR

text \<open>What a stored row may hold in \<open>apld\<close>: one of the three states, a legacy boolean, or anything else.\<close>

datatype apld_raw = RawApld ApldState | RawBool bool | RawOther

fun apldFromStored :: "apld_raw option \<Rightarrow> ApldState" where
  "apldFromStored (Some (RawBool True)) = APLD_APPLIED"
| "apldFromStored (Some (RawApld APLD_APPLIED)) = APLD_APPLIED"
| "apldFromStored (Some (RawApld APLD_ERROR)) = APLD_ERROR"
| "apldFromStored _ = APLD_PENDING"

record IStoredMessageData =
  sd_eid :: bytes
  sd_off :: "int option"
  sd_ctr :: "int option"
  sd_typ :: "jsstr option"
  sd_body :: "bytes option"
  sd_rlm :: "jsstr option"
  sd_apld :: "apld_raw option"
  sd_err :: "status option"

record IStorableMessage =
  st_key :: bytes
  st_data :: IStoredMessageData

record IStoredMessage =
  im_hash :: bytes
  im_head :: IMessageHead
  im_body :: "bytes option"
  im_apld :: ApldState
  im_rlm :: "jsstr option"
  im_err :: "status option"

definition isPendingApply :: "IStoredMessageData \<Rightarrow> bool" where
  "isPendingApply data = (apldFromStored (sd_apld data) = APLD_PENDING)"

definition isTerminalApplyFailure :: "status \<Rightarrow> bool" where
  "isTerminalApplyFailure st = (st \<noteq> Success \<and> st \<noteq> NoChange \<and> st \<noteq> DatabaseError \<and> st \<noteq> StorageError)"

definition setApld :: "ApldState \<Rightarrow> status option \<Rightarrow> IStoredMessageData \<Rightarrow> IStoredMessageData" where
  "setApld apld err data =
     (let data = data\<lparr>sd_apld := Some (RawApld apld)\<rparr>
      in if apld = APLD_ERROR \<and> err \<noteq> None then data\<lparr>sd_err := err\<rparr> else data\<lparr>sd_err := None\<rparr>)"

definition toStoredMessage :: "prims \<Rightarrow> bytes \<Rightarrow> IStoredMessageData \<Rightarrow> bool \<Rightarrow> IStoredMessage" where
  "toStoredMessage p hash data includeBody =
     (let apld = apldFromStored (sd_apld data);
          raw = sd_body data;
          len = (case raw of None \<Rightarrow> 0 | Some b \<Rightarrow> int (length b));
          hsh = (case raw of None \<Rightarrow> None | Some b \<Rightarrow> if includeBody \<and> len > 0 then Some (blake3_hash p b) else None)
      in \<lparr>im_hash = hash,
          im_head = \<lparr>mh_typ = Some (case sd_typ data of None \<Rightarrow> [] | Some t \<Rightarrow> t), mh_eid = sd_eid data,
                     mh_off = (case sd_off data of None \<Rightarrow> 0 | Some n \<Rightarrow> n),
                     mh_ctr = (case sd_ctr data of None \<Rightarrow> 0 | Some n \<Rightarrow> n), mh_len = len, mh_hsh = hsh\<rparr>,
          im_body = (if includeBody then raw else None),
          im_apld = apld,
          im_rlm = realmLabel (sd_rlm data),
          im_err = (if apld = APLD_ERROR then sd_err data else None)\<rparr>)"

definition omitDefaultRealm_row :: "IStoredMessageData \<Rightarrow> IStoredMessageData" where
  "omitDefaultRealm_row row =
     (case sd_rlm row of None \<Rightarrow> row | Some r \<Rightarrow> if r \<noteq> [] then row else row\<lparr>sd_rlm := None\<rparr>)"

section \<open>Recency order and batches (hlc.ts, batch.ts, progress.ts)\<close>

text \<open>\<open>undefined\<close> for an id that does not parse; \<open>NaN\<close> for an Invalid Date.\<close>

datatype ms = NoMs | NaNMs | Ms int

definition headUpdatedAtMs :: "IMessageHead \<Rightarrow> ms" where
  "headUpdatedAtMs head =
     (case eid_decode (Decoder (mh_eid head)) of
        Ok (parsed, _) \<Rightarrow> (case eid_ts parsed of None \<Rightarrow> NaNMs | Some t \<Rightarrow> Ms (t + mh_off head))
      | _ \<Rightarrow> NoMs)"

text \<open>A comparator that returns NaN counts as 0.\<close>

definition compareHeadHlcDesc :: "IMessageHead \<Rightarrow> IMessageHead \<Rightarrow> int" where
  "compareHeadHlcDesc a b =
     (case (headUpdatedAtMs a, headUpdatedAtMs b) of
        (NoMs, NoMs) \<Rightarrow> 0
      | (NoMs, _) \<Rightarrow> 1
      | (_, NoMs) \<Rightarrow> -1
      | (Ms ta, Ms tb) \<Rightarrow> if tb \<noteq> ta then tb - ta else mh_ctr b - mh_ctr a
      | _ \<Rightarrow> 0)"

definition sortByHlcDesc :: "'a list \<Rightarrow> ('a \<Rightarrow> IMessageHead) \<Rightarrow> 'a list" where
  "sortByHlcDesc items headOf = js_sort (\<lambda>x y. compareHeadHlcDesc (headOf x) (headOf y)) items"

fun batch_loop :: "('a \<Rightarrow> int) \<Rightarrow> int \<Rightarrow> 'a list \<Rightarrow> 'a list list \<Rightarrow> 'a list \<Rightarrow> int \<Rightarrow> 'a list list" where
  "batch_loop sizeOf limit [] batches batch bytes = (if length batch > 0 then batches @ [batch] else batches)"
| "batch_loop sizeOf limit (item # items) batches batch bytes =
     (let size = sizeOf item;
          over = length batch > 0 \<and> bytes + size > limit;
          batches = (if over then batches @ [batch] else batches);
          batch = (if over then [] else batch) @ [item];
          bytes = (if over then 0 else bytes) + size
      in if bytes \<ge> limit then batch_loop sizeOf limit items (batches @ [batch]) [] 0
         else batch_loop sizeOf limit items batches batch bytes)"

definition batchByBytes :: "'a list \<Rightarrow> ('a \<Rightarrow> int) \<Rightarrow> int \<Rightarrow> 'a list list" where
  "batchByBytes items sizeOf limit = batch_loop sizeOf limit items [] [] 0"

definition shouldEmitItemProgress :: "int \<Rightarrow> int \<Rightarrow> int \<Rightarrow> bool" where
  "shouldEmitItemProgress dn tot every =
     (if dn \<le> 0 \<or> tot \<le> 0 then False
      else if dn = 1 \<or> dn = tot then True
      else dn mod every = 0)"

section \<open>The memory stores (stores/memory)\<close>

subsection \<open>Hosts\<close>

record IHostConnectionInfo =
  hi_handle :: jsstr
  hi_label :: jsstr
  hi_idx :: "int option"

record IHostRow = IHostConnectionInfo +
  hr_meta :: "IHostMetadata option"
  hr_cursor :: CursorRow

record MemoryHostStore =
  ho_hosts :: "(jsstr, IHostRow) jsmap"
  ho_cursors :: "(jsstr, (jsstr, RealmCursor) jsmap) jsmap"

definition new_row :: "IHostConnectionInfo \<Rightarrow> IHostMetadata option \<Rightarrow> IHostRow" where
  "new_row info meta =
     \<lparr>hi_handle = hi_handle info, hi_label = hi_label info, hi_idx = hi_idx info, hr_meta = meta,
      hr_cursor = \<lparr>cr_lastSeq = 0, cr_seqs = None\<rparr>\<rparr>"

definition idx_or_zero :: "int option \<Rightarrow> int" where
  "idx_or_zero i = (case i of None \<Rightarrow> 0 | Some n \<Rightarrow> n)"

definition ho_add :: "IHostConnectionInfo \<Rightarrow> MemoryHostStore \<Rightarrow> MemoryHostStore" where
  "ho_add info s =
     (case map_get (ho_hosts s) (hi_label info) of
        Some prev \<Rightarrow>
          if hi_handle prev = hi_handle info \<and> idx_or_zero (hi_idx prev) = idx_or_zero (hi_idx info)
          then s\<lparr>ho_hosts := map_set (hi_label info) (new_row info (hr_meta prev)) (ho_hosts s)\<rparr>
          else s\<lparr>ho_cursors := map_delete (hi_label info) (ho_cursors s),
                 ho_hosts := map_set (hi_label info) (new_row info None) (ho_hosts s)\<rparr>
      | None \<Rightarrow>
          s\<lparr>ho_cursors := map_delete (hi_label info) (ho_cursors s),
            ho_hosts := map_set (hi_label info) (new_row info None) (ho_hosts s)\<rparr>)"

definition ho_recordSeqs :: "jsstr \<Rightarrow> HostSeqsUpdate \<Rightarrow> IKDM option \<Rightarrow> MemoryHostStore \<Rightarrow> MemoryHostStore" where
  "ho_recordSeqs label u realm s =
     (if \<not> map_has (ho_hosts s) label then s
      else
        let r = (case realm of None \<Rightarrow> nullKDM | Some r \<Rightarrow> r);
            key = realmKey r;
            bucket = map_get (ho_cursors s) label;
            cur = (case bucket of None \<Rightarrow> 0
                   | Some b \<Rightarrow> (case map_get b key of None \<Rightarrow> 0 | Some c \<Rightarrow> rc_lastSeq c))
        in case nextCursor cur u of
             None \<Rightarrow> s
           | Some n \<Rightarrow>
               (let nextBucket = (case bucket of None \<Rightarrow> [] | Some b \<Rightarrow> b)
                in s\<lparr>ho_cursors := map_set label (map_set key \<lparr>rc_realm = r, rc_lastSeq = n\<rparr> nextBucket) (ho_cursors s)\<rparr>))"

definition ho_touch :: "jsstr \<Rightarrow> int \<Rightarrow> IKDM option \<Rightarrow> MemoryHostStore \<Rightarrow> MemoryHostStore" where
  "ho_touch label seq realm s = ho_recordSeqs label \<lparr>hu_lastSeq = Some seq, hu_setLastSeq = None\<rparr> realm s"

definition projectRealmCursors :: "MemoryHostStore \<Rightarrow> IHostRow \<Rightarrow> IHostRow" where
  "projectRealmCursors s host =
     host\<lparr>hr_cursor := projectCursors (case map_get (ho_cursors s) (hi_label host) of
                                         None \<Rightarrow> [] | Some bucket \<Rightarrow> map snd bucket)\<rparr>"

text \<open>\<open>get\<close> and \<open>list\<close> also write the projection back into the row; every read projects it again.\<close>

definition ho_get :: "jsstr \<Rightarrow> MemoryHostStore \<Rightarrow> IHostRow option" where
  "ho_get label s = map_option (projectRealmCursors s) (map_get (ho_hosts s) label)"

definition ho_set :: "jsstr \<Rightarrow> IHostMetadata \<Rightarrow> MemoryHostStore \<Rightarrow> MemoryHostStore \<times> status" where
  "ho_set label meta s =
     (case map_get (ho_hosts s) label of
        None \<Rightarrow> (s, NotFound)
      | Some row \<Rightarrow> (s\<lparr>ho_hosts := map_set label (row\<lparr>hr_meta := Some meta\<rparr>) (ho_hosts s)\<rparr>, Success))"

definition ho_del :: "jsstr \<Rightarrow> MemoryHostStore \<Rightarrow> MemoryHostStore" where
  "ho_del label s = s\<lparr>ho_hosts := map_delete label (ho_hosts s), ho_cursors := map_delete label (ho_cursors s)\<rparr>"

definition ho_list :: "MemoryHostStore \<Rightarrow> IHostRow list" where
  "ho_list s = map (projectRealmCursors s \<circ> snd) (ho_hosts s)"

subsection \<open>Queues\<close>

type_synonym MemoryUploadQueue = "(jsstr, jsstr list) jsmap"

definition up_enq :: "jsstr \<Rightarrow> bytes list \<Rightarrow> MemoryUploadQueue \<Rightarrow> MemoryUploadQueue" where
  "up_enq host hshs q =
     map_set host (foldl (\<lambda>s hash. set_add (btoh hash) s) (case map_get q host of None \<Rightarrow> [] | Some s \<Rightarrow> s) hshs) q"

definition up_deq :: "jsstr \<Rightarrow> bytes list \<Rightarrow> MemoryUploadQueue \<Rightarrow> MemoryUploadQueue" where
  "up_deq host hshs q =
     (case map_get q host of
        None \<Rightarrow> q
      | Some s \<Rightarrow> map_set host (foldl (\<lambda>s hash. set_delete (btoh hash) s) s hshs) q)"

text \<open>The keys of the set are hex strings that \<open>btoh\<close> wrote, so \<open>htob\<close> reads every one of them.\<close>

definition up_list :: "jsstr \<Rightarrow> MemoryUploadQueue \<Rightarrow> bytes list" where
  "up_list host q =
     (case map_get q host of
        None \<Rightarrow> []
      | Some s \<Rightarrow> List.map_filter (\<lambda>hex. case htob hex of Ok h \<Rightarrow> Some h | _ \<Rightarrow> None) s)"

definition up_count :: "MemoryUploadQueue \<Rightarrow> nat" where
  "up_count q = sum_list (map (length \<circ> snd) q)"

type_synonym MemoryDownloadQueue = "(jsstr, IDownloadMessage) jsmap"

definition dn_enq :: "IDownloadMessage list \<Rightarrow> MemoryDownloadQueue \<Rightarrow> MemoryDownloadQueue" where
  "dn_enq msgs q = foldl (\<lambda>q msg. map_set (downloadKey (dm_host msg) (dm_seq msg) (dm_realm msg)) msg q) q msgs"

definition dn_deq :: "jsstr \<Rightarrow> int list \<Rightarrow> IKDM option \<Rightarrow> MemoryDownloadQueue \<Rightarrow> MemoryDownloadQueue" where
  "dn_deq host seqs realm q = foldl (\<lambda>q seq. map_delete (downloadKey host seq realm) q) q seqs"

definition dn_list :: "MemoryDownloadQueue \<Rightarrow> IDownloadMessage list" where
  "dn_list q = map snd q"

definition dn_count :: "MemoryDownloadQueue \<Rightarrow> nat" where
  "dn_count q = length q"

subsection \<open>Messages\<close>

type_synonym MemoryMessageStore = "(jsstr, IStoredMessageData) jsmap"

definition msg_add :: "IStorableMessage list \<Rightarrow> MemoryMessageStore \<Rightarrow> MemoryMessageStore \<times> status list" where
  "msg_add messages s =
     (foldl (\<lambda>s m. map_set (btob64 (st_key m)) (omitDefaultRealm_row (st_data m)) s) s messages,
      map (\<lambda>_. Success) messages)"

definition msg_del :: "bytes list \<Rightarrow> MemoryMessageStore \<Rightarrow> MemoryMessageStore" where
  "msg_del keys s = foldl (\<lambda>s key. map_delete (btob64 key) s) s keys"

definition msg_get :: "prims \<Rightarrow> bytes \<Rightarrow> MemoryMessageStore \<Rightarrow> IStoredMessage option" where
  "msg_get p key s = map_option (\<lambda>data. toStoredMessage p key data True) (map_get s (btob64 key))"

definition msg_has :: "bytes \<Rightarrow> MemoryMessageStore \<Rightarrow> bool" where
  "msg_has key s = map_has s (btob64 key)"

text \<open>The keys are base64 strings that \<open>btob64\<close> wrote.\<close>

definition msg_entries :: "MemoryMessageStore \<Rightarrow> (bytes \<times> IStoredMessageData) list" where
  "msg_entries s = List.map_filter (\<lambda>(keyStr, data). case b64tob keyStr of Ok h \<Rightarrow> Some (h, data) | _ \<Rightarrow> None) s"

definition msg_list :: "prims \<Rightarrow> ApldState option \<Rightarrow> bool \<Rightarrow> MemoryMessageStore \<Rightarrow> IStoredMessage list" where
  "msg_list p apld body s =
     map (\<lambda>(hash, data). toStoredMessage p hash data body)
       (filter (\<lambda>(_, data). apld = None \<or> apld = Some (apldFromStored (sd_apld data))) (msg_entries s))"

definition msg_count :: "ApldState option \<Rightarrow> MemoryMessageStore \<Rightarrow> nat" where
  "msg_count apld s =
     (case apld of None \<Rightarrow> length s
      | Some a \<Rightarrow> length (filter (\<lambda>(_, data). apldFromStored (sd_apld data) = a) s))"

definition msg_listKeys :: "MemoryMessageStore \<Rightarrow> bytes list" where
  "msg_listKeys s = map fst (msg_entries s)"

definition num_or_zero :: "int option \<Rightarrow> int" where
  "num_or_zero n = (case n of None \<Rightarrow> 0 | Some i \<Rightarrow> i)"

definition later_row :: "IStoredMessageData \<Rightarrow> IStoredMessageData \<Rightarrow> bool" where
  "later_row data latest =
     (num_or_zero (sd_ctr data) > num_or_zero (sd_ctr latest)
      \<or> (num_or_zero (sd_ctr data) = num_or_zero (sd_ctr latest)
          \<and> num_or_zero (sd_off data) > num_or_zero (sd_off latest)))"

definition msg_last :: "prims \<Rightarrow> bytes \<Rightarrow> MemoryMessageStore \<Rightarrow> IStoredMessage option" where
  "msg_last p eid s =
     map_option (\<lambda>(hash, data). toStoredMessage p hash data True)
       (foldl (\<lambda>latest (hash, data).
            if \<not> bytesEqual eid (sd_eid data) then latest
            else case latest of
              None \<Rightarrow> Some (hash, data)
            | Some l \<Rightarrow> if later_row data (snd l) then Some (hash, data) else latest)
          None (msg_entries s))"

definition msg_mark :: "ApldState \<Rightarrow> (bytes \<times> status option) list \<Rightarrow> MemoryMessageStore \<Rightarrow> MemoryMessageStore" where
  "msg_mark apld entries s =
     foldl (\<lambda>s (key, err). case map_get s (btob64 key) of
              None \<Rightarrow> s | Some data \<Rightarrow> map_set (btob64 key) (setApld apld err data) s) s entries"

definition msg_markApplied :: "bytes list \<Rightarrow> MemoryMessageStore \<Rightarrow> MemoryMessageStore" where
  "msg_markApplied keys s = msg_mark APLD_APPLIED (map (\<lambda>k. (k, None)) keys) s"

definition msg_markFailed :: "(bytes \<times> status) list \<Rightarrow> MemoryMessageStore \<Rightarrow> MemoryMessageStore" where
  "msg_markFailed entries s = msg_mark APLD_ERROR (map (\<lambda>(k, e). (k, Some e)) entries) s"

subsection \<open>Realms and accounts\<close>

type_synonym MemoryRealmStore = "(jsstr, IRealm) jsmap"

definition rl_list :: "MemoryRealmStore \<Rightarrow> IRealm list" where
  "rl_list s = List.map_filter (\<lambda>(_, row). decodeRealm row) s"

definition rl_get :: "jsstr \<Rightarrow> MemoryRealmStore \<Rightarrow> IRealm option" where
  "rl_get label s = Option.bind (map_get s label) decodeRealm"

definition rl_put :: "jsstr \<Rightarrow> int \<Rightarrow> MemoryRealmStore \<Rightarrow> MemoryRealmStore \<times> status" where
  "rl_put label idx s =
     (case advanceRealm label (rl_get label s) idx of
        Ok next \<Rightarrow> (map_set label next s, Success)
      | r \<Rightarrow> (s, status_of r))"

type_synonym MemoryAccountStore = "(jsstr, KeyTag option) jsmap"

definition acc_save :: "prims \<Rightarrow> bytes \<Rightarrow> OuterEnclave \<Rightarrow> jsstr option \<Rightarrow> MemoryAccountStore \<Rightarrow> MemoryAccountStore \<times> OuterEnclave vs" where
  "acc_save p nonce enclave label s =
     (case accountLabel label of
        Throw \<Rightarrow> (s, Throw) | Hang \<Rightarrow> (s, Hang) | Err _ \<Rightarrow> (s, Err InvalidParam)
      | Ok label \<Rightarrow>
          (case Option.bind (map_get s label) id of
             Some tag \<Rightarrow>
               (case keyTagMatches p enclave tag of
                  Ok True \<Rightarrow> (map_set label (Some tag) s, Ok enclave)
                | Ok False \<Rightarrow> (s, Err HashMismatch)
                | Err e \<Rightarrow> (s, Err e) | Throw \<Rightarrow> (s, Throw) | Hang \<Rightarrow> (s, Hang))
           | None \<Rightarrow>
               (case makeKeyTag p nonce enclave of
                  Ok tag \<Rightarrow> (map_set label (Some tag) s, Ok enclave)
                | Err e \<Rightarrow> (s, Err e) | Throw \<Rightarrow> (s, Throw) | Hang \<Rightarrow> (s, Hang))))"

record MemoryStore =
  ss_account :: MemoryAccountStore
  ss_realms :: MemoryRealmStore
  ss_hosts :: MemoryHostStore
  ss_uploads :: MemoryUploadQueue
  ss_downloads :: MemoryDownloadQueue
  ss_messages :: MemoryMessageStore

definition MemoryStore_new :: MemoryStore where
  "MemoryStore_new = \<lparr>ss_account = [], ss_realms = [], ss_hosts = \<lparr>ho_hosts = [], ho_cursors = []\<rparr>,
     ss_uploads = [], ss_downloads = [], ss_messages = []\<rparr>"

definition store_wipe :: "MemoryStore \<Rightarrow> MemoryStore" where
  "store_wipe s = s\<lparr>ss_hosts := \<lparr>ho_hosts = [], ho_cursors = []\<rparr>, ss_uploads := [], ss_downloads := [], ss_messages := []\<rparr>"

section \<open>The interface of synchronisation (types.ts, IStore)\<close>

record 's IStore =
  is_hosts_get :: "jsstr \<Rightarrow> 's \<Rightarrow> IHostRow option"
  is_hosts_list :: "'s \<Rightarrow> IHostRow list"
  is_hosts_recordSeqs :: "jsstr \<Rightarrow> HostSeqsUpdate \<Rightarrow> IKDM option \<Rightarrow> 's \<Rightarrow> 's"
  is_up_enq :: "jsstr \<Rightarrow> bytes list \<Rightarrow> 's \<Rightarrow> 's"
  is_up_deq :: "jsstr \<Rightarrow> bytes list \<Rightarrow> 's \<Rightarrow> 's"
  is_up_list :: "jsstr \<Rightarrow> 's \<Rightarrow> bytes list"
  is_dn_enq :: "IDownloadMessage list \<Rightarrow> 's \<Rightarrow> 's"
  is_dn_deq :: "jsstr \<Rightarrow> int list \<Rightarrow> IKDM option \<Rightarrow> 's \<Rightarrow> 's"
  is_dn_list :: "'s \<Rightarrow> IDownloadMessage list"
  is_msg_add :: "IStorableMessage list \<Rightarrow> 's \<Rightarrow> 's \<times> status list"
  is_msg_has :: "bytes \<Rightarrow> 's \<Rightarrow> bool"
  is_msg_get :: "bytes \<Rightarrow> 's \<Rightarrow> IStoredMessage option"
  is_msg_list :: "ApldState option \<Rightarrow> 's \<Rightarrow> IStoredMessage list"
  is_msg_listKeys :: "'s \<Rightarrow> bytes list"
  is_msg_last :: "bytes \<Rightarrow> 's \<Rightarrow> IStoredMessage option"
  is_msg_markApplied :: "bytes list \<Rightarrow> 's \<Rightarrow> 's"
  is_msg_markFailed :: "(bytes \<times> status) list \<Rightarrow> 's \<Rightarrow> 's"
  is_realms_list :: "'s \<Rightarrow> IRealm list"
  is_realms_put :: "jsstr \<Rightarrow> int \<Rightarrow> 's \<Rightarrow> 's \<times> status"

definition memStore :: "prims \<Rightarrow> MemoryStore IStore" where
  "memStore p =
     \<lparr>is_hosts_get = (\<lambda>l s. ho_get l (ss_hosts s)),
      is_hosts_list = (\<lambda>s. ho_list (ss_hosts s)),
      is_hosts_recordSeqs = (\<lambda>l u r s. s\<lparr>ss_hosts := ho_recordSeqs l u r (ss_hosts s)\<rparr>),
      is_up_enq = (\<lambda>h hs s. s\<lparr>ss_uploads := up_enq h hs (ss_uploads s)\<rparr>),
      is_up_deq = (\<lambda>h hs s. s\<lparr>ss_uploads := up_deq h hs (ss_uploads s)\<rparr>),
      is_up_list = (\<lambda>h s. up_list h (ss_uploads s)),
      is_dn_enq = (\<lambda>ms s. s\<lparr>ss_downloads := dn_enq ms (ss_downloads s)\<rparr>),
      is_dn_deq = (\<lambda>h qs r s. s\<lparr>ss_downloads := dn_deq h qs r (ss_downloads s)\<rparr>),
      is_dn_list = (\<lambda>s. dn_list (ss_downloads s)),
      is_msg_add = (\<lambda>ms s. (s\<lparr>ss_messages := fst (msg_add ms (ss_messages s))\<rparr>, snd (msg_add ms (ss_messages s)))),
      is_msg_has = (\<lambda>k s. msg_has k (ss_messages s)),
      is_msg_get = (\<lambda>k s. msg_get p k (ss_messages s)),
      is_msg_list = (\<lambda>a s. msg_list p a True (ss_messages s)),
      is_msg_listKeys = (\<lambda>s. msg_listKeys (ss_messages s)),
      is_msg_last = (\<lambda>i s. msg_last p i (ss_messages s)),
      is_msg_markApplied = (\<lambda>ks s. s\<lparr>ss_messages := msg_markApplied ks (ss_messages s)\<rparr>),
      is_msg_markFailed = (\<lambda>es s. s\<lparr>ss_messages := msg_markFailed es (ss_messages s)\<rparr>),
      is_realms_list = (\<lambda>s. rl_list (ss_realms s)),
      is_realms_put = (\<lambda>l i s. (s\<lparr>ss_realms := fst (rl_put l i (ss_realms s))\<rparr>, snd (rl_put l i (ss_realms s))))\<rparr>"

text \<open>A cursor is never set to a negative number.\<close>

definition seqs_fine :: "HostSeqsUpdate \<Rightarrow> bool" where
  "seqs_fine u = (case hu_setLastSeq u of None \<Rightarrow> True | Some n \<Rightarrow> n \<ge> 0)"

lemma seqs_fine_touch [simp]: "seqs_fine \<lparr>hu_lastSeq = n, hu_setLastSeq = None\<rparr>"
  by (simp add: seqs_fine_def)

text \<open>
  What the operations do to the four things synchronisation relies on: the archive by head hash,
  the download queue by key, the upload queue of each host as a set, and the cursor of each host
  and realm.
\<close>

locale client_store =
  fixes S :: "'s IStore"
    and inv :: "'s \<Rightarrow> bool"
    and archive :: "'s \<Rightarrow> bytes \<Rightarrow> IStoredMessageData option"
    and queue :: "'s \<Rightarrow> jsstr \<Rightarrow> IDownloadMessage option"
    and uploads :: "'s \<Rightarrow> jsstr \<Rightarrow> bytes set"
    and cursor :: "'s \<Rightarrow> jsstr \<Rightarrow> IKDM \<Rightarrow> int option"
  assumes has_law: "inv s \<Longrightarrow> is_msg_has S k s = (archive s k \<noteq> None)"
    and get_law: "inv s \<Longrightarrow> (is_msg_get S k s = None) = (archive s k = None)"
    and keys_law: "inv s \<Longrightarrow> set (is_msg_listKeys S s) = dom (archive s)"
    and add_law:
      "inv s \<Longrightarrow> is_msg_add S ms s = (s', sts) \<Longrightarrow> inv s' \<and> queue s' = queue s \<and> uploads s' = uploads s
         \<and> cursor s' = cursor s \<and> archive s' = foldl (\<lambda>a m. a(st_key m \<mapsto> omitDefaultRealm_row (st_data m))) (archive s) ms"
    and enq_law:
      "inv s \<Longrightarrow> inv (is_dn_enq S ds s) \<and> archive (is_dn_enq S ds s) = archive s \<and> uploads (is_dn_enq S ds s) = uploads s
         \<and> cursor (is_dn_enq S ds s) = cursor s
         \<and> queue (is_dn_enq S ds s) = foldl (\<lambda>q d. q(downloadKey (dm_host d) (dm_seq d) (dm_realm d) \<mapsto> d)) (queue s) ds"
    and deq_law:
      "inv s \<Longrightarrow> inv (is_dn_deq S h qs r s) \<and> archive (is_dn_deq S h qs r s) = archive s
         \<and> uploads (is_dn_deq S h qs r s) = uploads s \<and> cursor (is_dn_deq S h qs r s) = cursor s
         \<and> queue (is_dn_deq S h qs r s) = (\<lambda>k. if k \<in> (\<lambda>q. downloadKey h q r) ` set qs then None else queue s k)"
    and dn_list_law: "inv s \<Longrightarrow> set (is_dn_list S s) = ran (queue s)"
    and up_enq_law:
      "inv s \<Longrightarrow> inv (is_up_enq S h hs s) \<and> archive (is_up_enq S h hs s) = archive s \<and> queue (is_up_enq S h hs s) = queue s
         \<and> cursor (is_up_enq S h hs s) = cursor s
         \<and> uploads (is_up_enq S h hs s) = (uploads s)(h := uploads s h \<union> set hs)"
    and up_deq_law:
      "inv s \<Longrightarrow> inv (is_up_deq S h hs s) \<and> archive (is_up_deq S h hs s) = archive s \<and> queue (is_up_deq S h hs s) = queue s
         \<and> cursor (is_up_deq S h hs s) = cursor s
         \<and> uploads (is_up_deq S h hs s) = (uploads s)(h := uploads s h - set hs)"
    and up_list_law: "inv s \<Longrightarrow> set (is_up_list S h s) = uploads s h"
    and seqs_law:
      "inv s \<Longrightarrow> seqs_fine u \<Longrightarrow> inv (is_hosts_recordSeqs S h u r s) \<and> archive (is_hosts_recordSeqs S h u r s) = archive s
         \<and> queue (is_hosts_recordSeqs S h u r s) = queue s \<and> uploads (is_hosts_recordSeqs S h u r s) = uploads s
         \<and> cursor (is_hosts_recordSeqs S h u r s) =
             (\<lambda>h' r'. if h' = h \<and> r' = (case r of None \<Rightarrow> nullKDM | Some x \<Rightarrow> x)
                     then map_option (\<lambda>c. case nextCursor c u of None \<Rightarrow> c | Some n \<Rightarrow> n) (cursor s h' r')
                     else cursor s h' r')"
    and row_law:
      "inv s \<Longrightarrow> map_option (\<lambda>row. cursorOf (hr_cursor row) rlm) (is_hosts_get S h s) = cursor s h rlm"
begin

text \<open>A cursor that is only ever touched never goes back.\<close>

lemma touch_cursor:
  assumes "inv s" "cursor s h r = Some c"
  shows "cursor (is_hosts_recordSeqs S h \<lparr>hu_lastSeq = Some n, hu_setLastSeq = None\<rparr> (Some r) s) h r = Some (max c n)"
  using seqs_law [OF assms(1), of "\<lparr>hu_lastSeq = Some n, hu_setLastSeq = None\<rparr>" h "Some r"] assms(2)
  by (simp add: nextCursor_def max_def)

end

section \<open>The memory store keeps the contract\<close>

subsection \<open>Realm keys\<close>

lemma digit_nonzero: "n < 10 \<Longrightarrow> (word_of_nat (48 + n) :: 16 word) \<noteq> 0 \<and> unat (word_of_nat (48 + n) :: 16 word) = 48 + n"
  by (simp add: unat_of_nat unat_eq_0 [symmetric] del: of_nat_add)

lemma nat_str_digits: "0 \<notin> set (nat_str n)"
proof (induction n rule: nat_str.induct)
  case (1 n)
  show ?case
  proof (cases "n < 10")
    case True
    then show ?thesis using digit_nonzero [OF True] by (simp add: nat_str.simps [of n] del: of_nat_add)
  next
    case False
    have "n mod 10 < 10" by simp
    from digit_nonzero [OF this] show ?thesis using 1 False
      by (subst nat_str.simps) (simp del: of_nat_add)
  qed
qed

lemma nat_str_inj: "nat_str m = nat_str n \<Longrightarrow> m = n"
proof (induction m arbitrary: n rule: nat_str.induct)
  case (1 m)
  have ne: "nat_str k \<noteq> []" for k by (subst nat_str.simps) simp
  have one: "nat_str k = xs @ [d] \<Longrightarrow> unat d = 48 + k mod 10 \<and> (if k < 10 then xs = [] else xs = nat_str (k div 10))" for k xs d
    using digit_nonzero [of k] digit_nonzero [of "k mod 10"]
    by (subst (asm) nat_str.simps) (auto split: if_splits simp del: of_nat_add)
  obtain xs d where m: "nat_str m = xs @ [d]" using ne [of m] by (metis append_butlast_last_id)
  then have n: "nat_str n = xs @ [d]" using 1(2) by simp
  have md: "m mod 10 = n mod 10" using one [OF m] one [OF n] by simp
  show ?case
  proof (cases "m < 10")
    case True
    then have "n < 10" using one [OF m] one [OF n] ne [of "n div 10"] by (auto split: if_splits)
    with True md show ?thesis by simp
  next
    case False
    then have "\<not> n < 10" "nat_str (m div 10) = nat_str (n div 10)"
      using one [OF m] one [OF n] ne [of "m div 10"] by (auto split: if_splits)
    with 1(1) [OF False] have "m div 10 = n div 10" by blast
    with md show ?thesis by (metis div_mult_mod_eq)
  qed
qed

lemma num_str_digits: "0 \<notin> set (num_str n)"
  by (simp add: num_str_def nat_str_digits)

lemma nat_str_no_minus: "hd (nat_str n) \<noteq> 45 \<and> nat_str n \<noteq> []"
proof (induction n rule: nat_str.induct)
  case (1 n)
  show ?case
  proof (cases "n < 10")
    case True
    have "unat (word_of_nat (48 + n) :: 16 word) \<noteq> 45" using digit_nonzero [OF True] by simp
    moreover have "unat (45 :: 16 word) = 45" by simp
    ultimately have "(word_of_nat (48 + n) :: 16 word) \<noteq> 45" by metis
    then show ?thesis using True by (simp add: nat_str.simps [of n] del: of_nat_add)
  qed (use 1 in \<open>simp add: nat_str.simps [of n]\<close>)
qed

lemma num_str_inj: "num_str a = num_str b \<Longrightarrow> a = b"
proof -
  assume e: "num_str a = num_str b"
  have m: "nat_str x \<noteq> 45 # ys" for x ys
  proof
    assume "nat_str x = 45 # ys"
    then have "hd (nat_str x) = 45" by simp
    then show False using nat_str_no_minus by blast
  qed
  consider "a < 0" "b < 0" | "a < 0" "\<not> b < 0" | "\<not> a < 0" "b < 0" | "\<not> a < 0" "\<not> b < 0" by blast
  then show "a = b"
  proof cases
    case 1
    then have "nat (- a) = nat (- b)" using e by (intro nat_str_inj) (simp add: num_str_def)
    with 1 show ?thesis by simp
  next
    case 2
    then show ?thesis using e m [of "nat b" "nat_str (nat (- a))"] by (simp add: num_str_def)
  next
    case 3
    then show ?thesis using e m [of "nat a" "nat_str (nat (- b))"] by (simp add: num_str_def)
  next
    case 4
    then have "nat a = nat b" using e by (intro nat_str_inj) (simp add: num_str_def)
    with 4 show ?thesis by simp
  qed
qed

lemma realmKey_inj [simp]: "realmKey a = realmKey b \<longleftrightarrow> a = b"
proof
  assume "realmKey a = realmKey b"
  then have e: "rev (num_str (kdm_index a)) @ 0 # rev (kdm_label a) = rev (num_str (kdm_index b)) @ 0 # rev (kdm_label b)"
    unfolding realmKey_def by (metis append_Cons append_Nil append_assoc rev_append rev_singleton_conv)
  have t: "takeWhile (\<lambda>c. c \<noteq> 0) (xs @ 0 # ys) = xs" "dropWhile (\<lambda>c. c \<noteq> 0) (xs @ 0 # ys) = 0 # ys"
    if "0 \<notin> set xs" for xs ys :: jsstr
    using that by (auto simp: takeWhile_append dropWhile_append)
  have z: "0 \<notin> set (rev (num_str n))" for n by (simp add: num_str_digits)
  have "num_str (kdm_index a) = num_str (kdm_index b)" "kdm_label a = kdm_label b"
    using arg_cong [OF e, of "takeWhile (\<lambda>c. c \<noteq> 0)"] arg_cong [OF e, of "dropWhile (\<lambda>c. c \<noteq> 0)"] z
    by (simp_all add: t)
  then show "a = b" using num_str_inj by (cases a; cases b) auto
qed simp

lemma isDefaultRealm_eq [simp]: "isDefaultRealm (Some r) = (r = nullKDM)"
  by (cases r) (auto simp: isDefaultRealm_def nullKDM_def)

lemma sameRealm_eq [simp]: "sameRealm a b = (a = b)"
  by (cases a; cases b) (auto simp: sameRealm_def)

subsection \<open>Cursors\<close>

definition bucket_fit :: "(jsstr, RealmCursor) jsmap \<Rightarrow> bool" where
  "bucket_fit b = (keys_ok b \<and> list_all (\<lambda>(k, c). k = realmKey (rc_realm c)) b)"

definition bucket_cursor :: "(jsstr, RealmCursor) jsmap \<Rightarrow> IKDM \<Rightarrow> int" where
  "bucket_cursor b r = (case map_get b (realmKey r) of None \<Rightarrow> 0 | Some c \<Rightarrow> rc_lastSeq c)"

lemma bucket_find:
  "bucket_fit b \<Longrightarrow> map_get b (realmKey r) = find (\<lambda>c. rc_realm c = r) (map snd b)"
  by (induction b) (auto simp: bucket_fit_def keys_ok_def)

lemma project_fold:
  "foldl (\<lambda>(lastSeq, seqs) c. if isDefaultRealm (Some (rc_realm c)) then (rc_lastSeq c, seqs) else (lastSeq, seqs @ [c])) (n, ys) cs =
     (case find (\<lambda>c. rc_realm c = nullKDM) (rev cs) of None \<Rightarrow> n | Some c \<Rightarrow> rc_lastSeq c,
      ys @ filter (\<lambda>c. rc_realm c \<noteq> nullKDM) cs)"
proof (induction cs rule: rev_induct)
  case (snoc c cs)
  then show ?case by (auto split: option.splits)
qed simp

lemma find_filter: "(\<And>x. P x \<Longrightarrow> Q x) \<Longrightarrow> find P (filter Q xs) = find P xs"
  by (induction xs) auto

lemma find_in: "find P xs = Some y \<Longrightarrow> y \<in> set xs \<and> P y"
  by (induction xs) (auto split: if_splits)

lemma find_rev_unique: "distinct (map f xs) \<Longrightarrow> find (\<lambda>x. f x = a) (rev xs) = find (\<lambda>x. f x = a) xs"
  by (induction xs) (auto simp: find_append find_None_iff find_None_iff2 dest!: find_in split: option.splits)

lemma bucket_distinct: "bucket_fit b \<Longrightarrow> distinct (map rc_realm (map snd b))"
proof -
  assume "bucket_fit b"
  then have "map fst b = map realmKey (map rc_realm (map snd b))" "distinct (map fst b)"
    by (auto simp: bucket_fit_def keys_ok_def list_all_iff)
  then show ?thesis by (metis distinct_map)
qed

lemma project_cursor: "bucket_fit b \<Longrightarrow> cursorOf (projectCursors (map snd b)) r = bucket_cursor b r"
proof -
  assume b: "bucket_fit b"
  let ?cs = "map snd b"
  have n: "find (\<lambda>c. rc_realm c = nullKDM) (rev ?cs) = find (\<lambda>c. rc_realm c = nullKDM) ?cs"
    by (rule find_rev_unique [OF bucket_distinct [OF b]])
  have f: "find (\<lambda>c. rc_realm c = r) (filter (\<lambda>c. rc_realm c \<noteq> nullKDM) ?cs) = find (\<lambda>c. rc_realm c = r) ?cs"
    if "r \<noteq> nullKDM" by (rule find_filter) (use that in auto)
  have e: "(\<lambda>s. kdm_label (rc_realm s) = kdm_label r \<and> kdm_index (rc_realm s) = kdm_index r) = (\<lambda>c. rc_realm c = r)"
    using sameRealm_eq unfolding sameRealm_def by blast
  show ?thesis
  proof (cases "r = nullKDM")
    case True
    then show ?thesis
      unfolding projectCursors_def project_fold n cursorOf_def bucket_cursor_def bucket_find [OF b] by simp
  next
    case False
    have "find (\<lambda>c. rc_realm c = r) ?cs = None" if "filter (\<lambda>c. rc_realm c \<noteq> nullKDM) ?cs = []"
      using f [OF False] that by simp
    then show ?thesis using False f [OF False]
      unfolding projectCursors_def project_fold cursorOf_def bucket_cursor_def bucket_find [OF b] e by auto
  qed
qed

subsection \<open>The components of the memory store\<close>

definition ms_archive :: "MemoryStore \<Rightarrow> bytes \<Rightarrow> IStoredMessageData option" where
  "ms_archive s k = map_get (ss_messages s) (btob64 k)"

definition ms_queue :: "MemoryStore \<Rightarrow> jsstr \<Rightarrow> IDownloadMessage option" where
  "ms_queue s k = map_get (ss_downloads s) k"

definition up_strs :: "MemoryUploadQueue \<Rightarrow> jsstr \<Rightarrow> jsstr list" where
  "up_strs q h = (case map_get q h of None \<Rightarrow> [] | Some l \<Rightarrow> l)"

definition ms_uploads :: "MemoryStore \<Rightarrow> jsstr \<Rightarrow> bytes set" where
  "ms_uploads s h = {x. btoh x \<in> set (up_strs (ss_uploads s) h)}"

definition host_bucket :: "MemoryHostStore \<Rightarrow> jsstr \<Rightarrow> (jsstr, RealmCursor) jsmap" where
  "host_bucket ho h = (case map_get (ho_cursors ho) h of None \<Rightarrow> [] | Some b \<Rightarrow> b)"

definition ms_cursor :: "MemoryStore \<Rightarrow> jsstr \<Rightarrow> IKDM \<Rightarrow> int option" where
  "ms_cursor s h r =
     (if map_has (ho_hosts (ss_hosts s)) h then Some (bucket_cursor (host_bucket (ss_hosts s) h) r) else None)"

definition hosts_fit :: "MemoryHostStore \<Rightarrow> bool" where
  "hosts_fit ho =
     ((\<forall>h row. map_get (ho_hosts ho) h = Some row \<longrightarrow> hi_label row = h) \<and> (\<forall>h. bucket_fit (host_bucket ho h)))"

definition store_inv :: "MemoryStore \<Rightarrow> bool" where
  "store_inv s =
     (keys_ok (ss_messages s) \<and> (\<forall>k \<in> set (map fst (ss_messages s)). \<exists>b. k = btob64 b)
      \<and> keys_ok (ss_downloads s) \<and> (\<forall>h. \<forall>x \<in> set (up_strs (ss_uploads s) h). \<exists>b. x = btoh b)
      \<and> hosts_fit (ss_hosts s))"

lemma new_store_inv [simp]: "store_inv MemoryStore_new"
  by (simp add: store_inv_def MemoryStore_new_def keys_ok_def up_strs_def hosts_fit_def host_bucket_def bucket_fit_def)

lemma keys_of_set: "map_get m k = Some v \<Longrightarrow> k \<in> set (map fst m)"
  by (auto dest: map_of_SomeD simp: rev_image_eqI)

lemma set_keys [simp]: "set (map fst (map_set k v m)) = insert k (set (map fst m))"
  using arg_cong [OF dom_map_of_conv_image_fst [of "map_set k v m"], of "\<lambda>x. x"] dom_map_of_conv_image_fst [of m]
  by (auto simp: update_conv')

lemma fold_messages:
  fixes ms :: "IStorableMessage list"
  assumes "keys_ok s" "\<forall>k \<in> set (map fst s). \<exists>b. k = btob64 b"
  defines "s' \<equiv> foldl (\<lambda>s m. map_set (btob64 (st_key m)) (omitDefaultRealm_row (st_data m)) s) s ms"
  shows "keys_ok s' \<and> (\<forall>k \<in> set (map fst s'). \<exists>b. k = btob64 b) \<and>
    (\<lambda>k. map_get s' (btob64 k)) =
      foldl (\<lambda>a m. a(st_key m \<mapsto> omitDefaultRealm_row (st_data m))) (\<lambda>k. map_get s (btob64 k)) ms"
  unfolding s'_def using assms(1,2)
proof (induction ms arbitrary: s)
  case (Cons m ms)
  let ?s = "map_set (btob64 (st_key m)) (omitDefaultRealm_row (st_data m)) s"
  have k: "keys_ok ?s" using Cons.prems by simp
  have b: "\<forall>k \<in> set (map fst ?s). \<exists>b. k = btob64 b" using Cons.prems(2) unfolding set_keys by blast
  have m: "(\<lambda>k. map_get ?s (btob64 k)) = (\<lambda>k. map_get s (btob64 k))(st_key m \<mapsto> omitDefaultRealm_row (st_data m))"
    by auto
  show ?case using Cons.IH [OF k b] unfolding m foldl.simps .
qed simp

lemma fold_downloads:
  "keys_ok q \<Longrightarrow> keys_ok (dn_enq ds q) \<and>
     (\<lambda>k. map_get (dn_enq ds q) k) = foldl (\<lambda>q d. q(downloadKey (dm_host d) (dm_seq d) (dm_realm d) \<mapsto> d)) (\<lambda>k. map_get q k) ds"
proof (induction ds arbitrary: q)
  case (Cons d ds)
  let ?q = "map_set (downloadKey (dm_host d) (dm_seq d) (dm_realm d)) d q"
  have "(\<lambda>k. map_get ?q k) = (\<lambda>k. map_get q k)(downloadKey (dm_host d) (dm_seq d) (dm_realm d) \<mapsto> d)" by auto
  then show ?case using Cons.IH [of ?q] Cons.prems by (simp add: dn_enq_def)
qed (simp add: dn_enq_def)

lemma fold_dequeue:
  "keys_ok q \<Longrightarrow> keys_ok (dn_deq h qs r q) \<and>
     (\<lambda>k. map_get (dn_deq h qs r q) k) = (\<lambda>k. if k \<in> (\<lambda>q. downloadKey h q r) ` set qs then None else map_get q k)"
proof (induction qs arbitrary: q)
  case (Cons x qs)
  then show ?case using Cons.IH [of "map_delete (downloadKey h x r) q"] by (auto simp: dn_deq_def fun_eq_iff)
qed (simp add: dn_deq_def)

lemma up_fold_add: "set (foldl (\<lambda>s hash. set_add (btoh hash) s) l hs) = set l \<union> btoh ` set hs"
  by (induction hs arbitrary: l) auto

lemma up_fold_delete: "set (foldl (\<lambda>s hash. set_delete (btoh hash) s) l hs) = set l - btoh ` set hs"
  by (induction hs arbitrary: l) auto

lemma up_strs_enq: "set (up_strs (up_enq h hs q) h') = set (up_strs q h') \<union> (if h' = h then btoh ` set hs else {})"
  by (auto simp: up_strs_def up_enq_def up_fold_add split: option.splits)

lemma up_strs_deq: "set (up_strs (up_deq h hs q) h') = set (up_strs q h') - (if h' = h then btoh ` set hs else {})"
  by (auto simp: up_strs_def up_deq_def up_fold_delete split: option.splits)

lemma up_list_set: "\<forall>x \<in> set (up_strs q h). \<exists>b. x = btoh b \<Longrightarrow> set (up_list h q) = {x. btoh x \<in> set (up_strs q h)}"
  by (force simp: up_list_def up_strs_def List.map_filter_def htob_btoh split: option.splits vs.splits)

lemma entries_keys: "\<forall>k \<in> set (map fst s). \<exists>b. k = btob64 b \<Longrightarrow> set (msg_listKeys s) = {k. map_get s (btob64 k) \<noteq> None}"
proof (induction s)
  case (Cons x s)
  obtain b where "fst x = btob64 b" using Cons.prems by auto
  then show ?case using Cons by (cases x) (auto simp: msg_listKeys_def msg_entries_def List.map_filter_def b64tob_btob64)
qed (simp add: msg_listKeys_def msg_entries_def List.map_filter_def)

lemma record_bucket:
  assumes "hosts_fit ho"
  shows "hosts_fit (ho_recordSeqs h u r ho)"
    and "ho_hosts (ho_recordSeqs h u r ho) = ho_hosts ho"
    and "map_has (ho_hosts ho) h' \<Longrightarrow> bucket_cursor (host_bucket (ho_recordSeqs h u r ho) h') r' =
       (if h' = h \<and> r' = (case r of None \<Rightarrow> nullKDM | Some x \<Rightarrow> x)
        then (case nextCursor (bucket_cursor (host_bucket ho h') r') u of None \<Rightarrow> bucket_cursor (host_bucket ho h') r' | Some n \<Rightarrow> n)
        else bucket_cursor (host_bucket ho h') r')"
proof -
  let ?r = "case r of None \<Rightarrow> nullKDM | Some x \<Rightarrow> x"
  let ?c = "bucket_cursor (host_bucket ho h) ?r"
  have eq: "ho_recordSeqs h u r ho =
      (if \<not> map_has (ho_hosts ho) h then ho
       else case nextCursor ?c u of None \<Rightarrow> ho
         | Some n \<Rightarrow> ho\<lparr>ho_cursors := map_set h (map_set (realmKey ?r) \<lparr>rc_realm = ?r, rc_lastSeq = n\<rparr> (host_bucket ho h)) (ho_cursors ho)\<rparr>)"
    unfolding ho_recordSeqs_def Let_def bucket_cursor_def host_bucket_def by (cases "map_get (ho_cursors ho) h") simp_all
  have b: "bucket_fit (map_set (realmKey ?r) \<lparr>rc_realm = ?r, rc_lastSeq = n\<rparr> (host_bucket ho h))" for n
    using assms by (simp add: hosts_fit_def bucket_fit_def list_all_set)
  have hb: "host_bucket (ho\<lparr>ho_cursors := map_set h b (ho_cursors ho)\<rparr>) h' = (if h' = h then b else host_bucket ho h')" for b h'
    by (simp add: host_bucket_def)
  show "hosts_fit (ho_recordSeqs h u r ho)"
    using assms b unfolding eq by (auto simp: hosts_fit_def hb split: option.splits)
  show "ho_hosts (ho_recordSeqs h u r ho) = ho_hosts ho" unfolding eq by (auto split: option.splits)
  show "map_has (ho_hosts ho) h' \<Longrightarrow> bucket_cursor (host_bucket (ho_recordSeqs h u r ho) h') r' =
       (if h' = h \<and> r' = ?r
        then (case nextCursor (bucket_cursor (host_bucket ho h') r') u of None \<Rightarrow> bucket_cursor (host_bucket ho h') r' | Some n \<Rightarrow> n)
        else bucket_cursor (host_bucket ho h') r')"
    unfolding eq by (auto simp: hb bucket_cursor_def [of "map_set _ _ _"] split: option.splits) (simp_all add: bucket_cursor_def)
qed

interpretation memst: client_store "memStore p" store_inv ms_archive ms_queue ms_uploads ms_cursor
proof
  fix s :: MemoryStore and k h rlm ms s' sts ds qs r hs u
  assume i: "store_inv s"
  have a: "ms_archive s = (\<lambda>k. map_get (ss_messages s) (btob64 k))" for s by (rule ext) (simp add: ms_archive_def)
  have e: "ms_queue s = ms_queue s' \<and> ms_uploads s = ms_uploads s' \<and> ms_cursor s = ms_cursor s'"
    if "ss_downloads s = ss_downloads s'" "ss_uploads s = ss_uploads s'" "ss_hosts s = ss_hosts s'" for s s'
    using that by (simp add: fun_eq_iff ms_queue_def ms_uploads_def ms_cursor_def)
  note d = memStore_def ms_archive_def ms_queue_def ms_uploads_def ms_cursor_def
  show "is_msg_has (memStore p) k s = (ms_archive s k \<noteq> None)" by (simp add: d msg_has_def)
  show "(is_msg_get (memStore p) k s = None) = (ms_archive s k = None)" by (simp add: d msg_get_def)
  show "set (is_msg_listKeys (memStore p) s) = dom (ms_archive s)"
    using entries_keys [of "ss_messages s"] i by (auto simp: d store_inv_def)
  show "is_msg_add (memStore p) ms s = (s', sts) \<Longrightarrow> store_inv s' \<and> ms_queue s' = ms_queue s \<and> ms_uploads s' = ms_uploads s
         \<and> ms_cursor s' = ms_cursor s \<and>
         ms_archive s' = foldl (\<lambda>a m. a(st_key m \<mapsto> omitDefaultRealm_row (st_data m))) (ms_archive s) ms"
    using i fold_messages [of "ss_messages s" ms] e [of s' s] unfolding a
    by (auto simp: memStore_def store_inv_def msg_add_def)
  show "store_inv (is_dn_enq (memStore p) ds s) \<and> ms_archive (is_dn_enq (memStore p) ds s) = ms_archive s
         \<and> ms_uploads (is_dn_enq (memStore p) ds s) = ms_uploads s \<and> ms_cursor (is_dn_enq (memStore p) ds s) = ms_cursor s
         \<and> ms_queue (is_dn_enq (memStore p) ds s) =
             foldl (\<lambda>q d. q(downloadKey (dm_host d) (dm_seq d) (dm_realm d) \<mapsto> d)) (ms_queue s) ds"
  proof -
    have q: "ms_queue s = (\<lambda>k. map_get (ss_downloads s) k)" for s by (rule ext) (simp add: ms_queue_def)
    show ?thesis
      using i fold_downloads [of "ss_downloads s" ds] unfolding q a
      by (auto simp: memStore_def store_inv_def ms_uploads_def ms_cursor_def fun_eq_iff)
  qed
  show "store_inv (is_dn_deq (memStore p) h qs r s) \<and> ms_archive (is_dn_deq (memStore p) h qs r s) = ms_archive s
         \<and> ms_uploads (is_dn_deq (memStore p) h qs r s) = ms_uploads s \<and> ms_cursor (is_dn_deq (memStore p) h qs r s) = ms_cursor s
         \<and> ms_queue (is_dn_deq (memStore p) h qs r s) = (\<lambda>k. if k \<in> (\<lambda>q. downloadKey h q r) ` set qs then None else ms_queue s k)"
    using i fold_dequeue [of "ss_downloads s" h qs r] by (simp add: d store_inv_def fun_eq_iff)
  show "set (is_dn_list (memStore p) s) = ran (ms_queue s)"
    using i by (auto simp: d store_inv_def dn_list_def keys_ok_def ran_def) (metis map_of_is_SomeI image_iff snd_conv map_of_SomeD)+
  show "store_inv (is_up_enq (memStore p) h hs s) \<and> ms_archive (is_up_enq (memStore p) h hs s) = ms_archive s
         \<and> ms_queue (is_up_enq (memStore p) h hs s) = ms_queue s \<and> ms_cursor (is_up_enq (memStore p) h hs s) = ms_cursor s
         \<and> ms_uploads (is_up_enq (memStore p) h hs s) = (ms_uploads s)(h := ms_uploads s h \<union> set hs)"
    using i by (auto simp: d store_inv_def up_strs_enq fun_eq_iff split: if_splits)
  show "store_inv (is_up_deq (memStore p) h hs s) \<and> ms_archive (is_up_deq (memStore p) h hs s) = ms_archive s
         \<and> ms_queue (is_up_deq (memStore p) h hs s) = ms_queue s \<and> ms_cursor (is_up_deq (memStore p) h hs s) = ms_cursor s
         \<and> ms_uploads (is_up_deq (memStore p) h hs s) = (ms_uploads s)(h := ms_uploads s h - set hs)"
    using i by (auto simp: d store_inv_def up_strs_deq fun_eq_iff split: if_splits)
  show "set (is_up_list (memStore p) h s) = ms_uploads s h"
    using i up_list_set [of "ss_uploads s" h] by (simp add: d store_inv_def)
  have hf: "hosts_fit (ss_hosts s)" using i by (simp add: store_inv_def)
  show "store_inv (is_hosts_recordSeqs (memStore p) h u r s)
         \<and> ms_archive (is_hosts_recordSeqs (memStore p) h u r s) = ms_archive s
         \<and> ms_queue (is_hosts_recordSeqs (memStore p) h u r s) = ms_queue s
         \<and> ms_uploads (is_hosts_recordSeqs (memStore p) h u r s) = ms_uploads s
         \<and> ms_cursor (is_hosts_recordSeqs (memStore p) h u r s) =
             (\<lambda>h' r'. if h' = h \<and> r' = (case r of None \<Rightarrow> nullKDM | Some x \<Rightarrow> x)
                     then map_option (\<lambda>c. case nextCursor c u of None \<Rightarrow> c | Some n \<Rightarrow> n) (ms_cursor s h' r')
                     else ms_cursor s h' r')"
    using i record_bucket [OF hf, where h = h and u = u and r = r] by (auto simp: d store_inv_def fun_eq_iff)
  show "map_option (\<lambda>row. cursorOf (hr_cursor row) rlm) (is_hosts_get (memStore p) h s) = ms_cursor s h rlm"
  proof (cases "map_get (ho_hosts (ss_hosts s)) h")
    case (Some row)
    have "hi_label row = h" "bucket_fit (host_bucket (ss_hosts s) h)" using hf Some by (simp_all add: hosts_fit_def)
    then show ?thesis
      using project_cursor [of "host_bucket (ss_hosts s) h" rlm] Some
      by (simp add: d ho_get_def projectRealmCursors_def host_bucket_def split: option.splits)
  qed (simp add: d ho_get_def)
qed

end
