(* ===== verification/Sync.thy ===== *)
theory Sync
  imports Stores
begin

text \<open>
  Synchronisation with one host (\<^verbatim>\<open>web/src/sync.ts\<close>): peek, push, pull and open, notifications and
  the full inventory, over any store that keeps the contract of \<open>Stores\<close> and any connection. A
  world \<open>'w\<close> is what the connection changes. Progress callbacks and console output are left out;
  \<open>mapPool\<close> gives the results of its function in the order of the items, whatever is overlapped.
\<close>

section \<open>Connections and results\<close>

record 'w SyncConn =
  sc_pull :: "int list \<Rightarrow> IKDM \<Rightarrow> 'w \<Rightarrow> 'w \<times> IBagPullItem list vs"
  sc_push :: "IBag list \<Rightarrow> 'w \<Rightarrow> 'w \<times> IBagPushItem list vs"
  sc_peek :: "int \<Rightarrow> IKDM \<Rightarrow> 'w \<Rightarrow> 'w \<times> IBagPeekItem list vs"
  sc_seal :: "IMessage \<Rightarrow> IKDM \<Rightarrow> 'w \<Rightarrow> 'w \<times> IBag vs"
  sc_client :: DiplomaticClientAPI

record IPulled =
  pd_dl :: IDownloadMessage
  pd_bodyCph :: "bytes option"

text \<open>Messages as the archive keeps them (\<open>IMsgParts\<close>): a head and a body.\<close>

record IMsgParts =
  mp_head :: IMessageHead
  mp_body :: "bytes option"

type_synonym ('w, 's) world = "'w \<times> 's"

definition msg2StoredMsgData :: "IMsgParts \<Rightarrow> IKDM option \<Rightarrow> IStoredMessageData" where
  "msg2StoredMsgData part realm =
     (let head = mp_head part
      in \<lparr>sd_eid = mh_eid head,
          sd_off = (if mh_off head \<noteq> 0 then Some (mh_off head) else None),
          sd_ctr = (if mh_ctr head \<noteq> 0 then Some (mh_ctr head) else None),
          sd_typ = (case mh_typ head of None \<Rightarrow> None | Some t \<Rightarrow> if t = [] then None else Some t),
          sd_body = mp_body part,
          sd_rlm = realmLabel (map_option kdm_label realm),
          sd_apld = Some (RawApld APLD_PENDING), sd_err = None\<rparr>)"

section \<open>Dequeue groups\<close>

record DeqGroup =
  dg_host :: jsstr
  dg_realm :: "IKDM option"
  dg_seqs :: "int list"

definition noteDeq :: "(jsstr, DeqGroup) jsmap \<Rightarrow> jsstr \<Rightarrow> int \<Rightarrow> IKDM option \<Rightarrow> (jsstr, DeqGroup) jsmap" where
  "noteDeq groups host seq realm =
     (let key = host @ [0] @ realmKey (case realm of None \<Rightarrow> nullKDM | Some r \<Rightarrow> r)
      in case map_get groups key of
           Some g \<Rightarrow> map_set key (g\<lparr>dg_seqs := dg_seqs g @ [seq]\<rparr>) groups
         | None \<Rightarrow> map_set key \<lparr>dg_host = host, dg_realm = realm, dg_seqs = [seq]\<rparr> groups)"

definition flushDeq :: "'s IStore \<Rightarrow> (jsstr, DeqGroup) jsmap \<Rightarrow> 's \<Rightarrow> 's" where
  "flushDeq S groups s = foldl (\<lambda>s (_, g). is_dn_deq S (dg_host g) (dg_seqs g) (dg_realm g) s) s groups"

section \<open>Push\<close>

definition bagBytes :: "IBag \<Rightarrow> int" where
  "bagBytes bag = int (length (bag_sig bag) + length (bag_kdm bag) + length (bag_headCph bag) + length (bag_bodyCph bag))"

text \<open>Dequeueing the hash of every item that was stored; an index beyond the hashes is skipped.\<close>

fun deq_stored :: "'s IStore \<Rightarrow> jsstr \<Rightarrow> bytes list \<Rightarrow> IBagPushItem list \<Rightarrow> 's \<Rightarrow> 's" where
  "deq_stored S hostLabel hashes [] s = s"
| "deq_stored S hostLabel hashes (PushRefused _ _ # items) s = deq_stored S hostLabel hashes items s"
| "deq_stored S hostLabel hashes (PushStored idx _ # items) s =
     deq_stored S hostLabel hashes items
       (if 0 \<le> idx \<and> nat idx < length hashes then is_up_deq S hostLabel [hashes ! nat idx] s else s)"

definition stored_seqs :: "IBagPushItem list \<Rightarrow> int list" where
  "stored_seqs items = List.map_filter (\<lambda>x. case x of PushStored _ seq \<Rightarrow> Some seq | _ \<Rightarrow> None) items"

text \<open>The largest number reached from the cursor by contiguous sequence numbers.\<close>

definition contiguous :: "int \<Rightarrow> int list \<Rightarrow> int" where
  "contiguous start seqs = foldl (\<lambda>currentMax seq. if seq = currentMax + 1 then seq else currentMax) start seqs"

definition pushBatch ::
    "'w SyncConn \<Rightarrow> 's IStore \<Rightarrow> jsstr \<Rightarrow> IBag list \<Rightarrow> bytes list \<Rightarrow> IKDM \<Rightarrow> ('w, 's) world \<Rightarrow> ('w, 's) world \<times> unit vs" where
  "pushBatch conn S hostLabel bags hashes realm w =
     (if length bags < 1 then (w, Ok ())
      else case sc_push conn bags (fst w) of
        (cw, r) \<Rightarrow>
          andThenC r (cw, snd w) (\<lambda>results.
          let s = deq_stored S hostLabel hashes results (snd w)
          in case is_hosts_get S hostLabel s of
               None \<Rightarrow> ((cw, s), Ok ())
             | Some row \<Rightarrow>
                 (let start = cursorOf (hr_cursor row) realm;
                      currentMax = contiguous start (js_sort (\<lambda>a b. a - b) (stored_seqs results));
                      s = (if currentMax > start
                           then is_hosts_recordSeqs S hostLabel \<lparr>hu_lastSeq = Some currentMax, hu_setLastSeq = None\<rparr> (Some realm) s
                           else s)
                  in ((cw, s), Ok ()))))"

section \<open>Pull and open\<close>

record RealmPull =
  rp_realm :: IKDM
  rp_dls :: "(int, IDownloadMessage) jsmap"
  rp_seqs :: "int list"

definition group_realm :: "(jsstr, RealmPull) jsmap \<Rightarrow> IDownloadMessage \<Rightarrow> (jsstr, RealmPull) jsmap" where
  "group_realm byRealm item =
     (let realm = (case dm_realm item of None \<Rightarrow> nullKDM | Some r \<Rightarrow> r);
          key = realmKey realm;
          pull = (case map_get byRealm key of Some pull \<Rightarrow> pull
                  | None \<Rightarrow> \<lparr>rp_realm = realm, rp_dls = [], rp_seqs = []\<rparr>)
      in map_set key (pull\<lparr>rp_dls := map_set (dm_seq item) item (rp_dls pull), rp_seqs := rp_seqs pull @ [dm_seq item]\<rparr>) byRealm)"

fun pull_realms ::
    "'w SyncConn \<Rightarrow> RealmPull list \<Rightarrow> IPulled list \<Rightarrow> 'w \<Rightarrow> 'w \<times> IPulled list vs" where
  "pull_realms conn [] pulled w = (w, Ok pulled)"
| "pull_realms conn (pull # pulls) pulled w =
     (case sc_pull conn (rp_seqs pull) (rp_realm pull) w of
        (w, r) \<Rightarrow>
          andThenC r w (\<lambda>result.
          pull_realms conn pulls
            (pulled @ List.map_filter (\<lambda>x. map_option (\<lambda>dl. \<lparr>pd_dl = dl, pd_bodyCph = Some (pl_bodyCph x)\<rparr>)
                                       (map_get (rp_dls pull) (pl_seq x))) result) w))"

definition pullBodies :: "'w SyncConn \<Rightarrow> IDownloadMessage list \<Rightarrow> 'w \<Rightarrow> 'w \<times> IPulled list vs" where
  "pullBodies conn items w =
     (if length items < 1 then (w, Ok []) else pull_realms conn (map snd (foldl group_realm [] items)) [] w)"

definition resolveHeadEnc :: "prims \<Rightarrow> IDownloadMessage \<Rightarrow> (bytes \<times> bytes) vs" where
  "resolveHeadEnc p dl =
     andThen (case dm_headEnc dl of
                Some e \<Rightarrow> Ok e
              | None \<Rightarrow> encode_with (\<lambda>e. messageHead_encode e (dm_head dl))) (\<lambda>headEnc.
     case dm_headEncHash dl of Some h \<Rightarrow> Ok (headEnc, h) | None \<Rightarrow> Ok (headEnc, blake3_hash p headEnc))"

record IOpened =
  io_parts :: "IMsgParts list"
  io_hashes :: "bytes list"

text \<open>One item of the loop of \<open>openPulled\<close>: \<^term>\<open>None\<close> drops it.\<close>

definition open_item ::
    "prims \<Rightarrow> BagManager list \<Rightarrow> IPulled \<Rightarrow> (bytes \<times> IMsgParts \<times> IKDM) option vs" where
  "open_item p bagMgrs item =
     (let dl = pd_dl item;
          realm = (case dm_realm dl of None \<Rightarrow> nullKDM | Some r \<Rightarrow> r)
      in case resolveHeadEnc p dl of
           Err _ \<Rightarrow> Ok None | Throw \<Rightarrow> Throw | Hang \<Rightarrow> Hang
         | Ok (headEnc, headEncHash) \<Rightarrow>
             (case find (\<lambda>bagMgr. kdmEq realm (bm_realmKDM bagMgr)) bagMgrs of
                None \<Rightarrow> Ok None
              | Some bagMgr \<Rightarrow>
                  (case openBagBody p headEnc (pd_bodyCph item) (bm_decrypt p bagMgr (dm_kdm dl)) (Some headEncHash) of
                     Err _ \<Rightarrow> Ok None | Throw \<Rightarrow> Throw | Hang \<Rightarrow> Hang
                   | Ok contents \<Rightarrow>
                       Ok (Some (ob_headHash contents, \<lparr>mp_head = dm_head dl, mp_body = ob_bod contents\<rparr>, realm)))))"

fun open_loop ::
    "prims \<Rightarrow> BagManager list \<Rightarrow> IPulled list \<Rightarrow> (bytes \<times> IMsgParts \<times> IKDM) list \<Rightarrow> (jsstr, DeqGroup) jsmap
     \<Rightarrow> ((bytes \<times> IMsgParts \<times> IKDM) list \<times> (jsstr, DeqGroup) jsmap) vs" where
  "open_loop p bagMgrs [] acc groups = Ok (acc, groups)"
| "open_loop p bagMgrs (item # items) acc groups =
     andThen (open_item p bagMgrs item) (\<lambda>r.
     open_loop p bagMgrs items (case r of None \<Rightarrow> acc | Some x \<Rightarrow> acc @ [x])
       (noteDeq groups (dm_host (pd_dl item)) (dm_seq (pd_dl item)) (dm_realm (pd_dl item))))"

definition openPulled ::
    "prims \<Rightarrow> 's IStore \<Rightarrow> BagManager list \<Rightarrow> IPulled list \<Rightarrow> 's \<Rightarrow> 's \<times> IOpened vs" where
  "openPulled p S bagMgrs items s =
     (if length items < 1 then (s, Ok \<lparr>io_parts = [], io_hashes = []\<rparr>)
      else andThenC (open_loop p bagMgrs items [] []) s (\<lambda>(opened, deqGroups).
        case is_msg_add S (map (\<lambda>(key, part, realm). \<lparr>st_key = key, st_data = msg2StoredMsgData part (Some realm)\<rparr>) opened) s of
          (s, _) \<Rightarrow> (flushDeq S deqGroups s,
                     Ok \<lparr>io_parts = map (\<lambda>(_, part, _). part) opened, io_hashes = map fst opened\<rparr>)))"

fun want_groups ::
    "prims \<Rightarrow> bytes list \<Rightarrow> IDownloadMessage list \<Rightarrow> (jsstr, DeqGroup) jsmap \<Rightarrow> (jsstr, DeqGroup) jsmap vs" where
  "want_groups p want [] groups = Ok groups"
| "want_groups p want (d # dls) groups =
     (case (case dm_headEncHash d of Some h \<Rightarrow> Ok ([], h) | None \<Rightarrow> resolveHeadEnc p d) of
        Err _ \<Rightarrow> want_groups p want dls groups
      | Throw \<Rightarrow> Throw | Hang \<Rightarrow> Hang
      | Ok (_, h) \<Rightarrow>
          want_groups p want dls (if h \<in> set want then noteDeq groups (dm_host d) (dm_seq d) (dm_realm d) else groups))"

definition deqDownloadsForHeadHashes :: "prims \<Rightarrow> 's IStore \<Rightarrow> bytes list \<Rightarrow> 's \<Rightarrow> 's \<times> unit vs" where
  "deqDownloadsForHeadHashes p S hashes s =
     (if hashes = [] then (s, Ok ())
      else let dls = is_dn_list S s
           in if length dls < 1 then (s, Ok ())
              else andThenC (want_groups p hashes dls []) s (\<lambda>groups. (flushDeq S groups s, Ok ())))"


section \<open>Peek\<close>

text \<open>What the concurrent phase finds for an item: its number, kdm, head and head hash, or a status.\<close>

datatype PeekCryptoResult = PeekOk int bytes bytes bytes | PeekFail int status

definition peek_crypto :: "prims \<Rightarrow> CryptoKey \<Rightarrow> BagManager \<Rightarrow> IBagPeekItem \<Rightarrow> PeekCryptoResult vs" where
  "peek_crypto p verifyKey bagMgr item =
     (case decryptPeekItem p item verifyKey bagMgr of
        Ok (kdm, headEnc) \<Rightarrow> Ok (PeekOk (pk_seq item) kdm headEnc (blake3_hash p headEnc))
      | Err stat \<Rightarrow> Ok (PeekFail (pk_seq item) stat) | Throw \<Rightarrow> Throw | Hang \<Rightarrow> Hang)"

text \<open>The sequential phase; the result is the list of downloads to enqueue.\<close>

fun peek_loop ::
    "'s IStore \<Rightarrow> jsstr \<Rightarrow> IKDM \<Rightarrow> PeekCryptoResult list \<Rightarrow> jsstr list \<Rightarrow> IDownloadMessage list \<Rightarrow> 's
     \<Rightarrow> 's \<times> IDownloadMessage list vs" where
  "peek_loop S label realm [] enqMsgs dls s = (s, Ok dls)"
| "peek_loop S label realm (PeekFail _ _ # results) enqMsgs dls s = peek_loop S label realm results enqMsgs dls s"
| "peek_loop S label realm (PeekOk seq kdm headEnc headEncHash # results) enqMsgs dls s =
     (let msgKey = btob64 headEncHash
      in if is_msg_has S headEncHash s
         then peek_loop S label realm results enqMsgs dls
                (is_dn_deq S label [seq] (Some realm) (is_up_deq S label [headEncHash] s))
         else if msgKey \<in> set enqMsgs
         then peek_loop S label realm results enqMsgs dls (is_dn_deq S label [seq] (Some realm) s)
         else (case messageHead_decode (Decoder headEnc) of
             Throw \<Rightarrow> (s, Throw) | Hang \<Rightarrow> (s, Hang)
           | Err _ \<Rightarrow> peek_loop S label realm results enqMsgs dls s
           | Ok (head, _) \<Rightarrow>
               peek_loop S label realm results (set_add msgKey enqMsgs)
                 (dls @ [\<lparr>dm_kdm = kdm, dm_seq = seq, dm_head = head, dm_host = label, dm_headEnc = Some headEnc,
                          dm_headEncHash = Some headEncHash, dm_realm = storedRealm realm\<rparr>]) s))"

definition syncPeek ::
    "prims \<Rightarrow> 'w SyncConn \<Rightarrow> 's IStore \<Rightarrow> IHostRow \<Rightarrow> IKDM option \<Rightarrow> ('w, 's) world \<Rightarrow> ('w, 's) world \<times> unit vs" where
  "syncPeek p conn S host realmArg w =
     (let realm = (case realmArg of None \<Rightarrow> nullKDM | Some r \<Rightarrow> r)
      in case bagMgrFor (sc_client conn) realm of
        None \<Rightarrow> (w, Err NotFound)
      | Some bagMgr \<Rightarrow>
          andThenC (client_identity (sc_client conn)) w (\<lambda>hostIdnt.
          andThenC (catch_err (importVerifyKey p (bm_publicKey hostIdnt)) CryptoError) w (\<lambda>verifyKey.
          case sc_peek conn (cursorOf (hr_cursor host) realm) realm (fst w) of
            (cw, r) \<Rightarrow>
              andThenC r (cw, snd w) (\<lambda>items.
              andThenC (vs_map (peek_crypto p verifyKey bagMgr) items) (cw, snd w) (\<lambda>cryptoResults.
              case peek_loop S (hi_label host) realm cryptoResults [] [] (snd w) of
                (s, r) \<Rightarrow>
                  andThenC r (cw, s) (\<lambda>dls.
                  let s = is_dn_enq S dls s;
                      s = (if length items > 0
                           then is_hosts_recordSeqs S (hi_label host)
                                  \<lparr>hu_lastSeq = Some (Max (set (map pk_seq items))), hu_setLastSeq = None\<rparr> (Some realm) s
                           else s)
                  in ((cw, s), Ok ())))))))"

section \<open>Uploading the pending messages\<close>

record Ready =
  rd_hash :: bytes
  rd_realm :: IKDM
  rd_msg :: IMessage

text \<open>The batch under construction: its bags, their hashes, its size and its realm.\<close>

record PushAcc =
  pa_bags :: "IBag list"
  pa_hashes :: "bytes list"
  pa_bytes :: int
  pa_realm :: IKDM

definition push_flush ::
    "'w SyncConn \<Rightarrow> 's IStore \<Rightarrow> jsstr \<Rightarrow> PushAcc \<Rightarrow> ('w, 's) world \<Rightarrow> ('w, 's) world \<times> PushAcc vs" where
  "push_flush conn S label acc w =
     (if length (pa_bags acc) < 1 then (w, Ok acc)
      else case pushBatch conn S label (pa_bags acc) (pa_hashes acc) (pa_realm acc) w of
        (w, st) \<Rightarrow> andThenC st w (\<lambda>_. (w, Ok (acc\<lparr>pa_bags := [], pa_hashes := [], pa_bytes := 0\<rparr>))))"

definition push_ready :: "'s IStore \<Rightarrow> bytes list \<Rightarrow> 's \<Rightarrow> Ready list" where
  "push_ready S pending s =
     (let realmRows = is_realms_list S s
      in List.map_filter (\<lambda>msgHeadEncHash.
           map_option (\<lambda>storedMsg.
               \<lparr>rd_hash = msgHeadEncHash, rd_realm = realmKDM (im_rlm storedMsg) realmRows,
                rd_msg = IMessageHead.extend (im_head storedMsg) (IMessage.fields (im_body storedMsg))\<rparr>)
             (is_msg_get S msgHeadEncHash s)) pending)"

definition ready_cmp :: "Ready \<Rightarrow> Ready \<Rightarrow> int" where
  "ready_cmp a b =
     (if str_less (kdm_label (rd_realm a)) (kdm_label (rd_realm b)) then -1
      else if str_less (kdm_label (rd_realm b)) (kdm_label (rd_realm a)) then 1
      else kdm_index (rd_realm a) - kdm_index (rd_realm b))"

fun push_loop ::
    "'w SyncConn \<Rightarrow> 's IStore \<Rightarrow> jsstr \<Rightarrow> int \<Rightarrow> Ready list \<Rightarrow> PushAcc \<Rightarrow> ('w, 's) world \<Rightarrow> ('w, 's) world \<times> PushAcc vs" where
  "push_loop conn S label limit [] acc w = (w, Ok acc)"
| "push_loop conn S label limit (item # items) acc w =
     (case (if length (pa_bags acc) > 0 \<and> \<not> sameRealm (pa_realm acc) (rd_realm item)
            then push_flush conn S label acc w else (w, Ok acc)) of
        (w, r) \<Rightarrow> andThenC r w (\<lambda>acc.
      case sc_seal conn (rd_msg item) (rd_realm item) (fst w) of
        (cw, bag) \<Rightarrow> andThenC bag (cw, snd w) (\<lambda>bag.
          let size = bagBytes bag
          in case (if length (pa_bags acc) > 0 \<and> pa_bytes acc + size > limit
                   then push_flush conn S label acc (cw, snd w) else ((cw, snd w), Ok acc)) of
               (w, r) \<Rightarrow> andThenC r w (\<lambda>acc.
                 let acc = \<lparr>pa_bags = pa_bags acc @ [bag], pa_hashes = pa_hashes acc @ [rd_hash item],
                            pa_bytes = pa_bytes acc + size,
                            pa_realm = (if length (pa_bags acc) < 1 then rd_realm item else pa_realm acc)\<rparr>
                 in case (if pa_bytes acc \<ge> limit then push_flush conn S label acc w else (w, Ok acc)) of
                      (w, r) \<Rightarrow> andThenC r w (\<lambda>acc. push_loop conn S label limit items acc w)))))"

definition syncPush ::
    "'w SyncConn \<Rightarrow> 's IStore \<Rightarrow> IHostRow \<Rightarrow> int \<Rightarrow> ('w, 's) world \<Rightarrow> ('w, 's) world \<times> unit vs" where
  "syncPush conn S host limit w =
     (let pending = is_up_list S (hi_label host) (snd w);
          ready = js_sort ready_cmp (push_ready S pending (snd w))
      in case push_loop conn S (hi_label host) limit ready
                \<lparr>pa_bags = [], pa_hashes = [], pa_bytes = 0, pa_realm = nullKDM\<rparr> w of
           (w, r) \<Rightarrow> andThenC r w (\<lambda>acc.
             case push_flush conn S (hi_label host) acc w of
               (w, r) \<Rightarrow> (w, andThen r (\<lambda>_. Ok ()))))"

section \<open>Downloading in recency order\<close>

text \<open>Opening one pulled batch and handing it to the caller.\<close>

definition open_batch ::
    "prims \<Rightarrow> 'w SyncConn \<Rightarrow> 's IStore \<Rightarrow> (('w, 's) world \<Rightarrow> ('w, 's) world \<times> unit vs) \<Rightarrow> IPulled list
     \<Rightarrow> ('w, 's) world \<Rightarrow> ('w, 's) world \<times> unit vs" where
  "open_batch p conn S afterOpen pulled w =
     (case openPulled p S (ca_bagMgrs (sc_client conn)) (sortByHlcDesc pulled (\<lambda>x. dm_head (pd_dl x))) (snd w) of
        (s, r) \<Rightarrow> andThenC r (fst w, s) (\<lambda>_. afterOpen (fst w, s)))"

text \<open>The next batch is asked for before this one is opened.\<close>

fun pull_loop ::
    "prims \<Rightarrow> 'w SyncConn \<Rightarrow> 's IStore \<Rightarrow> (('w, 's) world \<Rightarrow> ('w, 's) world \<times> unit vs) \<Rightarrow> IPulled list vs
     \<Rightarrow> IDownloadMessage list list \<Rightarrow> ('w, 's) world \<Rightarrow> ('w, 's) world \<times> unit vs" where
  "pull_loop p conn S afterOpen nextPull [] w =
     andThenC nextPull w (\<lambda>pulled. open_batch p conn S afterOpen pulled w)"
| "pull_loop p conn S afterOpen nextPull (nxt # batches) w =
     andThenC nextPull w (\<lambda>pulled.
     case pullBodies conn nxt (fst w) of
       (cw, nextPull) \<Rightarrow>
         (case open_batch p conn S afterOpen pulled (cw, snd w) of
            (w, r) \<Rightarrow> andThenC r w (\<lambda>_. pull_loop p conn S afterOpen nextPull batches w)))"

definition syncPull ::
    "prims \<Rightarrow> 'w SyncConn \<Rightarrow> 's IStore \<Rightarrow> IHostRow \<Rightarrow> int \<Rightarrow> (('w, 's) world \<Rightarrow> ('w, 's) world \<times> unit vs)
     \<Rightarrow> ('w, 's) world \<Rightarrow> ('w, 's) world \<times> unit vs" where
  "syncPull p conn S host limit afterOpen w =
     (let hostItems = filter (\<lambda>i. dm_host i = hi_label host) (is_dn_list S (snd w))
      in if length hostItems < 1 then (w, Err NoChange)
         else case batchByBytes (sortByHlcDesc hostItems dm_head) (\<lambda>d. mh_len (dm_head d)) limit of
           [] \<Rightarrow> (w, Throw)
         | b # batches \<Rightarrow>
             (case pullBodies conn b (fst w) of
                (cw, nextPull) \<Rightarrow> pull_loop p conn S afterOpen nextPull batches (cw, snd w)))"

section \<open>Notifications\<close>

record Run =
  rn_realm :: IKDM
  rn_seq :: int

record CompleteBag =
  cb_head :: IMessageHead
  cb_headEnc :: bytes
  cb_headEncHash :: bytes
  cb_bodyCph :: "bytes option"
  cb_kdm :: bytes
  cb_realm :: IKDM
  cb_bagMgr :: BagManager

record NotifAcc =
  na_outOfSeq :: bool
  na_runs :: "(jsstr, Run) jsmap"
  na_completeBags :: "CompleteBag list"
  na_needPull :: bool

text \<open>The contiguity check of one item against the run of its realm.\<close>

definition notif_run :: "IHostRow option \<Rightarrow> IKDM \<Rightarrow> int \<Rightarrow> NotifAcc \<Rightarrow> NotifAcc" where
  "notif_run currHost realm seq a =
     (case currHost of
        None \<Rightarrow> a\<lparr>na_outOfSeq := True\<rparr>
      | Some row \<Rightarrow>
          (let key = realmKey realm;
               run = (case map_get (na_runs a) key of Some run \<Rightarrow> run
                      | None \<Rightarrow> \<lparr>rn_realm = realm, rn_seq = cursorOf (hr_cursor row) realm\<rparr>)
           in if seq \<noteq> rn_seq run + 1 then a\<lparr>na_outOfSeq := True, na_runs := map_set key run (na_runs a)\<rparr>
              else a\<lparr>na_runs := map_set key (run\<lparr>rn_seq := seq\<rparr>) (na_runs a)\<rparr>))"

fun notif_loop ::
    "prims \<Rightarrow> 's IStore \<Rightarrow> jsstr \<Rightarrow> BagManager list \<Rightarrow> CryptoKey \<Rightarrow> IHostRow option \<Rightarrow> IBagNotifItem list
     \<Rightarrow> NotifAcc \<Rightarrow> 's \<Rightarrow> 's \<times> NotifAcc vs" where
  "notif_loop p S label bagMgrs verifyKey currHost [] a s = (s, Ok a)"
| "notif_loop p S label bagMgrs verifyKey currHost (item # items) a s =
     (case find (\<lambda>bagMgr. bytesEqual (bm_rlm bagMgr) (ni_rlm item)) bagMgrs of
        None \<Rightarrow> notif_loop p S label bagMgrs verifyKey currHost items a s
      | Some bagMgr \<Rightarrow>
          (let realm = bm_realmKDM bagMgr
           in case decryptPeekItem p \<lparr>pk_seq = ni_seq item, pk_headCph = ni_headCph item\<rparr> verifyKey bagMgr of
                Throw \<Rightarrow> (s, Throw) | Hang \<Rightarrow> (s, Hang)
              | Err _ \<Rightarrow> notif_loop p S label bagMgrs verifyKey currHost items a s
              | Ok (kdm, headEnc) \<Rightarrow>
                  (let headEncHash = blake3_hash p headEnc
                   in if is_msg_has S headEncHash s
                      then notif_loop p S label bagMgrs verifyKey currHost items a s
                      else case messageHead_decode (Decoder headEnc) of
                        Throw \<Rightarrow> (s, Throw) | Hang \<Rightarrow> (s, Hang)
                      | Err _ \<Rightarrow> notif_loop p S label bagMgrs verifyKey currHost items a s
                      | Ok (head, _) \<Rightarrow>
                          (case (if ni_bodyCph item = None \<and> mh_len head > 0
                                 then (a\<lparr>na_needPull := True\<rparr>,
                                       is_dn_enq S [\<lparr>dm_kdm = kdm, dm_seq = ni_seq item, dm_head = head, dm_host = label,
                                         dm_headEnc = Some headEnc, dm_headEncHash = Some headEncHash,
                                         dm_realm = storedRealm realm\<rparr>] s)
                                 else (a\<lparr>na_completeBags := na_completeBags a @
                                         [\<lparr>cb_head = head, cb_headEnc = headEnc, cb_headEncHash = headEncHash,
                                           cb_bodyCph = ni_bodyCph item, cb_kdm = kdm, cb_realm = realm,
                                           cb_bagMgr = bagMgr\<rparr>]\<rparr>, s)) of
                             (a, s) \<Rightarrow>
                               notif_loop p S label bagMgrs verifyKey currHost items
                                 (notif_run currHost realm (ni_seq item) a) s))))"

fun open_complete :: "prims \<Rightarrow> CompleteBag list \<Rightarrow> IStorableMessage list \<Rightarrow> IStorableMessage list vs" where
  "open_complete p [] toStore = Ok toStore"
| "open_complete p (i # inputs) toStore =
     (case openBagBody p (cb_headEnc i) (cb_bodyCph i) (bm_decrypt p (cb_bagMgr i) (cb_kdm i)) None of
        Throw \<Rightarrow> Throw | Hang \<Rightarrow> Hang
      | Err _ \<Rightarrow> open_complete p inputs toStore
      | Ok contents \<Rightarrow>
          open_complete p inputs (toStore @
            [\<lparr>st_key = cb_headEncHash i,
              st_data = msg2StoredMsgData \<lparr>mp_head = cb_head i, mp_body = ob_bod contents\<rparr> (Some (cb_realm i))\<rparr>]))"

text \<open>The result says whether a sync was scheduled.\<close>

definition handleNotif ::
    "prims \<Rightarrow> DiplomaticClientAPI \<Rightarrow> 's IStore \<Rightarrow> IHostRow \<Rightarrow> bytes \<Rightarrow> 's \<Rightarrow> 's \<times> bool vs" where
  "handleNotif p client S host bytes s =
     (case client_identity client of
        Err _ \<Rightarrow> (s, Ok False) | Throw \<Rightarrow> (s, Throw) | Hang \<Rightarrow> (s, Hang)
      | Ok hostIdnt \<Rightarrow>
     (case importVerifyKey p (bm_publicKey hostIdnt) of
        Throw \<Rightarrow> (s, Ok False) | Err _ \<Rightarrow> (s, Ok False) | Hang \<Rightarrow> (s, Hang)
      | Ok verifyKey \<Rightarrow>
     (case readStructs notifItem_decode (Decoder bytes) of
        Err _ \<Rightarrow> (s, Ok False) | Throw \<Rightarrow> (s, Throw) | Hang \<Rightarrow> (s, Hang)
      | Ok (notifItems, _) \<Rightarrow>
          (let label = hi_label host; currHost = is_hosts_get S label s
           in case notif_loop p S label (ca_bagMgrs client) verifyKey currHost notifItems
                     \<lparr>na_outOfSeq = False, na_runs = [], na_completeBags = [], na_needPull = False\<rparr> s of
                (s, r) \<Rightarrow> andThenC r s (\<lambda>a.
                  let s = (case currHost of
                             None \<Rightarrow> s
                           | Some row \<Rightarrow>
                               foldl (\<lambda>s (_, run).
                                   if rn_seq run > cursorOf (hr_cursor row) (rn_realm run)
                                   then is_hosts_recordSeqs S label \<lparr>hu_lastSeq = Some (rn_seq run), hu_setLastSeq = None\<rparr>
                                          (Some (rn_realm run)) s
                                   else s) s (na_runs a))
                  in andThenC (open_complete p (na_completeBags a) []) s (\<lambda>toStore.
                     case is_msg_add S toStore s of
                       (s, _) \<Rightarrow> (s, Ok (na_outOfSeq a \<or> na_needPull a \<or> length toStore > 0))))))))"

section \<open>The full inventory\<close>

record MsgAgg =
  ma_hash :: bytes
  ma_count :: int
  ma_seq :: int
  ma_kdm :: bytes
  ma_headEnc :: bytes
  ma_realm :: IKDM

record ReconcileResult =
  rr_msgcheck :: bytes
  rr_numBags :: int
  rr_uniqueMsgs :: int
  rr_numDupes :: int
  rr_missingLocal :: int
  rr_missingHost :: int

fun agg_result :: "IKDM \<Rightarrow> (jsstr, MsgAgg) jsmap \<Rightarrow> PeekCryptoResult \<Rightarrow> (jsstr, MsgAgg) jsmap" where
  "agg_result realm byMsg (PeekFail _ _) = byMsg"
| "agg_result realm byMsg (PeekOk seq kdm headEnc headEncHash) =
     (let k = btob64 headEncHash
      in case map_get byMsg k of
           Some cur \<Rightarrow> map_set k (cur\<lparr>ma_count := ma_count cur + 1\<rparr>) byMsg
         | None \<Rightarrow> map_set k \<lparr>ma_hash = headEncHash, ma_count = 1, ma_seq = seq, ma_kdm = kdm,
                             ma_headEnc = headEnc, ma_realm = realm\<rparr> byMsg)"

text \<open>One realm after the other, from sequence number 0; each realm's cursor is set to what the host has.\<close>

fun reconcile_realms ::
    "prims \<Rightarrow> 'w SyncConn \<Rightarrow> 's IStore \<Rightarrow> jsstr \<Rightarrow> CryptoKey \<Rightarrow> IKDM list \<Rightarrow> (jsstr, MsgAgg) jsmap \<Rightarrow> int
     \<Rightarrow> ('w, 's) world \<Rightarrow> ('w, 's) world \<times> ((jsstr, MsgAgg) jsmap \<times> int) vs" where
  "reconcile_realms p conn S label verifyKey [] byMsg numBags w = (w, Ok (byMsg, numBags))"
| "reconcile_realms p conn S label verifyKey (realm # realms) byMsg numBags w =
     (case bagMgrFor (sc_client conn) realm of
        None \<Rightarrow> (w, Err NotFound)
      | Some bagMgr \<Rightarrow>
          (case sc_peek conn 0 realm (fst w) of
             (cw, r) \<Rightarrow>
               andThenC r (cw, snd w) (\<lambda>items.
               andThenC (vs_map (peek_crypto p verifyKey bagMgr) items) (cw, snd w) (\<lambda>cryptoResults.
               let setLastSeq = (if length items > 0 then Max (set (map pk_seq items)) else 0);
                   s = is_hosts_recordSeqs S label \<lparr>hu_lastSeq = None, hu_setLastSeq = Some setLastSeq\<rparr> (Some realm) (snd w)
               in reconcile_realms p conn S label verifyKey realms (foldl (agg_result realm) byMsg cryptoResults)
                    (numBags + int (length items)) (cw, s)))))"

text \<open>Messages of the host against the archive: the downloads to enqueue and the number missing.\<close>

fun reconcile_local ::
    "'s IStore \<Rightarrow> jsstr \<Rightarrow> bool \<Rightarrow> MsgAgg list \<Rightarrow> IDownloadMessage list \<Rightarrow> int \<Rightarrow> 's
     \<Rightarrow> 's \<times> (IDownloadMessage list \<times> int) vs" where
  "reconcile_local S label pull [] dls missingLocal s = (s, Ok (dls, missingLocal))"
| "reconcile_local S label pull (agg # aggs) dls missingLocal s =
     (if is_msg_has S (ma_hash agg) s
      then reconcile_local S label pull aggs dls missingLocal (is_up_deq S label [ma_hash agg] s)
      else if \<not> pull then reconcile_local S label pull aggs dls (missingLocal + 1) s
      else case messageHead_decode (Decoder (ma_headEnc agg)) of
          Throw \<Rightarrow> (s, Throw) | Hang \<Rightarrow> (s, Hang)
        | Err _ \<Rightarrow> reconcile_local S label pull aggs dls (missingLocal + 1) s
        | Ok (head, _) \<Rightarrow>
            reconcile_local S label pull aggs
              (dls @ [\<lparr>dm_kdm = ma_kdm agg, dm_seq = ma_seq agg, dm_head = head, dm_host = label,
                       dm_headEnc = Some (ma_headEnc agg), dm_headEncHash = Some (ma_hash agg),
                       dm_realm = storedRealm (ma_realm agg)\<rparr>])
              (missingLocal + 1) s)"

definition reconcileHost ::
    "prims \<Rightarrow> 'w SyncConn \<Rightarrow> 's IStore \<Rightarrow> IHostRow \<Rightarrow> bool option \<Rightarrow> bool option \<Rightarrow> ('w, 's) world
     \<Rightarrow> ('w, 's) world \<times> ReconcileResult vs" where
  "reconcileHost p conn S host optPull optPush w =
     (let pull = (optPull \<noteq> Some False); push = (optPush = Some True); label = hi_label host
      in andThenC (client_identity (sc_client conn)) w (\<lambda>hostIdnt.
         andThenC (catch_err (importVerifyKey p (bm_publicKey hostIdnt)) CryptoError) w (\<lambda>verifyKey.
         case reconcile_realms p conn S label verifyKey (realmKDMs (is_realms_list S (snd w))) [] 0 w of
           ((cw, s), r) \<Rightarrow> andThenC r (cw, s) (\<lambda>(byMsg, numBags).
             let aggs = map snd byMsg;
                 hostMsgcheck = checksumSet (blake3_hash p) (map ma_hash aggs)
             in case reconcile_local S label pull aggs [] 0 s of
                  (s, r) \<Rightarrow> andThenC r (cw, s) (\<lambda>(dls, missingLocal).
                    let s = (if length dls > 0 then is_dn_enq S dls s else s);
                        missing = filter (\<lambda>key. btob64 key \<notin> set (map fst byMsg)) (is_msg_listKeys S s);
                        s = (if push \<and> length missing > 0 then is_up_enq S label missing s else s)
                    in ((cw, s), Ok \<lparr>rr_msgcheck = hostMsgcheck, rr_numBags = numBags,
                          rr_uniqueMsgs = int (length byMsg),
                          rr_numDupes = sum_list (map (\<lambda>a. if ma_count a > 1 then ma_count a - 1 else 0) aggs),
                          rr_missingLocal = missingLocal, rr_missingHost = int (length missing)\<rparr>))))))"

section \<open>Lemmas on pushing\<close>

interpretation num_cmp: comparator "\<lambda>a b::int. a - b"
  by unfold_locales auto

lemma contiguous_snoc: "contiguous c (qs @ [q]) = (if q = contiguous c qs + 1 then q else contiguous c qs)"
  by (simp add: contiguous_def)

lemma contiguous_covers: "c \<le> contiguous c qs \<and> (\<forall>n. c < n \<and> n \<le> contiguous c qs \<longrightarrow> n \<in> set qs)"
proof (induction qs rule: rev_induct)
  case Nil
  then show ?case by (auto simp: contiguous_def)
next
  case (snoc q qs)
  have "n \<in> set (qs @ [q])" if "q = contiguous c qs + 1" "c < n" "n \<le> q" for n
    using snoc that by (cases "n = q") auto
  then show ?case using snoc by (auto simp: contiguous_snoc)
qed

lemma contiguous_maximal: "sorted qs \<Longrightarrow> contiguous c qs + 1 \<notin> set qs"
  by (induction qs rule: rev_induct) (auto simp: contiguous_snoc sorted_append)

lemma sorted_seqs: "sorted (js_sort (\<lambda>a b. a - b) (qs :: int list))"
  using num_cmp.sorted_js_sort [of qs] by (simp add: sorted_wrt_iff_nth_less)

text \<open>The hashes that the host reported stored.\<close>

definition stored_hashes :: "bytes list \<Rightarrow> IBagPushItem list \<Rightarrow> bytes set" where
  "stored_hashes hashes items = {hashes ! nat idx |idx q. PushStored idx q \<in> set items \<and> 0 \<le> idx \<and> nat idx < length hashes}"

lemma stored_hashes_simps [simp]:
  "stored_hashes hashes [] = {}"
  "stored_hashes hashes (PushRefused a b # items) = stored_hashes hashes items"
  "stored_hashes hashes (PushStored idx q # items) =
     (if 0 \<le> idx \<and> nat idx < length hashes then insert (hashes ! nat idx) (stored_hashes hashes items)
      else stored_hashes hashes items)"
  by (auto simp: stored_hashes_def)

lemma set_stored_seqs: "set (stored_seqs items) = {q. \<exists>idx. PushStored idx q \<in> set items}"
  by (induction items) (auto simp: stored_seqs_def List.map_filter_def split: IBagPushItem.splits)

context client_store begin

text \<open>What an operation may leave unchanged.\<close>

definition same_but_uploads :: "'s \<Rightarrow> 's \<Rightarrow> bool" where
  "same_but_uploads s s' = (archive s' = archive s \<and> queue s' = queue s \<and> cursor s' = cursor s)"

lemma deq_stored_effect:
  "inv s \<Longrightarrow> inv (deq_stored S h hashes items s) \<and> same_but_uploads s (deq_stored S h hashes items s)
     \<and> uploads (deq_stored S h hashes items s) = (uploads s)(h := uploads s h - stored_hashes hashes items)"
proof (induction items arbitrary: s)
  case (Cons x items)
  show ?case
  proof (cases x)
    case (PushStored idx q)
    let ?s = "if 0 \<le> idx \<and> nat idx < length hashes then is_up_deq S h [hashes ! nat idx] s else s"
    have u: "inv ?s \<and> same_but_uploads s ?s
        \<and> uploads ?s = (uploads s)(h := uploads s h - stored_hashes hashes [x])"
      using up_deq_law [OF Cons.prems, of h "[hashes ! nat idx]"] Cons.prems PushStored
      by (auto simp: same_but_uploads_def)
    have st: "stored_hashes hashes (x # items) = stored_hashes hashes [x] \<union> stored_hashes hashes items"
      by (auto simp: stored_hashes_def)
    note ih = Cons.IH [of ?s]
    have "uploads (deq_stored S h hashes items ?s) = (uploads s)(h := uploads s h - stored_hashes hashes (x # items))"
      using ih u unfolding st by (auto simp: fun_eq_iff simp del: stored_hashes_simps)
    then show ?thesis using ih u unfolding PushStored deq_stored.simps
      by (simp add: same_but_uploads_def del: stored_hashes_simps)
  qed (use Cons in simp)
qed (simp add: same_but_uploads_def)

lemma push_batch_effect:
  assumes i: "inv s" and ne: "bags \<noteq> []" and ans: "sc_push conn bags cw = (cw', Ok results)"
    and cur: "cursor s h r = Some c"
  shows "\<exists>s' c'. pushBatch conn S h bags hashes r (cw, s) = ((cw', s'), Ok ()) \<and> inv s'
    \<and> archive s' = archive s \<and> queue s' = queue s
    \<and> uploads s' = (uploads s)(h := uploads s h - stored_hashes hashes results)
    \<and> cursor s' = (cursor s)(h := (cursor s h)(r \<mapsto> c'))
    \<and> c \<le> c' \<and> (\<forall>n. c < n \<and> n \<le> c' \<longrightarrow> (\<exists>idx. PushStored idx n \<in> set results))
    \<and> (\<nexists>idx. PushStored idx (c' + 1) \<in> set results)"
proof -
  let ?s = "deq_stored S h hashes results s" and ?c = "contiguous c (js_sort (\<lambda>a b. a - b) (stored_seqs results))"
  note d = deq_stored_effect [OF i, of h hashes results]
  have c: "c \<le> ?c" "\<forall>n. c < n \<and> n \<le> ?c \<longrightarrow> (\<exists>idx. PushStored idx n \<in> set results)"
      "\<nexists>idx. PushStored idx (?c + 1) \<in> set results"
    using contiguous_covers [of c "js_sort (\<lambda>a b. a - b) (stored_seqs results)"]
      contiguous_maximal [OF sorted_seqs, of c "stored_seqs results"] by (auto simp: set_stored_seqs)
  from d have "map_option (\<lambda>row. cursorOf (hr_cursor row) r) (is_hosts_get S h ?s) = Some c"
    using row_law [of ?s r h] cur by (simp add: same_but_uploads_def)
  then obtain row where row: "is_hosts_get S h ?s = Some row" "cursorOf (hr_cursor row) r = c" by auto
  let ?t = "if ?c > c then is_hosts_recordSeqs S h \<lparr>hu_lastSeq = Some ?c, hu_setLastSeq = None\<rparr> (Some r) ?s else ?s"
  have t: "inv ?t \<and> archive ?t = archive ?s \<and> queue ?t = queue ?s \<and> uploads ?t = uploads ?s
      \<and> cursor ?t = (cursor ?s)(h := (cursor ?s h)(r \<mapsto> ?c))"
    using seqs_law [of ?s "\<lparr>hu_lastSeq = Some ?c, hu_setLastSeq = None\<rparr>" h "Some r"] d cur c(1)
    by (auto simp: fun_eq_iff same_but_uploads_def nextCursor_def)
  have "pushBatch conn S h bags hashes r (cw, s) = ((cw', ?t), Ok ())"
    using ne by (simp add: pushBatch_def ans row Let_def Suc_le_eq)
  then show ?thesis using t d c
    by (intro exI [of _ ?t] exI [of _ ?c]) (simp add: same_but_uploads_def)
qed

end

section \<open>Lemmas on peeking\<close>

lemma head_decode_total: "messageHead_decode (Decoder bs) \<noteq> Throw \<and> messageHead_decode (Decoder bs) \<noteq> Hang"
  by (rule messageHeadCodec.decode_total)

fun result_seq :: "PeekCryptoResult \<Rightarrow> int" where
  "result_seq (PeekOk seq _ _ _) = seq"
| "result_seq (PeekFail seq _) = seq"

lemma downloadKey_inj: "downloadKey h q r = downloadKey h q' r \<Longrightarrow> q = q'"
  by (auto simp: downloadKey_def Let_def num_str_inj split: if_splits)

lemma downloadKey_storedRealm: "downloadKey h q (storedRealm r) = downloadKey h q (Some r)"
  by (simp add: downloadKey_def storedRealm_def nullKDM_def isDefaultRealm_def)

lemma foldl_upd_notin: "k \<notin> f ` set ds \<Longrightarrow> foldl (\<lambda>q d. q(f d \<mapsto> d)) q ds k = q k"
  by (induction ds arbitrary: q) auto

lemma foldl_upd_in: "distinct (map f ds) \<Longrightarrow> d \<in> set ds \<Longrightarrow> foldl (\<lambda>q d. q(f d \<mapsto> d)) q ds (f d) = Some d"
  by (induction ds arbitrary: q) (auto simp: foldl_upd_notin)

text \<open>The download that a decrypted item stands for.\<close>

definition peeked :: "jsstr \<Rightarrow> IKDM \<Rightarrow> PeekCryptoResult list \<Rightarrow> IDownloadMessage \<Rightarrow> bool" where
  "peeked label realm results d =
     (\<exists>headEnc h rest. PeekOk (dm_seq d) (dm_kdm d) headEnc h \<in> set results
        \<and> messageHead_decode (Decoder headEnc) = Ok (dm_head d, rest) \<and> dm_host d = label
        \<and> dm_headEnc d = Some headEnc \<and> dm_headEncHash d = Some h \<and> dm_realm d = storedRealm realm)"

lemma peeked_mono: "set results \<subseteq> set results' \<Longrightarrow> peeked label realm results d \<Longrightarrow> peeked label realm results' d"
  unfolding peeked_def by blast

context client_store begin

definition peek_effect :: "jsstr \<Rightarrow> IKDM \<Rightarrow> int set \<Rightarrow> 's \<Rightarrow> 's \<Rightarrow> bool" where
  "peek_effect label realm seqs s s' =
     (inv s' \<and> archive s' = archive s \<and> cursor s' = cursor s
      \<and> (\<forall>h. uploads s' h \<subseteq> uploads s h)
      \<and> (\<forall>h x. x \<in> uploads s h \<and> x \<notin> uploads s' h \<longrightarrow> h = label \<and> x \<in> dom (archive s))
      \<and> (\<forall>k. queue s' k = queue s k \<or> queue s' k = None \<and> k \<in> (\<lambda>q. downloadKey label q (Some realm)) ` seqs))"

lemma peek_effect_refl [simp]: "inv s \<Longrightarrow> peek_effect label realm seqs s s"
  by (simp add: peek_effect_def)

lemma peek_effect_trans:
  "peek_effect l r A s s' \<Longrightarrow> peek_effect l r B s' s'' \<Longrightarrow> A \<union> B \<subseteq> C \<Longrightarrow> peek_effect l r C s s''"
proof -
  assume a: "peek_effect l r A s s'" "peek_effect l r B s' s''" "A \<union> B \<subseteq> C"
  note p = a(1) [unfolded peek_effect_def] and q = a(2) [unfolded peek_effect_def]
  let ?f = "\<lambda>q. downloadKey l q (Some r)"
  have "uploads s'' h \<subseteq> uploads s h" for h using p q by (meson order_trans)
  moreover have "h = l \<and> x \<in> dom (archive s)" if "x \<in> uploads s h" "x \<notin> uploads s'' h" for h x
    using p q that by (cases "x \<in> uploads s' h") metis+
  moreover have "queue s'' k = queue s k \<or> queue s'' k = None \<and> k \<in> ?f ` C" for k
  proof (cases "queue s'' k = queue s' k")
    case True
    then show ?thesis using p a(3) by (metis Un_subset_iff image_mono subset_iff)
  next
    case False
    then have "queue s'' k = None" "k \<in> ?f ` B" using q by blast+
    then show ?thesis using a(3) by (metis Un_subset_iff image_mono subset_iff)
  qed
  moreover have "inv s''" "archive s'' = archive s" "cursor s'' = cursor s" using p q by simp_all
  ultimately show ?thesis unfolding peek_effect_def by blast
qed

lemma peek_deq_effect: "inv s \<Longrightarrow> peek_effect l r {q} s (is_dn_deq S l [q] (Some r) s)"
  using deq_law [of s l "[q]" "Some r"] by (auto simp: peek_effect_def)

lemma peek_done_effect:
  assumes "inv s" "h \<in> dom (archive s)"
  shows "peek_effect l r {q} s (is_dn_deq S l [q] (Some r) (is_up_deq S l [h] s))"
  using up_deq_law [OF assms(1), of l "[h]"] deq_law [of "is_up_deq S l [h] s" l "[q]" "Some r"] assms(2)
  by (auto simp: peek_effect_def)

definition covered :: "IDownloadMessage list \<Rightarrow> 's \<Rightarrow> PeekCryptoResult \<Rightarrow> bool" where
  "covered dls s x = (\<forall>seq kdm headEnc h hd rest. x = PeekOk seq kdm headEnc h
     \<and> messageHead_decode (Decoder headEnc) = Ok (hd, rest)
     \<longrightarrow> h \<in> dom (archive s) \<or> Some h \<in> dm_headEncHash ` set dls)"

lemma covered_mono: "covered dls s x \<Longrightarrow> archive s' = archive s \<Longrightarrow> set dls \<subseteq> set dls' \<Longrightarrow> covered dls' s' x"
  unfolding covered_def by (metis image_mono subsetD)

lemma peek_loop_effect:
  assumes "inv s" "\<forall>x \<in> set enq. \<exists>h. x = btob64 h \<and> Some h \<in> dm_headEncHash ` set dls"
  shows "\<exists>s' new. peek_loop S l r rs enq dls s = (s', Ok (dls @ new)) \<and> peek_effect l r (result_seq ` set rs) s s'
    \<and> list_all (peeked l r rs) new \<and> (distinct (map result_seq rs) \<longrightarrow> distinct (map dm_seq new))
    \<and> dm_seq ` set new \<subseteq> result_seq ` set rs \<and> list_all (covered (dls @ new) s) rs"
  using assms
proof (induction rs arbitrary: enq dls s)
  case Nil
  then show ?case by simp
next
  case (Cons x rs)
  have skip: ?case if e: "peek_loop S l r (x # rs) enq dls s = peek_loop S l r rs enq dls s1"
      "peek_effect l r {result_seq x} s s1" "covered dls s x" for s1
  proof -
    have i: "inv s1" "archive s1 = archive s" using e(2) by (simp_all add: peek_effect_def)
    obtain s' new where n: "peek_loop S l r rs enq dls s1 = (s', Ok (dls @ new))"
        "peek_effect l r (result_seq ` set rs) s1 s'" "list_all (peeked l r rs) new"
        "distinct (map result_seq rs) \<longrightarrow> distinct (map dm_seq new)"
        "dm_seq ` set new \<subseteq> result_seq ` set rs" "list_all (covered (dls @ new) s1) rs"
      using Cons.IH [OF i(1) Cons.prems(2)] by blast
    have "peek_effect l r (result_seq ` set (x # rs)) s s'" by (rule peek_effect_trans [OF e(2) n(2)]) auto
    moreover have "list_all (peeked l r (x # rs)) new"
      using n(3) by (auto simp: list_all_iff intro: peeked_mono [of rs])
    moreover have "list_all (covered (dls @ new) s) (x # rs)"
      using n(6) e(3) i(2) by (auto simp: list_all_iff intro: covered_mono)
    ultimately show ?case using e(1) n by auto
  qed
  show ?case
  proof (cases x)
    case (PeekFail q st)
    show ?thesis by (rule skip [of s]) (simp_all add: PeekFail covered_def Cons.prems)
  next
    case (PeekOk q kdm headEnc h)
    show ?thesis
    proof (cases "is_msg_has S h s")
      case True
      then have "h \<in> dom (archive s)" using has_law [OF Cons.prems(1)] by auto
      then show ?thesis
        by (intro skip [of "is_dn_deq S l [q] (Some r) (is_up_deq S l [h] s)"])
          (simp_all add: PeekOk True covered_def peek_done_effect Cons.prems(1))
    next
      case new: False
      show ?thesis
      proof (cases "btob64 h \<in> set enq")
        case True
        then have "Some h \<in> dm_headEncHash ` set dls" using Cons.prems(2) by fastforce
        then show ?thesis
          by (intro skip [of "is_dn_deq S l [q] (Some r) s"])
            (simp_all add: PeekOk True new covered_def peek_deq_effect Cons.prems(1))
      next
        case fresh: False
        show ?thesis
        proof (cases "messageHead_decode (Decoder headEnc)")
          case (Err st)
          show ?thesis by (rule skip [of s]) (simp_all add: PeekOk new fresh Err covered_def Cons.prems(1))
        next
          case (Ok hr)
          obtain hd rest where hr: "hr = (hd, rest)" by (cases hr)
          define d where "d = \<lparr>dm_kdm = kdm, dm_seq = q, dm_head = hd, dm_host = l, dm_headEnc = Some headEnc,
                                dm_headEncHash = Some h, dm_realm = storedRealm r\<rparr>"
          have d: "dm_seq d = q" "dm_headEncHash d = Some h" "peeked l r (x # rs) d"
            using Ok hr by (auto simp: d_def peeked_def PeekOk)
          have enq: "\<forall>y \<in> set (set_add (btob64 h) enq). \<exists>h. y = btob64 h \<and> Some h \<in> dm_headEncHash ` set (dls @ [d])"
            using Cons.prems(2) d(2) by (auto simp: image_iff)
          obtain s' new' where n: "peek_loop S l r rs (set_add (btob64 h) enq) (dls @ [d]) s = (s', Ok ((dls @ [d]) @ new'))"
              "peek_effect l r (result_seq ` set rs) s s'" "list_all (peeked l r rs) new'"
              "distinct (map result_seq rs) \<longrightarrow> distinct (map dm_seq new')"
              "dm_seq ` set new' \<subseteq> result_seq ` set rs" "list_all (covered ((dls @ [d]) @ new') s) rs"
            using Cons.IH [OF Cons.prems(1) enq] by blast
          have "peek_effect l r (result_seq ` set (x # rs)) s s'"
            by (rule peek_effect_trans [OF peek_effect_refl [OF Cons.prems(1), where seqs = "{}"] n(2)]) auto
          moreover have "list_all (peeked l r (x # rs)) (d # new')"
            using n(3) d(3) by (auto simp: list_all_iff intro: peeked_mono [of rs])
          moreover have "list_all (covered (dls @ d # new') s) (x # rs)"
            using n(6) d(2) by (auto simp: list_all_iff covered_def PeekOk image_iff)
          moreover have "distinct (map result_seq (x # rs)) \<longrightarrow> distinct (map dm_seq (d # new'))"
            using n(4,5) d(1) PeekOk by auto
          moreover have "peek_loop S l r (x # rs) enq dls s = (s', Ok (dls @ d # new'))"
            using n(1) by (simp add: PeekOk new fresh Ok hr d_def)
          ultimately show ?thesis using n(5) d(1) PeekOk
            by (intro exI [of _ s'] exI [of _ "d # new'"]) auto
        qed (use head_decode_total in auto)
      qed
    qed
  qed
qed

definition after_peek :: "jsstr \<Rightarrow> IKDM \<Rightarrow> PeekCryptoResult list \<Rightarrow> 's \<Rightarrow> 's \<Rightarrow> bool" where
  "after_peek label realm results s s' =
     (inv s' \<and> archive s' = archive s
      \<and> (\<forall>seq kdm headEnc h hd rest. PeekOk seq kdm headEnc h \<in> set results
            \<and> messageHead_decode (Decoder headEnc) = Ok (hd, rest)
            \<longrightarrow> h \<in> dom (archive s) \<or>
                (\<exists>d \<in> ran (queue s'). dm_headEncHash d = Some h \<and> peeked label realm results d))
      \<and> (\<forall>k. k \<notin> (\<lambda>q. downloadKey label q (Some realm)) ` result_seq ` set results \<longrightarrow> queue s' k = queue s k)
      \<and> (\<forall>h. uploads s' h \<subseteq> uploads s h)
      \<and> (\<forall>h x. x \<in> uploads s h \<and> x \<notin> uploads s' h \<longrightarrow> h = label \<and> x \<in> dom (archive s))
      \<and> cursor s' = (cursor s)(label := (cursor s label)(realm :=
            map_option (\<lambda>c. if results = [] then c else max c (Max (result_seq ` set results))) (cursor s label realm))))"

lemma peek_enqueue:
  assumes "inv s" "list_all (peeked l r rs) ds" "distinct (map dm_seq ds)"
  shows "d \<in> set ds \<Longrightarrow> d \<in> ran (queue (is_dn_enq S ds s))"
    and "k \<notin> (\<lambda>q. downloadKey l q (Some r)) ` dm_seq ` set ds \<Longrightarrow> queue (is_dn_enq S ds s) k = queue s k"
proof -
  let ?k = "\<lambda>d. downloadKey (dm_host d) (dm_seq d) (dm_realm d)"
  have k: "?k d = downloadKey l (dm_seq d) (Some r)" if "d \<in> set ds" for d
    using assms(2) that by (auto simp: list_all_iff peeked_def downloadKey_storedRealm)
  have "distinct (map ?k ds)"
    using assms(3) k by (auto simp: distinct_map inj_on_def dest: downloadKey_inj)
  then show "d \<in> set ds \<Longrightarrow> d \<in> ran (queue (is_dn_enq S ds s))"
    using enq_law [OF assms(1), of ds] foldl_upd_in [of ?k ds d "queue s"] by (auto intro!: ranI)
  show "k \<notin> (\<lambda>q. downloadKey l q (Some r)) ` dm_seq ` set ds \<Longrightarrow> queue (is_dn_enq S ds s) k = queue s k"
    using enq_law [OF assms(1), of ds] foldl_upd_notin [of k ?k ds "queue s"] k by (auto simp: image_iff)
qed

lemma sync_peek_effect:
  assumes i: "inv s" and bm: "bagMgrFor (sc_client conn) r = Some bm"
    and key: "client_identity (sc_client conn) = Ok idn" "importVerifyKey p (bm_publicKey idn) = Ok vk"
    and peek: "sc_peek conn (cursorOf (hr_cursor host) r) r cw = (cw', Ok items)" "distinct (map pk_seq items)"
    and crypto: "vs_map (peek_crypto p vk bm) items = Ok results"
  shows "\<exists>s'. syncPeek p conn S host (Some r) (cw, s) = ((cw', s'), Ok ()) \<and> after_peek (hi_label host) r results s s'"
proof -
  let ?l = "hi_label host"
  have seqs: "map result_seq results = map pk_seq items"
    using crypto
  proof (induction items arbitrary: results)
    case (Cons x xs)
    then show ?case by (auto simp: peek_crypto_def split: vs.splits prod.splits)
  qed simp
  have em: "results = [] \<longleftrightarrow> items = []" using arg_cong [OF seqs, of length] by auto
  have se: "set (map pk_seq items) = result_seq ` set results" using arg_cong [OF seqs, of set] by simp
  obtain s1 ds where l: "peek_loop S ?l r results [] [] s = (s1, Ok ds)" "peek_effect ?l r (result_seq ` set results) s s1"
      "list_all (peeked ?l r results) ds" "distinct (map dm_seq ds)" "dm_seq ` set ds \<subseteq> result_seq ` set results"
      "list_all (covered ds s) results"
    using peek_loop_effect [OF i, of "[]" "[]" ?l r results] peek(2) seqs by auto
  have i1: "inv s1" using l(2) by (simp add: peek_effect_def)
  note q = enq_law [OF i1, of ds] and pe = peek_enqueue [OF i1 l(3,4)]
  let ?s2 = "is_dn_enq S ds s1"
  let ?u = "\<lparr>hu_lastSeq = Some (Max (set (map pk_seq items))), hu_setLastSeq = None\<rparr>"
  let ?s3 = "if length items > 0 then is_hosts_recordSeqs S ?l ?u (Some r) ?s2 else ?s2"
  have i2: "inv ?s2" using q by simp
  have s3: "inv ?s3 \<and> archive ?s3 = archive s \<and> queue ?s3 = queue ?s2 \<and> uploads ?s3 = uploads s1
      \<and> cursor ?s3 = (cursor s)(?l := (cursor s ?l)(r :=
            map_option (\<lambda>c. if results = [] then c else max c (Max (result_seq ` set results))) (cursor s ?l r)))"
    using seqs_law [OF i2, of ?u ?l "Some r"] q l(2) em se
    by (cases "cursor s ?l r") (auto simp: fun_eq_iff nextCursor_def peek_effect_def max_def)
  have "after_peek ?l r results s ?s3"
    unfolding after_peek_def
  proof (intro conjI allI impI)
    fix seq kdm headEnc h hd rest
    assume a: "PeekOk seq kdm headEnc h \<in> set results \<and> messageHead_decode (Decoder headEnc) = Ok (hd, rest)"
    then have "h \<in> dom (archive s) \<or> Some h \<in> dm_headEncHash ` set ds"
      using l(6) unfolding list_all_iff covered_def by blast
    then show "h \<in> dom (archive s) \<or> (\<exists>d \<in> ran (queue ?s3). dm_headEncHash d = Some h \<and> peeked ?l r results d)"
      using pe(1) l(3) s3 unfolding list_all_iff by (metis imageE)
  next
    fix k assume k: "k \<notin> (\<lambda>q. downloadKey ?l q (Some r)) ` result_seq ` set results"
    then have "queue ?s2 k = queue s1 k" using l(5) by (intro pe(2)) blast
    also have "queue s1 k = queue s k" using l(2) k unfolding peek_effect_def by blast
    finally show "queue ?s3 k = queue s k" using s3 by simp
  qed (use s3 l(2) in \<open>auto simp: peek_effect_def\<close>)
  moreover have "syncPeek p conn S host (Some r) (cw, s) = ((cw', ?s3), Ok ())"
    by (simp add: syncPeek_def bm key peek(1) crypto l(1))
  ultimately show ?thesis by blast
qed

end

section \<open>Lemmas on opening\<close>

abbreviation realm_of :: "IKDM option \<Rightarrow> IKDM" where
  "realm_of r \<equiv> (case r of None \<Rightarrow> nullKDM | Some x \<Rightarrow> x)"

lemma downloadKey_realm: "realm_of r = realm_of r' \<Longrightarrow> downloadKey h q r = downloadKey h q r'"
  by (simp add: downloadKey_def)

text \<open>Groups of one host: filed under the key of their realm.\<close>

definition groups_ok :: "jsstr \<Rightarrow> (jsstr, DeqGroup) jsmap \<Rightarrow> bool" where
  "groups_ok h groups =
     (keys_ok groups \<and> list_all (\<lambda>(k, g). dg_host g = h \<and> k = h @ [0] @ realmKey (realm_of (dg_realm g))) groups)"

definition one_keys :: "DeqGroup option \<Rightarrow> jsstr set" where
  "one_keys g = (case g of None \<Rightarrow> {} | Some g \<Rightarrow> (\<lambda>q. downloadKey (dg_host g) q (dg_realm g)) ` set (dg_seqs g))"

definition group_keys :: "(jsstr, DeqGroup) jsmap \<Rightarrow> jsstr set" where
  "group_keys groups = (\<Union>k. one_keys (map_get groups k))"

definition noted :: "(jsstr, DeqGroup) jsmap \<Rightarrow> IPulled list \<Rightarrow> (jsstr, DeqGroup) jsmap" where
  "noted = foldl (\<lambda>g x. noteDeq g (dm_host (pd_dl x)) (dm_seq (pd_dl x)) (dm_realm (pd_dl x)))"

lemma groups_get: "groups_ok h groups \<Longrightarrow> map_get groups k = Some g \<Longrightarrow> dg_host g = h \<and> k = h @ [0] @ realmKey (realm_of (dg_realm g))"
  by (auto simp: groups_ok_def list_all_iff dest: map_of_SomeD)

lemma group_keys_split: "group_keys m = one_keys (map_get m k) \<union> (\<Union>k' \<in> - {k}. one_keys (map_get m k'))"
proof -
  have "(UNIV :: jsstr set) = insert k (- {k})" by auto
  then show ?thesis unfolding group_keys_def by (metis UN_insert)
qed

lemma noteDeq_ok:
  assumes "groups_ok h groups"
  shows "groups_ok h (noteDeq groups h q r) \<and> group_keys (noteDeq groups h q r) = insert (downloadKey h q r) (group_keys groups)"
proof -
  let ?k = "h @ [0] @ realmKey (realm_of r)"
  let ?g = "case map_get groups ?k of Some g \<Rightarrow> g\<lparr>dg_seqs := dg_seqs g @ [q]\<rparr>
            | None \<Rightarrow> \<lparr>dg_host = h, dg_realm = r, dg_seqs = [q]\<rparr>"
  have e: "noteDeq groups h q r = map_set ?k ?g groups" by (simp add: noteDeq_def Let_def split: option.splits)
  have g: "dg_host ?g = h" "realm_of (dg_realm ?g) = realm_of r"
    using groups_get [OF assms, of ?k] by (auto split: option.splits)
  have "downloadKey h q (dg_realm ?g) = downloadKey h q r" by (rule downloadKey_realm [OF g(2)])
  then have "one_keys (Some ?g) = insert (downloadKey h q r) (one_keys (map_get groups ?k))"
    using g(1) by (auto simp: one_keys_def split: option.splits)
  moreover have "(\<Union>k' \<in> - {?k}. one_keys (map_get (map_set ?k ?g groups) k')) = (\<Union>k' \<in> - {?k}. one_keys (map_get groups k'))"
    by simp
  moreover have "groups_ok h (map_set ?k ?g groups)"
    using assms g unfolding groups_ok_def by (auto intro!: list_all_set)
  ultimately show ?thesis unfolding e group_keys_split [of _ ?k] by simp
qed

fun somes :: "'a option list \<Rightarrow> 'a list" where
  "somes [] = []"
| "somes (None # xs) = somes xs"
| "somes (Some x # xs) = x # somes xs"

lemma set_somes: "set (somes xs) = {x. Some x \<in> set xs}"
  by (induction xs rule: somes.induct) auto

lemma open_loop_eq:
  assumes "vs_map (open_item p mgrs) items = Ok rs"
  shows "open_loop p mgrs items acc groups =
    Ok (acc @ somes rs, noted groups items)"
  using assms
proof (induction items arbitrary: rs acc groups)
  case Nil
  then show ?case by (simp add: noted_def)
next
  case (Cons x xs)
  then obtain r rs' where "open_item p mgrs x = Ok r" "vs_map (open_item p mgrs) xs = Ok rs'" "rs = r # rs'" by auto
  then show ?case using Cons.IH [of rs'] by (cases r) (simp_all add: noted_def)
qed

lemma noted_keys:
  assumes "groups_ok h groups" "\<forall>x \<in> set items. dm_host (pd_dl x) = h"
  shows "groups_ok h (noted groups items)
    \<and> group_keys (noted groups items) =
        group_keys groups \<union> (\<lambda>x. downloadKey h (dm_seq (pd_dl x)) (dm_realm (pd_dl x))) ` set items"
  using assms
proof (induction items arbitrary: groups)
  case (Cons x xs)
  then show ?case
    using Cons.IH [of "noteDeq groups h (dm_seq (pd_dl x)) (dm_realm (pd_dl x))"] noteDeq_ok [OF Cons.prems(1)] by (auto simp: noted_def)
qed (simp add: noted_def)

lemma stored_row_id [simp]: "omitDefaultRealm_row (msg2StoredMsgData part r) = msg2StoredMsgData part r"
  by (auto simp: omitDefaultRealm_row_def msg2StoredMsgData_def Let_def realmLabel_def split: option.splits)

text \<open>The archive entry that an opened item becomes.\<close>

fun opened_entry :: "bytes \<times> IMsgParts \<times> IKDM \<Rightarrow> IStorableMessage" where
  "opened_entry (key, part, realm) = \<lparr>st_key = key, st_data = msg2StoredMsgData part (Some realm)\<rparr>"

text \<open>
  A connection that takes an upload. \<open>R\<close> are the messages to send, \<open>sealed\<close> says which bags stand for a message, and of a
  world \<open>room n\<close> says that the host has room for \<open>n\<close> more bags, \<open>kept\<close> which bags it keeps.
\<close>

definition accepting ::
    "'w SyncConn \<Rightarrow> (nat \<Rightarrow> 'w \<Rightarrow> bool) \<Rightarrow> ('w \<Rightarrow> IBag set) \<Rightarrow> (Ready \<Rightarrow> IBag \<Rightarrow> bool) \<Rightarrow> Ready set \<Rightarrow> bool" where
  "accepting conn room kept sealed R =
     ((\<forall>x n w. x \<in> R \<and> room n w \<longrightarrow> (\<exists>w' bag. sc_seal conn (rd_msg x) (rd_realm x) w = (w', Ok bag)
         \<and> room n w' \<and> kept w \<subseteq> kept w' \<and> sealed x bag))
      \<and> (\<forall>bags n w. bags \<noteq> [] \<and> room (n + length bags) w \<and> (\<forall>bag \<in> set bags. \<exists>x \<in> R. sealed x bag) \<longrightarrow>
           (\<exists>w' results. sc_push conn bags w = (w', Ok results) \<and> room n w' \<and> kept w \<union> set bags \<subseteq> kept w'
              \<and> (\<forall>i < length bags. \<exists>q. PushStored (int i) q \<in> set results))))"

definition acc_fine :: "(Ready \<Rightarrow> IBag \<Rightarrow> bool) \<Rightarrow> Ready set \<Rightarrow> PushAcc \<Rightarrow> bool" where
  "acc_fine sealed R acc =
     (length (pa_hashes acc) = length (pa_bags acc) \<and> (\<forall>bag \<in> set (pa_bags acc). \<exists>x \<in> R. sealed x bag))"

lemma accepting_seal:
  assumes "accepting conn room kept sealed R" "x \<in> R" "room n w"
  shows "\<exists>w' bag. sc_seal conn (rd_msg x) (rd_realm x) w = (w', Ok bag) \<and> room n w' \<and> kept w \<subseteq> kept w' \<and> sealed x bag"
  using assms(1) [unfolded accepting_def, THEN conjunct1] assms(2,3) by simp

lemma accepting_push:
  assumes "accepting conn room kept sealed R" "bags \<noteq> []" "room (n + length bags) w" "\<forall>bag \<in> set bags. \<exists>x \<in> R. sealed x bag"
  shows "\<exists>w' results. sc_push conn bags w = (w', Ok results) \<and> room n w' \<and> kept w \<union> set bags \<subseteq> kept w'
    \<and> (\<forall>i < length bags. \<exists>q. PushStored (int i) q \<in> set results)"
  using assms(1) [unfolded accepting_def, THEN conjunct2, rule_format, of bags n w] assms(2-4) by simp

lemma all_stored:
  "length hashes = n \<Longrightarrow> \<forall>i < n. \<exists>q. PushStored (int i) q \<in> set results \<Longrightarrow> stored_hashes hashes results = set hashes"
  by (auto simp: stored_hashes_def in_set_conv_nth) (metis nat_int of_nat_0_le_iff)

context client_store begin

lemma flushDeq_effect:
  assumes "inv s" "keys_ok groups"
  shows "inv (flushDeq S groups s) \<and> archive (flushDeq S groups s) = archive s \<and> uploads (flushDeq S groups s) = uploads s
    \<and> cursor (flushDeq S groups s) = cursor s
    \<and> queue (flushDeq S groups s) = (\<lambda>k. if k \<in> group_keys groups then None else queue s k)"
proof -
  let ?f = "\<lambda>s (_, g). is_dn_deq S (dg_host g) (dg_seqs g) (dg_realm g) s"
  let ?ks = "\<lambda>gs. \<Union>(k, g) \<in> set gs. one_keys (Some g)"
  have f: "inv (foldl ?f s gs) \<and> archive (foldl ?f s gs) = archive s \<and> uploads (foldl ?f s gs) = uploads s
      \<and> cursor (foldl ?f s gs) = cursor s
      \<and> queue (foldl ?f s gs) = (\<lambda>k. if k \<in> ?ks gs then None else queue s k)" if "inv s" for gs :: "(jsstr, DeqGroup) jsmap" and s
    using that
  proof (induction gs arbitrary: s)
    case (Cons x gs)
    obtain k g where x: "x = (k, g)" by (cases x)
    note d = deq_law [OF Cons.prems, of "dg_host g" "dg_seqs g" "dg_realm g"]
    then have "queue (is_dn_deq S (dg_host g) (dg_seqs g) (dg_realm g) s) = (\<lambda>k. if k \<in> one_keys (Some g) then None else queue s k)"
      by (simp add: one_keys_def)
    then show ?case using Cons.IH [of "is_dn_deq S (dg_host g) (dg_seqs g) (dg_realm g) s"] d x by (simp add: fun_eq_iff)
  qed simp
  have k: "?ks groups = group_keys groups"
    unfolding group_keys_def using keys_ok_mem [OF assms(2)] by (fastforce simp: one_keys_def split: option.splits)
  show ?thesis using f [OF assms(1), of groups] unfolding flushDeq_def k .
qed

lemma open_pulled_effect:
  assumes i: "inv s" and ne: "items \<noteq> []" and h: "\<forall>x \<in> set items. dm_host (pd_dl x) = l"
    and rs: "vs_map (open_item p mgrs) items = Ok rs"
  defines "opened \<equiv> somes rs"
  shows "\<exists>s'. openPulled p S mgrs items s = (s', Ok \<lparr>io_parts = map (\<lambda>(_, part, _). part) opened, io_hashes = map fst opened\<rparr>)
    \<and> inv s' \<and> uploads s' = uploads s \<and> cursor s' = cursor s
    \<and> queue s' = (\<lambda>k. if k \<in> (\<lambda>x. downloadKey l (dm_seq (pd_dl x)) (dm_realm (pd_dl x))) ` set items then None else queue s k)
    \<and> archive s' = foldl (\<lambda>a m. a(st_key m \<mapsto> st_data m)) (archive s) (map opened_entry opened)"
proof -
  let ?ms = "map opened_entry opened"
  let ?gs = "noted [] items"
  have oe: "(\<lambda>(key, part, realm). \<lparr>st_key = key, st_data = msg2StoredMsgData part (Some realm)\<rparr>) = opened_entry"
    by (rule ext) (auto split: prod.splits)
  obtain s1 sts where a: "is_msg_add S ?ms s = (s1, sts)" by (metis surj_pair)
  have fold: "foldl (\<lambda>a m. a(st_key m \<mapsto> omitDefaultRealm_row (st_data m))) f (map opened_entry xs) =
      foldl (\<lambda>a m. a(st_key m \<mapsto> st_data m)) f (map opened_entry xs)" for f xs
    by (induction xs arbitrary: f) auto
  note add = add_law [OF i a, unfolded fold]
  have e: "groups_ok l []" "group_keys [] = {}" by (simp_all add: groups_ok_def group_keys_def one_keys_def)
  have gs: "groups_ok l ?gs" "group_keys ?gs = (\<lambda>x. downloadKey l (dm_seq (pd_dl x)) (dm_realm (pd_dl x))) ` set items"
    using noted_keys [OF e(1) h] e(2) by simp_all
  have ko: "keys_ok ?gs" using gs(1) by (simp add: groups_ok_def)
  have "openPulled p S mgrs items s =
      (flushDeq S ?gs s1, Ok \<lparr>io_parts = map (\<lambda>(_, part, _). part) opened, io_hashes = map fst opened\<rparr>)"
    using ne by (simp add: openPulled_def open_loop_eq [OF rs] opened_def [symmetric] oe a Suc_le_eq)
  moreover have "queue s1 = queue s" using add by simp
  ultimately show ?thesis using flushDeq_effect [OF _ ko, of s1] add gs(2)
    by (intro exI [of _ "flushDeq S ?gs s1"]) (simp cong: if_cong)
qed

definition listed :: "jsstr \<Rightarrow> 's \<Rightarrow> bool" where
  "listed h s = (\<forall>r. cursor s h r \<noteq> None)"

definition pushed :: "jsstr \<Rightarrow> bytes set \<Rightarrow> 's \<Rightarrow> 's \<Rightarrow> bool" where
  "pushed h hs s s' =
     (inv s' \<and> listed h s' \<and> archive s' = archive s \<and> queue s' = queue s
      \<and> (\<forall>h'. h' \<noteq> h \<longrightarrow> uploads s' h' = uploads s h' \<and> cursor s' h' = cursor s h') \<and> uploads s' h = uploads s h - hs)"

lemma pushed_refl: "inv s \<Longrightarrow> listed h s \<Longrightarrow> pushed h {} s s"
  by (simp add: pushed_def)

lemma pushed_trans: "pushed h A s s' \<Longrightarrow> pushed h B s' s'' \<Longrightarrow> pushed h (A \<union> B) s s''"
  by (auto simp: pushed_def)

lemma push_flush_effect:
  assumes c: "accepting conn room kept sealed R" and s: "inv s" "listed h s"
    and acc: "acc_fine sealed R acc" "room (n + length (pa_bags acc)) cw"
  shows "\<exists>cw' s' acc'. push_flush conn S h acc (cw, s) = ((cw', s'), Ok acc') \<and> pa_bags acc' = [] \<and> pa_hashes acc' = []
    \<and> pushed h (set (pa_hashes acc)) s s' \<and> room n cw' \<and> kept cw \<union> set (pa_bags acc) \<subseteq> kept cw'"
proof (cases "pa_bags acc = []")
  case True
  then show ?thesis using acc pushed_refl [OF s] by (auto simp: push_flush_def acc_fine_def)
next
  case False
  have good: "\<forall>bag \<in> set (pa_bags acc). \<exists>x \<in> R. sealed x bag" and len: "length (pa_hashes acc) = length (pa_bags acc)"
    using acc(1) by (simp_all add: acc_fine_def)
  obtain cw' results where r: "sc_push conn (pa_bags acc) cw = (cw', Ok results)" "room n cw'" "kept cw \<union> set (pa_bags acc) \<subseteq> kept cw'"
      "\<forall>i < length (pa_bags acc). \<exists>q. PushStored (int i) q \<in> set results"
    using accepting_push [OF c False acc(2) good] by (elim exE conjE) (rule that)
  obtain c where "cursor s h (pa_realm acc) = Some c" using s(2) by (auto simp: listed_def)
  from push_batch_effect [OF s(1) False r(1) this, of "pa_hashes acc"] obtain s' c' where
    b: "pushBatch conn S h (pa_bags acc) (pa_hashes acc) (pa_realm acc) (cw, s) = ((cw', s'), Ok ())" "inv s'"
      "archive s' = archive s" "queue s' = queue s"
      "uploads s' = (uploads s)(h := uploads s h - stored_hashes (pa_hashes acc) results)"
      "cursor s' = (cursor s)(h := (cursor s h)(pa_realm acc \<mapsto> c'))" by blast
  have "pushed h (set (pa_hashes acc)) s s'"
    using b s(2) by (simp add: pushed_def listed_def all_stored [OF len r(4)])
  then show ?thesis using b(1) r(2,3) False by (auto simp: push_flush_def Suc_le_eq not_less)
qed

lemma push_loop_flush:
  assumes "accepting conn room kept sealed R" "inv s" "listed h s" "acc_fine sealed R acc" "room (n + length (pa_bags acc)) cw"
  shows "\<exists>cw' s' acc' B. (if b then push_flush conn S h acc (cw, s) else ((cw, s), Ok acc)) = ((cw', s'), Ok acc')
      \<and> acc_fine sealed R acc' \<and> pushed h B s s' \<and> B \<union> set (pa_hashes acc') = set (pa_hashes acc)
      \<and> room (n + length (pa_bags acc')) cw' \<and> kept cw \<union> set (pa_bags acc) \<subseteq> kept cw' \<union> set (pa_bags acc')
      \<and> kept cw \<subseteq> kept cw'"
proof (cases b)
  case True
  from push_flush_effect [OF assms] obtain cw' s' acc' where
    "push_flush conn S h acc (cw, s) = ((cw', s'), Ok acc')" "pa_bags acc' = []" "pa_hashes acc' = []"
    "pushed h (set (pa_hashes acc)) s s'" "room n cw'" "kept cw \<union> set (pa_bags acc) \<subseteq> kept cw'" by blast
  then show ?thesis using True
    by (intro exI [of _ cw'] exI [of _ s'] exI [of _ acc'] exI [of _ "set (pa_hashes acc)"]) (simp add: acc_fine_def)
next
  case False
  then show ?thesis using pushed_refl [OF assms(2,3)] assms(4,5)
    by (intro exI [of _ cw] exI [of _ s] exI [of _ acc] exI [of _ "{}"]) simp
qed

lemma push_loop_effect:
  assumes c: "accepting conn room kept sealed R" and "set items \<subseteq> R" "inv s" "listed h s"
    and "acc_fine sealed R acc" "room (n + length items + length (pa_bags acc)) cw"
  shows "\<exists>cw' s' acc' B. push_loop conn S h limit items acc (cw, s) = ((cw', s'), Ok acc')
    \<and> acc_fine sealed R acc' \<and> pushed h B s s' \<and> B \<union> set (pa_hashes acc') = set (pa_hashes acc) \<union> rd_hash ` set items
    \<and> room (n + length (pa_bags acc')) cw' \<and> kept cw \<union> set (pa_bags acc) \<subseteq> kept cw' \<union> set (pa_bags acc')
    \<and> (\<forall>x \<in> set items. \<exists>bag \<in> kept cw' \<union> set (pa_bags acc'). sealed x bag)"
  using assms(2-)
proof (induction items arbitrary: acc cw s)
  case Nil
  then show ?case using pushed_refl [OF Nil(2,3)]
    by (intro exI [of _ cw] exI [of _ s] exI [of _ acc] exI [of _ "{}"]) simp
next
  case (Cons x items)
  let ?n = "n + length items"
  let ?b1 = "length (pa_bags acc) > 0 \<and> \<not> sameRealm (pa_realm acc) (rd_realm x)"
  have room: "room (Suc ?n + length (pa_bags acc)) cw" using Cons.prems(5) by (simp add: add.commute)
  obtain cw1 s1 a1 B1 where 1: "(if ?b1 then push_flush conn S h acc (cw, s) else ((cw, s), Ok acc)) = ((cw1, s1), Ok a1)"
      "acc_fine sealed R a1" "pushed h B1 s s1" "B1 \<union> set (pa_hashes a1) = set (pa_hashes acc)" "room (Suc ?n + length (pa_bags a1)) cw1"
      "kept cw \<union> set (pa_bags acc) \<subseteq> kept cw1 \<union> set (pa_bags a1)"
    using push_loop_flush [OF c Cons.prems(2-4) room, of ?b1] by blast
  have x: "x \<in> R" using Cons.prems(1) by simp
  obtain cw2 bag where 2: "sc_seal conn (rd_msg x) (rd_realm x) cw1 = (cw2, Ok bag)" "room (Suc ?n + length (pa_bags a1)) cw2"
      "kept cw1 \<subseteq> kept cw2" "sealed x bag"
    using accepting_seal [OF c x 1(5)] by (elim exE conjE) (rule that)
  have i1: "inv s1" "listed h s1" using 1(3) by (simp_all add: pushed_def)
  let ?b3 = "length (pa_bags a1) > 0 \<and> pa_bytes a1 + bagBytes bag > limit"
  obtain cw3 s3 a3 B3 where 3: "(if ?b3 then push_flush conn S h a1 (cw2, s1) else ((cw2, s1), Ok a1)) = ((cw3, s3), Ok a3)"
      "acc_fine sealed R a3" "pushed h B3 s1 s3" "B3 \<union> set (pa_hashes a3) = set (pa_hashes a1)" "room (Suc ?n + length (pa_bags a3)) cw3"
      "kept cw2 \<union> set (pa_bags a1) \<subseteq> kept cw3 \<union> set (pa_bags a3)"
    using push_loop_flush [OF c i1 1(2) 2(2), of ?b3] by blast
  let ?a = "\<lparr>pa_bags = pa_bags a3 @ [bag], pa_hashes = pa_hashes a3 @ [rd_hash x], pa_bytes = pa_bytes a3 + bagBytes bag,
             pa_realm = (if length (pa_bags a3) < 1 then rd_realm x else pa_realm a3)\<rparr>"
  have i3: "inv s3" "listed h s3" using 3(3) by (simp_all add: pushed_def)
  have fa: "acc_fine sealed R ?a" using 3(2) x 2(4) by (auto simp: acc_fine_def)
  have ra: "room (?n + length (pa_bags ?a)) cw3" using 3(5) by simp
  obtain cw4 s4 a4 B4 where 4: "(if pa_bytes ?a \<ge> limit then push_flush conn S h ?a (cw3, s3) else ((cw3, s3), Ok ?a)) = ((cw4, s4), Ok a4)"
      "acc_fine sealed R a4" "pushed h B4 s3 s4" "B4 \<union> set (pa_hashes a4) = set (pa_hashes ?a)" "room (?n + length (pa_bags a4)) cw4"
      "kept cw3 \<union> set (pa_bags ?a) \<subseteq> kept cw4 \<union> set (pa_bags a4)"
    using push_loop_flush [OF c i3 fa ra, of "pa_bytes ?a \<ge> limit"] by blast
  have i4: "inv s4" "listed h s4" using 4(3) by (simp_all add: pushed_def)
  have "set items \<subseteq> R" using Cons.prems(1) by simp
  from Cons.IH [OF this i4 4(2,5)] obtain cw5 s5 a5 B5 where 5: "push_loop conn S h limit items a4 (cw4, s4) = ((cw5, s5), Ok a5)"
      "acc_fine sealed R a5" "pushed h B5 s4 s5" "B5 \<union> set (pa_hashes a5) = set (pa_hashes a4) \<union> rd_hash ` set items"
      "room (n + length (pa_bags a5)) cw5" "kept cw4 \<union> set (pa_bags a4) \<subseteq> kept cw5 \<union> set (pa_bags a5)"
      "\<forall>x \<in> set items. \<exists>bag \<in> kept cw5 \<union> set (pa_bags a5). sealed x bag" by blast
  have "push_loop conn S h limit (x # items) acc (cw, s) = ((cw5, s5), Ok a5)"
    by (simp only: push_loop.simps(2) 1(1) 2(1) 3(1) 4(1) 5(1) prod.case andThenC.simps fst_conv snd_conv Let_def)
  moreover have "pushed h (B1 \<union> B3 \<union> B4 \<union> B5) s s5"
    using pushed_trans [OF pushed_trans [OF pushed_trans [OF 1(3) 3(3)] 4(3)] 5(3)] .
  moreover have "B1 \<union> B3 \<union> B4 \<union> B5 \<union> set (pa_hashes a5) = set (pa_hashes acc) \<union> rd_hash ` set (x # items)"
    using 1(4) 3(4) 4(4) 5(4) by auto
  moreover
  have k: "kept cw1 \<union> set (pa_bags a1) \<subseteq> kept cw3 \<union> set (pa_bags a3)" "kept cw3 \<union> set (pa_bags a3) \<subseteq> kept cw4 \<union> set (pa_bags a4)"
    using 2(3) 3(6) 4(6) by fastforce+
  have "kept cw \<union> set (pa_bags acc) \<subseteq> kept cw5 \<union> set (pa_bags a5)"
    by (rule subset_trans [OF 1(6) subset_trans [OF k(1) subset_trans [OF k(2) 5(6)]]])
  moreover have "bag \<in> kept cw5 \<union> set (pa_bags a5)" using 4(6) 5(6) by fastforce
  ultimately show ?case using 2(4) 5(2,5,7) by (intro exI [of _ cw5] exI [of _ s5] exI [of _ a5] exI [of _ "B1 \<union> B3 \<union> B4 \<union> B5"]) auto
qed

lemma push_ready_hashes:
  assumes "inv s"
  shows "rd_hash ` set (push_ready S (is_up_list S h s) s) = uploads s h \<inter> dom (archive s)"
proof -
  have "rd_hash ` set (push_ready S hs s) = {x \<in> set hs. is_msg_get S x s \<noteq> None}" for hs
    by (force simp: push_ready_def Let_def List.map_filter_def)
  then show ?thesis using up_list_law [OF assms, of h] get_law [OF assms] by auto
qed

lemma sync_push_effect:
  assumes c: "accepting conn room kept sealed R" and s: "inv s" "listed (hi_label host) s"
    and R: "set (push_ready S (is_up_list S (hi_label host) s) s) \<subseteq> R"
    and n: "room (n + length (push_ready S (is_up_list S (hi_label host) s) s)) cw"
  shows "\<exists>cw' s'. syncPush conn S host limit (cw, s) = ((cw', s'), Ok ()) \<and> pushed (hi_label host) (dom (archive s)) s s'
    \<and> room n cw' \<and> (\<forall>x \<in> set (push_ready S (is_up_list S (hi_label host) s) s). \<exists>bag \<in> kept cw'. sealed x bag)"
proof -
  let ?h = "hi_label host"
  let ?ready = "push_ready S (is_up_list S ?h s) s"
  let ?items = "js_sort ready_cmp ?ready"
  let ?a = "\<lparr>pa_bags = [], pa_hashes = [], pa_bytes = 0, pa_realm = nullKDM\<rparr>"
  have set: "set ?items = set ?ready" "length ?items = length ?ready"
    by simp_all
  have "set ?items \<subseteq> R" "acc_fine sealed R ?a" "room (n + length ?items + length (pa_bags ?a)) cw"
    using R n set by (simp_all add: acc_fine_def)
  from push_loop_effect [OF c this(1) s this(2,3), where limit = limit] obtain cw1 s1 a1 B where
    1: "push_loop conn S ?h limit ?items ?a (cw, s) = ((cw1, s1), Ok a1)" "acc_fine sealed R a1" "pushed ?h B s s1"
      "B \<union> set (pa_hashes a1) = set (pa_hashes ?a) \<union> rd_hash ` set ?items" "room (n + length (pa_bags a1)) cw1"
      "\<forall>x \<in> set ?items. \<exists>bag \<in> kept cw1 \<union> set (pa_bags a1). sealed x bag"
    by (elim exE conjE) (rule that)
  have "inv s1" "listed ?h s1" using 1(3) by (simp_all add: pushed_def)
  from push_flush_effect [OF c this 1(2,5)] obtain cw2 s2 a2 where
    2: "push_flush conn S ?h a1 (cw1, s1) = ((cw2, s2), Ok a2)" "pushed ?h (set (pa_hashes a1)) s1 s2" "room n cw2"
      "kept cw1 \<union> set (pa_bags a1) \<subseteq> kept cw2" by blast
  have "pushed ?h (uploads s ?h \<inter> dom (archive s)) s s2"
    using pushed_trans [OF 1(3) 2(2)] 1(4) push_ready_hashes [OF s(1), of ?h] set(1) by simp
  then have "pushed ?h (dom (archive s)) s s2" by (auto simp: pushed_def)
  moreover have "syncPush conn S host limit (cw, s) = ((cw2, s2), Ok ())"
    using 1(1) 2(1) by (simp add: syncPush_def Let_def)
  ultimately show ?thesis using 1(6) 2(3,4) unfolding set(1) by blast
qed

end

section \<open>Properties of synchronisation with the memory stores\<close>

text \<open>C9: pushing a batch never skips a bag and never forgets one. Whatever the host answers, exactly the
  hashes of the bags it reported stored leave the upload queue, and the realm's cursor moves only
  over sequence numbers that this push was assigned, as far as they follow the cursor without a gap:
  a bag of another device in between keeps the cursor before it, so that the next peek finds it.\<close>

theorem push_batch_safe:
  assumes "store_inv s" "bags \<noteq> []" "sc_push conn bags cw = (cw', Ok results)" "ms_cursor s h r = Some c"
  shows "\<exists>s' c'. pushBatch conn (memStore p) h bags hashes r (cw, s) = ((cw', s'), Ok ())
    \<and> store_inv s' \<and> ms_archive s' = ms_archive s \<and> ms_queue s' = ms_queue s
    \<and> ms_uploads s' = (ms_uploads s)(h := ms_uploads s h -
        {hashes ! nat idx |idx q. PushStored idx q \<in> set results \<and> 0 \<le> idx \<and> nat idx < length hashes})
    \<and> ms_cursor s' = (ms_cursor s)(h := (ms_cursor s h)(r \<mapsto> c'))
    \<and> c \<le> c' \<and> (\<forall>n. c < n \<and> n \<le> c' \<longrightarrow> (\<exists>idx. PushStored idx n \<in> set results))
    \<and> (\<nexists>idx. PushStored idx (c' + 1) \<in> set results)"
  using memst.push_batch_effect [OF assms, of p hashes] unfolding stored_hashes_def .

text \<open>C8: a peek loses nothing. When the host answers distinct sequence numbers, then afterwards every
  item whose head verifies, decrypts and parses is archived already or waits in the download
  queue under its head hash, tagged with the realm and the sequence number it was listed with;
  the archive is unchanged, an upload is dropped only if its message is archived here, no other
  queued download is touched, and the realm's cursor stands at the largest number seen.\<close>

theorem sync_peek_complete:
  assumes "store_inv s" "bagMgrFor (sc_client conn) r = Some bm" "client_identity (sc_client conn) = Ok idn"
    and "importVerifyKey p (bm_publicKey idn) = Ok vk"
    and "sc_peek conn (cursorOf (hr_cursor host) r) r cw = (cw', Ok items)" "distinct (map pk_seq items)"
    and "\<forall>x \<in> set items. decryptPeekItem p x vk bm \<notin> {Throw, Hang}"
  shows "\<exists>s'. syncPeek p conn (memStore p) host (Some r) (cw, s) = ((cw', s'), Ok ())
    \<and> store_inv s' \<and> ms_archive s' = ms_archive s
    \<and> (\<forall>item \<in> set items. \<forall>kdm headEnc head rest.
          decryptPeekItem p item vk bm = Ok (kdm, headEnc) \<and> messageHead_decode (Decoder headEnc) = Ok (head, rest)
          \<longrightarrow> ms_archive s (blake3_hash p headEnc) \<noteq> None
            \<or> (\<exists>d \<in> ran (ms_queue s'). dm_headEncHash d = Some (blake3_hash p headEnc) \<and> dm_host d = hi_label host
                  \<and> dm_realm d = storedRealm r \<and> dm_seq d \<in> pk_seq ` set items))
    \<and> (\<forall>k. k \<notin> (\<lambda>x. downloadKey (hi_label host) (pk_seq x) (Some r)) ` set items \<longrightarrow> ms_queue s' k = ms_queue s k)
    \<and> (\<forall>h x. x \<in> ms_uploads s h \<and> x \<notin> ms_uploads s' h \<longrightarrow> h = hi_label host \<and> ms_archive s x \<noteq> None)
    \<and> ms_cursor s' (hi_label host) r =
        map_option (\<lambda>c. if items = [] then c else max c (Max (pk_seq ` set items))) (ms_cursor s (hi_label host) r)"
proof -
  define g where "g = (\<lambda>x. case decryptPeekItem p x vk bm of
      Ok (kdm, headEnc) \<Rightarrow> PeekOk (pk_seq x) kdm headEnc (blake3_hash p headEnc) | Err st \<Rightarrow> PeekFail (pk_seq x) st
    | _ \<Rightarrow> PeekFail (pk_seq x) Success)"
  have "peek_crypto p vk bm x = Ok (g x)" if "x \<in> set items" for x
    using assms(7) that by (auto simp: peek_crypto_def g_def split: vs.splits prod.splits)
  then have c: "vs_map (peek_crypto p vk bm) items = Ok (map g items)" by (rule vs_map_Ok)
  have q: "result_seq (g x) = pk_seq x" for x by (simp add: g_def split: vs.splits prod.splits)
  then have sq: "result_seq ` set (map g items) = pk_seq ` set items" by (simp add: image_image)
  obtain s' where s': "syncPeek p conn (memStore p) host (Some r) (cw, s) = ((cw', s'), Ok ())"
      "memst.after_peek (hi_label host) r (map g items) s s'"
    using memst.sync_peek_effect [OF assms(1-6) c] by blast
  note a = s'(2) [unfolded memst.after_peek_def sq]
  have "ms_archive s (blake3_hash p headEnc) \<noteq> None
      \<or> (\<exists>d \<in> ran (ms_queue s'). dm_headEncHash d = Some (blake3_hash p headEnc) \<and> dm_host d = hi_label host
            \<and> dm_realm d = storedRealm r \<and> dm_seq d \<in> pk_seq ` set items)"
    if "item \<in> set items" "decryptPeekItem p item vk bm = Ok (kdm, headEnc)"
      "messageHead_decode (Decoder headEnc) = Ok (head, rest)" for item kdm headEnc head rest
  proof -
    have "PeekOk (pk_seq item) kdm headEnc (blake3_hash p headEnc) \<in> set (map g items)"
      using that(1,2) by (auto simp: g_def image_iff intro!: bexI [of _ item])
    with a that(3) have "blake3_hash p headEnc \<in> dom (ms_archive s) \<or>
        (\<exists>d \<in> ran (ms_queue s'). dm_headEncHash d = Some (blake3_hash p headEnc) \<and> peeked (hi_label host) r (map g items) d)"
      by blast
    moreover have "dm_seq d \<in> pk_seq ` set items" if "peeked (hi_label host) r (map g items) d" for d
    proof -
      obtain k he h where "PeekOk (dm_seq d) k he h \<in> set (map g items)" using \<open>peeked _ _ _ d\<close> unfolding peeked_def by blast
      then have "result_seq (PeekOk (dm_seq d) k he h) \<in> result_seq ` set (map g items)" by (rule imageI)
      then show ?thesis unfolding sq by simp
    qed
    ultimately show ?thesis unfolding peeked_def by blast
  qed
  then show ?thesis using s'(1) a by (intro exI [of _ s']) (auto simp: image_image)
qed

text \<open>Opening a pulled batch archives what opens and finishes every item. Each item leaves the download
  queue, whether it opened or not, and nothing else does; the archive gains exactly the opened
  messages, each under its head hash, pending, with its decrypted body and its realm's label, and
  keeps everything else; uploads and cursors are untouched.\<close>

theorem open_pulled_archives:
  assumes "store_inv s" "items \<noteq> []" "\<forall>x \<in> set items. dm_host (pd_dl x) = l \<and> open_item p mgrs x \<notin> {Throw, Hang}"
  shows "\<exists>s' opened. openPulled p (memStore p) mgrs items s = (s', Ok opened) \<and> store_inv s'
    \<and> ms_uploads s' = ms_uploads s \<and> ms_cursor s' = ms_cursor s
    \<and> ms_queue s' = (\<lambda>k. if k \<in> (\<lambda>x. downloadKey l (dm_seq (pd_dl x)) (dm_realm (pd_dl x))) ` set items then None else ms_queue s k)
    \<and> (\<forall>x \<in> set items. \<forall>key part realm. open_item p mgrs x = Ok (Some (key, part, realm)) \<longrightarrow> ms_archive s' key \<noteq> None)
    \<and> (\<forall>key. ms_archive s' key = ms_archive s key \<or>
         (\<exists>x \<in> set items. \<exists>part realm. open_item p mgrs x = Ok (Some (key, part, realm))
            \<and> ms_archive s' key = Some (msg2StoredMsgData part (Some realm))))"
proof -
  define g where "g = (\<lambda>x. case open_item p mgrs x of Ok r \<Rightarrow> r | _ \<Rightarrow> None)"
  have "open_item p mgrs x = Ok (g x)" if "x \<in> set items" for x
  proof -
    have "\<not> (\<exists>st. open_item p mgrs x = Err st)"
      by (auto simp: open_item_def Let_def split: vs.splits option.splits)
    then show ?thesis using assms(3) that by (cases "open_item p mgrs x") (auto simp: g_def)
  qed
  then have rs: "vs_map (open_item p mgrs) items = Ok (map g items)" and
    g: "\<And>x. x \<in> set items \<Longrightarrow> open_item p mgrs x = Ok (g x)" by (auto intro: vs_map_Ok)
  have h: "\<forall>x \<in> set items. dm_host (pd_dl x) = l" using assms(3) by simp
  obtain s' where s': "openPulled p (memStore p) mgrs items s =
        (s', Ok \<lparr>io_parts = map (\<lambda>(_, part, _). part) (somes (map g items)), io_hashes = map fst (somes (map g items))\<rparr>)"
      "store_inv s' \<and> ms_uploads s' = ms_uploads s \<and> ms_cursor s' = ms_cursor s
       \<and> ms_queue s' = (\<lambda>k. if k \<in> (\<lambda>x. downloadKey l (dm_seq (pd_dl x)) (dm_realm (pd_dl x))) ` set items then None else ms_queue s k)"
      "ms_archive s' = foldl (\<lambda>a m. a(st_key m \<mapsto> st_data m)) (ms_archive s) (map opened_entry (somes (map g items)))"
    using memst.open_pulled_effect [OF assms(1,2) h rs] by blast
  have upd: "foldl (\<lambda>a m. a(st_key m \<mapsto> st_data m)) f ms key = f key \<and> key \<notin> st_key ` set ms \<or>
      (\<exists>m \<in> set ms. st_key m = key \<and> foldl (\<lambda>a m. a(st_key m \<mapsto> st_data m)) f ms key = Some (st_data m))"
    for f :: "bytes \<Rightarrow> IStoredMessageData option" and ms :: "IStorableMessage list" and key
    by (induction ms rule: rev_induct) auto
  have in': "\<exists>x \<in> set items. \<exists>part realm. open_item p mgrs x = Ok (Some (st_key m, part, realm)) \<and> st_data m = msg2StoredMsgData part (Some realm)"
    if "m \<in> set (map opened_entry (somes (map g items)))" for m
    using that by (auto simp: set_somes g) (metis g)
  have got: "key \<in> st_key ` set (map opened_entry (somes (map g items)))"
    if "x \<in> set items" "open_item p mgrs x = Ok (Some (key, part, realm))" for x key part realm
  proof -
    have "(key, part, realm) \<in> set (somes (map g items))" using that g [OF that(1)] unfolding set_somes by (auto simp: image_iff intro!: bexI [of _ x])
    then show ?thesis by (force simp: image_iff)
  qed
  have arch: "ms_archive s' key = ms_archive s key \<and> key \<notin> st_key ` set (map opened_entry (somes (map g items))) \<or>
      (\<exists>m \<in> set (map opened_entry (somes (map g items))). st_key m = key \<and> ms_archive s' key = Some (st_data m))" for key
    unfolding s'(3) by (rule upd)
  have "ms_archive s' key \<noteq> None" if "x \<in> set items" "open_item p mgrs x = Ok (Some (key, part, realm))" for x key part realm
    using arch [of key] got [OF that] by auto
  moreover have "ms_archive s' key = ms_archive s key \<or>
      (\<exists>x \<in> set items. \<exists>part realm. open_item p mgrs x = Ok (Some (key, part, realm))
         \<and> ms_archive s' key = Some (msg2StoredMsgData part (Some realm)))" for key
    using arch [of key] in' by metis
  ultimately show ?thesis using s'(1,2) by blast
qed

section \<open>A concrete store and connection\<close>

definition sample_host :: IHostRow where
  "sample_host = new_row \<lparr>hi_handle = js ''h'', hi_label = js ''h'', hi_idx = None\<rparr> None"

definition sample_store :: MemoryStore where
  "sample_store = MemoryStore_new\<lparr>ss_hosts := ho_add \<lparr>hi_handle = js ''h'', hi_label = js ''h'', hi_idx = None\<rparr> (ss_hosts MemoryStore_new)\<rparr>"

definition sample_conn :: "unit SyncConn" where
  "sample_conn =
     \<lparr>sc_pull = (\<lambda>_ _ w. (w, Ok [])),
      sc_push = (\<lambda>bags w. (w, Ok (map (\<lambda>i. PushStored (int i) (int i + 1)) [0..<length bags]))),
      sc_peek = (\<lambda>_ _ w. (w, Ok [])),
      sc_seal = (\<lambda>_ _ w. (w, Ok \<lparr>bag_rlm = [], bag_sig = [], bag_kdm = [], bag_headCph = [], bag_bodyCph = []\<rparr>)),
      sc_client = sample_client\<rparr>"

lemma sample_store_inv [simp]: "store_inv sample_store"
  by (auto simp: store_inv_def sample_store_def MemoryStore_new_def keys_ok_def up_strs_def hosts_fit_def
      host_bucket_def bucket_fit_def ho_add_def new_row_def)

lemma sample_store_simps [simp]:
  "hi_label sample_host = js ''h''" "ms_cursor sample_store (js ''h'') r = Some 0" "ms_archive sample_store k = None"
  "ms_queue sample_store q = None" "ms_uploads sample_store h = {}" "map_has (ho_hosts (ss_hosts sample_store)) (js ''h'')"
  by (simp_all add: sample_store_def sample_host_def MemoryStore_new_def ms_cursor_def ms_archive_def ms_queue_def
      ms_uploads_def up_strs_def host_bucket_def bucket_cursor_def ho_add_def new_row_def)

lemma sample_peeked:
  "\<exists>item kdm vk. pk_seq item = 1 \<and> importVerifyKey toy_prims (bm_publicKey sample_bm) = Ok vk
     \<and> decryptPeekItem toy_prims item vk sample_bm = Ok (kdm, messageHead_wire (sealed_head toy_prims (sample_msg None)))"
proof -
  obtain bag where b: "seals toy_prims sample_bm (sample_msg None) bag"
    using sealBag_seals [of toy_prims sample_bm "replicate 24 1" "replicate 24 2" "sample_msg None"] sample_head_ok by auto
  have "length (messageHead_wire (sealed_head toy_prims (sample_msg None))) \<le> 100" by code_simp
  then have sh: "short (bag_headCph bag)" using b by (simp add: seals_def short_def)
  obtain vk where vk: "importVerifyKey toy_prims (bm_publicKey sample_bm) = Ok vk" using b by (auto simp: seals_def)
  from decrypt_sealed [OF b sh vk, of 1] vk show ?thesis
    by (intro exI [of _ "\<lparr>pk_seq = 1, pk_headCph = peekItemHead_wire (bag_peekHead bag)\<rparr>"] exI [of _ "bag_kdm bag"] exI [of _ vk]) simp
qed

theorem push_batch_safe_witness:
  "\<exists>s' c'. pushBatch sample_conn (memStore toy_prims) (js ''h'')
      (replicate 2 \<lparr>bag_rlm = [], bag_sig = [], bag_kdm = [], bag_headCph = [], bag_bodyCph = []\<rparr>) [[1], [2]] nullKDM ((), sample_store)
      = (((), s'), Ok ()) \<and> ms_cursor s' (js ''h'') nullKDM = Some c' \<and> 0 \<le> c'"
  using push_batch_safe [of sample_store "replicate 2 \<lparr>bag_rlm = [], bag_sig = [], bag_kdm = [], bag_headCph = [], bag_bodyCph = []\<rparr>"
      sample_conn "()" "()" "[PushStored 0 1, PushStored 1 2]" "js ''h''" nullKDM 0 toy_prims "[[1], [2]]"]
  by (auto simp: sample_conn_def numeral_2_eq_2)

theorem sync_peek_complete_witness:
  "\<exists>item s'. syncPeek toy_prims (sample_conn\<lparr>sc_peek := \<lambda>_ _ w. (w, Ok [item])\<rparr>) (memStore toy_prims) sample_host (Some nullKDM) ((), sample_store)
      = (((), s'), Ok ()) \<and> ms_cursor s' (js ''h'') nullKDM = Some 1
    \<and> (\<exists>d \<in> ran (ms_queue s'). dm_seq d = 1
          \<and> dm_headEncHash d = Some (blake3_hash toy_prims (messageHead_wire (sealed_head toy_prims (sample_msg None)))))"
proof -
  let ?w = "messageHead_wire (sealed_head toy_prims (sample_msg None))"
  obtain item kdm vk where i: "pk_seq item = 1" "importVerifyKey toy_prims (bm_publicKey sample_bm) = Ok vk"
      "decryptPeekItem toy_prims item vk sample_bm = Ok (kdm, ?w)" using sample_peeked by blast
  let ?conn = "sample_conn\<lparr>sc_peek := \<lambda>_ _ w. (w, Ok [item])\<rparr>"
  have c: "bagMgrFor (sc_client ?conn) nullKDM = Some sample_bm" "client_identity (sc_client ?conn) = Ok sample_bm"
    by (simp_all add: sample_conn_def client_identity_def)
  have d: "\<exists>hd rest. messageHead_decode (Decoder ?w) = Ok (hd, rest)"
    using messageHeadCodec.decode_ok [OF sample_head_ok(1), of "[]"] by auto
  have p: "sc_peek ?conn (cursorOf (hr_cursor sample_host) nullKDM) nullKDM () = ((), Ok [item])" by simp
  have t: "\<forall>x \<in> set [item]. decryptPeekItem toy_prims x vk sample_bm \<notin> {Throw, Hang}" using i(3) by simp
  from sync_peek_complete [OF sample_store_inv c i(2) p _ t] obtain s' where
    "syncPeek toy_prims ?conn (memStore toy_prims) sample_host (Some nullKDM) ((), sample_store) = (((), s'), Ok ())"
    "\<forall>item' \<in> set [item]. \<forall>kdm headEnc head rest.
          decryptPeekItem toy_prims item' vk sample_bm = Ok (kdm, headEnc) \<and> messageHead_decode (Decoder headEnc) = Ok (head, rest)
          \<longrightarrow> ms_archive sample_store (blake3_hash toy_prims headEnc) \<noteq> None
            \<or> (\<exists>d \<in> ran (ms_queue s'). dm_headEncHash d = Some (blake3_hash toy_prims headEnc) \<and> dm_host d = hi_label sample_host
                  \<and> dm_realm d = storedRealm nullKDM \<and> dm_seq d \<in> pk_seq ` set [item])"
    "ms_cursor s' (hi_label sample_host) nullKDM =
        map_option (\<lambda>c. if [item] = [] then c else max c (Max (pk_seq ` set [item]))) (ms_cursor sample_store (hi_label sample_host) nullKDM)"
    by auto
  then show ?thesis using i d by (intro exI [of _ item] exI [of _ s']) auto
qed

definition sample_pulled :: IPulled where
  "sample_pulled = \<lparr>pd_dl = \<lparr>dm_kdm = replicate 8 0, dm_seq = 1, dm_head = sealed_head toy_prims (sample_msg None), dm_host = js ''h'',
     dm_headEnc = None, dm_headEncHash = None, dm_realm = None\<rparr>, pd_bodyCph = None\<rparr>"

lemma open_sample:
  "open_item toy_prims [sample_bm] sample_pulled =
     Ok (Some (blake3_hash toy_prims (messageHead_wire (sealed_head toy_prims (sample_msg None))),
               \<lparr>mp_head = sealed_head toy_prims (sample_msg None), mp_body = None\<rparr>, nullKDM))"
proof -
  have h: "mh_hsh (sealed_head toy_prims (sample_msg None)) = None" by (simp add: sealed_head_def sample_msg_def)
  have r: "bm_realmKDM sample_bm = nullKDM" by (simp add: sample_bm_def)
  show ?thesis
    using messageHeadCodec.encode_ok [OF sample_head_ok(1)] messageHeadCodec.decode_ok [OF sample_head_ok(1), of "[]"]
    by (simp add: open_item_def resolveHeadEnc_def sample_pulled_def openBagBody_def h r)
qed

theorem open_pulled_archives_witness:
  "\<exists>s' opened. openPulled toy_prims (memStore toy_prims) [sample_bm] [sample_pulled] sample_store = (s', Ok opened)
     \<and> ms_archive s' (blake3_hash toy_prims (messageHead_wire (sealed_head toy_prims (sample_msg None)))) \<noteq> None"
  using open_pulled_archives [of sample_store "[sample_pulled]" "js ''h''" toy_prims "[sample_bm]"] open_sample
  by (auto simp: sample_pulled_def [THEN arg_cong, of pd_dl])

end
