(* ===== verification/SyncHost.thy ===== *)
theory SyncHost
  imports Sync
begin

text \<open>
  Synchronisation against a host: the connection that \<^verbatim>\<open>shared/client.ts\<close> gives to \<^verbatim>\<open>web/src/sync.ts\<close>,
  over local calls to a memory host, and the property that an archived message of one device
  arrives in the archive of another.
\<close>

text \<open>The methods of an API client that the phases use, with the readings of the clocks and the two nonces of a seal.\<close>

definition host_conn ::
    "prims \<Rightarrow> date \<times> date \<times> date \<Rightarrow> date \<times> date \<times> date \<Rightarrow> bytes \<Rightarrow> bytes \<Rightarrow> DiplomaticClientAPI
     \<Rightarrow> MemoryStorage local SyncConn" where
  "host_conn p clk hclk n1 n2 c =
     (let T = lpc_transport p memStorage hclk
      in \<lparr>sc_pull = client_pull p T record_meta clk c, sc_push = client_push p T record_meta clk c,
          sc_peek = client_peek p T record_meta clk c, sc_seal = (\<lambda>msg realm w. (w, client_seal p n1 n2 c msg realm)),
          sc_client = c\<rparr>)"

section \<open>One pending message, one new message\<close>

lemma sync_push_single:
  assumes "js_sort ready_cmp (push_ready S (is_up_list S (hi_label host) s) s) = [rd]"
    and "sc_seal conn (rd_msg rd) (rd_realm rd) cw = (cw1, Ok bag)"
    and "pushBatch conn S (hi_label host) [bag] [rd_hash rd] (rd_realm rd) (cw1, s) = (w', Ok ())"
  shows "syncPush conn S host limit (cw, s) = (w', Ok ())"
proof -
  let ?a = "\<lparr>pa_bags = [bag], pa_hashes = [rd_hash rd], pa_bytes = bagBytes bag, pa_realm = rd_realm rd\<rparr>"
  have f: "push_flush conn S (hi_label host) ?a (cw1, s) = (w', Ok (?a\<lparr>pa_bags := [], pa_hashes := [], pa_bytes := 0\<rparr>))"
    using assms(3) by (simp add: push_flush_def)
  have e: "push_flush conn S (hi_label host) (?a\<lparr>pa_bags := [], pa_hashes := [], pa_bytes := 0\<rparr>) w =
      (w, Ok (?a\<lparr>pa_bags := [], pa_hashes := [], pa_bytes := 0\<rparr>))" for w
    by (simp add: push_flush_def)
  show ?thesis using assms(1,2) f e by (simp add: syncPush_def Let_def)
qed

lemma sort_single [simp]: "js_sort cmp [x] = [x]"
  by (simp add: js_sort_def)

text \<open>The download that a peek makes of one new item.\<close>

definition new_download :: "jsstr \<Rightarrow> IKDM \<Rightarrow> int \<Rightarrow> bytes \<Rightarrow> bytes \<Rightarrow> bytes \<Rightarrow> IMessageHead \<Rightarrow> IDownloadMessage" where
  "new_download label realm q kdm headEnc h head =
     \<lparr>dm_kdm = kdm, dm_seq = q, dm_head = head, dm_host = label, dm_headEnc = Some headEnc, dm_headEncHash = Some h,
      dm_realm = storedRealm realm\<rparr>"

lemma sync_peek_single:
  assumes "bagMgrFor (sc_client conn) r = Some bm" "client_identity (sc_client conn) = Ok idn"
    and "importVerifyKey p (bm_publicKey idn) = Ok vk"
    and "sc_peek conn (cursorOf (hr_cursor host) r) r cw = (cw', Ok [item])"
    and "decryptPeekItem p item vk bm = Ok (kdm, headEnc)" "messageHead_decode (Decoder headEnc) = Ok (head, rest)"
    and "\<not> is_msg_has S (blake3_hash p headEnc) s"
  shows "syncPeek p conn S host (Some r) (cw, s) =
    ((cw', is_hosts_recordSeqs S (hi_label host) \<lparr>hu_lastSeq = Some (pk_seq item), hu_setLastSeq = None\<rparr> (Some r)
             (is_dn_enq S [new_download (hi_label host) r (pk_seq item) kdm headEnc (blake3_hash p headEnc) head] s)), Ok ())"
  using assms by (simp add: syncPeek_def peek_crypto_def new_download_def)

lemma batch_single: "batchByBytes [x] f limit = [[x]]"
  by (simp add: batchByBytes_def Let_def)

lemma sync_pull_single:
  assumes "filter (\<lambda>i. dm_host i = hi_label host) (is_dn_list S s) = [d]"
    and "sc_pull conn [dm_seq d] (realm_of (dm_realm d)) cw = (cw', Ok [\<lparr>pl_seq = dm_seq d, pl_bodyCph = body\<rparr>])"
    and "openPulled p S (ca_bagMgrs (sc_client conn)) [\<lparr>pd_dl = d, pd_bodyCph = Some body\<rparr>] s = (s', Ok opened)"
  shows "syncPull p conn S host limit afterOpen (cw, s) = afterOpen (cw', s')"
proof -
  have h: "dm_head d = dm_head d" ..
  have "pullBodies conn [d] cw = (cw', Ok [\<lparr>pd_dl = d, pd_bodyCph = Some body\<rparr>])"
    using assms(2) by (simp add: pullBodies_def group_realm_def Let_def List.map_filter_simps)
  then show ?thesis using assms(1,3)
    by (simp add: syncPull_def batch_single sortByHlcDesc_def open_batch_def)
qed

section \<open>Archived rows\<close>

text \<open>The message that an archived row stands for (the spread of \<^verbatim>\<open>syncPush\<close>).\<close>

definition msg_of :: "IStoredMessage \<Rightarrow> IMessage" where
  "msg_of m = IMessageHead.extend (im_head m) (IMessage.fields (im_body m))"

lemma msg_of_simps [simp]:
  "msg_bod (msg_of m) = im_body m" "mh_len (msg_of m) = mh_len (im_head m)" "head_of (msg_of m) = im_head m"
  by (cases "im_head m"; simp add: msg_of_def IMessageHead.extend_def IMessage.fields_def head_of_def)+

lemma stored_head:
  "sealed_head p (msg_of (toStoredMessage p k data True)) = im_head (toStoredMessage p k data True)"
  by (auto simp: sealed_head_def toStoredMessage_def Let_def split: option.splits)

lemma stored_len: "len_matches (msg_of (toStoredMessage p k data True))"
  by (auto simp: len_matches_def toStoredMessage_def Let_def split: option.splits)

lemma row_roundtrip:
  assumes "m = toStoredMessage p k data True" "realmLabel (Some (kdm_label realm)) = im_rlm m"
  shows "toStoredMessage p k (msg2StoredMsgData \<lparr>mp_head = im_head m, mp_body = im_body m\<rparr> (Some realm)) True =
    m\<lparr>im_apld := APLD_PENDING, im_err := None\<rparr>"
proof -
  have r: "realmLabel (realmLabel (Some (kdm_label realm))) = realmLabel (sd_rlm data)"
    using assms(2) unfolding assms(1) by (auto simp: toStoredMessage_def Let_def realmLabel_def split: option.splits)
  show ?thesis unfolding assms(1)
    by (cases "sd_off data"; cases "sd_ctr data"; cases "sd_typ data"; cases "sd_body data")
       (simp_all add: toStoredMessage_def msg2StoredMsgData_def Let_def r)
qed

lemma realmKDM_label: "realmLabel (Some (kdm_label (realmKDM (realmLabel l) rows))) = realmLabel l"
proof (cases "realmLabel l")
  case None
  then show ?thesis by (simp add: realmKDM_def nullKDM_def realmLabel_def)
next
  case (Some x)
  then have ne: "x \<noteq> []" by (auto simp: realmLabel_def split: option.splits if_splits)
  show ?thesis
  proof (cases "find (\<lambda>row. rl_label row = x) rows")
    case None
    then show ?thesis using Some ne by (simp add: realmKDM_def) (simp add: realmLabel_def)
  next
    case row: (Some row)
    then have "rl_label row = x" by (simp add: find_Some_iff) blast
    then show ?thesis using Some ne row by (simp add: realmKDM_def) (simp add: realmLabel_def)
  qed
qed

section \<open>From one archive to another\<close>

lemma mem_get_eq: "msg_get p k (ss_messages s) = map_option (\<lambda>data. toStoredMessage p k data True) (ms_archive s k)"
  by (simp add: msg_get_def ms_archive_def)

text \<open>C3: a message written on one device is readable on another after they have synchronised with the same
  host. Device A has one pending message in its archive; it pushes. Device B, of the same account,
  whose cursor stands at the end of the realm's log, peeks and pulls. Every phase succeeds, A's
  upload queue loses the message, B's download queue is empty again, and B's archive returns for
  the message's key the very row A's archive returns (head, body and realm), waiting to be applied.\<close>

theorem archive_replicates:
  assumes l: "\<And>i. linked p c bm (clk i) (hclk i)"
    and host: "ms_inv (h_storage host)" "mem_registered (h_storage host) (bm_publicKey bm)"
      "seqs_fit (\<lambda>rlm. length (mem_log (h_storage host) (bm_publicKey bm) rlm)) 1"
    and A: "store_inv sA" "map_has (ho_hosts (ss_hosts sA)) (hi_label hostA)" "up_list (hi_label hostA) (ss_uploads sA) = [k]"
      "msg_get p k (ss_messages sA) = Some m"
    and k: "k = blake3_hash p (messageHead_wire (im_head m))" "messageHead_ok (im_head m)" "im_body m \<noteq> Some []"
      "length (messageHead_wire (im_head m)) \<le> 2 ^ 32" "\<forall>b. im_body m = Some b \<longrightarrow> length b \<le> 2 ^ 32"
    and r: "bagMgrFor c (realmKDM (im_rlm m) (rl_list (ss_realms sA))) = Some rbm" "bm_ok p rbm"
      "bm_publicKey rbm = bm_publicKey bm" "bm_realmKDM rbm = realmKDM (im_rlm m) (rl_list (ss_realms sA))"
    and n: "length n1 = 24" "length n2 = 24"
    and B: "store_inv sB" "msg_get p k (ss_messages sB) = None" "ss_downloads sB = []"
      "cursorOf (hr_cursor hostB) (bm_realmKDM rbm) = int (length (mem_log (h_storage host) (bm_publicKey bm) (bm_rlm rbm)))"
  defines "conn \<equiv> \<lambda>i. host_conn p (clk i) (hclk i) n1 n2 c"
  shows "\<exists>w1 sA' w2 sB1 w3 sB'. syncPush (conn 0) (memStore p) hostA limit ((host, []), sA) = ((w1, sA'), Ok ())
    \<and> up_list (hi_label hostA) (ss_uploads sA') = []
    \<and> syncPeek p (conn 1) (memStore p) hostB (Some (bm_realmKDM rbm)) (w1, sB) = ((w2, sB1), Ok ())
    \<and> syncPull p (conn 2) (memStore p) hostB limit' afterOpen (w2, sB1) = afterOpen (w3, sB')
    \<and> ss_downloads sB' = []
    \<and> msg_get p k (ss_messages sB') = Some (m\<lparr>im_apld := APLD_PENDING, im_err := None\<rparr>)"
proof -
  let ?S = "memStore p" and ?L = "mem_log (h_storage host) (bm_publicKey bm) (bm_rlm rbm)" and ?r = "bm_realmKDM rbm"
  define q where "q = int (length ?L) + 1"
  have p: "prims_ok p" using l by (simp add: linked_def)
  obtain data where data: "ms_archive sA k = Some data" "m = toStoredMessage p k data True"
    using A(4) unfolding mem_get_eq by auto
  have hd: "sealed_head p (msg_of m) = im_head m" "len_matches (msg_of m)"
    unfolding data(2) by (rule stored_head stored_len)+
  have ok: "messageHead_ok (sealed_head p (msg_of m))" using k(2) hd(1) by simp
  obtain bag where bag: "sealBag p n1 n2 (msg_of m) rbm = Ok bag" "seals p rbm (msg_of m) bag"
    by (rule sealBag_seals [OF p r(2) n ok])
  have rlm: "bag_rlm bag = bm_rlm rbm" "length (bm_rlm rbm) = 32" using bag(2) by (auto simp: seals_def)
  obtain vk where vk: "importVerifyKey p (bm_publicKey bm) = Ok vk" using bag(2) r(3) by (auto simp: seals_def)
  have sh: "short (bag_headCph bag)" "short (bag_bodyCph bag)"
    using bag(2) k(4,5) hd(1) unfolding seals_def short_def by (auto split: option.splits)
  have bok: "list_all bag_ok [bag]" using seals_bag_ok [OF bag(2) sh] by simp
  have st: "list_all storable [bag]"
    using bag(2) k(4) hd(1) by (simp add: storable_def short_def seals_def peekItemHead_wire_def varbytes_wire_def
        bag_peekHead_def) (use length_varint_wire [of "int (length (bag_headCph bag))"] in \<open>auto simp: seals_def\<close>)
  have sv: "bagSigValid p bag vk" using accepted_own [OF bag(2)] vk r(3) by simp
  \<comment> \<open>A pushes.\<close>
  obtain h1 m1 where w1: "client_push p (lpc_transport p memStorage (hclk 0)) record_meta (clk 0) c [bag] (host, []) = ((h1, [m1]), Ok [PushStored 0 q])"
      "ms_inv (h_storage h1)" "mem_registered (h_storage h1) (bm_publicKey bm)"
      "mem_log (h_storage h1) (bm_publicKey bm) (bm_rlm rbm) = ?L @ [entry_of bag]"
    using local_push [OF l, of "(host, [])" "[bag]" vk 0] host bok st vk sv rlm push_items_own [OF sv]
    by (auto simp: appended_def valid_rlm_def q_def)
  define rd where "rd = \<lparr>rd_hash = k, rd_realm = ?r, rd_msg = msg_of m\<rparr>"
  have ready: "js_sort ready_cmp (push_ready ?S (is_up_list ?S (hi_label hostA) sA) sA) = [rd]"
    using A(3,4) r(4) by (simp add: memStore_def push_ready_def List.map_filter_simps msg_of_def rd_def)
  have seal: "sc_seal (conn 0) (rd_msg rd) (rd_realm rd) (host, []) = ((host, []), Ok bag)"
    using r(1,4) bag(1) by (simp add: conn_def host_conn_def Let_def client_seal_def rd_def)
  have push: "sc_push (conn 0) [bag] (host, []) = ((h1, [m1]), Ok [PushStored 0 q])"
    using w1(1) by (simp add: conn_def host_conn_def Let_def)
  obtain cu where "ms_cursor sA (hi_label hostA) ?r = Some cu" using A(2) by (simp add: ms_cursor_def)
  from memst.push_batch_effect [OF A(1) _ push this, of p "[k]"] obtain sA' where
    sA': "pushBatch (conn 0) ?S (hi_label hostA) [bag] [k] ?r ((host, []), sA) = (((h1, [m1]), sA'), Ok ())" "store_inv sA'"
      "ms_uploads sA' = (ms_uploads sA)(hi_label hostA := ms_uploads sA (hi_label hostA) - {k})" by auto
  have "syncPush (conn 0) ?S hostA limit ((host, []), sA) = (((h1, [m1]), sA'), Ok ())"
    by (rule sync_push_single [OF ready seal]) (use sA'(1) in \<open>simp add: rd_def\<close>)
  moreover have "up_list (hi_label hostA) (ss_uploads sA') = []"
  proof -
    have "ms_uploads sA (hi_label hostA) = {k}" using memst.up_list_law [OF A(1), of p "hi_label hostA"] A(3) by (simp add: memStore_def)
    then show ?thesis using memst.up_list_law [OF sA'(2), of p "hi_label hostA"] sA'(3) by (simp add: memStore_def)
  qed
  \<comment> \<open>B peeks.\<close>
  moreover
  have "int (length ?L) + 1 \<le> 2 ^ 53" using host(3) unfolding seqs_fit_def by (metis of_nat_1)
  then have qn: "is_num q" "is_num (q - 1)" unfolding q_def by (auto intro: is_num_safe)
  have pk: "heads_after (q - 1) (?L @ [entry_of bag]) = [\<lparr>pk_seq = q, pk_headCph = peekItemHead_wire (bag_peekHead bag)\<rparr>]"
    using heads_after_last [of ?L "entry_of bag"] by (simp add: q_def entry_of_def)
  obtain m2 where w2: "client_peek p (lpc_transport p memStorage (hclk 1)) record_meta (clk 1) c (q - 1) ?r (h1, [m1]) =
      ((h1, [m1, m2]), Ok [\<lparr>pk_seq = q, pk_headCph = peekItemHead_wire (bag_peekHead bag)\<rparr>])"
    using local_peek [OF l, of "(h1, [m1])" ?r rbm "q - 1" 1] w1(2-4) r(1,4) rlm qn st pk
    by (auto simp: peekItem_ok_def storable_def)
  let ?w = "messageHead_wire (im_head m)"
  let ?d = "new_download (hi_label hostB) ?r q (bag_kdm bag) ?w k (im_head m)"
  have vk': "importVerifyKey p (bm_publicKey rbm) = Ok vk" using vk r(3) by simp
  have dec: "decryptPeekItem p \<lparr>pk_seq = q, pk_headCph = peekItemHead_wire (bag_peekHead bag)\<rparr> vk rbm = Ok (bag_kdm bag, ?w)"
    using decrypt_sealed [OF bag(2) sh(1) vk', of q] hd(1) by simp
  obtain rest where hdec: "messageHead_decode (Decoder ?w) = Ok (im_head m, rest)"
    using messageHeadCodec.decode_ok [OF k(2), of "[]"] by auto
  define sB1 where "sB1 = is_hosts_recordSeqs ?S (hi_label hostB) \<lparr>hu_lastSeq = Some q, hu_setLastSeq = None\<rparr> (Some ?r) (is_dn_enq ?S [?d] sB)"
  have conn1: "sc_client (conn i) = c" for i by (simp add: conn_def host_conn_def Let_def)
  have nohas: "\<not> is_msg_has ?S (blake3_hash p ?w) sB"
    using B(2) unfolding k(1) [symmetric] by (simp add: memStore_def msg_has_def msg_get_def)
  have pk1: "sc_peek (conn 1) (cursorOf (hr_cursor hostB) ?r) ?r (h1, [m1]) =
      ((h1, [m1, m2]), Ok [\<lparr>pk_seq = q, pk_headCph = peekItemHead_wire (bag_peekHead bag)\<rparr>])"
    using w2 B(4) by (simp add: conn_def host_conn_def Let_def q_def)
  have mgr: "bagMgrFor (sc_client (conn 1)) ?r = Some rbm" "client_identity (sc_client (conn 1)) = Ok bm"
    using r(1,4) l [of 0] by (simp_all add: conn1 linked_def)
  have "syncPeek p (conn 1) ?S hostB (Some ?r) ((h1, [m1]), sB) = (((h1, [m1, m2]), sB1), Ok ())"
    using sync_peek_single [where S = ?S and host = hostB, OF mgr vk pk1 dec hdec nohas]
    by (simp add: sB1_def k(1) [symmetric])
  \<comment> \<open>B pulls and opens.\<close>
  moreover
  have pl: "bodies_at [q] (?L @ [entry_of bag]) = [(q, bag_bodyCph bag)]"
    using bodies_at_last [of ?L "entry_of bag"] by (simp add: q_def entry_of_def)
  obtain m3 where w3: "client_pull p (lpc_transport p memStorage (hclk 2)) record_meta (clk 2) c [q] ?r (h1, [m1, m2]) =
      ((h1, [m1, m2, m3]), Ok [\<lparr>pl_seq = q, pl_bodyCph = bag_bodyCph bag\<rparr>])"
    using local_pull [OF l, of "(h1, [m1, m2])" ?r rbm "[q]" 2] w1(2-4) r(1,4) rlm qn sh pl
    by (auto simp: pullItem_ok_def)
  have dreal: "realm_of (dm_realm ?d) = ?r" by (simp add: new_download_def storedRealm_def nullKDM_def isDefaultRealm_def)
  have dq: "ss_downloads sB1 = [(downloadKey (hi_label hostB) q (dm_realm ?d), ?d)]"
    using B(3) by (simp add: sB1_def memStore_def dn_enq_def new_download_def)
  have inv1: "store_inv sB1" unfolding sB1_def
    using memst.seqs_law [OF _ seqs_fine_touch] memst.enq_law B(1) by blast
  have arch1: "ms_archive sB1 = ms_archive sB"
    unfolding sB1_def using memst.seqs_law [OF _ seqs_fine_touch] memst.enq_law B(1) by metis
  let ?x = "\<lparr>pd_dl = ?d, pd_bodyCph = Some (bag_bodyCph bag)\<rparr>"
  have body: "case im_body m of None \<Rightarrow> bag_bodyCph bag = [] \<and> mh_hsh (im_head m) = None
      | Some b \<Rightarrow> bag_bodyCph bag \<noteq> [] \<and> bm_decrypt p rbm (bag_kdm bag) (bag_bodyCph bag) = Ok b \<and> mh_hsh (im_head m) = Some (blake3_hash p b)"
    using bag(2) hd k(3) unfolding hd(1) [symmetric]
    by (cases "im_body m") (auto simp: seals_def sealed_head_def len_matches_def)
  have find: "find (\<lambda>bagMgr. kdmEq ?r (bm_realmKDM bagMgr)) (ca_bagMgrs c) = Some rbm"
    using r(1,4) by (simp add: bagMgrFor_def)
  have item: "open_item p (ca_bagMgrs c) ?x = Ok (Some (k, \<lparr>mp_head = im_head m, mp_body = im_body m\<rparr>, ?r))"
    using find dreal openBagBody_sealed [where bod = "im_body m" and known = "Some k" and bodyCph = "bag_bodyCph bag"
        and decrypt = "bm_decrypt p rbm (bag_kdm bag)", OF k(2) body]
    by (simp add: open_item_def resolveHeadEnc_def new_download_def Let_def)
  have hb: "\<forall>x \<in> set [?x]. dm_host (pd_dl x) = hi_label hostB" by (simp add: new_download_def)
  have rs: "vs_map (open_item p (ca_bagMgrs c)) [?x] = Ok [Some (k, \<lparr>mp_head = im_head m, mp_body = im_body m\<rparr>, ?r)]"
    using item by simp
  from memst.open_pulled_effect [OF inv1 _ hb rs, of p] obtain sB' opened where
    sB': "openPulled p ?S (ca_bagMgrs c) [?x] sB1 = (sB', Ok opened)" "store_inv sB'"
      "ms_queue sB' = (\<lambda>k. if k \<in> (\<lambda>x. downloadKey (hi_label hostB) (dm_seq (pd_dl x)) (dm_realm (pd_dl x))) ` set [?x]
                            then None else ms_queue sB1 k)"
      "ms_archive sB' = (ms_archive sB1)(k \<mapsto> msg2StoredMsgData \<lparr>mp_head = im_head m, mp_body = im_body m\<rparr> (Some ?r))"
    by auto
  have pull: "sc_pull (conn 2) [dm_seq ?d] (realm_of (dm_realm ?d)) (h1, [m1, m2]) =
      ((h1, [m1, m2, m3]), Ok [\<lparr>pl_seq = dm_seq ?d, pl_bodyCph = bag_bodyCph bag\<rparr>])"
    unfolding dreal using w3 by (simp add: conn_def host_conn_def Let_def new_download_def)
  have filt: "filter (\<lambda>i. dm_host i = hi_label hostB) (is_dn_list ?S sB1) = [?d]"
    using dq by (simp add: memStore_def dn_list_def new_download_def)
  have "syncPull p (conn 2) ?S hostB limit' afterOpen ((h1, [m1, m2]), sB1) = afterOpen ((h1, [m1, m2, m3]), sB')"
    by (rule sync_pull_single [OF filt pull]) (use sB'(1) in \<open>simp add: conn1\<close>)
  moreover have "ss_downloads sB' = []"
  proof -
    have "ms_queue sB' = (\<lambda>k. None)"
      unfolding sB'(3) using dq by (auto simp: ms_queue_def fun_eq_iff new_download_def)
    then show ?thesis
      using sB'(2) unfolding store_inv_def ms_queue_def by (metis map_of_eq_empty_iff)
  qed
  moreover have "msg_get p k (ss_messages sB') = Some (m\<lparr>im_apld := APLD_PENDING, im_err := None\<rparr>)"
  proof -
    have "realmLabel (Some (kdm_label ?r)) = im_rlm m"
      unfolding r(4) using realmKDM_label by (simp add: data(2) toStoredMessage_def Let_def)
    from row_roundtrip [OF data(2) this] show ?thesis unfolding mem_get_eq sB'(4) by simp
  qed
  ultimately show ?thesis by blast
qed

section \<open>A whole upload\<close>












section \<open>A concrete run\<close>

abbreviation sample_body :: IMessage where
  "sample_body \<equiv> sample_msg (Some [7])"

definition sample_key :: bytes where
  "sample_key = blake3_hash toy_prims (messageHead_wire (sealed_head toy_prims sample_body))"

definition sample_row :: IStoredMessageData where
  "sample_row = msg2StoredMsgData \<lparr>mp_head = sealed_head toy_prims sample_body, mp_body = Some [7]\<rparr> None"

definition writer_store :: MemoryStore where
  "writer_store = sample_store\<lparr>ss_messages := [(btob64 sample_key, sample_row)], ss_uploads := [(js ''h'', [btoh sample_key])]\<rparr>"

definition sample_stored :: IStoredMessage where
  "sample_stored = toStoredMessage toy_prims sample_key sample_row True"

lemma sample_stored_simps:
  "im_head sample_stored = sealed_head toy_prims sample_body" "im_body sample_stored = Some [7]" "im_rlm sample_stored = None"
  by (simp_all add: sample_stored_def toStoredMessage_def sample_row_def msg2StoredMsgData_def sealed_head_def head_of_def
      sample_msg_def realmLabel_def)

abbreviation sample_start :: "MemoryStorage Host" where
  "sample_start \<equiv> \<lparr>h_storage = \<lparr>ms_users = [btoh (replicate 32 4)], ms_bag = []\<rparr>, h_pushes = []\<rparr>"

lemma sample_run:
  "ms_inv (h_storage sample_start)" "mem_registered (h_storage sample_start) (bm_publicKey sample_bm)"
  "mem_log (h_storage sample_start) pk rlm = []"
  "seqs_fit (\<lambda>rlm. length (mem_log (h_storage sample_start) (bm_publicKey sample_bm) rlm)) 1"
  by (simp_all add: ms_inv_def mem_registered_def sample_bm_def mem_log_def seqs_fit_def)

lemma writer_facts:
  "store_inv writer_store" "map_has (ho_hosts (ss_hosts writer_store)) (hi_label sample_host)"
  "up_list (hi_label sample_host) (ss_uploads writer_store) = [sample_key]"
  "msg_get toy_prims sample_key (ss_messages writer_store) = Some sample_stored" "ss_realms writer_store = []"
proof -
  have st: "ss_hosts writer_store = ss_hosts sample_store" "ss_downloads writer_store = ss_downloads sample_store"
    by (simp_all add: writer_store_def)
  show "store_inv writer_store"
    using sample_store_inv unfolding store_inv_def st
    by (auto simp: writer_store_def keys_ok_def up_strs_def sample_store_def MemoryStore_new_def)
  show "map_has (ho_hosts (ss_hosts writer_store)) (hi_label sample_host)" using st(1) by simp
  show "up_list (hi_label sample_host) (ss_uploads writer_store) = [sample_key]"
    by (simp add: writer_store_def up_list_def List.map_filter_simps htob_btoh)
  show "msg_get toy_prims sample_key (ss_messages writer_store) = Some sample_stored"
    by (simp add: writer_store_def msg_get_def sample_stored_def)
  show "ss_realms writer_store = []" by (simp add: writer_store_def sample_store_def MemoryStore_new_def)
qed

lemma sample_send:
  "messageHead_ok (im_head sample_stored)" "length (messageHead_wire (im_head sample_stored)) \<le> 2 ^ 32"
  "\<forall>b. im_body sample_stored = Some b \<longrightarrow> length b \<le> 2 ^ 32"
  "realmKDM (im_rlm sample_stored) (rl_list (ss_realms writer_store)) = nullKDM" "bm_realmKDM sample_bm = nullKDM"
  using sample_head_len by (simp_all add: sample_stored_simps realmKDM_def) (simp add: sample_bm_def)

theorem archive_replicates_witness:
  "\<exists>w1 sA' w2 sB1 w3 sB'.
     let conn = host_conn toy_prims (Some 5, Some 5, Some 9) (Some 7, Some 7, Some 8) (replicate 24 1) (replicate 24 2) sample_client;
         host = \<lparr>h_storage = \<lparr>ms_users = [btoh (replicate 32 4)], ms_bag = []\<rparr>, h_pushes = []\<rparr>
     in syncPush conn (memStore toy_prims) sample_host 100 ((host, []), writer_store) = ((w1, sA'), Ok ())
      \<and> syncPeek toy_prims conn (memStore toy_prims) sample_host (Some nullKDM) (w1, sample_store) = ((w2, sB1), Ok ())
      \<and> syncPull toy_prims conn (memStore toy_prims) sample_host 100 (\<lambda>w. (w, Ok ())) (w2, sB1) = ((w3, sB'), Ok ())
      \<and> msg_get toy_prims sample_key (ss_messages sB') = Some (sample_stored\<lparr>im_apld := APLD_PENDING, im_err := None\<rparr>)"
proof -
  have st: "ss_messages sample_store = []" "ss_downloads sample_store = []" by (simp_all add: sample_store_def MemoryStore_new_def)
  have key: "sample_key = blake3_hash toy_prims (messageHead_wire (im_head sample_stored))" "im_body sample_stored \<noteq> Some []"
    by (simp_all add: sample_stored_simps sample_key_def)
  have r: "bagMgrFor sample_client (realmKDM (im_rlm sample_stored) (rl_list (ss_realms writer_store))) = Some sample_bm"
    "bm_realmKDM sample_bm = realmKDM (im_rlm sample_stored) (rl_list (ss_realms writer_store))"
    unfolding sample_send(4) by (simp_all add: sample_send(5))
  have getB: "msg_get toy_prims sample_key (ss_messages sample_store) = None" by (simp add: msg_get_def st)
  have cu: "cursorOf (hr_cursor sample_host) (bm_realmKDM sample_bm) =
      int (length (mem_log (h_storage sample_start) (bm_publicKey sample_bm) (bm_rlm sample_bm)))"
    by (simp add: mem_log_def sample_host_def new_row_def cursorOf_def sample_send(5))
  show ?thesis
    using archive_replicates [where clk = "\<lambda>_. (Some 5, Some 5, Some 9)" and hclk = "\<lambda>_. (Some 7, Some 7, Some 8)"
        and limit = 100 and limit' = 100 and afterOpen = "\<lambda>w. (w, Ok ())",
        OF linked_sample sample_run(1,2,4) writer_facts(1-4) key(1) sample_send(1) key(2) sample_send(2,3) r(1) sample_bm_ok refl r(2)
          length_replicate [of 24 1] length_replicate [of 24 2] sample_store_inv getB st(2) cu]
    unfolding Let_def sample_send(5) by auto
qed


end
