(* ===== verification/Client.thy ===== *)
theory Client
  imports Sync
begin

text \<open>
  The sync client (\<^verbatim>\<open>web/src/client.ts\<close>) over any store, application state and connections: writing
  and applying messages, healing the apply queue, updates with clock skew, rebuilding, synchronising
  with every host, linking hosts. Operations run one after the other; the chain that serialises the
  archive writes of overlapping calls keeps them so in the code. A reading of the clock and random
  bytes are arguments; listeners of the client's own state and progress are left out, and so is
  the host metadata (clock offset, quota) that a response carries, which no operation here reads. The properties put the memory store and the memory database under the client.
\<close>

section \<open>Applying messages\<close>

text \<open>What applying works on: the store and the state manager.\<close>

type_synonym ('s, 'e) core = "'s \<times> 'e StateManager"
type_synonym 'e applier = "'e \<Rightarrow> IOp list \<Rightarrow> 'e \<times> ApplyResult"

definition msgsFromParts :: "IMsgParts list \<Rightarrow> IMessage list" where
  "msgsFromParts parts = map (\<lambda>x. IMessageHead.extend (mp_head x) (IMessage.fields (mp_body x))) parts"

text \<open>\<open>stats[i]\<close> beyond the array is \<open>undefined\<close>.\<close>

definition stat_at :: "status option list \<Rightarrow> nat \<Rightarrow> status option" where
  "stat_at stats i = (if i < length stats then stats ! i else None)"

definition applied_stat :: "status option \<Rightarrow> bool" where
  "applied_stat st = (st = Some Success \<or> st = Some NoChange)"

definition markApplyStats :: "'s IStore \<Rightarrow> bytes list \<Rightarrow> status option list \<Rightarrow> 's \<Rightarrow> 's" where
  "markApplyStats S keys stats s =
     (let rows = zip keys (map (stat_at stats) [0..<length keys]);
          dne = map fst (filter (\<lambda>(_, st). applied_stat st) rows);
          failed = List.map_filter (\<lambda>(key, st). case st of
              None \<Rightarrow> None
            | Some st \<Rightarrow> if \<not> applied_stat (Some st) \<and> isTerminalApplyFailure st then Some (key, st) else None) rows;
          s = (if length dne > 0 then is_msg_markApplied S dne s else s)
      in if length failed > 0 then is_msg_markFailed S failed s else s)"

definition applyStored ::
    "'s IStore \<Rightarrow> 'e applier \<Rightarrow> IStoredMessage list \<Rightarrow> ('s, 'e) core \<Rightarrow> ('s, 'e) core \<times> status option list vs" where
  "applyStored S A stored c =
     (if length stored < 1 then (c, Ok [])
      else case sm_apply A (map (\<lambda>m. IMessageHead.extend (im_head m) (IMessage.fields (im_body m))) stored) (snd c) of
        (sm, r) \<Rightarrow> andThenC r (fst c, sm) (\<lambda>stats.
          ((markApplyStats S (map im_hash stored) stats (fst c), sm), Ok stats)))"

definition drainApplyQueue :: "'s IStore \<Rightarrow> 'e applier \<Rightarrow> ('s, 'e) core \<Rightarrow> ('s, 'e) core \<times> status option list vs" where
  "drainApplyQueue S A c =
     (let pending = is_msg_list S (Some APLD_PENDING) (fst c)
      in if length pending < 1 then (c, Ok [])
         else applyStored S A (sortByHlcDesc pending im_head) c)"

definition applyHashes ::
    "'s IStore \<Rightarrow> 'e applier \<Rightarrow> bytes list \<Rightarrow> ('s, 'e) core \<Rightarrow> ('s, 'e) core \<times> status list vs" where
  "applyHashes S A hashes c =
     (let loaded = List.map_filter (\<lambda>h. is_msg_get S h (fst c)) hashes
      in case applyStored S A loaded c of
           (c, r) \<Rightarrow> andThenC r c (\<lambda>applied.
             let byHash = foldl (\<lambda>byHash i. map_set (btob64 (im_hash (loaded ! i)))
                     (case stat_at applied i of None \<Rightarrow> InternalError | Some st \<Rightarrow> st) byHash) [] [0..<length loaded]
             in (c, Ok (map (\<lambda>h. case map_get byHash (btob64 h) of None \<Rightarrow> NotFound | Some st \<Rightarrow> st) hashes))))"

section \<open>Writing messages\<close>

record ApplyOptions =
  ao_enqueueUpload :: bool
  ao_triggerUpload :: bool
  ao_realm :: "IKDM option"

definition defaultApplyOptions :: ApplyOptions where
  "defaultApplyOptions = \<lparr>ao_enqueueUpload = True, ao_triggerUpload = True, ao_realm = None\<rparr>"

text \<open>The key and the row of each part; the status of encoding the head is not looked at.\<close>

definition storables :: "prims \<Rightarrow> IKDM option \<Rightarrow> IMsgParts list \<Rightarrow> IStorableMessage list vs" where
  "storables p realm parts =
     vs_map (\<lambda>part.
       case messageHead_encode Encoder (mp_head part) of
         (Throw, _) \<Rightarrow> Throw | (Hang, _) \<Rightarrow> Hang
       | (_, enc) \<Rightarrow> Ok \<lparr>st_key = blake3_hash p (enc_result enc), st_data = msg2StoredMsgData part realm\<rparr>) parts"

text \<open>
  The second component of the result is whether a sync was scheduled. The state manager has been
  handed the messages before; its answer \<open>applyP\<close> is looked at after the archive is written.
\<close>

definition doApply ::
    "prims \<Rightarrow> 's IStore \<Rightarrow> IMsgParts list \<Rightarrow> ApplyOptions \<Rightarrow> status option list vs \<Rightarrow> 's
     \<Rightarrow> ('s \<times> bool) \<times> status option list vs" where
  "doApply p S parts options applyP s =
     andThenC (storables p (ao_realm options) parts) (s, False) (\<lambda>rows.
     let hashes = map st_key rows; s = fst (is_msg_add S rows s)
     in case deqDownloadsForHeadHashes p S hashes s of
          (s, r) \<Rightarrow> andThenC r (s, False) (\<lambda>_.
     andThenC applyP (s, False) (\<lambda>stats.
     let s = markApplyStats S hashes stats s;
         toUpload = map fst (filter (\<lambda>(_, st). applied_stat st) (zip hashes (map (stat_at stats) [0..<length hashes])));
         s = (if ao_enqueueUpload options \<and> length toUpload > 0
              then foldl (\<lambda>s host. is_up_enq S (hi_label host) toUpload s) s (is_hosts_list S s) else s)
     in ((s, ao_triggerUpload options), Ok stats))))"

definition client_apply ::
    "prims \<Rightarrow> 's IStore \<Rightarrow> 'e applier \<Rightarrow> IMsgParts list \<Rightarrow> ApplyOptions \<Rightarrow> ('s, 'e) core
     \<Rightarrow> (('s, 'e) core \<times> bool) \<times> status option list vs" where
  "client_apply p S A parts options c =
     (case sm_apply A (msgsFromParts parts) (snd c) of
        (sm, applyP) \<Rightarrow>
          (case doApply p S parts options applyP (fst c) of
             ((s, sched), r) \<Rightarrow> (((s, sm), sched), r)))"

text \<open>One message, as \<^verbatim>\<open>insertRaw\<close> and the updates write it: the head, or the status of the only part.\<close>

definition apply_head ::
    "prims \<Rightarrow> 's IStore \<Rightarrow> 'e applier \<Rightarrow> IMsgParts \<Rightarrow> ('s, 'e) core \<Rightarrow> (('s, 'e) core \<times> bool) \<times> IMessageHead vs" where
  "apply_head p S A part c =
     (case client_apply p S A [part] defaultApplyOptions c of
        (c, r) \<Rightarrow> andThenC r c (\<lambda>stats.
          let st = stat_at stats 0
          in if \<not> applied_stat st then (c, Err (case st of None \<Rightarrow> InternalError | Some s \<Rightarrow> s))
             else (c, Ok (mp_head part))))"

text \<open>
  A head whose \<open>off\<close> is NaN cannot be encoded: writing the archive throws. (What the state makes of
  such a message before that is not modelled.)
\<close>

fun head_or_throw :: "'a option \<Rightarrow> 'a vs" where
  "head_or_throw None = Throw"
| "head_or_throw (Some h) = Ok h"

definition insertRaw ::
    "prims \<Rightarrow> 's IStore \<Rightarrow> 'e applier \<Rightarrow> bytes \<Rightarrow> date \<Rightarrow> bytes \<Rightarrow> jsstr \<Rightarrow> ('s, 'e) core
     \<Rightarrow> (('s, 'e) core \<times> bool) \<times> IMessageHead vs" where
  "insertRaw p S A rnd now bod typ c =
     andThenC (genInsertHead p rnd now bod typ) (c, False) (\<lambda>head.
     andThenC (head_or_throw head) (c, False) (\<lambda>head.
     apply_head p S A \<lparr>mp_head = head, mp_body = Some bod\<rparr> c))"

definition makeUpdate :: "prims \<Rightarrow> date \<Rightarrow> IEntRev \<Rightarrow> bytes option \<Rightarrow> jsstr \<Rightarrow> IMsgParts vs" where
  "makeUpdate p now prior bod typ =
     (if date_less now (rev_updatedAt prior) then Err ClockOutOfSync
      else andThen (genUpsertHead p now (rev_eid prior) (rev_ctr prior + 1) typ bod) (\<lambda>head.
           andThen (head_or_throw head) (\<lambda>head. Ok \<lparr>mp_head = head, mp_body = bod\<rparr>)))"

definition updateWithSkew ::
    "prims \<Rightarrow> 's IStore \<Rightarrow> 'e applier \<Rightarrow> date \<Rightarrow> IEntRev \<Rightarrow> bytes option \<Rightarrow> bool \<Rightarrow> jsstr \<Rightarrow> ('s, 'e) core
     \<Rightarrow> (('s, 'e) core \<times> bool) \<times> IMessageHead vs" where
  "updateWithSkew p S A now prior bod force typ c =
     (if force = False then ((c, False), Err ClockOutOfSync)
      else
        andThenC (eid_decode (Decoder (rev_eid prior))) (c, False) (\<lambda>(eidDec, _).
        andThenC (head_or_throw (date_diff (rev_updatedAt prior) (eid_ts eidDec))) (c, False) (\<lambda>priorOff.
        let delHead = \<lparr>mh_typ = Some [], mh_eid = rev_eid prior, mh_off = priorOff + 1, mh_ctr = rev_ctr prior + 1,
                       mh_len = 0, mh_hsh = None\<rparr>
        in case apply_head p S A \<lparr>mp_head = delHead, mp_body = None\<rparr> c of
             ((c, sched), r) \<Rightarrow> andThenC r (c, sched) (\<lambda>_.
               case bod of
                 None \<Rightarrow> ((c, sched), Ok delHead)
               | Some bod \<Rightarrow>
                   andThenC (makeEID \<lparr>eid_id = eid_id eidDec, eid_ts = now\<rparr>) (c, sched) (\<lambda>replEID.
                   andThenC (genUpsertHead p now replEID 0 typ (Some bod)) (c, sched) (\<lambda>repl.
                   andThenC (head_or_throw repl) (c, sched) (\<lambda>repl.
                   case apply_head p S A \<lparr>mp_head = repl, mp_body = Some bod\<rparr> c of
                     ((c, sched'), r) \<Rightarrow> ((c, sched \<or> sched'), r))))))))"

text \<open>The clock is read once to choose the path and once more to stamp the message.\<close>

definition updateRaw ::
    "prims \<Rightarrow> 's IStore \<Rightarrow> 'e applier \<Rightarrow> date \<Rightarrow> date \<Rightarrow> IEntRev \<Rightarrow> bytes option \<Rightarrow> bool \<Rightarrow> jsstr \<Rightarrow> ('s, 'e) core
     \<Rightarrow> (('s, 'e) core \<times> bool) \<times> IMessageHead vs" where
  "updateRaw p S A now now' prior bod force typ c =
     (if date_less now (rev_updatedAt prior) then updateWithSkew p S A now' prior bod force typ c
      else andThenC (makeUpdate p now' prior bod typ) (c, False) (\<lambda>parts. apply_head p S A parts c))"

definition client_insert ::
    "prims \<Rightarrow> 's IStore \<Rightarrow> 'e applier \<Rightarrow> bytes \<Rightarrow> date \<Rightarrow> IMsgEntBody \<Rightarrow> jsstr \<Rightarrow> ('s, 'e) core
     \<Rightarrow> (('s, 'e) core \<times> bool) \<times> IMessageHead vs" where
  "client_insert p S A rnd now ent typ c =
     andThenC (encodeEnt ent) (c, False) (\<lambda>bod. insertRaw p S A rnd now bod typ c)"

definition client_update ::
    "prims \<Rightarrow> 's IStore \<Rightarrow> 'e applier \<Rightarrow> date \<Rightarrow> date \<Rightarrow> IEntRev \<Rightarrow> IMsgEntBody \<Rightarrow> bool \<Rightarrow> jsstr \<Rightarrow> ('s, 'e) core
     \<Rightarrow> (('s, 'e) core \<times> bool) \<times> IMessageHead vs" where
  "client_update p S A now now' prior ent force typ c =
     andThenC (encodeEnt ent) (c, False) (\<lambda>bod. updateRaw p S A now now' prior (Some bod) force typ c)"

definition revFromArchive :: "'s IStore \<Rightarrow> bytes \<Rightarrow> 's \<Rightarrow> IEntRev vs" where
  "revFromArchive S eid s =
     (case is_msg_last S eid s of
        Some m \<Rightarrow> revFromHead (im_head m)
      | None \<Rightarrow> andThen (eid_decode (Decoder eid)) (\<lambda>(parsed, _).
                Ok \<lparr>rev_eid = eid, rev_ctr = -1, rev_updatedAt = eid_ts parsed\<rparr>))"

text \<open>Delete by the revision the caller holds, or by the entity's id.\<close>

datatype DeleteParams = DeletePrior IEntRev | DeleteEid bytes

definition client_delete ::
    "prims \<Rightarrow> 's IStore \<Rightarrow> 'e applier \<Rightarrow> date \<Rightarrow> date \<Rightarrow> DeleteParams \<Rightarrow> bool option \<Rightarrow> ('s, 'e) core
     \<Rightarrow> (('s, 'e) core \<times> bool) \<times> IMessageHead vs" where
  "client_delete p S A now now' params optForce c =
     (let force = (case optForce of None \<Rightarrow> True | Some f \<Rightarrow> f)
      in case params of
           DeletePrior prior \<Rightarrow> updateRaw p S A now now' prior None force [] c
         | DeleteEid eid \<Rightarrow>
             andThenC (revFromArchive S eid (fst c)) (c, False) (\<lambda>prior. updateRaw p S A now now' prior None force [] c))"

definition lastMsg :: "'s IStore \<Rightarrow> bytes \<Rightarrow> 's \<Rightarrow> IMessage option" where
  "lastMsg S eid s =
     map_option (\<lambda>m. IMessageHead.extend (im_head m) (IMessage.fields (im_body m))) (is_msg_last S eid s)"

definition insertBlob ::
    "prims \<Rightarrow> 's IStore \<Rightarrow> 'e applier \<Rightarrow> bytes \<Rightarrow> date \<Rightarrow> jsstr \<Rightarrow> bytes \<Rightarrow> IBlobWrite option \<Rightarrow> ('s, 'e) core
     \<Rightarrow> (('s, 'e) core \<times> bool) \<times> IMessageHead vs" where
  "insertBlob p S A rnd now mime b opts c =
     andThenC (insertBlobMsg mime b opts) (c, False) (\<lambda>(typ, bod). insertRaw p S A rnd now bod typ c)"

definition updateBlob ::
    "prims \<Rightarrow> 's IStore \<Rightarrow> 'e applier \<Rightarrow> bool \<Rightarrow> date \<Rightarrow> date \<Rightarrow> bytes \<Rightarrow> bytes \<Rightarrow> IBlobUpdate option \<Rightarrow> ('s, 'e) core
     \<Rightarrow> (('s, 'e) core \<times> bool) \<times> IMessageHead vs" where
  "updateBlob p S A forceDefault now now' eid b opts c =
     andThenC (updateBlobMsg (lastMsg S eid (fst c)) b opts) (c, False) (\<lambda>(typ, bod, prior).
     updateRaw p S A now now' prior (Some bod) forceDefault typ c)"

definition deleteBlob ::
    "prims \<Rightarrow> 's IStore \<Rightarrow> 'e applier \<Rightarrow> date \<Rightarrow> date \<Rightarrow> bytes \<Rightarrow> ('s, 'e) core
     \<Rightarrow> (('s, 'e) core \<times> bool) \<times> IMessageHead vs" where
  "deleteBlob p S A now now' eid c = client_delete p S A now now' (DeleteEid eid) None c"

definition readBlob :: "'s IStore \<Rightarrow> bytes \<Rightarrow> 's \<Rightarrow> bytes vs" where
  "readBlob S eid s = blobBytes (lastMsg S eid s)"

definition genEID :: "date \<Rightarrow> bytes \<Rightarrow> bytes option \<Rightarrow> bytes vs" where
  "genEID now rnd i = (case i of Some x \<Rightarrow> makeEID \<lparr>eid_id = x, eid_ts = now\<rparr> | None \<Rightarrow> makeEID \<lparr>eid_id = rnd, eid_ts = now\<rparr>)"

definition msgcheck :: "prims \<Rightarrow> 's IStore \<Rightarrow> 's \<Rightarrow> bytes" where
  "msgcheck p S s = checksumSet (blake3_hash p) (is_msg_listKeys S s)"

section \<open>The client, its stores and its connections\<close>

record OpenAccount =
  oa_label :: jsstr
  oa_enclave :: OuterEnclave
  oa_hosts :: "IHostRow list"
  oa_realms :: "IRealm list"

text \<open>The operations of the store that synchronisation does not use.\<close>

record 's ClientStore =
  co_store :: "'s IStore"
  co_bind :: "jsstr \<Rightarrow> 's \<Rightarrow> 's \<times> unit vs"
  co_account_save :: "bytes \<Rightarrow> OuterEnclave \<Rightarrow> jsstr option \<Rightarrow> 's \<Rightarrow> 's \<times> OuterEnclave vs"
  co_account_wipe :: "'s \<Rightarrow> 's"
  co_realms_wipe :: "'s \<Rightarrow> 's"
  co_hosts_add :: "IHostConnectionInfo \<Rightarrow> 's \<Rightarrow> 's"
  co_hosts_del :: "jsstr \<Rightarrow> 's \<Rightarrow> 's"
  co_hosts_wipe :: "'s \<Rightarrow> 's"
  co_up_wipe :: "'s \<Rightarrow> 's"
  co_dn_wipe :: "'s \<Rightarrow> 's"
  co_msgs_wipe :: "'s \<Rightarrow> 's"

definition memClientStore :: "prims \<Rightarrow> MemoryStore ClientStore" where
  "memClientStore p =
     \<lparr>co_store = memStore p,
      co_bind = (\<lambda>_ s. (s, Ok ())),
      co_account_save = (\<lambda>nonce enclave label s.
        case acc_save p nonce enclave label (ss_account s) of (a, r) \<Rightarrow> (s\<lparr>ss_account := a\<rparr>, r)),
      co_account_wipe = (\<lambda>s. s\<lparr>ss_account := []\<rparr>),
      co_realms_wipe = (\<lambda>s. s\<lparr>ss_realms := []\<rparr>),
      co_hosts_add = (\<lambda>info s. s\<lparr>ss_hosts := ho_add info (ss_hosts s)\<rparr>),
      co_hosts_del = (\<lambda>label s. s\<lparr>ss_hosts := ho_del label (ss_hosts s)\<rparr>),
      co_hosts_wipe = (\<lambda>s. s\<lparr>ss_hosts := \<lparr>ho_hosts = [], ho_cursors = []\<rparr>\<rparr>),
      co_up_wipe = (\<lambda>s. s\<lparr>ss_uploads := []\<rparr>),
      co_dn_wipe = (\<lambda>s. s\<lparr>ss_downloads := []\<rparr>),
      co_msgs_wipe = (\<lambda>s. s\<lparr>ss_messages := []\<rparr>)\<rparr>"

text \<open>The application state: its applier and its clearer.\<close>

record 'e AppState =
  as_applier :: "'e applier"
  as_clearer :: "'e \<Rightarrow> 'e \<times> unit vs"

record ('s, 'e) SyncClient =
  cl_connections :: "(jsstr, DiplomaticClientAPI) jsmap"
  cl_account :: "OpenAccount option"
  cl_store :: 's
  cl_state :: "'e StateManager"
  cl_scheduled :: bool \<comment> \<open>a debounced sync is due, or was handed to the worker\<close>

text \<open>What lies behind the connections: the calls of an API client to the host of that label.\<close>

record 'w Net =
  nt_conn :: "jsstr \<Rightarrow> DiplomaticClientAPI \<Rightarrow> 'w SyncConn"
  nt_register :: "jsstr \<Rightarrow> DiplomaticClientAPI \<Rightarrow> 'w \<Rightarrow> 'w \<times> unit vs"
  nt_listen :: "jsstr \<Rightarrow> DiplomaticClientAPI \<Rightarrow> 'w \<Rightarrow> 'w \<times> unit vs"
  nt_connected :: "jsstr \<Rightarrow> 'w \<Rightarrow> bool"
  nt_close :: "jsstr \<Rightarrow> 'w \<Rightarrow> 'w"

type_synonym ('w, 's, 'e) cworld = "'w \<times> ('s, 'e) SyncClient"

definition scheduleSync :: "('s, 'e) SyncClient \<Rightarrow> ('s, 'e) SyncClient" where
  "scheduleSync c = c\<lparr>cl_scheduled := True\<rparr>"

text \<open>Running a function of the store and the state manager on the client.\<close>

definition on_core ::
    "(('s, 'e) core \<Rightarrow> (('s, 'e) core \<times> bool) \<times> 'r vs) \<Rightarrow> ('s, 'e) SyncClient \<Rightarrow> ('s, 'e) SyncClient \<times> 'r vs" where
  "on_core f c =
     (case f (cl_store c, cl_state c) of
        (((s, sm), sched), r) \<Rightarrow>
          (let c = c\<lparr>cl_store := s, cl_state := sm\<rparr> in (if sched then scheduleSync c else c, r)))"

definition client_drain :: "'e AppState \<Rightarrow> 's ClientStore \<Rightarrow> ('s, 'e) SyncClient \<Rightarrow> ('s, 'e) SyncClient \<times> status option list vs" where
  "client_drain A K = on_core (\<lambda>c. case drainApplyQueue (co_store K) (as_applier A) c of (c, r) \<Rightarrow> ((c, False), r))"

definition pullHosts :: "'s ClientStore \<Rightarrow> ('s, 'e) SyncClient \<Rightarrow> ('s, 'e) SyncClient" where
  "pullHosts K c = c\<lparr>cl_account := map_option (\<lambda>a. a\<lparr>oa_hosts := is_hosts_list (co_store K) (cl_store c)\<rparr>) (cl_account c)\<rparr>"

definition pullRealms :: "'s ClientStore \<Rightarrow> ('s, 'e) SyncClient \<Rightarrow> ('s, 'e) SyncClient" where
  "pullRealms K c = c\<lparr>cl_account := map_option (\<lambda>a. a\<lparr>oa_realms := is_realms_list (co_store K) (cl_store c)\<rparr>) (cl_account c)\<rparr>"

definition account_open :: "'s ClientStore \<Rightarrow> jsstr \<Rightarrow> OuterEnclave \<Rightarrow> ('s, 'e) SyncClient \<Rightarrow> ('s, 'e) SyncClient \<times> unit vs" where
  "account_open K label enclave c =
     (case co_bind K label (cl_store c) of
        (s, r) \<Rightarrow> andThenC r (c\<lparr>cl_store := s\<rparr>) (\<lambda>_.
          (c\<lparr>cl_store := s, cl_account := Some \<lparr>oa_label = label, oa_enclave = enclave,
               oa_hosts = is_hosts_list (co_store K) s, oa_realms = is_realms_list (co_store K) s\<rparr>\<rparr>, Ok ())))"

definition setSeed ::
    "'s ClientStore \<Rightarrow> bytes \<Rightarrow> OuterEnclave \<Rightarrow> jsstr option \<Rightarrow> ('s, 'e) SyncClient \<Rightarrow> ('s, 'e) SyncClient \<times> unit vs" where
  "setSeed K nonce enclave optLabel c =
     (case accountLabel optLabel of
        Throw \<Rightarrow> (c, Throw) | Hang \<Rightarrow> (c, Hang) | Err _ \<Rightarrow> (c, Err InvalidParam)
      | Ok label \<Rightarrow>
          (case co_account_save K nonce enclave optLabel (cl_store c) of
             (s, r) \<Rightarrow> andThenC r (c\<lparr>cl_store := s\<rparr>) (\<lambda>_. account_open K label enclave (c\<lparr>cl_store := s\<rparr>))))"

definition adopt :: "'s ClientStore \<Rightarrow> OuterEnclave \<Rightarrow> jsstr \<Rightarrow> ('s, 'e) SyncClient \<Rightarrow> ('s, 'e) SyncClient \<times> unit vs" where
  "adopt K enclave label c = account_open K label enclave c"

section \<open>Connections\<close>

fun ensure_realms :: "prims \<Rightarrow> OuterEnclave \<Rightarrow> IKDM \<Rightarrow> IKDM list \<Rightarrow> DiplomaticClientAPI \<Rightarrow> DiplomaticClientAPI \<times> unit vs" where
  "ensure_realms p enclave idKDM [] conn = (conn, Ok ())"
| "ensure_realms p enclave idKDM (realm # realms) conn =
     (if bagMgrFor conn realm \<noteq> None then ensure_realms p enclave idKDM realms conn
      else andThenC (bagman p enclave idKDM realm) conn (\<lambda>bagMgr.
           ensure_realms p enclave idKDM realms (client_add bagMgr conn)))"

definition ensureBagMgrs ::
    "prims \<Rightarrow> 's ClientStore \<Rightarrow> IHostRow \<Rightarrow> DiplomaticClientAPI \<Rightarrow> ('s, 'e) SyncClient \<Rightarrow> DiplomaticClientAPI \<times> unit vs" where
  "ensureBagMgrs p K host conn c =
     (case cl_account c of
        None \<Rightarrow> (conn, Err MissingSeed)
      | Some a \<Rightarrow> ensure_realms p (oa_enclave a) \<lparr>kdm_label = hi_label host, kdm_index = idx_or_zero (hi_idx host)\<rparr>
                   (realmKDMs (is_realms_list (co_store K) (cl_store c))) conn)"

definition connectToHost ::
    "prims \<Rightarrow> 's ClientStore \<Rightarrow> 'w Net \<Rightarrow> IHostRow \<Rightarrow> bool \<Rightarrow> bool \<Rightarrow> ('w, 's, 'e) cworld \<Rightarrow> ('w, 's, 'e) cworld \<times> unit vs" where
  "connectToHost p K N host listen sync wc =
     (let label = hi_label host
      in if map_has (cl_connections (snd wc)) label \<and> nt_connected N label (fst wc) then (wc, Ok ())
         else
           (case (if map_has (cl_connections (snd wc)) label
                  then (nt_close N label (fst wc), (snd wc)\<lparr>cl_connections := map_delete label (cl_connections (snd wc))\<rparr>)
                  else wc) of
              (w, c) \<Rightarrow>
                if cl_account c = None then ((w, c), Ok ())
                else
                 (case ensureBagMgrs p K host \<lparr>ca_bagMgrs = []\<rparr> c of
                    (conn, Err _) \<Rightarrow> ((w, c), Ok ())
                  | (conn, Throw) \<Rightarrow> ((w, c), Throw) | (conn, Hang) \<Rightarrow> ((w, c), Hang)
                  | (conn, Ok _) \<Rightarrow>
                     (case nt_register N label conn w of
                        (w, Throw) \<Rightarrow> ((w, c), Throw) | (w, Hang) \<Rightarrow> ((w, c), Hang)
                      | (w, _) \<Rightarrow>
                         (case (if listen then nt_listen N label conn w else (w, Ok ())) of
                            (w, Throw) \<Rightarrow> ((w, c), Throw) | (w, Hang) \<Rightarrow> ((w, c), Hang)
                          | (w, _) \<Rightarrow>
                             (let c = c\<lparr>cl_connections := map_set label conn (cl_connections c)\<rparr>
                              in ((w, if sync then scheduleSync c else c), Ok ())))))))"

fun connect_hosts ::
    "prims \<Rightarrow> 's ClientStore \<Rightarrow> 'w Net \<Rightarrow> bool \<Rightarrow> IHostRow list \<Rightarrow> ('w, 's, 'e) cworld \<Rightarrow> ('w, 's, 'e) cworld \<times> unit vs" where
  "connect_hosts p K N listen [] wc = (wc, Ok ())"
| "connect_hosts p K N listen (host # hosts) wc =
     (case connectToHost p K N host listen False wc of
        (wc, r) \<Rightarrow> andThenC r wc (\<lambda>_. connect_hosts p K N listen hosts wc))"

definition client_connect ::
    "prims \<Rightarrow> 'e AppState \<Rightarrow> 's ClientStore \<Rightarrow> 'w Net \<Rightarrow> bool \<Rightarrow> bool \<Rightarrow> ('w, 's, 'e) cworld \<Rightarrow> ('w, 's, 'e) cworld \<times> unit vs" where
  "client_connect p A K N listen sync wc =
     (case wc of (w, c) \<Rightarrow>
      if cl_account c = None then ((w, c), Ok ())
      else case client_drain A K c of
        (c, r) \<Rightarrow> andThenC r (w, c) (\<lambda>_.
          case connect_hosts p K N listen (is_hosts_list (co_store K) (cl_store c)) (w, c) of
            ((w, c), r) \<Rightarrow> andThenC r (w, c) (\<lambda>_. ((w, if sync then scheduleSync c else c), Ok ()))))"

definition client_disconnect :: "'w Net \<Rightarrow> ('w, 's, 'e) cworld \<Rightarrow> ('w, 's, 'e) cworld" where
  "client_disconnect N wc =
     (foldl (\<lambda>w (label, _). nt_close N label w) (fst wc) (cl_connections (snd wc)), (snd wc)\<lparr>cl_connections := []\<rparr>)"

definition client_link ::
    "prims \<Rightarrow> 's ClientStore \<Rightarrow> 'w Net \<Rightarrow> IHostConnectionInfo \<Rightarrow> bool \<Rightarrow> ('w, 's, 'e) cworld \<Rightarrow> ('w, 's, 'e) cworld \<times> unit vs" where
  "client_link p K N host connect wc =
     (let c = snd wc;
          c = pullRealms K (pullHosts K (c\<lparr>cl_store := co_hosts_add K host (cl_store c)\<rparr>))
      in if connect
         then (case is_hosts_get (co_store K) (hi_label host) (cl_store c) of
                 None \<Rightarrow> ((fst wc, c), Ok ())
               | Some row \<Rightarrow> connectToHost p K N row True True (fst wc, c))
         else ((fst wc, c), Ok ()))"

definition client_unlink :: "'s ClientStore \<Rightarrow> jsstr \<Rightarrow> ('s, 'e) SyncClient \<Rightarrow> ('s, 'e) SyncClient" where
  "client_unlink K label c = pullRealms K (pullHosts K (c\<lparr>cl_store := co_hosts_del K label (cl_store c)\<rparr>))"

section \<open>Synchronising with every host\<close>

text \<open>A connection whose calls leave another component of the world alone.\<close>

definition lift_conn :: "'w SyncConn \<Rightarrow> ('w \<times> 'x) SyncConn" where
  "lift_conn conn =
     \<lparr>sc_pull = (\<lambda>seqs realm (w, x). case sc_pull conn seqs realm w of (w, r) \<Rightarrow> ((w, x), r)),
      sc_push = (\<lambda>bags (w, x). case sc_push conn bags w of (w, r) \<Rightarrow> ((w, x), r)),
      sc_peek = (\<lambda>seq realm (w, x). case sc_peek conn seq realm w of (w, r) \<Rightarrow> ((w, x), r)),
      sc_seal = (\<lambda>msg realm (w, x). case sc_seal conn msg realm w of (w, r) \<Rightarrow> ((w, x), r)),
      sc_client = sc_client conn\<rparr>"

text \<open>\<open>afterOpen\<close>: executing what was opened.\<close>

definition drain_world :: "'e AppState \<Rightarrow> 's ClientStore \<Rightarrow> ('w \<times> 'e StateManager, 's) world \<Rightarrow> ('w \<times> 'e StateManager, 's) world \<times> unit vs" where
  "drain_world A K wc =
     (case drainApplyQueue (co_store K) (as_applier A) (snd wc, snd (fst wc)) of
        ((s, sm), r) \<Rightarrow> (((fst (fst wc), sm), s), andThen r (\<lambda>_. Ok ())))"

text \<open>Running a phase over a connection on the client.\<close>

definition run_phase ::
    "((('w \<times> 'e StateManager), 's) world \<Rightarrow> (('w \<times> 'e StateManager), 's) world \<times> 'r vs)
     \<Rightarrow> ('w, 's, 'e) cworld \<Rightarrow> ('w, 's, 'e) cworld \<times> 'r vs" where
  "run_phase f wc =
     (case f ((fst wc, cl_state (snd wc)), cl_store (snd wc)) of
        (((w, sm), s), r) \<Rightarrow> ((w, (snd wc)\<lparr>cl_state := sm, cl_store := s\<rparr>), r))"

fun peek_realms ::
    "prims \<Rightarrow> 's ClientStore \<Rightarrow> 'w SyncConn \<Rightarrow> IHostRow \<Rightarrow> IKDM list \<Rightarrow> ('w, 's, 'e) cworld \<Rightarrow> ('w, 's, 'e) cworld \<times> unit vs" where
  "peek_realms p K conn host [] wc = (wc, Ok ())"
| "peek_realms p K conn host (realm # realms) wc =
     (case run_phase (syncPeek p (lift_conn conn) (co_store K) host (Some realm)) wc of
        (wc, r) \<Rightarrow> andThenC r wc (\<lambda>_. peek_realms p K conn host realms wc))"

text \<open>A pull that had nothing to do is no failure.\<close>

fun pull_ok :: "unit vs \<Rightarrow> unit vs" where
  "pull_ok (Err NoChange) = Ok ()"
| "pull_ok r = r"

record SyncLimits =
  sl_maxPushBytes :: int
  sl_maxPullBytes :: int

definition sync_host ::
    "prims \<Rightarrow> 'e AppState \<Rightarrow> 's ClientStore \<Rightarrow> SyncLimits \<Rightarrow> 'w SyncConn \<Rightarrow> IHostRow \<Rightarrow> IKDM list
     \<Rightarrow> ('w, 's, 'e) cworld \<Rightarrow> ('w, 's, 'e) cworld \<times> unit vs" where
  "sync_host p A K L conn host realms wc =
     (case peek_realms p K conn host realms wc of
        (wc, r) \<Rightarrow> andThenC r wc (\<lambda>_.
          case run_phase (syncPush (lift_conn conn) (co_store K) host (sl_maxPushBytes L)) wc of
            (wc, r) \<Rightarrow> andThenC r wc (\<lambda>_.
              case run_phase (syncPull p (lift_conn conn) (co_store K) host (sl_maxPullBytes L) (drain_world A K)) wc of
                (wc, r) \<Rightarrow> (wc, pull_ok r))))"

fun sync_hosts ::
    "prims \<Rightarrow> 'e AppState \<Rightarrow> 's ClientStore \<Rightarrow> 'w Net \<Rightarrow> SyncLimits \<Rightarrow> IKDM list \<Rightarrow> (jsstr \<times> DiplomaticClientAPI) list
     \<Rightarrow> ('w, 's, 'e) cworld \<Rightarrow> ('w, 's, 'e) cworld \<times> unit vs" where
  "sync_hosts p A K N L realms [] wc = (wc, Ok ())"
| "sync_hosts p A K N L realms ((label, conn) # conns) wc =
     (case is_hosts_get (co_store K) label (cl_store (snd wc)) of
        None \<Rightarrow> sync_hosts p A K N L realms conns wc
      | Some host \<Rightarrow>
          (case ensureBagMgrs p K host conn (snd wc) of
             (conn, r) \<Rightarrow>
               (let c = (snd wc)\<lparr>cl_connections := map_set label conn (cl_connections (snd wc))\<rparr>
                in andThenC r (fst wc, c) (\<lambda>_.
                   case sync_host p A K L (nt_conn N label conn) host realms (fst wc, c) of
                     (wc, r) \<Rightarrow> andThenC r wc (\<lambda>_. sync_hosts p A K N L realms conns wc)))))"

definition account_realms :: "('s, 'e) SyncClient \<Rightarrow> IKDM list" where
  "account_realms c = realmKDMs (case cl_account c of None \<Rightarrow> [] | Some a \<Rightarrow> oa_realms a)"

definition doSync ::
    "prims \<Rightarrow> 'e AppState \<Rightarrow> 's ClientStore \<Rightarrow> 'w Net \<Rightarrow> SyncLimits \<Rightarrow> ('w, 's, 'e) cworld \<Rightarrow> ('w, 's, 'e) cworld \<times> unit vs" where
  "doSync p A K N L wc =
     (case wc of (w, c) \<Rightarrow>
      if cl_account c = None then ((w, c), Err MissingSeed)
      else case client_drain A K c of
        (c, r) \<Rightarrow> andThenC r (w, c) (\<lambda>_.
          let c = pullRealms K c
          in sync_hosts p A K N L (account_realms c) (cl_connections c) (w, c)))"

section \<open>Rebuilding\<close>

text \<open>How many of the next messages make one batch: at most 100 and until 100 KiB are reached.\<close>

fun batch_size :: "int list \<Rightarrow> nat \<Rightarrow> int \<Rightarrow> nat" where
  "batch_size [] n totalBytes = n"
| "batch_size (len # lens) n totalBytes =
     (if n < 100 \<and> totalBytes < 100 * 1024 then batch_size lens (n + 1) (totalBytes + len) else n)"

lemma batch_size_ge: "n \<le> batch_size lens n b"
  by (induction lens n b rule: batch_size.induct) auto

lemma batch_size_pos: "lens \<noteq> [] \<Longrightarrow> 0 < batch_size lens 0 0"
  using batch_size_ge [of "Suc 0"] by (cases lens) (auto simp: Suc_le_eq)

function replay_loop ::
    "'s IStore \<Rightarrow> 'e applier \<Rightarrow> IStoredMessage list \<Rightarrow> ('s, 'e) core \<Rightarrow> ('s, 'e) core \<times> unit vs" where
  "replay_loop S A [] c = (c, Ok ())"
| "replay_loop S A (m # ms) c =
     (let n = batch_size (map (\<lambda>m. mh_len (im_head m)) (m # ms)) 0 0
      in case applyStored S A (take n (m # ms)) c of
           (c, r) \<Rightarrow> andThenC r c (\<lambda>_. replay_loop S A (drop n (m # ms)) c))"
  by pat_completeness auto

termination replay_loop
proof (relation "measure (\<lambda>(S, A, ms, c). length ms)")
  fix m ms and n :: nat
  assume "n = batch_size (map (\<lambda>m. mh_len (im_head m)) (m # ms)) 0 0"
  then have "0 < n" using batch_size_pos [of "map (\<lambda>m. mh_len (im_head m)) (m # ms)"] by simp
  then show "((S, A, drop n (m # ms), c'), S, A, m # ms, c) \<in> measure (\<lambda>(S, A, ms, c). length ms)"
    for S :: "'s IStore" and A :: "'e applier" and c c' by simp
qed simp

definition replay :: "'e AppState \<Rightarrow> 's ClientStore \<Rightarrow> ('s, 'e) SyncClient \<Rightarrow> ('s, 'e) SyncClient \<times> unit vs" where
  "replay A K c =
     (case sm_clear (as_clearer A) (cl_state c) of
        (sm, r) \<Rightarrow> andThenC r (c\<lparr>cl_state := sm\<rparr>) (\<lambda>_.
          on_core (\<lambda>cr. case replay_loop (co_store K) (as_applier A)
                            (sortByHlcDesc (is_msg_list (co_store K) None (cl_store c)) im_head) cr of
                          (cr, r) \<Rightarrow> ((cr, False), r)) (c\<lparr>cl_state := sm\<rparr>)))"

text \<open>Opening without executing: the pull of a full inventory.\<close>

definition open_only :: "('w, 's) world \<Rightarrow> ('w, 's) world \<times> unit vs" where
  "open_only w = (w, Ok ())"

fun repull_connect ::
    "prims \<Rightarrow> 's ClientStore \<Rightarrow> 'w Net \<Rightarrow> IHostRow list \<Rightarrow> ('w, 's, 'e) cworld \<Rightarrow> ('w, 's, 'e) cworld \<times> unit vs" where
  "repull_connect p K N [] wc = (wc, Ok ())"
| "repull_connect p K N (host # hosts) wc =
     (case (if map_has (cl_connections (snd wc)) (hi_label host) \<and> nt_connected N (hi_label host) (fst wc) then (wc, Ok ())
            else connectToHost p K N host False False wc) of
        (wc, r) \<Rightarrow> andThenC r wc (\<lambda>_. repull_connect p K N hosts wc))"

fun repull_hosts ::
    "prims \<Rightarrow> 's ClientStore \<Rightarrow> 'w Net \<Rightarrow> SyncLimits \<Rightarrow> IKDM list \<Rightarrow> (jsstr \<times> DiplomaticClientAPI) list
     \<Rightarrow> ('w, 's, 'e) cworld \<Rightarrow> ('w, 's, 'e) cworld \<times> unit vs" where
  "repull_hosts p K N L realms [] wc = (wc, Ok ())"
| "repull_hosts p K N L realms ((label, conn) # conns) wc =
     (case is_hosts_get (co_store K) label (cl_store (snd wc)) of
        None \<Rightarrow> repull_hosts p K N L realms conns wc
      | Some host \<Rightarrow>
          (case ensureBagMgrs p K host conn (snd wc) of
             (conn, r) \<Rightarrow>
               (let c = (snd wc)\<lparr>cl_connections := map_set label conn (cl_connections (snd wc))\<rparr>;
                    host = host\<lparr>hr_cursor := \<lparr>cr_lastSeq = 0, cr_seqs = None\<rparr>\<rparr>;
                    conn = nt_conn N label conn
                in andThenC r (fst wc, c) (\<lambda>_.
                   case peek_realms p K conn host realms (fst wc, c) of
                     (wc, r) \<Rightarrow> andThenC r wc (\<lambda>_.
                       case run_phase (syncPull p (lift_conn conn) (co_store K) host (sl_maxPullBytes L) open_only) wc of
                         (wc, r) \<Rightarrow> andThenC (pull_ok r) wc (\<lambda>_. repull_hosts p K N L realms conns wc))))))"

definition repull ::
    "prims \<Rightarrow> 's ClientStore \<Rightarrow> 'w Net \<Rightarrow> SyncLimits \<Rightarrow> ('w, 's, 'e) cworld \<Rightarrow> ('w, 's, 'e) cworld \<times> unit vs" where
  "repull p K N L wc =
     (let c = snd wc; hosts = is_hosts_list (co_store K) (cl_store c)
      in if cl_account c = None then (wc, Err MissingSeed)
         else if length hosts < 1 then (wc, Ok ())
         else let c = pullRealms K c; realms = account_realms c
              in case repull_connect p K N hosts (fst wc, c) of
                   (wc, r) \<Rightarrow> andThenC r wc (\<lambda>_. repull_hosts p K N L realms (cl_connections (snd wc)) wc))"

text \<open>The pending debounced sync is cancelled and a running sync awaited first.\<close>

definition rebuild ::
    "prims \<Rightarrow> 'e AppState \<Rightarrow> 's ClientStore \<Rightarrow> 'w Net \<Rightarrow> SyncLimits \<Rightarrow> bool option \<Rightarrow> ('w, 's, 'e) cworld
     \<Rightarrow> ('w, 's, 'e) cworld \<times> unit vs" where
  "rebuild p A K N L optCheckHost wc =
     (let wc = (fst wc, (snd wc)\<lparr>cl_scheduled := False\<rparr>);
          checkHost = (case optCheckHost of None \<Rightarrow> True | Some b \<Rightarrow> b)
      in case (if checkHost then repull p K N L wc else (wc, Ok ())) of
           (wc, r) \<Rightarrow> andThenC r wc (\<lambda>_. case replay A K (snd wc) of (c, r) \<Rightarrow> ((fst wc, c), r)))"

section \<open>Reconciling, importing, exporting, wiping\<close>

definition client_reconcile ::
    "prims \<Rightarrow> 'e AppState \<Rightarrow> 's ClientStore \<Rightarrow> 'w Net \<Rightarrow> SyncLimits \<Rightarrow> jsstr \<Rightarrow> bool option \<Rightarrow> bool option \<Rightarrow> bool option
     \<Rightarrow> ('w, 's, 'e) cworld \<Rightarrow> ('w, 's, 'e) cworld \<times> ReconcileResult vs" where
  "client_reconcile p A K N L hostLabel optPull optPush optSync wc =
     (let wc = (fst wc, (snd wc)\<lparr>cl_scheduled := False\<rparr>); get = is_hosts_get (co_store K) hostLabel
      in if cl_account (snd wc) = None then (wc, Err MissingSeed)
         else case get (cl_store (snd wc)) of
           None \<Rightarrow> (wc, Err NotFound)
         | Some host \<Rightarrow>
            (case (if \<not> map_has (cl_connections (snd wc)) hostLabel \<or> \<not> nt_connected N hostLabel (fst wc)
                   then connectToHost p K N host False False wc else (wc, Ok ())) of
               (wc, r) \<Rightarrow> andThenC r wc (\<lambda>_.
               case get (cl_store (snd wc)) of
                 None \<Rightarrow> (wc, Err NotFound)
               | Some host \<Rightarrow>
                  (case map_get (cl_connections (snd wc)) hostLabel of
                     None \<Rightarrow> (wc, Err InternalError)
                   | Some conn \<Rightarrow>
                      (case ensureBagMgrs p K host conn (snd wc) of
                         (conn, r) \<Rightarrow>
                           (let wc = (fst wc, (snd wc)\<lparr>cl_connections := map_set hostLabel conn (cl_connections (snd wc))\<rparr>);
                                cn = lift_conn (nt_conn N hostLabel conn)
                            in andThenC r wc (\<lambda>_.
                               case run_phase (reconcileHost p cn (co_store K) host optPull optPush) wc of
                                 (wc, r) \<Rightarrow> andThenC r wc (\<lambda>report.
                                   if optSync = Some False then (wc, Ok report)
                                   else case doSync p A K N L wc of
                                     (wc, r) \<Rightarrow> andThenC r wc (\<lambda>_.
                                       case get (cl_store (snd wc)) of
                                         None \<Rightarrow> (wc, Err NotFound)
                                       | Some hostAfter \<Rightarrow>
                                           run_phase (reconcileHost p cn (co_store K) hostAfter (Some False) (Some False)) wc)))))))))"

text \<open>Import of a decoded export file: the realms' counters first, then the messages in batches.\<close>

definition max_indexes :: "(IKDM \<times> IMsgParts list) list \<Rightarrow> (jsstr, int) jsmap" where
  "max_indexes realms =
     foldl (\<lambda>m (realm, _).
        if kdm_label realm = [] then m
        else case map_get m (kdm_label realm) of
               None \<Rightarrow> map_set (kdm_label realm) (kdm_index realm) m
             | Some prev \<Rightarrow> if kdm_index realm > prev then map_set (kdm_label realm) (kdm_index realm) m else m) [] realms"

fun put_realms :: "'s IStore \<Rightarrow> (jsstr \<times> int) list \<Rightarrow> 's \<Rightarrow> 's \<times> unit vs" where
  "put_realms S [] s = (s, Ok ())"
| "put_realms S ((label, idx) # rows) s =
     (case is_realms_put S label idx s of
        (s, st) \<Rightarrow> if st = InvalidParam \<or> st = Success then put_realms S rows s else (s, Err st))"

function import_loop ::
    "prims \<Rightarrow> 's IStore \<Rightarrow> 'e applier \<Rightarrow> IKDM \<Rightarrow> IMsgParts list \<Rightarrow> ('s, 'e) core \<Rightarrow> ('s, 'e) core \<times> unit vs" where
  "import_loop p S A realm [] c = (c, Ok ())"
| "import_loop p S A realm (m # ms) c =
     (let n = batch_size (map (\<lambda>m. mh_len (mp_head m)) (m # ms)) 0 0
      in case client_apply p S A (take n (m # ms)) \<lparr>ao_enqueueUpload = True, ao_triggerUpload = False, ao_realm = Some realm\<rparr> c of
           ((c, _), r) \<Rightarrow> andThenC r c (\<lambda>_. import_loop p S A realm (drop n (m # ms)) c))"
  by pat_completeness auto

termination import_loop
proof (relation "measure (\<lambda>(p, S, A, realm, ms, c). length ms)")
  fix m ms and n :: nat
  assume "n = batch_size (map (\<lambda>m. mh_len (mp_head m)) (m # ms)) 0 0"
  then have "0 < n" using batch_size_pos [of "map (\<lambda>m. mh_len (mp_head m)) (m # ms)"] by simp
  then show "((p, S, A, realm, drop n (m # ms), c'), p, S, A, realm, m # ms, c) \<in> measure (\<lambda>(p, S, A, realm, ms, c). length ms)"
    for p :: prims and S :: "'s IStore" and A :: "'e applier" and realm :: IKDM and c c' by simp
qed simp

fun import_realms ::
    "prims \<Rightarrow> 's IStore \<Rightarrow> 'e applier \<Rightarrow> (IKDM \<times> IMsgParts list) list \<Rightarrow> ('s, 'e) core \<Rightarrow> ('s, 'e) core \<times> unit vs" where
  "import_realms p S A [] c = (c, Ok ())"
| "import_realms p S A ((realm, msgs) # realms) c =
     (case import_loop p S A realm msgs c of (c, r) \<Rightarrow> andThenC r c (\<lambda>_. import_realms p S A realms c))"

definition import_decoded ::
    "prims \<Rightarrow> 'e AppState \<Rightarrow> 's ClientStore \<Rightarrow> (IKDM \<times> IMsgParts list) list \<Rightarrow> ('s, 'e) SyncClient \<Rightarrow> ('s, 'e) SyncClient \<times> unit vs" where
  "import_decoded p A K realms c =
     (let maxIndex = max_indexes realms
      in case put_realms (co_store K) maxIndex (cl_store c) of
           (s, r) \<Rightarrow> andThenC r (c\<lparr>cl_store := s\<rparr>) (\<lambda>_.
             let c = c\<lparr>cl_store := s\<rparr>; c = (if length maxIndex > 0 then pullRealms K c else c)
             in case on_core (\<lambda>cr. case import_realms p (co_store K) (as_applier A) realms cr of (cr, r) \<Rightarrow> ((cr, False), r)) c of
                  (c, r) \<Rightarrow> andThenC r c (\<lambda>_. (scheduleSync c, Ok ()))))"

text \<open>The archive grouped into export realms, in first-seen order.\<close>

definition exportRealms :: "IStoredMessage list \<Rightarrow> IRealm list \<Rightarrow> (IKDM \<times> IMsgParts list) list" where
  "exportRealms stored rows =
     foldl (\<lambda>realms m.
        let realm = realmKDM (im_rlm m) rows; part = \<lparr>mp_head = im_head m, mp_body = im_body m\<rparr>
        in case find (\<lambda>row. kdmEq (fst row) realm) realms of
             None \<Rightarrow> realms @ [(realm, [part])]
           | Some _ \<Rightarrow> map (\<lambda>row. if kdmEq (fst row) realm then (fst row, snd row @ [part]) else row) realms) [] stored"

definition client_wipe ::
    "'e AppState \<Rightarrow> 's ClientStore \<Rightarrow> 'w Net \<Rightarrow> bool option \<Rightarrow> bool option \<Rightarrow> bool option \<Rightarrow> bool option
     \<Rightarrow> ('w, 's, 'e) cworld \<Rightarrow> ('w, 's, 'e) cworld \<times> unit vs" where
  "client_wipe A K N optMsgs optEnts optMeta optSeed wc =
     (let msgs = (optMsgs \<noteq> Some False); ents = (optEnts \<noteq> Some False); meta = (optMeta \<noteq> Some False); seed = (optSeed = Some True)
      in case client_disconnect N (fst wc, (snd wc)\<lparr>cl_scheduled := False\<rparr>) of
        (w, c) \<Rightarrow>
          (let s = cl_store c;
               s = (if meta then co_dn_wipe K (co_up_wipe K (co_hosts_wipe K s)) else s);
               s = (if msgs then co_msgs_wipe K s else s)
           in case (if ents then sm_clear (as_clearer A) (cl_state c) else (cl_state c, Ok ())) of
                (sm, Throw) \<Rightarrow> ((w, c\<lparr>cl_store := s, cl_state := sm\<rparr>), Throw)
              | (sm, Hang) \<Rightarrow> ((w, c\<lparr>cl_store := s, cl_state := sm\<rparr>), Hang)
              | (sm, _) \<Rightarrow>
                  (let c = c\<lparr>cl_store := s, cl_state := sm\<rparr>;
                       c = (if seed then c\<lparr>cl_store := co_realms_wipe K (co_account_wipe K (cl_store c)), cl_account := None\<rparr>
                            else if meta then pullRealms K (pullHosts K c) else c)
                   in ((w, c), Ok ()))))"

end
