(* ===== verification/Writes.thy ===== *)
theory Writes
  imports Client
begin

text \<open>
  What the writes of the client (\<^verbatim>\<open>web/src/client.ts\<close>) do to its archive, its upload queues and its
  application state. The contract of the store is extended by the laws of the apply marks and of
  listing, and by the rest of the store, which none of these operations touches; the effect of one write and of draining the apply queue are proved from it, and the
  properties are their instances for the memory store and the memory database.
\<close>

section \<open>The contract of the archive\<close>

locale archive_store = client_store S inv archive queue uploads cursor
  for S :: "'s IStore" and inv archive queue uploads cursor +
  fixes p :: prims
    and rest :: "'s \<Rightarrow> 'r"
  assumes mark_law:
      "inv s \<Longrightarrow> inv (is_msg_markApplied S ks s) \<and> queue (is_msg_markApplied S ks s) = queue s
         \<and> uploads (is_msg_markApplied S ks s) = uploads s \<and> cursor (is_msg_markApplied S ks s) = cursor s
         \<and> archive (is_msg_markApplied S ks s) =
             (\<lambda>k. if k \<in> set ks then map_option (setApld APLD_APPLIED None) (archive s k) else archive s k)"
    and fail_law:
      "inv s \<Longrightarrow> inv (is_msg_markFailed S es s) \<and> queue (is_msg_markFailed S es s) = queue s
         \<and> uploads (is_msg_markFailed S es s) = uploads s \<and> cursor (is_msg_markFailed S es s) = cursor s
         \<and> archive (is_msg_markFailed S es s) =
             foldl (\<lambda>a (k, e). a(k := map_option (setApld APLD_ERROR (Some e)) (a k))) (archive s) es"
    and list_law:
      "inv s \<Longrightarrow> set (is_msg_list S a s) =
         {toStoredMessage p k d True | k d. archive s k = Some d \<and> (a = None \<or> a = Some (apldFromStored (sd_apld d)))}"
    and hosts_law:
      "is_hosts_list S (fst (is_msg_add S ms s)) = is_hosts_list S s"
      "is_hosts_list S (is_dn_deq S h qs r s) = is_hosts_list S s"
      "is_hosts_list S (is_up_enq S h hs s) = is_hosts_list S s"
      "is_hosts_list S (is_msg_markApplied S ks s) = is_hosts_list S s"
      "is_hosts_list S (is_msg_markFailed S es s) = is_hosts_list S s"
    and rest_law:
      "rest (fst (is_msg_add S ms s)) = rest s" "rest (is_dn_deq S h qs r s) = rest s" "rest (is_up_enq S h hs s) = rest s"
      "rest (is_msg_markApplied S ks s) = rest s" "rest (is_msg_markFailed S es s) = rest s"

section \<open>The memory store keeps it\<close>

lemma mark_messages:
  fixes es :: "(bytes \<times> status option) list"
  assumes "keys_ok s" "\<forall>k \<in> set (map fst s). \<exists>b. k = btob64 b"
  shows "keys_ok (msg_mark a es s) \<and> (\<forall>k \<in> set (map fst (msg_mark a es s)). \<exists>b. k = btob64 b) \<and>
    (\<lambda>k. map_get (msg_mark a es s) (btob64 k)) =
      foldl (\<lambda>m (k, e). m(k := map_option (setApld a e) (m k))) (\<lambda>k. map_get s (btob64 k)) es"
  using assms
proof (induction es arbitrary: s)
  case (Cons x es)
  obtain k e where x: "x = (k, e)" by (cases x)
  let ?s = "case map_get s (btob64 k) of None \<Rightarrow> s | Some data \<Rightarrow> map_set (btob64 k) (setApld a e data) s"
  have 1: "keys_ok ?s" using Cons.prems by (simp split: option.split)
  have 2: "\<forall>k \<in> set (map fst ?s). \<exists>b. k = btob64 b" using Cons.prems(2) by (simp only: set_keys split: option.split) blast
  have 3: "(\<lambda>k. map_get ?s (btob64 k)) =
      (\<lambda>k. map_get s (btob64 k))(k := map_option (setApld a e) (map_get s (btob64 k)))"
    by (auto simp: fun_eq_iff split: option.split)
  have "msg_mark a (x # es) s = msg_mark a es ?s" by (simp add: msg_mark_def x)
  moreover have "foldl (\<lambda>m (k, e). m(k := map_option (setApld a e) (m k))) (\<lambda>k. map_get s (btob64 k)) (x # es) =
      foldl (\<lambda>m (k, e). m(k := map_option (setApld a e) (m k))) (\<lambda>k. map_get ?s (btob64 k)) es"
    unfolding 3 x by simp
  ultimately show ?case using Cons.IH [OF 1 2] by metis
qed (simp add: msg_mark_def)

lemma setApld_twice [simp]: "setApld APLD_APPLIED None (setApld APLD_APPLIED None d) = setApld APLD_APPLIED None d"
  by (simp add: setApld_def)

lemma mark_applied_fold:
  "foldl (\<lambda>m (k, e). m(k := map_option (setApld APLD_APPLIED e) (m k))) m (map (\<lambda>k. (k, None)) ks) =
     (\<lambda>k. if k \<in> set ks then map_option (setApld APLD_APPLIED None) (m k) else m k)"
proof (induction ks arbitrary: m)
  case (Cons k ks)
  then show ?case by (auto simp: fun_eq_iff option.map_comp comp_def)
qed simp

lemma entries_rows:
  "keys_ok s \<Longrightarrow> \<forall>k \<in> set (map fst s). \<exists>b. k = btob64 b \<Longrightarrow> set (msg_entries s) = {(k, d). map_get s (btob64 k) = Some d}"
proof (induction s)
  case (Cons x s)
  obtain b where b: "fst x = btob64 b" using Cons.prems by auto
  obtain d where x: "x = (btob64 b, d)" using b by (cases x) simp
  have "btob64 b \<notin> set (map fst s)" "keys_ok s" using Cons.prems(1) x by (auto simp: keys_ok_def)
  then have "map_get s (btob64 b) = None" by (simp add: map_of_eq_None_iff)
  then show ?case using Cons.IH [OF \<open>keys_ok s\<close>] Cons.prems(2) x
    by (auto simp: msg_entries_def List.map_filter_def b64tob_btob64 split: if_splits)
qed (simp add: msg_entries_def List.map_filter_def)

text \<open>The rest of it: accounts, realm rows and hosts with their cursors.\<close>

abbreviation ms_rest :: "MemoryStore \<Rightarrow> MemoryAccountStore \<times> MemoryRealmStore \<times> MemoryHostStore" where
  "ms_rest s \<equiv> (ss_account s, ss_realms s, ss_hosts s)"

interpretation memar: archive_store "memStore p" store_inv ms_archive ms_queue ms_uploads ms_cursor p ms_rest
proof
  fix s :: MemoryStore and ks es a
  assume i: "store_inv s"
  have k: "keys_ok (ss_messages s)" "\<forall>k \<in> set (map fst (ss_messages s)). \<exists>b. k = btob64 b"
    using i by (simp_all add: store_inv_def)
  have ar: "ms_archive s = (\<lambda>k. map_get (ss_messages s) (btob64 k))" for s by (rule ext) (simp add: ms_archive_def)
  have e: "store_inv (s\<lparr>ss_messages := m\<rparr>)
      \<and> ms_queue (s\<lparr>ss_messages := m\<rparr>) = ms_queue s \<and> ms_uploads (s\<lparr>ss_messages := m\<rparr>) = ms_uploads s
      \<and> ms_cursor (s\<lparr>ss_messages := m\<rparr>) = ms_cursor s \<and> ms_archive (s\<lparr>ss_messages := m\<rparr>) = (\<lambda>k. map_get m (btob64 k))"
    if "keys_ok m" "\<forall>k \<in> set (map fst m). \<exists>b. k = btob64 b" for m
    using i that by (simp add: store_inv_def fun_eq_iff ms_queue_def ms_uploads_def ms_cursor_def ms_archive_def)
  have m: "keys_ok (msg_mark a es (ss_messages s))" "\<forall>k \<in> set (map fst (msg_mark a es (ss_messages s))). \<exists>b. k = btob64 b"
      "(\<lambda>k. map_get (msg_mark a es (ss_messages s)) (btob64 k)) =
        foldl (\<lambda>m (k, e). m(k := map_option (setApld a e) (m k))) (ms_archive s) es" for a es
    using mark_messages [OF k] unfolding ar by blast+
  show "store_inv (is_msg_markApplied (memStore p) ks s) \<and> ms_queue (is_msg_markApplied (memStore p) ks s) = ms_queue s
      \<and> ms_uploads (is_msg_markApplied (memStore p) ks s) = ms_uploads s
      \<and> ms_cursor (is_msg_markApplied (memStore p) ks s) = ms_cursor s
      \<and> ms_archive (is_msg_markApplied (memStore p) ks s) =
          (\<lambda>k. if k \<in> set ks then map_option (setApld APLD_APPLIED None) (ms_archive s k) else ms_archive s k)"
    using e [OF m(1,2)] m(3) unfolding mark_applied_fold [symmetric] by (simp add: memStore_def msg_markApplied_def)
  have f: "foldl (\<lambda>m (k, e). m(k := map_option (setApld a e) (m k))) m (map (\<lambda>(k, e). (k, Some e)) es) =
      foldl (\<lambda>m (k, e). m(k := map_option (setApld a (Some e)) (m k))) m es" for a m and es :: "(bytes \<times> status) list"
    by (induction es arbitrary: m) auto
  show "store_inv (is_msg_markFailed (memStore p) es s) \<and> ms_queue (is_msg_markFailed (memStore p) es s) = ms_queue s
      \<and> ms_uploads (is_msg_markFailed (memStore p) es s) = ms_uploads s
      \<and> ms_cursor (is_msg_markFailed (memStore p) es s) = ms_cursor s
      \<and> ms_archive (is_msg_markFailed (memStore p) es s) =
          foldl (\<lambda>a (k, e). a(k := map_option (setApld APLD_ERROR (Some e)) (a k))) (ms_archive s) es"
    using e [OF m(1,2)] m(3) unfolding f [symmetric] by (simp add: memStore_def msg_markFailed_def)
  show "set (is_msg_list (memStore p) a s) =
      {toStoredMessage p k d True | k d. ms_archive s k = Some d \<and> (a = None \<or> a = Some (apldFromStored (sd_apld d)))}"
    using entries_rows [OF k] by (auto simp: memStore_def msg_list_def ms_archive_def image_iff)
next
  fix s :: MemoryStore and ks es ms h hs qs r
  show "is_hosts_list (memStore p) (fst (is_msg_add (memStore p) ms s)) = is_hosts_list (memStore p) s"
    "is_hosts_list (memStore p) (is_dn_deq (memStore p) h qs r s) = is_hosts_list (memStore p) s"
    "is_hosts_list (memStore p) (is_up_enq (memStore p) h hs s) = is_hosts_list (memStore p) s"
    "is_hosts_list (memStore p) (is_msg_markApplied (memStore p) ks s) = is_hosts_list (memStore p) s"
    "is_hosts_list (memStore p) (is_msg_markFailed (memStore p) es s) = is_hosts_list (memStore p) s"
    "ms_rest (fst (is_msg_add (memStore p) ms s)) = ms_rest s" "ms_rest (is_dn_deq (memStore p) h qs r s) = ms_rest s"
    "ms_rest (is_up_enq (memStore p) h hs s) = ms_rest s" "ms_rest (is_msg_markApplied (memStore p) ks s) = ms_rest s"
    "ms_rest (is_msg_markFailed (memStore p) es s) = ms_rest s"
    by (simp_all add: memStore_def)
qed

section \<open>The effect of one write\<close>

text \<open>Every queued download carries the hash of its head, as \<^verbatim>\<open>syncPeek\<close> enqueues them.\<close>

definition known_heads :: "(jsstr \<Rightarrow> IDownloadMessage option) \<Rightarrow> bool" where
  "known_heads q = (\<forall>k d. q k = Some d \<longrightarrow> dm_headEncHash d \<noteq> None)"

text \<open>The key under which a head is archived, unless encoding it throws.\<close>

definition head_key :: "prims \<Rightarrow> IMessageHead \<Rightarrow> bytes option" where
  "head_key p h =
     (case messageHead_encode Encoder h of
        (Throw, _) \<Rightarrow> None | (Hang, _) \<Rightarrow> None | (_, enc) \<Rightarrow> Some (blake3_hash p (enc_result enc)))"

definition part_msg :: "IMsgParts \<Rightarrow> IMessage" where
  "part_msg part = IMessageHead.extend (mp_head part) (IMessage.fields (mp_body part))"

lemma part_msg_sel [simp]:
  "mh_eid (part_msg part) = mh_eid (mp_head part)" "mh_off (part_msg part) = mh_off (mp_head part)"
  "mh_ctr (part_msg part) = mh_ctr (mp_head part)" "mh_typ (part_msg part) = mh_typ (mp_head part)"
  "msg_bod (part_msg part) = mp_body part"
  by (simp_all add: part_msg_def IMessageHead.defs IMessage.defs)

lemma note_keys_ok: "keys_ok g \<Longrightarrow> keys_ok (noteDeq g h q r)"
  by (simp add: noteDeq_def Let_def split: option.split)

lemma want_groups_ok:
  "\<forall>d \<in> set ds. dm_headEncHash d \<noteq> None \<Longrightarrow> keys_ok g \<Longrightarrow> \<exists>g'. want_groups p want ds g = Ok g' \<and> keys_ok g'"
  by (induction ds arbitrary: g) (auto simp: note_keys_ok)

text \<open>
  The downloads in a queue are filed under their keys and no host label has a NUL, with which the groups of a dequeue separate the
  host from the realm. \<open>without_heads\<close> is the queue less the downloads of some heads.
\<close>

definition queue_fine :: "(jsstr \<Rightarrow> IDownloadMessage option) \<Rightarrow> bool" where
  "queue_fine q = (known_heads q
     \<and> (\<forall>k d. q k = Some d \<longrightarrow> k = downloadKey (dm_host d) (dm_seq d) (dm_realm d) \<and> 0 \<notin> set (dm_host d)))"

definition without_heads :: "bytes list \<Rightarrow> (jsstr \<Rightarrow> IDownloadMessage option) \<Rightarrow> jsstr \<Rightarrow> IDownloadMessage option" where
  "without_heads hs q k = Option.bind (q k) (\<lambda>d. if dm_headEncHash d \<in> Some ` set hs then None else Some d)"

definition filed :: "(jsstr, DeqGroup) jsmap \<Rightarrow> bool" where
  "filed groups = (keys_ok groups \<and>
     (\<forall>k g. map_get groups k = Some g \<longrightarrow> k = dg_host g @ [0] @ realmKey (realm_of (dg_realm g)) \<and> 0 \<notin> set (dg_host g)))"

lemma group_key_eq:
  "0 \<notin> set h \<Longrightarrow> 0 \<notin> set h' \<Longrightarrow> h @ [0 :: 16 word] @ realmKey r = h' @ [0] @ realmKey r' \<Longrightarrow> h = h' \<and> r = r'"
proof -
  assume n: "0 \<notin> set h" "0 \<notin> set h'" and e: "h @ [0] @ realmKey r = h' @ [0] @ realmKey r'"
  have t: "takeWhile (\<lambda>c. c \<noteq> 0) (x @ [0 :: 16 word] @ y) = x" if "0 \<notin> set x" for x y
    using that by (subst takeWhile_append2) auto
  have "h = h'" using arg_cong [OF e, of "takeWhile (\<lambda>c. c \<noteq> 0)"] t [OF n(1)] t [OF n(2)] by metis
  then show ?thesis using e by simp
qed

lemma noteDeq_filed:
  assumes f: "filed groups" and h: "0 \<notin> set h"
  shows "filed (noteDeq groups h q r) \<and> group_keys (noteDeq groups h q r) = insert (downloadKey h q r) (group_keys groups)"
proof -
  let ?k = "h @ [0] @ realmKey (realm_of r)"
  let ?g = "case map_get groups ?k of Some g \<Rightarrow> g\<lparr>dg_seqs := dg_seqs g @ [q]\<rparr>
            | None \<Rightarrow> \<lparr>dg_host = h, dg_realm = r, dg_seqs = [q]\<rparr>"
  have e: "noteDeq groups h q r = map_set ?k ?g groups" by (simp add: noteDeq_def Let_def split: option.splits)
  have g: "dg_host ?g = h \<and> realm_of (dg_realm ?g) = realm_of r"
  proof (cases "map_get groups ?k")
    case (Some g)
    then have "?k = dg_host g @ [0] @ realmKey (realm_of (dg_realm g))" "0 \<notin> set (dg_host g)" using f by (simp_all add: filed_def)
    from group_key_eq [OF h this(2,1)] Some show ?thesis by simp
  qed simp
  then have "downloadKey h q (dg_realm ?g) = downloadKey h q r" by (intro downloadKey_realm) (rule g [THEN conjunct2])
  then have "one_keys (Some ?g) = insert (downloadKey h q r) (one_keys (map_get groups ?k))"
    using g by (auto simp: one_keys_def split: option.splits)
  moreover have "(\<Union>k' \<in> - {?k}. one_keys (map_get (map_set ?k ?g groups) k')) = (\<Union>k' \<in> - {?k}. one_keys (map_get groups k'))"
    by simp
  moreover have "filed (map_set ?k ?g groups)"
    unfolding filed_def
  proof (intro conjI allI impI)
    show "keys_ok (map_set ?k ?g groups)" using f by (simp add: filed_def)
  next
    fix k g' assume a: "map_get (map_set ?k ?g groups) k = Some g'"
    show "k = dg_host g' @ [0] @ realmKey (realm_of (dg_realm g'))"
    proof (cases "k = ?k")
      case True
      then have "g' = ?g" using a by simp
      then show ?thesis using True g by simp
    qed (use a f in \<open>simp add: filed_def\<close>)
    show "0 \<notin> set (dg_host g')"
    proof (cases "k = ?k")
      case True
      then have "g' = ?g" using a by simp
      then show ?thesis using h g by simp
    qed (use a f in \<open>simp add: filed_def\<close>)
  qed
  ultimately show ?thesis unfolding e group_keys_split [of _ ?k] by simp
qed

lemma want_groups_filed:
  assumes "\<forall>d \<in> set ds. dm_headEncHash d \<noteq> None \<and> 0 \<notin> set (dm_host d)" "filed g" "want_groups p want ds g = Ok g'"
  shows "group_keys g' = group_keys g
    \<union> (\<lambda>d. downloadKey (dm_host d) (dm_seq d) (dm_realm d)) ` {d \<in> set ds. dm_headEncHash d \<in> Some ` set want}"
  using assms
proof (induction ds arbitrary: g)
  case (Cons d ds)
  obtain h where h: "dm_headEncHash d = Some h" "0 \<notin> set (dm_host d)" using Cons.prems(1) by auto
  let ?g = "if h \<in> set want then noteDeq g (dm_host d) (dm_seq d) (dm_realm d) else g"
  have g: "filed ?g" "group_keys ?g = group_keys g
      \<union> (if h \<in> set want then {downloadKey (dm_host d) (dm_seq d) (dm_realm d)} else {})"
    using noteDeq_filed [OF Cons.prems(2) h(2)] Cons.prems(2) by auto
  have "want_groups p want ds ?g = Ok g'" using Cons.prems(3) h(1) by simp
  from Cons.IH [OF _ g(1) this] Cons.prems(1) show ?case unfolding g(2) using h(1) by (auto simp: image_iff)
qed simp

lemma sm_apply_one:
  assumes "msgToOp m = Ok op" "ar_stats (snd (A (sm_state sm) [op])) = [st]"
  shows "\<exists>sm'. sm_apply A [m] sm = (sm', Ok [Some st]) \<and> sm_state sm' = fst (A (sm_state sm) [op])"
  using assms by (cases "A (sm_state sm) [op]") (simp add: sm_apply_def Let_def merge_stats_def)

lemma edb_one_stats: "op_parses op \<Longrightarrow>
    ar_stats (snd (edb_apply [op] db)) = [if getRow (op_eid op) (fst (edb_apply [op] db)) = getRow (op_eid op) db \<and>
        (case getRow (op_eid op) db of None \<Rightarrow> False | Some c \<Rightarrow> date_le (op_stamp op) (row_updatedAt c)) then NoChange else Success]"
  by (auto simp: edb_apply_def apply_one_def Let_def applyOp_parses getRow_def split: option.splits)

text \<open>What one write leaves in the store.\<close>

context archive_store begin

definition written :: "bytes \<Rightarrow> IMsgParts \<Rightarrow> 's \<Rightarrow> 's \<Rightarrow> bool" where
  "written key part s s' =
     (inv s' \<and> archive s' = (archive s)(key \<mapsto> setApld APLD_APPLIED None (msg2StoredMsgData part None))
      \<and> uploads s' = (\<lambda>h. if h \<in> hi_label ` set (is_hosts_list S s) then insert key (uploads s h) else uploads s h)
      \<and> cursor s' = cursor s \<and> (\<forall>k. queue s' k = None \<or> queue s' k = queue s k)
      \<and> (queue_fine (queue s) \<longrightarrow> queue s' = without_heads [key] (queue s))
      \<and> is_hosts_list S s' = is_hosts_list S s \<and> rest s' = rest s)"

lemma deq_heads_effect:
  assumes i: "inv s" and k: "known_heads (queue s)"
  shows "\<exists>s'. deqDownloadsForHeadHashes p S hs s = (s', Ok ()) \<and> inv s' \<and> archive s' = archive s \<and> uploads s' = uploads s
    \<and> cursor s' = cursor s \<and> (\<forall>k. queue s' k = None \<or> queue s' k = queue s k)
    \<and> (queue_fine (queue s) \<longrightarrow> queue s' = without_heads hs (queue s)) \<and> is_hosts_list S s' = is_hosts_list S s \<and> rest s' = rest s"
proof -
  have ds: "set (is_dn_list S s) = ran (queue s)" by (rule dn_list_law [OF i])
  have d: "\<forall>d \<in> set (is_dn_list S s). dm_headEncHash d \<noteq> None"
    using k ds by (auto simp: known_heads_def ran_def)
  obtain g where g: "want_groups p hs (is_dn_list S s) [] = Ok g" "keys_ok g"
    using want_groups_ok [OF d keys_ok_Nil, of p hs] by blast
  have h: "is_hosts_list S (flushDeq S gs s) = is_hosts_list S s \<and> rest (flushDeq S gs s) = rest s" for gs s
    unfolding flushDeq_def by (induction gs arbitrary: s) (auto simp: hosts_law rest_law split: prod.split)
  have keys: "(if k \<in> group_keys g then None else queue s k) = without_heads hs (queue s) k" if q: "queue_fine (queue s)" for k
  proof -
    have "\<forall>d \<in> set (is_dn_list S s). dm_headEncHash d \<noteq> None \<and> 0 \<notin> set (dm_host d)"
      using d q ds by (auto simp: queue_fine_def ran_def)
    moreover have "filed []" "group_keys [] = {}" by (simp_all add: filed_def keys_ok_def group_keys_def one_keys_def)
    ultimately have "group_keys g = (\<lambda>d. downloadKey (dm_host d) (dm_seq d) (dm_realm d)) ` {d \<in> ran (queue s). dm_headEncHash d \<in> Some ` set hs}"
      using want_groups_filed [OF _ _ g(1)] ds by simp
    then have "k \<in> group_keys g \<longleftrightarrow> (\<exists>d. queue s k = Some d \<and> dm_headEncHash d \<in> Some ` set hs)"
      using q unfolding queue_fine_def by (fastforce simp: ran_def)
    then show ?thesis by (cases "queue s k") (auto simp: without_heads_def)
  qed
  have none: "without_heads hs (queue s) = queue s" if "hs = [] \<or> length (is_dn_list S s) < 1"
  proof
    fix k
    have "queue s k = None \<or> hs = []" using that ds by (cases "queue s k") (auto simp: ran_def)
    then show "without_heads hs (queue s) k = queue s k" by (cases "queue s k") (auto simp: without_heads_def)
  qed
  show ?thesis
  proof (cases "hs = [] \<or> length (is_dn_list S s) < 1")
    case True
    then have "deqDownloadsForHeadHashes p S hs s = (s, Ok ())" by (auto simp: deqDownloadsForHeadHashes_def Let_def)
    then show ?thesis using i none [OF True] by (intro exI [of _ s]) simp
  next
    case False
    then have e: "deqDownloadsForHeadHashes p S hs s = (flushDeq S g s, Ok ())" by (simp add: deqDownloadsForHeadHashes_def Let_def g(1))
    note f = flushDeq_effect [OF i g(2)]
    have "queue_fine (queue s) \<longrightarrow> queue (flushDeq S g s) = without_heads hs (queue s)"
      using f keys by (auto simp: fun_eq_iff)
    moreover have "\<forall>k. queue (flushDeq S g s) k = None \<or> queue (flushDeq S g s) k = queue s k" using f by simp
    ultimately show ?thesis using e f h [of g s] by (intro exI [of _ "flushDeq S g s"]) simp
  qed
qed

lemma enq_hosts_effect:
  "inv s \<Longrightarrow> inv (foldl (\<lambda>s host. is_up_enq S (hi_label host) ks s) s hosts)
    \<and> archive (foldl (\<lambda>s host. is_up_enq S (hi_label host) ks s) s hosts) = archive s
    \<and> queue (foldl (\<lambda>s host. is_up_enq S (hi_label host) ks s) s hosts) = queue s
    \<and> cursor (foldl (\<lambda>s host. is_up_enq S (hi_label host) ks s) s hosts) = cursor s
    \<and> is_hosts_list S (foldl (\<lambda>s host. is_up_enq S (hi_label host) ks s) s hosts) = is_hosts_list S s
    \<and> rest (foldl (\<lambda>s host. is_up_enq S (hi_label host) ks s) s hosts) = rest s
    \<and> uploads (foldl (\<lambda>s host. is_up_enq S (hi_label host) ks s) s hosts) =
        (\<lambda>h. if h \<in> hi_label ` set hosts then uploads s h \<union> set ks else uploads s h)"
proof (induction hosts arbitrary: s)
  case (Cons x xs)
  note u = up_enq_law [OF Cons.prems, of "hi_label x" ks]
  then show ?case using Cons.IH [of "is_up_enq S (hi_label x) ks s"] by (auto simp: fun_eq_iff hosts_law rest_law)
qed simp

lemma apply_head_effect:
  fixes A :: "'e applier" and sm :: "'e StateManager"
  assumes i: "inv s" and kh: "known_heads (queue s)" and key: "head_key p (mp_head part) = Some key"
    and op: "msgToOp (part_msg part) = Ok op" and st: "ar_stats (snd (A (sm_state sm) [op])) = [st]"
    and ok: "st = Success \<or> st = NoChange"
  shows "\<exists>s' sm'. apply_head p S A part (s, sm) = (((s', sm'), True), Ok (mp_head part))
    \<and> written key part s s' \<and> sm_state sm' = fst (A (sm_state sm) [op])"
proof -
  obtain sm' where sm': "sm_apply A [part_msg part] sm = (sm', Ok [Some st])" "sm_state sm' = fst (A (sm_state sm) [op])"
    using sm_apply_one [OF op, of A sm st] st by blast
  let ?data = "msg2StoredMsgData part None" and ?hosts = "is_hosts_list S s"
  have rows: "storables p None [part] = Ok [\<lparr>st_key = key, st_data = ?data\<rparr>]"
    using key by (auto simp: storables_def head_key_def split: prod.splits vs.splits)
  obtain s1 sts where a: "is_msg_add S [\<lparr>st_key = key, st_data = ?data\<rparr>] s = (s1, sts)" by (metis surj_pair)
  have a1: "inv s1" "queue s1 = queue s" "uploads s1 = uploads s" "cursor s1 = cursor s" "archive s1 = (archive s)(key \<mapsto> ?data)"
    using add_law [OF i a] by simp_all
  have h1: "is_hosts_list S s1 = ?hosts" "rest s1 = rest s"
    using hosts_law(1) [of "[\<lparr>st_key = key, st_data = ?data\<rparr>]" s] rest_law(1) [of "[\<lparr>st_key = key, st_data = ?data\<rparr>]" s] a by simp_all
  obtain s2 where s2: "deqDownloadsForHeadHashes p S [key] s1 = (s2, Ok ())" "inv s2" "archive s2 = archive s1" "uploads s2 = uploads s1"
      "cursor s2 = cursor s1" "\<forall>k. queue s2 k = None \<or> queue s2 k = queue s1 k"
      "queue_fine (queue s1) \<longrightarrow> queue s2 = without_heads [key] (queue s1)" "is_hosts_list S s2 = is_hosts_list S s1" "rest s2 = rest s1"
    using deq_heads_effect [OF a1(1), of "[key]"] kh a1(2) by auto
  let ?s3 = "is_msg_markApplied S [key] s2"
  let ?s4 = "foldl (\<lambda>s host. is_up_enq S (hi_label host) [key] s) ?s3 (is_hosts_list S ?s3)"
  have ap: "applied_stat (Some st)" using ok by (auto simp: applied_stat_def)
  have mk: "markApplyStats S [key] [Some st] s2 = ?s3"
    using ap by (simp add: markApplyStats_def stat_at_def List.map_filter_def)
  have eq: "apply_head p S A part (s, sm) = (((?s4, sm'), True), Ok (mp_head part))"
    using ap by (simp add: apply_head_def client_apply_def msgsFromParts_def part_msg_def [symmetric] sm'(1) doApply_def Let_def
        defaultApplyOptions_def rows a s2(1) mk stat_at_def)
  note m = mark_law [OF s2(2), of "[key]"]
  note e = enq_hosts_effect [of ?s3 "[key]" "is_hosts_list S ?s3"]
  have q: "queue_fine (queue s) \<longrightarrow> queue ?s4 = without_heads [key] (queue s)" using m e s2(7) a1(2) by simp
  have "inv ?s4 \<and> archive ?s4 = (archive s)(key \<mapsto> setApld APLD_APPLIED None ?data) \<and> cursor ?s4 = cursor s
      \<and> (\<forall>k. queue ?s4 k = None \<or> queue ?s4 k = queue s k) \<and> is_hosts_list S ?s4 = is_hosts_list S s \<and> rest ?s4 = rest s"
    using m e a1 s2(2-6,8,9) h1 by (simp add: fun_eq_iff hosts_law rest_law)
  moreover have "uploads ?s4 = (\<lambda>h. if h \<in> hi_label ` set (is_hosts_list S s) then insert key (uploads s h) else uploads s h)"
    using m e a1(3) s2(4,8) h1(1) by (auto simp: fun_eq_iff hosts_law)
  ultimately have "written key part s ?s4" using q by (simp add: written_def)
  with eq sm'(2) show ?thesis by blast
qed

end

text \<open>On the memory store and database.\<close>

lemma mem_write:
  assumes i: "store_inv s" and kh: "known_heads (ms_queue s)" and key: "head_key p (mp_head part) = Some key"
    and op: "msgToOp (part_msg part) = Ok op" "op_parses op"
  shows "\<exists>s' sm'. apply_head p (memStore p) edb_applier part (s, sm) = (((s', sm'), True), Ok (mp_head part))
    \<and> sm_state sm' = fst (edb_apply [op] (sm_state sm)) \<and> store_inv s' \<and> known_heads (ms_queue s')
    \<and> ms_archive s' = (ms_archive s)(key \<mapsto> setApld APLD_APPLIED None (msg2StoredMsgData part None))
    \<and> ms_uploads s' = (\<lambda>h. if h \<in> hi_label ` set (ho_list (ss_hosts s)) then insert key (ms_uploads s h) else ms_uploads s h)
    \<and> ms_cursor s' = ms_cursor s \<and> ho_list (ss_hosts s') = ho_list (ss_hosts s) \<and> ms_rest s' = ms_rest s
    \<and> (queue_fine (ms_queue s) \<longrightarrow> ms_queue s' = without_heads [key] (ms_queue s))"
proof -
  obtain st where st: "ar_stats (snd (edb_applier (sm_state sm) [op])) = [st]" "st = Success \<or> st = NoChange"
    unfolding edb_applier_def using edb_one_stats [OF op(2)] by auto
  obtain s' sm' where w: "apply_head p (memStore p) edb_applier part (s, sm) = (((s', sm'), True), Ok (mp_head part))"
      "memar.written p key part s s'" "sm_state sm' = fst (edb_applier (sm_state sm) [op])"
    using memar.apply_head_effect [where A = edb_applier and sm = sm, OF i kh key op(1) st] by blast
  have "\<forall>k. ms_queue s' k = None \<or> ms_queue s' k = ms_queue s k" using w(2) unfolding memar.written_def by blast
  then have "known_heads (ms_queue s')" using kh unfolding known_heads_def by (metis option.discI)
  then show ?thesis using w unfolding memar.written_def edb_applier_def
    by (intro exI [of _ s'] exI [of _ sm']) (simp add: memStore_def)
qed

section \<open>Inserting\<close>

definition new_eid :: "bytes \<Rightarrow> date \<Rightarrow> bytes" where
  "new_eid rnd now = eid_wire \<lparr>eid_id = rnd, eid_ts = now\<rparr>"

definition insert_head :: "prims \<Rightarrow> bytes \<Rightarrow> date \<Rightarrow> IMsgEntBody \<Rightarrow> jsstr \<Rightarrow> IMessageHead" where
  "insert_head p rnd now ent typ =
     \<lparr>mh_typ = Some typ, mh_eid = new_eid rnd now, mh_off = 0, mh_ctr = 0, mh_len = int (length (ent_wire ent)),
      mh_hsh = Some (blake3_hash p (ent_wire ent))\<rparr>"

definition insert_row :: "bytes \<Rightarrow> date \<Rightarrow> IMsgEntBody \<Rightarrow> jsstr \<Rightarrow> IEntRow" where
  "insert_row rnd now ent typ =
     Live \<lparr>ent_type = typ, ent_eid = new_eid rnd now, ent_updatedAt = now, ent_createdAt = now, ent_ctr = 0,
           ent_pid = eb_pid ent, ent_tags = normalizeTags (eb_tags ent), ent_body = eb_body ent, ent_rlm = None\<rparr>"

lemma head_key_ok: "messageHead_ok h \<Longrightarrow> head_key p h = Some (blake3_hash p (messageHead_wire h))"
  using messageHeadCodec.encode_ok [of h]
  by (auto simp: head_key_def encode_with_def split: prod.splits vs.splits)

lemma new_eid_decodes:
  assumes "length rnd = 8" "date_ok now"
  shows "eid_ok \<lparr>eid_id = rnd, eid_ts = now\<rparr>" "makeEID \<lparr>eid_id = rnd, eid_ts = now\<rparr> = Ok (new_eid rnd now)"
    "\<exists>d. eid_decode (Decoder (new_eid rnd now)) = Ok (\<lparr>eid_id = rnd, eid_ts = now\<rparr>, d)" "short (new_eid rnd now)"
proof -
  show ok: "eid_ok \<lparr>eid_id = rnd, eid_ts = now\<rparr>" using assms by (simp add: eid_ok_def short_def)
  show "makeEID \<lparr>eid_id = rnd, eid_ts = now\<rparr> = Ok (new_eid rnd now)"
    using eidCodec.encode_ok [OF ok] by (simp add: makeEID_def new_eid_def)
  show "\<exists>d. eid_decode (Decoder (new_eid rnd now)) = Ok (\<lparr>eid_id = rnd, eid_ts = now\<rparr>, d)"
    using eidCodec.decode_ok [OF ok, of "[]"] by (simp add: new_eid_def)
  show "short (new_eid rnd now)"
    using assms(1) length_varint_wire [OF is_num_bound [OF date_num [OF assms(2)]]] length_varint_wire [of 8]
    by (simp add: new_eid_def eid_wire_def varbytes_wire_def short_def)
qed

lemma insert_head_facts:
  assumes p: "prims_ok p" and e: "ent_ok ent" "short (ent_wire ent)" and t: "str_ok typ" and r: "length rnd = 8" "date_ok now"
  shows "messageHead_ok (insert_head p rnd now ent typ)"
    and "genInsertHead p rnd now (ent_wire ent) typ = Ok (Some (insert_head p rnd now ent typ))"
    and "\<exists>op. msgToOp (part_msg \<lparr>mp_head = insert_head p rnd now ent typ, mp_body = Some (ent_wire ent)\<rparr>) = Ok op
           \<and> op_parses op \<and> op_eid op = new_eid rnd now \<and> op_row op = insert_row rnd now ent typ \<and> op_stamp op = now"
proof -
  obtain d where d: "eid_decode (Decoder (new_eid rnd now)) = Ok (\<lparr>eid_id = rnd, eid_ts = now\<rparr>, d)"
    using new_eid_decodes(3) [OF r] by blast
  obtain n where n: "now = Some n" using r(2) by (auto simp: date_ok_def split: option.splits)
  have h: "length (blake3_hash p (ent_wire ent)) = 32" using p by (simp add: prims_ok_def)
  show "messageHead_ok (insert_head p rnd now ent typ)"
    using t e(2) d h new_eid_decodes(4) [OF r] short_num [OF e(2)]
    by (simp add: messageHead_ok_def insert_head_def eid_readable_def hshBytes_def is_num_safe)
  show "genInsertHead p rnd now (ent_wire ent) typ = Ok (Some (insert_head p rnd now ent typ))"
    using new_eid_decodes(2) [OF r] d
    by (simp add: genInsertHead_def makeEID_def [symmetric] genUpsertHead_def date_diff_def n insert_head_def)
  obtain d' where b: "ent_decode (Decoder (ent_wire ent)) = Ok (ent, d')" using ent_decode_wire [OF e(1)] by blast
  have dt: "date_add now 0 = now" using r(2) n by (simp add: date_add_def date_ok_def mk_date_def)
  show "\<exists>op. msgToOp (part_msg \<lparr>mp_head = insert_head p rnd now ent typ, mp_body = Some (ent_wire ent)\<rparr>) = Ok op
           \<and> op_parses op \<and> op_eid op = new_eid rnd now \<and> op_row op = insert_row rnd now ent typ \<and> op_stamp op = now"
    using b d dt
    by (simp add: msgToOp_def op_parses_def op_row_def applyOp_def insert_row_def insert_head_def op_stamp_def)
qed

text \<open>C17: an insert reaches everything it must, in one call. The client returns the head; the row of the
  new entity is readable from the application state with the given type, parent, tags and body;
  the message is in the archive under the hash of its head, marked applied, with its body; its
  hash is queued for upload to every linked host; and a sync is scheduled. The rest of the store stays as
  it was: other rows, other archive entries, the queues of hosts that are not linked, hosts, cursors, realms and accounts; and
  from the download queue go exactly the downloads of this very head, no others. The entity is new to the state, the clock valid, and the
  download queue as a peek leaves it.\<close>

theorem insert_published:
  assumes s: "store_inv s" "queue_fine (ms_queue s)" and p: "prims_ok p"
    and e: "ent_ok ent" "short (ent_wire ent)" "str_ok typ" "length rnd = 8" "date_ok now"
    and new: "getRow (new_eid rnd now) (sm_state sm) = None"
  shows "\<exists>s' sm'. client_insert p (memStore p) edb_applier rnd now ent typ (s, sm) =
        (((s', sm'), True), Ok (insert_head p rnd now ent typ))
    \<and> (\<forall>i. getRow i (sm_state sm') = (if i = new_eid rnd now then Some (insert_row rnd now ent typ) else getRow i (sm_state sm)))
    \<and> ms_archive s' = (ms_archive s)(blake3_hash p (messageHead_wire (insert_head p rnd now ent typ)) \<mapsto>
         \<lparr>sd_eid = new_eid rnd now, sd_off = None, sd_ctr = None, sd_typ = (if typ = [] then None else Some typ),
          sd_body = Some (ent_wire ent), sd_rlm = None, sd_apld = Some (RawApld APLD_APPLIED), sd_err = None\<rparr>)
    \<and> ms_uploads s' = (\<lambda>h. if h \<in> hi_label ` set (ho_list (ss_hosts s))
         then insert (blake3_hash p (messageHead_wire (insert_head p rnd now ent typ))) (ms_uploads s h) else ms_uploads s h)
    \<and> ms_queue s' = (\<lambda>k. case ms_queue s k of None \<Rightarrow> None
         | Some d \<Rightarrow> if dm_headEncHash d = Some (blake3_hash p (messageHead_wire (insert_head p rnd now ent typ))) then None else Some d)
    \<and> ms_cursor s' = ms_cursor s \<and> ss_hosts s' = ss_hosts s \<and> ss_realms s' = ss_realms s \<and> ss_account s' = ss_account s"
proof -
  let ?h = "insert_head p rnd now ent typ" and ?k = "blake3_hash p (messageHead_wire (insert_head p rnd now ent typ))"
  let ?part = "\<lparr>mp_head = ?h, mp_body = Some (ent_wire ent)\<rparr>"
  note f = insert_head_facts [OF p e]
  have kh: "known_heads (ms_queue s)" using s(2) by (simp add: queue_fine_def)
  obtain op where op: "msgToOp (part_msg ?part) = Ok op" "op_parses op" "op_eid op = new_eid rnd now"
      "op_row op = insert_row rnd now ent typ" using f(3) by blast
  have key: "head_key p (mp_head ?part) = Some ?k" using head_key_ok [OF f(1)] by simp
  obtain s' sm' where w: "apply_head p (memStore p) edb_applier ?part (s, sm) = (((s', sm'), True), Ok ?h)"
      "sm_state sm' = fst (edb_apply [op] (sm_state sm))"
      "ms_archive s' = (ms_archive s)(?k \<mapsto> setApld APLD_APPLIED None (msg2StoredMsgData ?part None))"
      "ms_uploads s' = (\<lambda>h. if h \<in> hi_label ` set (ho_list (ss_hosts s)) then insert ?k (ms_uploads s h) else ms_uploads s h)"
      "ms_cursor s' = ms_cursor s" "ms_rest s' = ms_rest s" "ms_queue s' = without_heads [?k] (ms_queue s)"
    using mem_write [where sm = sm, OF s(1) kh key op(1,2)] s(2) by auto
  have eq: "client_insert p (memStore p) edb_applier rnd now ent typ (s, sm) = (((s', sm'), True), Ok ?h)"
    using w(1) by (simp add: client_insert_def encodeEnt_ok e(1) insertRaw_def f(2))
  have rows: "getRow i (sm_state sm') = (if i = new_eid rnd now then Some (insert_row rnd now ent typ) else getRow i (sm_state sm))" for i
    using op(2,3,4) new by (simp add: w(2) apply_row op_step_def applyOp_parses)
  have "setApld APLD_APPLIED None (msg2StoredMsgData ?part None) =
      \<lparr>sd_eid = new_eid rnd now, sd_off = None, sd_ctr = None, sd_typ = (if typ = [] then None else Some typ),
       sd_body = Some (ent_wire ent), sd_rlm = None, sd_apld = Some (RawApld APLD_APPLIED), sd_err = None\<rparr>"
    by (simp add: setApld_def msg2StoredMsgData_def insert_head_def realmLabel_def)
  moreover have "ms_queue s' = (\<lambda>k. case ms_queue s k of None \<Rightarrow> None | Some d \<Rightarrow> if dm_headEncHash d = Some ?k then None else Some d)"
    unfolding w(7) by (auto simp: fun_eq_iff without_heads_def split: option.split)
  ultimately show ?thesis using eq rows w(3-6) by (intro exI [of _ s'] exI [of _ sm']) simp
qed

section \<open>Updating\<close>

lemma upsert_ok:
  assumes "genUpsertHead p now eid ctr typ bod = Ok (Some h)"
  shows "\<exists>x d c n. eid_decode (Decoder eid) = Ok (x, d) \<and> eid_ts x = Some c \<and> now = Some n
    \<and> mh_eid h = eid \<and> mh_off h = n - c \<and> mh_ctr h = ctr \<and> mh_typ h = Some typ"
proof -
  obtain x d where x: "eid_decode (Decoder eid) = Ok (x, d)" using assms by (auto simp: genUpsertHead_def)
  with assms obtain o' where o': "date_diff now (eid_ts x) = Some o'" "mh_eid h = eid" "mh_off h = o'" "mh_ctr h = ctr" "mh_typ h = Some typ"
    by (auto simp: genUpsertHead_def Let_def)
  then show ?thesis using x by (cases now; cases "eid_ts x") (auto simp: date_diff_def)
qed

lemma msg_op:
  "msgToOp m = Ok op \<Longrightarrow> op_eid op = mh_eid m \<and> op_off op = mh_off m
     \<and> (op_parses op \<longrightarrow> row_ctr (op_row op) = mh_ctr m \<and> isTombstone (op_row op) = (msg_bod m = None \<or> msg_bod m = Some []))"
  by (auto simp: msgToOp_def op_row_def applyOp_def op_parses_def isTombstone_def Let_def split: option.splits if_splits vs.splits)

text \<open>What an update is worth. Whatever the clock says, a message that can be made is archived as
  applied, queued for every linked host, and reported as a success; but the row changes only if the
  clock is strictly past the row's update time. An update within the same millisecond as the row's
  last write is lost without an error.\<close>

theorem update_outcome:
  assumes s: "store_inv s" "known_heads (ms_queue s)"
    and c: "\<not> date_less now (rev_updatedAt prior)" and part: "makeUpdate p now' prior bod typ = Ok part"
    and enc: "head_key p (mp_head part) = Some key" and op: "msgToOp (part_msg part) = Ok op"
    and row: "getRow (rev_eid prior) (sm_state sm) = Some r" "row_updatedAt r = Some t"
    and n: "now' = Some n" "\<bar>n\<bar> \<le> max_time"
  shows "\<exists>s' sm'. updateRaw p (memStore p) edb_applier now now' prior bod force typ (s, sm) =
        (((s', sm'), True), Ok (mp_head part))
    \<and> (\<forall>i. getRow i (sm_state sm') =
         (if i = rev_eid prior \<and> t < n then Some (op_row op) else getRow i (sm_state sm)))
    \<and> row_ctr (op_row op) = rev_ctr prior + 1 \<and> row_updatedAt (op_row op) = Some n
    \<and> isTombstone (op_row op) = (bod = None \<or> bod = Some [])
    \<and> ms_archive s' = (ms_archive s)(key \<mapsto> setApld APLD_APPLIED None (msg2StoredMsgData part None))
    \<and> ms_uploads s' =
        (\<lambda>h. if h \<in> hi_label ` set (ho_list (ss_hosts s)) then insert key (ms_uploads s h) else ms_uploads s h)"
proof -
  obtain h where h: "genUpsertHead p now' (rev_eid prior) (rev_ctr prior + 1) typ bod = Ok (Some h)"
      "part = \<lparr>mp_head = h, mp_body = bod\<rparr>"
    using part by (auto simp: makeUpdate_def split: if_splits) (metis head_or_throw.elims vs.distinct(3) vs.inject(1))
  obtain x d c where e: "eid_decode (Decoder (rev_eid prior)) = Ok (x, d)" "eid_ts x = Some c"
      "mh_eid h = rev_eid prior" "mh_off h = n - c" "mh_ctr h = rev_ctr prior + 1"
    using upsert_ok [OF h(1)] n(1) by auto
  note o = msg_op [OF op]
  have par: "op_parses op" using o e h(2) by (simp add: op_parses_def)
  have stamp: "op_stamp op = Some n" using o e h(2) n(2) by (simp add: op_stamp_def date_add_def mk_date_def)
  obtain s' sm' where w: "apply_head p (memStore p) edb_applier part (s, sm) = (((s', sm'), True), Ok (mp_head part))"
      "sm_state sm' = fst (edb_apply [op] (sm_state sm))"
      "ms_archive s' = (ms_archive s)(key \<mapsto> setApld APLD_APPLIED None (msg2StoredMsgData part None))"
      "ms_uploads s' = (\<lambda>h. if h \<in> hi_label ` set (ho_list (ss_hosts s)) then insert key (ms_uploads s h) else ms_uploads s h)"
    using mem_write [where sm = sm, OF s enc op par] by auto
  have "updateRaw p (memStore p) edb_applier now now' prior bod force typ (s, sm) = (((s', sm'), True), Ok (mp_head part))"
    using c part w(1) by (simp add: updateRaw_def)
  moreover have "getRow i (sm_state sm') = (if i = rev_eid prior \<and> t < n then Some (op_row op) else getRow i (sm_state sm))" for i
    using row o e(3) h(2) stamp by (auto simp: w(2) apply_row op_step_def applyOp_parses [OF par])
  ultimately show ?thesis using w(3,4) o e(5) h(2) par op_row_updatedAt [OF par] stamp
    by (intro exI [of _ s'] exI [of _ sm']) simp
qed

text \<open>C31: recovery from a row in the future. When the revision to update lies after this clock and
  recovery is forced, the client writes a tombstone one millisecond past the revision, so that the
  row is gone although the clock is behind, and inserts a replacement entity that has the same id
  bytes, the present as creation time and the new content; it returns the replacement's head. Both
  messages are archived as applied. No other row changes.\<close>

theorem skew_recovery:
  assumes s: "store_inv s" "known_heads (ms_queue s)" and p: "prims_ok p"
    and e: "ent_ok ent" "short (ent_wire ent)" "str_ok typ" "length i = 8" "date_ok now'"
    and prior: "eid_decode (Decoder (rev_eid prior)) = Ok (\<lparr>eid_id = i, eid_ts = Some c\<rparr>, d)" "rev_updatedAt prior = Some u"
    and skew: "date_less now (Some u)" "\<bar>u + 1\<bar> \<le> max_time"
    and del: "head_key p \<lparr>mh_typ = Some [], mh_eid = rev_eid prior, mh_off = u - c + 1, mh_ctr = rev_ctr prior + 1,
                mh_len = 0, mh_hsh = None\<rparr> = Some dk"
    and row: "getRow (rev_eid prior) (sm_state sm) = Some r" "row_updatedAt r = Some t" "t \<le> u"
    and new: "rev_eid prior \<noteq> new_eid i now'" "getRow (new_eid i now') (sm_state sm) = None"
  shows "\<exists>s' sm'. client_update p (memStore p) edb_applier now now' prior ent True typ (s, sm) =
        (((s', sm'), True), Ok (insert_head p i now' ent typ))
    \<and> getRow (rev_eid prior) (sm_state sm') = Some (Tombstone (rev_eid prior) (Some (u + 1)) (rev_ctr prior + 1))
    \<and> getRow (new_eid i now') (sm_state sm') = Some (insert_row i now' ent typ)
    \<and> (\<forall>j. j \<noteq> rev_eid prior \<longrightarrow> j \<noteq> new_eid i now' \<longrightarrow> getRow j (sm_state sm') = getRow j (sm_state sm))
    \<and> (\<forall>k. ms_archive s' k \<noteq> ms_archive s k \<longrightarrow>
         k \<in> {dk, blake3_hash p (messageHead_wire (insert_head p i now' ent typ))}
         \<and> map_option sd_apld (ms_archive s' k) = Some (Some (RawApld APLD_APPLIED)))"
proof -
  let ?dh = "\<lparr>mh_typ = Some [], mh_eid = rev_eid prior, mh_off = u - c + 1, mh_ctr = rev_ctr prior + 1, mh_len = 0, mh_hsh = None\<rparr>"
  let ?dp = "\<lparr>mp_head = ?dh, mp_body = None\<rparr>" and ?h = "insert_head p i now' ent typ"
  let ?ip = "\<lparr>mp_head = ?h, mp_body = Some (ent_wire ent)\<rparr>" and ?k = "blake3_hash p (messageHead_wire (insert_head p i now' ent typ))"
  let ?del = "DeleteOp (rev_eid prior) (u - c + 1) (rev_ctr prior + 1)"
  have dop: "msgToOp (part_msg ?dp) = Ok ?del" by (simp add: msgToOp_def)
  have dpar: "op_parses ?del" using prior(1) by (simp add: op_parses_def)
  have dst: "op_stamp ?del = Some (u + 1)" using prior(1) skew(2) by (simp add: op_stamp_def date_add_def mk_date_def)
  have drow: "op_row ?del = Tombstone (rev_eid prior) (Some (u + 1)) (rev_ctr prior + 1)"
    using dst prior(1) by (simp add: op_row_def applyOp_def op_stamp_def)
  have dkey: "head_key p (mp_head ?dp) = Some dk" using del by simp
  obtain s1 sm1 where w1: "apply_head p (memStore p) edb_applier ?dp (s, sm) = (((s1, sm1), True), Ok ?dh)"
      "sm_state sm1 = fst (edb_apply [?del] (sm_state sm))" "store_inv s1" "known_heads (ms_queue s1)"
      "ms_archive s1 = (ms_archive s)(dk \<mapsto> setApld APLD_APPLIED None (msg2StoredMsgData ?dp None))"
    using mem_write [where sm = sm, OF s dkey dop dpar] unfolding IMsgParts.simps by blast
  note f = insert_head_facts [OF p e]
  obtain op where op: "msgToOp (part_msg ?ip) = Ok op" "op_parses op" "op_eid op = new_eid i now'"
      "op_row op = insert_row i now' ent typ" using f(3) by blast
  have key: "head_key p (mp_head ?ip) = Some ?k" using head_key_ok [OF f(1)] by simp
  obtain s2 sm2 where w2: "apply_head p (memStore p) edb_applier ?ip (s1, sm1) = (((s2, sm2), True), Ok ?h)"
      "sm_state sm2 = fst (edb_apply [op] (sm_state sm1))"
      "ms_archive s2 = (ms_archive s1)(?k \<mapsto> setApld APLD_APPLIED None (msg2StoredMsgData ?ip None))"
    using mem_write [where sm = sm1, OF w1(3,4) key op(1,2)] by auto
  have up: "genUpsertHead p now' (new_eid i now') 0 typ (Some (ent_wire ent)) = Ok (Some ?h)"
    using f(2) new_eid_decodes(2) [OF e(4,5)] by (simp add: genInsertHead_def makeEID_def)
  have dd: "date_diff (Some u) (Some c) = Some (u - c)" by (simp add: date_diff_def)
  have "updateWithSkew p (memStore p) edb_applier now' prior (Some (ent_wire ent)) True typ (s, sm) = (((s2, sm2), True), Ok ?h)"
    using w1(1) w2(1) new_eid_decodes(2) [OF e(4,5)] up by (simp add: updateWithSkew_def prior dd)
  then have eq: "client_update p (memStore p) edb_applier now now' prior ent True typ (s, sm) = (((s2, sm2), True), Ok ?h)"
    using skew(1) by (simp add: client_update_def encodeEnt_ok e(1) updateRaw_def prior(2))
  have r1: "getRow j (sm_state sm1) = (if j = rev_eid prior then Some (op_row ?del) else getRow j (sm_state sm))" for j
    using row dst by (auto simp: w1(2) apply_row op_step_def applyOp_parses [OF dpar])
  have r2: "getRow j (sm_state sm2) = (if j = new_eid i now' then Some (op_row op) else getRow j (sm_state sm1))" for j
    using new by (auto simp: w2(2) apply_row op_step_def applyOp_parses [OF op(2)] op(3) r1)
  have ar: "ms_archive s2 k \<noteq> ms_archive s k \<longrightarrow> k \<in> {dk, ?k} \<and> map_option sd_apld (ms_archive s2 k) = Some (Some (RawApld APLD_APPLIED))" for k
    by (simp add: w1(5) w2(3) setApld_def)
  show ?thesis using eq ar new(1) by (intro exI [of _ s2] exI [of _ sm2]) (simp add: r2 r1 drow op(4))
qed

section \<open>Witnesses of the writes\<close>

definition sample_ent :: IMsgEntBody where
  "sample_ent = \<lparr>eb_pid = None, eb_tags = None, eb_body = Some [7]\<rparr>"

lemma sample_ent_ok: "ent_ok sample_ent" "short (ent_wire sample_ent)" "str_ok []" "date_ok (Some 5)"
  by (simp add: sample_ent_def ent_ok_def) code_simp+

lemma sample_listed: "hi_label ` set (ho_list (ss_hosts sample_store)) = {js ''h''}"
  by (simp add: sample_store_def MemoryStore_new_def ho_add_def ho_list_def new_row_def projectRealmCursors_def)

lemma sample_known: "known_heads (ms_queue sample_store)"
  by (simp add: known_heads_def)

definition waiting_dl :: IDownloadMessage where
  "waiting_dl = \<lparr>dm_kdm = replicate 8 0, dm_seq = 1, dm_head = insert_head toy_prims (replicate 8 2) (Some 5) sample_ent [],
     dm_host = js ''h'', dm_headEnc = None, dm_headEncHash = Some [3], dm_realm = None\<rparr>"

definition waiting_store :: MemoryStore where
  "waiting_store = sample_store\<lparr>ss_downloads := dn_enq [waiting_dl] []\<rparr>"

lemma waiting_queue: "ms_queue waiting_store = [downloadKey (js ''h'') 1 None \<mapsto> waiting_dl]"
  by (auto simp: fun_eq_iff ms_queue_def waiting_store_def dn_enq_def waiting_dl_def)

lemma waiting_fine: "store_inv waiting_store" "queue_fine (ms_queue waiting_store)"
proof -
  show "store_inv waiting_store"
    using sample_store_inv by (simp add: store_inv_def waiting_store_def dn_enq_def keys_ok_def)
  have "0 \<notin> set (js ''h'')" by code_simp
  then show "queue_fine (ms_queue waiting_store)"
    by (auto simp: waiting_queue queue_fine_def known_heads_def waiting_dl_def)
qed

theorem insert_published_witness:
  "\<exists>s' sm'. client_insert toy_prims (memStore toy_prims) edb_applier (replicate 8 1) (Some 5) sample_ent [] (waiting_store, sample_sm) =
      (((s', sm'), True), Ok (insert_head toy_prims (replicate 8 1) (Some 5) sample_ent []))
    \<and> getRow (new_eid (replicate 8 1) (Some 5)) (sm_state sm') = Some (insert_row (replicate 8 1) (Some 5) sample_ent [])
    \<and> ms_uploads s' (js ''h'') =
        {blake3_hash toy_prims (messageHead_wire (insert_head toy_prims (replicate 8 1) (Some 5) sample_ent []))}
    \<and> ms_queue s' (downloadKey (js ''h'') 1 None) = Some waiting_dl"
proof -
  have new: "getRow (new_eid (replicate 8 1) (Some 5)) (sm_state sample_sm) = None" by (simp add: sample_sm_def)
  have l: "hi_label ` set (ho_list (ss_hosts waiting_store)) = {js ''h''}" "ms_uploads waiting_store (js ''h'') = {}"
    using sample_listed sample_store_simps(5) by (simp_all add: waiting_store_def ms_uploads_def)
  have "dm_headEncHash waiting_dl \<noteq> Some (blake3_hash toy_prims b)" for b
  proof
    assume "dm_headEncHash waiting_dl = Some (blake3_hash toy_prims b)"
    then have "length (blake3_hash toy_prims b) = length [3 :: 8 word]" by (simp add: waiting_dl_def)
    then show False using prims_hash [OF toy_prims_ok, of b] by simp
  qed
  then show ?thesis
    using insert_published [OF waiting_fine toy_prims_ok sample_ent_ok(1,2,3) length_replicate sample_ent_ok(4) new] l
    by (auto simp: waiting_queue)
qed

text \<open>A database with one row, written at time 20, and an update in that very millisecond.\<close>

definition row_sm :: "EntDBMemory StateManager" where
  "row_sm = sample_sm\<lparr>sm_state := put (Tombstone [1, 5, 0] (Some 20) 1) (sm_state sample_sm)\<rparr>"

definition row_rev :: IEntRev where
  "row_rev = \<lparr>rev_eid = [1, 5, 0], rev_ctr = 1, rev_updatedAt = Some 20\<rparr>"

lemma row_sm_row: "getRow [1, 5, 0] (sm_state row_sm) = Some (Tombstone [1, 5, 0] (Some 20) 1)"
  by (simp add: row_sm_def getRow_def put_ents)

definition row_head :: IMessageHead where
  "row_head = \<lparr>mh_typ = Some [], mh_eid = [1, 5, 0], mh_off = 20, mh_ctr = 2, mh_len = 0, mh_hsh = None\<rparr>"

lemma row_update: "makeUpdate toy_prims (Some 20) row_rev None [] = Ok \<lparr>mp_head = row_head, mp_body = None\<rparr>"
  by code_simp

lemma row_head_ok: "messageHead_ok row_head"
  by code_simp

theorem update_outcome_witness:
  "\<exists>s' sm'. updateRaw toy_prims (memStore toy_prims) edb_applier (Some 20) (Some 20) row_rev None False [] (sample_store, row_sm) =
      (((s', sm'), True), Ok row_head)
    \<and> getRow [1, 5, 0] (sm_state sm') = Some (Tombstone [1, 5, 0] (Some 20) 1)"
proof -
  have 1: "\<not> date_less (Some 20) (rev_updatedAt row_rev)" by (simp add: row_rev_def date_less_def)
  have 2: "head_key toy_prims (mp_head \<lparr>mp_head = row_head, mp_body = None\<rparr>) = Some (blake3_hash toy_prims (messageHead_wire row_head))"
    using head_key_ok [OF row_head_ok] by simp
  have 3: "msgToOp (part_msg \<lparr>mp_head = row_head, mp_body = None\<rparr>) = Ok (DeleteOp [1, 5, 0] 20 2)"
    by (simp add: msgToOp_def row_head_def)
  have 4: "getRow (rev_eid row_rev) (sm_state row_sm) = Some (Tombstone [1, 5, 0] (Some 20) 1)"
    using row_sm_row by (simp add: row_rev_def)
  show ?thesis
    using update_outcome [where t = 20 and n = 20 and force = False, OF sample_store_inv sample_known 1 row_update 2 3 4] row_sm_row
    by (auto simp: max_time_def)
qed

theorem skew_recovery_witness:
  "\<exists>s' sm'. client_update toy_prims (memStore toy_prims) edb_applier (Some 5) (Some 6)
        \<lparr>rev_eid = new_eid (replicate 8 1) (Some 0), rev_ctr = 1, rev_updatedAt = Some 20\<rparr> sample_ent True []
        (sample_store, sample_sm\<lparr>sm_state := put (Tombstone (new_eid (replicate 8 1) (Some 0)) (Some 20) 1) (sm_state sample_sm)\<rparr>) =
      (((s', sm'), True), Ok (insert_head toy_prims (replicate 8 1) (Some 6) sample_ent []))
    \<and> getRow (new_eid (replicate 8 1) (Some 0)) (sm_state sm') = Some (Tombstone (new_eid (replicate 8 1) (Some 0)) (Some 21) 2)
    \<and> getRow (new_eid (replicate 8 1) (Some 6)) (sm_state sm') = Some (insert_row (replicate 8 1) (Some 6) sample_ent [])"
proof -
  let ?e = "new_eid (replicate 8 1) (Some 0)" and ?e' = "new_eid (replicate 8 1) (Some 6)"
  let ?prior = "\<lparr>rev_eid = ?e, rev_ctr = 1, rev_updatedAt = Some 20\<rparr>"
  let ?sm = "sample_sm\<lparr>sm_state := put (Tombstone ?e (Some 20) 1) (sm_state sample_sm)\<rparr>"
  let ?dh = "\<lparr>mh_typ = Some [], mh_eid = ?e, mh_off = 20 - 0 + 1, mh_ctr = 1 + 1, mh_len = 0, mh_hsh = None\<rparr>"
  obtain d where d: "eid_decode (Decoder (rev_eid ?prior)) = Ok (\<lparr>eid_id = replicate 8 1, eid_ts = Some 0\<rparr>, d)"
    using new_eid_decodes(3) [of "replicate 8 1" "Some 0"] by (auto simp: date_ok_def max_time_def)
  have ne: "?e \<noteq> ?e'" by code_simp
  have ok: "messageHead_ok ?dh" by code_simp
  have k: "head_key toy_prims \<lparr>mh_typ = Some [], mh_eid = rev_eid ?prior, mh_off = 20 - 0 + 1, mh_ctr = rev_ctr ?prior + 1,
      mh_len = 0, mh_hsh = None\<rparr> = Some (blake3_hash toy_prims (messageHead_wire ?dh))"
    using head_key_ok [OF ok] by simp
  have r: "getRow (rev_eid ?prior) (sm_state ?sm) = Some (Tombstone ?e (Some 20) 1)" by (simp add: getRow_def put_ents)
  have n: "getRow ?e' (sm_state ?sm) = None" using ne by (simp add: getRow_def put_ents sample_sm_def EntDBMemory_new_def)
  have dt: "date_ok (Some 6)" "date_less (Some 5) (Some 20)" by (simp_all add: date_ok_def max_time_def date_less_def)
  show ?thesis
    using skew_recovery [where u = 20 and t = 20, OF sample_store_inv sample_known toy_prims_ok sample_ent_ok(1,2,3) _ dt(1) d _ dt(2) _ k r _ _ _ n] ne
    by (auto simp: max_time_def)
qed

section \<open>Healing and rebuilding\<close>

lemma apld_setApld [simp]: "apldFromStored (sd_apld (setApld APLD_APPLIED None d)) = APLD_APPLIED"
  by (simp add: setApld_def)

definition stored_msg :: "IStoredMessage \<Rightarrow> IMessage" where
  "stored_msg m = IMessageHead.extend (im_head m) (IMessage.fields (im_body m))"

definition parses_msg :: "IMessage \<Rightarrow> bool" where
  "parses_msg m = (\<exists>op. msgToOp m = Ok op \<and> op_parses op)"

definition row_step :: "IMessage list \<Rightarrow> bytes \<Rightarrow> IEntRow option \<Rightarrow> IEntRow option" where
  "row_step msgs i r = foldl op_step r (filter (\<lambda>op. op_eid op = i) (ops_of msgs))"

lemma row_step_append: "row_step (xs @ ys) i r = row_step ys i (row_step xs i r)"
  by (simp add: row_step_def)

lemma edb_stats_parse:
  "list_all op_parses ops \<Longrightarrow> set (ar_stats (snd (edb_apply ops db))) \<subseteq> {Success, NoChange}"
proof -
  have "list_all op_parses ops \<Longrightarrow> set (ar_stats (snd st)) \<subseteq> {Success, NoChange} \<Longrightarrow>
      set (ar_stats (snd (foldl apply_one st ops))) \<subseteq> {Success, NoChange}" for st
  proof (induction ops arbitrary: st)
    case (Cons op ops)
    have "set (ar_stats (snd (apply_one st op))) \<subseteq> {Success, NoChange}"
      using Cons.prems by (auto simp: apply_one_def Let_def applyOp_parses split: prod.splits)
    then show ?case using Cons by simp
  qed simp
  then show "list_all op_parses ops \<Longrightarrow> ?thesis" by (simp add: edb_apply_def)
qed

lemma parsed_msgs:
  assumes "\<forall>m \<in> set msgs. parses_msg m"
  shows "no_throw msgs" "list_all op_parses (ops_of msgs)" "length (ops_of msgs) = length msgs"
    "map (\<lambda>m. status_of (msgToOp m)) msgs = replicate (length msgs) Success"
  using assms by (induction msgs) (auto simp: no_throw_def parses_msg_def)

lemma sm_apply_parsed:
  assumes "\<forall>m \<in> set msgs. parses_msg m"
  shows "\<exists>sm' stats. sm_apply edb_applier msgs sm = (sm', Ok (map Some stats)) \<and> length stats = length msgs
    \<and> set stats \<subseteq> {Success, NoChange}
    \<and> (\<forall>i. getRow i (sm_state sm') = row_step msgs i (getRow i (sm_state sm)))"
proof -
  note f = parsed_msgs [OF assms]
  let ?r = "edb_apply (ops_of msgs) (sm_state sm)" and ?sm = "fst (sm_apply edb_applier msgs sm)"
  have l: "length (ar_stats (snd ?r)) = length msgs" by (simp add: apply_stats_length f(3))
  have "sm_apply edb_applier msgs sm = (?sm, Ok (map Some (ar_stats (snd ?r))))"
    using sm_apply_eq(1) [OF f(1), of edb_applier sm] merge_parsed [OF l]
    by (metis edb_applier_def f(4) prod.collapse)
  then show ?thesis using l edb_stats_parse [OF f(2), of "sm_state sm"] sm_apply_eq(2) [OF f(1), of edb_applier sm]
    by (intro exI [of _ ?sm] exI [of _ "ar_stats (snd ?r)"]) (simp add: edb_applier_def apply_row row_step_def)
qed

lemma map_filter_nothing: "\<forall>x \<in> set xs. f x = None \<Longrightarrow> List.map_filter f xs = []"
  by (induction xs) (auto simp: List.map_filter_def)

lemma marks_all:
  assumes "length stats = length keys" "keys \<noteq> []" "set stats \<subseteq> {Success, NoChange}"
  shows "markApplyStats S keys (map Some stats) s = is_msg_markApplied S keys s"
proof -
  have n: "map (stat_at (map Some stats)) [0..<length keys] = map Some stats"
    using assms(1) by (intro nth_equalityI) (auto simp: stat_at_def)
  let ?rows = "zip keys (map Some stats)"
  have a: "\<forall>x \<in> set ?rows. applied_stat (snd x)"
    using assms(3) by (auto dest!: set_zip_rightD simp: applied_stat_def)
  then have f: "filter (\<lambda>(_, st). applied_stat st) ?rows = ?rows" by (auto intro: filter_True simp: case_prod_unfold)
  have m: "List.map_filter (\<lambda>(key, st). case st of None \<Rightarrow> None
      | Some st \<Rightarrow> if \<not> applied_stat (Some st) \<and> isTerminalApplyFailure st then Some (key, st) else None) ?rows = []"
    using a by (intro map_filter_nothing) (auto split: option.splits)
  show ?thesis using assms(1,2) unfolding markApplyStats_def n Let_def f m by simp
qed

context archive_store begin

lemma apply_stored_parsed:
  assumes "stored \<noteq> []" "\<forall>m \<in> set stored. parses_msg (stored_msg m)"
  shows "\<exists>sm' stats. applyStored S edb_applier stored (s, sm) = ((is_msg_markApplied S (map im_hash stored) s, sm'), Ok stats)
    \<and> (\<forall>i. getRow i (sm_state sm') = row_step (map stored_msg stored) i (getRow i (sm_state sm)))"
proof -
  have "\<forall>m \<in> set (map stored_msg stored). parses_msg m" using assms(2) by simp
  from sm_apply_parsed [OF this, of sm] obtain sm' stats where a:
      "sm_apply edb_applier (map stored_msg stored) sm = (sm', Ok (map Some stats))" "length stats = length stored"
      "set stats \<subseteq> {Success, NoChange}" "\<forall>i. getRow i (sm_state sm') = row_step (map stored_msg stored) i (getRow i (sm_state sm))"
    by auto
  have "markApplyStats S (map im_hash stored) (map Some stats) s = is_msg_markApplied S (map im_hash stored) s"
    using a(2,3) assms(1) by (intro marks_all) simp_all
  then show ?thesis using a(1,4) assms(1)
    by (auto simp: applyStored_def stored_msg_def [abs_def] Suc_le_eq)
qed

definition marked :: "IStoredMessage list \<Rightarrow> 's \<Rightarrow> 's \<Rightarrow> bool" where
  "marked ms s s' =
     (inv s' \<and> queue s' = queue s \<and> uploads s' = uploads s \<and> cursor s' = cursor s
      \<and> archive s' = (\<lambda>k. if k \<in> im_hash ` set ms then map_option (setApld APLD_APPLIED None) (archive s k) else archive s k))"

lemma marked_applied: "inv s \<Longrightarrow> marked ms s (is_msg_markApplied S (map im_hash ms) s)"
  using mark_law [of s "map im_hash ms"] by (simp add: marked_def)

lemma marked_trans: "marked xs s s' \<Longrightarrow> marked ys s' s'' \<Longrightarrow> marked (xs @ ys) s s''"
  by (auto simp: marked_def fun_eq_iff option.map_comp comp_def)

lemma replay_loop_parsed:
  "inv s \<Longrightarrow> \<forall>m \<in> set ms. parses_msg (stored_msg m) \<Longrightarrow>
    \<exists>s' sm'. replay_loop S edb_applier ms (s, sm) = ((s', sm'), Ok ()) \<and> marked ms s s'
      \<and> (\<forall>i. getRow i (sm_state sm') = row_step (map stored_msg ms) i (getRow i (sm_state sm)))"
proof (induction "length ms" arbitrary: ms s sm rule: less_induct)
  case less
  show ?case
  proof (cases ms)
    case Nil
    then show ?thesis using less.prems(1) by (simp add: marked_def row_step_def)
  next
    case (Cons m ms')
    define n where "n = batch_size (map (\<lambda>m. mh_len (im_head m)) (m # ms')) 0 0"
    let ?xs = "take n ms" and ?ys = "drop n ms"
    have n: "0 < n" using batch_size_pos [of "map (\<lambda>m. mh_len (im_head m)) (m # ms')"] by (simp add: n_def)
    have x: "?xs \<noteq> []" "\<forall>m \<in> set ?xs. parses_msg (stored_msg m)" and y: "\<forall>m \<in> set ?ys. parses_msg (stored_msg m)"
      using n Cons less.prems(2) in_set_takeD [of _ n ms] in_set_dropD [of _ n ms] by (simp, blast, blast)
    obtain sm1 stats where a: "applyStored S edb_applier ?xs (s, sm) = ((is_msg_markApplied S (map im_hash ?xs) s, sm1), Ok stats)"
        "\<forall>i. getRow i (sm_state sm1) = row_step (map stored_msg ?xs) i (getRow i (sm_state sm))"
      using apply_stored_parsed [OF x, of s sm] by blast
    note mx = marked_applied [OF less.prems(1), of ?xs]
    have "length ?ys < length ms" using n Cons by simp
    from less.hyps [OF this _ y, of "is_msg_markApplied S (map im_hash ?xs) s" sm1] mx obtain s' sm' where
        r: "replay_loop S edb_applier ?ys (is_msg_markApplied S (map im_hash ?xs) s, sm1) = ((s', sm'), Ok ())"
          "marked ?ys (is_msg_markApplied S (map im_hash ?xs) s) s'"
          "\<forall>i. getRow i (sm_state sm') = row_step (map stored_msg ?ys) i (getRow i (sm_state sm1))"
      by (auto simp: marked_def)
    have "replay_loop S edb_applier ms (s, sm) = ((s', sm'), Ok ())"
      using a(1) r(1) unfolding Cons by (simp add: n_def)
    moreover have "marked ms s s'" using marked_trans [OF mx r(2)] by simp
    moreover have "map stored_msg ms = map stored_msg ?xs @ map stored_msg ?ys"
      by (metis append_take_drop_id map_append)
    ultimately show ?thesis using a(2) r(3)
      by (intro exI [of _ s'] exI [of _ sm']) (simp add: row_step_append)
  qed
qed

end

text \<open>The message of an archive row, and the messages that an archive holds.\<close>

definition row_msg :: "prims \<Rightarrow> bytes \<Rightarrow> IStoredMessageData \<Rightarrow> IMessage" where
  "row_msg p k d = stored_msg (toStoredMessage p k d True)"

definition settled_archive :: "(bytes \<Rightarrow> IStoredMessageData option) \<Rightarrow> bool" where
  "settled_archive a = (\<forall>k d. a k = Some d \<longrightarrow> apldFromStored (sd_apld d) \<noteq> APLD_PENDING)"

lemma pending_marked:
  assumes "store_inv s" "memar.marked (sortByHlcDesc (is_msg_list (memStore p) (Some APLD_PENDING) s) im_head) s s'"
  shows "ms_archive s' = (\<lambda>k. map_option (\<lambda>d. if apldFromStored (sd_apld d) = APLD_PENDING then setApld APLD_APPLIED None d else d) (ms_archive s k))"
proof
  fix k
  have h: "im_hash (toStoredMessage p k d True) = k" for k d by (simp add: toStoredMessage_def Let_def)
  have m: "k \<in> im_hash ` set (sortByHlcDesc (is_msg_list (memStore p) (Some APLD_PENDING) s) im_head)
      \<longleftrightarrow> (\<exists>d. ms_archive s k = Some d \<and> apldFromStored (sd_apld d) = APLD_PENDING)"
    using memar.list_law [OF assms(1), of p "Some APLD_PENDING"] by (force simp: sortByHlcDesc_def h image_iff)
  show "ms_archive s' k = map_option (\<lambda>d. if apldFromStored (sd_apld d) = APLD_PENDING then setApld APLD_APPLIED None d else d) (ms_archive s k)"
    using assms(2) m by (cases "ms_archive s k") (auto simp: memar.marked_def)
qed

lemma settled_none_pending:
  "store_inv s \<Longrightarrow> settled_archive (ms_archive s) \<Longrightarrow> is_msg_list (memStore p) (Some APLD_PENDING) s = []"
proof -
  assume "store_inv s" "settled_archive (ms_archive s)"
  then have "set (is_msg_list (memStore p) (Some APLD_PENDING) s) = {}"
    using memar.list_law [of s p "Some APLD_PENDING"] by (auto simp: settled_archive_def eq_commute [of APLD_PENDING])
  then show ?thesis by simp
qed

text \<open>C19: when every pending message parses, draining heals the archive in one pass: after draining the apply queue no row is
  pending, exactly the pending ones have become applied, the queues and the cursors are untouched, the state has executed the pending
  messages and nothing else, and draining again does nothing. One pending message that does not parse voids this, as it shifts
  the statuses of the others (\<open>state_apply_misaligned\<close>).\<close>

theorem drain_settles:
  assumes s: "store_inv s"
    and ok: "\<forall>k d. ms_archive s k = Some d \<and> apldFromStored (sd_apld d) = APLD_PENDING \<longrightarrow> parses_msg (row_msg p k d)"
  shows "\<exists>s' sm' stats msgs. drainApplyQueue (memStore p) edb_applier (s, sm) = ((s', sm'), Ok stats)
    \<and> ms_archive s' = (\<lambda>k. map_option (\<lambda>d. if apldFromStored (sd_apld d) = APLD_PENDING then setApld APLD_APPLIED None d else d) (ms_archive s k))
    \<and> settled_archive (ms_archive s') \<and> ms_queue s' = ms_queue s \<and> ms_uploads s' = ms_uploads s \<and> ms_cursor s' = ms_cursor s
    \<and> set msgs = {row_msg p k d | k d. ms_archive s k = Some d \<and> apldFromStored (sd_apld d) = APLD_PENDING}
    \<and> (\<forall>i. getRow i (sm_state sm') = row_step msgs i (getRow i (sm_state sm)))
    \<and> drainApplyQueue (memStore p) edb_applier (s', sm') = ((s', sm'), Ok [])"
proof -
  let ?pending = "is_msg_list (memStore p) (Some APLD_PENDING) s"
  let ?ms = "sortByHlcDesc ?pending im_head"
  have set_ms: "set (map stored_msg ?ms) = {row_msg p k d | k d. ms_archive s k = Some d \<and> apldFromStored (sd_apld d) = APLD_PENDING}"
    using memar.list_law [OF s, of p "Some APLD_PENDING"] by (force simp: sortByHlcDesc_def row_msg_def)
  have par: "\<forall>m \<in> set ?ms. parses_msg (stored_msg m)"
  proof
    fix m assume "m \<in> set ?ms"
    then have "stored_msg m \<in> set (map stored_msg ?ms)" by simp
    then obtain k d where "stored_msg m = row_msg p k d" "ms_archive s k = Some d" "apldFromStored (sd_apld d) = APLD_PENDING"
      unfolding set_ms by blast
    then show "parses_msg (stored_msg m)" using ok by simp
  qed
  have "\<exists>s' sm' stats. drainApplyQueue (memStore p) edb_applier (s, sm) = ((s', sm'), Ok stats) \<and> memar.marked ?ms s s'
      \<and> (\<forall>i. getRow i (sm_state sm') = row_step (map stored_msg ?ms) i (getRow i (sm_state sm)))"
  proof (cases "?pending = []")
    case True
    then show ?thesis using s
      by (auto simp: drainApplyQueue_def memar.marked_def sortByHlcDesc_def js_sort_def row_step_def)
  next
    case False
    then have ne: "?ms \<noteq> []" by (metis length_0_conv length_js_sort sortByHlcDesc_def)
    from memar.apply_stored_parsed [where p = p and s = s and sm = sm, OF ne par] show ?thesis
      using memar.marked_applied [where p = p and ms = ?ms, OF s] False by (auto simp: drainApplyQueue_def Let_def Suc_le_eq)
  qed
  then obtain s' sm' stats where d: "drainApplyQueue (memStore p) edb_applier (s, sm) = ((s', sm'), Ok stats)" "memar.marked ?ms s s'"
      "\<forall>i. getRow i (sm_state sm') = row_step (map stored_msg ?ms) i (getRow i (sm_state sm))" by blast
  note a = pending_marked [OF s d(2)]
  have st: "settled_archive (ms_archive s')"
    unfolding settled_archive_def a
  proof (intro allI impI)
    fix k d
    assume "map_option (\<lambda>d. if apldFromStored (sd_apld d) = APLD_PENDING then setApld APLD_APPLIED None d else d) (ms_archive s k) = Some d"
    then obtain z where "d = (if apldFromStored (sd_apld z) = APLD_PENDING then setApld APLD_APPLIED None z else z)" by blast
    then show "apldFromStored (sd_apld d) \<noteq> APLD_PENDING" by simp
  qed
  have i: "store_inv s'" "ms_queue s' = ms_queue s" "ms_uploads s' = ms_uploads s" "ms_cursor s' = ms_cursor s"
    using d(2) by (simp_all add: memar.marked_def)
  have "drainApplyQueue (memStore p) edb_applier (s', sm') = ((s', sm'), Ok [])"
    using settled_none_pending [OF i(1) st, of p] by (simp add: drainApplyQueue_def)
  then show ?thesis using d(1,3) a st i set_ms
    by (intro exI [of _ s'] exI [of _ sm'] exI [of _ stats] exI [of _ "map stored_msg ?ms"]) simp
qed

lemma ops_of_set: "set (ops_of ms) = {op. \<exists>m \<in> set ms. msgToOp m = Ok op}"
  by (induction ms) (auto split: vs.splits)

text \<open>The memory database under the client.\<close>

definition edb_state :: "EntDBMemory AppState" where
  "edb_state = \<lparr>as_applier = edb_applier, as_clearer = edb_clearer\<rparr>"

lemma getRow_clear [simp]: "getRow i (edb_clear db) = None"
  by (simp add: getRow_def edb_clear_def clearIndexes_def)

lemma fold_rows_converge:
  assumes "set ops = set ops'" "list_all op_dated ops" "stamps_differ ops"
  shows "foldl op_step None (filter (\<lambda>op. op_eid op = i) ops) = foldl op_step None (filter (\<lambda>op. op_eid op = i) ops')"
  using rows_converge [OF assms, of i True True] by (simp add: apply_row)

text \<open>C18: a rebuild reproduces the live state, when timestamps are distinct. Suppose that every archived message parses, that the
  operations of the archive have valid times, and that no two different ones of an entity carry the same timestamp. A replay clears the
  state and executes the whole archive, newest first and in batches; afterwards every entity has the row that a database has which
  executed the archived operations in any other order, with any repetitions, such as the order in which this device wrote and
  received them. Every row of the archive ends up applied. With two revisions of one entity in the same millisecond the replay may
  keep the other one (\<open>tie_keeps_first\<close>).\<close>

theorem replay_rebuilds:
  assumes s: "store_inv (cl_store c)"
    and ok: "\<forall>k d. ms_archive (cl_store c) k = Some d \<longrightarrow> parses_msg (row_msg p k d)"
    and ops: "set ops = {op. \<exists>k d. ms_archive (cl_store c) k = Some d \<and> msgToOp (row_msg p k d) = Ok op}"
      "list_all op_dated ops" "stamps_differ ops"
  shows "\<exists>c'. replay edb_state (memClientStore p) c = (c', Ok ())
    \<and> (\<forall>i. getRow i (sm_state (cl_state c')) = getRow i (fst (edb_apply ops (EntDBMemory_new [] u))))
    \<and> ms_archive (cl_store c') = (\<lambda>k. map_option (setApld APLD_APPLIED None) (ms_archive (cl_store c) k))
    \<and> ms_queue (cl_store c') = ms_queue (cl_store c) \<and> ms_uploads (cl_store c') = ms_uploads (cl_store c)
    \<and> cl_account c' = cl_account c \<and> cl_connections c' = cl_connections c"
proof -
  let ?s = "cl_store c"
  let ?ms = "sortByHlcDesc (is_msg_list (memStore p) None ?s) im_head"
  obtain sm0 where clr: "sm_clear edb_clearer (cl_state c) = (sm0, Ok ())" "sm_state sm0 = edb_clear (sm_state (cl_state c))"
    by (simp add: sm_clear_def edb_clearer_def)
  have set_ms: "set ?ms = {toStoredMessage p k d True | k d. ms_archive ?s k = Some d}"
    using memar.list_law [OF s, of p None] by (simp add: sortByHlcDesc_def)
  have par: "\<forall>m \<in> set ?ms. parses_msg (stored_msg m)" using ok unfolding set_ms by (auto simp: row_msg_def)
  have hs: "im_hash ` set ?ms = {k. ms_archive ?s k \<noteq> None}"
  proof -
    have "im_hash (toStoredMessage p k d True) = k" for k d by (simp add: toStoredMessage_def Let_def)
    then show ?thesis unfolding set_ms by (force simp: image_iff)
  qed
  obtain s' sm' where r: "replay_loop (memStore p) edb_applier ?ms (?s, sm0) = ((s', sm'), Ok ())" "memar.marked ?ms ?s s'"
      "\<forall>i. getRow i (sm_state sm') = row_step (map stored_msg ?ms) i (getRow i (sm_state sm0))"
    using memar.replay_loop_parsed [where p = p and sm = sm0, OF s par] by blast
  let ?c = "c\<lparr>cl_state := sm', cl_store := s'\<rparr>"
  have eq: "replay edb_state (memClientStore p) c = (?c, Ok ())"
    unfolding replay_def on_core_def edb_state_def memClientStore_def ClientStore.simps AppState.simps clr(1) prod.case andThenC.simps
    by (simp add: r(1))
  have so: "set ops = set (ops_of (map stored_msg ?ms))"
    unfolding ops(1) ops_of_set set_map set_ms row_msg_def by blast
  have rows: "getRow i (sm_state sm') = getRow i (fst (edb_apply ops (EntDBMemory_new [] u)))" for i
    unfolding r(3) [rule_format] clr(2) apply_row row_step_def getRow_clear getRow_empty
    by (rule fold_rows_converge [OF so ops(2,3), symmetric])
  have ar: "ms_archive s' = (\<lambda>k. map_option (setApld APLD_APPLIED None) (ms_archive ?s k))"
    "ms_queue s' = ms_queue ?s" "ms_uploads s' = ms_uploads ?s"
  proof -
    have m: "ms_archive s' = (\<lambda>k. if k \<in> {k. ms_archive ?s k \<noteq> None} then map_option (setApld APLD_APPLIED None) (ms_archive ?s k) else ms_archive ?s k)"
      using r(2) unfolding memar.marked_def hs by blast
    show "ms_archive s' = (\<lambda>k. map_option (setApld APLD_APPLIED None) (ms_archive ?s k))" unfolding m by auto
    show "ms_queue s' = ms_queue ?s" "ms_uploads s' = ms_uploads ?s" using r(2) unfolding memar.marked_def by blast+
  qed
  show ?thesis
  proof (intro exI conjI allI)
    show "replay edb_state (memClientStore p) c = (?c, Ok ())" by (rule eq)
    show "getRow i (sm_state (cl_state ?c)) = getRow i (fst (edb_apply ops (EntDBMemory_new [] u)))" for i using rows by simp
  qed (simp_all add: ar)
qed

text \<open>A store with one pending delete.\<close>

definition pending_row :: IStoredMessageData where
  "pending_row = msg2StoredMsgData \<lparr>mp_head = row_head, mp_body = None\<rparr> None"

definition pending_store :: MemoryStore where
  "pending_store = sample_store\<lparr>ss_messages := [(btob64 [1], pending_row)]\<rparr>"

lemma pending_store_inv: "store_inv pending_store"
  using sample_store_inv by (auto simp: store_inv_def pending_store_def keys_ok_def)

lemma pending_archive: "ms_archive pending_store k = (if k = [1] then Some pending_row else None)"
  by (simp add: ms_archive_def pending_store_def eq_commute)

lemma pending_msg: "msgToOp (row_msg toy_prims k pending_row) = Ok (DeleteOp [1, 5, 0] 20 2)"
  by (simp add: row_msg_def stored_msg_def toStoredMessage_def Let_def pending_row_def msg2StoredMsgData_def row_head_def
      msgToOp_def IMessageHead.defs IMessage.defs)

lemma pending_parses: "parses_msg (row_msg toy_prims k pending_row)"
  using pending_msg [of k] by (auto simp: parses_msg_def) code_simp

theorem drain_settles_witness:
  "\<exists>s' sm' stats. drainApplyQueue (memStore toy_prims) edb_applier (pending_store, sample_sm) = ((s', sm'), Ok stats)
    \<and> ms_archive s' [1] = Some (setApld APLD_APPLIED None pending_row) \<and> settled_archive (ms_archive s')"
proof -
  have "apldFromStored (sd_apld pending_row) = APLD_PENDING" by (simp add: pending_row_def msg2StoredMsgData_def)
  note n = this
  have "\<forall>k d. ms_archive pending_store k = Some d \<and> apldFromStored (sd_apld d) = APLD_PENDING \<longrightarrow> parses_msg (row_msg toy_prims k d)"
    using pending_parses by (simp add: pending_archive)
  from drain_settles [OF pending_store_inv this, of sample_sm] obtain s' sm' stats where
      d: "drainApplyQueue (memStore toy_prims) edb_applier (pending_store, sample_sm) = ((s', sm'), Ok stats)"
        "ms_archive s' = (\<lambda>k. map_option (\<lambda>d. if apldFromStored (sd_apld d) = APLD_PENDING then setApld APLD_APPLIED None d else d) (ms_archive pending_store k))"
        "settled_archive (ms_archive s')" by blast
  have "ms_archive s' [1] = Some (setApld APLD_APPLIED None pending_row)" by (simp add: d(2) pending_archive n)
  then show ?thesis using d(1,3) by blast
qed

definition pending_client :: "(MemoryStore, EntDBMemory) SyncClient" where
  "pending_client = \<lparr>cl_connections = [], cl_account = None, cl_store = pending_store, cl_state = row_sm, cl_scheduled = False\<rparr>"

theorem replay_rebuilds_witness:
  "\<exists>c'. replay edb_state (memClientStore toy_prims) pending_client = (c', Ok ())
    \<and> getRow [1, 5, 0] (sm_state (cl_state c')) = Some (op_row (DeleteOp [1, 5, 0] 20 2))"
proof -
  have 1: "store_inv (cl_store pending_client)" using pending_store_inv by (simp add: pending_client_def)
  have 2: "\<forall>k d. ms_archive (cl_store pending_client) k = Some d \<longrightarrow> parses_msg (row_msg toy_prims k d)"
    using pending_parses by (auto simp: pending_client_def pending_archive)
  have 3: "set [DeleteOp [1, 5, 0] 20 2] =
      {op. \<exists>k d. ms_archive (cl_store pending_client) k = Some d \<and> msgToOp (row_msg toy_prims k d) = Ok op}"
    by (auto simp: pending_client_def pending_archive pending_msg)
  have 4: "list_all op_dated [DeleteOp [1, 5, 0] 20 2]" "stamps_differ [DeleteOp [1, 5, 0] 20 2]" "op_parses (DeleteOp [1, 5, 0] 20 2)"
    by code_simp+
  have "getRow [1, 5, 0] (fst (edb_apply [DeleteOp [1, 5, 0] 20 2] (EntDBMemory_new [] True))) = Some (op_row (DeleteOp [1, 5, 0] 20 2))"
    using 4(3) by (simp add: apply_row op_step_def applyOp_parses)
  then show ?thesis using replay_rebuilds [OF 1 2 3 4(1,2), of True] by auto
qed

end
