(* ===== verification/Coalesce.thy ===== *)
theory Coalesce
  imports Prelude
begin

text \<open>
  Coalescing and debouncing of asynchronous work (\<^verbatim>\<open>web/src/coalesce.ts\<close>). Code between two awaits
  is one operation on an explicit state; promises are numbers, and what the caller-supplied \<open>work\<close>
  does is an argument: calling it throws at once or leaves a pass running, which later completes or
  fails. Any interleaving of the callers, the passes and the clock is a sequence of events. The
  lemmas give the invariant of every run and what a burst of callers causes.
\<close>

section \<open>CoalesceTail\<close>

text \<open>What calling \<open>work()\<close> does before it returns.\<close>

datatype work_call = Throws | Running

datatype 'v outcome = Resolved 'v | Rejected

text \<open>
  \<open>ct_active\<close> is the promise of the drain whose pass is running, \<open>ct_settled\<close> what became of the
  promises handed out, \<open>ct_passes\<close> how often \<open>work\<close> was called.
\<close>

record 'v CoalesceTail =
  ct_inflight :: "nat option"
  ct_again :: bool
  ct_active :: "nat option"
  ct_next :: nat
  ct_settled :: "(nat \<times> 'v outcome) list"
  ct_passes :: nat

definition CoalesceTail_new :: "'v CoalesceTail" where
  "CoalesceTail_new = \<lparr>ct_inflight = None, ct_again = False, ct_active = None, ct_next = 0, ct_settled = [], ct_passes = 0\<rparr>"

text \<open>The \<open>finally\<close> of a drain, and its promise settling.\<close>

definition ct_finish :: "nat \<Rightarrow> 'v outcome \<Rightarrow> 'v CoalesceTail \<Rightarrow> 'v CoalesceTail" where
  "ct_finish i out t = t\<lparr>ct_inflight := None, ct_active := None, ct_settled := ct_settled t @ [(i, out)]\<rparr>"

text \<open>One turn of a drain: clear the demand and call \<open>work\<close>.\<close>

definition ct_pass :: "nat \<Rightarrow> work_call \<Rightarrow> 'v CoalesceTail \<Rightarrow> 'v CoalesceTail" where
  "ct_pass i call t =
     (let t = t\<lparr>ct_again := False, ct_passes := ct_passes t + 1\<rparr>
      in case call of Running \<Rightarrow> t\<lparr>ct_active := Some i\<rparr> | Throws \<Rightarrow> ct_finish i Rejected t)"

text \<open>\<open>run\<close>: the drain's first turn happens before \<open>inflight\<close> is assigned.\<close>

definition ct_run :: "work_call \<Rightarrow> 'v CoalesceTail \<Rightarrow> 'v CoalesceTail \<times> nat" where
  "ct_run call t =
     (let t = t\<lparr>ct_again := True\<rparr>
      in case ct_inflight t of
           Some i \<Rightarrow> (t, i)
         | None \<Rightarrow>
             (let i = ct_next t; t = ct_pass i call (t\<lparr>ct_next := i + 1\<rparr>)
              in (t\<lparr>ct_inflight := Some i\<rparr>, i)))"

text \<open>The running pass ends with a value or, \<^term>\<open>None\<close>, with an error.\<close>

definition ct_complete :: "'v option \<Rightarrow> work_call \<Rightarrow> 'v CoalesceTail \<Rightarrow> 'v CoalesceTail" where
  "ct_complete res call t =
     (case ct_active t of
        None \<Rightarrow> t
      | Some i \<Rightarrow>
          (case res of
             None \<Rightarrow> ct_finish i Rejected t
           | Some v \<Rightarrow> if ct_again t then ct_pass i call t else ct_finish i (Resolved v) t))"

text \<open>\<open>flush\<close> waits for this promise, and ignores how it ends.\<close>

definition ct_flush :: "'v CoalesceTail \<Rightarrow> nat option" where
  "ct_flush t = ct_inflight t"

section \<open>Debounced\<close>

text \<open>\<open>db_timer\<close> is when the pending timer is due.\<close>

record 'v Debounced =
  db_delayMs :: int
  db_timer :: "int option"
  db_tail :: "'v CoalesceTail"

definition Debounced_new :: "int \<Rightarrow> 'v Debounced" where
  "Debounced_new delayMs = \<lparr>db_delayMs = (if delayMs < 0 then 0 else delayMs), db_timer = None, db_tail = CoalesceTail_new\<rparr>"

definition db_fire :: "work_call \<Rightarrow> 'v Debounced \<Rightarrow> 'v Debounced" where
  "db_fire call d = d\<lparr>db_tail := fst (ct_run call (db_tail d))\<rparr>"

definition db_schedule :: "int \<Rightarrow> work_call \<Rightarrow> 'v Debounced \<Rightarrow> 'v Debounced" where
  "db_schedule now call d =
     (if db_delayMs d \<le> 0 then db_fire call d else d\<lparr>db_timer := Some (now + db_delayMs d)\<rparr>)"

text \<open>The timer's callback, once the clock has reached it.\<close>

definition db_tick :: "int \<Rightarrow> work_call \<Rightarrow> 'v Debounced \<Rightarrow> 'v Debounced" where
  "db_tick now call d =
     (case db_timer d of
        None \<Rightarrow> d
      | Some due \<Rightarrow> if due \<le> now then db_fire call (d\<lparr>db_timer := None\<rparr>) else d)"

definition db_flush :: "work_call \<Rightarrow> 'v Debounced \<Rightarrow> 'v Debounced \<times> nat option" where
  "db_flush call d =
     (let d = (if db_timer d \<noteq> None then db_fire call (d\<lparr>db_timer := None\<rparr>) else d) in (d, ct_flush (db_tail d)))"

definition db_cancel :: "'v Debounced \<Rightarrow> 'v Debounced" where
  "db_cancel d = d\<lparr>db_timer := None\<rparr>"

section \<open>Events\<close>

datatype 'v tail_event = Run work_call | Complete "'v option" work_call

inductive tail_step :: "'v CoalesceTail \<Rightarrow> 'v tail_event \<Rightarrow> 'v CoalesceTail \<Rightarrow> bool" where
  run: "tail_step t (Run call) (fst (ct_run call t))"
| complete: "ct_active t = Some i \<Longrightarrow> tail_step t (Complete res call) (ct_complete res call t)"

inductive_cases tail_step_runE: "tail_step t (Run call) t'"
inductive_cases tail_step_completeE: "tail_step t (Complete res call) t'"

inductive tail_runs :: "'v CoalesceTail \<Rightarrow> 'v tail_event list \<Rightarrow> 'v CoalesceTail \<Rightarrow> bool" where
  none: "tail_runs t [] t"
| more: "tail_step t e t' \<Longrightarrow> tail_runs t' es t'' \<Longrightarrow> tail_runs t (e # es) t''"

inductive_cases tail_runs_NilE: "tail_runs t [] t'"
inductive_cases tail_runs_ConsE: "tail_runs t (e # es) t'"

fun throws_now :: "'v tail_event \<Rightarrow> bool" where
  "throws_now (Run Throws) = True"
| "throws_now (Complete (Some _) Throws) = True"
| "throws_now _ = False"

text \<open>
  While no call throws: exactly the unfinished drain is in flight, promises settle once and are
  handed out in order, and all but the drain in flight are settled.
\<close>

definition tail_inv :: "'v CoalesceTail \<Rightarrow> bool" where
  "tail_inv t =
     (ct_inflight t = ct_active t \<and> distinct (map fst (ct_settled t))
      \<and> (case ct_active t of
           None \<Rightarrow> set (map fst (ct_settled t)) = {..<ct_next t}
         | Some i \<Rightarrow> ct_next t = Suc i \<and> set (map fst (ct_settled t)) = {..<i}))"

lemma tail_inv_new: "tail_inv CoalesceTail_new"
  by (simp add: tail_inv_def CoalesceTail_new_def)

lemma tail_inv_step: "tail_step t e t' \<Longrightarrow> \<not> throws_now e \<Longrightarrow> tail_inv t \<Longrightarrow> tail_inv t'"
proof (induction rule: tail_step.induct)
  case (run t call)
  then show ?case
    by (cases call) (auto simp: tail_inv_def ct_run_def ct_pass_def Let_def split: option.splits)
next
  case (complete t i res call)
  then show ?case
    by (cases res; cases call) (auto simp: tail_inv_def ct_complete_def ct_pass_def ct_finish_def Let_def lessThan_Suc)
qed

lemma tail_inv_runs: "tail_runs t es t' \<Longrightarrow> list_all (\<lambda>e. \<not> throws_now e) es \<Longrightarrow> tail_inv t \<Longrightarrow> tail_inv t'"
  by (induction rule: tail_runs.induct) (auto dest: tail_inv_step)

lemma passes_mono: "tail_runs t es t' \<Longrightarrow> ct_passes t \<le> ct_passes t'"
proof (induction rule: tail_runs.induct)
  case (more t e t' es t'')
  have "ct_passes t \<le> ct_passes t'"
    using more.hyps(1)
    by cases (auto simp: ct_run_def ct_complete_def ct_pass_def ct_finish_def Let_def split: option.splits work_call.splits)
  then show ?case using more.IH by simp
qed simp

text \<open>A request made while a pass runs stays open until another pass starts, or the pass fails.\<close>

lemma request_open:
  "tail_runs t es t' \<Longrightarrow> ct_inflight t = Some i \<Longrightarrow> ct_active t = Some i \<Longrightarrow> ct_again t \<Longrightarrow>
     (i, Resolved v) \<notin> set (ct_settled t) \<Longrightarrow> i < ct_next t \<Longrightarrow> (i, Resolved v) \<in> set (ct_settled t') \<Longrightarrow> ct_passes t < ct_passes t'"
proof (induction rule: tail_runs.induct)
  case (more t e t' es t'')
  note m = passes_mono [OF more.hyps(2)]
  from more.hyps(1) show ?case
  proof cases
    case (run call)
    then show ?thesis using more by (simp add: ct_run_def)
  next
    case (complete j res call)
    show ?thesis
    proof (cases res)
      case None
      then have t': "t' = ct_finish i Rejected t" using complete more.prems by (simp add: ct_complete_def)
      have "tail_runs t1 es t2 \<Longrightarrow> ct_inflight t1 \<noteq> Some i \<Longrightarrow> ct_active t1 \<noteq> Some i \<Longrightarrow> i < ct_next t1 \<Longrightarrow>
          (i, Resolved v) \<notin> set (ct_settled t1) \<Longrightarrow> (i, Resolved v) \<notin> set (ct_settled t2)" for t1 es t2
      proof (induction rule: tail_runs.induct)
        case (more t e t' es t'')
        from more.hyps(1) have "ct_inflight t' \<noteq> Some i \<and> ct_active t' \<noteq> Some i \<and> i < ct_next t' \<and> (i, Resolved v) \<notin> set (ct_settled t')"
          using more.prems
          by cases (auto simp: ct_run_def ct_complete_def ct_pass_def ct_finish_def Let_def split: option.splits work_call.splits if_splits)
        then show ?case using more.IH by blast
      qed simp
      from this [OF more.hyps(2)] show ?thesis using more.prems by (simp add: t' ct_finish_def)
    next
      case (Some w)
      then have "t' = ct_pass i call t" using complete more.prems by (simp add: ct_complete_def)
      then have "ct_passes t < ct_passes t'" by (auto simp: ct_pass_def ct_finish_def Let_def split: work_call.splits)
      then show ?thesis using m by simp
    qed
  qed
qed simp

section \<open>Properties\<close>

definition burst :: "work_call \<Rightarrow> nat \<Rightarrow> 'v CoalesceTail \<Rightarrow> 'v CoalesceTail" where
  "burst call n t = ((\<lambda>t. fst (ct_run call t)) ^^ n) t"

lemma burst_active:
  "ct_inflight t = Some i \<Longrightarrow> burst call n t = (if n = 0 then t else t\<lparr>ct_again := True\<rparr>)"
proof (induction n)
  case (Suc n)
  then show ?case by (cases "n = 0") (simp_all add: burst_def ct_run_def)
qed (simp add: burst_def)

text \<open>C30: a stampede costs one trailing pass. From any state reached while no call of the work threw,
  with a pass running: however many callers arrive, all get the promise of the drain in flight and
  none starts a pass; when the pass succeeds exactly one more starts and the promise stays open; when
  that one succeeds the promise resolves with its value and the runner is idle. If the first pass
  fails instead, the promise is rejected and the next caller starts afresh with a new promise.\<close>

theorem stampede_one_trailing_pass:
  assumes "tail_runs CoalesceTail_new es t" "list_all (\<lambda>e. \<not> throws_now e) es" "ct_active t = Some i" "0 < n"
  shows "snd (ct_run call (burst call m t)) = i \<and> ct_passes (burst call n t) = ct_passes t
    \<and> ct_active (ct_complete (Some v) Running (burst call n t)) = Some i
    \<and> ct_passes (ct_complete (Some v) Running (burst call n t)) = ct_passes t + 1
    \<and> i \<notin> fst ` set (ct_settled (ct_complete (Some v) Running (burst call n t)))
    \<and> (let t' = ct_complete (Some w) Running (ct_complete (Some v) Running (burst call n t))
       in (i, Resolved w) \<in> set (ct_settled t') \<and> ct_inflight t' = None \<and> ct_passes t' = ct_passes t + 1)
    \<and> (let t' = ct_complete None Running (burst call n t)
       in (i, Rejected) \<in> set (ct_settled t') \<and> ct_inflight t' = None \<and> ct_passes (fst (ct_run Running t')) = ct_passes t + 1
          \<and> snd (ct_run Running t') = Suc i)"
proof -
  have inv: "tail_inv t" using tail_inv_runs [OF assms(1,2) tail_inv_new] .
  then have a: "ct_inflight t = Some i" "ct_next t = Suc i" "i \<notin> fst ` set (ct_settled t)"
    using assms(3) by (auto simp: tail_inv_def)
  show ?thesis using assms(3,4) a
    by (simp add: burst_active [OF a(1)] ct_run_def ct_complete_def ct_pass_def ct_finish_def Let_def)
qed

text \<open>No request is answered with stale work. If a caller's promise resolves, at least one pass
  started after the call, in every interleaving of callers and completions.\<close>

theorem request_gets_fresh_pass:
  assumes "tail_runs CoalesceTail_new es t" "list_all (\<lambda>e. \<not> throws_now e) es"
    and "tail_runs (fst (ct_run call t)) es' t'" "(snd (ct_run call t), Resolved v) \<in> set (ct_settled t')"
  shows "ct_passes t < ct_passes t'"
proof -
  have inv: "tail_inv t" using tail_inv_runs [OF assms(1,2) tail_inv_new] .
  show ?thesis
  proof (cases "ct_inflight t")
    case None
    have "ct_passes t < ct_passes (fst (ct_run call t))"
      using None by (auto simp: ct_run_def ct_pass_def ct_finish_def Let_def split: work_call.split)
    then show ?thesis using passes_mono [OF assms(3)] by simp
  next
    case (Some i)
    have r: "ct_run call t = (t\<lparr>ct_again := True\<rparr>, i)" using Some by (simp add: ct_run_def)
    have a: "ct_active t = Some i" using inv Some by (simp add: tail_inv_def)
    have u: "i \<notin> fst ` set (ct_settled t)" "i < ct_next t" using inv a by (simp_all add: tail_inv_def)
    have "(i, Resolved v) \<notin> set (ct_settled t)" using u(1) by (metis fst_conv image_eqI)
    then show ?thesis using request_open [of "t\<lparr>ct_again := True\<rparr>" es' t' i v] assms(3,4) Some a u(2) by (simp add: r)
  qed
qed

text \<open>Work that throws before it returns a promise blocks the runner for good. The drain's
  \<open>finally\<close> has cleared the field before \<open>run\<close> stores the rejected promise in it, so from then on
  every caller gets that rejected promise and no pass ever starts, whatever the work does later.\<close>

theorem sync_throw_blocks:
  assumes "ct_inflight t = None" "ct_active t = None" "tail_runs (fst (ct_run Throws t)) es t'"
  shows "(ct_next t, Rejected) \<in> set (ct_settled t') \<and> ct_passes t' = ct_passes t + 1
    \<and> snd (ct_run call t') = ct_next t \<and> ct_active (fst (ct_run call t')) = None \<and> ct_passes (fst (ct_run call t')) = ct_passes t'"
proof -
  let ?ok = "\<lambda>s. ct_inflight s = Some (ct_next t) \<and> ct_active s = None \<and> (ct_next t, Rejected) \<in> set (ct_settled s)
      \<and> ct_passes s = ct_passes t + 1"
  have "tail_runs s es s' \<Longrightarrow> ?ok s \<Longrightarrow> ?ok s'" for s s' :: "'a CoalesceTail" and es
  proof (induction rule: tail_runs.induct)
    case (more s e s' es s'')
    from more.hyps(1) have "?ok s'" using more.prems by cases (auto simp: ct_run_def)
    then show ?case by (rule more.IH)
  qed
  moreover have "?ok (fst (ct_run Throws t))" using assms(1,2) by (simp add: ct_run_def ct_pass_def ct_finish_def Let_def)
  ultimately have "?ok t'" using assms(3) by blast
  then show ?thesis by (auto simp: ct_run_def)
qed

text \<open>The scheduling calls of a debounce, each at its time, with the timer's callbacks in between.\<close>

definition schedules :: "int list \<Rightarrow> 'v Debounced \<Rightarrow> 'v Debounced" where
  "schedules ts d = foldl (\<lambda>d now. db_schedule now Running (db_tick now Running d)) d ts"

fun gaps_below :: "int \<Rightarrow> int list \<Rightarrow> bool" where
  "gaps_below delay (t # t' # ts) = (t' < t + delay \<and> gaps_below delay (t' # ts))"
| "gaps_below delay _ = True"

lemma schedules_pending:
  "0 < db_delayMs d \<Longrightarrow> ts \<noteq> [] \<Longrightarrow> gaps_below (db_delayMs d) ts \<Longrightarrow> (case db_timer d of None \<Rightarrow> True | Some due \<Rightarrow> hd ts < due) \<Longrightarrow>
     schedules ts d = d\<lparr>db_timer := Some (last ts + db_delayMs d)\<rparr>"
proof (induction "db_delayMs d" ts arbitrary: d rule: gaps_below.induct)
  case (1 t t' ts)
  let ?d = "d\<lparr>db_timer := Some (t + db_delayMs d)\<rparr>"
  have "schedules (t # t' # ts) d = schedules (t' # ts) ?d"
    using 1(2,5) by (cases "db_timer d") (auto simp: schedules_def db_schedule_def db_tick_def)
  moreover have "schedules (t' # ts) ?d = ?d\<lparr>db_timer := Some (last (t' # ts) + db_delayMs ?d)\<rparr>"
    using 1(2,4) by (intro 1(1)) simp_all
  ultimately show ?case by simp
next
  case "2_2"
  then show ?case by (cases "db_timer d") (auto simp: schedules_def db_schedule_def db_tick_def)
qed simp

text \<open>A burst of schedules is one run after the quiet period. Calls that follow each other within the
  delay start nothing; the timer's callback starts nothing before the delay after the last call has
  passed, and then starts exactly one pass, leaving no timer; cancelling before it starts none.\<close>

theorem debounce_burst:
  assumes "0 < delay" "ts \<noteq> []" "gaps_below delay ts"
  shows "db_tail (schedules ts (Debounced_new delay)) = CoalesceTail_new
    \<and> (now < last ts + delay \<longrightarrow> db_tick now Running (schedules ts (Debounced_new delay)) = schedules ts (Debounced_new delay))
    \<and> (last ts + delay \<le> now \<longrightarrow>
         ct_passes (db_tail (db_tick now Running (schedules ts (Debounced_new delay)))) = 1
         \<and> db_timer (db_tick now Running (schedules ts (Debounced_new delay))) = None)
    \<and> db_tick now Running (db_cancel (schedules ts (Debounced_new delay))) = db_cancel (schedules ts (Debounced_new delay))"
proof -
  have s: "schedules ts (Debounced_new delay) = (Debounced_new delay)\<lparr>db_timer := Some (last ts + delay)\<rparr>"
    using schedules_pending [of "Debounced_new delay" ts] assms by (simp add: Debounced_new_def)
  show ?thesis using assms(1) unfolding s
    by (simp add: db_tick_def db_cancel_def db_fire_def Debounced_new_def CoalesceTail_new_def ct_run_def ct_pass_def)
qed

section \<open>Witnesses\<close>

definition busy_tail :: "nat CoalesceTail" where
  "busy_tail = fst (ct_run Running CoalesceTail_new)"

lemma busy_tail_runs: "tail_runs CoalesceTail_new [Run Running] busy_tail"
  unfolding busy_tail_def by (rule tail_runs.more [OF tail_step.run tail_runs.none])

lemma busy_tail_active: "ct_active busy_tail = Some 0" "ct_passes busy_tail = 1" "ct_next busy_tail = 1" "ct_settled busy_tail = []"
  by code_simp+

theorem stampede_one_trailing_pass_witness:
  "let t' = ct_complete (Some 8) Running (ct_complete (Some 7) Running (burst Running 5 busy_tail))
   in (0, Resolved 8) \<in> set (ct_settled t') \<and> ct_inflight t' = None \<and> ct_passes t' = 2"
  using stampede_one_trailing_pass [OF busy_tail_runs, of 0 5 Running 0 7 8] busy_tail_active by (simp add: Let_def)

theorem request_gets_fresh_pass_witness:
  "\<exists>t'. tail_runs (fst (ct_run Running busy_tail)) [Complete (Some 7) Running, Complete (Some 8) Running] t' \<and> ct_passes busy_tail < ct_passes t'"
proof -
  let ?t0 = "fst (ct_run Running busy_tail)"
  let ?t1 = "ct_complete (Some 7) Running ?t0"
  let ?t2 = "ct_complete (Some 8) Running ?t1"
  have r: "tail_runs ?t0 [Complete (Some 7) Running, Complete (Some 8) Running] ?t2"
    by (rule tail_runs.more [OF tail_step.complete tail_runs.more [OF tail_step.complete tail_runs.none]]) code_simp+
  have "(snd (ct_run Running busy_tail), Resolved 8) \<in> set (ct_settled ?t2)" by code_simp
  from request_gets_fresh_pass [OF busy_tail_runs _ r this] r show ?thesis by auto
qed

theorem sync_throw_blocks_witness:
  "ct_active (fst (ct_run Running (fst (ct_run Throws (CoalesceTail_new :: nat CoalesceTail))))) = None"
  using sync_throw_blocks [of "CoalesceTail_new :: nat CoalesceTail" "[]" _ Running, OF _ _ tail_runs.none] by (simp add: CoalesceTail_new_def)

theorem debounce_burst_witness:
  "ct_passes (db_tail (db_tick 200 Running (schedules [0, 50, 100] (Debounced_new 100)))) = 1"
  using debounce_burst [of 100 "[0, 50, 100]" 200] by auto

end
