(* ===== verification/Exim.thy ===== *)
theory Exim
  imports Client
begin

text \<open>
  Export files (shared/crypto/exim.ts) and their use by the client (exportBytes and import
  in web/src/client.ts).

  A file holds a signed header with a directory of realms, then one chunk per realm: a head
  section with one index item per message, then the body ciphertexts in the same order. The
  24-byte nonces of the boxes are arguments: \<open>hn k\<close> for the head of message \<open>k\<close> and \<open>bn k\<close>
  for its body. The cache of \<open>realmBagMgrs\<close> cannot be observed: a bag manager is a function
  of the file key and the realm. The properties: what is exported is read back, whatever is
  accepted was signed by the holder of the file key and has the digests its head and directory
  name, and a device that imports the file has every archived message.
\<close>

section \<open>Sealing and opening chunks\<close>

definition boxOver :: nat where
  "boxOver = 24 + 16"

text \<open>The condition under which a body is written, repeated at both places of the source.\<close>

definition body_written :: "IMsgParts \<Rightarrow> bool" where
  "body_written m = (mp_body m \<noteq> None \<and> \<not> mh_len (mp_head m) \<le> 0 \<and> mh_hsh (mp_head m) \<noteq> None)"

definition boxedLen :: "IMsgParts \<Rightarrow> int" where
  "boxedLen m =
     (case mp_body m of
        None \<Rightarrow> 0
      | Some body \<Rightarrow> if body_written m then int (length body + boxOver) else 0)"

fun seal_heads ::
    "prims \<Rightarrow> BagManager \<Rightarrow> (nat \<Rightarrow> bytes) \<Rightarrow> nat \<Rightarrow> IMsgParts list \<Rightarrow> encoder \<Rightarrow> (encoder \<times> bytes list) vs" where
  "seal_heads p bm hn k [] encHeads = Ok (encHeads, [])"
| "seal_heads p bm hn k (msg # msgs) encHeads =
     andThen (encode_with (\<lambda>e. messageHead_encode e (mp_head msg))) (\<lambda>headEnc.
     andThen (bagKDM p bm headEnc) (\<lambda>kdm.
     andThen (bm_encrypt p (hn k) bm kdm headEnc) (\<lambda>headCph.
     case fileIndexItem_encode encHeads \<lparr>fi_kdm = kdm, fi_headCph = headCph, fi_lenBody = boxedLen msg\<rparr> of
       (st, encHeads) \<Rightarrow> andThen st (\<lambda>_.
         andThen (seal_heads p bm hn (Suc k) msgs encHeads) (\<lambda>(encHeads, kdms).
         Ok (encHeads, kdm # kdms))))))"

fun seal_bodies ::
    "prims \<Rightarrow> BagManager \<Rightarrow> (nat \<Rightarrow> bytes) \<Rightarrow> nat \<Rightarrow> IMsgParts list \<Rightarrow> bytes list \<Rightarrow> encoder \<Rightarrow> encoder vs" where
  "seal_bodies p bm bn k [] kdms enc = Ok enc"
| "seal_bodies p bm bn k (msg # msgs) [] enc = Err InternalError"
| "seal_bodies p bm bn k (msg # msgs) (kdm # kdms) enc =
     (case mp_body msg of
        None \<Rightarrow> seal_bodies p bm bn (Suc k) msgs kdms enc
      | Some body \<Rightarrow>
          if body_written msg
          then andThen (bm_encrypt p (bn k) bm kdm body) (\<lambda>cph.
               case writeBytes enc cph of (_, enc) \<Rightarrow> seal_bodies p bm bn (Suc k) msgs kdms enc)
          else seal_bodies p bm bn (Suc k) msgs kdms enc)"

text \<open>The chunk goes into \<open>enc\<close>; the result is the head section, whose digest enters the directory.\<close>

definition sealChunk ::
    "prims \<Rightarrow> (nat \<Rightarrow> bytes) \<Rightarrow> (nat \<Rightarrow> bytes) \<Rightarrow> encoder \<Rightarrow> IMsgParts list \<Rightarrow> BagManager \<Rightarrow> (encoder \<times> bytes) vs" where
  "sealChunk p hn bn enc msgs bm =
     (if length msgs < 1 then Err InvalidMessage
      else andThen (seal_heads p bm hn 0 msgs Encoder) (\<lambda>(encHeads, kdms).
           let heads = enc_result encHeads
           in case writeBytes enc heads of (_, enc) \<Rightarrow>
              andThen (seal_bodies p bm bn 0 msgs kdms enc) (\<lambda>enc. Ok (enc, heads))))"

fun open_items :: "prims \<Rightarrow> BagManager \<Rightarrow> IFileIndexItem list \<Rightarrow> decoder \<Rightarrow> (IMsgParts list \<times> decoder) vs" where
  "open_items p bm [] d = Ok ([], d)"
| "open_items p bm (item # items) d =
     andThen (bm_decrypt p bm (fi_kdm item) (fi_headCph item)) (\<lambda>headEnc.
     andThen (messageHead_decode (Decoder headEnc)) (\<lambda>(msgHead, _).
     if fi_lenBody item < 0 then Err InvalidMessage
     else if fi_lenBody item = 0
     then andThen (open_items p bm items d) (\<lambda>(msgs, d). Ok (\<lparr>mp_head = msgHead, mp_body = None\<rparr> # msgs, d))
     else case mh_hsh msgHead of
            None \<Rightarrow> Err InvalidMessage
          | Some hsh \<Rightarrow>
              andThen (readBytes d (fi_lenBody item)) (\<lambda>(cph, d).
              andThen (bm_decrypt p bm (fi_kdm item) cph) (\<lambda>bod.
              if \<not> bytesEqual (blake3_hash p bod) hsh then Err HashMismatch
              else andThen (open_items p bm items d) (\<lambda>(msgs, d).
                   Ok (\<lparr>mp_head = msgHead, mp_body = Some bod\<rparr> # msgs, d))))))"

definition openChunk :: "prims \<Rightarrow> decoder \<Rightarrow> bytes \<Rightarrow> IFileRealm \<Rightarrow> BagManager \<Rightarrow> (IMsgParts list \<times> decoder) vs" where
  "openChunk p d chunks row bm =
     (let start = consumed d
      in andThen (read_times fileIndexItem_decode (nat (fr_num row)) d) (\<lambda>(items, d).
         let got = blake3_hash p (take (consumed d - start) (drop start chunks))
         in if \<not> bytesEqual got (fr_hsh row) then Err HashMismatch else open_items p bm items d))"

section \<open>Files\<close>

type_synonym IExportRealm = "IKDM \<times> IMsgParts list"

definition exportNonce :: "bytes \<Rightarrow> bytes vs" where
  "exportNonce file = andThen (fileHead_decode (Decoder file)) (\<lambda>(h, _). Ok (fh_nonce h))"

fun seal_realms ::
    "prims \<Rightarrow> bytes \<Rightarrow> (nat \<Rightarrow> nat \<Rightarrow> bytes) \<Rightarrow> (nat \<Rightarrow> nat \<Rightarrow> bytes) \<Rightarrow> nat \<Rightarrow> IExportRealm list \<Rightarrow> encoder
     \<Rightarrow> (encoder \<times> IFileRealm list) vs" where
  "seal_realms p key hn bn i [] enc = Ok (enc, [])"
| "seal_realms p key hn bn i ((realm, msgs) # parts) enc =
     (if length msgs < 1 then Err InvalidMessage
      else andThen (bagmanForExport p key realm) (\<lambda>bm.
           andThen (sealChunk p (hn i) (bn i) enc msgs bm) (\<lambda>(enc, heads).
           andThen (seal_realms p key hn bn (Suc i) parts enc) (\<lambda>(enc, dir).
           Ok (enc, \<lparr>fr_realm = realm, fr_num = int (length msgs), fr_hsh = blake3_hash p heads\<rparr> # dir)))))"

definition encodeFile ::
    "prims \<Rightarrow> (nat \<Rightarrow> nat \<Rightarrow> bytes) \<Rightarrow> (nat \<Rightarrow> nat \<Rightarrow> bytes) \<Rightarrow> IExportRealm list \<Rightarrow> bytes \<Rightarrow> bytes \<Rightarrow> bytes vs" where
  "encodeFile p hn bn realms key nonce =
     (if length nonce \<noteq> hashBytes then Err InvalidParam
      else andThen (bagmanForExport p key nullKDM) (\<lambda>signer.
           andThen (seal_realms p key hn bn 0 realms Encoder) (\<lambda>(enc, dir).
           andThen (fileHeadPreimage nonce dir) (\<lambda>pre.
           let hsh = blake3_hash p pre
           in andThen (bm_sign p signer (MsgBytes hsh)) (\<lambda>sig.
              andThen (encode_with (\<lambda>e. fileHead_encode e \<lparr>fh_nonce = nonce, fh_realms = dir, fh_hsh = hsh, fh_sig = sig\<rparr>)) (\<lambda>head.
              Ok (enc_result (prependBytes enc head))))))))"

fun open_realms :: "prims \<Rightarrow> bytes \<Rightarrow> bytes \<Rightarrow> IFileRealm list \<Rightarrow> decoder \<Rightarrow> (IExportRealm list \<times> decoder) vs" where
  "open_realms p key chunks [] d = Ok ([], d)"
| "open_realms p key chunks (row # rows) d =
     andThen (bagmanForExport p key (fr_realm row)) (\<lambda>bm.
     andThen (openChunk p d chunks row bm) (\<lambda>(msgs, d).
     andThen (open_realms p key chunks rows d) (\<lambda>(realms, d).
     Ok ((fr_realm row, msgs) # realms, d))))"

definition decodeFile :: "prims \<Rightarrow> bytes \<Rightarrow> bytes \<Rightarrow> IExportRealm list vs" where
  "decodeFile p file key =
     andThen (file_decode (Decoder file)) (\<lambda>(f, _).
     let head = file_head f; chunks = file_chunks f
     in andThen (bagmanForExport p key nullKDM) (\<lambda>signer.
        andThen (catch_err (importVerifyKey p (bm_publicKey signer)) CryptoError) (\<lambda>verifyKey.
        if \<not> checkSigEd25519 p (fh_sig head) (MsgBytes (fh_hsh head)) verifyKey then Err InvalidSignature
        else andThen (fileHeadPreimage (fh_nonce head) (fh_realms head)) (\<lambda>pre.
             if \<not> bytesEqual (blake3_hash p pre) (fh_hsh head) then Err HashMismatch
             else andThen (open_realms p key chunks (fh_realms head) (Decoder chunks)) (\<lambda>(realms, d).
                  if \<not> done_dec d then Err InvalidMessage else Ok realms)))))"

definition exportFile ::
    "prims \<Rightarrow> bytes \<Rightarrow> (nat \<Rightarrow> nat \<Rightarrow> bytes) \<Rightarrow> (nat \<Rightarrow> nat \<Rightarrow> bytes) \<Rightarrow> OuterEnclave \<Rightarrow> IExportRealm list \<Rightarrow> bytes vs" where
  "exportFile p nonce hn bn enclave realms =
     andThen (exportKey p enclave nonce) (\<lambda>key. encodeFile p hn bn realms key nonce)"

definition migrateFile ::
    "prims \<Rightarrow> (nat \<Rightarrow> nat \<Rightarrow> bytes) \<Rightarrow> (nat \<Rightarrow> nat \<Rightarrow> bytes) \<Rightarrow> bytes \<Rightarrow> bytes \<Rightarrow> bytes \<Rightarrow> bytes
     \<Rightarrow> (IExportRealm list \<Rightarrow> IExportRealm list vs) \<Rightarrow> bytes vs" where
  "migrateFile p hn bn file keyIn keyOut nonce transform =
     andThen (decodeFile p file keyIn) (\<lambda>realms.
     andThen (transform realms) (\<lambda>mapped. encodeFile p hn bn mapped keyOut nonce))"

section \<open>The client's export and import (client.ts)\<close>

definition exportBytes ::
    "prims \<Rightarrow> 's ClientStore \<Rightarrow> bytes \<Rightarrow> (nat \<Rightarrow> nat \<Rightarrow> bytes) \<Rightarrow> (nat \<Rightarrow> nat \<Rightarrow> bytes) \<Rightarrow> ('s, 'e) SyncClient \<Rightarrow> bytes vs" where
  "exportBytes p K nonce hn bn c =
     (case cl_account c of
        None \<Rightarrow> Err MissingSeed
      | Some a \<Rightarrow>
          (let rows = is_realms_list (co_store K) (cl_store c);
               stored = is_msg_list (co_store K) None (cl_store c)
           in exportFile p nonce hn bn (oa_enclave a) (exportRealms stored rows)))"

definition client_import ::
    "prims \<Rightarrow> 'e AppState \<Rightarrow> 's ClientStore \<Rightarrow> bytes \<Rightarrow> ('s, 'e) SyncClient \<Rightarrow> ('s, 'e) SyncClient \<times> unit vs" where
  "client_import p A K file c =
     (case cl_account c of
        None \<Rightarrow> (c, Err MissingSeed)
      | Some a \<Rightarrow>
          (case andThen (exportNonce file) (\<lambda>nonce.
                andThen (exportKey p (oa_enclave a) nonce) (\<lambda>key. decodeFile p file key)) of
             Ok realms \<Rightarrow> import_decoded p A K realms c
           | Err s \<Rightarrow> (c, Err s) | Throw \<Rightarrow> (c, Throw) | Hang \<Rightarrow> (c, Hang)))"

section \<open>Round trip\<close>

text \<open>A message the format carries: its head is well formed and small enough to box, and its body has the digest the head names.\<close>

definition part_ok :: "prims \<Rightarrow> IMsgParts \<Rightarrow> bool" where
  "part_ok p m =
     (messageHead_ok (mp_head m) \<and> length (messageHead_wire (mp_head m)) + boxOver \<le> 2 ^ 53
      \<and> (case mp_body m of
           None \<Rightarrow> True
         | Some b \<Rightarrow> body_written m \<longrightarrow>
             mh_hsh (mp_head m) = Some (blake3_hash p b) \<and> length b + boxOver \<le> 2 ^ 53))"

text \<open>What arrives: a body that was not written is gone.\<close>

definition exported :: "IMsgParts \<Rightarrow> IMsgParts" where
  "exported m = (if body_written m then m else m\<lparr>mp_body := None\<rparr>)"

definition sealed_body :: "BagManager \<Rightarrow> prims \<Rightarrow> IFileIndexItem \<Rightarrow> IMsgParts \<Rightarrow> bytes \<Rightarrow> bool" where
  "sealed_body bm p item m cph =
     (if body_written m
      then bm_decrypt p bm (fi_kdm item) cph = Ok (the (mp_body m)) \<and> length cph = length (the (mp_body m)) + boxOver
      else cph = [])"

definition sealed_item :: "BagManager \<Rightarrow> prims \<Rightarrow> IFileIndexItem \<Rightarrow> IMsgParts \<Rightarrow> bool" where
  "sealed_item bm p item m =
     (bm_decrypt p bm (fi_kdm item) (fi_headCph item) = Ok (messageHead_wire (mp_head m))
      \<and> fi_lenBody item = boxedLen m \<and> fileIndexItem_ok item)"

lemma seal_heads_ok:
  assumes p: "prims_ok p" and hn: "\<forall>k. length (hn k) = 24"
  shows "list_all (part_ok p) msgs \<Longrightarrow>
     \<exists>items ps. seal_heads p bm hn k msgs e = Ok (e @ ps, map fi_kdm items)
       \<and> concat ps = concat (map fileIndexItem_wire items) \<and> list_all2 (sealed_item bm p) items msgs"
proof (induction msgs arbitrary: k e)
  case Nil
  show ?case by (intro exI [of _ "[]"]) simp
next
  case (Cons m msgs)
  let ?w = "messageHead_wire (mp_head m)"
  let ?kdm = "take 8 (dkey p (bm_idnt bm) BagKdm ?w)"
  have ok: "messageHead_ok (mp_head m)" "length ?w + boxOver \<le> 2 ^ 53" "part_ok p m"
    using Cons.prems by (simp_all add: part_ok_def)
  obtain hc where hc: "bm_encrypt p (hn k) bm ?kdm ?w = Ok hc" "bm_decrypt p bm ?kdm hc = Ok ?w" "length hc = length ?w + 40"
    using bm_roundtrip [OF p hn [rule_format], of k bm ?kdm ?w] by metis
  let ?it = "\<lparr>fi_kdm = ?kdm, fi_headCph = hc, fi_lenBody = boxedLen m\<rparr>"
  have it: "fileIndexItem_ok ?it"
    using hc(3) ok(2,3) p
    by (auto simp: fileIndexItem_ok_def kdmBytes_def short_def boxOver_def boxedLen_def is_num_safe part_ok_def
        split: option.splits)
  obtain qs where qs: "fileIndexItem_encode e ?it = (Ok (), e @ qs)" "concat qs = fileIndexItem_wire ?it"
    using fileIndexItemCodec.wr_emits [OF it] unfolding emits_def by blast
  obtain items ps where ih: "seal_heads p bm hn (Suc k) msgs (e @ qs) = Ok ((e @ qs) @ ps, map fi_kdm items)"
      "concat ps = concat (map fileIndexItem_wire items)" "list_all2 (sealed_item bm p) items msgs"
    using Cons.IH [of "Suc k" "e @ qs"] Cons.prems by auto
  have "sealed_item bm p ?it m" using hc(2) it by (simp add: sealed_item_def)
  then show ?case
    using qs ih hc(1) messageHeadCodec.encode_ok [OF ok(1)] bagKDM_ok [OF p, of bm ?w]
    by (intro exI [of _ "?it # items"] exI [of _ "qs @ ps"]) simp
qed

lemma seal_bodies_ok:
  assumes p: "prims_ok p" and bn: "\<forall>k. length (bn k) = 24"
  shows "list_all2 (sealed_item bm p) items msgs \<Longrightarrow>
     \<exists>qs. seal_bodies p bm bn k msgs (map fi_kdm items) e = Ok (e @ qs)
       \<and> (\<exists>cphs. concat qs = concat cphs
            \<and> list_all2 (\<lambda>im. sealed_body bm p (fst im) (snd im)) (zip items msgs) cphs)"
proof (induction items msgs arbitrary: k e rule: list_all2_induct)
  case Nil
  show ?case by (intro exI [of _ "[]"]) simp
next
  case (Cons it items m msgs)
  show ?case
  proof (cases "body_written m")
    case True
    then obtain b where b: "mp_body m = Some b" by (auto simp: body_written_def)
    obtain c where c: "bm_encrypt p (bn k) bm (fi_kdm it) b = Ok c" "bm_decrypt p bm (fi_kdm it) c = Ok b" "length c = length b + 40"
      using bm_roundtrip [OF p bn [rule_format], of k bm "fi_kdm it" b] by metis
    obtain qs cphs where ih: "seal_bodies p bm bn (Suc k) msgs (map fi_kdm items) (e @ [c]) = Ok ((e @ [c]) @ qs)"
        "concat qs = concat cphs" "list_all2 (\<lambda>im. sealed_body bm p (fst im) (snd im)) (zip items msgs) cphs"
      using Cons.IH [of "Suc k" "e @ [c]"] by blast
    have "sealed_body bm p it m c" using True b c by (simp add: sealed_body_def boxOver_def)
    then show ?thesis
      using True b c(1) ih by (intro exI [of _ "[c] @ qs"] conjI exI [of _ "c # cphs"]) (simp_all add: writeBytes_def)
  next
    case False
    obtain qs cphs where ih: "seal_bodies p bm bn (Suc k) msgs (map fi_kdm items) e = Ok (e @ qs)"
        "concat qs = concat cphs" "list_all2 (\<lambda>im. sealed_body bm p (fst im) (snd im)) (zip items msgs) cphs"
      using Cons.IH [of "Suc k" e] by blast
    have "sealed_body bm p it m []" using False by (simp add: sealed_body_def)
    then show ?thesis
      using False ih by (intro exI [of _ qs] conjI exI [of _ "[] # cphs"]) (simp_all split: option.split)
  qed
qed

lemma boxedLen_written: "body_written m \<Longrightarrow> boxedLen m = int (length (the (mp_body m)) + boxOver)"
  by (auto simp: boxedLen_def body_written_def)

lemma boxedLen_not_written: "\<not> body_written m \<Longrightarrow> boxedLen m = 0"
  by (auto simp: boxedLen_def split: option.split)

lemma exported_written: "body_written m \<Longrightarrow> mp_body m = Some b \<Longrightarrow> \<lparr>mp_head = mp_head m, mp_body = Some b\<rparr> = exported m"
  by (simp add: exported_def)

lemma exported_not_written: "\<not> body_written m \<Longrightarrow> \<lparr>mp_head = mp_head m, mp_body = None\<rparr> = exported m"
  by (simp add: exported_def)

lemma open_items_ok:
  assumes p: "prims_ok p"
  shows "list_all2 (sealed_item bm p) items msgs \<Longrightarrow> list_all (part_ok p) msgs \<Longrightarrow>
     list_all2 (\<lambda>im. sealed_body bm p (fst im) (snd im)) (zip items msgs) cphs \<Longrightarrow>
     parses (open_items p bm items) (concat cphs) (map exported msgs)"
proof (induction items msgs arbitrary: cphs rule: list_all2_induct)
  case Nil
  then show ?case by (simp add: parses_done)
next
  case (Cons it items m msgs)
  obtain c cs where cs: "cphs = c # cs" "sealed_body bm p it m c"
      "list_all2 (\<lambda>im. sealed_body bm p (fst im) (snd im)) (zip items msgs) cs"
    using Cons.prems(2) by (auto simp: list_all2_Cons1)
  have ih: "parses (open_items p bm items) (concat cs) (map exported msgs)"
    using Cons.IH cs(3) Cons.prems(1) by simp
  have it: "bm_decrypt p bm (fi_kdm it) (fi_headCph it) = Ok (messageHead_wire (mp_head m))"
      "fi_lenBody it = boxedLen m"
    using Cons.hyps by (simp_all add: sealed_item_def)
  have ok: "part_ok p m" "messageHead_ok (mp_head m)" using Cons.prems(1) by (simp_all add: part_ok_def)
  obtain d0 where d0: "messageHead_decode (Decoder (messageHead_wire (mp_head m))) = Ok (mp_head m, d0)"
    using messageHeadCodec.decode_ok [OF ok(2), of "[]"] by simp
  show ?case
  proof (cases "body_written m")
    case False
    have c: "c = []" using cs(2) False by (simp add: sealed_body_def)
    show ?thesis
      using ih exported_not_written [OF False]
      by (auto simp: parses_def it d0 boxedLen_not_written [OF False] cs(1) c)
  next
    case True
    then obtain b h where b: "mp_body m = Some b" "mh_hsh (mp_head m) = Some h" by (auto simp: body_written_def)
    have h: "h = blake3_hash p b" using ok(1) True b by (simp add: part_ok_def)
    have c: "bm_decrypt p bm (fi_kdm it) c = Ok b" "length c = length b + boxOver"
      using cs(2) True b by (simp_all add: sealed_body_def)
    have n: "fi_lenBody it = int (length c)" "fi_lenBody it \<noteq> 0" "\<not> fi_lenBody it < 0"
      using it(2) boxedLen_written [OF True] b c(2) by (simp_all add: boxOver_def)
    have "parses (\<lambda>d. andThen (readBytes d (fi_lenBody it)) (\<lambda>(cph, d).
              andThen (bm_decrypt p bm (fi_kdm it) cph) (\<lambda>bod.
              if \<not> bytesEqual (blake3_hash p bod) h then Err HashMismatch
              else andThen (open_items p bm items d) (\<lambda>(msgs, d).
                   Ok (\<lparr>mp_head = mp_head m, mp_body = Some bod\<rparr> # msgs, d)))))
         (c @ concat cs) (exported m # map exported msgs)"
      by (rule parses_bind [OF parses_readBytes] parses_pure [OF c(1)] parses_else parses_final ih
          | (simp add: n(1) h bytesEqual_eq exported_written [OF True b(1)]; fail))+
    then show ?thesis
      unfolding open_items.simps it(1) andThen.simps d0 prod.case using n(2,3) b(2) cs(1) by simp
  qed
qed

lemma parses_Decoder_at:
  assumes "parses rd bs v" "wf_dec d" "unread d = bs @ rest"
  shows "rd d = Ok (v, advance d (length bs))" "wf_dec (advance d (length bs))" "unread (advance d (length bs)) = rest"
  using parsesD [OF assms] wf_advance [OF assms(2,3)] assms(3) by simp_all

definition chunk_for ::
    "prims \<Rightarrow> BagManager \<Rightarrow> IFileRealm \<Rightarrow> IMsgParts list \<Rightarrow> bytes \<Rightarrow> bool" where
  "chunk_for p bm row msgs bs =
     (\<forall>d rest. wf_dec d \<longrightarrow> unread d = bs @ rest \<longrightarrow>
        openChunk p d (dec_data d) row bm = Ok (map exported msgs, advance d (length bs)))"

lemma sealChunk_ok:
  assumes p: "prims_ok p" and n: "\<forall>k. length (hn k) = 24" "\<forall>k. length (bn k) = 24"
    and ok: "list_all (part_ok p) msgs" "msgs \<noteq> []"
  obtains ps heads where "sealChunk p hn bn enc msgs bm = Ok (enc @ ps, heads)"
    "chunk_for p bm \<lparr>fr_realm = realm, fr_num = int (length msgs), fr_hsh = blake3_hash p heads\<rparr> msgs (concat ps)"
proof -
  obtain items hs where h: "seal_heads p bm hn 0 msgs Encoder = Ok (Encoder @ hs, map fi_kdm items)"
      "concat hs = concat (map fileIndexItem_wire items)" "list_all2 (sealed_item bm p) items msgs"
    using seal_heads_ok [OF p n(1) ok(1)] by blast
  let ?heads = "concat (map fileIndexItem_wire items)"
  obtain qs cphs where b: "seal_bodies p bm bn 0 msgs (map fi_kdm items) (enc @ [?heads]) = Ok ((enc @ [?heads]) @ qs)"
      "concat qs = concat cphs" "list_all2 (\<lambda>im. sealed_body bm p (fst im) (snd im)) (zip items msgs) cphs"
    using seal_bodies_ok [OF p n(2) h(3)] by blast
  have len: "length items = length msgs" using h(3) by (rule list_all2_lengthD)
  have it: "\<And>x. x \<in> set items \<Longrightarrow> fileIndexItem_ok x"
    using h(3) by (auto simp: sealed_item_def list_all2_conv_all_nth in_set_conv_nth)
  show ?thesis
  proof (rule that [of "?heads # qs" ?heads])
    show "sealChunk p hn bn enc msgs bm = Ok (enc @ ?heads # qs, ?heads)"
      using h b ok(2) by (simp add: sealChunk_def enc_result_def Encoder_def writeBytes_def Suc_le_eq Let_def)
    show "chunk_for p bm \<lparr>fr_realm = realm, fr_num = int (length msgs), fr_hsh = blake3_hash p ?heads\<rparr> msgs
        (concat (?heads # qs))"
      unfolding chunk_for_def
    proof (intro allI impI)
      fix d rest assume d: "wf_dec d" "unread d = concat (?heads # qs) @ rest"
      have u: "unread d = ?heads @ concat cphs @ rest" using d(2) b(2) by simp
      have r: "parses (read_times fileIndexItem_decode (length items)) ?heads items"
        by (rule parses_read_times) (rule fileIndexItemCodec.rd_parses [OF it])
      note r = parses_Decoder_at [OF r d(1) u]
      have "take (length ?heads) (unread d) = ?heads" unfolding u by simp
      then have hd: "take (consumed (advance d (length ?heads)) - consumed d) (drop (consumed d) (dec_data d)) = ?heads"
        by (simp add: consumed_def unread_def)
      show "openChunk p d (dec_data d) \<lparr>fr_realm = realm, fr_num = int (length msgs), fr_hsh = blake3_hash p ?heads\<rparr> bm
          = Ok (map exported msgs, advance d (length (concat (?heads # qs))))"
        using r(1) hd parses_Decoder_at(1) [OF open_items_ok [OF p h(3) ok(1) b(3)] r(2,3)] b(2) len
        by (simp add: openChunk_def Let_def bytesEqual_eq)
    qed
  qed
qed

lemma seal_realms_ok:
  assumes p: "prims_ok p" and n: "\<forall>i k. length (hn i k) = 24" "\<forall>i k. length (bn i k) = 24"
  shows "list_all (\<lambda>(realm, msgs). kdm_ok realm \<and> msgs \<noteq> [] \<and> short msgs \<and> list_all (part_ok p) msgs) parts \<Longrightarrow>
    \<exists>ps dir. seal_realms p key hn bn i parts enc = Ok (enc @ ps, dir)
      \<and> length dir = length parts \<and> list_all fileRealm_ok dir
      \<and> (\<forall>d rest. wf_dec d \<longrightarrow> unread d = concat ps @ rest \<longrightarrow>
           open_realms p key (dec_data d) dir d
             = Ok (map (\<lambda>(realm, msgs). (realm, map exported msgs)) parts, advance d (length (concat ps))))"
proof (induction parts arbitrary: i enc)
  case Nil
  show ?case by (intro exI [of _ "[]"]) simp
next
  case (Cons part parts)
  obtain realm msgs where part: "part = (realm, msgs)" by (rule prod.exhaust)
  have ok: "kdm_ok realm" "msgs \<noteq> []" "short msgs" "list_all (part_ok p) msgs"
    using Cons.prems part by simp_all
  obtain bm where bm: "bagmanForExport p key realm = Ok bm"
    using bagmanForExport_eq [OF p ok(1)] by (simp add: Let_def)
  obtain qs heads where c: "sealChunk p (hn i) (bn i) enc msgs bm = Ok (enc @ qs, heads)"
    "chunk_for p bm \<lparr>fr_realm = realm, fr_num = int (length msgs), fr_hsh = blake3_hash p heads\<rparr> msgs (concat qs)"
    using sealChunk_ok [OF p spec [OF n(1), of i] spec [OF n(2), of i] ok(4,2), where bm = bm and enc = enc and realm = realm] by blast
  obtain ps dir where ih: "seal_realms p key hn bn (Suc i) parts (enc @ qs) = Ok ((enc @ qs) @ ps, dir)"
      "length dir = length parts" "list_all fileRealm_ok dir"
      "\<And>d rest. wf_dec d \<Longrightarrow> unread d = concat ps @ rest \<Longrightarrow>
           open_realms p key (dec_data d) dir d
             = Ok (map (\<lambda>(realm, msgs). (realm, map exported msgs)) parts, advance d (length (concat ps)))"
    using Cons.IH [of "Suc i" "enc @ qs"] Cons.prems by auto
  let ?row = "\<lparr>fr_realm = realm, fr_num = int (length msgs), fr_hsh = blake3_hash p heads\<rparr>"
  have row: "fileRealm_ok ?row"
    using ok p by (simp add: fileRealm_ok_def hshBytes_def short_num Suc_le_eq)
  show ?case
  proof (intro exI conjI allI impI)
    show "seal_realms p key hn bn i (part # parts) enc = Ok (enc @ qs @ ps, ?row # dir)"
      using bm c(1) ih(1) ok(2) by (simp add: part Suc_le_eq)
    fix d rest assume d: "wf_dec d" "unread d = concat (qs @ ps) @ rest"
    have u: "unread d = concat qs @ concat ps @ rest" using d(2) by simp
    let ?d = "advance d (length (concat qs))"
    have "openChunk p d (dec_data d) ?row bm = Ok (map exported msgs, ?d)"
      using c(2) d(1) u unfolding chunk_for_def by blast
    moreover have "open_realms p key (dec_data ?d) dir ?d
        = Ok (map (\<lambda>(realm, msgs). (realm, map exported msgs)) parts, advance ?d (length (concat ps)))"
      by (rule ih(4)) (use wf_advance [OF d(1) u] u in simp_all)
    ultimately show "open_realms p key (dec_data d) (?row # dir) d
        = Ok (map (\<lambda>(realm, msgs). (realm, map exported msgs)) (part # parts), advance d (length (concat (qs @ ps))))"
      using bm part by simp
  qed (use ih row in simp_all)
qed

text \<open>What an export can carry: realms with at least one message, all well formed.\<close>

definition realms_exportable :: "prims \<Rightarrow> IExportRealm list \<Rightarrow> bool" where
  "realms_exportable p realms =
     (short realms \<and>
      list_all (\<lambda>(realm, msgs). kdm_ok realm \<and> msgs \<noteq> [] \<and> short msgs \<and> list_all (part_ok p) msgs) realms)"

lemma encodeFile_decodes:
  assumes p: "prims_ok p" and ok: "realms_exportable p realms" and nonce: "length nonce = 32"
    and n: "\<forall>i k. length (hn i k) = 24" "\<forall>i k. length (bn i k) = 24"
  obtains bs where "encodeFile p hn bn realms key nonce = Ok bs" "exportNonce bs = Ok nonce"
    "decodeFile p bs key = Ok (map (\<lambda>(realm, msgs). (realm, map exported msgs)) realms)"
proof -
  let ?out = "map (\<lambda>(realm, msgs). (realm, map exported msgs)) realms"
  obtain signer where signer: "bagmanForExport p key nullKDM = Ok signer"
    using bagmanForExport_eq [OF p kdm_ok_null] by (simp add: Let_def)
  obtain ps dir where c: "seal_realms p key hn bn 0 realms Encoder = Ok (Encoder @ ps, dir)"
      "length dir = length realms" "list_all fileRealm_ok dir"
      "\<And>d rest. wf_dec d \<Longrightarrow> unread d = concat ps @ rest \<Longrightarrow>
         open_realms p key (dec_data d) dir d = Ok (?out, advance d (length (concat ps)))"
    using seal_realms_ok [OF p n, of realms key 0 Encoder] ok unfolding realms_exportable_def by blast
  have c1: "seal_realms p key hn bn 0 realms Encoder = Ok (ps, dir)" using c(1) by (simp add: Encoder_def)
  have dir: "realms_ok dir" using c(2,3) ok by (simp add: realms_ok_def realms_exportable_def short_def)
  let ?pre = "nonce @ realms_wire dir"
  have pre: "fileHeadPreimage nonce dir = Ok ?pre"
    using nonce
    by (simp add: fileHeadPreimage_def hashBytes_def encode_with_emits emits_then emits_writeBytes emits_writeRealms [OF dir])
  obtain sig vk where sig: "bm_sign p signer (MsgBytes (blake3_hash p ?pre)) = Ok sig" "length sig = 64"
      "importVerifyKey p (bm_publicKey signer) = Ok vk" "checkSigEd25519 p sig (MsgBytes (blake3_hash p ?pre)) vk"
    by (rule bm_sign_ok [OF p bagmanForExport_ok [OF p kdm_ok_null signer]])
  let ?h = "\<lparr>fh_nonce = nonce, fh_realms = dir, fh_hsh = blake3_hash p ?pre, fh_sig = sig\<rparr>"
  have h: "fileHead_ok ?h"
    using nonce dir sig(2) p by (simp add: fileHead_ok_def hashBytes_def hshBytes_def sigBytes_def)
  let ?d = "advance (Decoder (fileHead_wire ?h @ concat ps)) (length (fileHead_wire ?h))"
  have f: "file_decode (Decoder (fileHead_wire ?h @ concat ps))
      = Ok (\<lparr>file_head = ?h, file_chunks = concat ps\<rparr>, advance ?d (length (concat ps)))"
    by (simp add: file_decode_def fileHeadCodec.decode_ok [OF h] readRest_end wf_advance)
  let ?c = "Decoder (concat ps)"
  have data: "dec_data ?c = concat ps" by (simp add: Decoder_def)
  have r: "open_realms p key (concat ps) dir ?c = Ok (?out, advance ?c (length (concat ps)))"
    using c(4) [of ?c "[]"] by (simp add: data)
  have dn: "done_dec (advance ?c (length (concat ps)))" by (simp add: done_dec_def Decoder_def)
  show ?thesis
  proof (rule that [of "fileHead_wire ?h @ concat ps"])
    show "encodeFile p hn bn realms key nonce = Ok (fileHead_wire ?h @ concat ps)"
      unfolding encodeFile_def using nonce
      by (simp add: signer c1 pre sig(1) fileHeadCodec.encode_ok [OF h] Let_def hashBytes_def enc_result_def
          prependBytes_def)
    show "exportNonce (fileHead_wire ?h @ concat ps) = Ok nonce"
      by (simp add: exportNonce_def fileHeadCodec.decode_ok [OF h])
    show "decodeFile p (fileHead_wire ?h @ concat ps) key = Ok ?out"
      unfolding decodeFile_def f by (simp add: Let_def signer sig(3,4) pre bytesEqual_eq r dn)
  qed
qed

definition sample_parts :: "IMsgParts list" where
  "sample_parts =
     [\<lparr>mp_head = sealed_head toy_prims (sample_msg (Some [7])), mp_body = Some [7]\<rparr>,
      \<lparr>mp_head = sealed_head toy_prims (sample_msg None), mp_body = None\<rparr>]"

definition sample_realms :: "IExportRealm list" where
  "sample_realms = [(nullKDM, sample_parts), (\<lparr>kdm_label = [65], kdm_index = 1\<rparr>, take 1 sample_parts)]"

lemma sample_wires:
  "length (messageHead_wire (sealed_head toy_prims (sample_msg (Some [7])))) \<le> 100"
  "length (messageHead_wire (sealed_head toy_prims (sample_msg None))) \<le> 100"
  by code_simp+

lemma sample_parts_ok: "list_all (part_ok toy_prims) sample_parts" "body_written (hd sample_parts)"
  using sample_wires
  by (simp_all add: sample_parts_def part_ok_def boxOver_def)
     (simp_all add: body_written_def sealed_head_def sample_msg_def head_of_def toy_prims_def)

lemma sample_exportable: "realms_exportable toy_prims sample_realms"
  using sample_parts_ok(1)
  by (simp add: realms_exportable_def sample_realms_def short_def)
     (simp add: sample_parts_def kdm_ok_def str_ok_ascii ascii_def short_def is_num_safe)

text \<open>C2: an export file survives. Realms of well-formed messages, each realm with at least
  one, encode under any file key to a file whose nonce is read back from the header in the
  clear and which the same key decodes to the same realms in the same order, every message with
  its head and with the body that was written (a body is left out when the head has no digest
  or no length).\<close>

theorem export_roundtrip:
  assumes "prims_ok p" "realms_exportable p realms" "length nonce = 32"
    and "\<forall>i k. length (hn i k) = 24" "\<forall>i k. length (bn i k) = 24"
  shows "\<exists>file. encodeFile p hn bn realms key nonce = Ok file \<and> exportNonce file = Ok nonce
    \<and> decodeFile p file key = Ok (map (\<lambda>(realm, msgs). (realm, map exported msgs)) realms)"
  using encodeFile_decodes [OF assms] by metis

theorem export_roundtrip_witness:
  "\<exists>bs. encodeFile toy_prims (\<lambda>_ _. replicate 24 1) (\<lambda>_ _. replicate 24 2) sample_realms [3] (replicate 32 4) = Ok bs
    \<and> exportNonce bs = Ok (replicate 32 4)
    \<and> decodeFile toy_prims bs [3] = Ok (map (\<lambda>(realm, msgs). (realm, map exported msgs)) sample_realms)"
  by (rule export_roundtrip) (simp_all add: sample_exportable)

section \<open>Authenticity\<close>

text \<open>Every body that an open message carries has the digest its head names.\<close>

definition bodies_match :: "prims \<Rightarrow> IMsgParts list \<Rightarrow> bool" where
  "bodies_match p msgs =
     list_all (\<lambda>m. case mp_body m of None \<Rightarrow> True | Some b \<Rightarrow> mh_hsh (mp_head m) = Some (blake3_hash p b)) msgs"

text \<open>What a successful read leaves behind: a later position in the same buffer.\<close>

definition after :: "decoder \<Rightarrow> decoder \<Rightarrow> bool" where
  "after d d' = (dec_data d' = dec_data d \<and> dec_pos d \<le> dec_pos d' \<and> wf_dec d')"

lemma after_refl: "wf_dec d \<Longrightarrow> after d d"
  by (simp add: after_def)

lemma after_trans: "after d d1 \<Longrightarrow> after d1 d' \<Longrightarrow> after d d'"
  by (simp add: after_def)

lemma after_wf: "after d d' \<Longrightarrow> wf_dec d'"
  by (simp add: after_def)

lemma moves_after: "moves k rd \<Longrightarrow> wf_dec d \<Longrightarrow> rd d = Ok (v, d') \<Longrightarrow> after d d'"
  using moves_Ok [of k rd d v d'] by (simp add: after_def)

lemma after_split:
  assumes "wf_dec d" "after d d'"
  shows "unread d = take (dec_pos d' - dec_pos d) (unread d) @ unread d'"
proof -
  have "unread d' = drop (dec_pos d' - dec_pos d) (unread d)"
    using assms by (simp add: after_def unread_def)
  then show ?thesis by simp
qed

lemma open_items_sound:
  "wf_dec d \<Longrightarrow> open_items p bm items d = Ok (msgs, d') \<Longrightarrow>
     after d d' \<and> length msgs = length items \<and> bodies_match p msgs"
proof (induction items arbitrary: d msgs)
  case Nil
  then show ?case by (simp add: after_refl bodies_match_def)
next
  case (Cons it items)
  obtain headEnc h d0 where h: "messageHead_decode (Decoder headEnc) = Ok (h, d0)"
      "\<not> fi_lenBody it < 0" and
      r: "(if fi_lenBody it = 0
           then andThen (open_items p bm items d) (\<lambda>(msgs, d). Ok (\<lparr>mp_head = h, mp_body = None\<rparr> # msgs, d))
           else case mh_hsh h of
            None \<Rightarrow> Err InvalidMessage
          | Some hsh \<Rightarrow>
              andThen (readBytes d (fi_lenBody it)) (\<lambda>(cph, d).
              andThen (bm_decrypt p bm (fi_kdm it) cph) (\<lambda>bod.
              if \<not> bytesEqual (blake3_hash p bod) hsh then Err HashMismatch
              else andThen (open_items p bm items d) (\<lambda>(msgs, d).
                   Ok (\<lparr>mp_head = h, mp_body = Some bod\<rparr> # msgs, d))))) = Ok (msgs, d')"
    using Cons.prems(2) by (auto split: if_splits)
  show ?case
  proof (cases "fi_lenBody it = 0")
    case True
    then obtain ms where "open_items p bm items d = Ok (ms, d')" "msgs = \<lparr>mp_head = h, mp_body = None\<rparr> # ms"
      using r by auto
    then show ?thesis using Cons.IH [OF Cons.prems(1)] by (simp add: bodies_match_def)
  next
    case False
    then obtain hsh cph d1 bod ms where b: "mh_hsh h = Some hsh" "readBytes d (fi_lenBody it) = Ok (cph, d1)"
        "blake3_hash p bod = hsh" "open_items p bm items d1 = Ok (ms, d')" "msgs = \<lparr>mp_head = h, mp_body = Some bod\<rparr> # ms"
      using r by (auto simp: bytesEqual_eq split: option.splits if_splits)
    have "after d d1" by (rule moves_after [OF moves_readBytes [OF le0] Cons.prems(1) b(2)])
    then show ?thesis
      using Cons.IH [OF after_wf b(4)] after_trans b by (auto simp: bodies_match_def)
  qed
qed

lemma length_read_times: "read_times rd n d = Ok (xs, d') \<Longrightarrow> length xs = n"
  by (induction n arbitrary: d xs) auto

lemma openChunk_sound:
  assumes wf: "wf_dec d" and o': "openChunk p d (dec_data d) row bm = Ok (msgs, d')"
  shows "after d d' \<and> length msgs = nat (fr_num row) \<and> bodies_match p msgs
    \<and> (\<exists>heads bodies. unread d = heads @ bodies @ unread d' \<and> blake3_hash p heads = fr_hsh row)"
proof -
  obtain items d1 where i: "read_times fileIndexItem_decode (nat (fr_num row)) d = Ok (items, d1)"
      "blake3_hash p (take (dec_pos d1 - dec_pos d) (unread d)) = fr_hsh row" "open_items p bm items d1 = Ok (msgs, d')"
    using o' by (auto simp: openChunk_def Let_def consumed_def unread_def bytesEqual_eq split: if_splits)
  have a: "after d d1"
    by (rule moves_after [OF moves_read_times wf i(1)]) (rule moves_mono [OF fileIndexItemCodec.rd_moves le0])
  have n: "length items = nat (fr_num row)" by (rule length_read_times [OF i(1)])
  note s = open_items_sound [OF after_wf [OF a] i(3)]
  have "unread d = take (dec_pos d1 - dec_pos d) (unread d) @ unread d1" by (rule after_split [OF wf a])
  also have "unread d1 = take (dec_pos d' - dec_pos d1) (unread d1) @ unread d'"
    using s by (intro after_split [OF after_wf [OF a]]) simp
  finally show ?thesis using s n i(2) after_trans [OF a] by metis
qed

lemma open_realms_sound:
  "wf_dec d \<Longrightarrow> open_realms p key (dec_data d) rows d = Ok (realms, d') \<Longrightarrow>
     after d d' \<and> map fst realms = map fr_realm rows \<and> map (\<lambda>r. int (length (snd r))) realms = map (\<lambda>row. max 0 (fr_num row)) rows
     \<and> list_all (\<lambda>r. bodies_match p (snd r)) realms
     \<and> (\<exists>secs. unread d = concat (map (\<lambda>(heads, bodies). heads @ bodies) secs) @ unread d'
          \<and> map (\<lambda>s. blake3_hash p (fst s)) secs = map fr_hsh rows)"
proof (induction rows arbitrary: d realms)
  case Nil
  then show ?case by (simp add: after_refl)
next
  case (Cons row rows)
  obtain bm msgs d1 rs where o': "openChunk p d (dec_data d) row bm = Ok (msgs, d1)"
      "open_realms p key (dec_data d) rows d1 = Ok (rs, d')" "realms = (fr_realm row, msgs) # rs"
    using Cons.prems(2) by auto
  obtain heads bodies where c: "after d d1" "length msgs = nat (fr_num row)" "bodies_match p msgs"
      "unread d = heads @ bodies @ unread d1" "blake3_hash p heads = fr_hsh row"
    using openChunk_sound [OF Cons.prems(1) o'(1)] by blast
  have "open_realms p key (dec_data d1) rows d1 = Ok (rs, d')" using c(1) o'(2) by (simp add: after_def)
  from Cons.IH [OF after_wf [OF c(1)] this] obtain secs where
    ih: "after d1 d'" "map fst rs = map fr_realm rows" "map (\<lambda>r. int (length (snd r))) rs = map (\<lambda>row. max 0 (fr_num row)) rows"
      "list_all (\<lambda>r. bodies_match p (snd r)) rs"
      "unread d1 = concat (map (\<lambda>(heads, bodies). heads @ bodies) secs) @ unread d'"
      "map (\<lambda>s. blake3_hash p (fst s)) secs = map fr_hsh rows" by blast
  show ?case
    using c(2-5) ih(2-6) o'(3) after_trans [OF c(1) ih(1)]
    by (intro conjI exI [of _ "(heads, bodies) # secs"]) simp_all
qed

text \<open>C12: nothing enters through an import that the holder of the file key did not sign. When
  \<open>decodeFile\<close> accepts a byte string, its header carries a signature, valid under the public key
  that belongs to the file key, over the digest of the nonce and the realm directory; the chunks
  are one section per directory row and nothing else, the head sections have the digests of the
  signed directory, the realms and their message counts are those of the directory, and every
  body has the digest that its head names.\<close>

theorem import_authentic:
  assumes "decodeFile p bs key = Ok realms"
  shows "\<exists>head chunks d signer vk pre secs.
     file_decode (Decoder bs) = Ok (\<lparr>file_head = head, file_chunks = chunks\<rparr>, d)
   \<and> bagmanForExport p key nullKDM = Ok signer \<and> importVerifyKey p (bm_publicKey signer) = Ok vk
   \<and> fileHeadPreimage (fh_nonce head) (fh_realms head) = Ok pre
   \<and> checkSigEd25519 p (fh_sig head) (MsgBytes (blake3_hash p pre)) vk
   \<and> chunks = concat (map (\<lambda>(heads, bodies). heads @ bodies) secs)
   \<and> map (\<lambda>s. blake3_hash p (fst s)) secs = map fr_hsh (fh_realms head)
   \<and> map fst realms = map fr_realm (fh_realms head)
   \<and> map (\<lambda>r. int (length (snd r))) realms = map (\<lambda>row. max 0 (fr_num row)) (fh_realms head)
   \<and> list_all (\<lambda>r. bodies_match p (snd r)) realms"
proof -
  obtain f d0 signer vk pre d' where f: "file_decode (Decoder bs) = Ok (f, d0)"
      "bagmanForExport p key nullKDM = Ok signer" "importVerifyKey p (bm_publicKey signer) = Ok vk"
      "fileHeadPreimage (fh_nonce (file_head f)) (fh_realms (file_head f)) = Ok pre"
      "checkSigEd25519 p (fh_sig (file_head f)) (MsgBytes (blake3_hash p pre)) vk"
      "open_realms p key (file_chunks f) (fh_realms (file_head f)) (Decoder (file_chunks f)) = Ok (realms, d')"
      "done_dec d'"
    using assms by (auto simp: decodeFile_def Let_def bytesEqual_eq split: if_splits)
  let ?d = "Decoder (file_chunks f)"
  have o': "open_realms p key (dec_data ?d) (fh_realms (file_head f)) ?d = Ok (realms, d')"
    using f(6) by (simp add: Decoder_def)
  have wf: "wf_dec ?d" by simp
  from open_realms_sound [OF wf o'] obtain secs where s:
    "after ?d d'" "map fst realms = map fr_realm (fh_realms (file_head f))"
    "map (\<lambda>r. int (length (snd r))) realms = map (\<lambda>row. max 0 (fr_num row)) (fh_realms (file_head f))"
    "list_all (\<lambda>r. bodies_match p (snd r)) realms"
    "unread ?d = concat (map (\<lambda>(heads, bodies). heads @ bodies) secs) @ unread d'"
    "map (\<lambda>s. blake3_hash p (fst s)) secs = map fr_hsh (fh_realms (file_head f))" by blast
  have "unread d' = []" using f(7) s(1) by (simp add: done_dec_def unread_def)
  then have "file_chunks f = concat (map (\<lambda>(heads, bodies). heads @ bodies) secs)" using s(5) by simp
  moreover have "f = \<lparr>file_head = file_head f, file_chunks = file_chunks f\<rparr>" by simp
  ultimately show ?thesis using f(1-5) s(2-4,6) by metis
qed

theorem import_authentic_witness:
  "\<exists>bs realms head chunks d signer vk pre.
     decodeFile toy_prims bs [3] = Ok realms \<and> map fst realms = map fst sample_realms
   \<and> file_decode (Decoder bs) = Ok (\<lparr>file_head = head, file_chunks = chunks\<rparr>, d)
   \<and> bagmanForExport toy_prims [3] nullKDM = Ok signer \<and> importVerifyKey toy_prims (bm_publicKey signer) = Ok vk
   \<and> fileHeadPreimage (fh_nonce head) (fh_realms head) = Ok pre
   \<and> checkSigEd25519 toy_prims (fh_sig head) (MsgBytes (blake3_hash toy_prims pre)) vk
   \<and> map fst realms = map fr_realm (fh_realms head)"
proof -
  obtain bs where "decodeFile toy_prims bs [3] = Ok (map (\<lambda>(realm, msgs). (realm, map exported msgs)) sample_realms)"
    using encodeFile_decodes [of toy_prims sample_realms "replicate 32 4" "\<lambda>_ _. replicate 24 1" "\<lambda>_ _. replicate 24 2" "[3]"]
      sample_exportable by auto
  moreover from import_authentic [OF this] show ?thesis
    using calculation by (fastforce simp: sample_realms_def)
qed

end
