(* ===== verification/Decoded.thy ===== *)
theory Decoded
  imports Codecs
begin

text \<open>
  The types of decoded values (shared/codecs). The interfaces of \<^verbatim>\<open>shared/types.ts\<close> promise more than
  their TypeScript types say: digests, signatures and keys of fixed length, counts and sequence
  numbers that are not negative, a body digest exactly when there is a body. This theory shows
  that every record a decoder returns, from whatever bytes, keeps these promises, so that the
  code behind the decoders need not check them again.
\<close>

section \<open>What a read yields\<close>

definition yields :: "(decoder \<Rightarrow> ('a \<times> decoder) vs) \<Rightarrow> ('a \<Rightarrow> bool) \<Rightarrow> bool" where
  "yields rd P = (\<forall>d v d'. rd d = Ok (v, d') \<longrightarrow> P v)"

named_theorems yields_rules \<open>what each read yields\<close>

lemma yieldsI: "(\<And>d v d'. rd d = Ok (v, d') \<Longrightarrow> P v) \<Longrightarrow> yields rd P"
  by (auto simp: yields_def)

lemma yieldsD: "yields rd P \<Longrightarrow> rd d = Ok (v, d') \<Longrightarrow> P v"
  by (auto simp: yields_def)

lemma yields_bind [yields_rules]:
  "yields rd P \<Longrightarrow> (\<And>v. P v \<Longrightarrow> yields (f v) Q) \<Longrightarrow> yields (\<lambda>d. andThen (rd d) (\<lambda>(v, d). f v d)) Q"
  by (fastforce simp: yields_def)

lemma yields_pure [yields_rules]:
  "(\<And>x. r = Ok x \<Longrightarrow> yields (f x) Q) \<Longrightarrow> yields (\<lambda>d. andThen r (\<lambda>x. f x d)) Q"
  by (auto simp: yields_def)

lemma yields_Ok: "Q v \<Longrightarrow> yields (\<lambda>d. Ok (v, d)) Q"
  by (simp add: yields_def)

lemma yields_Err [yields_rules]: "yields (\<lambda>d. Err s) Q"
  by (simp add: yields_def)

lemma yields_if [yields_rules]:
  "(c \<Longrightarrow> yields f Q) \<Longrightarrow> (\<not> c \<Longrightarrow> yields g Q) \<Longrightarrow> yields (\<lambda>d. if c then f d else g d) Q"
  by (simp add: yields_def)

lemma yields_test: "yields f Q \<Longrightarrow> yields g Q \<Longrightarrow> yields (\<lambda>d. if c d then f d else g d) Q"
  by (simp add: yields_def)

lemma Number_of_nonneg: "0 \<le> n \<Longrightarrow> 0 \<le> Number_of n"
  by (auto simp: Number_of_def Let_def intro!: mult_nonneg_nonneg add_nonneg_nonneg pos_imp_zdiv_nonneg_iff [THEN iffD2])

lemma yields_readVarInt [yields_rules]: "yields readVarInt (\<lambda>n. 0 \<le> n)"
  by (rule yieldsI) (auto simp: readVarInt_def Number_of_nonneg dest!: decodeVarInt_sound)

lemma yields_readBytes [yields_rules]: "yields (\<lambda>d. readBytes d n) (\<lambda>b. int (length b) = n)"
  by (rule yieldsI) (auto simp: readBytes_def split: if_splits)

lemma yields_any: "yields rd (\<lambda>_. True)"
  by (simp add: yields_def)

lemma yields_read_times: "yields rd P \<Longrightarrow> yields (read_times rd n) (list_all P)"
proof (induction n)
  case 0
  show ?case by (simp add: yields_def)
next
  case (Suc n)
  have "yields (\<lambda>d. andThen (rd d) (\<lambda>(v, d). andThen (read_times rd n d) (\<lambda>(vs, d). Ok (v # vs, d)))) (list_all P)"
    by (rule yields_bind [OF Suc.prems] yields_bind [OF Suc.IH [OF Suc.prems]] yields_Ok | (simp; fail))+
  then show ?case by simp
qed

lemma yields_readStructs_from: "yields rd P \<Longrightarrow> list_all P acc \<Longrightarrow> readStructs_from rd acc d = Ok (xs, d') \<Longrightarrow> list_all P xs"
proof (induction rd acc d rule: readStructs_from.induct)
  case (1 rd acc d)
  show ?case
  proof (cases "done_dec d")
    case True
    then show ?thesis using 1(3,4) by (subst (asm) readStructs_from.simps) simp
  next
    case False
    then obtain v d1 where r: "rd d = Ok (v, d1)" "dec_data d1 = dec_data d" "dec_pos d < dec_pos d1"
        "readStructs_from rd (acc @ [v]) d1 = Ok (xs, d')"
      using 1(4) by (subst (asm) readStructs_from.simps) (auto split: vs.splits if_splits)
    moreover have "P v" by (rule yieldsD [OF 1(2) r(1)])
    ultimately show ?thesis using 1(1) [OF False r(1) refl] 1(2,3) by simp
  qed
qed

lemma yields_readStructs: "yields rd P \<Longrightarrow> yields (readStructs rd) (list_all P)"
  using yields_readStructs_from [of rd P "[]"] by (auto simp: yields_def readStructs_def)

section \<open>The types of the records\<close>

definition head_typed :: "IMessageHead \<Rightarrow> bool" where
  "head_typed h =
     (mh_typ h \<noteq> None \<and> eid_readable (mh_eid h) \<and> 0 \<le> mh_off h \<and> 0 \<le> mh_ctr h \<and> 0 \<le> mh_len h
      \<and> (case mh_hsh h of None \<Rightarrow> mh_len h = 0 | Some x \<Rightarrow> 0 < mh_len h \<and> length x = hshBytes))"

definition bag_typed :: "IBag \<Rightarrow> bool" where
  "bag_typed b = (length (bag_rlm b) = hashBytes \<and> length (bag_sig b) = sigBytes \<and> length (bag_kdm b) = kdmBytes)"

definition auth_typed :: "IAuthTimestamp \<Rightarrow> bool" where
  "auth_typed a = (length (at_pubKey a) = pubKeyBytes \<and> length (at_sig a) = sigBytes)"

definition notif_typed :: "IBagNotifItem \<Rightarrow> bool" where
  "notif_typed x = (0 \<le> ni_seq x \<and> length (ni_rlm x) = hashBytes
     \<and> (case ni_bodyCph x of None \<Rightarrow> True | Some b \<Rightarrow> b \<noteq> []))"

fun push_typed :: "IBagPushItem \<Rightarrow> bool" where
  "push_typed (PushStored i sq) = (0 \<le> i \<and> 0 \<le> sq)"
| "push_typed (PushRefused i s) = (0 \<le> i \<and> s \<noteq> Success)"

definition peekHead_typed :: "IBagPeekItemHead \<Rightarrow> bool" where
  "peekHead_typed x = (length (ph_sig x) = sigBytes \<and> length (ph_kdm x) = kdmBytes)"

definition quota_typed :: "IUsageQuota \<Rightarrow> bool" where
  "quota_typed q = (case uq_usage q of None \<Rightarrow> uq_quota q = 0 | Some u \<Rightarrow> 0 < uq_quota q \<and> 0 \<le> u)"

definition resp_typed :: "IRespHead \<Rightarrow> bool" where
  "resp_typed r = (let s = rh_subscription r in
     0 \<le> sub_term s \<and> 0 \<le> sub_elapsed s \<and> quota_typed (sub_stat s) \<and> quota_typed (sub_dyn s))"

definition realm_typed :: "IFileRealm \<Rightarrow> bool" where
  "realm_typed r = (0 \<le> kdm_index (fr_realm r) \<and> 1 \<le> fr_num r \<and> length (fr_hsh r) = hshBytes)"

definition fileHead_typed :: "IFileHead \<Rightarrow> bool" where
  "fileHead_typed h =
     (length (fh_nonce h) = hashBytes \<and> length (fh_hsh h) = hshBytes \<and> length (fh_sig h) = sigBytes
      \<and> list_all realm_typed (fh_realms h))"

section \<open>The decoders yield them\<close>

lemma yields_messageHead: "yields messageHead_decode head_typed"
  unfolding messageHead_decode_def
  by (rule yields_bind [OF yields_any] yields_bind [OF yields_readVarInt] yields_bind [OF yields_readBytes]
      yields_pure yields_if yields_Ok
    | (auto simp: head_typed_def eid_readable_def; fail))+

lemma asHostRlm_typed: "asHostRlm b = Ok x \<Longrightarrow> length x = hashBytes"
  by (auto simp: asHostRlm_def asChildKey_def split: if_splits)

lemma yields_bag: "yields bag_decode bag_typed"
  unfolding bag_decode_def
  by (rule yields_bind [OF yields_readBytes] yields_bind [OF yields_any] yields_pure yields_Ok
    | (auto simp: bag_typed_def asHostRlm_typed; fail))+

lemma yields_authTimestamp: "yields authTimestamp_decode auth_typed"
  unfolding authTimestamp_decode_def
  by (rule yields_bind [OF yields_readBytes] yields_bind [OF yields_any] yields_Ok
    | (auto simp: auth_typed_def; fail))+

lemma yields_notifItem: "yields notifItem_decode notif_typed"
  unfolding notifItem_decode_def
  by (rule yields_bind [OF yields_readVarInt] yields_bind [OF yields_readBytes] yields_bind [OF yields_any] yields_pure yields_if yields_Ok
    | (auto simp: notif_typed_def asHostRlm_typed; fail))+

lemma yields_pushItem: "yields pushItem_decode push_typed"
  unfolding pushItem_decode_def
  by (rule yields_bind [OF yields_readVarInt] yields_bind [OF yields_any] yields_if yields_Ok
    | (simp; fail))+

lemma yields_peekItemHead: "yields peekItemHead_decode peekHead_typed"
  unfolding peekItemHead_decode_def
  by (rule yields_bind [OF yields_readBytes] yields_bind [OF yields_any] yields_Ok
    | (auto simp: peekHead_typed_def; fail))+

lemma yields_usageQuota: "yields usageQuota_decode quota_typed"
  unfolding usageQuota_decode_def
  by (rule yields_bind [OF yields_readVarInt] yields_if yields_Ok | (auto simp: quota_typed_def; fail))+

lemma yields_respHead: "yields respHead_decode resp_typed"
  unfolding respHead_decode_def
  by (rule yields_bind [OF yields_readVarInt] yields_bind [OF yields_usageQuota] yields_bind [OF yields_any] yields_Ok
    | (simp add: resp_typed_def; fail))+

lemma yields_kdm: "yields kdm_decode (\<lambda>k. 0 \<le> kdm_index k)"
  unfolding kdm_decode_def
  by (rule yields_bind [OF yields_any] yields_bind [OF yields_readVarInt] yields_Ok | (simp; fail))+

lemma yields_fileRealm: "yields fileRealm_decode realm_typed"
  unfolding fileRealm_decode_def
  by (rule yields_bind [OF yields_kdm] yields_bind [OF yields_readVarInt] yields_bind [OF yields_readBytes] yields_if yields_Err yields_Ok
    | (simp add: realm_typed_def; fail))+

lemma yields_readRealms: "yields readRealms (list_all realm_typed)"
  unfolding readRealms_def
  by (rule yields_bind [OF yields_readVarInt] yields_test yields_Err yields_read_times yields_fileRealm)+

lemma yields_fileHead: "yields fileHead_decode fileHead_typed"
  unfolding fileHead_decode_def
  by (rule yields_bind [OF yields_readBytes] yields_bind [OF yields_readRealms] yields_Ok
    | (simp add: fileHead_typed_def; fail))+

text \<open>C29: every record that a decoder of the protocol accepts is well typed, whatever the bytes. Digests,
  keys and signatures have their fixed length, sequence numbers and counts are not negative, a head
  has a digest exactly when it announces a body, a refused push item is not a success, a directory
  row of an export counts at least one message; and this holds for every member of the lists
  that requests and responses are decoded to.\<close>

theorem decoded_well_typed:
  "(\<forall>d h d'. messageHead_decode d = Ok (h, d') \<longrightarrow> head_typed h)
   \<and> (\<forall>d a d'. authTimestamp_decode d = Ok (a, d') \<longrightarrow> auth_typed a)
   \<and> (\<forall>d r d'. respHead_decode d = Ok (r, d') \<longrightarrow> resp_typed r)
   \<and> (\<forall>d h d'. fileHead_decode d = Ok (h, d') \<longrightarrow> fileHead_typed h)
   \<and> (\<forall>d bs d'. readStructs bag_decode d = Ok (bs, d') \<longrightarrow> list_all bag_typed bs)
   \<and> (\<forall>d xs d'. readStructs notifItem_decode d = Ok (xs, d') \<longrightarrow> list_all notif_typed xs)
   \<and> (\<forall>d xs d'. readStructs pushItem_decode d = Ok (xs, d') \<longrightarrow> list_all push_typed xs)
   \<and> (\<forall>d xs d'. readStructs peekItemHead_decode d = Ok (xs, d') \<longrightarrow> list_all peekHead_typed xs)"
  using yieldsD [OF yields_messageHead] yieldsD [OF yields_authTimestamp] yieldsD [OF yields_respHead]
    yieldsD [OF yields_fileHead] yieldsD [OF yields_readStructs [OF yields_bag]]
    yieldsD [OF yields_readStructs [OF yields_notifItem]] yieldsD [OF yields_readStructs [OF yields_pushItem]]
    yieldsD [OF yields_readStructs [OF yields_peekItemHead]]
  by (intro conjI allI impI) assumption+

definition sample_bytes :: bytes where
  "sample_bytes = replicate 64 1 @ replicate 32 2 @ replicate 8 3 @ [1, 9, 0]"

theorem decoded_well_typed_witness:
  "\<exists>bs d. readStructs bag_decode (Decoder sample_bytes) = Ok (bs, d) \<and> length bs = 1 \<and> list_all bag_typed bs"
proof -
  let ?b = "\<lparr>bag_rlm = replicate 32 2, bag_sig = replicate 64 1, bag_kdm = replicate 8 3, bag_headCph = [9], bag_bodyCph = []\<rparr>"
  have "list_all bag_ok [?b]" by (simp add: bag_ok_def hashBytes_def sigBytes_def kdmBytes_def short_def)
  moreover have "unread (Decoder sample_bytes) = concat (map bag_wire [?b])"
    by (simp add: sample_bytes_def bag_wire_def varbytes_wire_def varint_wire_def) (simp add: varint_groups.simps)
  ultimately have "readStructs bag_decode (Decoder sample_bytes) = Ok ([?b], advance (Decoder sample_bytes) (length (unread (Decoder sample_bytes))))"
    by (intro bagCodec.structs_decode) simp_all
  then show ?thesis using decoded_well_typed by fastforce
qed

end
