(* ===== verification/Cached.thy ===== *)
theory Cached
  imports EntDB
begin

text \<open>
  The in-memory cache over a durable entity database (\<^verbatim>\<open>web/src/entdb/cached.ts\<close>). The code between
  two awaits is one operation on an explicit state: the cache, the durable database, the chain of
  queued writes with the point each has reached, the reads in flight, the deliveries to listeners.
  A run is a sequence of such steps in any interleaving. The durable database is any implementation of
  its interface; the property that the cache ends up equal to it is proved from the interface's
  contract and instantiated with the memory database.
\<close>

section \<open>The durable database\<close>

record 'd IEntDB =
  ie_apply :: "IOp list \<Rightarrow> 'd \<Rightarrow> 'd \<times> ApplyResult"
  ie_getRow :: "bytes \<Rightarrow> 'd \<Rightarrow> IEntRow option vs"
  ie_getEntities :: "EntitiesQuery \<Rightarrow> 'd \<Rightarrow> IEntity list vs"
  ie_clear :: "'d \<Rightarrow> 'd \<times> unit vs"

definition memEntDB :: "EntDBMemory IEntDB" where
  "memEntDB = \<lparr>ie_apply = edb_apply, ie_getRow = (\<lambda>i d. Ok (getRow i d)), ie_getEntities = getEntities,
     ie_clear = (\<lambda>d. (edb_clear d, Ok ()))\<rparr>"

section \<open>Comparing rows\<close>

record RowStamp =
  rs_t :: date
  rs_ctr :: int

definition rowStamp :: "IEntRow option \<Rightarrow> RowStamp option" where
  "rowStamp row = map_option (\<lambda>r. \<lparr>rs_t = row_updatedAt r, rs_ctr = row_ctr r\<rparr>) row"

definition stampEq :: "RowStamp option \<Rightarrow> RowStamp option \<Rightarrow> bool" where
  "stampEq a b =
     (case (a, b) of (Some x, Some y) \<Rightarrow> date_eq (rs_t x) (rs_t y) \<and> rs_ctr x = rs_ctr y | _ \<Rightarrow> a = b)"

definition rowWins :: "IEntRow \<Rightarrow> IEntRow \<Rightarrow> bool" where
  "rowWins a b =
     (let ta = row_updatedAt a; tb = row_updatedAt b
      in if \<not> date_eq ta tb then date_less tb ta else row_ctr a > row_ctr b)"

definition sameTags :: "jsstr list option \<Rightarrow> jsstr list option \<Rightarrow> bool" where
  "sameTags a b = (a = b)"

definition optBytesEqual :: "bytes option \<Rightarrow> bytes option \<Rightarrow> bool" where
  "optBytesEqual a b = (case (a, b) of (None, None) \<Rightarrow> True | (Some x, Some y) \<Rightarrow> bytesEqual x y | _ \<Rightarrow> False)"

text \<open>Bodies are bytes or absent.\<close>

definition sameBody :: "bytes option \<Rightarrow> bytes option \<Rightarrow> bool" where
  "sameBody a b = (case (a, b) of (Some x, Some y) \<Rightarrow> bytesEqual x y | _ \<Rightarrow> a = b)"

definition sameRow :: "IEntRow \<Rightarrow> IEntRow \<Rightarrow> bool" where
  "sameRow a b =
     (if isLiveEnt a \<noteq> isLiveEnt b then False
      else if row_ctr a \<noteq> row_ctr b then False
      else if \<not> date_eq (row_updatedAt a) (row_updatedAt b) then False
      else if \<not> bytesEqual (row_eid a) (row_eid b) then False
      else case (a, b) of
        (Live x, Live y) \<Rightarrow>
          (if \<not> date_eq (ent_createdAt x) (ent_createdAt y) then False
           else if ent_type x \<noteq> ent_type y then False
           else if \<not> optBytesEqual (ent_pid x) (ent_pid y) then False
           else if \<not> sameTags (ent_tags x) (ent_tags y) then False
           else sameBody (ent_body x) (ent_body y))
      | _ \<Rightarrow> True)"

section \<open>State\<close>

type_synonym snap = "(jsstr, RowStamp option) jsmap"

text \<open>
  A write in the chain: a persist that has not started, with the stamps its apply left in the
  cache (none without optimistic writes), or \<open>pullEids\<close> on behalf of a persist or an ingest: the
  ids left, those seen, the types changed, the row read for the first id and not yet looked at, and
  what the persist answers.
\<close>

record pull =
  pu_eids :: "bytes list"
  pu_seen :: "jsstr list"
  pu_changed :: "jsstr list"
  pu_snap :: "snap option"
  pu_read :: "IEntRow option option"
  pu_result :: "(nat \<times> ApplyResult) option"

datatype job = Persist "IOp list" "snap option" | Ingest "bytes list" | ClearDb | Pull pull

record warming =
  wm_read :: "IEntity list vs option"
  wm_emits :: nat

record 'd CachedEntDB =
  ca_mem :: EntDBMemory
  ca_durable :: 'd
  ca_warmed :: "jsstr list"
  ca_listeners :: "nat list"
  ca_chain :: "job list"
  ca_optimistic :: bool
  ca_inflight :: int
  ca_warmP :: "(jsstr, warming) jsmap"
  ca_paint :: "jsstr list list"
  ca_reads :: "(bytes \<times> IEntRow option) list"
  ca_emitted :: "(nat \<times> jsstr list) list"
  ca_results :: "ApplyResult list"

definition CachedEntDB_new :: "'d \<Rightarrow> IEntity list option \<Rightarrow> bool \<Rightarrow> bool \<Rightarrow> 'd CachedEntDB" where
  "CachedEntDB_new durable init indexes optimistic =
     \<lparr>ca_mem = EntDBMemory_new (case init of None \<Rightarrow> [] | Some es \<Rightarrow> es) indexes, ca_durable = durable,
      ca_warmed = (case init of None \<Rightarrow> [] | Some es \<Rightarrow> foldl (\<lambda>w e. set_add (ent_type e) w) [] es),
      ca_listeners = [], ca_chain = [], ca_optimistic = optimistic, ca_inflight = 0, ca_warmP = [],
      ca_paint = [], ca_reads = [], ca_emitted = [], ca_results = []\<rparr>"

definition ca_subscribe :: "nat \<Rightarrow> 'd CachedEntDB \<Rightarrow> 'd CachedEntDB" where
  "ca_subscribe l c = c\<lparr>ca_listeners := set_add l (ca_listeners c)\<rparr>"

definition ca_unsubscribe :: "nat \<Rightarrow> 'd CachedEntDB \<Rightarrow> 'd CachedEntDB" where
  "ca_unsubscribe l c = c\<lparr>ca_listeners := set_delete l (ca_listeners c)\<rparr>"

definition ca_emit :: "jsstr list \<Rightarrow> 'd CachedEntDB \<Rightarrow> 'd CachedEntDB" where
  "ca_emit types c =
     (if length types < 1 then c else c\<lparr>ca_emitted := ca_emitted c @ map (\<lambda>l. (l, types)) (ca_listeners c)\<rparr>)"

text \<open>The callback after the next paint.\<close>

definition ca_after_paint :: "'d CachedEntDB \<Rightarrow> 'd CachedEntDB" where
  "ca_after_paint c = (case ca_paint c of [] \<Rightarrow> c | types # rest \<Rightarrow> ca_emit types (c\<lparr>ca_paint := rest\<rparr>))"

section \<open>Writing\<close>

text \<open>The loop of \<open>applyOps\<close> is that of the memory database.\<close>

definition applyOps :: "EntDBMemory \<Rightarrow> IOp list \<Rightarrow> EntDBMemory \<times> ApplyResult" where
  "applyOps mem ops = edb_apply ops mem"

definition take_snap :: "EntDBMemory \<Rightarrow> IOp list \<Rightarrow> snap" where
  "take_snap mem ops =
     foldl (\<lambda>snap op. map_set (btob64 (op_eid op)) (rowStamp (map_get (edb_ents mem) (btob64 (op_eid op)))) snap) [] ops"

definition ca_apply :: "IOp list \<Rightarrow> 'd CachedEntDB \<Rightarrow> 'd CachedEntDB" where
  "ca_apply ops c =
     (if ca_optimistic c
      then case applyOps (ca_mem c) ops of
             (mem, r) \<Rightarrow>
               c\<lparr>ca_mem := mem, ca_inflight := ca_inflight c + 1,
                 ca_chain := ca_chain c @ [Persist ops (Some (take_snap mem ops))],
                 ca_paint := ca_paint c @ [ar_types r]\<rparr>
      else c\<lparr>ca_chain := ca_chain c @ [Persist ops None]\<rparr>)"

definition ca_clear :: "'d CachedEntDB \<Rightarrow> 'd CachedEntDB" where
  "ca_clear c = c\<lparr>ca_chain := ca_chain c @ [ClearDb]\<rparr>"

definition ingestFromDurable :: "bytes list \<Rightarrow> 'd CachedEntDB \<Rightarrow> 'd CachedEntDB" where
  "ingestFromDurable eids c = c\<lparr>ca_chain := ca_chain c @ [Ingest eids]\<rparr>"

section \<open>The chain\<close>

definition new_pull :: "bytes list \<Rightarrow> snap option \<Rightarrow> (nat \<times> ApplyResult) option \<Rightarrow> pull" where
  "new_pull eids snap result =
     \<lparr>pu_eids = eids, pu_seen = [], pu_changed = [], pu_snap = snap, pu_read = None, pu_result = result\<rparr>"

text \<open>The end of a chain entry; a persist answers and, if optimistic, leaves the count of writes in flight.\<close>

definition finish_job :: "ApplyResult option \<Rightarrow> 'd CachedEntDB \<Rightarrow> 'd CachedEntDB" where
  "finish_job result c =
     (let c = c\<lparr>ca_chain := tl (ca_chain c)\<rparr>
      in case result of
           None \<Rightarrow> c
         | Some r \<Rightarrow> c\<lparr>ca_results := ca_results c @ [r],
                       ca_inflight := (if ca_optimistic c then ca_inflight c - 1 else ca_inflight c)\<rparr>)"

definition rejected_eids :: "IOp list \<Rightarrow> status list \<Rightarrow> bytes list" where
  "rejected_eids ops stats = map op_eid (map fst (filter (\<lambda>(_, st). st \<noteq> Success) (zip ops stats)))"

definition start_persist :: "'d IEntDB \<Rightarrow> IOp list \<Rightarrow> snap option \<Rightarrow> 'd CachedEntDB \<Rightarrow> 'd CachedEntDB" where
  "start_persist I ops snap c =
     (case ie_apply I ops (ca_durable c) of
        (durable, durResult) \<Rightarrow>
          (let c = c\<lparr>ca_durable := durable\<rparr>;
               pull = (if \<not> ca_optimistic c then map op_eid ops else rejected_eids ops (ar_stats durResult))
           in if ca_optimistic c \<and> length pull = 0 then finish_job (Some durResult) c
              else c\<lparr>ca_chain := Pull (new_pull pull (if ca_optimistic c then snap else None) (Some (length ops, durResult)))
                                 # tl (ca_chain c)\<rparr>))"

text \<open>The end of \<open>pullEids\<close>, and of the persist or ingest that called it.\<close>

definition end_pull :: "status \<Rightarrow> pull \<Rightarrow> 'd CachedEntDB \<Rightarrow> 'd CachedEntDB" where
  "end_pull st pu c =
     (let c = ca_emit (pu_changed pu) c
      in case pu_result pu of
           None \<Rightarrow> finish_job None c
         | Some (n, durResult) \<Rightarrow>
             finish_job (Some (if st \<noteq> Success then durResult\<lparr>ar_stats := replicate n st\<rparr> else durResult)) c)"

text \<open>One turn of \<open>pullEids\<close> up to its await: the next id that was not seen, and its row.\<close>

definition pull_read :: "'d IEntDB \<Rightarrow> pull \<Rightarrow> 'd CachedEntDB \<Rightarrow> 'd CachedEntDB" where
  "pull_read I pu c =
     (case pu_eids pu of
        [] \<Rightarrow> end_pull Success pu c
      | eid # eids \<Rightarrow>
          (if btob64 eid \<in> set (pu_seen pu)
           then c\<lparr>ca_chain := Pull (pu\<lparr>pu_eids := eids\<rparr>) # tl (ca_chain c)\<rparr>
           else case ie_getRow I eid (ca_durable c) of
             Ok row \<Rightarrow> c\<lparr>ca_chain := Pull (pu\<lparr>pu_seen := btob64 eid # pu_seen pu, pu_read := Some row\<rparr>) # tl (ca_chain c)\<rparr>
           | r \<Rightarrow> end_pull (status_of r) pu c))"

definition live_type :: "IEntRow option \<Rightarrow> jsstr list" where
  "live_type r = (case r of Some (Live e) \<Rightarrow> [ent_type e] | _ \<Rightarrow> [])"

text \<open>After the await: install the row that was read.\<close>

definition pull_install :: "pull \<Rightarrow> bytes \<Rightarrow> IEntRow option \<Rightarrow> 'd CachedEntDB \<Rightarrow> 'd CachedEntDB" where
  "pull_install pu eid row c =
     (let key = btob64 eid; cur = map_get (edb_ents (ca_mem c)) key;
          next = (\<lambda>changed mem. c\<lparr>ca_mem := mem,
             ca_chain := Pull (pu\<lparr>pu_eids := tl (pu_eids pu), pu_read := None, pu_changed := changed\<rparr>) # tl (ca_chain c)\<rparr>)
      in if (case (cur, row) of (Some a, Some b) \<Rightarrow> rowWins a b | _ \<Rightarrow> False) then next (pu_changed pu) (ca_mem c)
         else if (case pu_snap pu of None \<Rightarrow> False
                  | Some snap \<Rightarrow> \<not> stampEq (rowStamp cur) (case map_get snap key of None \<Rightarrow> None | Some x \<Rightarrow> x))
         then next (pu_changed pu) (ca_mem c)
         else case row of
           Some r \<Rightarrow>
             next (if (case cur of None \<Rightarrow> True | Some a \<Rightarrow> \<not> sameRow a r)
                   then foldl (\<lambda>ts t. set_add t ts) (pu_changed pu) (live_type (Some r) @ live_type cur) else pu_changed pu)
                  (put r (ca_mem c))
         | None \<Rightarrow>
             (case cur of
                None \<Rightarrow> next (pu_changed pu) (ca_mem c)
              | Some a \<Rightarrow> next (foldl (\<lambda>ts t. set_add t ts) (pu_changed pu) (live_type (Some a))) (del key (ca_mem c))))"

text \<open>One step of the entry at the head of the chain.\<close>

definition ca_chain_step :: "'d IEntDB \<Rightarrow> 'd CachedEntDB \<Rightarrow> 'd CachedEntDB" where
  "ca_chain_step I c =
     (case ca_chain c of
        [] \<Rightarrow> c
      | Persist ops snap # _ \<Rightarrow> start_persist I ops snap c
      | Ingest eids # rest \<Rightarrow> c\<lparr>ca_chain := Pull (new_pull eids None None) # rest\<rparr>
      | ClearDb # _ \<Rightarrow>
          (case ie_clear I (ca_durable c) of
             (durable, Ok _) \<Rightarrow> finish_job None (c\<lparr>ca_durable := durable, ca_mem := edb_clear (ca_mem c), ca_warmed := []\<rparr>)
           | (durable, _) \<Rightarrow> finish_job None (c\<lparr>ca_durable := durable\<rparr>))
      | Pull pu # _ \<Rightarrow>
          (case pu_read pu of
             None \<Rightarrow> pull_read I pu c
           | Some row \<Rightarrow> pull_install pu (hd (pu_eids pu)) row c))"

section \<open>Reading\<close>

text \<open>\<open>beginWarm\<close>; the second argument is how many emissions the caller hangs on its end.\<close>

definition beginWarm :: "jsstr \<Rightarrow> nat \<Rightarrow> 'd CachedEntDB \<Rightarrow> 'd CachedEntDB" where
  "beginWarm ty n c =
     (if ty \<in> set (ca_warmed c) then c
      else c\<lparr>ca_warmP := map_set ty (case map_get (ca_warmP c) ty of
          Some w \<Rightarrow> w\<lparr>wm_emits := wm_emits w + n\<rparr> | None \<Rightarrow> \<lparr>wm_read = None, wm_emits = n\<rparr>) (ca_warmP c)\<rparr>)"

definition ensureWarm :: "jsstr \<Rightarrow> 'd CachedEntDB \<Rightarrow> 'd CachedEntDB" where
  "ensureWarm ty c = beginWarm ty 1 c"

definition warm_read :: "'d IEntDB \<Rightarrow> jsstr \<Rightarrow> 'd CachedEntDB \<Rightarrow> 'd CachedEntDB" where
  "warm_read I ty c =
     (case map_get (ca_warmP c) ty of
        Some w \<Rightarrow> if wm_read w = None
                  then c\<lparr>ca_warmP := map_set ty (w\<lparr>wm_read := Some (ie_getEntities I (QType ty) (ca_durable c))\<rparr>) (ca_warmP c)\<rparr>
                  else c
      | None \<Rightarrow> c)"

definition put_newer :: "EntDBMemory \<Rightarrow> IEntRow \<Rightarrow> EntDBMemory" where
  "put_newer mem row =
     (case map_get (edb_ents mem) (btob64 (row_eid row)) of
        None \<Rightarrow> put row mem
      | Some cur \<Rightarrow> if rowWins row cur then put row mem else mem)"

definition warm_install :: "jsstr \<Rightarrow> 'd CachedEntDB \<Rightarrow> 'd CachedEntDB" where
  "warm_install ty c =
     (case map_get (ca_warmP c) ty of
        None \<Rightarrow> c
      | Some w \<Rightarrow>
          (case wm_read w of
             None \<Rightarrow> c
           | Some (Ok ents) \<Rightarrow>
               (let c = c\<lparr>ca_mem := foldl (\<lambda>mem e. put_newer mem (Live e)) (ca_mem c) ents,
                          ca_warmed := set_add ty (ca_warmed c), ca_warmP := map_delete ty (ca_warmP c)\<rparr>
                in ((ca_emit [ty]) ^^ wm_emits w) c)
           | Some _ \<Rightarrow> c\<lparr>ca_warmP := map_delete ty (ca_warmP c)\<rparr>))"

text \<open>A listing is answered from the cache at once, or after the type has been loaded.\<close>

datatype 'r answer = Now 'r | AfterWarm

definition ca_getEntities :: "jsstr \<Rightarrow> EntitiesQuery \<Rightarrow> 'd CachedEntDB \<Rightarrow> 'd CachedEntDB \<times> IEntity list vs answer" where
  "ca_getEntities ty q c =
     (if ty \<in> set (ca_warmed c) then (c, Now (getEntities q (ca_mem c)))
      else if ca_inflight c > 0 then (ensureWarm ty c, Now (getEntities q (ca_mem c)))
      else (beginWarm ty 0 c, AfterWarm))"

definition ca_countEntities :: "jsstr \<Rightarrow> 'd CachedEntDB \<Rightarrow> 'd CachedEntDB \<times> nat vs answer" where
  "ca_countEntities ty c =
     (if ty \<in> set (ca_warmed c) then (c, Now (Ok (countEntities ty (ca_mem c))))
      else if ca_inflight c > 0 then (ensureWarm ty c, Now (Ok (countEntities ty (ca_mem c))))
      else (beginWarm ty 0 c, AfterWarm))"

text \<open>A row that the cache lacks is read from the durable database and installed when it arrives.\<close>

definition row_read :: "'d IEntDB \<Rightarrow> bytes \<Rightarrow> 'd CachedEntDB \<Rightarrow> 'd CachedEntDB \<times> IEntRow option vs answer" where
  "row_read I eid c =
     (if map_has (edb_ents (ca_mem c)) (btob64 eid) then (c, Now (Ok (getRow eid (ca_mem c))))
      else case ie_getRow I eid (ca_durable c) of
        Ok row \<Rightarrow> (c\<lparr>ca_reads := ca_reads c @ [(eid, row)]\<rparr>, AfterWarm)
      | Err st \<Rightarrow> (c, Now (Err st)) | Throw \<Rightarrow> (c, Now Throw) | Hang \<Rightarrow> (c, Now Hang))"

definition row_install :: "bytes \<Rightarrow> IEntRow option \<Rightarrow> 'd CachedEntDB \<Rightarrow> 'd CachedEntDB \<times> IEntRow option" where
  "row_install eid row c =
     (let c = (case row of
          None \<Rightarrow> c
        | Some r \<Rightarrow>
            (case map_get (edb_ents (ca_mem c)) (btob64 eid) of
               None \<Rightarrow> c\<lparr>ca_mem := put r (ca_mem c)\<rparr>
             | Some cur \<Rightarrow> if rowWins r cur then c\<lparr>ca_mem := put r (ca_mem c)\<rparr> else c))
      in (c, getRow eid (ca_mem c)))"

definition ca_getEnt :: "IEntRow option vs \<Rightarrow> IEntity option vs" where
  "ca_getEnt r = andThen r (\<lambda>row. case row of Some (Live e) \<Rightarrow> Ok (Some e) | _ \<Rightarrow> Ok None)"

section \<open>Rows with distinct stamps\<close>

definition tm :: "IEntRow \<Rightarrow> int" where
  "tm r = the (row_updatedAt r)"

definition plain :: "IEntRow \<Rightarrow> bool" where
  "plain r = ((case r of Live e \<Rightarrow> Live (omitDefaultRealm e) | Tombstone _ _ _ \<Rightarrow> r) = r)"

text \<open>The rows of an entity that can occur: the one the durable database starts with and those of the operations.\<close>

definition rows_of :: "(bytes \<Rightarrow> IEntRow option) \<Rightarrow> IOp list \<Rightarrow> bytes \<Rightarrow> IEntRow \<Rightarrow> bool" where
  "rows_of D0 X i r = (D0 i = Some r \<or> (\<exists>op \<in> set X. op_eid op = i \<and> r = op_row op))"

definition world :: "(bytes \<Rightarrow> IEntRow option) \<Rightarrow> IOp list \<Rightarrow> bool" where
  "world D0 X =
     ((\<forall>op \<in> set X. op_good op)
      \<and> (\<forall>i r. D0 i = Some r \<longrightarrow> row_updatedAt r \<noteq> None \<and> row_eid r = i \<and> plain r)
      \<and> (\<forall>i r r'. rows_of D0 X i r \<longrightarrow> rows_of D0 X i r' \<longrightarrow> row_updatedAt r = row_updatedAt r' \<longrightarrow> r = r'))"

definition at_least :: "IEntRow option \<Rightarrow> IEntRow \<Rightarrow> bool" where
  "at_least m r = (case m of None \<Rightarrow> False | Some x \<Rightarrow> tm r \<le> tm x)"

lemma at_least_simps [simp]: "\<not> at_least None r" "at_least (Some x) r = (tm r \<le> tm x)"
  by (simp_all add: at_least_def)

lemma rows_mono: "rows_of D0 X i r \<Longrightarrow> set X \<subseteq> set Y \<Longrightarrow> rows_of D0 Y i r"
  by (auto simp: rows_of_def)

lemma world_mono: "world D0 Y \<Longrightarrow> set X \<subseteq> set Y \<Longrightarrow> world D0 X"
  unfolding world_def using rows_mono [of D0 X _ _ Y] by blast

lemma row_facts:
  assumes "world D0 X" "rows_of D0 X i r"
  shows "row_updatedAt r = Some (tm r)" "row_eid r = i" "plain r"
proof -
  have "row_updatedAt r \<noteq> None \<and> row_eid r = i \<and> plain r"
  proof (cases "D0 i = Some r")
    case True
    then show ?thesis using assms(1) by (auto simp: world_def)
  next
    case False
    then obtain op where op: "op \<in> set X" "op_eid op = i" "r = op_row op" using assms(2) by (auto simp: rows_of_def)
    then have "op_parses op" "op_stamp op \<noteq> None" using assms(1) by (auto simp: world_def op_good_def)
    then show ?thesis using op op_row_eid op_row_updatedAt omit_op_row by (simp add: plain_def)
  qed
  then show "row_updatedAt r = Some (tm r)" "row_eid r = i" "plain r" by (auto simp: tm_def)
qed

lemma row_unique: "world D0 X \<Longrightarrow> rows_of D0 X i r \<Longrightarrow> rows_of D0 X i r' \<Longrightarrow> tm r = tm r' \<Longrightarrow> r = r'"
proof -
  assume w: "world D0 X" "rows_of D0 X i r" "rows_of D0 X i r'" and t: "tm r = tm r'"
  have "row_updatedAt r = row_updatedAt r'" using row_facts(1) [OF w(1,2)] row_facts(1) [OF w(1,3)] t by simp
  moreover have "\<And>i r r'. rows_of D0 X i r \<Longrightarrow> rows_of D0 X i r' \<Longrightarrow> row_updatedAt r = row_updatedAt r' \<Longrightarrow> r = r'"
    using w(1) unfolding world_def by blast
  ultimately show ?thesis using w(2,3) by blast
qed

lemma op_row_of: "op \<in> set X \<Longrightarrow> rows_of D0 X (op_eid op) (op_row op)"
  by (auto simp: rows_of_def)

lemma good_step:
  assumes "world D0 X" "op \<in> set X" "m = None \<or> (\<exists>r. m = Some r \<and> rows_of D0 X (op_eid op) r)"
  shows "applyOp m op = (if at_least m (op_row op) then Err NoChange else Ok (op_row op))"
    "op_step m op = (if at_least m (op_row op) then m else Some (op_row op))"
proof -
  have p: "op_parses op" "op_stamp op = Some (tm (op_row op))"
    using assms(1,2) op_row_updatedAt [of op] by (auto simp: world_def op_good_def tm_def)
  show "applyOp m op = (if at_least m (op_row op) then Err NoChange else Ok (op_row op))"
    using assms(3) row_facts(1) [OF assms(1), of "op_eid op"] p by (auto simp: applyOp_parses)
  then show "op_step m op = (if at_least m (op_row op) then m else Some (op_row op))" by (simp add: op_step_def)
qed

lemma good_fold:
  assumes w: "world D0 X"
  shows "set ops \<subseteq> set X \<Longrightarrow> \<forall>op \<in> set ops. op_eid op = i \<Longrightarrow> m = None \<or> (\<exists>r. m = Some r \<and> rows_of D0 X i r) \<Longrightarrow>
     (foldl op_step m ops = None \<or> (\<exists>r. foldl op_step m ops = Some r \<and> rows_of D0 X i r))
     \<and> (\<forall>r. at_least m r \<longrightarrow> at_least (foldl op_step m ops) r) \<and> (\<forall>op \<in> set ops. at_least (foldl op_step m ops) (op_row op))"
proof (induction ops arbitrary: m)
  case (Cons op ops)
  have s: "op_step m op = (if at_least m (op_row op) then m else Some (op_row op))"
    using good_step(2) [OF w, of op m] Cons.prems by simp
  let ?m = "op_step m op"
  have o: "op \<in> set X" "op_eid op = i" "set ops \<subseteq> set X" "\<forall>op \<in> set ops. op_eid op = i" using Cons.prems by auto
  have 1: "?m = None \<or> (\<exists>r. ?m = Some r \<and> rows_of D0 X i r)"
    using Cons.prems(3) s op_row_of [OF o(1), of D0] o(2) by auto
  have 2: "at_least ?m (op_row op)" "at_least m r \<Longrightarrow> at_least ?m r" for r
    unfolding s by (auto simp: at_least_def split: option.splits if_splits)
  note ih = Cons.IH [OF o(3,4) 1]
  show ?case unfolding foldl_Cons
    using ih 2 by (auto simp del: foldl_Cons)
qed simp

lemma wins_iff: "world D0 X \<Longrightarrow> rows_of D0 X i a \<Longrightarrow> rows_of D0 X i b \<Longrightarrow> rowWins a b = (tm b < tm a)"
  using row_facts(1) [of D0 X i a] row_facts(1) [of D0 X i b] row_unique [of D0 X i a b]
  by (auto simp: rowWins_def Let_def date_eq_def date_less_def)

lemma stamp_iff: "world D0 X \<Longrightarrow> rows_of D0 X i a \<Longrightarrow> rows_of D0 X i b \<Longrightarrow> stampEq (rowStamp (Some a)) (rowStamp (Some b)) = (a = b)"
  using row_facts(1) [of D0 X i a] row_facts(1) [of D0 X i b] row_unique [of D0 X i a b]
  by (auto simp: stampEq_def rowStamp_def date_eq_def)

lemma getRow_put: "plain r \<Longrightarrow> getRow j (put r mem) = (if j = row_eid r then Some r else getRow j mem)"
  by (auto simp: getRow_def put_ents plain_def Let_def)

lemma take_snap_get:
  "map_get (take_snap mem ops) (btob64 i) = (if i \<in> op_eid ` set ops then Some (rowStamp (getRow i mem)) else None)"
proof -
  have "map_get (foldl (\<lambda>snap op. map_set (btob64 (op_eid op)) (rowStamp (map_get (edb_ents mem) (btob64 (op_eid op)))) snap) s ops) (btob64 i) =
      (if i \<in> op_eid ` set ops then Some (rowStamp (getRow i mem)) else map_get s (btob64 i))" for s
    by (induction ops arbitrary: s) (auto simp: getRow_def)
  then show ?thesis by (simp add: take_snap_def)
qed

section \<open>The contract and the runs\<close>

locale durable_db =
  fixes I :: "'d IEntDB" and dinv :: "'d \<Rightarrow> bool" and row :: "'d \<Rightarrow> bytes \<Rightarrow> IEntRow option" and fine :: "IOp \<Rightarrow> bool"
  assumes apply_law: "dinv d \<Longrightarrow> list_all fine ops \<Longrightarrow> dinv (fst (ie_apply I ops d))
      \<and> (\<forall>i. row (fst (ie_apply I ops d)) i = foldl op_step (row d i) (filter (\<lambda>op. op_eid op = i) ops))"
    and stats_law: "dinv d \<Longrightarrow> list_all fine ops \<Longrightarrow> ar_stats (snd (ie_apply I ops d)) =
      map (\<lambda>k. status_of (applyOp (foldl op_step (row d (op_eid (ops ! k)))
                (filter (\<lambda>op. op_eid op = op_eid (ops ! k)) (take k ops))) (ops ! k))) [0..<length ops]"
    and read_law: "dinv d \<Longrightarrow> ie_getRow I i d = Ok (row d i)"
    and list_law: "dinv d \<Longrightarrow> \<exists>es. ie_getEntities I (QType ty) d = Ok es \<and> (\<forall>e \<in> set es. row d (ent_eid e) = Some (Live e))"

text \<open>A run: applies, chain steps, warming, single reads and paints, in any order.\<close>

datatype cache_event =
    EvApply "IOp list" | EvChain | EvWarm jsstr nat | EvWarmRead jsstr | EvWarmInstall jsstr
  | EvRead bytes | EvInstall nat | EvPaint

fun exec :: "'d IEntDB \<Rightarrow> cache_event \<Rightarrow> 'd CachedEntDB \<Rightarrow> 'd CachedEntDB" where
  "exec I (EvApply ops) c = ca_apply ops c"
| "exec I EvChain c = ca_chain_step I c"
| "exec I (EvWarm ty n) c = beginWarm ty n c"
| "exec I (EvWarmRead ty) c = warm_read I ty c"
| "exec I (EvWarmInstall ty) c = warm_install ty c"
| "exec I (EvRead i) c = fst (row_read I i c)"
| "exec I (EvInstall n) c =
     (if n < length (ca_reads c) then fst (row_install (fst (ca_reads c ! n)) (snd (ca_reads c ! n)) c) else c)"
| "exec I EvPaint c = ca_after_paint c"

fun event_ops :: "cache_event \<Rightarrow> IOp list" where
  "event_ops (EvApply ops) = ops"
| "event_ops _ = []"

text \<open>
  A write in the chain will still look at entity \<open>i\<close> of the cache while it shows row \<open>m\<close>.
\<close>

definition snap_is :: "snap option \<Rightarrow> bytes \<Rightarrow> IEntRow \<Rightarrow> bool" where
  "snap_is s i m = (\<exists>sn. s = Some sn \<and> map_get sn (btob64 i) = Some (rowStamp (Some m)))"

fun covers :: "job \<Rightarrow> bytes \<Rightarrow> IEntRow \<Rightarrow> bool" where
  "covers (Persist ops s) i m = (i \<in> op_eid ` set ops \<and> snap_is s i m)"
| "covers (Pull pu) i m =
     (snap_is (pu_snap pu) i m
      \<and> (if pu_read pu = None then i \<in> set (pu_eids pu) \<and> btob64 i \<notin> set (pu_seen pu)
         else i = hd (pu_eids pu) \<or> (i \<in> set (pu_eids pu) \<and> btob64 i \<notin> set (pu_seen pu))))"
| "covers _ i m = False"

definition snap_ok :: "(bytes \<Rightarrow> IEntRow option) \<Rightarrow> IOp list \<Rightarrow> snap option \<Rightarrow> bytes \<Rightarrow> bool" where
  "snap_ok D0 X s i = (\<exists>r. rows_of D0 X i r \<and> snap_is s i r)"

definition persist_ok :: "(bytes \<Rightarrow> IEntRow option) \<Rightarrow> IOp list \<Rightarrow> job \<Rightarrow> bool" where
  "persist_ok D0 X j = (\<exists>ops s. j = Persist ops s \<and> set ops \<subseteq> set X \<and> (\<forall>op \<in> set ops. snap_ok D0 X s (op_eid op)))"

definition above_start :: "(bytes \<Rightarrow> IEntRow option) \<Rightarrow> bytes \<Rightarrow> IEntRow \<Rightarrow> bool" where
  "above_start D0 i r = (\<forall>r0. D0 i = Some r0 \<longrightarrow> tm r0 \<le> tm r)"

text \<open>What the cache shows: nothing older than what was written through it, and nothing older than the durable start that no write will look at again.\<close>

definition mem_ok :: "(bytes \<Rightarrow> IEntRow option) \<Rightarrow> IOp list \<Rightarrow> job list \<Rightarrow> EntDBMemory \<Rightarrow> bool" where
  "mem_ok D0 X chain mem =
     ((\<forall>op \<in> set X. at_least (getRow (op_eid op) mem) (op_row op))
      \<and> (\<forall>i m. getRow i mem = Some m \<longrightarrow> rows_of D0 X i m \<and> (above_start D0 i m \<or> (\<exists>j \<in> set chain. covers j i m))))"

lemma mem_ok_put:
  assumes "world D0 X" "mem_ok D0 X chain mem" "rows_of D0 X i r" "above_start D0 i r" "\<forall>m. getRow i mem = Some m \<longrightarrow> tm m \<le> tm r"
  shows "mem_ok D0 X chain (put r mem)"
proof -
  note f = row_facts [OF assms(1,3)]
  have g: "getRow j (put r mem) = (if j = i then Some r else getRow j mem)" for j using getRow_put [OF f(3)] f(2) by simp
  have "at_least (getRow (op_eid op) (put r mem)) (op_row op)" if "op \<in> set X" for op
    using assms(2,5) that by (auto simp: g mem_ok_def at_least_def split: option.splits)
  then show ?thesis using assms(2,3,4) by (auto simp: mem_ok_def g)
qed

lemma mem_ok_chain: "mem_ok D0 X chain mem \<Longrightarrow> (\<And>j i m. j \<in> set chain \<Longrightarrow> covers j i m \<Longrightarrow> getRow i mem = Some m \<Longrightarrow>
    \<not> above_start D0 i m \<Longrightarrow> \<exists>j' \<in> set chain'. covers j' i m) \<Longrightarrow> mem_ok D0 X chain' mem"
  unfolding mem_ok_def by blast

definition good_read :: "(bytes \<Rightarrow> IEntRow option) \<Rightarrow> IOp list \<Rightarrow> bytes \<Rightarrow> IEntRow option \<Rightarrow> bool" where
  "good_read D0 X i x = (\<forall>r. x = Some r \<longrightarrow> rows_of D0 X i r \<and> above_start D0 i r)"

definition pull_ok :: "(bytes \<Rightarrow> IEntRow option) \<Rightarrow> IOp list \<Rightarrow> (bytes \<Rightarrow> IEntRow option) \<Rightarrow> pull \<Rightarrow> bool" where
  "pull_ok D0 X rw pu =
     ((\<forall>i \<in> set (pu_eids pu). rw i \<noteq> None \<and> snap_ok D0 X (pu_snap pu) i)
      \<and> (\<forall>x. pu_read pu = Some x \<longrightarrow>
           pu_eids pu \<noteq> [] \<and> x = rw (hd (pu_eids pu)) \<and> btob64 (hd (pu_eids pu)) \<in> set (pu_seen pu)))"

definition chain_ok :: "(bytes \<Rightarrow> IEntRow option) \<Rightarrow> IOp list \<Rightarrow> (bytes \<Rightarrow> IEntRow option) \<Rightarrow> job list \<Rightarrow> bool" where
  "chain_ok D0 X rw chain =
     (case chain of [] \<Rightarrow> True
      | j # rest \<Rightarrow> (\<forall>j' \<in> set rest. persist_ok D0 X j')
          \<and> (persist_ok D0 X j \<or> (\<exists>pu. j = Pull pu \<and> pull_ok D0 X rw pu)))"

definition reads_ok :: "(bytes \<Rightarrow> IEntRow option) \<Rightarrow> IOp list \<Rightarrow> (bytes \<times> IEntRow option) list \<Rightarrow> (jsstr, warming) jsmap \<Rightarrow> bool" where
  "reads_ok D0 X reads warmP =
     ((\<forall>(i, x) \<in> set reads. good_read D0 X i x)
      \<and> (\<forall>ty w es. map_get warmP ty = Some w \<longrightarrow> wm_read w = Some (Ok es) \<longrightarrow> (\<forall>e \<in> set es. good_read D0 X (ent_eid e) (Some (Live e)))))"

lemma snap_ok_mono: "snap_ok D0 X s i \<Longrightarrow> set X \<subseteq> set Y \<Longrightarrow> snap_ok D0 Y s i"
  unfolding snap_ok_def using rows_mono [of D0 X i _ Y] by blast

lemma persist_ok_mono: "persist_ok D0 X j \<Longrightarrow> set X \<subseteq> set Y \<Longrightarrow> persist_ok D0 Y j"
  unfolding persist_ok_def using snap_ok_mono [of D0 X _ _ Y] by (metis subset_trans)

lemma pull_ok_mono: "pull_ok D0 X rw pu \<Longrightarrow> set X \<subseteq> set Y \<Longrightarrow> pull_ok D0 Y rw pu"
  unfolding pull_ok_def using snap_ok_mono [of D0 X _ _ Y] by blast

lemma good_read_mono: "good_read D0 X i x \<Longrightarrow> set X \<subseteq> set Y \<Longrightarrow> good_read D0 Y i x"
  unfolding good_read_def using rows_mono [of D0 X i _ Y] by blast

lemma reads_ok_mono: "reads_ok D0 X rs wm \<Longrightarrow> set X \<subseteq> set Y \<Longrightarrow> reads_ok D0 Y rs wm"
  unfolding reads_ok_def using good_read_mono [of D0 X _ _ Y] by fast

lemma chain_ok_snoc:
  "chain_ok D0 X rw chain \<Longrightarrow> set X \<subseteq> set Y \<Longrightarrow> persist_ok D0 Y j \<Longrightarrow> chain_ok D0 Y rw (chain @ [j])"
  unfolding chain_ok_def using persist_ok_mono [of D0 X _ Y] pull_ok_mono [of D0 X rw _ Y] by (cases chain) (simp, fastforce)

lemma rejected_in:
  "length stats = length ops \<Longrightarrow> i \<in> set (rejected_eids ops stats) \<longleftrightarrow> (\<exists>k < length ops. op_eid (ops ! k) = i \<and> stats ! k \<noteq> Success)"
  by (force simp: rejected_eids_def set_zip image_iff)

context durable_db begin

definition dur_ok :: "(bytes \<Rightarrow> IEntRow option) \<Rightarrow> IOp list \<Rightarrow> 'd \<Rightarrow> bool" where
  "dur_ok D0 X d =
     (dinv d \<and> list_all fine X \<and> (\<forall>i r. row d i = Some r \<longrightarrow> rows_of D0 X i r) \<and> (\<forall>i r. D0 i = Some r \<longrightarrow> at_least (row d i) r))"

definition coh :: "(bytes \<Rightarrow> IEntRow option) \<Rightarrow> IOp list \<Rightarrow> 'd CachedEntDB \<Rightarrow> bool" where
  "coh D0 X c =
     (ca_optimistic c \<and> dur_ok D0 X (ca_durable c) \<and> mem_ok D0 X (ca_chain c) (ca_mem c)
      \<and> (\<forall>op \<in> set X. at_least (row (ca_durable c) (op_eid op)) (op_row op)
                       \<or> (\<exists>ops s. Persist ops s \<in> set (ca_chain c) \<and> op \<in> set ops))
      \<and> chain_ok D0 X (row (ca_durable c)) (ca_chain c) \<and> reads_ok D0 X (ca_reads c) (ca_warmP c))"

lemma dur_read: "dur_ok D0 X d \<Longrightarrow> good_read D0 X i (row d i)"
  unfolding dur_ok_def good_read_def above_start_def by (metis at_least_simps(2))

lemma coh_same:
  "coh D0 X c \<Longrightarrow> ca_optimistic c' = ca_optimistic c \<Longrightarrow> ca_durable c' = ca_durable c \<Longrightarrow> ca_mem c' = ca_mem c \<Longrightarrow>
     ca_chain c' = ca_chain c \<Longrightarrow> reads_ok D0 X (ca_reads c') (ca_warmP c') \<Longrightarrow> coh D0 X c'"
  by (simp add: coh_def)

lemma coh_apply:
  assumes w: "world D0 (X @ ops)" and c: "coh D0 X c" and fine: "list_all fine ops"
  shows "coh D0 (X @ ops) (ca_apply ops c)"
proof -
  let ?Y = "X @ ops" and ?mem = "fst (edb_apply ops (ca_mem c))"
  let ?job = "Persist ops (Some (take_snap ?mem ops))"
  have sub: "set X \<subseteq> set ?Y" by simp
  have m: "\<forall>op \<in> set X. at_least (getRow (op_eid op) (ca_mem c)) (op_row op)"
      "\<And>i m. getRow i (ca_mem c) = Some m \<Longrightarrow> rows_of D0 ?Y i m \<and> (above_start D0 i m \<or> (\<exists>j \<in> set (ca_chain c). covers j i m))"
    using c rows_mono [OF _ sub] by (auto simp: coh_def mem_ok_def)
  have f: "(getRow i ?mem = None \<or> (\<exists>r. getRow i ?mem = Some r \<and> rows_of D0 ?Y i r))
      \<and> (\<forall>r. at_least (getRow i (ca_mem c)) r \<longrightarrow> at_least (getRow i ?mem) r)
      \<and> (\<forall>op \<in> set ops. op_eid op = i \<longrightarrow> at_least (getRow i ?mem) (op_row op))" for i
  proof -
    have "getRow i (ca_mem c) = None \<or> (\<exists>r. getRow i (ca_mem c) = Some r \<and> rows_of D0 ?Y i r)"
      using m(2) [of i] by (cases "getRow i (ca_mem c)") simp_all
    note g = good_fold [OF w _ _ this, of "filter (\<lambda>op. op_eid op = i) ops"]
    have "set (filter (\<lambda>op. op_eid op = i) ops) \<subseteq> set ?Y" "\<forall>op \<in> set (filter (\<lambda>op. op_eid op = i) ops). op_eid op = i"
      by auto
    from g [OF this] show ?thesis unfolding apply_row by (intro conjI) (blast, blast, simp)
  qed
  have same: "i \<notin> op_eid ` set ops \<Longrightarrow> getRow i ?mem = getRow i (ca_mem c)" for i
  proof -
    assume "i \<notin> op_eid ` set ops"
    then have "filter (\<lambda>op. op_eid op = i) ops = []" by (auto simp: filter_empty_conv)
    then show ?thesis unfolding apply_row by simp
  qed
  have sn: "i \<in> op_eid ` set ops \<Longrightarrow> getRow i ?mem = Some r \<Longrightarrow> snap_is (Some (take_snap ?mem ops)) i r" for i r
    by (simp add: snap_is_def take_snap_get)
  have eq: "ca_apply ops c = c\<lparr>ca_mem := ?mem, ca_inflight := ca_inflight c + 1, ca_chain := ca_chain c @ [?job],
      ca_paint := ca_paint c @ [ar_types (snd (edb_apply ops (ca_mem c)))]\<rparr>"
    using c by (simp add: ca_apply_def applyOps_def coh_def split: prod.split)
  have po: "persist_ok D0 ?Y ?job"
    unfolding persist_ok_def
  proof (intro exI conjI ballI)
    fix op assume "op \<in> set ops"
    then obtain r where "getRow (op_eid op) ?mem = Some r" "rows_of D0 ?Y (op_eid op) r" using f [of "op_eid op"] by auto
    then show "snap_ok D0 ?Y (Some (take_snap ?mem ops)) (op_eid op)"
      using sn \<open>op \<in> set ops\<close> unfolding snap_ok_def by blast
  qed auto
  have "mem_ok D0 ?Y (ca_chain c @ [?job]) ?mem"
    unfolding mem_ok_def
  proof (intro conjI ballI allI impI)
    fix op assume "op \<in> set ?Y"
    then show "at_least (getRow (op_eid op) ?mem) (op_row op)" using f m(1) by auto
  next
    fix i r assume r: "getRow i ?mem = Some r"
    show "rows_of D0 ?Y i r" using f [of i] r by auto
    show "above_start D0 i r \<or> (\<exists>j \<in> set (ca_chain c @ [?job]). covers j i r)"
    proof (cases "i \<in> op_eid ` set ops")
      case True
      then have "covers ?job i r" using sn [OF True r] by simp
      then show ?thesis by auto
    next
      case False
      then show ?thesis using same [OF False] m(2) [of i r] r by auto
    qed
  qed
  moreover have "dur_ok D0 ?Y (ca_durable c)" using c fine rows_mono [OF _ sub] by (auto simp: coh_def dur_ok_def)
  moreover have "chain_ok D0 ?Y (row (ca_durable c)) (ca_chain c @ [?job])" using c po by (intro chain_ok_snoc [OF _ sub]) (simp_all add: coh_def)
  moreover have "reads_ok D0 ?Y (ca_reads c) (ca_warmP c)" using c by (intro reads_ok_mono [OF _ sub]) (simp add: coh_def)
  moreover have "\<forall>op \<in> set ?Y. at_least (row (ca_durable c) (op_eid op)) (op_row op)
      \<or> (\<exists>ops' s. Persist ops' s \<in> set (ca_chain c @ [?job]) \<and> op \<in> set ops')"
    using c by (auto simp: coh_def)
  ultimately show ?thesis using c by (simp add: coh_def eq)
qed

lemma finish_sel [simp]:
  "ca_mem (finish_job r c) = ca_mem c" "ca_durable (finish_job r c) = ca_durable c" "ca_optimistic (finish_job r c) = ca_optimistic c"
  "ca_chain (finish_job r c) = tl (ca_chain c)" "ca_reads (finish_job r c) = ca_reads c" "ca_warmP (finish_job r c) = ca_warmP c"
  by (simp_all add: finish_job_def Let_def split: option.split)

lemma emit_sel [simp]:
  "ca_mem (ca_emit ts c) = ca_mem c" "ca_durable (ca_emit ts c) = ca_durable c" "ca_optimistic (ca_emit ts c) = ca_optimistic c"
  "ca_chain (ca_emit ts c) = ca_chain c" "ca_reads (ca_emit ts c) = ca_reads c" "ca_warmP (ca_emit ts c) = ca_warmP c"
  by (simp_all add: ca_emit_def)

lemma end_pull_sel [simp]:
  "ca_mem (end_pull st pu c) = ca_mem c" "ca_durable (end_pull st pu c) = ca_durable c"
  "ca_optimistic (end_pull st pu c) = ca_optimistic c" "ca_chain (end_pull st pu c) = tl (ca_chain c)"
  "ca_reads (end_pull st pu c) = ca_reads c" "ca_warmP (end_pull st pu c) = ca_warmP c"
  by (simp_all add: end_pull_def Let_def split: option.split)

text \<open>The durable database after a persist, and what the persist is told.\<close>

lemma dur_apply:
  assumes w: "world D0 X" and d: "dur_ok D0 X d" and sub: "set ops \<subseteq> set X"
  defines "d' \<equiv> fst (ie_apply I ops d)" and "stats \<equiv> ar_stats (snd (ie_apply I ops d))"
  shows "dur_ok D0 X d'" "\<forall>i r. at_least (row d i) r \<longrightarrow> at_least (row d' i) r"
    "\<forall>op \<in> set ops. at_least (row d' (op_eid op)) (op_row op)" "length stats = length ops"
    "\<forall>op \<in> set ops. at_least (row d (op_eid op)) (op_row op) \<longrightarrow> op_eid op \<in> set (rejected_eids ops stats)"
    "\<forall>i \<in> set (rejected_eids ops stats). row d' i \<noteq> None \<and> i \<in> op_eid ` set ops"
proof -
  have i: "dinv d" "list_all fine ops" using d sub by (auto simp: dur_ok_def list_all_iff)
  have r0: "row d i = None \<or> (\<exists>r. row d i = Some r \<and> rows_of D0 X i r)" for i
    using d unfolding dur_ok_def by (cases "row d i") auto
  have f: "(foldl op_step (row d i) os = None \<or> (\<exists>r. foldl op_step (row d i) os = Some r \<and> rows_of D0 X i r))
      \<and> (\<forall>r. at_least (row d i) r \<longrightarrow> at_least (foldl op_step (row d i) os) r) \<and> (\<forall>op \<in> set os. at_least (foldl op_step (row d i) os) (op_row op))"
    if "set os \<subseteq> set ops" "\<forall>op \<in> set os. op_eid op = i" for i os
    using good_fold [OF w _ that(2) r0] that(1) sub by blast
  have rw: "row d' i = foldl op_step (row d i) (filter (\<lambda>op. op_eid op = i) ops)" for i
    using apply_law [OF i] by (simp add: d'_def)
  have fi: "set (filter (\<lambda>op. op_eid op = i) ops) \<subseteq> set ops" "\<forall>op \<in> set (filter (\<lambda>op. op_eid op = i) ops). op_eid op = i" for i by auto
  note g = f [OF fi]
  show mono: "\<forall>i r. at_least (row d i) r \<longrightarrow> at_least (row d' i) r" unfolding rw using g by blast
  show ops: "\<forall>op \<in> set ops. at_least (row d' (op_eid op)) (op_row op)" unfolding rw using g by simp
  have "\<forall>i r. row d' i = Some r \<longrightarrow> rows_of D0 X i r" unfolding rw using g by (metis option.distinct(1) option.inject)
  moreover have "dinv d'" using apply_law [OF i] by (simp add: d'_def)
  ultimately show "dur_ok D0 X d'" using d mono unfolding dur_ok_def by blast
  show len: "length stats = length ops" unfolding stats_def stats_law [OF i] by simp
  show "\<forall>op \<in> set ops. at_least (row d (op_eid op)) (op_row op) \<longrightarrow> op_eid op \<in> set (rejected_eids ops stats)"
  proof (intro ballI impI)
    fix op assume op: "op \<in> set ops" and al: "at_least (row d (op_eid op)) (op_row op)"
    then obtain k where k: "k < length ops" "ops ! k = op" by (auto simp: in_set_conv_nth)
    let ?os = "filter (\<lambda>o'. op_eid o' = op_eid op) (take k ops)"
    have t: "set ?os \<subseteq> set ops" "\<forall>o' \<in> set ?os. op_eid o' = op_eid op" by (auto dest: in_set_takeD)
    note ft = f [OF t]
    have "applyOp (foldl op_step (row d (op_eid op)) ?os) op = Err NoChange"
      using good_step(1) [OF w, of op "foldl op_step (row d (op_eid op)) ?os"] ft al op sub by auto
    then have "stats ! k \<noteq> Success" unfolding stats_def stats_law [OF i] using k by simp
    then show "op_eid op \<in> set (rejected_eids ops stats)" unfolding rejected_in [OF len] using k by blast
  qed
  have "row d' (op_eid op) \<noteq> None" if "op \<in> set ops" for op using ops that by (metis at_least_simps(1))
  then show "\<forall>i \<in> set (rejected_eids ops stats). row d' i \<noteq> None \<and> i \<in> op_eid ` set ops"
    unfolding rejected_in [OF len] by (metis Ball_def image_eqI nth_mem rejected_in [OF len])
qed

text \<open>What remains to be shown when the head of the chain makes a step that leaves the queued rest alone.\<close>

lemma coh_headI:
  assumes c: "coh D0 X c" and ch: "ca_chain c = j # rest"
    and c': "ca_optimistic c' = ca_optimistic c" "ca_chain c' = hd' @ rest" "ca_reads c' = ca_reads c" "ca_warmP c' = ca_warmP c"
    and dur: "dur_ok D0 X (ca_durable c')" "\<forall>i r. at_least (row (ca_durable c) i) r \<longrightarrow> at_least (row (ca_durable c') i) r"
    and mem: "mem_ok D0 X (hd' @ rest) (ca_mem c')"
    and ops: "\<forall>ops s. j = Persist ops s \<longrightarrow> (\<forall>op \<in> set ops. at_least (row (ca_durable c') (op_eid op)) (op_row op))"
    and hd': "hd' = [] \<or> (\<exists>pu. hd' = [Pull pu] \<and> pull_ok D0 X (row (ca_durable c')) pu)"
  shows "coh D0 X c'"
proof -
  have rest: "\<forall>j' \<in> set rest. persist_ok D0 X j'" using c ch by (simp add: coh_def chain_ok_def)
  have old: "\<forall>op \<in> set X. at_least (row (ca_durable c) (op_eid op)) (op_row op) \<or> (\<exists>ops s. Persist ops s \<in> set (j # rest) \<and> op \<in> set ops)"
    using c ch by (simp add: coh_def)
  have "\<forall>op \<in> set X. at_least (row (ca_durable c') (op_eid op)) (op_row op) \<or> (\<exists>ops s. Persist ops s \<in> set (hd' @ rest) \<and> op \<in> set ops)"
  proof
    fix op assume "op \<in> set X"
    then consider "at_least (row (ca_durable c) (op_eid op)) (op_row op)" | ops s where "Persist ops s \<in> set (j # rest)" "op \<in> set ops"
      using old by blast
    then show "at_least (row (ca_durable c') (op_eid op)) (op_row op) \<or> (\<exists>ops s. Persist ops s \<in> set (hd' @ rest) \<and> op \<in> set ops)"
    proof cases
      case 1
      then show ?thesis using dur(2) by blast
    next
      case 2
      then show ?thesis using ops by (cases "Persist ops s = j") auto
    qed
  qed
  moreover have "chain_ok D0 X (row (ca_durable c')) (hd' @ rest)"
    using hd' rest by (cases rest) (auto simp: chain_ok_def)
  ultimately show ?thesis using c c' dur(1) mem by (simp add: coh_def)
qed

lemma coh_persist:
  assumes w: "world D0 X" and c: "coh D0 X c" and ch: "ca_chain c = Persist ops s # rest"
  shows "coh D0 X (start_persist I ops s c)"
proof -
  have po: "persist_ok D0 X (Persist ops s)"
    using c ch by (auto simp: coh_def chain_ok_def)
  have sub: "set ops \<subseteq> set X" and sn: "\<forall>op \<in> set ops. snap_ok D0 X s (op_eid op)" using po by (auto simp: persist_ok_def)
  have d: "dur_ok D0 X (ca_durable c)" and m: "mem_ok D0 X (Persist ops s # rest) (ca_mem c)" and opt: "ca_optimistic c"
    using c ch by (simp_all add: coh_def)
  obtain d' r where a: "ie_apply I ops (ca_durable c) = (d', r)" by (metis surj_pair)
  note da = dur_apply [OF w d sub, unfolded a fst_conv snd_conv]
  let ?pull = "rejected_eids ops (ar_stats r)"
  let ?hd = "if ?pull = [] then [] else [Pull (new_pull ?pull s (Some (length ops, r)))]"
  let ?c = "start_persist I ops s c"
  have eq: "ca_optimistic ?c = ca_optimistic c" "ca_chain ?c = ?hd @ rest" "ca_reads ?c = ca_reads c" "ca_warmP ?c = ca_warmP c"
      "ca_durable ?c = d'" "ca_mem ?c = ca_mem c"
    using opt ch by (simp_all add: start_persist_def a Let_def)
  have cov: "\<exists>j' \<in> set (?hd @ rest). covers j' i x"
    if j: "j \<in> set (Persist ops s # rest)" "covers j i x" and x: "getRow i (ca_mem c) = Some x" and na: "\<not> above_start D0 i x" for j i x
  proof (cases "j = Persist ops s")
    case True
    then obtain op where op: "op \<in> set ops" "op_eid op = i" and si: "snap_is s i x" using j(2) by auto
    obtain r0 where r0: "D0 i = Some r0" "tm x < tm r0" using na by (auto simp: above_start_def)
    have "at_least (getRow (op_eid op) (ca_mem c)) (op_row op)" using m op(1) sub unfolding mem_ok_def by blast
    then have "tm (op_row op) \<le> tm x" using x op(2) by simp
    moreover have "at_least (row (ca_durable c) i) r0" using d r0(1) by (auto simp: dur_ok_def)
    ultimately have "at_least (row (ca_durable c) (op_eid op)) (op_row op)"
      using r0(2) op(2) by (auto simp: at_least_def split: option.splits)
    then have "i \<in> set ?pull" using da(5) op by blast
    then have "covers (Pull (new_pull ?pull s (Some (length ops, r)))) i x" "?pull \<noteq> []" using si by (auto simp: new_pull_def)
    then show ?thesis by simp
  qed (use j in auto)
  show ?thesis
  proof (rule coh_headI [OF c ch eq(1,2,3,4)])
    show "dur_ok D0 X (ca_durable ?c)" using da(1) by (simp add: eq)
    show "\<forall>i r. at_least (row (ca_durable c) i) r \<longrightarrow> at_least (row (ca_durable ?c) i) r" using da(2) by (simp add: eq)
    show "mem_ok D0 X (?hd @ rest) (ca_mem ?c)" unfolding eq(6) by (rule mem_ok_chain [OF m cov])
    show "\<forall>os t. Persist ops s = Persist os t \<longrightarrow> (\<forall>op \<in> set os. at_least (row (ca_durable ?c) (op_eid op)) (op_row op))"
      using da(3) by (simp add: eq)
    have "pull_ok D0 X (row d') (new_pull ?pull s (Some (length ops, r)))"
      using da(6) sn by (fastforce simp: pull_ok_def new_pull_def)
    then show "?hd = [] \<or> (\<exists>pu. ?hd = [Pull pu] \<and> pull_ok D0 X (row (ca_durable ?c)) pu)" by (simp add: eq)
  qed
qed

lemma coh_pull_read:
  assumes c: "coh D0 X c" and ch: "ca_chain c = Pull pu # rest" and rd: "pu_read pu = None"
  shows "coh D0 X (pull_read I pu c)"
proof -
  have d: "dur_ok D0 X (ca_durable c)" and m: "mem_ok D0 X (Pull pu # rest) (ca_mem c)"
    and pk: "pull_ok D0 X (row (ca_durable c)) pu"
    using c ch by (auto simp: coh_def chain_ok_def persist_ok_def)
  let ?c = "pull_read I pu c"
  have i: "ie_getRow I j (ca_durable c) = Ok (row (ca_durable c) j)" for j using d read_law by (simp add: dur_ok_def)
  have fields: "ca_optimistic ?c = ca_optimistic c" "ca_reads ?c = ca_reads c" "ca_warmP ?c = ca_warmP c"
      "ca_durable ?c = ca_durable c" "ca_mem ?c = ca_mem c"
    using i by (auto simp: pull_read_def split: list.split)
  define hd' where "hd' = (case pu_eids pu of [] \<Rightarrow> [] | e # es \<Rightarrow>
      if btob64 e \<in> set (pu_seen pu) then [Pull (pu\<lparr>pu_eids := es\<rparr>)]
      else [Pull (pu\<lparr>pu_seen := btob64 e # pu_seen pu, pu_read := Some (row (ca_durable c) e)\<rparr>)])"
  have chain: "ca_chain ?c = hd' @ rest" using ch i by (auto simp: pull_read_def hd'_def split: list.split)
  have cov: "\<exists>j' \<in> set (hd' @ rest). covers j' i x" if j: "j \<in> set (Pull pu # rest)" "covers j i x" for j i x
  proof (cases "j = Pull pu")
    case True
    then obtain e es where "pu_eids pu = e # es" using j rd by (cases "pu_eids pu") auto
    then show ?thesis using True j rd by (auto simp: hd'_def)
  qed (use j in auto)
  show ?thesis
  proof (rule coh_headI [OF c ch fields(1) chain fields(2,3)])
    show "mem_ok D0 X (hd' @ rest) (ca_mem ?c)" unfolding fields(5) by (rule mem_ok_chain [OF m cov])
    show "hd' = [] \<or> (\<exists>pu. hd' = [Pull pu] \<and> pull_ok D0 X (row (ca_durable ?c)) pu)"
      using pk rd by (auto simp: hd'_def fields pull_ok_def split: list.split)
  qed (simp_all add: fields d)
qed

lemma coh_pull_install:
  assumes w: "world D0 X" and c: "coh D0 X c" and ch: "ca_chain c = Pull pu # rest" and rd: "pu_read pu = Some x"
  shows "coh D0 X (pull_install pu (hd (pu_eids pu)) x c)"
proof -
  have d: "dur_ok D0 X (ca_durable c)" and m: "mem_ok D0 X (Pull pu # rest) (ca_mem c)"
    and pk: "pull_ok D0 X (row (ca_durable c)) pu"
    using c ch by (auto simp: coh_def chain_ok_def persist_ok_def)
  obtain e es where e: "pu_eids pu = e # es" using pk rd by (cases "pu_eids pu") (auto simp: pull_ok_def)
  obtain r where r: "x = Some r" "row (ca_durable c) e = Some r" using pk rd e by (auto simp: pull_ok_def)
  have gr: "rows_of D0 X e r" "above_start D0 e r" using dur_read [OF d, of e] r(2) by (simp_all add: good_read_def)
  obtain sn rs where sn: "pu_snap pu = Some sn" "rows_of D0 X e rs" "map_get sn (btob64 e) = Some (rowStamp (Some rs))"
    using pk e by (auto simp: pull_ok_def snap_ok_def snap_is_def)
  let ?cur = "getRow e (ca_mem c)"
  have curU: "?cur = Some a \<Longrightarrow> rows_of D0 X e a" for a using m by (simp add: mem_ok_def)
  let ?c = "pull_install pu (hd (pu_eids pu)) x c"
  let ?skip = "(case ?cur of Some a \<Rightarrow> rowWins a r | None \<Rightarrow> False) \<or> \<not> stampEq (rowStamp ?cur) (rowStamp (Some rs))"
  have key: "map_get (edb_ents (ca_mem c)) (btob64 e) = ?cur" by (simp add: getRow_def)
  define ch' where "ch' = (if ?skip then pu_changed pu
      else if (case ?cur of None \<Rightarrow> True | Some a \<Rightarrow> \<not> sameRow a r)
           then foldl (\<lambda>ts t. set_add t ts) (pu_changed pu) (live_type (Some r) @ live_type ?cur) else pu_changed pu)"
  let ?pu = "pu\<lparr>pu_eids := es, pu_read := None, pu_changed := ch'\<rparr>"
  have eq: "?c = c\<lparr>ca_mem := (if ?skip then ca_mem c else put r (ca_mem c)), ca_chain := Pull ?pu # rest\<rparr>"
    by (cases ?cur) (simp_all add: pull_install_def key e r(1) sn(1,3) ch ch'_def Let_def)
  have fl: "ca_durable ?c = ca_durable c" "ca_optimistic ?c = ca_optimistic c" "ca_reads ?c = ca_reads c" "ca_warmP ?c = ca_warmP c"
      "ca_chain ?c = [Pull ?pu] @ rest"
    unfolding eq by simp_all
  have cov: "\<exists>j' \<in> set ([Pull ?pu] @ rest). covers j' i y"
    if j: "j \<in> set (Pull pu # rest)" "covers j i y" and y: "getRow i (ca_mem c) = Some y" and na: "\<not> above_start D0 i y" and sk: "?skip" for j i y
  proof (cases "j = Pull pu")
    case True
    have "i \<noteq> e"
    proof
      assume ie: "i = e"
      have "rowStamp (Some rs) = rowStamp (Some y)" using True j(2) ie sn(1,3) by (auto simp: snap_is_def)
      then have "stampEq (rowStamp (Some y)) (rowStamp (Some rs))"
        using stamp_iff [OF w curU [of y] curU [of y]] y ie by simp
      then have "rowWins y r" using sk y ie by simp
      then have "tm r < tm y" using wins_iff [OF w curU gr(1)] y ie by blast
      then show False using na gr(2) ie by (fastforce simp: above_start_def)
    qed
    then have "covers (Pull ?pu) i y" using True j(2) rd e by auto
    then show ?thesis by simp
  qed (use j in auto)
  have memk: "mem_ok D0 X ([Pull ?pu] @ rest) (ca_mem ?c)"
  proof (cases ?skip)
    case True
    have "ca_mem ?c = ca_mem c" using True by (simp add: eq)
    show ?thesis unfolding \<open>ca_mem ?c = ca_mem c\<close> by (rule mem_ok_chain [OF m]) (rule cov [OF _ _ _ _ True])
  next
    case False
    have le: "\<forall>a. ?cur = Some a \<longrightarrow> tm a \<le> tm r" using False wins_iff [OF w curU gr(1)] by fastforce
    note mp = mem_ok_put [OF w m gr le]
    have "mem_ok D0 X ([Pull ?pu] @ rest) (put r (ca_mem c))"
    proof (rule mem_ok_chain [OF mp])
      fix j i y
      assume j: "j \<in> set (Pull pu # rest)" "covers j i y" and y: "getRow i (put r (ca_mem c)) = Some y" and na: "\<not> above_start D0 i y"
      have "i \<noteq> e" using y na gr getRow_put [OF row_facts(3) [OF w gr(1)]] row_facts(2) [OF w gr(1)] by auto
      then show "\<exists>j' \<in> set ([Pull ?pu] @ rest). covers j' i y" using j rd e by (cases "j = Pull pu") auto
    qed
    moreover have "ca_mem ?c = put r (ca_mem c)" using False by (simp add: eq)
    ultimately show ?thesis by simp
  qed
  show ?thesis
  proof (rule coh_headI [OF c ch, where hd' = "[Pull ?pu]"])
    show "mem_ok D0 X ([Pull ?pu] @ rest) (ca_mem ?c)" by (rule memk)
    show "[Pull ?pu] = [] \<or> (\<exists>pu. [Pull ?pu] = [Pull pu] \<and> pull_ok D0 X (row (ca_durable ?c)) pu)"
      using pk unfolding fl by (simp add: pull_ok_def e)
  qed (simp_all only: fl d, simp_all)
qed

lemma coh_chain_step:
  assumes w: "world D0 X" and c: "coh D0 X c"
  shows "coh D0 X (ca_chain_step I c)"
proof (cases "ca_chain c")
  case (Cons j rest)
  then consider ops s where "j = Persist ops s" | pu where "j = Pull pu"
    using c by (auto simp: coh_def chain_ok_def persist_ok_def)
  then show ?thesis
  proof cases
    case 1
    then show ?thesis using coh_persist [OF w c] Cons by (simp add: ca_chain_step_def)
  next
    case 2
    then show ?thesis using coh_pull_read [OF c] coh_pull_install [OF w c] Cons
      by (cases "pu_read pu") (simp_all add: ca_chain_step_def)
  qed
qed (use c in \<open>simp add: ca_chain_step_def\<close>)

lemma put_newer_ok:
  assumes w: "world D0 X" and m: "mem_ok D0 X ch mem" and g: "good_read D0 X i (Some r)"
  shows "mem_ok D0 X ch (put_newer mem r)"
proof -
  have r: "rows_of D0 X i r" "above_start D0 i r" using g by (simp_all add: good_read_def)
  have e: "row_eid r = i" using row_facts(2) [OF w r(1)] .
  show ?thesis
  proof (cases "getRow i mem")
    case None
    then show ?thesis using mem_ok_put [OF w m r] e by (simp add: put_newer_def getRow_def)
  next
    case (Some a)
    have a: "rows_of D0 X i a" using m Some by (simp add: mem_ok_def)
    show ?thesis using mem_ok_put [OF w m r] m Some e wins_iff [OF w r(1) a]
      by (auto simp: put_newer_def getRow_def)
  qed
qed

lemma emits_sel [simp]:
  "ca_mem ((ca_emit ts ^^ n) c) = ca_mem c" "ca_durable ((ca_emit ts ^^ n) c) = ca_durable c"
  "ca_optimistic ((ca_emit ts ^^ n) c) = ca_optimistic c" "ca_chain ((ca_emit ts ^^ n) c) = ca_chain c"
  "ca_reads ((ca_emit ts ^^ n) c) = ca_reads c" "ca_warmP ((ca_emit ts ^^ n) c) = ca_warmP c"
  by (induction n) simp_all

lemma coh_mem:
  "coh D0 X c \<Longrightarrow> ca_optimistic c' = ca_optimistic c \<Longrightarrow> ca_durable c' = ca_durable c \<Longrightarrow> ca_chain c' = ca_chain c \<Longrightarrow>
     mem_ok D0 X (ca_chain c) (ca_mem c') \<Longrightarrow> reads_ok D0 X (ca_reads c') (ca_warmP c') \<Longrightarrow> coh D0 X c'"
  by (simp add: coh_def)

lemma coh_beginWarm: "coh D0 X c \<Longrightarrow> coh D0 X (beginWarm ty n c)"
  by (rule coh_same) (auto simp: beginWarm_def coh_def reads_ok_def split: option.splits if_splits)

lemma coh_warm_read: "coh D0 X c \<Longrightarrow> coh D0 X (warm_read I ty c)"
proof -
  assume c: "coh D0 X c"
  have d: "dur_ok D0 X (ca_durable c)" and rs: "reads_ok D0 X (ca_reads c) (ca_warmP c)" using c by (simp_all add: coh_def)
  obtain es where es: "ie_getEntities I (QType ty) (ca_durable c) = Ok es" "\<forall>e \<in> set es. row (ca_durable c) (ent_eid e) = Some (Live e)"
    using list_law [of "ca_durable c" ty] d by (auto simp: dur_ok_def)
  have g: "\<forall>e \<in> set es. good_read D0 X (ent_eid e) (Some (Live e))" using es(2) dur_read [OF d] by metis
  show "coh D0 X (warm_read I ty c)"
    by (rule coh_same [OF c]) (use rs g es(1) in \<open>auto simp: warm_read_def reads_ok_def split: option.splits\<close>)
qed

lemma coh_warm_install: "world D0 X \<Longrightarrow> coh D0 X c \<Longrightarrow> coh D0 X (warm_install ty c)"
proof -
  assume w: "world D0 X" and c: "coh D0 X c"
  have rs: "reads_ok D0 X (ca_reads c) (ca_warmP c)" and m: "mem_ok D0 X (ca_chain c) (ca_mem c)" using c by (simp_all add: coh_def)
  have del: "reads_ok D0 X (ca_reads c) (map_delete ty (ca_warmP c))" using rs by (simp add: reads_ok_def)
  have fold: "mem_ok D0 X ch mem \<Longrightarrow> \<forall>e \<in> set es. good_read D0 X (ent_eid e) (Some (Live e)) \<Longrightarrow>
      mem_ok D0 X ch (foldl (\<lambda>mem e. put_newer mem (Live e)) mem es)" for ch mem es
    by (induction es arbitrary: mem) (auto intro: put_newer_ok [OF w])
  show ?thesis
  proof (cases "map_get (ca_warmP c) ty")
    case None
    then show ?thesis using c by (simp add: warm_install_def)
  next
    case (Some v)
    show ?thesis
    proof (cases "wm_read v")
      case None
      then show ?thesis using c Some by (simp add: warm_install_def)
    next
      case r: (Some x)
      show ?thesis
      proof (cases x)
        case (Ok es)
        have "\<forall>e \<in> set es. good_read D0 X (ent_eid e) (Some (Live e))" using rs Some r Ok by (auto simp: reads_ok_def)
        then have "mem_ok D0 X (ca_chain c) (foldl (\<lambda>mem e. put_newer mem (Live e)) (ca_mem c) es)" by (rule fold [OF m])
        then show ?thesis using Some r Ok del by (intro coh_mem [OF c]) (simp_all add: warm_install_def)
      qed (use Some r del in \<open>auto intro!: coh_same [OF c] simp: warm_install_def\<close>)
    qed
  qed
qed

lemma coh_row_read: "coh D0 X c \<Longrightarrow> coh D0 X (fst (row_read I i c))"
proof -
  assume c: "coh D0 X c"
  have d: "dur_ok D0 X (ca_durable c)" and rs: "reads_ok D0 X (ca_reads c) (ca_warmP c)" using c by (simp_all add: coh_def)
  have "ie_getRow I i (ca_durable c) = Ok (row (ca_durable c) i)" using read_law d by (simp add: dur_ok_def)
  then show "coh D0 X (fst (row_read I i c))"
    using rs dur_read [OF d, of i] by (intro coh_same [OF c]) (simp_all add: row_read_def reads_ok_def)
qed

lemma coh_row_install:
  assumes w: "world D0 X" and c: "coh D0 X c" and g: "good_read D0 X i x"
  shows "coh D0 X (fst (row_install i x c))"
proof (cases x)
  case None
  then show ?thesis using c by (simp add: row_install_def)
next
  case (Some r)
  have m: "mem_ok D0 X (ca_chain c) (ca_mem c)" using c by (simp add: coh_def)
  have e: "row_eid r = i" using row_facts(2) [OF w] g Some by (simp add: good_read_def)
  have "fst (row_install i x c) = c\<lparr>ca_mem := put_newer (ca_mem c) r\<rparr>"
    using Some e by (simp add: row_install_def put_newer_def Let_def split: option.split)
  then show ?thesis using put_newer_ok [OF w m] g Some c by (intro coh_mem [OF c]) (simp_all add: coh_def)
qed

lemma coh_exec:
  assumes w: "world D0 (X @ event_ops e)" and c: "coh D0 X c" and fine: "list_all fine (event_ops e)"
  shows "coh D0 (X @ event_ops e) (exec I e c)"
proof (cases e)
  case (EvApply ops)
  then show ?thesis using coh_apply w c fine by simp
next
  case (EvInstall n)
  then have w': "world D0 X" using w by simp
  have "good_read D0 X (fst (ca_reads c ! n)) (snd (ca_reads c ! n))" if "n < length (ca_reads c)"
    using c nth_mem [OF that] by (auto simp: coh_def reads_ok_def)
  then show ?thesis using EvInstall coh_row_install [OF w' c] c by simp
next
  case EvPaint
  have "coh D0 X (ca_after_paint c)" using c by (intro coh_same [OF c]) (simp_all add: ca_after_paint_def coh_def split: list.split)
  then show ?thesis using EvPaint by simp
next
  case EvChain
  then show ?thesis using coh_chain_step [of D0 X c] w c by simp
next
  case (EvWarm ty n)
  then show ?thesis using coh_beginWarm [OF c] by simp
next
  case (EvWarmRead ty)
  then show ?thesis using coh_warm_read [OF c] by simp
next
  case (EvWarmInstall ty)
  then show ?thesis using coh_warm_install [of D0 X c] w c by simp
next
  case (EvRead i)
  then show ?thesis using coh_row_read [OF c] by simp
qed

lemma coh_run:
  "world D0 (X @ concat (map event_ops evs)) \<Longrightarrow> list_all fine (concat (map event_ops evs)) \<Longrightarrow> coh D0 X c \<Longrightarrow>
     coh D0 (X @ concat (map event_ops evs)) (foldl (\<lambda>c e. exec I e c) c evs)"
proof (induction evs arbitrary: X c)
  case (Cons e evs)
  have "world D0 (X @ event_ops e)" by (rule world_mono [OF Cons.prems(1)]) auto
  then have "coh D0 (X @ event_ops e) (exec I e c)" using coh_exec Cons.prems(2,3) by simp
  then show ?case using Cons.IH [of "X @ event_ops e" "exec I e c"] Cons.prems(1,2) by simp
qed simp

lemma coh_new: "dinv d \<Longrightarrow> coh (row d) [] (CachedEntDB_new d None u True)"
  by (simp add: coh_def CachedEntDB_new_def dur_ok_def rows_of_def mem_ok_def chain_ok_def reads_ok_def)

text \<open>At rest the cache shows what the durable database holds.\<close>

lemma coh_rest:
  assumes w: "world D0 X" and c: "coh D0 X c" and ch: "ca_chain c = []" and m: "getRow i (ca_mem c) = Some m"
  shows "row (ca_durable c) i = Some m"
proof -
  have d: "dur_ok D0 X (ca_durable c)" and ops: "\<forall>op \<in> set X. at_least (row (ca_durable c) (op_eid op)) (op_row op)"
    and mo: "mem_ok D0 X [] (ca_mem c)" using c ch by (simp_all add: coh_def)
  have mU: "rows_of D0 X i m" and ma: "above_start D0 i m" and mops: "\<forall>op \<in> set X. op_eid op = i \<longrightarrow> tm (op_row op) \<le> tm m"
    using mo m by (auto simp: mem_ok_def)
  have "at_least (row (ca_durable c) i) m"
  proof (cases "D0 i = Some m")
    case True
    then show ?thesis using d by (simp add: dur_ok_def)
  next
    case False
    then obtain op where "op \<in> set X" "op_eid op = i" "m = op_row op" using mU by (auto simp: rows_of_def)
    then show ?thesis using ops by blast
  qed
  then obtain r where r: "row (ca_durable c) i = Some r" "tm m \<le> tm r" by (auto simp: at_least_def split: option.splits)
  have rU: "rows_of D0 X i r" using d r(1) by (simp add: dur_ok_def)
  have "tm r \<le> tm m"
  proof (cases "D0 i = Some r")
    case True
    then show ?thesis using ma by (simp add: above_start_def)
  next
    case False
    then obtain op where "op \<in> set X" "op_eid op = i" "r = op_row op" using rU by (auto simp: rows_of_def)
    then show ?thesis using mops by blast
  qed
  then have "tm m = tm r" using r(2) by simp
  from row_unique [OF w mU rU this] show ?thesis using r(1) by simp
qed

text \<open>Both together, for a run from a new cache.\<close>

lemma converges:
  assumes "dinv d" "world (row d) (concat (map event_ops evs))" "list_all fine (concat (map event_ops evs))"
  defines "c \<equiv> foldl (\<lambda>c e. exec I e c) (CachedEntDB_new d None True True) evs"
  shows "ca_chain c = [] \<Longrightarrow> getRow i (ca_mem c) = Some m \<Longrightarrow> row (ca_durable c) i = Some m"
    and "op \<in> set (concat (map event_ops evs)) \<Longrightarrow>
      \<exists>m. getRow (op_eid op) (ca_mem c) = Some m \<and> the (op_stamp op) \<le> the (row_updatedAt m)"
proof -
  let ?X = "concat (map event_ops evs)"
  have c: "coh (row d) ?X c"
    using coh_run [of "row d" "[]" evs "CachedEntDB_new d None True True"] coh_new [OF assms(1)] assms(2,3)
    by (simp add: c_def)
  show "ca_chain c = [] \<Longrightarrow> getRow i (ca_mem c) = Some m \<Longrightarrow> row (ca_durable c) i = Some m"
    by (rule coh_rest [OF assms(2) c])
  assume op: "op \<in> set ?X"
  then have "at_least (getRow (op_eid op) (ca_mem c)) (op_row op)" using c unfolding coh_def mem_ok_def by blast
  moreover have "op_good op" using assms(2) op unfolding world_def by blast
  ultimately show "\<exists>m. getRow (op_eid op) (ca_mem c) = Some m \<and> the (op_stamp op) \<le> the (row_updatedAt m)"
    by (auto simp: at_least_def tm_def op_good_def op_row_updatedAt split: option.splits)
qed

end

section \<open>The memory database keeps the contract\<close>

definition mem_inv :: "EntDBMemory \<Rightarrow> bool" where
  "mem_inv d = edb_inv d"

lemma apply_stats_eq:
  "ar_stats (snd (edb_apply ops d)) =
     map (\<lambda>k. status_of (applyOp (foldl op_step (getRow (op_eid (ops ! k)) d)
            (filter (\<lambda>op. op_eid op = op_eid (ops ! k)) (take k ops))) (ops ! k))) [0..<length ops]"
proof (induction ops rule: rev_induct)
  case (snoc op ops)
  have st: "ar_stats (snd (apply_one st op)) = ar_stats (snd st) @ [status_of (applyOp (getRow (op_eid op) (fst st)) op)]" for st
    by (auto simp: apply_one_def getRow_def Let_def split: prod.splits vs.splits)
  have "edb_apply (ops @ [op]) d = apply_one (edb_apply ops d) op" by (simp add: edb_apply_def)
  then have "ar_stats (snd (edb_apply (ops @ [op]) d)) =
      ar_stats (snd (edb_apply ops d)) @ [status_of (applyOp (foldl op_step (getRow (op_eid op) d) (filter (\<lambda>x. op_eid x = op_eid op) ops)) op)]"
    by (simp add: st apply_row)
  then show ?case unfolding snoc.IH by (simp add: nth_append)
qed (simp add: edb_apply_def)

interpretation memdb: durable_db memEntDB mem_inv "\<lambda>d i. getRow i d" "\<lambda>_. True"
proof
  fix d :: EntDBMemory and ops i ty
  assume i: "mem_inv d"
  show "mem_inv (fst (ie_apply memEntDB ops d))
      \<and> (\<forall>i. getRow i (fst (ie_apply memEntDB ops d)) = foldl op_step (getRow i d) (filter (\<lambda>op. op_eid op = i) ops))"
    using i apply_inv by (simp add: memEntDB_def mem_inv_def apply_row)
  show "ar_stats (snd (ie_apply memEntDB ops d)) =
      map (\<lambda>k. status_of (applyOp (foldl op_step (getRow (op_eid (ops ! k)) d)
            (filter (\<lambda>op. op_eid op = op_eid (ops ! k)) (take k ops))) (ops ! k))) [0..<length ops]"
    by (simp add: memEntDB_def apply_stats_eq)
  show "ie_getRow memEntDB i d = Ok (getRow i d)" by (simp add: memEntDB_def)
  show "\<exists>es. ie_getEntities memEntDB (QType ty) d = Ok es \<and> (\<forall>e \<in> set es. getRow (ent_eid e) d = Some (Live e))"
  proof -
    let ?scan = "filter (\<lambda>e. ent_type e = ty) (live_rows d)"
    have "\<exists>es. getEntities (QType ty) d = Ok es \<and> set es = set ?scan"
    proof (cases "edb_useIndex d")
      case True
      have "same_listing (getEntities (QType ty) d) (getEntities (QType ty) (no_index d))"
        using query_scan True i by (simp add: mem_inv_def)
      then have "same_listing (getEntities (QType ty) d) (Ok ?scan)"
        by (simp add: getEntities_def [of _ "no_index d"] getAllEntities_def [of _ "no_index d"])
      then obtain es where "getEntities (QType ty) d = Ok es" "mset es = mset ?scan"
        by (cases "getEntities (QType ty) d") simp_all
      then show ?thesis using mset_eq_setD by blast
    qed (simp add: getEntities_def getAllEntities_def)
    moreover have "getRow (ent_eid e) d = Some (Live e)" if e: "e \<in> set ?scan" for e
    proof -
      have k: "ents_ok d" using i by (simp add: mem_inv_def edb_inv_def)
      obtain k where "map_get (edb_ents d) k = Some (Live e)" using e live_rows_set [OF k, of e] by auto
      then show ?thesis using row_key [OF k] by (fastforce simp: getRow_def)
    qed
    ultimately show ?thesis by (auto simp: memEntDB_def)
  qed
qed

section \<open>Properties\<close>

definition run_cache :: "cache_event list \<Rightarrow> EntDBMemory \<Rightarrow> EntDBMemory CachedEntDB" where
  "run_cache evs d = foldl (\<lambda>c e. exec memEntDB e c) (CachedEntDB_new d None True True) evs"

text \<open>C4: under distinct timestamps the cache converges to the durable database. Take any run of an optimistic cache that
  starts without preloaded entities: writes that patch the cache at once and are persisted later, each persist and each re-read of
  refused entities advancing one await at a time, types being loaded, single rows being read, paints, all interleaved in any way.
  Suppose that every written operation parses and has a valid time, that the durable rows are dated and in stored form, and that no two different rows of
  one entity, durable or written, carry the same timestamp. Then whenever the chain of writes has drained, every entity that the cache
  shows has exactly its durable row; and at every moment, drained or not, the cache shows nothing older than what was written
  through it. Without the condition on timestamps this fails (\<open>cache_tie_diverges\<close>). Clearing and ingesting are not among the steps:
  an ingest may drop a row whose persist is still under way, and a load under way may bring back rows that a clear removed.\<close>

theorem cache_converges:
  assumes "mem_inv d" "world (\<lambda>i. getRow i d) (concat (map event_ops evs))"
  shows "(ca_chain (run_cache evs d) = [] \<longrightarrow>
           (\<forall>i m. getRow i (ca_mem (run_cache evs d)) = Some m \<longrightarrow> getRow i (ca_durable (run_cache evs d)) = Some m))
    \<and> (\<forall>op \<in> set (concat (map event_ops evs)).
         \<exists>m. getRow (op_eid op) (ca_mem (run_cache evs d)) = Some m \<and> the (op_stamp op) \<le> the (row_updatedAt m))"
proof -
  have "list_all (\<lambda>_. True) (concat (map event_ops evs))" by (simp add: list_all_iff)
  from memdb.converges [OF assms this] show ?thesis unfolding run_cache_def by blast
qed

lemma refused_once:
  assumes "op_parses op" "getRow (op_eid op) d = Some r" "op_stamp op = Some t" "row_updatedAt r = Some t"
  shows "edb_apply [op] d = (d, \<lparr>ar_stats = [NoChange], ar_types = [], ar_eids = []\<rparr>)"
  using assms by (simp add: edb_apply_def apply_one_def getRow_def applyOp_parses)

lemma accepted_once:
  assumes "op_parses op" "getRow (op_eid op) d = None"
  shows "fst (edb_apply [op] d) = put (op_row op) d"
  using assms by (simp add: edb_apply_def apply_one_def getRow_def applyOp_parses Let_def)

text \<open>A tie leaves the cache and the database apart for good. The durable database refuses an
  operation whose timestamp equals its row's, whatever the counters say; the cache had already taken
  it, and when it looks at the refused entity it keeps its own row because that has the higher
  counter. The write has ended, the cache shows the operation's row, the database keeps the other.\<close>

theorem cache_tie_diverges:
  assumes "op_good op" "getRow (op_eid op) d = Some r" "row_updatedAt r = op_stamp op" "row_ctr r < row_ctr (op_row op)"
  shows "let c = run_cache [EvApply [op], EvChain, EvChain, EvChain, EvChain] d
    in ca_chain c = [] \<and> ca_results c = [\<lparr>ar_stats = [NoChange], ar_types = [], ar_eids = []\<rparr>]
       \<and> getRow (op_eid op) (ca_mem c) = Some (op_row op) \<and> getRow (op_eid op) (ca_durable c) = Some r \<and> op_row op \<noteq> r"
proof -
  obtain t where t: "op_stamp op = Some t" "op_parses op" using assms(1) by (auto simp: op_good_def)
  let ?k = "btob64 (op_eid op)" and ?new = "EntDBMemory_new [] True"
  have dur: "edb_apply [op] d = (d, \<lparr>ar_stats = [NoChange], ar_types = [], ar_eids = []\<rparr>)"
    using refused_once [OF t(2) assms(2) t(1)] assms(3) t(1) by simp
  obtain res where mem: "edb_apply [op] ?new = (put (op_row op) ?new, res)"
    using accepted_once [OF t(2), of ?new] by (cases "edb_apply [op] ?new") simp
  have row: "getRow (op_eid op) (put (op_row op) ?new) = Some (op_row op)"
    using getRow_put [of "op_row op"] omit_op_row [OF t(2)] op_row_eid [OF t(2)] by (simp add: plain_def)
  then have key: "map_get (edb_ents (put (op_row op) ?new)) ?k = Some (op_row op)" by (simp add: getRow_def)
  have wins: "rowWins (op_row op) r"
    using assms(3,4) op_row_updatedAt [OF t(2)] t(1) by (simp add: rowWins_def date_eq_def)
  let ?c0 = "CachedEntDB_new d None True True"
  define c1 where "c1 = exec memEntDB (EvApply [op]) ?c0"
  define pu where "pu = new_pull [op_eid op] (Some (take_snap (put (op_row op) ?new) [op])) (Some (1, \<lparr>ar_stats = [NoChange], ar_types = [], ar_eids = []\<rparr>))"
  have c1: "ca_mem c1 = put (op_row op) ?new" "ca_durable c1 = d" "ca_optimistic c1" "ca_results c1 = []"
      "ca_chain c1 = [Persist [op] (Some (take_snap (put (op_row op) ?new) [op]))]"
    by (simp_all add: c1_def ca_apply_def applyOps_def CachedEntDB_new_def mem)
  define c2 where "c2 = ca_chain_step memEntDB c1"
  have c2: "ca_mem c2 = put (op_row op) ?new" "ca_durable c2 = d" "ca_optimistic c2" "ca_results c2 = []" "ca_chain c2 = [Pull pu]"
    by (simp_all add: c2_def ca_chain_step_def start_persist_def c1 memEntDB_def dur rejected_eids_def pu_def)
  define c3 where "c3 = ca_chain_step memEntDB c2"
  have c3: "ca_mem c3 = put (op_row op) ?new" "ca_durable c3 = d" "ca_optimistic c3" "ca_results c3 = []"
      "ca_chain c3 = [Pull (pu\<lparr>pu_seen := [?k], pu_read := Some (Some r)\<rparr>)]"
    by (simp_all add: c3_def ca_chain_step_def pull_read_def c2 pu_def new_pull_def memEntDB_def assms(2))
  define c4 where "c4 = ca_chain_step memEntDB c3"
  have c4: "ca_mem c4 = put (op_row op) ?new" "ca_durable c4 = d" "ca_optimistic c4" "ca_results c4 = []"
      "ca_chain c4 = [Pull (pu\<lparr>pu_seen := [?k], pu_read := None, pu_eids := []\<rparr>)]"
    by (simp_all add: c4_def ca_chain_step_def pull_install_def c3 pu_def new_pull_def key wins)
  define c5 where "c5 = ca_chain_step memEntDB c4"
  have c5: "ca_mem c5 = put (op_row op) ?new" "ca_durable c5 = d" "ca_chain c5 = []"
      "ca_results c5 = [\<lparr>ar_stats = [NoChange], ar_types = [], ar_eids = []\<rparr>]"
    by (simp_all add: c5_def ca_chain_step_def pull_read_def end_pull_def finish_job_def ca_emit_def c4 pu_def new_pull_def)
  have "run_cache [EvApply [op], EvChain, EvChain, EvChain, EvChain] d = c5"
    by (simp add: run_cache_def c1_def c2_def c3_def c4_def c5_def)
  then show ?thesis using c5 row assms(2,4) by auto
qed

section \<open>Witnesses\<close>

definition newer_op :: IOp where
  "newer_op = MutateOp [1, 5, 0] 30 3 [] None None (Some [9])"

definition tie_op :: IOp where
  "tie_op = MutateOp [1, 5, 0] 20 3 [] None None (Some [9])"

definition stored_db :: EntDBMemory where
  "stored_db = put (Tombstone [1, 5, 0] (Some 20) 1) (EntDBMemory_new [] True)"

lemma stored_row: "getRow i stored_db = (if i = [1, 5, 0] then Some (Tombstone [1, 5, 0] (Some 20) 1) else None)"
  by (simp add: stored_db_def getRow_put plain_def)

theorem cache_converges_witness:
  "\<exists>m. getRow [1, 5, 0] (ca_mem (run_cache [EvApply [newer_op], EvChain] stored_db)) = Some m \<and> 30 \<le> the (row_updatedAt m)"
proof -
  have g: "op_good newer_op" "op_eid newer_op = [1, 5, 0]" "op_stamp newer_op = Some 30" by code_simp+
  have u: "row_updatedAt (op_row newer_op) = Some 30" using op_row_updatedAt [of newer_op] g by (simp add: op_good_def)
  have "world (\<lambda>i. getRow i stored_db) (concat (map event_ops [EvApply [newer_op], EvChain]))"
    using g u by (auto simp: world_def rows_of_def stored_row plain_def split: if_splits)
  moreover have "mem_inv stored_db" by (simp add: mem_inv_def stored_db_def put_inv new_inv)
  ultimately show ?thesis
    using cache_converges [of stored_db "[EvApply [newer_op], EvChain]"] g by simp
qed

theorem cache_tie_diverges_witness:
  "let c = run_cache [EvApply [tie_op], EvChain, EvChain, EvChain, EvChain] stored_db
   in ca_chain c = [] \<and> getRow [1, 5, 0] (ca_mem c) \<noteq> getRow [1, 5, 0] (ca_durable c)"
proof -
  have g: "op_good tie_op" "op_eid tie_op = [1, 5, 0]" "op_stamp tie_op = Some 20" "row_ctr (op_row tie_op) = 3" by code_simp+
  show ?thesis
    using cache_tie_diverges [of tie_op stored_db "Tombstone [1, 5, 0] (Some 20) 1"] g stored_row by (simp add: Let_def)
qed

end
