(* ===== verification/IndexedDB.thy ===== *)
theory IndexedDB
  imports Stores
begin

text \<open>
  IndexedDB as the repository uses it and as its standard documents it: an object store is an association list in the
  order of its keys, \<open>put\<close> replaces the record of its key, cursors and \<open>getAll\<close> go through the
  records in key order, a key range has two ends that may be open. The order of keys is an interface: strings compare by
  their code units, arrays lexicographically.
\<close>

section \<open>Object stores\<close>

fun os_put :: "('k \<Rightarrow> 'k \<Rightarrow> bool) \<Rightarrow> 'k \<Rightarrow> 'v \<Rightarrow> ('k \<times> 'v) list \<Rightarrow> ('k \<times> 'v) list" where
  "os_put lt k v [] = [(k, v)]"
| "os_put lt k v ((k', v') # m) =
     (if k = k' then (k, v) # m
      else if lt k k' then (k, v) # (k', v') # m
      else (k', v') # os_put lt k v m)"

definition key_ordered :: "('k \<Rightarrow> 'k \<Rightarrow> bool) \<Rightarrow> ('k \<times> 'v) list \<Rightarrow> bool" where
  "key_ordered lt m = sorted_wrt (\<lambda>a b. lt (fst a) (fst b)) m"

lemma map_get_os_put [simp]: "map_get (os_put lt k v m) k' = (if k' = k then Some v else map_get m k')"
  by (induction lt k v m rule: os_put.induct) auto

lemma os_put_keys [simp]: "fst ` set (os_put lt k v m) = insert k (fst ` set m)"
  by (induction lt k v m rule: os_put.induct) auto

lemma key_ordered_Nil [simp]: "key_ordered lt []"
  by (simp add: key_ordered_def)

lemma key_ordered_delete [simp]: "key_ordered lt m \<Longrightarrow> key_ordered lt (map_delete k m)"
  unfolding key_ordered_def AList.delete_eq by (rule sorted_wrt_filter)

locale key_order =
  fixes lt :: "'k \<Rightarrow> 'k \<Rightarrow> bool"
  assumes irrefl: "\<not> lt a a"
    and trans: "lt a b \<Longrightarrow> lt b c \<Longrightarrow> lt a c"
    and total: "a = b \<or> lt a b \<or> lt b a"
begin

lemma asym: "lt a b \<Longrightarrow> \<not> lt b a"
  using trans irrefl by blast

lemma set_put: "key_ordered lt m \<Longrightarrow> set (os_put lt k v m) = insert (k, v) {x \<in> set m. fst x \<noteq> k}"
proof (induction m)
  case (Cons x m)
  obtain k' v' where x: "x = (k', v')" by (cases x)
  have m: "key_ordered lt m" "\<And>y. y \<in> set m \<Longrightarrow> lt k' (fst y)" using Cons.prems x by (auto simp: key_ordered_def)
  have "k = k' \<Longrightarrow> {x \<in> set m. fst x \<noteq> k} = set m" using m(2) irrefl by blast
  moreover have "lt k k' \<Longrightarrow> {x \<in> set m. fst x \<noteq> k} = set m" using m(2) trans irrefl by fastforce
  ultimately show ?case using Cons.IH [OF m(1)] x by auto
qed simp

lemma put_ordered [simp]: "key_ordered lt m \<Longrightarrow> key_ordered lt (os_put lt k v m)"
proof (induction m)
  case (Cons x m)
  obtain k' v' where x: "x = (k', v')" by (cases x)
  have m: "key_ordered lt m" "\<And>y. y \<in> set m \<Longrightarrow> lt k' (fst y)" using Cons.prems x by (auto simp: key_ordered_def)
  show ?case
  proof (cases "k = k' \<or> lt k k'")
    case True
    then show ?thesis using m x trans [of k k'] by (auto simp: key_ordered_def)
  next
    case False
    then have "lt k' k" using total [of k k'] by blast
    then have "\<forall>y \<in> set (os_put lt k v m). lt k' (fst y)" using set_put [OF m(1), of k v] m(2) by auto
    then show ?thesis using False Cons.IH [OF m(1)] x by (simp add: key_ordered_def)
  qed
qed (simp add: key_ordered_def)

lemma ordered_keys: "key_ordered lt m \<Longrightarrow> keys_ok m"
  using irrefl by (induction m) (fastforce simp: key_ordered_def keys_ok_def)+

lemma ordered_get: "key_ordered lt m \<Longrightarrow> (k, v) \<in> set m \<longleftrightarrow> map_get m k = Some v"
  using ordered_keys by (rule keys_ok_mem)

end

section \<open>Keys\<close>

lemma str_less_irrefl [simp]: "\<not> str_less a a"
  by (induction a) auto

lemma str_less_trans: "str_less a b \<Longrightarrow> str_less b c \<Longrightarrow> str_less a c"
proof (induction a b arbitrary: c rule: str_less.induct)
  case (2 y ys)
  then show ?case by (cases c) auto
next
  case (3 x xs y ys)
  then show ?case by (cases c) auto
qed simp

lemma str_less_total: "a = b \<or> str_less a b \<or> str_less b a"
proof (induction a b rule: str_less.induct)
  case (1 a)
  then show ?case by (cases a) auto
qed auto

interpretation str_key: key_order str_less
  using str_less_trans str_less_total by unfold_locales auto

text \<open>Arrays of two strings, and of two strings and a number.\<close>

fun pair_key_less :: "jsstr \<times> jsstr \<Rightarrow> jsstr \<times> jsstr \<Rightarrow> bool" where
  "pair_key_less (a, b) (a', b') = (str_less a a' \<or> (a = a' \<and> str_less b b'))"

fun triple_key_less :: "jsstr \<times> jsstr \<times> int \<Rightarrow> jsstr \<times> jsstr \<times> int \<Rightarrow> bool" where
  "triple_key_less (a, b, n) (a', b', n') = (str_less a a' \<or> (a = a' \<and> (str_less b b' \<or> (b = b' \<and> n < n'))))"

interpretation pair_key: key_order pair_key_less
proof
  fix a b c :: "jsstr \<times> jsstr"
  show "\<not> pair_key_less a a" by (cases a) simp
  show "pair_key_less a b \<Longrightarrow> pair_key_less b c \<Longrightarrow> pair_key_less a c"
    by (cases a; cases b; cases c) (auto intro: str_less_trans)
  show "a = b \<or> pair_key_less a b \<or> pair_key_less b a"
    by (cases a; cases b) (use str_less_total in auto)
qed

interpretation triple_key: key_order triple_key_less
proof
  fix a b c :: "jsstr \<times> jsstr \<times> int"
  show "\<not> triple_key_less a a" by (cases a) simp
  show "triple_key_less a b \<Longrightarrow> triple_key_less b c \<Longrightarrow> triple_key_less a c"
    by (cases a; cases b; cases c) (auto intro: str_less_trans)
  show "a = b \<or> triple_key_less a b \<or> triple_key_less b a"
    by (cases a; cases b) (use str_less_total in \<open>auto simp: linorder_neq_iff\<close>)
qed

section \<open>Key ranges\<close>

record 'k IDBKeyRange =
  kr_lower :: 'k
  kr_upper :: 'k
  kr_lowerOpen :: bool
  kr_upperOpen :: bool

definition range_only :: "'k \<Rightarrow> 'k IDBKeyRange" where
  "range_only k = \<lparr>kr_lower = k, kr_upper = k, kr_lowerOpen = False, kr_upperOpen = False\<rparr>"

text \<open>\<open>IDBKeyRange.bound\<close> throws on an empty range.\<close>

definition range_bound :: "('k \<Rightarrow> 'k \<Rightarrow> bool) \<Rightarrow> 'k \<Rightarrow> 'k \<Rightarrow> bool \<Rightarrow> bool \<Rightarrow> 'k IDBKeyRange vs" where
  "range_bound lt l u lo uo =
     (if lt u l \<or> (l = u \<and> (lo \<or> uo)) then Throw
      else Ok \<lparr>kr_lower = l, kr_upper = u, kr_lowerOpen = lo, kr_upperOpen = uo\<rparr>)"

definition in_range :: "('k \<Rightarrow> 'k \<Rightarrow> bool) \<Rightarrow> 'k IDBKeyRange \<Rightarrow> 'k \<Rightarrow> bool" where
  "in_range lt r k =
     ((if kr_lowerOpen r then lt (kr_lower r) k else \<not> lt k (kr_lower r))
      \<and> (if kr_upperOpen r then lt k (kr_upper r) else \<not> lt (kr_upper r) k))"

end
