(* ===== verification/EntIDB.thy ===== *)
theory EntIDB
  imports Cached IndexedDB
begin

text \<open>
  The entity database over IndexedDB (\<^verbatim>\<open>web/src/entdb/idb.ts\<close>): stored rows, the grouped \<open>apply\<close>
  in one transaction, the queries over the indexes, the frontier checksum. IndexedDB itself is
  modelled as the source uses it and as it is documented: an object store is an association list in the order
  of its keys, a query over an index lists the records that have a valid key in the range, in the order
  of that key and then of the primary key; an invalid date is no key; \<open>IDBKeyRange.bound\<close> throws on
  an empty range; a request that fails aborts its transaction unless its handler prevents that.
  Which requests fail, and whether the database can be opened, are arguments.

  The properties: without failures the database answers like the memory database, on writes and on
  queries, so that the cache converges over it; with a failing request it reports success for
  operations that the abort undid.
\<close>

section \<open>Stored rows\<close>

record IStoredEntity =
  se_bod :: "bytes option"
  se_crd :: date
  se_ctr :: "int option"
  se_eid :: jsstr
  se_pid :: "jsstr option"
  se_rlm :: "jsstr option"
  se_tgs :: "jsstr list option"
  se_typ :: jsstr
  se_upd :: date

record IStoredTomb =
  to_eid :: jsstr
  to_upd :: date
  to_ctr :: "int option"

datatype IStoredRow = StoredEnt IStoredEntity | StoredTomb IStoredTomb

fun isStoredEntity :: "IStoredRow \<Rightarrow> bool" where
  "isStoredEntity (StoredEnt _) = True"
| "isStoredEntity (StoredTomb _) = False"

definition entityToStored :: "IEntity \<Rightarrow> IStoredEntity" where
  "entityToStored ent =
     \<lparr>se_bod = ent_body ent, se_crd = ent_createdAt ent,
      se_ctr = (if ent_ctr ent \<noteq> 0 then Some (ent_ctr ent) else None), se_eid = btob64 (ent_eid ent),
      se_pid = map_option btob64 (ent_pid ent), se_rlm = realmLabel (ent_rlm ent), se_tgs = ent_tags ent,
      se_typ = ent_type ent, se_upd = ent_updatedAt ent\<rparr>"

fun rowToStored :: "IEntRow \<Rightarrow> IStoredRow" where
  "rowToStored (Tombstone i upd ctr) =
     StoredTomb \<lparr>to_eid = btob64 i, to_upd = upd, to_ctr = (if ctr \<noteq> 0 then Some ctr else None)\<rparr>"
| "rowToStored (Live ent) = StoredEnt (entityToStored ent)"

text \<open>\<open>stored.pid ? ... : undefined\<close>: the empty string is falsy. A key that is not base64 makes \<open>b64tob\<close> throw;
  keys are written by \<open>entityToStored\<close> only, and such a row decodes to the empty id here.\<close>

definition key_bytes :: "jsstr \<Rightarrow> bytes" where
  "key_bytes k = (case b64tob k of Ok b \<Rightarrow> b | _ \<Rightarrow> [])"

definition storedToEntity :: "IStoredEntity \<Rightarrow> IEntity" where
  "storedToEntity s =
     \<lparr>ent_type = se_typ s, ent_eid = key_bytes (se_eid s), ent_updatedAt = se_upd s, ent_createdAt = se_crd s,
      ent_ctr = (case se_ctr s of None \<Rightarrow> 0 | Some c \<Rightarrow> c),
      ent_pid = (case se_pid s of None \<Rightarrow> None | Some p \<Rightarrow> if p = [] then None else Some (key_bytes p)),
      ent_tags = se_tgs s, ent_body = se_bod s, ent_rlm = realmLabel (se_rlm s)\<rparr>"

fun storedToRow :: "IStoredRow \<Rightarrow> IEntRow" where
  "storedToRow (StoredEnt s) = Live (storedToEntity s)"
| "storedToRow (StoredTomb t) =
     Tombstone (key_bytes (to_eid t)) (to_upd t) (case to_ctr t of None \<Rightarrow> 0 | Some c \<Rightarrow> c)"

section \<open>The object store and its indexes\<close>

text \<open>The object store of entities, by their ids.\<close>

type_synonym object_store = "(jsstr \<times> IStoredRow) list"

text \<open>The live rows: only they have a type, the first part of three index keys.\<close>

definition stored_ents :: "object_store \<Rightarrow> IStoredEntity list" where
  "stored_ents rows = List.map_filter (\<lambda>(_, r). case r of StoredEnt s \<Rightarrow> Some s | StoredTomb _ \<Rightarrow> None) rows"

text \<open>
  The four indexes: \<open>[typ, crd]\<close>, \<open>[typ, upd]\<close>, \<open>[typ, pid]\<close>, and \<open>tgs\<close> with one entry per different tag.
  The stable sort keeps the order of the primary keys.
\<close>

definition getAll_type :: "jsstr \<Rightarrow> object_store \<Rightarrow> IStoredEntity list" where
  "getAll_type ty rows =
     sort_key (\<lambda>s. the (se_crd s)) (filter (\<lambda>s. se_typ s = ty \<and> se_crd s \<noteq> None) (stored_ents rows))"

definition getAll_updated :: "jsstr \<Rightarrow> int IDBKeyRange \<Rightarrow> object_store \<Rightarrow> IStoredEntity list" where
  "getAll_updated ty kr rows =
     sort_key (\<lambda>s. the (se_upd s))
       (filter (\<lambda>s. se_typ s = ty \<and> se_upd s \<noteq> None \<and> in_range (<) kr (the (se_upd s))) (stored_ents rows))"

definition getAll_parent :: "jsstr \<Rightarrow> jsstr \<Rightarrow> object_store \<Rightarrow> IStoredEntity list" where
  "getAll_parent ty pid rows = filter (\<lambda>s. se_typ s = ty \<and> se_pid s = Some pid) (stored_ents rows)"

definition tag_cmp :: "jsstr \<times> IStoredEntity \<Rightarrow> jsstr \<times> IStoredEntity \<Rightarrow> int" where
  "tag_cmp a b = (if str_less (fst a) (fst b) then -1 else if fst a = fst b then 0 else 1)"

definition getAll_tag :: "jsstr IDBKeyRange \<Rightarrow> object_store \<Rightarrow> IStoredEntity list" where
  "getAll_tag kr rows =
     map snd (js_sort tag_cmp (filter (\<lambda>(t, _). in_range str_less kr t)
       (concat (map (\<lambda>s. case se_tgs s of None \<Rightarrow> [] | Some ts \<Rightarrow> map (\<lambda>t. (t, s)) (remdups ts)) (stored_ents rows)))))"

section \<open>Key ranges of queries\<close>

text \<open>Both ends have the same type as first part, so that the dates decide.\<close>

definition dateIdbRange :: "DateSpec \<Rightarrow> int IDBKeyRange vs" where
  "dateIdbRange spec =
     (case spec of
        DateExact None \<Rightarrow> Throw
      | DateExact (Some t) \<Rightarrow> Ok (range_only t)
      | DateRange r \<Rightarrow>
          (case (dr_start r, dr_end r) of
             (Some a, Some b) \<Rightarrow> range_bound (<) a b (dr_excludeStart r) (dr_excludeEnd r)
           | _ \<Rightarrow> Throw))"

definition tagIdbRange :: "TagSpec \<Rightarrow> jsstr IDBKeyRange vs" where
  "tagIdbRange spec =
     (case spec of
        TagExact t \<Rightarrow> Ok (range_only t)
      | TagRange r \<Rightarrow> range_bound str_less (tr_start r) (tr_end r) (tr_excludeStart r) (tr_excludeEnd r)
      | TagPrefix pre \<Rightarrow> range_bound str_less pre (pre @ [0xffff]) False False)"

definition has_prefix :: "jsstr \<Rightarrow> IStoredEntity \<Rightarrow> bool" where
  "has_prefix pre s = (case se_tgs s of None \<Rightarrow> False | Some ts \<Rightarrow> list_ex (\<lambda>t. startsWith t pre) ts)"

fun filter_seen :: "jsstr \<Rightarrow> jsstr option \<Rightarrow> IStoredEntity list \<Rightarrow> jsstr list \<Rightarrow> IEntity list" where
  "filter_seen ty prefix [] seen = []"
| "filter_seen ty prefix (s # stored) seen =
     (if se_typ s \<noteq> ty then filter_seen ty prefix stored seen
      else if se_eid s \<in> set seen then filter_seen ty prefix stored seen
      else if (case prefix of None \<Rightarrow> False | Some pre \<Rightarrow> \<not> has_prefix pre s) then filter_seen ty prefix stored seen
      else storedToEntity s # filter_seen ty prefix stored (set_add (se_eid s) seen))"

definition filterTagHits :: "IStoredEntity list \<Rightarrow> jsstr \<Rightarrow> TagSpec \<Rightarrow> IEntity list" where
  "filterTagHits stored ty spec =
     (case spec of
        TagExact _ \<Rightarrow> map storedToEntity (filter (\<lambda>s. se_typ s = ty) stored)
      | TagRange _ \<Rightarrow> filter_seen ty None stored []
      | TagPrefix pre \<Rightarrow> filter_seen ty (Some pre) stored [])"

section \<open>Connection\<close>

record EntIDB =
  ei_rows :: object_store
  ei_connected :: bool

definition EntIDB_close :: "EntIDB \<Rightarrow> EntIDB" where
  "EntIDB_close e = e\<lparr>ei_connected := False\<rparr>"

text \<open>Opening or reopening, for the current call: \<open>up\<close> tells whether an open would succeed. The event
  \<open>versionchange\<close> has the effect of \<open>close\<close>.\<close>

definition ensureDb :: "bool \<Rightarrow> EntIDB \<Rightarrow> EntIDB \<times> bool" where
  "ensureDb up e =
     (if ei_connected e then (e, True)
      else if up then (e\<lparr>ei_connected := True\<rparr>, True) else (e, False))"

definition with_db :: "bool \<Rightarrow> (object_store \<Rightarrow> 'a vs) \<Rightarrow> EntIDB \<Rightarrow> EntIDB \<times> 'a vs" where
  "with_db up q e = (case ensureDb up e of (e, ok) \<Rightarrow> (e, if ok then q (ei_rows e) else Err DatabaseClosed))"

section \<open>Apply\<close>

text \<open>Operations of one batch on the same entity are run in memory and persisted once.\<close>

definition add_group :: "(jsstr, (IOp \<times> nat) list) jsmap \<Rightarrow> IOp \<times> nat \<Rightarrow> (jsstr, (IOp \<times> nat) list) jsmap" where
  "add_group groups item =
     (let eidB64 = btob64 (op_eid (fst item))
      in case map_get groups eidB64 of
           Some grp \<Rightarrow> map_set eidB64 (grp @ [item]) groups
         | None \<Rightarrow> map_set eidB64 [item] groups)"

definition group_ops :: "IOp list \<Rightarrow> (jsstr, (IOp \<times> nat) list) jsmap" where
  "group_ops ops = foldl add_group [] (zip ops [0..<length ops])"

record GroupRun =
  gr_curr :: "IEntRow option"
  gr_changed :: bool
  gr_results :: "status list"
  gr_types :: "jsstr list"

definition group_step :: "GroupRun \<Rightarrow> IOp \<times> nat \<Rightarrow> GroupRun" where
  "group_step g item =
     (case applyOp (gr_curr g) (fst item) of
        Ok next \<Rightarrow> g\<lparr>gr_changed := True, gr_types := foldl (\<lambda>ts t. set_add t ts) (gr_types g) (typesChanged (gr_curr g) next),
                     gr_curr := Some next\<rparr>
      | r \<Rightarrow> g\<lparr>gr_results := (gr_results g)[snd item := status_of r]\<rparr>)"

definition mark_group :: "status \<Rightarrow> (IOp \<times> nat) list \<Rightarrow> status list \<Rightarrow> status list" where
  "mark_group st grp results = foldl (\<lambda>rs item. rs[snd item := st]) results grp"

text \<open>
  The state of a batch: what it will answer, and the writes it has requested, each with its group. The
  reads of all groups are requested before the first of them succeeds, so all of them run before any
  write. A failing read marks its group and lets its error reach the transaction, which answers at once
  and is aborted: \<open>ib_aborted\<close>. (The handler of the transaction looks for statuses that are
  \<^verbatim>\<open>undefined\<close>; there are none, because the array is filled with \<open>Success\<close>.)
\<close>

record Batch =
  ib_results :: "status list"
  ib_types :: "jsstr list"
  ib_eids :: "bytes list"
  ib_puts :: "(jsstr \<times> IStoredRow \<times> (IOp \<times> nat) list) list"
  ib_aborted :: bool

definition read_group :: "(jsstr \<Rightarrow> bool) \<Rightarrow> object_store \<Rightarrow> Batch \<Rightarrow> jsstr \<times> (IOp \<times> nat) list \<Rightarrow> Batch" where
  "read_group getFails rows b kg =
     (let key = fst kg; grp = snd kg
      in if ib_aborted b \<or> length grp < 1 then b
         else if getFails key then b\<lparr>ib_results := mark_group DatabaseError grp (ib_results b), ib_aborted := True\<rparr>
         else
           (let g = foldl group_step \<lparr>gr_curr = map_option storedToRow (map_get rows key), gr_changed = False,
                      gr_results = ib_results b, gr_types = ib_types b\<rparr> grp
            in \<lparr>ib_results = gr_results g, ib_types = gr_types g,
                ib_eids = (if gr_changed g then ib_eids b @ [op_eid (fst (hd grp))] else ib_eids b),
                ib_puts = (case gr_curr g of None \<Rightarrow> ib_puts b | Some r \<Rightarrow> ib_puts b @ [(key, rowToStored r, grp)]),
                ib_aborted = False\<rparr>))"

text \<open>
  The writes. A failing one is marked and does not abort, but its error still reaches the handler of
  the transaction, which answers: later failures come too late for the caller.
\<close>

fun run_puts :: "(jsstr \<Rightarrow> bool) \<Rightarrow> (jsstr \<times> IStoredRow \<times> (IOp \<times> nat) list) list \<Rightarrow> bool \<Rightarrow> status list \<Rightarrow> object_store
    \<Rightarrow> status list \<times> object_store" where
  "run_puts putFails [] answered results rows = (results, rows)"
| "run_puts putFails ((key, row, grp) # puts) answered results rows =
     (if putFails key
      then run_puts putFails puts True (if answered then results else mark_group DatabaseError grp results) rows
      else run_puts putFails puts answered results (os_put str_less key row rows))"

definition idb_apply ::
    "bool \<Rightarrow> (jsstr \<Rightarrow> bool) \<Rightarrow> (jsstr \<Rightarrow> bool) \<Rightarrow> IOp list \<Rightarrow> EntIDB \<Rightarrow> EntIDB \<times> ApplyResult" where
  "idb_apply up getFails putFails ops e =
     (case ensureDb up e of (e, ok) \<Rightarrow>
        if \<not> ok then (e, \<lparr>ar_stats = map (\<lambda>_. DatabaseClosed) ops, ar_types = [], ar_eids = []\<rparr>)
        else if length ops < 1 then (e, \<lparr>ar_stats = [], ar_types = [], ar_eids = []\<rparr>)
        else
          (let b = foldl (read_group getFails (ei_rows e))
                     \<lparr>ib_results = replicate (length ops) Success, ib_types = [], ib_eids = [], ib_puts = [], ib_aborted = False\<rparr>
                     (group_ops ops)
           in if ib_aborted b then (e, \<lparr>ar_stats = ib_results b, ar_types = ib_types b, ar_eids = ib_eids b\<rparr>)
              else case run_puts putFails (ib_puts b) False (ib_results b) (ei_rows e) of
                     (results, rows) \<Rightarrow>
                       (e\<lparr>ei_rows := rows\<rparr>, \<lparr>ar_stats = results, ar_types = ib_types b, ar_eids = ib_eids b\<rparr>)))"

section \<open>The other operations\<close>


definition request :: "bool \<Rightarrow> 'a \<Rightarrow> 'a vs" where
  "request fails v = (if fails then Err DatabaseError else Ok v)"

definition idb_getRow :: "bool \<Rightarrow> bool \<Rightarrow> bytes \<Rightarrow> EntIDB \<Rightarrow> EntIDB \<times> IEntRow option vs" where
  "idb_getRow up fails eid = with_db up (\<lambda>rows. request fails (map_option storedToRow (map_get rows (btob64 eid))))"

definition idb_getEnt :: "bool \<Rightarrow> bool \<Rightarrow> bytes \<Rightarrow> EntIDB \<Rightarrow> EntIDB \<times> IEntity option vs" where
  "idb_getEnt up fails eid e =
     (case idb_getRow up fails eid e of
        (e, r) \<Rightarrow> (e, andThen r (\<lambda>row. Ok (case row of Some (Live ent) \<Rightarrow> Some ent | _ \<Rightarrow> None))))"

definition getByUpdatedAt :: "bool \<Rightarrow> bool \<Rightarrow> jsstr \<Rightarrow> DateSpec \<Rightarrow> EntIDB \<Rightarrow> EntIDB \<times> IEntity list vs" where
  "getByUpdatedAt up fails ty spec e =
     (case dateSpecMayMatch spec of
        Ok may \<Rightarrow>
          if \<not> may then (e, Ok [])
          else with_db up (\<lambda>rows. andThen (dateIdbRange spec) (\<lambda>keyRange.
                 request fails (map storedToEntity (getAll_updated ty keyRange rows)))) e
      | Err s \<Rightarrow> (e, Err s) | Throw \<Rightarrow> (e, Throw) | Hang \<Rightarrow> (e, Hang))"

definition getAllOfType :: "bool \<Rightarrow> bool \<Rightarrow> jsstr \<Rightarrow> EntIDB \<Rightarrow> EntIDB \<times> IEntity list vs" where
  "getAllOfType up fails ty = with_db up (\<lambda>rows. request fails (map storedToEntity (getAll_type ty rows)))"

text \<open>The key range is computed after the database is open.\<close>

definition getByTag :: "bool \<Rightarrow> bool \<Rightarrow> jsstr \<Rightarrow> TagSpec \<Rightarrow> EntIDB \<Rightarrow> EntIDB \<times> IEntity list vs" where
  "getByTag up fails ty spec e =
     (case tagSpecMayMatch spec of
        Ok may \<Rightarrow>
          if \<not> may then (e, Ok [])
          else with_db up (\<lambda>rows. andThen (tagIdbRange spec) (\<lambda>keyRange.
                 request fails (filterTagHits (getAll_tag keyRange rows) ty spec))) e
      | Err s \<Rightarrow> (e, Err s) | Throw \<Rightarrow> (e, Throw) | Hang \<Rightarrow> (e, Hang))"

fun idb_getEntities :: "bool \<Rightarrow> bool \<Rightarrow> EntitiesQuery \<Rightarrow> EntIDB \<Rightarrow> EntIDB \<times> IEntity list vs" where
  "idb_getEntities up fails (QPid ty pid) e =
     with_db up (\<lambda>rows. request fails (map storedToEntity (getAll_parent ty (btob64 pid) rows))) e"
| "idb_getEntities up fails (QTag ty spec) e = getByTag up fails ty spec e"
| "idb_getEntities up fails (QUpdatedAt ty spec) e = getByUpdatedAt up fails ty spec e"
| "idb_getEntities up fails (QType ty) e = getAllOfType up fails ty e"

definition idb_countEntities :: "bool \<Rightarrow> bool \<Rightarrow> jsstr \<Rightarrow> EntIDB \<Rightarrow> EntIDB \<times> nat vs" where
  "idb_countEntities up fails ty = with_db up (\<lambda>rows. request fails (length (getAll_type ty rows)))"

definition idb_checksum :: "(bytes \<Rightarrow> bytes) \<Rightarrow> bool \<Rightarrow> bool \<Rightarrow> EntIDB \<Rightarrow> EntIDB \<times> bytes vs" where
  "idb_checksum blake3 up fails =
     with_db up (\<lambda>rows. andThen (request fails (map (\<lambda>(_, r). revFromEntity (storedToRow r)) rows)) (\<lambda>revs.
       checksumEntRevs blake3 revs))"

section \<open>Rows survive storage\<close>

definition row_fine :: "IEntRow \<Rightarrow> bool" where
  "row_fine r = (case r of Live e \<Rightarrow> ent_pid e \<noteq> Some [] \<and> ent_rlm e \<noteq> Some [] | Tombstone _ _ _ \<Rightarrow> True)"

definition op_fine :: "IOp \<Rightarrow> bool" where
  "op_fine op = (case op of MutateOp _ _ _ _ pid _ _ \<Rightarrow> pid \<noteq> Some [] | DeleteOp _ _ _ \<Rightarrow> True)"

lemma btob64_empty [simp]: "btob64 p = [] \<longleftrightarrow> p = []"
proof -
  have "btob64 [] = []" by code_simp
  then show ?thesis using btob64_inj [of p "[]"] by metis
qed

lemma key_bytes_btob64 [simp]: "key_bytes (btob64 b) = b"
  by (simp add: key_bytes_def b64tob_btob64)

lemma storedToEntity_stored: "row_fine (Live e) \<Longrightarrow> storedToEntity (entityToStored e) = e"
  by (simp add: storedToEntity_def entityToStored_def row_fine_def realmLabel_def split: option.splits)

lemma storedToRow_stored: "row_fine r \<Longrightarrow> storedToRow (rowToStored r) = r"
  by (cases r) (simp_all add: storedToEntity_stored)

definition rows_ok :: "object_store \<Rightarrow> bool" where
  "rows_ok rows = (key_ordered str_less rows \<and> (\<forall>(k, s) \<in> set rows. \<exists>r. row_fine r \<and> k = btob64 (row_eid r) \<and> s = rowToStored r))"

lemma rows_ok_put: "rows_ok rows \<Longrightarrow> row_fine r \<Longrightarrow> rows_ok (os_put str_less (btob64 (row_eid r)) (rowToStored r) rows)"
  using str_key.set_put [of rows "btob64 (row_eid r)" "rowToStored r"] by (auto simp: rows_ok_def)

definition row_at :: "object_store \<Rightarrow> jsstr \<Rightarrow> IEntRow option" where
  "row_at rows k = map_option storedToRow (map_get rows k)"

lemma row_at_put: "row_fine r \<Longrightarrow> row_at (os_put str_less k (rowToStored r) rows) k' = (if k' = k then Some r else row_at rows k')"
  by (simp add: row_at_def storedToRow_stored)

lemma row_at_fine: "rows_ok rows \<Longrightarrow> row_at rows k = Some r \<Longrightarrow> row_fine r \<and> k = btob64 (row_eid r) \<and> map_get rows k = Some (rowToStored r)"
  unfolding row_at_def rows_ok_def
proof -
  assume ok: "key_ordered str_less rows \<and> (\<forall>(k, s) \<in> set rows. \<exists>r. row_fine r \<and> k = btob64 (row_eid r) \<and> s = rowToStored r)"
    and r: "map_option storedToRow (map_get rows k) = Some r"
  obtain s where s: "map_get rows k = Some s" "r = storedToRow s" using r by auto
  obtain r0 where "row_fine r0" "k = btob64 (row_eid r0)" "s = rowToStored r0" using ok map_of_SomeD [OF s(1)] by auto
  then show ?thesis using s storedToRow_stored by simp
qed

lemma op_row_fine: "op_fine op \<Longrightarrow> op_parses op \<Longrightarrow> row_fine (op_row op)"
  by (cases op) (auto simp: op_fine_def op_parses_def applyOp_def op_row_def row_fine_def Let_def split: vs.splits)

lemma op_step_cases: "op_step cur op = cur \<or> (op_parses op \<and> op_step cur op = Some (op_row op))"
  using applyOp_unparsed [of op cur] by (cases "op_parses op") (auto simp: op_step_def applyOp_parses)

lemma fold_step_fine:
  "\<forall>op \<in> set ops. op_fine op \<and> btob64 (op_eid op) = k \<Longrightarrow> (\<And>r. cur = Some r \<Longrightarrow> row_fine r \<and> k = btob64 (row_eid r)) \<Longrightarrow>
     foldl op_step cur ops = Some r \<Longrightarrow> row_fine r \<and> k = btob64 (row_eid r)"
proof (induction ops arbitrary: cur)
  case (Cons op ops)
  have "row_fine r \<and> k = btob64 (row_eid r)" if "op_step cur op = Some r" for r
    using op_step_cases [of cur op] that Cons.prems(1,2) op_row_fine [of op] op_row_eid [of op] by auto
  then show ?case using Cons.IH [of "op_step cur op"] Cons.prems by simp
qed simp

lemma fold_step_some: "cur \<noteq> None \<Longrightarrow> foldl op_step cur ops \<noteq> None"
proof (induction ops arbitrary: cur)
  case (Cons op ops)
  have "op_step cur op \<noteq> None" using op_step_cases [of cur op] Cons.prems by auto
  then show ?case using Cons.IH by simp
qed simp

section \<open>Apply without failures\<close>

definition op_key :: "IOp \<Rightarrow> jsstr" where
  "op_key op = btob64 (op_eid op)"

lemma group_fold:
  "keys_ok (foldl add_group [] items) \<and>
   map_get (foldl add_group [] items) k =
     (let f = filter (\<lambda>it. op_key (fst it) = k) items in if f = [] then None else Some f)"
proof (induction items arbitrary: k rule: rev_induct)
  case (snoc it items)
  then show ?case by (auto simp: add_group_def op_key_def Let_def split: option.split)
qed simp

lemma group_of:
  assumes "(k, grp) \<in> set (group_ops ops)"
  shows "grp = filter (\<lambda>it. op_key (fst it) = k) (zip ops [0..<length ops])" "grp \<noteq> []"
proof -
  have "map_get (group_ops ops) k = Some grp"
    using assms group_fold [of "zip ops [0..<length ops]" k]
    by (intro map_of_is_SomeI) (simp_all add: group_ops_def keys_ok_def)
  then show "grp = filter (\<lambda>it. op_key (fst it) = k) (zip ops [0..<length ops])" "grp \<noteq> []"
    using group_fold [of "zip ops [0..<length ops]" k] by (auto simp: group_ops_def Let_def split: if_splits)
qed

lemma group_keys: "fst ` set (group_ops ops) = op_key ` set ops"
proof -
  have "k \<in> fst ` set (group_ops ops) \<longleftrightarrow> filter (\<lambda>it. op_key (fst it) = k) (zip ops [0..<length ops]) \<noteq> []" for k
    using group_fold [of "zip ops [0..<length ops]" k]
    by (simp add: group_ops_def Let_def dom_map_of_conv_image_fst [symmetric] domIff split: if_splits)
  moreover have "filter (\<lambda>it. op_key (fst it) = k) (zip ops [0..<length ops]) \<noteq> [] \<longleftrightarrow> k \<in> op_key ` set ops" for k
  proof -
    have "filter (\<lambda>it. op_key (fst it) = k) (zip ops [0..<length ops]) \<noteq> [] \<longleftrightarrow> (\<exists>op \<in> fst ` set (zip ops [0..<length ops]). op_key op = k)"
      by (auto simp: filter_empty_conv)
    also have "fst ` set (zip ops [0..<length ops]) = set ops" by (metis length_map map_fst_zip list.set_map length_upt diff_zero)
    finally show ?thesis by auto
  qed
  ultimately show ?thesis by blast
qed

text \<open>The status of the \<open>n\<close>-th operation: what the ones before it on the same entity leave decides.\<close>

definition stat_of :: "(jsstr \<Rightarrow> IEntRow option) \<Rightarrow> IOp list \<Rightarrow> nat \<Rightarrow> status" where
  "stat_of cur ops n =
     (let k = op_key (ops ! n)
      in status_of (applyOp (foldl op_step (cur k) (filter (\<lambda>op. op_key op = k) (take n ops))) (ops ! n)))"

lemma group_step_curr: "gr_curr (group_step g it) = op_step (gr_curr g) (fst it)"
  by (simp add: group_step_def op_step_def split: vs.split)

lemma group_step_results: "gr_results (group_step g it) =
    (case applyOp (gr_curr g) (fst it) of Ok _ \<Rightarrow> gr_results g | r \<Rightarrow> (gr_results g)[snd it := status_of r])"
  by (simp add: group_step_def split: vs.split)

lemma group_run:
  assumes "m \<le> length ops" "gr_curr g = cur k" "length (gr_results g) = length ops"
    and "\<forall>n < length ops. op_key (ops ! n) = k \<longrightarrow> gr_results g ! n = Success"
  defines "g' \<equiv> foldl group_step g (filter (\<lambda>it. op_key (fst it) = k) (take m (zip ops [0..<length ops])))"
  shows "gr_curr g' = foldl op_step (cur k) (filter (\<lambda>op. op_key op = k) (take m ops))
    \<and> length (gr_results g') = length ops
    \<and> (\<forall>n < length ops. gr_results g' ! n = (if n < m \<and> op_key (ops ! n) = k then stat_of cur ops n else gr_results g ! n))"
  using assms(1) unfolding g'_def
proof (induction m)
  case 0
  then show ?case using assms(2,3) by simp
next
  case (Suc m)
  let ?g = "foldl group_step g (filter (\<lambda>it. op_key (fst it) = k) (take m (zip ops [0..<length ops])))"
  have ih: "gr_curr ?g = foldl op_step (cur k) (filter (\<lambda>op. op_key op = k) (take m ops))" "length (gr_results ?g) = length ops"
    "\<forall>n < length ops. gr_results ?g ! n = (if n < m \<and> op_key (ops ! n) = k then stat_of cur ops n else gr_results g ! n)"
    using Suc by simp_all
  have m: "m < length ops" using Suc.prems by simp
  have t: "take (Suc m) (zip ops [0..<length ops]) = take m (zip ops [0..<length ops]) @ [(ops ! m, m)]"
    "take (Suc m) ops = take m ops @ [ops ! m]"
    using m by (simp_all add: take_Suc_conv_app_nth)
  show ?case
  proof (cases "op_key (ops ! m) = k")
    case False
    then have "(if n < Suc m \<and> op_key (ops ! n) = k then x else y) = (if n < m \<and> op_key (ops ! n) = k then x else y)" for n and x y :: status
      by (auto simp: less_Suc_eq)
    then show ?thesis using ih False t by simp
  next
    case True
    have c: "gr_curr (group_step ?g (ops ! m, m)) = foldl op_step (cur k) (filter (\<lambda>op. op_key op = k) (take (Suc m) ops))"
      using ih(1) t True by (simp add: group_step_curr)
    have st: "status_of (applyOp (gr_curr ?g) (ops ! m)) = stat_of cur ops m" using ih(1) True by (simp add: stat_of_def Let_def)
    have m0: "gr_results ?g ! m = Success" using ih(3) m assms(4) True by simp
    have r: "gr_results (group_step ?g (ops ! m, m)) ! n = (if n = m then stat_of cur ops m else gr_results ?g ! n)" if "n < length ops" for n
      using st m0 ih(2) m by (cases "applyOp (gr_curr ?g) (ops ! m)") (auto simp: group_step_results)
    have l: "length (gr_results (group_step ?g (ops ! m, m))) = length ops"
      using ih(2) by (simp add: group_step_results split: vs.split)
    have "\<forall>n < length ops. gr_results (group_step ?g (ops ! m, m)) ! n =
        (if n < Suc m \<and> op_key (ops ! n) = k then stat_of cur ops n else gr_results g ! n)"
      using r ih(3) True by (auto simp: less_Suc_eq)
    then show ?thesis using c l t True by simp
  qed
qed

definition final_row :: "(jsstr \<Rightarrow> IEntRow option) \<Rightarrow> IOp list \<Rightarrow> jsstr \<Rightarrow> IEntRow option" where
  "final_row cur ops k = foldl op_step (cur k) (filter (\<lambda>op. op_key op = k) ops)"

definition put_of :: "(jsstr \<Rightarrow> IEntRow option) \<Rightarrow> IOp list \<Rightarrow> jsstr \<times> (IOp \<times> nat) list \<Rightarrow> (jsstr \<times> IStoredRow \<times> (IOp \<times> nat) list) list" where
  "put_of cur ops kg = (case final_row cur ops (fst kg) of None \<Rightarrow> [] | Some r \<Rightarrow> [(fst kg, rowToStored r, snd kg)])"

lemma read_groups:
  fixes rows :: object_store
  assumes "set gs \<subseteq> set (group_ops ops)" "distinct (map fst gs)"
  shows "let b = foldl (read_group (\<lambda>_. False) rows)
     \<lparr>ib_results = replicate (length ops) Success, ib_types = [], ib_eids = [], ib_puts = [], ib_aborted = False\<rparr> gs in
    \<not> ib_aborted b \<and> length (ib_results b) = length ops
    \<and> (\<forall>n < length ops. ib_results b ! n = (if op_key (ops ! n) \<in> fst ` set gs then stat_of (row_at rows) ops n else Success))
    \<and> ib_puts b = concat (map (put_of (row_at rows) ops) gs)"
  using assms unfolding Let_def
proof (induction gs rule: rev_induct)
  case (snoc kg gs)
  obtain k grp where kg: "kg = (k, grp)" by (cases kg)
  let ?b = "foldl (read_group (\<lambda>_. False) rows)
     \<lparr>ib_results = replicate (length ops) Success, ib_types = [], ib_eids = [], ib_puts = [], ib_aborted = False\<rparr> gs"
  have ih: "\<not> ib_aborted ?b" "length (ib_results ?b) = length ops"
    "\<forall>n < length ops. ib_results ?b ! n = (if op_key (ops ! n) \<in> fst ` set gs then stat_of (row_at rows) ops n else Success)"
    "ib_puts ?b = concat (map (put_of (row_at rows) ops) gs)"
    using snoc by simp_all
  have new: "k \<notin> fst ` set gs" using snoc.prems(2) kg by (auto simp: image_iff)
  have "(k, grp) \<in> set (group_ops ops)" using snoc.prems(1) kg by simp
  note grp = group_of [OF this]
  let ?start = "\<lparr>gr_curr = row_at rows k, gr_changed = False, gr_results = ib_results ?b, gr_types = ib_types ?b\<rparr>"
  let ?g = "foldl group_step ?start grp"
  have "\<forall>n < length ops. op_key (ops ! n) = k \<longrightarrow> gr_results ?start ! n = Success" using ih(3) new by simp
  from group_run [of "length ops" ops ?start "row_at rows" k, OF _ _ _ this] ih(2)
  have g: "gr_curr ?g = final_row (row_at rows) ops k" "length (gr_results ?g) = length ops"
    "\<forall>n < length ops. gr_results ?g ! n = (if op_key (ops ! n) = k then stat_of (row_at rows) ops n else ib_results ?b ! n)"
    by (simp_all add: grp(1) final_row_def)
  have e: "read_group (\<lambda>_. False) rows ?b kg = \<lparr>ib_results = gr_results ?g, ib_types = gr_types ?g,
      ib_eids = (if gr_changed ?g then ib_eids ?b @ [op_eid (fst (hd grp))] else ib_eids ?b),
      ib_puts = ib_puts ?b @ put_of (row_at rows) ops kg, ib_aborted = False\<rparr>"
    using ih(1) g(1) kg grp(2) by (cases "final_row (row_at rows) ops k") (simp_all add: read_group_def Let_def row_at_def put_of_def)
  have "foldl (read_group (\<lambda>_. False) rows)
     \<lparr>ib_results = replicate (length ops) Success, ib_types = [], ib_eids = [], ib_puts = [], ib_aborted = False\<rparr> (gs @ [kg])
      = read_group (\<lambda>_. False) rows ?b kg" by simp
  then show ?case using ih(3,4) g(2,3) kg unfolding e by simp
qed simp

lemma run_puts_ok:
  "run_puts (\<lambda>_. False) puts answered results rows = (results, foldl (\<lambda>rows (k, r, _). os_put str_less k r rows) rows puts)"
  by (induction puts arbitrary: rows) auto

lemma puts_rows:
  assumes "rows_ok rows" "\<And>k r. k \<in> fst ` set gs \<Longrightarrow> final_row cur ops k = Some r \<Longrightarrow> row_fine r \<and> k = btob64 (row_eid r)"
    and "distinct (map fst gs)"
  defines "rows' \<equiv> foldl (\<lambda>rows (k, r, _). os_put str_less k r rows) rows (concat (map (put_of cur ops) gs))"
  shows "rows_ok rows' \<and> (\<forall>k. row_at rows' k =
     (if k \<in> fst ` set gs \<and> final_row cur ops k \<noteq> None then final_row cur ops k else row_at rows k))"
  using assms(2,3) unfolding rows'_def
proof (induction gs rule: rev_induct)
  case Nil
  then show ?case using assms(1) by simp
next
  case (snoc kg gs)
  obtain k grp where kg: "kg = (k, grp)" by (cases kg)
  let ?r = "foldl (\<lambda>rows (k, r, _). os_put str_less k r rows) rows (concat (map (put_of cur ops) gs))"
  have "rows_ok ?r \<and> (\<forall>k. row_at ?r k = (if k \<in> fst ` set gs \<and> final_row cur ops k \<noteq> None then final_row cur ops k else row_at rows k))"
  proof (rule snoc.IH)
    show "row_fine r \<and> k = btob64 (row_eid r)" if "k \<in> fst ` set gs" "final_row cur ops k = Some r" for k r
      by (rule snoc.prems(1)) (use that in auto)
    show "distinct (map fst gs)" using snoc.prems(2) by simp
  qed
  then have ih: "rows_ok ?r" "\<forall>k. row_at ?r k = (if k \<in> fst ` set gs \<and> final_row cur ops k \<noteq> None then final_row cur ops k else row_at rows k)"
    by blast+
  have po: "put_of cur ops kg = (case final_row cur ops k of None \<Rightarrow> [] | Some r \<Rightarrow> [(k, rowToStored r, grp)])"
    by (simp add: put_of_def kg split: option.split)
  show ?case
  proof (cases "final_row cur ops k")
    case None
    then show ?thesis using ih kg po by auto
  next
    case (Some r)
    have f: "row_fine r" "k = btob64 (row_eid r)" using snoc.prems(1) [of k r] kg Some by simp_all
    then have "rows_ok (os_put str_less k (rowToStored r) ?r)" using rows_ok_put [OF ih(1) f(1)] by simp
    then show ?thesis using ih(2) kg po Some f(1) by (auto simp: row_at_put)
  qed
qed

lemma same_key: "op_key op = btob64 i \<longleftrightarrow> op_eid op = i"
  by (simp add: op_key_def)

lemma idb_apply_ok:
  assumes ok: "rows_ok (ei_rows e)" and fine: "list_all op_fine ops"
  defines "e' \<equiv> fst (idb_apply True (\<lambda>_. False) (\<lambda>_. False) ops e)" and "a \<equiv> snd (idb_apply True (\<lambda>_. False) (\<lambda>_. False) ops e)"
  shows "rows_ok (ei_rows e')"
    and "row_at (ei_rows e') (btob64 i) = foldl op_step (row_at (ei_rows e) (btob64 i)) (filter (\<lambda>op. op_eid op = i) ops)"
    and "ar_stats a = map (\<lambda>n. status_of (applyOp (foldl op_step (row_at (ei_rows e) (btob64 (op_eid (ops ! n))))
            (filter (\<lambda>op. op_eid op = op_eid (ops ! n)) (take n ops))) (ops ! n))) [0..<length ops]"
proof -
  let ?rows = "ei_rows e"
  define e0 where "e0 = fst (ensureDb True e)"
  have e0: "ensureDb True e = (e0, True)" "ei_rows e0 = ?rows" by (simp_all add: e0_def ensureDb_def)
  let ?b = "foldl (read_group (\<lambda>_. False) ?rows)
     \<lparr>ib_results = replicate (length ops) Success, ib_types = [], ib_eids = [], ib_puts = [], ib_aborted = False\<rparr> (group_ops ops)"
  let ?rows' = "foldl (\<lambda>rows (k, r, _). os_put str_less k r rows) ?rows (concat (map (put_of (row_at ?rows) ops) (group_ops ops)))"
  have dk: "distinct (map fst (group_ops ops))" using group_fold by (simp add: group_ops_def keys_ok_def)
  have b: "\<not> ib_aborted ?b" "length (ib_results ?b) = length ops"
      "\<forall>n < length ops. ib_results ?b ! n = stat_of (row_at ?rows) ops n"
      "ib_puts ?b = concat (map (put_of (row_at ?rows) ops) (group_ops ops))"
    using read_groups [OF _ dk, of ops ?rows] group_keys [of ops] by (auto simp: Let_def)
  have eq: "ops \<noteq> [] \<Longrightarrow> idb_apply True (\<lambda>_. False) (\<lambda>_. False) ops e =
      (e0\<lparr>ei_rows := ?rows'\<rparr>, \<lparr>ar_stats = ib_results ?b, ar_types = ib_types ?b, ar_eids = ib_eids ?b\<rparr>)"
    using b(1) by (simp add: idb_apply_def e0 run_puts_ok b(4) Let_def)
  have nil: "ops = [] \<Longrightarrow> idb_apply True (\<lambda>_. False) (\<lambda>_. False) ops e = (e0, \<lparr>ar_stats = [], ar_types = [], ar_eids = []\<rparr>)"
    by (simp add: idb_apply_def e0)
  have fr: "row_fine r \<and> k = btob64 (row_eid r)" if "k \<in> fst ` set (group_ops ops)" "final_row (row_at ?rows) ops k = Some r" for k r
  proof (rule fold_step_fine)
    show "foldl op_step (row_at ?rows k) (filter (\<lambda>op. op_key op = k) ops) = Some r" using that(2) by (simp add: final_row_def)
    show "\<forall>op \<in> set (filter (\<lambda>op. op_key op = k) ops). op_fine op \<and> btob64 (op_eid op) = k"
      using fine by (auto simp: op_key_def list_all_iff)
    show "row_at ?rows k = Some r \<Longrightarrow> row_fine r \<and> k = btob64 (row_eid r)" for r using row_at_fine [OF ok] by blast
  qed
  note r = puts_rows [of ?rows "group_ops ops" "row_at ?rows" ops, OF ok fr dk]
  show "rows_ok (ei_rows e')" using r eq nil ok e0(2) by (cases "ops = []") (simp_all add: e'_def)
  have "foldl op_step (row_at ?rows k) (filter (\<lambda>op. op_key op = k) ops) = row_at ?rows k" if "k \<notin> op_key ` set ops" for k
  proof -
    have "filter (\<lambda>op. op_key op = k) ops = []" using that by (auto simp: filter_empty_conv)
    then show ?thesis by simp
  qed
  moreover have "row_at ?rows k = None" if "final_row (row_at ?rows) ops k = None" for k
    using that fold_step_some unfolding final_row_def by metis
  ultimately have f: "row_at ?rows' k = final_row (row_at ?rows) ops k" for k
    using r group_keys [of ops] by (auto simp: final_row_def)
  show "row_at (ei_rows e') (btob64 i) = foldl op_step (row_at ?rows (btob64 i)) (filter (\<lambda>op. op_eid op = i) ops)"
    using f [of "btob64 i"] eq nil e0(2) by (cases "ops = []") (simp_all add: e'_def final_row_def same_key)
  show "ar_stats a = map (\<lambda>n. status_of (applyOp (foldl op_step (row_at ?rows (btob64 (op_eid (ops ! n))))
            (filter (\<lambda>op. op_eid op = op_eid (ops ! n)) (take n ops))) (ops ! n))) [0..<length ops]"
  proof (cases "ops = []")
    case False
    have "ib_results ?b = map (stat_of (row_at ?rows) ops) [0..<length ops]"
      using b(2,3) by (intro nth_equalityI) simp_all
    then show ?thesis using eq [OF False] by (simp add: a_def stat_of_def Let_def op_key_def)
  next
    case True
    with nil show ?thesis by (simp add: a_def)
  qed
qed

section \<open>Queries without failures\<close>

lemma in_stored_ents: "s \<in> set (stored_ents rows) \<longleftrightarrow> (\<exists>k. (k, StoredEnt s) \<in> set rows)"
  by (induction rows) (auto simp: stored_ents_def List.map_filter_def split: IStoredRow.splits)

lemma stored_ents_simps [simp]:
  "stored_ents [] = []"
  "stored_ents ((k, StoredEnt x) # m) = x # stored_ents m" "stored_ents ((k, StoredTomb t) # m) = stored_ents m"
  by (simp_all add: stored_ents_def List.map_filter_def)

definition lives :: "object_store \<Rightarrow> IEntity list" where
  "lives rows = map storedToEntity (stored_ents rows)"

lemma stored_lives:
  assumes "rows_ok rows"
  shows "stored_ents rows = map entityToStored (lives rows)" "e \<in> set (lives rows) \<Longrightarrow> row_fine (Live e)"
    and "e \<in> set (lives rows) \<longleftrightarrow> row_at rows (btob64 (ent_eid e)) = Some (Live e)" "distinct (map ent_eid (lives rows))"
proof -
  have s: "\<exists>e. row_fine (Live e) \<and> k = btob64 (ent_eid e) \<and> s = entityToStored e" if "(k, StoredEnt s) \<in> set rows" for k s
  proof -
    have "\<exists>r. row_fine r \<and> k = btob64 (row_eid r) \<and> StoredEnt s = rowToStored r"
      using assms that by (auto simp: rows_ok_def)
    then obtain r where "row_fine r" "k = btob64 (row_eid r)" "StoredEnt s = rowToStored r" by blast
    then show ?thesis by (cases r) auto
  qed
  then have "\<forall>s \<in> set (stored_ents rows). entityToStored (storedToEntity s) = s"
    by (metis in_stored_ents storedToEntity_stored)
  then show "stored_ents rows = map entityToStored (lives rows)" by (simp add: lives_def map_idI)
  show fine: "row_fine (Live e)" if "e \<in> set (lives rows)" for e
  proof -
    note l = that
    obtain k s0 where "(k, StoredEnt s0) \<in> set rows" "e = storedToEntity s0" using l by (auto simp: lives_def in_stored_ents)
    with s [OF this(1)] storedToEntity_stored show ?thesis by auto
  qed
  have k: "keys_ok rows" using assms by (simp add: rows_ok_def str_key.ordered_keys)
  show "e \<in> set (lives rows) \<longleftrightarrow> row_at rows (btob64 (ent_eid e)) = Some (Live e)"
  proof
    assume "e \<in> set (lives rows)"
    then obtain k0 s0 where "(k0, StoredEnt s0) \<in> set rows" "e = storedToEntity s0" by (auto simp: lives_def in_stored_ents)
    with s [OF this(1)] storedToEntity_stored have "(btob64 (ent_eid e), StoredEnt s0) \<in> set rows" "e = storedToEntity s0" by auto
    then show "row_at rows (btob64 (ent_eid e)) = Some (Live e)"
      using k by (simp add: row_at_def keys_ok_def)
  next
    assume "row_at rows (btob64 (ent_eid e)) = Some (Live e)"
    from row_at_fine [OF assms this] storedToEntity_stored show "e \<in> set (lives rows)"
      by (force simp: lives_def in_stored_ents dest!: map_of_SomeD)
  qed
  have "rows_ok m \<Longrightarrow> distinct (map ent_eid (lives m)) \<and> (\<forall>e \<in> set (lives m). btob64 (ent_eid e) \<in> fst ` set m)" for m
  proof (induction m)
    case (Cons x m)
    obtain k s where x: "x = (k, s)" by (cases x)
    have m: "rows_ok m" "k \<notin> fst ` set m" using Cons.prems x str_less_irrefl by (auto simp: rows_ok_def key_ordered_def)
    obtain r where "row_fine r" "k = btob64 (row_eid r)" "s = rowToStored r" using Cons.prems x by (auto simp: rows_ok_def)
    with Cons.IH [OF m(1)] m(2) x show ?case
      by (cases r) (auto simp: lives_def storedToEntity_stored)
  qed (simp add: lives_def)
  then show "distinct (map ent_eid (lives rows))" using assms by blast
qed

section \<open>The contract of the durable database\<close>


lemma with_db_up: "snd (with_db True q e) = q (ei_rows e)"
  by (simp add: with_db_def ensureDb_def)



section \<open>Queries agree with the memory database\<close>

text \<open>The same rows in both databases.\<close>

definition same_rows :: "EntIDB \<Rightarrow> EntDBMemory \<Rightarrow> bool" where
  "same_rows e d = (rows_ok (ei_rows e) \<and> edb_inv d \<and> (\<forall>i. row_at (ei_rows e) (btob64 i) = getRow i d))"

lemma same_lives:
  assumes "same_rows e d"
  shows "mset (lives (ei_rows e)) = mset (live_rows d)"
proof -
  have ok: "rows_ok (ei_rows e)" "ents_ok d" and same: "\<And>i. row_at (ei_rows e) (btob64 i) = getRow i d"
    using assms by (simp_all add: same_rows_def edb_inv_def)
  have "x \<in> set (live_rows d) \<longleftrightarrow> getRow (ent_eid x) d = Some (Live x)" for x
    using live_rows_set [OF ok(2), of x] row_key [OF ok(2)] unfolding getRow_def by (metis row_eid.simps(1))
  then have "set (lives (ei_rows e)) = set (live_rows d)" using stored_lives(3) [OF ok(1)] same by auto
  moreover have "distinct (lives (ei_rows e))" using stored_lives(4) [OF ok(1)] by (simp add: distinct_map)
  ultimately show ?thesis using distinct_live_rows [OF ok(2)] by (simp add: set_eq_iff_mset_eq_distinct)
qed

text \<open>A selection of stored rows is the selection of the entities.\<close>

lemma select_lives:
  assumes "rows_ok rows" "\<And>x. x \<in> set (lives rows) \<Longrightarrow> P (entityToStored x) = Q x"
  shows "map storedToEntity (filter P (stored_ents rows)) = filter Q (lives rows)"
proof -
  have "map storedToEntity (filter P (map entityToStored xs)) = filter Q xs" if "set xs \<subseteq> set (lives rows)" for xs
    using that by (induction xs) (auto simp: assms(2) storedToEntity_stored stored_lives(2) [OF assms(1)])
  then show ?thesis using stored_lives(1) [OF assms(1)] by (metis subset_refl)
qed

lemma mset_select: "mset xs = mset ys \<Longrightarrow> mset (filter P xs) = mset (filter P ys)"
  by (metis mset_filter)

lemma mset_map_sort: "mset (map f (sort_key g xs)) = mset (map f xs)"
  by simp

lemma entityToStored_sel [simp]:
  "se_typ (entityToStored x) = ent_type x" "se_crd (entityToStored x) = ent_createdAt x"
  "se_upd (entityToStored x) = ent_updatedAt x" "se_pid (entityToStored x) = map_option btob64 (ent_pid x)"
  "se_tgs (entityToStored x) = ent_tags x" "se_eid (entityToStored x) = btob64 (ent_eid x)"
  by (simp_all add: entityToStored_def)

text \<open>The tag index: who is found, each entry once for an exact tag, each entity once after \<open>filter_seen\<close>.\<close>

lemma in_getAll_tag: "s \<in> set (getAll_tag kr rows) \<longleftrightarrow>
    s \<in> set (stored_ents rows) \<and> (\<exists>ts. se_tgs s = Some ts \<and> (\<exists>t \<in> set ts. in_range str_less kr t))"
  by (force simp: getAll_tag_def split: option.splits)

definition prefix_ok :: "jsstr option \<Rightarrow> IEntity \<Rightarrow> bool" where
  "prefix_ok prefix x = (case prefix of None \<Rightarrow> True | Some pre \<Rightarrow> has_prefix pre (entityToStored x))"

lemma filter_seen_lives:
  assumes "\<And>x. x \<in> E \<Longrightarrow> row_fine (Live x)" "inj_on ent_eid E"
  shows "set xs \<subseteq> E \<Longrightarrow>
     distinct (filter_seen ty prefix (map entityToStored xs) seen) \<and>
     set (filter_seen ty prefix (map entityToStored xs) seen) =
       {x \<in> set xs. ent_type x = ty \<and> btob64 (ent_eid x) \<notin> set seen \<and> prefix_ok prefix x}"
proof (induction xs arbitrary: seen)
  case (Cons x xs)
  have E: "x \<in> E" "set xs \<subseteq> E" using Cons.prems by simp_all
  have st: "storedToEntity (entityToStored x) = x" by (rule storedToEntity_stored [OF assms(1) [OF E(1)]])
  have same: "y = x" if "y \<in> set xs" "ent_eid y = ent_eid x" for y using inj_onD [OF assms(2) that(2)] that(1) E by blast
  show ?case
  proof (cases "ent_type x = ty \<and> btob64 (ent_eid x) \<notin> set seen \<and> prefix_ok prefix x")
    case True
    then have "filter_seen ty prefix (map entityToStored (x # xs)) seen =
        x # filter_seen ty prefix (map entityToStored xs) (set_add (btob64 (ent_eid x)) seen)"
      by (simp add: prefix_ok_def st split: option.splits)
    then show ?thesis using Cons.IH [OF E(2), of "set_add (btob64 (ent_eid x)) seen"] True same by auto
  next
    case False
    then have "filter_seen ty prefix (map entityToStored (x # xs)) seen = filter_seen ty prefix (map entityToStored xs) seen"
      by (auto simp: prefix_ok_def split: option.splits)
    then show ?thesis using Cons.IH [OF E(2), of seen] False by auto
  qed
qed simp

text \<open>
  The entries of the tag index over entities. Every hit comes from a live row; a range with one tag hits each
  row at most once.
\<close>

definition ent_entries :: "IEntity list \<Rightarrow> (jsstr \<times> IEntity) list" where
  "ent_entries l = concat (map (\<lambda>x. case ent_tags x of None \<Rightarrow> [] | Some ts \<Rightarrow> map (\<lambda>t. (t, x)) (remdups ts)) l)"

lemma ent_entries_simps:
  "ent_entries [] = []"
  "ent_entries (x # l) = (case ent_tags x of None \<Rightarrow> [] | Some ts \<Rightarrow> map (\<lambda>t. (t, x)) (remdups ts)) @ ent_entries l"
  by (simp_all add: ent_entries_def)

lemma ent_entries_set: "(t, x) \<in> set (ent_entries l) \<longleftrightarrow> x \<in> set l \<and> (\<exists>ts. ent_tags x = Some ts \<and> t \<in> set ts)"
proof (induction l)
  case (Cons y l)
  then show ?case by (cases "ent_tags y") (auto simp: ent_entries_simps)
qed (simp add: ent_entries_simps)

lemma one_hit:
  assumes "\<And>t t'. P t \<Longrightarrow> P t' \<Longrightarrow> t = t'"
  shows "length (filter P (remdups ts)) \<le> 1"
proof (rule ccontr)
  assume "\<not> length (filter P (remdups ts)) \<le> 1"
  then obtain a b r where f: "filter P (remdups ts) = a # b # r"
    by (cases "filter P (remdups ts)"; cases "tl (filter P (remdups ts))") auto
  have "set (filter P (remdups ts)) = {x \<in> set ts. P x}" "distinct (filter P (remdups ts))" by auto
  then have "P a" "P b" "distinct (a # b # r)" unfolding f by auto
  then show False using assms [of a b] by simp
qed

lemma entries_distinct:
  assumes "\<And>t t'. P t \<Longrightarrow> P t' \<Longrightarrow> t = t'" "distinct l"
  shows "distinct (map snd (filter (\<lambda>(t, _). P t) (ent_entries l)))"
  using assms(2)
proof (induction l)
  case (Cons x l)
  have "filter (\<lambda>(t, _). P t) (map (\<lambda>t. (t, x)) us) = map (\<lambda>t. (t, x)) (filter P us)" for us
    by (induction us) auto
  then have "distinct (map snd (filter (\<lambda>(t, _). P t) (map (\<lambda>t. (t, x)) (remdups ts))))" for ts
    using one_hit [of P ts, OF assms(1)] by (cases "filter P (remdups ts)") auto
  moreover have "(t, x) \<notin> set (ent_entries l)" for t using Cons.prems by (simp add: ent_entries_set)
  moreover have "snd ` set (filter (\<lambda>(t, _). P t) (map (\<lambda>t. (t, x)) us)) \<subseteq> {x}" for us by auto
  ultimately show ?case using Cons by (cases "ent_tags x") (fastforce simp: ent_entries_simps)+
qed (simp add: ent_entries_def)

lemma sort_insert_map: "map f (sort_insert (\<lambda>a b. cmp (f a) (f b)) a l) = sort_insert cmp (f a) (map f l)"
  by (induction l) auto

lemma js_sort_map: "map f (js_sort (\<lambda>a b. cmp (f a) (f b)) l) = js_sort cmp (map f l)"
  by (induction l) (simp_all add: js_sort_def sort_insert_map)

definition tag_entries :: "jsstr IDBKeyRange \<Rightarrow> object_store \<Rightarrow> IEntity list" where
  "tag_entries kr rows =
     map snd (js_sort (\<lambda>a b. tag_cmp (apsnd entityToStored a) (apsnd entityToStored b))
       (filter (\<lambda>(t, _). in_range str_less kr t) (ent_entries (lives rows))))"

lemma stored_entries:
  "concat (map (\<lambda>s. case se_tgs s of None \<Rightarrow> [] | Some ts \<Rightarrow> map (\<lambda>t. (t, s)) (remdups ts)) (map entityToStored l)) =
     map (apsnd entityToStored) (ent_entries l)"
  by (induction l) (auto simp: ent_entries_def split: option.split)

lemma filter_apsnd: "filter (\<lambda>(t, _). P t) (map (apsnd f) l) = map (apsnd f) (filter (\<lambda>(t, _). P t) l)"
  by (induction l) auto

lemma map_snd_apsnd: "map snd (map (apsnd f) l) = map f (map snd l)"
  by simp

lemma getAll_tag_lives: "rows_ok rows \<Longrightarrow> getAll_tag kr rows = map entityToStored (tag_entries kr rows)"
  by (simp only: getAll_tag_def tag_entries_def stored_lives(1) stored_entries filter_apsnd js_sort_map [symmetric] map_snd_apsnd)

lemma set_tag_entries:
  "set (tag_entries kr rows) = {x \<in> set (lives rows). \<exists>ts. ent_tags x = Some ts \<and> (\<exists>t \<in> set ts. in_range str_less kr t)}"
proof -
  have "x \<in> set (tag_entries kr rows) \<longleftrightarrow> (\<exists>t. (t, x) \<in> set (ent_entries (lives rows)) \<and> in_range str_less kr t)" for x
    by (force simp: tag_entries_def)
  then have "x \<in> set (tag_entries kr rows) \<longleftrightarrow>
      x \<in> set (lives rows) \<and> (\<exists>ts. ent_tags x = Some ts \<and> (\<exists>t \<in> set ts. in_range str_less kr t))" for x
    unfolding ent_entries_set by blast
  then show ?thesis by blast
qed

lemma distinct_tag_entries:
  assumes "rows_ok rows" "\<And>t t'. in_range str_less kr t \<Longrightarrow> in_range str_less kr t' \<Longrightarrow> t = t'"
  shows "distinct (tag_entries kr rows)"
proof -
  have "distinct (map snd (filter (\<lambda>(t, _). in_range str_less kr t) (ent_entries (lives rows))))"
    using entries_distinct [of "in_range str_less kr", OF assms(2)] stored_lives(4) [OF assms(1)] by (simp add: distinct_map)
  moreover have "mset (map snd (js_sort c l)) = mset (map snd l)" for c and l :: "(jsstr \<times> IEntity) list"
    by (simp only: mset_map mset_js_sort)
  ultimately show ?thesis unfolding tag_entries_def by (metis mset_eq_imp_distinct_iff)
qed

section \<open>The reference of a query: a scan of the live rows\<close>

fun scan_matches :: "EntitiesQuery \<Rightarrow> IEntity \<Rightarrow> bool" where
  "scan_matches (QType ty) x = (ent_type x = ty)"
| "scan_matches (QPid ty p) x = (ent_type x = ty \<and> ent_pid x = Some p)"
| "scan_matches (QTag ty spec) x = (ent_type x = ty \<and> (\<exists>ts. ent_tags x = Some ts \<and> (\<exists>t \<in> set ts. tagMatches t spec)))"
| "scan_matches (QUpdatedAt ty spec) x = (ent_type x = ty \<and> dateMatches (ent_updatedAt x) spec)"

fun query_may_match :: "EntitiesQuery \<Rightarrow> bool vs" where
  "query_may_match (QTag _ spec) = tagSpecMayMatch spec"
| "query_may_match (QUpdatedAt _ spec) = dateSpecMayMatch spec"
| "query_may_match _ = Ok True"

definition scan :: "EntitiesQuery \<Rightarrow> IEntity list \<Rightarrow> IEntity list vs" where
  "scan q l = andThen (query_may_match q) (\<lambda>may. Ok (if may then filter (scan_matches q) l else []))"

lemma memory_scan:
  assumes "edb_inv d"
  shows "same_listing (scan q (live_rows d)) (getEntities q d)"
proof -
  have s: "getEntities q (no_index d) = scan q (live_rows d)"
    by (cases q; cases "query_may_match q")
       (auto simp: getEntities_def getAllEntities_def scan_def bytesEqual_eq list_ex_iff intro!: filter_cong split: option.splits)
  show ?thesis
  proof (cases "edb_useIndex d")
    case True
    from query_scan [OF assms this, of q] show ?thesis
      unfolding s by (cases "getEntities q d"; cases "scan q (live_rows d)") auto
  next
    case False
    then have "no_index d = d" by (cases d) (simp add: no_index_def)
    then have "getEntities q d = scan q (live_rows d)" using s by simp
    moreover have "query_may_match q \<noteq> Throw \<and> query_may_match q \<noteq> Hang"
      by (cases q) (simp_all add: tagSpecMayMatch_def dateSpecMayMatch_def split: TagSpec.split DateSpec.split)
    ultimately show ?thesis by (cases "query_may_match q") (simp_all add: scan_def)
  qed
qed

lemma startsWith_append: "startsWith t pre \<longleftrightarrow> (\<exists>r. t = pre @ r)"
  unfolding startsWith_def by (metis append_take_drop_id append_eq_conv_conj)

lemma str_less_append [simp]: "str_less (p @ a) (p @ b) = str_less a b"
  by (induction p) auto

lemma str_less_extend: "\<not> str_less (p @ a) p"
  using str_less_append [of p a "[]"] by simp

lemma prefix_in_range:
  assumes "startsWith t pre" "0xffff \<notin> set t"
  shows "\<not> str_less t pre" "\<not> str_less (pre @ [0xffff]) t"
proof -
  obtain r where t: "t = pre @ r" using assms(1) by (auto simp: startsWith_append)
  have "\<not> str_less (pre @ r) (pre @ [])" by (simp only: str_less_append) simp
  then show "\<not> str_less t pre" using t by simp
  have "\<not> (0xffff :: 16 word) < c" for c
    using uint_lt2p [of c] by (simp add: word_less_def)
  then have "\<not> str_less [0xffff] r" using t assms(2) by (cases r) auto
  then show "\<not> str_less (pre @ [0xffff]) t" by (simp only: t str_less_append) simp
qed

text \<open>A key range that is computed and makes the query throw.\<close>

fun key_range_throws :: "EntitiesQuery \<Rightarrow> bool" where
  "key_range_throws (QTag _ spec) = (tagSpecMayMatch spec = Ok True \<and> tagIdbRange spec = Throw)"
| "key_range_throws (QUpdatedAt _ spec) = (dateSpecMayMatch spec = Ok True \<and> dateIdbRange spec = Throw)"
| "key_range_throws _ = False"

lemma date_range_matches:
  assumes "dateIdbRange spec = Ok kr"
  shows "(t \<noteq> None \<and> in_range (<) kr (the t)) = dateMatches t spec"
  using assms
  by (cases t) (auto simp: dateIdbRange_def range_only_def range_bound_def in_range_def dateMatches_def dateInRange_def not_less date_eq_def date_less_def date_le_def
      split: DateSpec.splits option.splits if_splits)

lemma tag_range_matches:
  assumes "tagIdbRange (TagRange r) = Ok kr"
  shows "in_range str_less kr t = tagMatches t (TagRange r)"
  using assms by (auto simp: tagIdbRange_def range_bound_def in_range_def tagMatches_def tagInRange_def split: if_splits)

lemma tag_exact_matches: "tagIdbRange (TagExact g) = Ok kr \<Longrightarrow> in_range str_less kr t = tagMatches t (TagExact g)"
  using str_less_total [of t g] by (auto simp: tagIdbRange_def range_only_def in_range_def tagMatches_def)

lemma tag_prefix_range: "tagIdbRange (TagPrefix pre) = Ok kr \<Longrightarrow> startsWith t pre \<Longrightarrow> 0xffff \<notin> set t \<Longrightarrow> in_range str_less kr t"
  using prefix_in_range [of t pre] by (auto simp: tagIdbRange_def range_bound_def in_range_def split: if_splits)

definition queryable :: "IEntity \<Rightarrow> bool" where
  "queryable x = (ent_createdAt x \<noteq> None \<and> (case ent_tags x of None \<Rightarrow> True | Some ts \<Rightarrow> \<forall>t \<in> set ts. 0xffff \<notin> set t))"

lemma tag_query_lives:
  assumes ok: "rows_ok rows" and kr: "tagIdbRange spec = Ok kr" and fine: "\<forall>x \<in> set (lives rows). queryable x"
    and may: "tagSpecMayMatch spec = Ok True"
  shows "mset (filterTagHits (getAll_tag kr rows) ty spec) = mset (filter (scan_matches (QTag ty spec)) (lives rows))"
proof -
  let ?xs = "tag_entries kr rows"
  have E: "row_fine (Live x)" "x \<in> set (lives rows)" if "x \<in> set ?xs" for x
    using that stored_lives(2) [OF ok] unfolding set_tag_entries by blast+
  have inj: "inj_on ent_eid (set (lives rows))" using stored_lives(4) [OF ok] by (simp add: distinct_map)
  have dl: "distinct (lives rows)" using stored_lives(4) [OF ok] by (simp add: distinct_map)
  have sub: "set ?xs \<subseteq> set (lives rows)" using E by blast
  note seen = filter_seen_lives [of "set (lives rows)" ?xs ty _ "[]", OF stored_lives(2) [OF ok] inj sub]
  let ?hits = "filterTagHits (map entityToStored ?xs) ty spec"
  have "distinct ?hits \<and> set ?hits = set (filter (scan_matches (QTag ty spec)) (lives rows))"
  proof (cases spec)
    case (TagExact g)
    note m = tag_exact_matches [OF kr [unfolded TagExact]]
    have "distinct ?xs" by (rule distinct_tag_entries [OF ok]) (simp add: m tagMatches_def)
    moreover have "map storedToEntity (filter (\<lambda>s. se_typ s = ty) (map entityToStored l)) = filter (\<lambda>x. ent_type x = ty) l"
      if "set l \<subseteq> set ?xs" for l
      using that by (induction l) (auto simp: storedToEntity_stored E)
    ultimately show ?thesis using TagExact m by (auto simp: filterTagHits_def set_tag_entries)
  next
    case (TagRange r)
    from seen [of None] show ?thesis
      using TagRange tag_range_matches [OF kr [unfolded TagRange]]
      by (auto simp: filterTagHits_def set_tag_entries prefix_ok_def)
  next
    case (TagPrefix pre)
    have pre: "tagMatches t (TagPrefix pre) = startsWith t pre" for t
      using may TagPrefix by (auto simp: tagMatches_def tagSpecMayMatch_def)
    have "\<exists>t \<in> set ts. in_range str_less kr t" if "x \<in> set (lives rows)" "ent_tags x = Some ts" "t \<in> set ts" "startsWith t pre" for x ts t
      using tag_prefix_range [OF kr [unfolded TagPrefix] that(4)] bspec [OF fine that(1)] that(2,3) by (auto simp: queryable_def)
    with seen [of "Some pre"] show ?thesis
      using TagPrefix pre by (auto simp: filterTagHits_def set_tag_entries prefix_ok_def has_prefix_def list_ex_iff)
  qed
  then show ?thesis
    using dl getAll_tag_lives [OF ok, of kr] by (metis set_eq_iff_mset_eq_distinct distinct_filter)
qed

lemma idb_scan:
  assumes ok: "rows_ok (ei_rows e)" and fine: "\<forall>x \<in> set (lives (ei_rows e)). queryable x" and thr: "\<not> key_range_throws q"
  shows "same_listing (snd (idb_getEntities True False q e)) (scan q (lives (ei_rows e)))"
proof (cases q)
  case (QType ty)
  have "map storedToEntity (filter (\<lambda>s. se_typ s = ty \<and> se_crd s \<noteq> None) (stored_ents (ei_rows e))) =
      filter (scan_matches q) (lives (ei_rows e))"
    by (rule select_lives [OF ok]) (use fine QType in \<open>auto simp: queryable_def\<close>)
  then show ?thesis using QType by (simp add: getAllOfType_def with_db_up request_def getAll_type_def scan_def mset_map_sort del: mset_map scan_matches.simps)
next
  case (QPid ty p)
  have "map storedToEntity (filter (\<lambda>s. se_typ s = ty \<and> se_pid s = Some (btob64 p)) (stored_ents (ei_rows e))) =
      filter (scan_matches q) (lives (ei_rows e))"
    by (rule select_lives [OF ok]) (use QPid in auto)
  then show ?thesis using QPid by (simp add: with_db_up request_def getAll_parent_def scan_def)
next
  case (QTag ty spec)
  show ?thesis
  proof (cases "tagSpecMayMatch spec = Ok True")
    case True
    then obtain kr where kr: "tagIdbRange spec = Ok kr"
      using thr QTag by (auto simp: tagIdbRange_def range_bound_def split: TagSpec.splits if_splits)
    show ?thesis using tag_query_lives [OF ok kr fine True] QTag True kr
      by (simp add: getByTag_def with_db_up request_def scan_def)
  qed (use QTag in \<open>auto simp: getByTag_def scan_def tagSpecMayMatch_def split: TagSpec.splits if_splits\<close>)
next
  case (QUpdatedAt ty spec)
  show ?thesis
  proof (cases "dateSpecMayMatch spec = Ok True")
    case True
    then obtain kr where kr: "dateIdbRange spec = Ok kr"
      using thr QUpdatedAt by (auto simp: dateIdbRange_def range_bound_def split: DateSpec.splits option.splits if_splits)
    have "map storedToEntity (filter (\<lambda>s. se_typ s = ty \<and> se_upd s \<noteq> None \<and> in_range (<) kr (the (se_upd s))) (stored_ents (ei_rows e))) =
        filter (scan_matches q) (lives (ei_rows e))"
      by (rule select_lives [OF ok]) (use QUpdatedAt date_range_matches [OF kr] in auto)
    then show ?thesis using QUpdatedAt True kr
      by (simp add: getByUpdatedAt_def with_db_up request_def scan_def getAll_updated_def mset_map_sort del: mset_map scan_matches.simps)
  qed (use QUpdatedAt in \<open>auto simp: getByUpdatedAt_def scan_def dateSpecMayMatch_def split: DateSpec.splits if_splits\<close>)
qed

lemma query_may_match_returns: "query_may_match q \<noteq> Throw \<and> query_may_match q \<noteq> Hang"
  by (cases q) (simp_all add: tagSpecMayMatch_def dateSpecMayMatch_def split: TagSpec.split DateSpec.split)

lemma same_listing_trans: "same_listing a b \<Longrightarrow> same_listing b c \<Longrightarrow> same_listing a c"
  by (cases a; cases b; cases c) auto

section \<open>A failing read\<close>

lemma aborted_stays: "ib_aborted b \<Longrightarrow> foldl (read_group f rows) b gs = b"
  by (induction gs) (simp_all add: read_group_def Let_def)

lemma mark_group_nth:
  "length (mark_group st grp rs) = length rs \<and>
   (n < length rs \<longrightarrow> mark_group st grp rs ! n = (if n \<in> snd ` set grp then st else rs ! n))"
  unfolding mark_group_def
proof (induction grp arbitrary: rs)
  case (Cons it grp)
  from Cons [of "rs[snd it := st]"] show ?case by (cases "n = snd it") auto
qed simp

lemma group_ops_head:
  obtains gs where "group_ops (op # ops) =
     (op_key op, filter (\<lambda>it. op_key (fst it) = op_key op) (zip (op # ops) [0..<length (op # ops)])) # gs"
proof -
  have "fst (hd (foldl add_group gs items)) = fst (hd gs) \<and> foldl add_group gs items \<noteq> []" if "gs \<noteq> []" for gs items
    using that
  proof (induction items arbitrary: gs)
    case (Cons it items)
    obtain k v gs' where gs: "gs = (k, v) # gs'" using Cons.prems by (cases gs) auto
    have "fst (hd (add_group gs it)) = k \<and> add_group gs it \<noteq> []"
      by (auto simp: add_group_def gs Let_def split: option.split)
    with Cons.IH [of "add_group gs it"] show ?case by (simp add: gs)
  qed simp
  moreover have "group_ops (op # ops) = foldl add_group [(op_key op, [(op, 0)])] (zip ops [1..<length (op # ops)])"
    by (simp add: group_ops_def upt_conv_Cons add_group_def op_key_def Let_def del: upt_Suc)
  ultimately obtain grp gs where g: "group_ops (op # ops) = (op_key op, grp) # gs"
    by (metis fst_conv list.collapse list.sel(1) not_Cons_self2 prod.collapse)
  from group_of(1) [of "op_key op" grp "op # ops"] g that show ?thesis by simp
qed

lemma abort_first:
  assumes "getFails (op_key op)"
  shows "ei_rows (fst (idb_apply True getFails putFails (op # ops) e)) = ei_rows e"
    and "n < length (op # ops) \<Longrightarrow> ar_stats (snd (idb_apply True getFails putFails (op # ops) e)) ! n =
        (if op_key ((op # ops) ! n) = op_key op then DatabaseError else Success)"
proof -
  let ?grp = "filter (\<lambda>it. op_key (fst it) = op_key op) (zip (op # ops) [0..<length (op # ops)])"
  let ?b0 = "\<lparr>ib_results = replicate (length (op # ops)) Success, ib_types = [], ib_eids = [], ib_puts = [], ib_aborted = False\<rparr>"
  obtain gs where gs: "group_ops (op # ops) = (op_key op, ?grp) # gs" by (rule group_ops_head)
  have "?grp \<noteq> []" using group_of(2) [of "op_key op" ?grp "op # ops"] gs by (metis list.set_intros(1))
  then have b: "foldl (read_group getFails rows) ?b0 (group_ops (op # ops)) =
      ?b0\<lparr>ib_results := mark_group DatabaseError ?grp (replicate (length (op # ops)) Success), ib_aborted := True\<rparr>" for rows
    unfolding gs by (simp add: read_group_def Let_def assms aborted_stays Suc_le_eq not_less_eq del: filter.simps zip_Cons_Cons)
  define e0 where "e0 = fst (ensureDb True e)"
  have e0: "ensureDb True e = (e0, True)" "ei_rows e0 = ei_rows e" by (simp_all add: e0_def ensureDb_def)
  have a: "idb_apply True getFails putFails (op # ops) e =
      (e0, \<lparr>ar_stats = mark_group DatabaseError ?grp (replicate (length (op # ops)) Success), ar_types = [], ar_eids = []\<rparr>)"
    unfolding idb_apply_def e0(1) Let_def b by simp
  then show "ei_rows (fst (idb_apply True getFails putFails (op # ops) e)) = ei_rows e" by (simp add: e0)
  assume n: "n < length (op # ops)"
  have "n \<in> snd ` set ?grp \<longleftrightarrow> op_key ((op # ops) ! n) = op_key op"
    using n by (force simp: in_set_zip image_iff simp del: zip_Cons_Cons filter.simps upt_Suc)
  then show "ar_stats (snd (idb_apply True getFails putFails (op # ops) e)) ! n =
        (if op_key ((op # ops) ! n) = op_key op then DatabaseError else Success)"
    using mark_group_nth [of DatabaseError ?grp "replicate (length (op # ops)) Success" n] n unfolding a
    by (simp del: zip_Cons_Cons filter.simps upt_Suc replicate_Suc)
qed
section \<open>Properties\<close>

text \<open>A new database, and the same rows in both.\<close>

definition EntIDB_new :: EntIDB where
  "EntIDB_new = \<lparr>ei_rows = [], ei_connected = False\<rparr>"

lemma same_rows_new: "same_rows EntIDB_new (EntDBMemory_new [] b)"
  using new_inv [of "[]" b]
  by (simp add: same_rows_def EntIDB_new_def rows_ok_def key_ordered_def row_at_def getRow_def EntDBMemory_new_def)

text \<open>C5: Without failures, a batch of operations applied over IndexedDB (grouped by entity, run in memory and persisted
  once per entity, in one transaction) is reported with the same statuses as the memory database gives, one operation after the
  other, and leaves the same rows: the two databases stay equal under every batch whose parent ids are not empty.\<close>

theorem idb_apply_refines:
  assumes "same_rows e d" "list_all op_fine ops"
  shows "same_rows (fst (idb_apply True (\<lambda>_. False) (\<lambda>_. False) ops e)) (fst (edb_apply ops d))
    \<and> ar_stats (snd (idb_apply True (\<lambda>_. False) (\<lambda>_. False) ops e)) = ar_stats (snd (edb_apply ops d))"
proof -
  have s: "rows_ok (ei_rows e)" "edb_inv d" "\<And>i. row_at (ei_rows e) (btob64 i) = getRow i d"
    using assms(1) by (auto simp: same_rows_def)
  note a = idb_apply_ok [OF s(1) assms(2)]
  show ?thesis using a(1,2,3) s(2,3) apply_inv by (simp add: same_rows_def apply_row apply_stats_eq)
qed

text \<open>C21: When both databases hold the same rows, every query over the IndexedDB indexes (by type, by parent, by
  exact tag, tag range or tag prefix, by exact date or date range) fails or answers exactly as the memory database does,
  with the same entities and each as often, provided that the query's key range does not throw, that live rows have a valid creation
  date and that no tag holds the code unit 0xffff.\<close>

theorem idb_queries_agree:
  assumes "same_rows e d" "\<forall>x \<in> set (lives (ei_rows e)). queryable x" "\<not> key_range_throws q"
  shows "same_listing (snd (idb_getEntities True False q e)) (getEntities q d)"
proof -
  have d: "rows_ok (ei_rows e)" "edb_inv d" using assms(1) by (simp_all add: same_rows_def)
  have "same_listing (scan q (lives (ei_rows e))) (scan q (live_rows d))"
    using mset_select [OF same_lives [OF assms(1)], of "scan_matches q"] query_may_match_returns [of q]
    by (cases "query_may_match q") (simp_all add: scan_def del: mset_filter)
  from same_listing_trans [OF same_listing_trans [OF idb_scan [OF d(1) assms(2,3)] this] memory_scan [OF d(2)]]
  show ?thesis .
qed

text \<open>A query whose key range is degenerate (a range whose two ends are equal with one of them excluded, or a date
  that is not valid) throws over IndexedDB, whatever is stored, while the memory database answers it with
  the empty list.\<close>

theorem idb_degenerate_range:
  assumes "key_range_throws q" "edb_inv d"
  shows "snd (idb_getEntities True fails q e) = Throw \<and> getEntities q d = Ok []"
proof -
  have "\<not> scan_matches q x" for x
    using assms(1) str_key.asym str_less_extend
    by (cases q)
       (auto simp: tagIdbRange_def dateIdbRange_def range_bound_def tagSpecMayMatch_def dateSpecMayMatch_def
          tagMatches_def tagInRange_def dateMatches_def dateInRange_def date_eq_def date_less_def date_le_def
        split: TagSpec.splits DateSpec.splits option.splits if_splits)
  moreover have "query_may_match q = Ok True" using assms(1) by (cases q) auto
  ultimately have "scan q (live_rows d) = Ok []" by (simp add: scan_def)
  with memory_scan [OF assms(2), of q] have "getEntities q d = Ok []" by (cases "getEntities q d") auto
  moreover have "snd (idb_getEntities True fails q e) = Throw"
    using assms(1) by (cases q) (auto simp: getByTag_def getByUpdatedAt_def with_db_up)
  ultimately show ?thesis by simp
qed

text \<open>C22: When the read of the first entity of a batch fails, the transaction is aborted and nothing is stored,
  yet every operation on another entity is reported with the status Success: only those on the first entity are reported as
  failed.\<close>

theorem idb_abort_misreports:
  assumes "getFails (op_key op)" "n < length (op # ops)"
  shows "ei_rows (fst (idb_apply True getFails putFails (op # ops) e)) = ei_rows e
    \<and> ar_stats (snd (idb_apply True getFails putFails (op # ops) e)) ! n =
        (if op_key ((op # ops) ! n) = op_key op then DatabaseError else Success)"
  using abort_first [where getFails = getFails and op = op] assms by simp


section \<open>Witnesses\<close>

definition tagged_op :: IOp where
  "tagged_op = MutateOp [1, 5, 0] 30 3 [0x74] (Some [7]) (Some [[0x61], [0x61, 0x62]]) (Some [9])"

definition tagged_ent :: IEntity where
  "tagged_ent = \<lparr>ent_type = [0x74], ent_eid = [1, 5, 0], ent_updatedAt = Some 30, ent_createdAt = Some 0, ent_ctr = 3,
     ent_pid = Some [7], ent_tags = Some [[0x61], [0x61, 0x62]], ent_body = Some [9], ent_rlm = None\<rparr>"

definition sample_idb :: EntIDB where
  "sample_idb = \<lparr>ei_rows = [(btob64 [1, 5, 0], rowToStored (Live tagged_ent))], ei_connected = True\<rparr>"

definition sample_mem :: EntDBMemory where
  "sample_mem = put (Live tagged_ent) (EntDBMemory_new [] True)"

lemma sample_fine: "row_fine (Live tagged_ent)"
  by (simp add: row_fine_def tagged_ent_def)

lemma sample_same: "same_rows sample_idb sample_mem"
proof -
  have "rows_ok (ei_rows sample_idb)"
    using sample_fine
    by (auto simp: sample_idb_def rows_ok_def key_ordered_def tagged_ent_def intro!: exI [where x = "Live tagged_ent"])
  moreover have "edb_inv sample_mem" by (simp add: sample_mem_def put_inv new_inv)
  moreover have "row_at (ei_rows sample_idb) (btob64 i) = getRow i sample_mem" for i
  proof -
    have "getRow i (EntDBMemory_new [] True) = None" by (simp add: getRow_def EntDBMemory_new_def)
    moreover have "plain (Live tagged_ent)" by code_simp
    ultimately show ?thesis using storedToEntity_stored [OF sample_fine]
      by (auto simp: sample_idb_def sample_mem_def row_at_def getRow_put tagged_ent_def)
  qed
  ultimately show ?thesis by (simp add: same_rows_def)
qed

lemma sample_queryable: "\<forall>x \<in> set (lives (ei_rows sample_idb)). queryable x"
  using storedToEntity_stored [OF sample_fine] by (simp add: lives_def sample_idb_def queryable_def tagged_ent_def)

theorem idb_apply_refines_witness:
  "same_rows (fst (idb_apply True (\<lambda>_. False) (\<lambda>_. False) [tagged_op, DeleteOp [1, 5, 0] 40 4] sample_idb))
     (fst (edb_apply [tagged_op, DeleteOp [1, 5, 0] 40 4] sample_mem))"
  using idb_apply_refines [OF sample_same, of "[tagged_op, DeleteOp [1, 5, 0] 40 4]"] by (simp add: op_fine_def tagged_op_def)

theorem idb_queries_agree_witness:
  "same_listing (snd (idb_getEntities True False (QTag [0x74] (TagPrefix [0x61])) sample_idb))
     (getEntities (QTag [0x74] (TagPrefix [0x61])) sample_mem)"
  by (rule idb_queries_agree [OF sample_same sample_queryable]) code_simp

theorem idb_degenerate_range_witness:
  "let q = QTag [0x74] (TagRange \<lparr>tr_start = [0x61], tr_end = [0x61], tr_excludeStart = False, tr_excludeEnd = True\<rparr>)
   in snd (idb_getEntities True False q sample_idb) = Throw \<and> getEntities q sample_mem = Ok []"
  unfolding Let_def by (rule idb_degenerate_range) (code_simp, use sample_same in \<open>simp add: same_rows_def\<close>)

theorem idb_abort_misreports_witness:
  "ar_stats (snd (idb_apply True (\<lambda>k. k = btob64 [1, 5, 0]) (\<lambda>_. False) [tagged_op, DeleteOp [2, 5, 0] 40 4] EntIDB_new)) ! 1 = Success"
  using idb_abort_misreports [of "\<lambda>k. k = btob64 [1, 5, 0]" tagged_op 1 "[DeleteOp [2, 5, 0] 40 4]" "\<lambda>_. False" EntIDB_new]
  by (simp add: tagged_op_def op_key_def)


end
