(* ===== verification/IDBStores.thy ===== *)
theory IDBStores
  imports IndexedDB
begin

text \<open>
  The client's stores over IndexedDB (\<^verbatim>\<open>web/src/stores/idb\<close>): messages, queues, hosts with their cursors in a table
  of their own, realm counters, and the store that mounts the database of an account and serves empty
  tables until then. The failures of single inserts of messages are an argument; every other request succeeds.

  The store keeps the contract \<open>client_store\<close> that synchronisation relies on. That it does what the memory store does is in
  \<open>StoreRefine\<close>.
\<close>

section \<open>Messages (msgs.ts)\<close>

type_synonym message_table = "(jsstr \<times> IStoredMessageData) list"

text \<open>
  A failing insert does not undo the others, but its error still reaches the handler of the
  transaction, which marks all of them.
\<close>

definition idb_msg_add :: "(jsstr \<Rightarrow> bool) \<Rightarrow> IStorableMessage list \<Rightarrow> message_table \<Rightarrow> message_table \<times> status list" where
  "idb_msg_add fails messages m =
     (foldl (\<lambda>m msg. let keyB64 = btob64 (st_key msg)
                     in if fails keyB64 then m else os_put str_less keyB64 (omitDefaultRealm_row (st_data msg)) m) m messages,
      if list_ex (\<lambda>msg. fails (btob64 (st_key msg))) messages then map (\<lambda>_. DatabaseError) messages
      else map (\<lambda>_. Success) messages)"

definition idb_msg_del :: "bytes list \<Rightarrow> message_table \<Rightarrow> message_table" where
  "idb_msg_del keys m = foldl (\<lambda>m hash. map_delete (btob64 hash) m) m keys"

definition idb_msg_get :: "prims \<Rightarrow> bytes \<Rightarrow> message_table \<Rightarrow> IStoredMessage option" where
  "idb_msg_get p key m =
     (case map_get m (btob64 key) of None \<Rightarrow> None | Some data \<Rightarrow> Some (toStoredMessage p key data True))"

definition idb_msg_has :: "bytes \<Rightarrow> message_table \<Rightarrow> bool" where
  "idb_msg_has key m = map_has m (btob64 key)"

text \<open>The index over \<open>apld\<close> has the rows whose value is a string: rows without one, or with a legacy boolean, are not in it.\<close>

definition apld_index :: "ApldState \<Rightarrow> message_table \<Rightarrow> message_table" where
  "apld_index a m = filter (\<lambda>(_, data). sd_apld data = Some (RawApld a)) m"

definition idb_msg_list :: "prims \<Rightarrow> ApldState option \<Rightarrow> bool \<Rightarrow> message_table \<Rightarrow> IStoredMessage list" where
  "idb_msg_list p apld body m =
     map (\<lambda>(hash, data). toStoredMessage p hash data body)
       (msg_entries (case apld of None \<Rightarrow> m | Some a \<Rightarrow> apld_index a m))"

definition idb_msg_count :: "ApldState option \<Rightarrow> message_table \<Rightarrow> nat" where
  "idb_msg_count apld m = length (case apld of None \<Rightarrow> m | Some a \<Rightarrow> apld_index a m)"

definition idb_msg_listKeys :: "message_table \<Rightarrow> bytes list" where
  "idb_msg_listKeys m = map fst (msg_entries m)"

definition idb_msg_last :: "prims \<Rightarrow> bytes \<Rightarrow> message_table \<Rightarrow> IStoredMessage option" where
  "idb_msg_last p eid m =
     map_option (\<lambda>(hash, data). toStoredMessage p hash data True)
       (foldl (\<lambda>latest (hash, data).
            if \<not> bytesEqual eid (sd_eid data) then latest
            else case latest of
              None \<Rightarrow> Some (hash, data)
            | Some l \<Rightarrow> if later_row data (snd l) then Some (hash, data) else latest)
          None (msg_entries m))"

text \<open>All reads are requested before the first write.\<close>

definition idb_msg_mark :: "ApldState \<Rightarrow> (bytes \<times> status option) list \<Rightarrow> message_table \<Rightarrow> message_table" where
  "idb_msg_mark apld entries m =
     foldl (\<lambda>t (key, err). case map_get m (btob64 key) of
              None \<Rightarrow> t | Some data \<Rightarrow> os_put str_less (btob64 key) (setApld apld err data) t) m entries"

definition idb_msg_markApplied :: "bytes list \<Rightarrow> message_table \<Rightarrow> message_table" where
  "idb_msg_markApplied keys m = idb_msg_mark APLD_APPLIED (map (\<lambda>k. (k, None)) keys) m"

definition idb_msg_markFailed :: "(bytes \<times> status) list \<Rightarrow> message_table \<Rightarrow> message_table" where
  "idb_msg_markFailed entries m = idb_msg_mark APLD_ERROR (map (\<lambda>(k, e). (k, Some e)) entries) m"

section \<open>Queues (uplds.ts, dnlds.ts)\<close>

type_synonym upload_table = "((jsstr \<times> jsstr) \<times> unit) list"

definition idb_up_enq :: "jsstr \<Rightarrow> bytes list \<Rightarrow> upload_table \<Rightarrow> upload_table" where
  "idb_up_enq host hshs q = foldl (\<lambda>q hash. os_put pair_key_less (host, btoh hash) () q) q hshs"

definition idb_up_deq :: "jsstr \<Rightarrow> bytes list \<Rightarrow> upload_table \<Rightarrow> upload_table" where
  "idb_up_deq host hshs q = foldl (\<lambda>q hash. map_delete (host, btoh hash) q) q hshs"

definition idb_up_list :: "jsstr \<Rightarrow> upload_table \<Rightarrow> bytes list" where
  "idb_up_list host q =
     List.map_filter (\<lambda>hex. case htob hex of Ok h \<Rightarrow> Some h | _ \<Rightarrow> None)
       (map (\<lambda>item. snd (fst item)) (filter (\<lambda>item. fst (fst item) = host) q))"

definition idb_up_count :: "upload_table \<Rightarrow> nat" where
  "idb_up_count q = length q"

type_synonym download_table = "(jsstr \<times> IDownloadMessage) list"

definition idb_dn_enq :: "IDownloadMessage list \<Rightarrow> download_table \<Rightarrow> download_table" where
  "idb_dn_enq msgs q = foldl (\<lambda>q msg. os_put str_less (downloadKey (dm_host msg) (dm_seq msg) (dm_realm msg)) msg q) q msgs"

definition idb_dn_deq :: "jsstr \<Rightarrow> int list \<Rightarrow> IKDM option \<Rightarrow> download_table \<Rightarrow> download_table" where
  "idb_dn_deq host seqs realm q = foldl (\<lambda>q seq. map_delete (downloadKey host seq realm) q) q seqs"

definition idb_dn_list :: "download_table \<Rightarrow> IDownloadMessage list" where
  "idb_dn_list q = map snd q"

definition idb_dn_count :: "download_table \<Rightarrow> nat" where
  "idb_dn_count q = length q"

section \<open>Hosts (hosts.ts)\<close>

text \<open>The two optional fields of the metadata are written together by the client, as one value.\<close>

record StoredHost =
  sh_label :: jsstr
  sh_handle :: jsstr
  sh_idx :: "int option"
  sh_meta :: "IHostMetadata option"

definition storedHost :: "'a IHostConnectionInfo_scheme \<Rightarrow> IHostMetadata option \<Rightarrow> StoredHost" where
  "storedHost info meta = \<lparr>sh_label = hi_label info, sh_handle = hi_handle info, sh_idx = hi_idx info, sh_meta = meta\<rparr>"

type_synonym seq_row = "(jsstr \<times> jsstr \<times> int) \<times> int"

definition isCursor :: "seq_row \<Rightarrow> bool" where
  "isCursor row = (snd row \<ge> 0)"

definition cursor_of_row :: "seq_row \<Rightarrow> RealmCursor" where
  "cursor_of_row row =
     (case row of ((_, label, ix), lastSeq) \<Rightarrow>
        \<lparr>rc_realm = \<lparr>kdm_label = label, kdm_index = ix\<rparr>, rc_lastSeq = lastSeq\<rparr>)"

definition cursorsOf :: "seq_row list \<Rightarrow> RealmCursor list" where
  "cursorsOf raw = map cursor_of_row (filter isCursor raw)"

definition byHost :: "seq_row list \<Rightarrow> (jsstr, RealmCursor list) jsmap" where
  "byHost raw =
     foldl (\<lambda>out item. if \<not> isCursor item then out
                       else map_set (fst (fst item))
                              ((case map_get out (fst (fst item)) of None \<Rightarrow> [] | Some list \<Rightarrow> list) @ [cursor_of_row item]) out)
       [] raw"

definition idbRowToHostRow :: "StoredHost \<Rightarrow> RealmCursor list \<Rightarrow> IHostRow" where
  "idbRowToHostRow row cursors =
     \<lparr>hi_handle = sh_handle row, hi_label = sh_label row, hi_idx = sh_idx row, hr_meta = sh_meta row,
      hr_cursor = projectCursors cursors\<rparr>"

record HostTables =
  ht_hosts :: "(jsstr \<times> StoredHost) list"
  ht_seqs :: "seq_row list"

text \<open>The index \<open>host\<close> of the cursor table.\<close>

definition seqs_of_host :: "jsstr \<Rightarrow> seq_row list \<Rightarrow> seq_row list" where
  "seqs_of_host label seqs = filter (\<lambda>row. fst (fst row) = label) seqs"

definition drop_seqs :: "jsstr \<Rightarrow> seq_row list \<Rightarrow> seq_row list" where
  "drop_seqs label seqs = foldl (\<lambda>m key. map_delete key m) seqs (map fst (seqs_of_host label seqs))"

definition idb_ho_get :: "jsstr \<Rightarrow> HostTables \<Rightarrow> IHostRow option" where
  "idb_ho_get label t =
     (case map_get (ht_hosts t) label of
        None \<Rightarrow> None
      | Some row \<Rightarrow> Some (idbRowToHostRow row (cursorsOf (seqs_of_host label (ht_seqs t)))))"

definition idb_ho_add :: "'a IHostConnectionInfo_scheme \<Rightarrow> HostTables \<Rightarrow> HostTables" where
  "idb_ho_add info t =
     (let prev = idb_ho_get (hi_label info) t;
          same = (case prev of None \<Rightarrow> False
                  | Some p \<Rightarrow> hi_handle p = hi_handle info \<and> idx_or_zero (hi_idx p) = idx_or_zero (hi_idx info));
          row = storedHost info (if same then Option.bind prev hr_meta else None)
      in if same then t\<lparr>ht_hosts := os_put str_less (hi_label info) row (ht_hosts t)\<rparr>
         else t\<lparr>ht_seqs := drop_seqs (hi_label info) (ht_seqs t), ht_hosts := os_put str_less (hi_label info) row (ht_hosts t)\<rparr>)"

definition idb_ho_recordSeqs :: "jsstr \<Rightarrow> HostSeqsUpdate \<Rightarrow> IKDM option \<Rightarrow> HostTables \<Rightarrow> HostTables" where
  "idb_ho_recordSeqs label u realm t =
     (let r = (case realm of None \<Rightarrow> nullKDM | Some r \<Rightarrow> r); key = (label, kdm_label r, kdm_index r)
      in if \<not> map_has (ht_hosts t) label then t
         else
           (let cur = (case map_get (ht_seqs t) key of None \<Rightarrow> 0 | Some n \<Rightarrow> if isCursor (key, n) then n else 0)
            in case nextCursor cur u of None \<Rightarrow> t
               | Some next \<Rightarrow> t\<lparr>ht_seqs := os_put triple_key_less key next (ht_seqs t)\<rparr>))"

definition idb_ho_touch :: "jsstr \<Rightarrow> int \<Rightarrow> IKDM option \<Rightarrow> HostTables \<Rightarrow> HostTables" where
  "idb_ho_touch label seq realm t = idb_ho_recordSeqs label \<lparr>hu_lastSeq = Some seq, hu_setLastSeq = None\<rparr> realm t"

definition idb_ho_set :: "jsstr \<Rightarrow> IHostMetadata \<Rightarrow> HostTables \<Rightarrow> HostTables \<times> status" where
  "idb_ho_set label meta t =
     (case idb_ho_get label t of
        None \<Rightarrow> (t, NotFound)
      | Some row \<Rightarrow> (t\<lparr>ht_hosts := os_put str_less (hi_label row) (storedHost row (Some meta)) (ht_hosts t)\<rparr>, Success))"

definition idb_ho_del :: "jsstr \<Rightarrow> HostTables \<Rightarrow> HostTables" where
  "idb_ho_del label t = t\<lparr>ht_hosts := map_delete label (ht_hosts t), ht_seqs := drop_seqs label (ht_seqs t)\<rparr>"

definition idb_ho_list :: "HostTables \<Rightarrow> IHostRow list" where
  "idb_ho_list t =
     (let grouped = byHost (ht_seqs t)
      in map (\<lambda>(_, row). idbRowToHostRow row (case map_get grouped (sh_label row) of None \<Rightarrow> [] | Some l \<Rightarrow> l)) (ht_hosts t))"

section \<open>Realm counters (realms.ts)\<close>

type_synonym realm_table = "(jsstr \<times> IRealm) list"

definition idb_rl_list :: "realm_table \<Rightarrow> IRealm list" where
  "idb_rl_list t = List.map_filter decodeRealm (map snd t)"

definition idb_rl_get :: "jsstr \<Rightarrow> realm_table \<Rightarrow> IRealm option" where
  "idb_rl_get label t = (case map_get t label of None \<Rightarrow> None | Some row \<Rightarrow> decodeRealm row)"

definition idb_rl_put :: "jsstr \<Rightarrow> int \<Rightarrow> realm_table \<Rightarrow> realm_table \<times> status" where
  "idb_rl_put label idx t =
     (case advanceRealm label (idb_rl_get label t) idx of
        Ok next \<Rightarrow> (os_put str_less (rl_label next) next t, Success)
      | r \<Rightarrow> (t, status_of r))"

section \<open>The store (store.ts)\<close>

record Tables =
  tb_realms :: realm_table
  tb_hosts :: HostTables
  tb_uploads :: upload_table
  tb_downloads :: download_table
  tb_messages :: message_table

definition Tables_new :: Tables where
  "Tables_new = \<lparr>tb_realms = [], tb_hosts = \<lparr>ht_hosts = [], ht_seqs = []\<rparr>, tb_uploads = [], tb_downloads = [], tb_messages = []\<rparr>"

text \<open>All databases by name (one that was never opened has no records), and the name of the open one.\<close>

record IDBStore =
  st_db :: "jsstr option"
  st_dbs :: "jsstr \<Rightarrow> Tables"

definition IDBStore_new :: "jsstr option \<Rightarrow> IDBStore" where
  "IDBStore_new db = \<lparr>st_db = db, st_dbs = (\<lambda>_. Tables_new)\<rparr>"

definition st_mount :: "jsstr \<Rightarrow> IDBStore \<Rightarrow> IDBStore" where
  "st_mount db s = s\<lparr>st_db := Some db\<rparr>"

definition st_drop :: "IDBStore \<Rightarrow> IDBStore" where
  "st_drop s = s\<lparr>st_db := None\<rparr>"

text \<open>\<open>lookup\<close>: the account catalog, absent in a worker.\<close>

definition st_bind :: "(jsstr \<Rightarrow> jsstr option) option \<Rightarrow> jsstr \<Rightarrow> IDBStore \<Rightarrow> IDBStore \<times> status" where
  "st_bind lookup label s =
     (case lookup of
        None \<Rightarrow> (s, if st_db s = None then NotFound else Success)
      | Some look \<Rightarrow>
          (case look label of
             None \<Rightarrow> (s, NotFound)
           | Some data \<Rightarrow> if st_db s = Some data then (s, Success) else (st_mount data s, Success)))"

definition on_db :: "(Tables \<Rightarrow> Tables) \<Rightarrow> IDBStore \<Rightarrow> IDBStore" where
  "on_db f s = (case st_db s of None \<Rightarrow> s | Some db \<Rightarrow> s\<lparr>st_dbs := (st_dbs s)(db := f (st_dbs s db))\<rparr>)"

definition from_db :: "'a \<Rightarrow> (Tables \<Rightarrow> 'a) \<Rightarrow> IDBStore \<Rightarrow> 'a" where
  "from_db idle f s = (case st_db s of None \<Rightarrow> idle | Some db \<Rightarrow> f (st_dbs s db))"

definition st_wipe :: "IDBStore \<Rightarrow> IDBStore" where
  "st_wipe s = on_db (\<lambda>t. t\<lparr>tb_hosts := \<lparr>ht_hosts = [], ht_seqs = []\<rparr>, tb_uploads := [], tb_downloads := [], tb_messages := []\<rparr>) s"

definition idbStore :: "prims \<Rightarrow> (jsstr \<Rightarrow> bool) \<Rightarrow> IDBStore IStore" where
  "idbStore p fails =
     \<lparr>is_hosts_get = (\<lambda>l. from_db None (\<lambda>t. idb_ho_get l (tb_hosts t))),
      is_hosts_list = from_db [] (\<lambda>t. idb_ho_list (tb_hosts t)),
      is_hosts_recordSeqs = (\<lambda>l u r. on_db (\<lambda>t. t\<lparr>tb_hosts := idb_ho_recordSeqs l u r (tb_hosts t)\<rparr>)),
      is_up_enq = (\<lambda>h hs. on_db (\<lambda>t. t\<lparr>tb_uploads := idb_up_enq h hs (tb_uploads t)\<rparr>)),
      is_up_deq = (\<lambda>h hs. on_db (\<lambda>t. t\<lparr>tb_uploads := idb_up_deq h hs (tb_uploads t)\<rparr>)),
      is_up_list = (\<lambda>h. from_db [] (\<lambda>t. idb_up_list h (tb_uploads t))),
      is_dn_enq = (\<lambda>ms. on_db (\<lambda>t. t\<lparr>tb_downloads := idb_dn_enq ms (tb_downloads t)\<rparr>)),
      is_dn_deq = (\<lambda>h qs r. on_db (\<lambda>t. t\<lparr>tb_downloads := idb_dn_deq h qs r (tb_downloads t)\<rparr>)),
      is_dn_list = from_db [] (\<lambda>t. idb_dn_list (tb_downloads t)),
      is_msg_add = (\<lambda>ms s. (on_db (\<lambda>t. t\<lparr>tb_messages := fst (idb_msg_add fails ms (tb_messages t))\<rparr>) s,
                              from_db (map (\<lambda>_. DatabaseError) ms) (\<lambda>t. snd (idb_msg_add fails ms (tb_messages t))) s)),
      is_msg_has = (\<lambda>k. from_db False (\<lambda>t. idb_msg_has k (tb_messages t))),
      is_msg_get = (\<lambda>k. from_db None (\<lambda>t. idb_msg_get p k (tb_messages t))),
      is_msg_list = (\<lambda>a. from_db [] (\<lambda>t. idb_msg_list p a True (tb_messages t))),
      is_msg_listKeys = from_db [] (\<lambda>t. idb_msg_listKeys (tb_messages t)),
      is_msg_last = (\<lambda>i. from_db None (\<lambda>t. idb_msg_last p i (tb_messages t))),
      is_msg_markApplied = (\<lambda>ks. on_db (\<lambda>t. t\<lparr>tb_messages := idb_msg_markApplied ks (tb_messages t)\<rparr>)),
      is_msg_markFailed = (\<lambda>es. on_db (\<lambda>t. t\<lparr>tb_messages := idb_msg_markFailed es (tb_messages t)\<rparr>)),
      is_realms_list = from_db [] (\<lambda>t. idb_rl_list (tb_realms t)),
      is_realms_put = (\<lambda>l i s. (on_db (\<lambda>t. t\<lparr>tb_realms := fst (idb_rl_put l i (tb_realms t))\<rparr>) s,
                                  from_db NotFound (\<lambda>t. snd (idb_rl_put l i (tb_realms t))) s))\<rparr>"

section \<open>Laws of the tables\<close>

lemma fold_put_get: "map_get (foldl (\<lambda>m x. os_put lt (f x) (g x) m) m xs) = foldl (\<lambda>a x. a(f x \<mapsto> g x)) (map_get m) xs"
proof (induction xs arbitrary: m)
  case (Cons x xs)
  have "map_get (os_put lt (f x) (g x) m) = (map_get m)(f x \<mapsto> g x)" by (rule ext) simp
  then show ?case using Cons.IH [of "os_put lt (f x) (g x) m"] by simp
qed simp

lemma fold_put_keys: "fst ` set (foldl (\<lambda>m x. os_put lt (f x) (g x) m) m xs) = f ` set xs \<union> fst ` set m"
  by (induction xs arbitrary: m) auto

lemma fold_delete_get:
  "map_get (foldl (\<lambda>m x. map_delete (f x) m) m xs) k = (if k \<in> f ` set xs then None else map_get m k)"
  by (induction xs arbitrary: m) auto

lemma fold_delete_set: "set (foldl (\<lambda>m x. map_delete (f x) m) m xs) \<subseteq> set m"
proof (induction xs arbitrary: m)
  case (Cons x xs)
  have "set (map_delete (f x) m) \<subseteq> set m" by (auto simp: AList.delete_eq)
  then show ?case using Cons.IH [of "map_delete (f x) m"] by simp
qed simp

lemma fold_delete_ordered: "key_ordered lt m \<Longrightarrow> key_ordered lt (foldl (\<lambda>m x. map_delete (f x) m) m xs)"
  by (induction xs arbitrary: m) auto

context key_order begin

lemma fold_put_ordered: "key_ordered lt m \<Longrightarrow> key_ordered lt (foldl (\<lambda>m x. os_put lt (f x) (g x) m) m xs)"
  by (induction xs arbitrary: m) (auto intro: put_ordered)

end

text \<open>Messages.\<close>

definition b64_keys :: "message_table \<Rightarrow> bool" where
  "b64_keys m = (\<forall>k \<in> fst ` set m. \<exists>b. k = btob64 b)"

definition archive_of :: "message_table \<Rightarrow> bytes \<Rightarrow> IStoredMessageData option" where
  "archive_of m = (\<lambda>k. map_get m (btob64 k))"

lemma add_fold: "idb_msg_add (\<lambda>_. False) ms m =
    (foldl (\<lambda>m x. os_put str_less (btob64 (st_key x)) (omitDefaultRealm_row (st_data x)) m) m ms, map (\<lambda>_. Success) ms)"
  by (simp add: idb_msg_add_def list_ex_iff Let_def)

lemma fold_b64: "(\<lambda>k. foldl (\<lambda>a x. a(btob64 (f x) \<mapsto> g x)) A xs (btob64 k)) = foldl (\<lambda>a x. a(f x \<mapsto> g x)) (\<lambda>k. A (btob64 k)) xs"
proof (induction xs arbitrary: A)
  case (Cons x xs)
  have "(\<lambda>k. (A(btob64 (f x) \<mapsto> g x)) (btob64 k)) = (\<lambda>k. A (btob64 k))(f x \<mapsto> g x)" by auto
  then show ?case using Cons.IH [of "A(btob64 (f x) \<mapsto> g x)"] by simp
qed simp

lemma add_archive:
  assumes "key_ordered str_less m" "b64_keys m"
  shows "key_ordered str_less (fst (idb_msg_add (\<lambda>_. False) ms m)) \<and> b64_keys (fst (idb_msg_add (\<lambda>_. False) ms m))
    \<and> archive_of (fst (idb_msg_add (\<lambda>_. False) ms m)) =
        foldl (\<lambda>a x. a(st_key x \<mapsto> omitDefaultRealm_row (st_data x))) (archive_of m) ms"
  using assms str_key.fold_put_ordered
  by (auto simp: add_fold b64_keys_def fold_put_keys archive_of_def fold_put_get fold_b64)

text \<open>Queues.\<close>

lemma dn_enq_queue:
  "map_get (idb_dn_enq ds q) = foldl (\<lambda>q d. q(downloadKey (dm_host d) (dm_seq d) (dm_realm d) \<mapsto> d)) (map_get q) ds"
  "key_ordered str_less q \<Longrightarrow> key_ordered str_less (idb_dn_enq ds q)"
  by (simp_all add: idb_dn_enq_def fold_put_get str_key.fold_put_ordered)

lemma dn_deq_queue:
  "map_get (idb_dn_deq h qs r q) = (\<lambda>k. if k \<in> (\<lambda>q. downloadKey h q r) ` set qs then None else map_get q k)"
  "key_ordered str_less q \<Longrightarrow> key_ordered str_less (idb_dn_deq h qs r q)"
  by (simp_all add: idb_dn_deq_def fold_delete_get fold_delete_ordered fun_eq_iff)

definition hex_hashes :: "upload_table \<Rightarrow> bool" where
  "hex_hashes q = (\<forall>k \<in> fst ` set q. \<exists>b. snd k = btoh b)"

definition uploads_of :: "upload_table \<Rightarrow> jsstr \<Rightarrow> bytes set" where
  "uploads_of q h = {x. map_has q (h, btoh x)}"

lemma fold_upd_has:
  "(foldl (\<lambda>a x. a(f x \<mapsto> g x)) A xs k \<noteq> None) = (k \<in> f ` set xs \<or> A k \<noteq> None)"
  by (induction xs arbitrary: A) auto

lemma up_enq_uploads:
  "uploads_of (idb_up_enq h hs q) = (uploads_of q)(h := uploads_of q h \<union> set hs)"
  "key_ordered pair_key_less q \<Longrightarrow> key_ordered pair_key_less (idb_up_enq h hs q)" "hex_hashes q \<Longrightarrow> hex_hashes (idb_up_enq h hs q)"
proof -
  show "uploads_of (idb_up_enq h hs q) = (uploads_of q)(h := uploads_of q h \<union> set hs)"
    unfolding uploads_of_def idb_up_enq_def fold_put_get fold_upd_has by (auto simp: fun_eq_iff)
  show "key_ordered pair_key_less q \<Longrightarrow> key_ordered pair_key_less (idb_up_enq h hs q)"
    by (simp add: idb_up_enq_def pair_key.fold_put_ordered)
  show "hex_hashes q \<Longrightarrow> hex_hashes (idb_up_enq h hs q)"
    unfolding hex_hashes_def idb_up_enq_def fold_put_keys by auto
qed

lemma up_deq_uploads:
  "uploads_of (idb_up_deq h hs q) = (uploads_of q)(h := uploads_of q h - set hs)"
  "key_ordered pair_key_less q \<Longrightarrow> key_ordered pair_key_less (idb_up_deq h hs q)" "hex_hashes q \<Longrightarrow> hex_hashes (idb_up_deq h hs q)"
proof -
  show "uploads_of (idb_up_deq h hs q) = (uploads_of q)(h := uploads_of q h - set hs)"
    unfolding uploads_of_def idb_up_deq_def fold_delete_get by (auto simp: fun_eq_iff split: if_splits)
  show "key_ordered pair_key_less q \<Longrightarrow> key_ordered pair_key_less (idb_up_deq h hs q)"
    by (simp add: idb_up_deq_def fold_delete_ordered)
  show "hex_hashes q \<Longrightarrow> hex_hashes (idb_up_deq h hs q)"
    using fold_delete_set [of "\<lambda>hash. (h, btoh hash)" q hs] unfolding hex_hashes_def idb_up_deq_def by blast
qed

lemma map_filter_set: "set (List.map_filter f xs) = {y. \<exists>x \<in> set xs. f x = Some y}"
  by (force simp: List.map_filter_def)

lemma up_list_uploads: "key_ordered pair_key_less q \<Longrightarrow> hex_hashes q \<Longrightarrow> set (idb_up_list h q) = uploads_of q h"
proof -
  assume o: "key_ordered pair_key_less q" and x: "hex_hashes q"
  have ok: "(case r of Ok h \<Rightarrow> Some h | _ \<Rightarrow> None) = Some y \<longleftrightarrow> r = Ok y" for r :: "bytes vs" and y
    by (cases r) auto
  have hex: "\<exists>b. snd (fst item) = btoh b" if "item \<in> set q" for item using x that by (auto simp: hex_hashes_def)
  have "y \<in> set (idb_up_list h q) \<longleftrightarrow> ((h, btoh y), ()) \<in> set q" for y
  proof
    assume "y \<in> set (idb_up_list h q)"
    then obtain item where i: "item \<in> set q" "fst (fst item) = h" "htob (snd (fst item)) = Ok y"
      unfolding idb_up_list_def map_filter_set ok by auto
    obtain b where "snd (fst item) = btoh b" using hex [OF i(1)] by blast
    then have "fst item = (h, btoh y)" using i by (metis htob_btoh prod.collapse vs.inject(1))
    then show "((h, btoh y), ()) \<in> set q" using i(1) by (cases item) simp
  next
    assume "((h, btoh y), ()) \<in> set q"
    then show "y \<in> set (idb_up_list h q)" unfolding idb_up_list_def map_filter_set ok by (force simp: htob_btoh)
  qed
  then show ?thesis using pair_key.ordered_get [OF o, where v = "()"] unfolding uploads_of_def by auto
qed

text \<open>Hosts.\<close>

definition hosts_ok :: "HostTables \<Rightarrow> bool" where
  "hosts_ok t = (key_ordered str_less (ht_hosts t) \<and> (\<forall>(k, row) \<in> set (ht_hosts t). sh_label row = k)
     \<and> key_ordered triple_key_less (ht_seqs t) \<and> (\<forall>row \<in> set (ht_seqs t). isCursor row))"

definition seq_of :: "seq_row list \<Rightarrow> jsstr \<Rightarrow> IKDM \<Rightarrow> int" where
  "seq_of seqs h r = (case map_get seqs (h, kdm_label r, kdm_index r) of None \<Rightarrow> 0 | Some n \<Rightarrow> n)"

lemma projected_lookup:
  assumes "distinct (map rc_realm cs)"
  shows "cursorOf (projectCursors cs) r = (case map_of (map (\<lambda>c. (rc_realm c, rc_lastSeq c)) cs) r of None \<Rightarrow> 0 | Some n \<Rightarrow> n)"
proof -
  let ?b = "map (\<lambda>c. (realmKey (rc_realm c), c)) cs"
  have "inj realmKey" by (rule injI) simp
  then have "bucket_fit ?b"
    using assms distinct_map [of realmKey "map rc_realm cs"] by (auto simp: bucket_fit_def keys_ok_def comp_def list_all_iff inj_on_def)
  from project_cursor [OF this, of r] have "cursorOf (projectCursors cs) r = bucket_cursor ?b r" by (simp add: comp_def)
  also have "map_option rc_lastSeq (map_get ?b (realmKey r)) = map_of (map (\<lambda>c. (rc_realm c, rc_lastSeq c)) cs) r"
    by (induction cs) auto
  then have "bucket_cursor ?b r = (case map_of (map (\<lambda>c. (rc_realm c, rc_lastSeq c)) cs) r of None \<Rightarrow> 0 | Some n \<Rightarrow> n)"
    unfolding bucket_cursor_def by (auto split: option.splits)
  finally show ?thesis .
qed

lemma host_cursors:
  assumes "key_ordered triple_key_less seqs" "\<forall>row \<in> set seqs. isCursor row"
  shows "cursorOf (projectCursors (cursorsOf (seqs_of_host h seqs))) r = seq_of seqs h r"
proof -
  have f: "cursorsOf (seqs_of_host h seqs) = map cursor_of_row (seqs_of_host h seqs)"
    using assms(2) unfolding cursorsOf_def seqs_of_host_def by (subst filter_True) auto
  have sub: "set (seqs_of_host h seqs) \<subseteq> {x. fst (fst x) = h}" by (auto simp: seqs_of_host_def)
  have "distinct (map fst (seqs_of_host h seqs))"
    using triple_key.ordered_keys [OF assms(1)] unfolding seqs_of_host_def keys_ok_def by (rule distinct_map_filter)
  moreover
  have "inj_on (\<lambda>k. \<lparr>kdm_label = fst (snd k), kdm_index = snd (snd k)\<rparr>) (fst ` set (seqs_of_host h seqs))"
  proof (rule inj_onI)
    fix a b
    assume "a \<in> fst ` set (seqs_of_host h seqs)" "b \<in> fst ` set (seqs_of_host h seqs)"
    then have "fst a = h" "fst b = h" using sub by auto
    moreover assume "\<lparr>kdm_label = fst (snd a), kdm_index = snd (snd a)\<rparr> = \<lparr>kdm_label = fst (snd b), kdm_index = snd (snd b)\<rparr>"
    ultimately show "a = b" by (simp add: prod_eq_iff)
  qed
  moreover have "map rc_realm (map cursor_of_row l) = map (\<lambda>k. \<lparr>kdm_label = fst (snd k), kdm_index = snd (snd k)\<rparr>) (map fst l)" for l
    by (auto simp: cursor_of_row_def)
  ultimately have d: "distinct (map rc_realm (cursorsOf (seqs_of_host h seqs)))"
    unfolding f by (simp only: distinct_map [of _ "map fst _"]) simp
  have "map_of (map (\<lambda>c. (rc_realm c, rc_lastSeq c)) (map cursor_of_row (seqs_of_host h seqs))) r = map_get seqs (h, kdm_label r, kdm_index r)"
    by (induction seqs) (auto simp: seqs_of_host_def cursor_of_row_def)
  then show ?thesis using projected_lookup [OF d, of r] unfolding f seq_of_def by simp
qed

lemma drop_seqs_get: "map_get (drop_seqs l seqs) k = (if fst k = l then None else map_get seqs k)"
proof -
  have "k \<in> fst ` set (seqs_of_host l seqs) \<longleftrightarrow> fst k = l \<and> map_has seqs k"
    by (force simp: seqs_of_host_def map_of_eq_None_iff)
  then show ?thesis
    using fold_delete_get [of "\<lambda>k. k" seqs "map fst (seqs_of_host l seqs)" k] by (auto simp: drop_seqs_def)
qed

lemma drop_seqs_ok:
  "key_ordered triple_key_less seqs \<Longrightarrow> key_ordered triple_key_less (drop_seqs l seqs)" "set (drop_seqs l seqs) \<subseteq> set seqs"
  using fold_delete_ordered [of triple_key_less seqs "\<lambda>k. k"] fold_delete_set [of "\<lambda>k. k" seqs] by (simp_all add: drop_seqs_def)

definition host_info :: "HostTables \<Rightarrow> jsstr \<Rightarrow> (jsstr \<times> int option \<times> IHostMetadata option) option" where
  "host_info t h = map_option (\<lambda>row. (sh_handle row, sh_idx row, sh_meta row)) (map_get (ht_hosts t) h)"

definition host_cursor :: "HostTables \<Rightarrow> jsstr \<Rightarrow> IKDM \<Rightarrow> int option" where
  "host_cursor t h r = (if map_has (ht_hosts t) h then Some (seq_of (ht_seqs t) h r) else None)"

lemma hosts_label: "hosts_ok t \<Longrightarrow> map_get (ht_hosts t) h = Some row \<Longrightarrow> sh_label row = h"
  by (auto simp: hosts_ok_def dest: map_of_SomeD)

lemma get_cursor:
  "hosts_ok t \<Longrightarrow> map_option (\<lambda>row. cursorOf (hr_cursor row) r) (idb_ho_get h t) = host_cursor t h r"
  using host_cursors [of "ht_seqs t" h r]
  by (cases "map_get (ht_hosts t) h") (simp_all add: idb_ho_get_def host_cursor_def idbRowToHostRow_def hosts_ok_def)

lemma get_info: "map_option (\<lambda>row. (hi_handle row, hi_idx row, hr_meta row)) (idb_ho_get h t) = host_info t h"
  by (cases "map_get (ht_hosts t) h") (simp_all add: idb_ho_get_def host_info_def idbRowToHostRow_def)

lemma put_host_ok:
  assumes "hosts_ok t" "sh_label row = l"
  shows "hosts_ok (t\<lparr>ht_hosts := os_put str_less l row (ht_hosts t)\<rparr>)"
  using assms str_key.put_ordered str_key.set_put [of "ht_hosts t" l row] by (auto simp: hosts_ok_def)

lemma drop_host_ok: "hosts_ok t \<Longrightarrow> hosts_ok (t\<lparr>ht_seqs := drop_seqs l (ht_seqs t)\<rparr>)"
  using drop_seqs_ok [where seqs = "ht_seqs t" and l = l] by (auto simp: hosts_ok_def)

lemma record_hosts:
  assumes ok: "hosts_ok t" and u: "seqs_fine u"
  shows "hosts_ok (idb_ho_recordSeqs h u r t)" "ht_hosts (idb_ho_recordSeqs h u r t) = ht_hosts t"
    and "host_cursor (idb_ho_recordSeqs h u r t) =
       (\<lambda>h' r'. if h' = h \<and> r' = (case r of None \<Rightarrow> nullKDM | Some x \<Rightarrow> x)
               then map_option (\<lambda>c. case nextCursor c u of None \<Rightarrow> c | Some n \<Rightarrow> n) (host_cursor t h' r') else host_cursor t h' r')"
proof -
  define rr where "rr = (case r of None \<Rightarrow> nullKDM | Some x \<Rightarrow> x)"
  let ?key = "(h, kdm_label rr, kdm_index rr)"
  have cur: "(case map_get (ht_seqs t) ?key of None \<Rightarrow> 0 | Some n \<Rightarrow> if isCursor (?key, n) then n else 0) = seq_of (ht_seqs t) h rr"
    using ok by (auto simp: hosts_ok_def seq_of_def dest: map_of_SomeD split: option.split)
  have pos: "0 \<le> seq_of (ht_seqs t) h rr"
    using ok by (auto simp: hosts_ok_def seq_of_def isCursor_def dest!: map_of_SomeD split: option.split)
  have e: "idb_ho_recordSeqs h u r t =
      (if \<not> map_has (ht_hosts t) h then t
       else case nextCursor (seq_of (ht_seqs t) h rr) u of None \<Rightarrow> t
         | Some n \<Rightarrow> t\<lparr>ht_seqs := os_put triple_key_less ?key n (ht_seqs t)\<rparr>)"
    unfolding idb_ho_recordSeqs_def Let_def rr_def [symmetric] cur ..
  have n: "0 \<le> n" if "nextCursor (seq_of (ht_seqs t) h rr) u = Some n" for n
    using that pos u by (auto simp: nextCursor_def seqs_fine_def split: option.splits if_splits)
  have sok: "hosts_ok (t\<lparr>ht_seqs := os_put triple_key_less ?key n (ht_seqs t)\<rparr>)" if "0 \<le> n" for n
    using ok that triple_key.put_ordered triple_key.set_put [of "ht_seqs t" ?key n] by (auto simp: hosts_ok_def isCursor_def)
  show "hosts_ok (idb_ho_recordSeqs h u r t)" using ok sok n unfolding e by (auto split: option.split)
  show "ht_hosts (idb_ho_recordSeqs h u r t) = ht_hosts t" unfolding e by (auto split: option.split)
  have k: "h' = h \<and> kdm_label r' = kdm_label rr \<and> kdm_index r' = kdm_index rr \<longleftrightarrow> h' = h \<and> r' = rr" for h' :: jsstr and r' :: IKDM
    by (cases r'; cases rr) auto
  have sq: "seq_of (os_put triple_key_less ?key n (ht_seqs t)) h' r' = (if h' = h \<and> r' = rr then n else seq_of (ht_seqs t) h' r')" for n h' r'
    using k [of h' r'] by (auto simp: seq_of_def)
  show "host_cursor (idb_ho_recordSeqs h u r t) =
       (\<lambda>h' r'. if h' = h \<and> r' = (case r of None \<Rightarrow> nullKDM | Some x \<Rightarrow> x)
               then map_option (\<lambda>c. case nextCursor c u of None \<Rightarrow> c | Some n \<Rightarrow> n) (host_cursor t h' r') else host_cursor t h' r')"
    unfolding e rr_def [symmetric] by (auto simp: fun_eq_iff host_cursor_def sq split: option.split)
qed

text \<open>The effect of linking a host again, of metadata and of removal, on what is known of each host and on its cursors.\<close>

type_synonym host_view = "jsstr \<Rightarrow> (jsstr \<times> int option \<times> IHostMetadata option) option"
type_synonym cursor_view = "jsstr \<Rightarrow> IKDM \<Rightarrow> int option"

definition same_host :: "host_view \<Rightarrow> IHostConnectionInfo \<Rightarrow> bool" where
  "same_host H info =
     (case H (hi_label info) of None \<Rightarrow> False
      | Some (h, i, _) \<Rightarrow> h = hi_handle info \<and> idx_or_zero i = idx_or_zero (hi_idx info))"

definition link_hosts :: "IHostConnectionInfo \<Rightarrow> host_view \<Rightarrow> host_view" where
  "link_hosts info H = H(hi_label info \<mapsto> (hi_handle info, hi_idx info,
     if same_host H info then Option.bind (H (hi_label info)) (\<lambda>(_, _, m). m) else None))"

definition link_cursors :: "IHostConnectionInfo \<Rightarrow> host_view \<Rightarrow> cursor_view \<Rightarrow> cursor_view" where
  "link_cursors info H C = (if same_host H info then C else C(hi_label info := (\<lambda>_. Some 0)))"

definition set_host :: "jsstr \<Rightarrow> IHostMetadata \<Rightarrow> host_view \<Rightarrow> host_view" where
  "set_host l meta H = H(l := map_option (\<lambda>(h, i, _). (h, i, Some meta)) (H l))"

lemma idb_add_host:
  assumes "hosts_ok t"
  shows "hosts_ok (idb_ho_add info t)" "host_info (idb_ho_add info t) = link_hosts info (host_info t)"
    "host_cursor (idb_ho_add info t) = link_cursors info (host_info t) (host_cursor t)"
proof -
  let ?l = "hi_label info"
  have s: "(case idb_ho_get ?l t of None \<Rightarrow> False
       | Some p \<Rightarrow> hi_handle p = hi_handle info \<and> idx_or_zero (hi_idx p) = idx_or_zero (hi_idx info)) = same_host (host_info t) info"
    by (cases "map_get (ht_hosts t) ?l") (simp_all add: same_host_def idb_ho_get_def host_info_def idbRowToHostRow_def)
  have m: "Option.bind (idb_ho_get ?l t) hr_meta = Option.bind (host_info t ?l) (\<lambda>(_, _, m). m)"
    by (cases "map_get (ht_hosts t) ?l") (simp_all add: idb_ho_get_def host_info_def idbRowToHostRow_def)
  let ?row = "storedHost info (if same_host (host_info t) info then Option.bind (host_info t ?l) (\<lambda>(_, _, m). m) else None)"
  have e: "idb_ho_add info t = (if same_host (host_info t) info then t\<lparr>ht_hosts := os_put str_less ?l ?row (ht_hosts t)\<rparr>
      else (t\<lparr>ht_seqs := drop_seqs ?l (ht_seqs t)\<rparr>)\<lparr>ht_hosts := os_put str_less ?l ?row (ht_hosts t)\<rparr>)"
    unfolding idb_ho_add_def Let_def s m by simp
  have "sh_label ?row = ?l" by (simp add: storedHost_def)
  from put_host_ok [OF assms this] put_host_ok [OF drop_host_ok [OF assms] this, of ?l]
  show "hosts_ok (idb_ho_add info t)" unfolding e by auto
  show "host_info (idb_ho_add info t) = link_hosts info (host_info t)"
    unfolding e by (auto simp: fun_eq_iff host_info_def link_hosts_def storedHost_def)
  have h: "map_has (ht_hosts t) ?l" if "same_host (host_info t) info"
    using that by (auto simp: same_host_def host_info_def split: option.splits)
  show "host_cursor (idb_ho_add info t) = link_cursors info (host_info t) (host_cursor t)"
    using h unfolding e by (auto simp: fun_eq_iff host_cursor_def link_cursors_def seq_of_def drop_seqs_get)
qed

lemma idb_set_host:
  assumes "hosts_ok t"
  shows "hosts_ok (fst (idb_ho_set l meta t))" "host_info (fst (idb_ho_set l meta t)) = set_host l meta (host_info t)"
    "host_cursor (fst (idb_ho_set l meta t)) = host_cursor t"
proof -
  have st: "storedHost (idbRowToHostRow row cs) (Some meta) = row\<lparr>sh_meta := Some meta\<rparr>" for row cs
    by (cases row) (simp add: storedHost_def idbRowToHostRow_def)
  have e: "fst (idb_ho_set l meta t) = (case map_get (ht_hosts t) l of None \<Rightarrow> t
      | Some row \<Rightarrow> t\<lparr>ht_hosts := os_put str_less l (row\<lparr>sh_meta := Some meta\<rparr>) (ht_hosts t)\<rparr>)"
    using hosts_label [OF assms, of l]
    by (auto simp: idb_ho_set_def idb_ho_get_def st split: option.split) (simp add: idbRowToHostRow_def)
  show "hosts_ok (fst (idb_ho_set l meta t))"
  proof (cases "map_get (ht_hosts t) l")
    case (Some row)
    then have "sh_label (row\<lparr>sh_meta := Some meta\<rparr>) = l" using hosts_label [OF assms] by simp
    from put_host_ok [OF assms this] Some show ?thesis unfolding e by simp
  qed (use assms e in simp)
  show "host_info (fst (idb_ho_set l meta t)) = set_host l meta (host_info t)"
    unfolding e by (auto simp: fun_eq_iff host_info_def set_host_def split: option.split)
  show "host_cursor (fst (idb_ho_set l meta t)) = host_cursor t"
    unfolding e by (auto simp: fun_eq_iff host_cursor_def split: option.split)
qed

lemma idb_del_host:
  assumes "hosts_ok t"
  shows "hosts_ok (idb_ho_del l t)" "host_info (idb_ho_del l t) = (host_info t)(l := None)"
    "host_cursor (idb_ho_del l t) = (host_cursor t)(l := (\<lambda>_. None))"
proof -
  have "set (map_delete l (ht_hosts t)) \<subseteq> set (ht_hosts t)" by (auto simp: AList.delete_eq)
  then show "hosts_ok (idb_ho_del l t)"
    using assms drop_seqs_ok [where seqs = "ht_seqs t" and l = l] by (auto simp: idb_ho_del_def hosts_ok_def)
  show "host_info (idb_ho_del l t) = (host_info t)(l := None)" by (auto simp: idb_ho_del_def fun_eq_iff host_info_def)
  show "host_cursor (idb_ho_del l t) = (host_cursor t)(l := (\<lambda>_. None))"
    by (auto simp: idb_ho_del_def fun_eq_iff host_cursor_def seq_of_def drop_seqs_get)
qed

lemma byHost_get:
  "(case map_get (byHost seqs) h of None \<Rightarrow> [] | Some l \<Rightarrow> l) = cursorsOf (seqs_of_host h seqs)"
proof (induction seqs rule: rev_induct)
  case (snoc x xs)
  obtain k n where "x = (k, n)" by (cases x)
  with snoc show ?case by (auto simp: byHost_def cursorsOf_def seqs_of_host_def split: option.splits prod.splits)
qed (simp add: byHost_def cursorsOf_def seqs_of_host_def)

lemma list_hosts: "hosts_ok t \<Longrightarrow> idb_ho_list t = map (\<lambda>(k, _). the (idb_ho_get k t)) (ht_hosts t)"
proof -
  assume ok: "hosts_ok t"
  have "idbRowToHostRow row (case map_get (byHost (ht_seqs t)) (sh_label row) of None \<Rightarrow> [] | Some l \<Rightarrow> l) = the (idb_ho_get k t)"
    if "(k, row) \<in> set (ht_hosts t)" for k row
  proof -
    have "map_get (ht_hosts t) k = Some row" using ok that str_key.ordered_get [of "ht_hosts t" k row] by (simp add: hosts_ok_def)
    then show ?thesis using hosts_label [OF ok] by (simp add: idb_ho_get_def byHost_get)
  qed
  then show ?thesis unfolding idb_ho_list_def Let_def by auto
qed

section \<open>The store keeps the contract of synchronisation\<close>

definition tables_ok :: "Tables \<Rightarrow> bool" where
  "tables_ok t = (key_ordered str_less (tb_realms t) \<and> key_ordered str_less (tb_messages t) \<and> b64_keys (tb_messages t) \<and> key_ordered str_less (tb_downloads t)
     \<and> key_ordered pair_key_less (tb_uploads t) \<and> hex_hashes (tb_uploads t) \<and> hosts_ok (tb_hosts t))"

definition idb_inv :: "IDBStore \<Rightarrow> bool" where
  "idb_inv s = (case st_db s of None \<Rightarrow> False | Some db \<Rightarrow> tables_ok (st_dbs s db))"

definition ids_archive :: "IDBStore \<Rightarrow> bytes \<Rightarrow> IStoredMessageData option" where
  "ids_archive s = from_db Map.empty (\<lambda>t. archive_of (tb_messages t)) s"

definition ids_queue :: "IDBStore \<Rightarrow> jsstr \<Rightarrow> IDownloadMessage option" where
  "ids_queue s = from_db Map.empty (\<lambda>t. map_get (tb_downloads t)) s"

definition ids_uploads :: "IDBStore \<Rightarrow> jsstr \<Rightarrow> bytes set" where
  "ids_uploads s = from_db (\<lambda>_. {}) (\<lambda>t. uploads_of (tb_uploads t)) s"

definition ids_cursor :: "IDBStore \<Rightarrow> cursor_view" where
  "ids_cursor s = from_db (\<lambda>_ _. None) (\<lambda>t. host_cursor (tb_hosts t)) s"

definition ids_realms :: "IDBStore \<Rightarrow> jsstr \<Rightarrow> IRealm option" where
  "ids_realms s = from_db Map.empty (\<lambda>t. map_get (tb_realms t)) s"

definition ids_hosts :: "IDBStore \<Rightarrow> host_view" where
  "ids_hosts s = from_db Map.empty (\<lambda>t. host_info (tb_hosts t)) s"

lemmas ids_defs = ids_archive_def ids_queue_def ids_uploads_def ids_cursor_def ids_realms_def ids_hosts_def

text \<open>An operation on one table.\<close>

lemma on_db_view:
  assumes "idb_inv s"
  obtains t where "tables_ok t" "ids_archive s = archive_of (tb_messages t)" "ids_queue s = map_get (tb_downloads t)"
    "ids_uploads s = uploads_of (tb_uploads t)" "ids_cursor s = host_cursor (tb_hosts t)" "ids_hosts s = host_info (tb_hosts t)"
    "ids_realms s = map_get (tb_realms t)"
    "\<forall>d (g :: Tables \<Rightarrow> 'a). from_db d g s = g t"
    "\<forall>f. idb_inv (on_db f s) = tables_ok (f t) \<and> ids_archive (on_db f s) = archive_of (tb_messages (f t))
      \<and> ids_queue (on_db f s) = map_get (tb_downloads (f t)) \<and> ids_uploads (on_db f s) = uploads_of (tb_uploads (f t))
      \<and> ids_cursor (on_db f s) = host_cursor (tb_hosts (f t)) \<and> ids_hosts (on_db f s) = host_info (tb_hosts (f t))
      \<and> ids_realms (on_db f s) = map_get (tb_realms (f t))"
  using assms by (fastforce simp: idb_inv_def on_db_def from_db_def ids_defs split: option.splits)

lemma idb_msg_facts:
  assumes "tables_ok t"
  shows "set (idb_msg_listKeys (tb_messages t)) = dom (archive_of (tb_messages t))"
    "set (idb_dn_list (tb_downloads t)) = ran (map_get (tb_downloads t))"
proof -
  have b: "\<forall>k \<in> set (map fst (tb_messages t)). \<exists>b. k = btob64 b"
    using assms by (simp add: tables_ok_def b64_keys_def)
  from entries_keys [OF b] show "set (idb_msg_listKeys (tb_messages t)) = dom (archive_of (tb_messages t))"
    unfolding idb_msg_listKeys_def msg_listKeys_def archive_of_def by auto
  have "(k, v) \<in> set (tb_downloads t) \<longleftrightarrow> map_get (tb_downloads t) k = Some v" for k v
    by (rule str_key.ordered_get) (use assms in \<open>simp add: tables_ok_def\<close>)
  then show "set (idb_dn_list (tb_downloads t)) = ran (map_get (tb_downloads t))"
    unfolding idb_dn_list_def ran_def by force
qed

interpretation idbst: client_store "idbStore p (\<lambda>_. False)" idb_inv ids_archive ids_queue ids_uploads ids_cursor
proof
  fix s :: IDBStore and k h rlm ms s' sts ds qs r hs u
  let ?S = "idbStore p (\<lambda>_. False)"
  assume i: "idb_inv s"
  obtain t where t: "tables_ok t" "ids_archive s = archive_of (tb_messages t)" "ids_queue s = map_get (tb_downloads t)"
      "ids_uploads s = uploads_of (tb_uploads t)" "ids_cursor s = host_cursor (tb_hosts t)"
    and fr: "st_dbs s (the (st_db s)) = t" "st_db s \<noteq> None"
    and on: "\<forall>f. idb_inv (on_db f s) = tables_ok (f t) \<and> ids_archive (on_db f s) = archive_of (tb_messages (f t))
      \<and> ids_queue (on_db f s) = map_get (tb_downloads (f t)) \<and> ids_uploads (on_db f s) = uploads_of (tb_uploads (f t))
      \<and> ids_cursor (on_db f s) = host_cursor (tb_hosts (f t))"
    using i by (fastforce simp: idb_inv_def on_db_def from_db_def ids_defs split: option.splits)
  have fr: "from_db d g s = g t" for d g using fr by (auto simp: from_db_def)
  note ok = t(1) [unfolded tables_ok_def]
  show "is_msg_has ?S k s = (ids_archive s k \<noteq> None)"
    "(is_msg_get ?S k s = None) = (ids_archive s k = None)"
    by (simp_all add: idbStore_def fr t idb_msg_has_def idb_msg_get_def archive_of_def split: option.split)
  show "set (is_msg_listKeys ?S s) = dom (ids_archive s)" "set (is_dn_list ?S s) = ran (ids_queue s)"
    using idb_msg_facts [OF t(1)] by (simp_all add: idbStore_def fr t)
  show "is_msg_add ?S ms s = (s', sts) \<Longrightarrow> idb_inv s' \<and> ids_queue s' = ids_queue s \<and> ids_uploads s' = ids_uploads s
         \<and> ids_cursor s' = ids_cursor s
         \<and> ids_archive s' = foldl (\<lambda>a m. a(st_key m \<mapsto> omitDefaultRealm_row (st_data m))) (ids_archive s) ms"
    using ok add_archive [of "tb_messages t" ms] by (auto simp: idbStore_def on t tables_ok_def)
  show "idb_inv (is_dn_enq ?S ds s) \<and> ids_archive (is_dn_enq ?S ds s) = ids_archive s
         \<and> ids_uploads (is_dn_enq ?S ds s) = ids_uploads s \<and> ids_cursor (is_dn_enq ?S ds s) = ids_cursor s
         \<and> ids_queue (is_dn_enq ?S ds s) =
             foldl (\<lambda>q d. q(downloadKey (dm_host d) (dm_seq d) (dm_realm d) \<mapsto> d)) (ids_queue s) ds"
    using ok by (simp add: idbStore_def on t tables_ok_def dn_enq_queue)
  show "idb_inv (is_dn_deq ?S h qs r s) \<and> ids_archive (is_dn_deq ?S h qs r s) = ids_archive s
         \<and> ids_uploads (is_dn_deq ?S h qs r s) = ids_uploads s \<and> ids_cursor (is_dn_deq ?S h qs r s) = ids_cursor s
         \<and> ids_queue (is_dn_deq ?S h qs r s) = (\<lambda>k. if k \<in> (\<lambda>q. downloadKey h q r) ` set qs then None else ids_queue s k)"
    unfolding t using ok by (simp add: idbStore_def on t tables_ok_def dn_deq_queue)
  show "idb_inv (is_up_enq ?S h hs s) \<and> ids_archive (is_up_enq ?S h hs s) = ids_archive s
         \<and> ids_queue (is_up_enq ?S h hs s) = ids_queue s \<and> ids_cursor (is_up_enq ?S h hs s) = ids_cursor s
         \<and> ids_uploads (is_up_enq ?S h hs s) = (ids_uploads s)(h := ids_uploads s h \<union> set hs)"
    using ok by (simp add: idbStore_def on t tables_ok_def up_enq_uploads)
  show "idb_inv (is_up_deq ?S h hs s) \<and> ids_archive (is_up_deq ?S h hs s) = ids_archive s
         \<and> ids_queue (is_up_deq ?S h hs s) = ids_queue s \<and> ids_cursor (is_up_deq ?S h hs s) = ids_cursor s
         \<and> ids_uploads (is_up_deq ?S h hs s) = (ids_uploads s)(h := ids_uploads s h - set hs)"
    using ok by (simp add: idbStore_def on t tables_ok_def up_deq_uploads)
  show "set (is_up_list ?S h s) = ids_uploads s h"
    using ok by (simp add: idbStore_def fr t up_list_uploads)
  show "map_option (\<lambda>row. cursorOf (hr_cursor row) rlm) (is_hosts_get ?S h s) = ids_cursor s h rlm"
    using ok by (simp add: idbStore_def fr t get_cursor)
  assume u: "seqs_fine u"
  show "idb_inv (is_hosts_recordSeqs ?S h u r s) \<and> ids_archive (is_hosts_recordSeqs ?S h u r s) = ids_archive s
         \<and> ids_queue (is_hosts_recordSeqs ?S h u r s) = ids_queue s \<and> ids_uploads (is_hosts_recordSeqs ?S h u r s) = ids_uploads s
         \<and> ids_cursor (is_hosts_recordSeqs ?S h u r s) =
             (\<lambda>h' r'. if h' = h \<and> r' = (case r of None \<Rightarrow> nullKDM | Some x \<Rightarrow> x)
                     then map_option (\<lambda>c. case nextCursor c u of None \<Rightarrow> c | Some n \<Rightarrow> n) (ids_cursor s h' r')
                     else ids_cursor s h' r')"
    unfolding t using ok record_hosts [of "tb_hosts t" u h r] u by (simp add: idbStore_def on t tables_ok_def)
qed

section \<open>Properties\<close>

text \<open>When the insert of one message fails, every message of the call is reported as \<open>DatabaseError\<close>, although all whose
  own insert succeeds are in the archive.\<close>

theorem idb_add_misreports:
  assumes "msg \<in> set messages" "fails (btob64 (st_key msg))" "x \<in> set messages" "\<not> fails (btob64 (st_key x))"
  shows "snd (idb_msg_add fails messages m) = map (\<lambda>_. DatabaseError) messages
    \<and> map_has (fst (idb_msg_add fails messages m)) (btob64 (st_key x))"
proof -
  have stays: "map_has m k \<Longrightarrow> map_has (fst (idb_msg_add fails ms m)) k" for k ms and m :: message_table
    by (induction ms arbitrary: m) (auto simp: idb_msg_add_def Let_def)
  have "map_has (fst (idb_msg_add fails ms m)) (btob64 (st_key x))" if "x \<in> set ms" for ms and m :: message_table
    using that
  proof (induction ms arbitrary: m)
    case (Cons y ms)
    show ?case
    proof (cases "x = y")
      case True
      have "map_has (os_put str_less (btob64 (st_key y)) (omitDefaultRealm_row (st_data y)) m) (btob64 (st_key x))" using True by simp
      from stays [OF this, of ms] show ?thesis using assms(4) True by (simp add: idb_msg_add_def Let_def)
    next
      case False
      with Cons show ?thesis by (simp add: idb_msg_add_def Let_def)
    qed
  qed simp
  then show ?thesis using assms by (auto simp: idb_msg_add_def list_ex_iff)
qed

section \<open>Witnesses\<close>

definition sample_row :: IStorableMessage where
  "sample_row = \<lparr>st_key = [1, 2], st_data = \<lparr>sd_eid = [7], sd_off = None, sd_ctr = None, sd_typ = None, sd_body = Some [9], sd_rlm = None,
     sd_apld = Some (RawApld APLD_PENDING), sd_err = None\<rparr>\<rparr>"

theorem idb_add_misreports_witness:
  "snd (idb_msg_add (\<lambda>k. k = btob64 [3]) [sample_row, sample_row\<lparr>st_key := [3]\<rparr>] []) = [DatabaseError, DatabaseError]"
  using idb_add_misreports [of "sample_row\<lparr>st_key := [3]\<rparr>" "[sample_row, sample_row\<lparr>st_key := [3]\<rparr>]" "\<lambda>k. k = btob64 [3]" sample_row "[]"]
  by (simp add: sample_row_def)

end
