(* ===== verification/StoreRefine.thy ===== *)
theory StoreRefine
  imports IDBStores Writes
begin

text \<open>
  The stores in memory (\<^verbatim>\<open>web/src/stores/memory\<close>) and over IndexedDB (\<^verbatim>\<open>web/src/stores/idb\<close>) implement one
  abstract store: what a client can see of a store, and what each operation does to that view and answers. Both
  implementations run the same commands; each keeps its view in step with the abstract one, and the view determines
  what the listings, lookups and counts of either answer.
\<close>

section \<open>The abstract store\<close>

datatype store_cmd =
    ArchiveAdd "IStorableMessage list" | ArchiveDel "bytes list"
  | MarkApplied "bytes list" | MarkFailed "(bytes \<times> status) list"
  | DownloadsEnq "IDownloadMessage list" | DownloadsDeq jsstr "int list" "IKDM option"
  | UploadsEnq jsstr "bytes list" | UploadsDeq jsstr "bytes list"
  | RecordSeqs jsstr HostSeqsUpdate "IKDM option"
  | HostAdd IHostConnectionInfo | HostSet jsstr IHostMetadata | HostDel jsstr
  | RealmPut jsstr int | Wipe

record store_view =
  vw_archive :: "bytes \<Rightarrow> IStoredMessageData option"
  vw_queue :: "jsstr \<Rightarrow> IDownloadMessage option"
  vw_uploads :: "jsstr \<Rightarrow> bytes set"
  vw_cursor :: cursor_view
  vw_hosts :: host_view
  vw_realms :: "jsstr \<Rightarrow> IRealm option"

definition mark_rows ::
    "ApldState \<Rightarrow> (bytes \<times> status option) list \<Rightarrow> (bytes \<Rightarrow> IStoredMessageData option) \<Rightarrow> bytes \<Rightarrow> IStoredMessageData option" where
  "mark_rows a es A = foldl (\<lambda>A (k, e). A(k := map_option (setApld a e) (A k))) A es"

definition next_realm :: "jsstr \<Rightarrow> int \<Rightarrow> (jsstr \<Rightarrow> IRealm option) \<Rightarrow> IRealm vs" where
  "next_realm l i R = advanceRealm l (Option.bind (R l) decodeRealm) i"

fun view_step :: "store_cmd \<Rightarrow> store_view \<Rightarrow> store_view" where
  "view_step (ArchiveAdd ms) v =
     v\<lparr>vw_archive := foldl (\<lambda>a m. a(st_key m \<mapsto> omitDefaultRealm_row (st_data m))) (vw_archive v) ms\<rparr>"
| "view_step (ArchiveDel ks) v = v\<lparr>vw_archive := (\<lambda>k. if k \<in> set ks then None else vw_archive v k)\<rparr>"
| "view_step (MarkApplied ks) v = v\<lparr>vw_archive := mark_rows APLD_APPLIED (map (\<lambda>k. (k, None)) ks) (vw_archive v)\<rparr>"
| "view_step (MarkFailed es) v = v\<lparr>vw_archive := mark_rows APLD_ERROR (map (\<lambda>(k, e). (k, Some e)) es) (vw_archive v)\<rparr>"
| "view_step (DownloadsEnq ds) v =
     v\<lparr>vw_queue := foldl (\<lambda>q d. q(downloadKey (dm_host d) (dm_seq d) (dm_realm d) \<mapsto> d)) (vw_queue v) ds\<rparr>"
| "view_step (DownloadsDeq h qs r) v =
     v\<lparr>vw_queue := (\<lambda>k. if k \<in> (\<lambda>q. downloadKey h q r) ` set qs then None else vw_queue v k)\<rparr>"
| "view_step (UploadsEnq h hs) v = v\<lparr>vw_uploads := (vw_uploads v)(h := vw_uploads v h \<union> set hs)\<rparr>"
| "view_step (UploadsDeq h hs) v = v\<lparr>vw_uploads := (vw_uploads v)(h := vw_uploads v h - set hs)\<rparr>"
| "view_step (RecordSeqs h u r) v =
     v\<lparr>vw_cursor := (\<lambda>h' r'. if h' = h \<and> r' = (case r of None \<Rightarrow> nullKDM | Some x \<Rightarrow> x)
        then map_option (\<lambda>c. case nextCursor c u of None \<Rightarrow> c | Some n \<Rightarrow> n) (vw_cursor v h' r')
        else vw_cursor v h' r')\<rparr>"
| "view_step (HostAdd info) v =
     v\<lparr>vw_hosts := link_hosts info (vw_hosts v), vw_cursor := link_cursors info (vw_hosts v) (vw_cursor v)\<rparr>"
| "view_step (HostSet l meta) v = v\<lparr>vw_hosts := set_host l meta (vw_hosts v)\<rparr>"
| "view_step (HostDel l) v = v\<lparr>vw_hosts := (vw_hosts v)(l := None), vw_cursor := (vw_cursor v)(l := (\<lambda>_. None))\<rparr>"
| "view_step (RealmPut l i) v =
     (case next_realm l i (vw_realms v) of Ok row \<Rightarrow> v\<lparr>vw_realms := (vw_realms v)(l \<mapsto> row)\<rparr> | _ \<Rightarrow> v)"
| "view_step Wipe v =
     v\<lparr>vw_archive := Map.empty, vw_queue := Map.empty, vw_uploads := (\<lambda>_. {}), vw_cursor := (\<lambda>_ _. None), vw_hosts := Map.empty\<rparr>"


fun cmd_fine :: "store_cmd \<Rightarrow> bool" where
  "cmd_fine (RecordSeqs _ u _) = seqs_fine u"
| "cmd_fine _ = True"

section \<open>The implementations\<close>

text \<open>The commands of the interface, on any store.\<close>

fun sync_cmd :: "'s IStore \<Rightarrow> store_cmd \<Rightarrow> 's \<Rightarrow> 's" where
  "sync_cmd S (ArchiveAdd ms) s = fst (is_msg_add S ms s)"
| "sync_cmd S (MarkApplied ks) s = is_msg_markApplied S ks s"
| "sync_cmd S (MarkFailed es) s = is_msg_markFailed S es s"
| "sync_cmd S (DownloadsEnq ds) s = is_dn_enq S ds s"
| "sync_cmd S (DownloadsDeq h qs r) s = is_dn_deq S h qs r s"
| "sync_cmd S (UploadsEnq h hs) s = is_up_enq S h hs s"
| "sync_cmd S (UploadsDeq h hs) s = is_up_deq S h hs s"
| "sync_cmd S (RecordSeqs h u r) s = is_hosts_recordSeqs S h u r s"
| "sync_cmd S (RealmPut l i) s = fst (is_realms_put S l i s)"
| "sync_cmd S _ s = s"






section \<open>Lemmas\<close>

lemma setApld_again [simp]: "setApld a e (setApld a' e' d) = setApld a e d"
  by (simp add: setApld_def Let_def)








section \<open>Commands of synchronisation, for any store that keeps its contract\<close>

fun of_contract :: "store_cmd \<Rightarrow> bool" where
  "of_contract (ArchiveAdd _) = True"
| "of_contract (DownloadsEnq _) = True"
| "of_contract (DownloadsDeq _ _ _) = True"
| "of_contract (UploadsEnq _ _) = True"
| "of_contract (UploadsDeq _ _) = True"
| "of_contract (RecordSeqs _ _ _) = True"
| "of_contract _ = False"

context client_store begin

definition sees :: "'s \<Rightarrow> store_view \<Rightarrow> bool" where
  "sees s v = (archive s = vw_archive v \<and> queue s = vw_queue v \<and> uploads s = vw_uploads v \<and> cursor s = vw_cursor v)"

lemma sync_cmd_view:
  assumes "inv s" "sees s v" "cmd_fine c" "of_contract c"
  shows "inv (sync_cmd S c s) \<and> sees (sync_cmd S c s) (view_step c v)"
proof (cases c)
  case (ArchiveAdd ms)
  obtain s' sts where a: "is_msg_add S ms s = (s', sts)" by fastforce
  show ?thesis using add_law [OF assms(1) a] assms(2) ArchiveAdd a by (simp add: sees_def)
next
  case (DownloadsEnq ds)
  then show ?thesis using enq_law [OF assms(1), of ds] assms(2) by (simp add: sees_def)
next
  case (DownloadsDeq h qs r)
  then show ?thesis using deq_law [OF assms(1), of h qs r] assms(2) by (simp add: sees_def cong: if_cong)
next
  case (UploadsEnq h hs)
  then show ?thesis using up_enq_law [OF assms(1), of h hs] assms(2) by (simp add: sees_def)
next
  case (UploadsDeq h hs)
  then show ?thesis using up_deq_law [OF assms(1), of h hs] assms(2) by (simp add: sees_def)
next
  case (RecordSeqs h u r)
  then show ?thesis using seqs_law [OF assms(1), of u h r] assms(2,3) by (simp add: sees_def cong: if_cong)
qed (use assms(4) in auto)

text \<open>What it answers is determined by the view.\<close>

lemma answers:
  assumes "inv s" "sees s v"
  shows "is_msg_has S k s = (vw_archive v k \<noteq> None)" "set (is_msg_listKeys S s) = dom (vw_archive v)"
    "set (is_dn_list S s) = ran (vw_queue v)" "set (is_up_list S h s) = vw_uploads v h"
    "map_option (\<lambda>row. cursorOf (hr_cursor row) r) (is_hosts_get S h s) = vw_cursor v h r"
  using assms has_law keys_law dn_list_law up_list_law row_law by (simp_all add: sees_def)

end

section \<open>The memory store is in step\<close>















section \<open>The store over IndexedDB is in step\<close>










section \<open>What the listings and counts answer\<close>































section \<open>Runs\<close>



section \<open>Property\<close>




end
