(* ===== verification/Pairing.thy ===== *)
theory Pairing
  imports Crypto "HOL-Library.Signed_Division"
begin

unbundle bit_operations_syntax

text \<open>
  X25519 (\<^verbatim>\<open>shared/crypto/x25519.ts\<close>, with its use of WebCrypto in \<^verbatim>\<open>noble.ts\<close>) and the pairing of a new
  device (\<^verbatim>\<open>shared/crypto/pairing.ts\<close> and \<^verbatim>\<open>enclave.ts\<close>): the enrollee makes an ephemeral key, the
  enroller answers with its own ephemeral key and the master seed and hosts sealed under the shared
  secret, the enrollee opens them. WebCrypto is a record of two functions; random bytes are arguments.

  The properties: the ladder with conditional swaps is the plain Montgomery ladder; its results are canonical field elements
  that depend on the clamped scalar and on 255 bits of the point only; pairing transfers the seed.
\<close>

section \<open>The field and the ladder (x25519.ts)\<close>

definition fieldP :: int where
  "fieldP = push_bit 255 1 - 19"

definition A24 :: int where
  "A24 = 121665"

definition X25519_BASE :: bytes where
  "X25519_BASE = (replicate 32 0)[0 := 9]"

definition asX25519Sk :: "bytes \<Rightarrow> bytes vs" where
  "asX25519Sk b = (if length b \<noteq> 32 then Err InvalidParam else Ok b)"

definition leToN :: "bytes \<Rightarrow> int" where
  "leToN b = foldl (\<lambda>n x. push_bit 8 n OR uint x) 0 (rev b)"

text \<open>\<^verbatim>\<open>%\<close> on a BigInt has the sign of the dividend.\<close>

fun le_bytes :: "nat \<Rightarrow> int \<Rightarrow> bytes" where
  "le_bytes 0 x = []"
| "le_bytes (Suc n) x = word_of_int (x AND 0xff) # le_bytes n (drop_bit 8 x)"

definition nToLe :: "int \<Rightarrow> bytes" where
  "nToLe n = le_bytes 32 ((n smod fieldP + fieldP) smod fieldP)"

text \<open>A write beyond the end of a typed array is ignored, as is an update beyond the end of a list.\<close>

definition decodeU :: "bytes \<Rightarrow> int" where
  "decodeU u = leToN (u[31 := u ! 31 AND 127])"

definition clamp :: "bytes \<Rightarrow> bytes" where
  "clamp sk = (let s = sk[0 := sk ! 0 AND 248]; s = s[31 := s ! 31 AND 127] in s[31 := s ! 31 OR 64])"

definition cswap :: "int \<Rightarrow> int \<Rightarrow> int \<Rightarrow> int \<times> int" where
  "cswap swap a b = (let mask = - swap; d = (a XOR b) AND mask in (a XOR d, b XOR d))"

function modInv_loop :: "int \<Rightarrow> int \<Rightarrow> int \<Rightarrow> int" where
  "modInv_loop e b r =
     (if e > 0 then modInv_loop (drop_bit 1 e) (b * b mod fieldP) (if e AND 1 \<noteq> 0 then r * b mod fieldP else r) else r)"
  by pat_completeness auto
termination
  by (relation "measure (\<lambda>(e, _, _). nat e)") (auto simp: drop_bit_int_def)

declare modInv_loop.simps [simp del]

definition modInv :: "int \<Rightarrow> int" where
  "modInv z = modInv_loop (fieldP - 2) ((z smod fieldP + fieldP) smod fieldP) 1"

text \<open>
  One round of the ladder on \<open>(x2, z2, x3, z3)\<close>. Every dividend below is non-negative, where \<^verbatim>\<open>%\<close> is \<open>mod\<close>
  (\<open>ladder_bounds\<close>).
\<close>

definition ladder_round :: "int \<Rightarrow> int \<times> int \<times> int \<times> int \<Rightarrow> int \<times> int \<times> int \<times> int" where
  "ladder_round x1 s =
     (case s of (x2, z2, x3, z3) \<Rightarrow>
       let a = (x2 + z2) mod fieldP; aa = (a * a) mod fieldP;
           b = (x2 - z2 + fieldP) mod fieldP; bb = (b * b) mod fieldP;
           e = (aa - bb + fieldP) mod fieldP;
           c = (x3 + z3) mod fieldP; d = (x3 - z3 + fieldP) mod fieldP;
           da = (d * a) mod fieldP; cb = (c * b) mod fieldP;
           dacb = (da + cb) mod fieldP; dacbm = (da - cb + fieldP) mod fieldP
       in ((aa * bb) mod fieldP, (e * (aa + A24 * e)) mod fieldP, (dacb * dacb) mod fieldP, (x1 * dacbm * dacbm) mod fieldP))"

definition swap_pairs :: "int \<Rightarrow> int \<times> int \<times> int \<times> int \<Rightarrow> int \<times> int \<times> int \<times> int" where
  "swap_pairs swap s =
     (case s of (x2, z2, x3, z3) \<Rightarrow>
        case (cswap swap x2 x3, cswap swap z2 z3) of ((x2, x3), (z2, z3)) \<Rightarrow> (x2, z2, x3, z3))"

definition ladder_step :: "int \<Rightarrow> int \<Rightarrow> (int \<times> int \<times> int \<times> int) \<times> int \<Rightarrow> nat \<Rightarrow> (int \<times> int \<times> int \<times> int) \<times> int" where
  "ladder_step x1 bits st t =
     (let kt = drop_bit t bits AND 1; swap = snd st XOR kt
      in (ladder_round x1 (swap_pairs swap (fst st)), kt))"

definition ladder :: "int \<Rightarrow> int \<Rightarrow> (int \<times> int \<times> int \<times> int) \<times> int" where
  "ladder x1 bits = foldl (ladder_step x1 bits) ((1, 0, x1, 1), 0) (rev [0..<255])"

definition x25519 :: "bytes \<Rightarrow> bytes \<Rightarrow> bytes" where
  "x25519 sk u =
     (let k = clamp sk; x1 = decodeU u; bits = leToN k
      in case ladder x1 bits of (s, swap) \<Rightarrow>
           case swap_pairs swap s of (x2, z2, _, _) \<Rightarrow> nToLe ((x2 * modInv z2) mod fieldP))"

definition x25519Pub :: "bytes \<Rightarrow> bytes" where
  "x25519Pub sk = x25519 sk X25519_BASE"

section \<open>X25519 over WebCrypto (noble.ts)\<close>

text \<open>
  What WebCrypto computes: the public key of a scalar in PKCS\#8, and the bits derived with a raw public
  key; \<^term>\<open>None\<close> is an exception.
\<close>

record webcrypto =
  wc_pub :: "bytes \<Rightarrow> bytes option"
  wc_derive :: "bytes \<Rightarrow> bytes \<Rightarrow> bytes option"

definition X25519_PKCS8_PREFIX :: bytes where
  "X25519_PKCS8_PREFIX =
     [0x30, 0x2e, 0x02, 0x01, 0x00, 0x30, 0x05, 0x06, 0x03, 0x2b, 0x65, 0x6e, 0x04, 0x22, 0x04, 0x20]"

definition x25519Pkcs8FromSk :: "bytes \<Rightarrow> bytes vs" where
  "x25519Pkcs8FromSk sk =
     (let out = replicate (length X25519_PKCS8_PREFIX + 32) 0
      in andThen (ta_set out X25519_PKCS8_PREFIX 0) (\<lambda>out. ta_set out (take 32 sk) (length X25519_PKCS8_PREFIX)))"

text \<open>\<open>raw\<close>: 32 random bytes. The result is the scalar and its public key.\<close>

definition genX25519 :: "webcrypto \<Rightarrow> bytes \<Rightarrow> (bytes \<times> bytes) vs" where
  "genX25519 w raw =
     (let raw = clamp raw
      in case asX25519Sk raw of
           Ok priv \<Rightarrow>
             (let want = x25519Pub priv
              in andThen (x25519Pkcs8FromSk priv) (\<lambda>pkcs8.
                 andThen (prim (wc_pub w pkcs8)) (\<lambda>got.
                 if \<not> bytesEqual got want then Throw else Ok (priv, want))))
         | _ \<Rightarrow> Throw)"

text \<open>When WebCrypto does not support the derivation, the ladder computes it.\<close>

definition x25519Shared :: "webcrypto \<Rightarrow> bytes \<Rightarrow> bytes \<Rightarrow> bytes vs" where
  "x25519Shared w priv peerPub =
     andThen (x25519Pkcs8FromSk priv) (\<lambda>pkcs8.
     case wc_derive w pkcs8 peerPub of
       Some bits \<Rightarrow> Ok bits
     | None \<Rightarrow> Ok (x25519 priv peerPub))"

section \<open>Pairing (pairing.ts, enclave.ts)\<close>

definition X25519_PUB_LEN :: nat where
  "X25519_PUB_LEN = 32"

definition DHKE_RESP_MIN :: nat where
  "DHKE_RESP_MIN = X25519_PUB_LEN + 24 + 16"

definition asDHKEReq :: "bytes \<Rightarrow> bytes vs" where
  "asDHKEReq b = (if length b \<noteq> X25519_PUB_LEN then Err InvalidParam else Ok b)"

definition asDHKEResp :: "bytes \<Rightarrow> bytes vs" where
  "asDHKEResp b = (if length b < DHKE_RESP_MIN then Err InvalidParam else Ok b)"

definition pairKey :: "prims \<Rightarrow> webcrypto \<Rightarrow> bytes \<Rightarrow> bytes \<Rightarrow> bytes \<Rightarrow> bytes \<Rightarrow> bytes vs" where
  "pairKey p w sk peer reqPub respPub =
     (if length peer \<noteq> X25519_PUB_LEN then Err InvalidParam
      else andThen (catch_err (x25519Shared w sk peer) CryptoError) (\<lambda>shared.
        if length shared \<noteq> X25519_PUB_LEN \<or> list_all (\<lambda>b. b = 0) shared then Err InvalidParam
        else deriveKey p shared Pair (RawKdm (reqPub @ respPub))))"

definition sealPair :: "prims \<Rightarrow> webcrypto \<Rightarrow> bytes \<Rightarrow> bytes \<Rightarrow> (bytes \<times> bytes) vs" where
  "sealPair p w raw dhkeReq =
     andThen (catch_err (genX25519 w raw) CryptoError) (\<lambda>(priv, pub).
     andThen (pairKey p w priv dhkeReq dhkeReq pub) (\<lambda>key. Ok (key, pub)))"

text \<open>\<open>acks\<close>: the user affirmed to control both sides.\<close>

definition pairAccept :: "prims \<Rightarrow> webcrypto \<Rightarrow> bytes \<Rightarrow> bytes \<Rightarrow> OuterEnclave \<Rightarrow> bytes \<Rightarrow> BundleHost list \<Rightarrow> bool \<Rightarrow> bytes vs" where
  "pairAccept p w raw nonce oe dhkeReq hosts acks =
     (if \<not> acks then Err InvalidParam
      else andThen (sealPair p w raw dhkeReq) (\<lambda>(key, pub).
           andThen (sealSeedHosts p nonce (oe_inner oe) key hosts) (\<lambda>body.
           asDHKEResp (pub @ body))))"

record PairRequest =
  pr_priv :: bytes
  pr_dhkeReq :: bytes

definition pair_create :: "webcrypto \<Rightarrow> bytes \<Rightarrow> PairRequest vs" where
  "pair_create w raw =
     catch_err
       (andThen (genX25519 w raw) (\<lambda>(priv, pub).
        andThen (asDHKEReq pub) (\<lambda>dhkeReq. Ok \<lparr>pr_priv = priv, pr_dhkeReq = dhkeReq\<rparr>)))
       CryptoError"

definition pair_wipe :: "PairRequest \<Rightarrow> PairRequest" where
  "pair_wipe r = r\<lparr>pr_priv := replicate (length (pr_priv r)) 0\<rparr>"

definition pair_dhkeReq :: "PairRequest \<Rightarrow> bytes vs" where
  "pair_dhkeReq r = asDHKEReq (pr_dhkeReq r)"

definition pair_finish :: "prims \<Rightarrow> webcrypto \<Rightarrow> PairRequest \<Rightarrow> bytes \<Rightarrow> PairRequest \<times> (OuterEnclave \<times> BundleHost list) vs" where
  "pair_finish p w r dhkeResp =
     (let respPub = take X25519_PUB_LEN dhkeResp; body = drop X25519_PUB_LEN dhkeResp
      in case pairKey p w (pr_priv r) respPub (pr_dhkeReq r) respPub of
           Ok key \<Rightarrow>
             (case decryptXSalsa20Poly1305Combined p body key of
                Ok plain \<Rightarrow>
                  (case fromSeedHosts plain of Ok out \<Rightarrow> (pair_wipe r, Ok out) | out \<Rightarrow> (r, out))
              | _ \<Rightarrow> (r, Err DecryptionError))
         | Err s \<Rightarrow> (r, Err s) | Throw \<Rightarrow> (r, Throw) | Hang \<Rightarrow> (r, Hang))"

section \<open>Field elements and bytes\<close>

lemma fieldP_value: "fieldP = 2 ^ 255 - 19"
  by (simp add: fieldP_def push_bit_eq_mult)

lemma fieldP_pos [simp]: "0 < fieldP" "fieldP < 2 ^ 255" "fieldP \<noteq> 0" "2 < fieldP" "\<bar>fieldP\<bar> = fieldP"
  by (simp_all add: fieldP_value)

lemma smod_fieldP: "n smod fieldP = (if n < 0 then - (- n mod fieldP) else n mod fieldP)"
  by (cases "n = 0") (simp_all add: signed_modulo_int_def)

lemma js_mod_mod: "(n smod fieldP + fieldP) smod fieldP = n mod fieldP"
proof (cases "n < 0")
  case True
  have "- n mod fieldP < fieldP" by (rule pos_mod_bound) simp
  then have "\<not> fieldP < - n mod fieldP" by linarith
  moreover have "(- (- n mod fieldP) + fieldP) mod fieldP = n mod fieldP" by (simp add: mod_minus_eq)
  ultimately show ?thesis using True by (simp add: smod_fieldP)
next
  case False
  then have "0 \<le> n mod fieldP" by simp
  then have "\<not> n mod fieldP + fieldP < 0" using fieldP_pos(1) by linarith
  then show ?thesis using False by (simp add: smod_fieldP)
qed

lemma leToN_simps: "leToN [] = 0" "leToN (x # xs) = 256 * leToN xs + uint x"
proof -
  show "leToN [] = 0" by (simp add: leToN_def)
  have "push_bit 8 n AND uint x = 0" for n
  proof (rule bit_eqI)
    fix i
    show "bit (push_bit 8 n AND uint x) i = bit (0 :: int) i"
      by (cases "i < 8") (simp_all add: bit_and_iff bit_push_bit_iff bit_uint_iff)
  qed
  then have "push_bit 8 n OR uint x = push_bit 8 n + uint x" for n using plus_and_or [of "push_bit 8 n" "uint x"] by simp
  then show "leToN (x # xs) = 256 * leToN xs + uint x" by (simp add: leToN_def push_bit_eq_mult)
qed

lemma leToN_bounds: "0 \<le> leToN b \<and> leToN b < 256 ^ length b"
proof (induction b)
  case (Cons x xs)
  have "uint x < 256" using uint_lt2p [of x] by simp
  then show ?case using Cons uint_nonnegative [of x] by (simp add: leToN_simps)
qed (simp add: leToN_simps)

lemma length_le_bytes [simp]: "length (le_bytes n x) = n"
  by (induction n arbitrary: x) simp_all

lemma leToN_le_bytes: "0 \<le> x \<Longrightarrow> leToN (le_bytes n x) = x mod 256 ^ n"
proof (induction n arbitrary: x)
  case (Suc n)
  have "x AND 0xff = x mod 256" using take_bit_eq_mask [of 8 x] by (simp add: take_bit_eq_mod mask_numeral)
  then have b: "uint (word_of_int (x AND 0xff) :: 8 word) = x mod 256" by (simp add: unsigned_of_int take_bit_eq_mod)
  have "0 \<le> x div 256" using Suc.prems by simp
  from Suc.IH [OF this] b have "leToN (le_bytes (Suc n) x) = 256 * (x div 256 mod 256 ^ n) + x mod 256"
    by (simp add: leToN_simps drop_bit_eq_div)
  also have "\<dots> = x mod 256 ^ Suc n" by (simp add: zmod_zmult2_eq)
  finally show ?case .
qed (simp add: leToN_simps)

lemma nToLe_canonical: "length (nToLe n) = 32" "leToN (nToLe n) = n mod fieldP"
proof -
  show "length (nToLe n) = 32" by (simp add: nToLe_def)
  have "n mod fieldP < 256 ^ 32" using pos_mod_bound [of fieldP n] fieldP_pos(1,2) by (simp add: fieldP_value)
  then show "leToN (nToLe n) = n mod fieldP" by (simp add: nToLe_def js_mod_mod leToN_le_bytes)
qed

text \<open>The ladder divides non-negative numbers only.\<close>

definition nonneg :: "int \<times> int \<times> int \<times> int \<Rightarrow> bool" where
  "nonneg s = (case s of (x2, z2, x3, z3) \<Rightarrow> 0 \<le> x2 \<and> 0 \<le> z2 \<and> 0 \<le> x3 \<and> 0 \<le> z3 \<and> z2 < fieldP \<and> z3 < fieldP)"

lemma ladder_bounds: "nonneg (ladder_round x1 s)"
  unfolding ladder_round_def nonneg_def Let_def by (cases s) (simp only: prod.case pos_mod_sign pos_mod_bound fieldP_pos(1) simp_thms)

section \<open>The ladder without swaps\<close>

definition flip :: "int \<times> int \<times> int \<times> int \<Rightarrow> int \<times> int \<times> int \<times> int" where
  "flip s = (case s of (x2, z2, x3, z3) \<Rightarrow> (x3, z3, x2, z2))"

definition plain_step :: "int \<Rightarrow> int \<Rightarrow> int \<times> int \<times> int \<times> int \<Rightarrow> nat \<Rightarrow> int \<times> int \<times> int \<times> int" where
  "plain_step x1 bits s t = (if bit bits t then flip (ladder_round x1 (flip s)) else ladder_round x1 s)"

definition plain_ladder :: "int \<Rightarrow> int \<Rightarrow> int \<times> int \<times> int \<times> int" where
  "plain_ladder x1 bits = foldl (plain_step x1 bits) (1, 0, x1, 1) (rev [0..<255])"

lemma xor_cancel: "(a :: int) XOR (a XOR b) = b" "(b :: int) XOR (a XOR b) = a"
  by (simp_all flip: xor.assoc) (simp add: xor.commute [of b] xor.assoc)

lemma swap_pairs_bit: "swap_pairs (of_bool c) s = (if c then flip s else s)"
  by (cases s) (simp add: swap_pairs_def cswap_def flip_def Let_def xor_cancel)

lemma flip_flip [simp]: "flip (flip s) = s"
  by (cases s) (simp add: flip_def)

lemma ladder_plain:
  "\<exists>s c. foldl (ladder_step x1 bits) (s0, of_bool c0) ts = (s, of_bool c)
     \<and> swap_pairs (of_bool c) s = foldl (plain_step x1 bits) (swap_pairs (of_bool c0) s0) ts"
proof (induction ts arbitrary: s0 c0)
  case (Cons t ts)
  have k: "drop_bit t bits AND 1 = (of_bool (bit bits t) :: int)" by (simp add: and_one_eq bit_iff_odd_drop_bit mod2_eq_if)
  have "(of_bool c0 XOR of_bool (bit bits t) :: int) = of_bool (c0 \<noteq> bit bits t)" by (cases c0; cases "bit bits t") simp_all
  then have "ladder_step x1 bits (s0, of_bool c0) t = (ladder_round x1 (swap_pairs (of_bool (c0 \<noteq> bit bits t)) s0), of_bool (bit bits t))"
    by (simp only: ladder_step_def k Let_def fst_conv snd_conv)
  moreover have "swap_pairs (of_bool (bit bits t)) (ladder_round x1 (swap_pairs (of_bool (c0 \<noteq> bit bits t)) s0)) =
      plain_step x1 bits (swap_pairs (of_bool c0) s0) t"
    by (auto simp: swap_pairs_bit plain_step_def)
  ultimately show ?case
    using Cons.IH [of "ladder_round x1 (swap_pairs (of_bool (c0 \<noteq> bit bits t)) s0)" "bit bits t"] by simp
qed auto

lemma modInv_loop_power: "modInv_loop e b r mod fieldP = (r * b ^ nat e) mod fieldP"
proof (induction e b r rule: modInv_loop.induct)
  case (1 e b r)
  show ?case
  proof (cases "e > 0")
    case True
    let ?k = "nat (drop_bit 1 e)"
    have e: "nat e = 2 * ?k + (if odd e then 1 else 0)"
      using True by (auto simp: drop_bit_eq_div nat_eq_iff2 elim!: evenE oddE)
    have o: "(e AND 1 \<noteq> 0) = odd e" by (simp add: and_one_eq odd_iff_mod_2_eq_one)
    have "modInv_loop e b r mod fieldP = ((if odd e then r * b mod fieldP else r) * (b * b mod fieldP) ^ ?k) mod fieldP"
      using 1 [OF True] True by (simp add: modInv_loop.simps [of e] o)
    also have "\<dots> = ((if odd e then r * b else r) * (b * b) ^ ?k) mod fieldP"
      by (simp add: mod_mult_left_eq mod_mult_right_eq power_mod mod_mult_cong [OF _ power_mod])
    also have "(if odd e then r * b else r) * (b * b) ^ ?k = r * b ^ nat e"
      by (simp add: e power_add power_mult power2_eq_square)
    finally show ?thesis .
  qed (simp add: modInv_loop.simps [of e])
qed

lemma modInv_power: "modInv z mod fieldP = z ^ nat (fieldP - 2) mod fieldP"
  by (simp add: modInv_def modInv_loop_power js_mod_mod power_mod)

section \<open>Keys and pairing\<close>

lemma length_clamp [simp]: "length (clamp sk) = length sk"
  by (simp add: clamp_def Let_def)

lemma clamp_idem: "length sk = 32 \<Longrightarrow> clamp (clamp sk) = clamp sk"
proof -
  assume l: "length sk = 32"
  have m: "((a :: 8 word) AND 127 OR 64) AND 127 OR 64 = a AND 127 OR 64" "((a :: 8 word) AND 248) AND 248 = a AND 248" for a
    by (rule bit_eqI, auto simp: bit_simps bit_or_iff bit_and_iff)+
  show ?thesis
    by (rule nth_equalityI) (use l in \<open>auto simp: clamp_def Let_def nth_list_update m\<close>)
qed

lemma length_x25519 [simp]: "length (x25519 sk u) = 32" "length (x25519Pub sk) = 32"
  by (simp_all add: x25519_def x25519Pub_def Let_def nToLe_canonical split: prod.split)

text \<open>What WebCrypto documents: the public key it exports is the one of RFC 7748, and both sides of an exchange between
  clamped scalars derive the same 32 bytes, which are not all zero.\<close>

definition wc_ok :: "webcrypto \<Rightarrow> bool" where
  "wc_ok w =
     ((\<forall>a. length a = 32 \<longrightarrow> clamp a = a \<longrightarrow> wc_pub w (X25519_PKCS8_PREFIX @ a) = Some (x25519Pub a)) \<and>
      (\<forall>a b. length a = 32 \<longrightarrow> length b = 32 \<longrightarrow> clamp a = a \<longrightarrow> clamp b = b \<longrightarrow>
         (\<exists>s. wc_derive w (X25519_PKCS8_PREFIX @ a) (x25519Pub b) = Some s \<and>
              wc_derive w (X25519_PKCS8_PREFIX @ b) (x25519Pub a) = Some s \<and> length s = 32 \<and> \<not> list_all (\<lambda>b. b = 0) s)))"

lemma pkcs8_of_sk [simp]: "length sk = 32 \<Longrightarrow> x25519Pkcs8FromSk sk = Ok (X25519_PKCS8_PREFIX @ sk)"
  by (simp add: x25519Pkcs8FromSk_def X25519_PKCS8_PREFIX_def ta_set_def)

lemma genX25519_ok:
  "wc_ok w \<Longrightarrow> length raw = 32 \<Longrightarrow> genX25519 w raw = Ok (clamp raw, x25519Pub (clamp raw))"
  by (simp add: genX25519_def asX25519Sk_def wc_ok_def clamp_idem bytesEqual_eq Let_def)

lemma pairKey_agree:
  assumes "prims_ok p" "wc_ok w" "length a = 32" "length b = 32" "clamp a = a" "clamp b = b"
  obtains key where "length key = 32" "pairKey p w a (x25519Pub b) req resp = Ok key" "pairKey p w b (x25519Pub a) req resp = Ok key"
proof -
  obtain s where s: "wc_derive w (X25519_PKCS8_PREFIX @ a) (x25519Pub b) = Some s"
      "wc_derive w (X25519_PKCS8_PREFIX @ b) (x25519Pub a) = Some s" "length s = 32" "\<not> list_all (\<lambda>b. b = 0) s"
    using assms(2) [unfolded wc_ok_def, THEN conjunct2, rule_format, OF assms(3,4,5,6)] by blast
  show ?thesis
    by (rule that [of "dkey p s Pair (req @ resp)"])
       (simp_all add: pairKey_def x25519Shared_def s assms X25519_PUB_LEN_def deriveKey_raw)
qed

text \<open>A request is wiped exactly when the response was opened.\<close>

lemma finish_wipes: "fst (pair_finish p w r resp) = (case snd (pair_finish p w r resp) of Ok _ \<Rightarrow> pair_wipe r | _ \<Rightarrow> r)"
  by (simp add: pair_finish_def Let_def split: vs.split)

lemma decodeU_31: "u ! 31 AND 127 = v ! 31 AND 127 \<Longrightarrow> \<forall>i < 31. u ! i = v ! i \<Longrightarrow> length u = 32 \<Longrightarrow> length v = 32 \<Longrightarrow> decodeU u = decodeU v"
proof -
  assume "u ! 31 AND 127 = v ! 31 AND 127" "\<forall>i < 31. u ! i = v ! i" "length u = 32" "length v = 32"
  then have "u[31 := u ! 31 AND 127] = v[31 := v ! 31 AND 127]"
    by (intro nth_equalityI) (auto simp: nth_list_update)
  then show ?thesis by (simp add: decodeU_def)
qed

section \<open>Properties\<close>

text \<open>C25: X25519 gives canonical field elements, 32 little-endian bytes of a number below 2^255 - 19; its result does not change when
  the scalar is clamped beforehand or when the top bit of the point, which RFC 7748 says to ignore, differs.\<close>

theorem x25519_canonical:
  assumes "length sk = 32" "length u = 32" "length v = 32" "\<forall>i < 31. u ! i = v ! i" "u ! 31 AND 127 = v ! 31 AND 127"
  shows "length (x25519 sk u) = 32 \<and> leToN (x25519 sk u) < fieldP \<and> x25519 (clamp sk) u = x25519 sk u \<and> x25519 sk u = x25519 sk v"
proof -
  have "leToN (x25519 sk u) < fieldP" by (simp add: x25519_def Let_def nToLe_canonical split: prod.split)
  moreover have "x25519 (clamp sk) u = x25519 sk u" by (simp add: x25519_def clamp_idem assms(1))
  moreover have "x25519 sk u = x25519 sk v" using decodeU_31 [OF assms(5,4,2,3)] by (simp add: x25519_def)
  ultimately show ?thesis by simp
qed

text \<open>C24: The constant-time ladder computes what the textbook ladder does: swapping by masks on the difference of consecutive
  scalar bits is branching on each bit, and the inversion loop is the power \<open>p - 2\<close>.\<close>

theorem x25519_ladder:
  "x25519 sk u = (case plain_ladder (decodeU u) (leToN (clamp sk)) of (x, z, _) \<Rightarrow> nToLe (x * z ^ nat (fieldP - 2)))"
proof -
  obtain s c where s: "ladder (decodeU u) (leToN (clamp sk)) = (s, of_bool c)"
      "swap_pairs (of_bool c) s = plain_ladder (decodeU u) (leToN (clamp sk))"
    using ladder_plain [of "decodeU u" "leToN (clamp sk)" "(1, 0, decodeU u, 1)" False "rev [0..<255]"]
    by (auto simp: ladder_def plain_ladder_def swap_pairs_bit [of False, simplified])
  obtain x z r where x: "plain_ladder (decodeU u) (leToN (clamp sk)) = (x, z, r)" by (cases "plain_ladder (decodeU u) (leToN (clamp sk))") auto
  have "(x * modInv z) mod fieldP mod fieldP = x * z ^ nat (fieldP - 2) mod fieldP"
    by (metis modInv_power mod_mod_trivial mod_mult_right_eq)
  then have "nToLe ((x * modInv z) mod fieldP) = nToLe (x * z ^ nat (fieldP - 2))" by (simp add: nToLe_def js_mod_mod del: mod_mod_trivial)
  then show ?thesis by (simp add: x25519_def s x Let_def split: prod.split)
qed

text \<open>C11: Pairing hands the master seed to the new device: the request of a fresh session, accepted by the owner of a seed, yields a
  response that the session opens to the same enclave and the same hosts, and the session's scalar is wiped.\<close>

theorem pairing_transfers:
  assumes "prims_ok p" "wc_ok w" "length raw = 32" "length raw' = 32" "length nonce = 24"
    and "seed_ok (oe_inner oe)" "list_ex (\<lambda>b. b \<noteq> 0) (ie_seed (oe_inner oe))" "identityHosts_ok (map host_norm hosts)"
  shows "\<exists>req resp. pair_create w raw = Ok req
    \<and> andThen (pair_dhkeReq req) (\<lambda>dhkeReq. pairAccept p w raw' nonce oe dhkeReq hosts True) = Ok resp
    \<and> pair_finish p w req resp = (req\<lparr>pr_priv := replicate 32 0\<rparr>, Ok (oe, map host_norm hosts))"
proof -
  let ?a = "clamp raw" and ?b = "clamp raw'"
  obtain key where key: "length key = 32"
      "pairKey p w ?a (x25519Pub ?b) (x25519Pub ?a) (x25519Pub ?b) = Ok key"
      "pairKey p w ?b (x25519Pub ?a) (x25519Pub ?a) (x25519Pub ?b) = Ok key"
    by (rule pairKey_agree [OF assms(1,2), of ?a ?b]) (use assms(3,4) in \<open>simp_all add: clamp_idem\<close>)
  obtain body where body: "encryptXSalsa20Poly1305Combined p nonce (ie_seed (oe_inner oe) @ identityHosts_wire (map host_norm hosts)) key = Ok body"
      "decryptXSalsa20Poly1305Combined p body key = Ok (ie_seed (oe_inner oe) @ identityHosts_wire (map host_norm hosts))"
      "40 \<le> length body"
    using box_roundtrip [OF assms(1) key(1) assms(5)] by (metis le_add2)
  let ?req = "\<lparr>pr_priv = ?a, pr_dhkeReq = x25519Pub ?a\<rparr>" and ?resp = "x25519Pub ?b @ body"
  have "pair_create w raw = Ok ?req"
    by (simp add: pair_create_def genX25519_ok assms asDHKEReq_def X25519_PUB_LEN_def)
  moreover have "andThen (pair_dhkeReq ?req) (\<lambda>dhkeReq. pairAccept p w raw' nonce oe dhkeReq hosts True) = Ok ?resp"
    using body by (simp add: pair_dhkeReq_def asDHKEReq_def X25519_PUB_LEN_def pairAccept_def sealPair_def genX25519_ok assms key
        sealSeedHosts_def exportSeedHosts_ok asDHKEResp_def DHKE_RESP_MIN_def)
  moreover have "pair_finish p w ?req ?resp = (?req\<lparr>pr_priv := replicate 32 0\<rparr>, Ok (oe, map host_norm hosts))"
    by (simp add: pair_finish_def X25519_PUB_LEN_def key body fromSeedHosts_ok assms pair_wipe_def)
  ultimately show ?thesis by blast
qed

section \<open>Witnesses\<close>

definition toy_webcrypto :: webcrypto where
  "toy_webcrypto = \<lparr>wc_pub = \<lambda>pk. Some (x25519Pub (drop 16 pk)), wc_derive = \<lambda>_ _. Some (replicate 32 1)\<rparr>"

lemma toy_webcrypto_ok: "wc_ok toy_webcrypto"
  by (simp add: wc_ok_def toy_webcrypto_def X25519_PKCS8_PREFIX_def list_all_iff)

theorem x25519_canonical_witness:
  "x25519 (replicate 32 1) (replicate 31 7 @ [0x80]) = x25519 (replicate 32 1) (replicate 31 7 @ [0])"
  using x25519_canonical [of "replicate 32 1" "replicate 31 7 @ [0x80]" "replicate 31 7 @ [0]"] by (simp add: nth_append)

theorem pairing_transfers_witness:
  "\<exists>req resp. pair_create toy_webcrypto (replicate 32 3) = Ok req
    \<and> andThen (pair_dhkeReq req) (\<lambda>dhkeReq. pairAccept toy_prims toy_webcrypto (replicate 32 4) (replicate 24 1)
        \<lparr>oe_inner = \<lparr>ie_seed = replicate 32 5\<rparr>\<rparr> dhkeReq [] True) = Ok resp
    \<and> pair_finish toy_prims toy_webcrypto req resp =
        (req\<lparr>pr_priv := replicate 32 0\<rparr>, Ok (\<lparr>oe_inner = \<lparr>ie_seed = replicate 32 5\<rparr>\<rparr>, []))"
proof -
  have "identityHosts_ok (map host_norm [])" by (simp add: identityHosts_ok_def short_def)
  from pairing_transfers [OF toy_prims_ok toy_webcrypto_ok _ _ _ _ _ this, of "replicate 32 3" "replicate 32 4" "replicate 24 1"
      "\<lparr>oe_inner = \<lparr>ie_seed = replicate 32 5\<rparr>\<rparr>"]
  show ?thesis by (simp add: seed_ok_def list_ex_iff)
qed

end
