(* ===== verification/Worker.thy ===== *)
theory Worker
  imports Client Coalesce
begin

text \<open>
  The sync worker as the main thread sees it: the messages between both sides (\<^verbatim>\<open>web/src/worker/protocol.ts\<close>)
  and the client over a worker (\<^verbatim>\<open>web/src/worker/client.ts\<close>), which writes locally and asks the worker for
  everything that needs the network.

  Each request is a promise that waits in a table under a fresh number until a reply with that number arrives.
  A handler is split where it awaits: what it does before its request is one operation, and what it makes of the
  answer is a function of the answer. Workers are numbered as they are created. Whatever a handler does when
  several may run is an event of \<^verbatim>\<open>wk_run\<close>.

  The properties: a request is answered at most once, and is either waiting or answered; the end of the worker
  answers all of them; replacing the worker does not, and stops the scheduled synchronisation for good.
\<close>

section \<open>Messages (protocol.ts)\<close>

record SerializedHost =
  sh_handle :: jsstr
  sh_label :: jsstr
  sh_idx :: int

datatype WorkerOp =
    OpPing
  | OpSetSeed bytes "bool option"
  | OpBind jsstr jsstr jsstr
  | OpLink SerializedHost "bool option"
  | OpUnlink jsstr
  | OpConnect "bool option" "bool option"
  | OpDisconnect
  | OpSync
  | OpRebuild "bool option"
  | OpReconcile jsstr "bool option" "bool option" "bool option"
  | OpMsgcheck
  | OpEntcheck
  | OpWipe "bool option" "bool option" "bool option" "bool option"
  | OpImport bytes
  | OpExport
  | OpGetXferState

record WorkerCmd =
  wm_id :: nat
  wm_op :: WorkerOp

text \<open>What a structured clone of unknown type may be.\<close>

datatype unk = UUndef | UNull | UBool bool | UNum int | UStr jsstr | UBytes bytes | UObj "(jsstr \<times> unk) list"

datatype SyncPhase = PhPeek | PhPull | PhOpen | PhExec | PhPush | PhImport | PhIdle

record SyncProgressEvent =
  pg_phase :: SyncPhase
  pg_host :: "jsstr option"
  pg_done :: "int option"
  pg_total :: "int option"
  pg_bytesDone :: "int option"
  pg_bytesTotal :: "int option"

definition idleProgress :: SyncProgressEvent where
  "idleProgress = \<lparr>pg_phase = PhIdle, pg_host = None, pg_done = None, pg_total = None, pg_bytesDone = None, pg_bytesTotal = None\<rparr>"

record XferState =
  xs_numUploads :: int
  xs_numDownloads :: int
  xs_progress :: SyncProgressEvent

datatype WorkerEvent =
    EvReady
  | EvInitError jsstr
  | EvClientState bool
  | EvXferState XferState
  | EvDirty "bytes list"
  | EvWiped
  | EvReplyOk nat unk
  | EvReplyErr nat status

text \<open>A property of a value, if it is an object that has it.\<close>

fun uprop :: "jsstr \<Rightarrow> unk \<Rightarrow> unk option" where
  "uprop k (UObj fs) = map_of fs k"
| "uprop k _ = None"

fun unum :: "unk \<Rightarrow> int option" where
  "unum (UNum n) = Some n"
| "unum _ = None"

fun ustr :: "unk \<Rightarrow> jsstr option" where
  "ustr (UStr s) = Some s"
| "ustr _ = None"

definition isWorkerEvent :: "unk \<Rightarrow> bool" where
  "isWorkerEvent data = (Option.bind (uprop (js ''kind'') data) ustr \<noteq> None)"

definition isWorkerCmd :: "unk \<Rightarrow> bool" where
  "isWorkerCmd data = (Option.bind (uprop (js ''op'') data) ustr \<noteq> None \<and> Option.bind (uprop (js ''id'') data) unum \<noteq> None)"

definition statusFromUnknown :: "unk \<Rightarrow> status option" where
  "statusFromUnknown v = (case v of UNum n \<Rightarrow> Some (status_of_code (nat n)) | _ \<Rightarrow> None)"

definition phase_name :: "SyncPhase \<Rightarrow> jsstr" where
  "phase_name p = (case p of PhPeek \<Rightarrow> js ''peek'' | PhPull \<Rightarrow> js ''pull'' | PhOpen \<Rightarrow> js ''open'' | PhExec \<Rightarrow> js ''exec''
     | PhPush \<Rightarrow> js ''push'' | PhImport \<Rightarrow> js ''import'' | PhIdle \<Rightarrow> js ''idle'')"

definition phaseFromUnknown :: "unk \<Rightarrow> SyncPhase option" where
  "phaseFromUnknown p = find (\<lambda>ph. p = UStr (phase_name ph)) [PhPeek, PhPull, PhOpen, PhExec, PhPush, PhImport, PhIdle]"

definition progressFromUnknown :: "unk \<Rightarrow> SyncProgressEvent option" where
  "progressFromUnknown v =
     (let field = (\<lambda>k. uprop (js k) v)
      in case Option.bind (field ''phase'') phaseFromUnknown of
        None \<Rightarrow> None
      | Some phase \<Rightarrow>
          Some \<lparr>pg_phase = phase, pg_host = Option.bind (field ''host'') ustr, pg_done = Option.bind (field ''done'') unum,
                pg_total = Option.bind (field ''total'') unum, pg_bytesDone = Option.bind (field ''bytesDone'') unum,
                pg_bytesTotal = Option.bind (field ''bytesTotal'') unum\<rparr>)"

definition xferStateFromUnknown :: "unk \<Rightarrow> XferState option" where
  "xferStateFromUnknown v =
     (case (Option.bind (uprop (js ''numUploads'') v) unum, Option.bind (uprop (js ''numDownloads'') v) unum) of
        (Some up, Some down) \<Rightarrow>
          (case uprop (js ''progress'') v of
             None \<Rightarrow> Some \<lparr>xs_numUploads = up, xs_numDownloads = down, xs_progress = idleProgress\<rparr>
           | Some progress \<Rightarrow>
               map_option (\<lambda>parsed. \<lparr>xs_numUploads = up, xs_numDownloads = down, xs_progress = parsed\<rparr>)
                 (progressFromUnknown progress))
      | _ \<Rightarrow> None)"

text \<open>The object a state is: an absent field is no property.\<close>

definition uopt :: "string \<Rightarrow> ('a \<Rightarrow> unk) \<Rightarrow> 'a option \<Rightarrow> (jsstr \<times> unk) list" where
  "uopt k f v = (case v of None \<Rightarrow> [] | Some x \<Rightarrow> [(js k, f x)])"

definition progress_unk :: "SyncProgressEvent \<Rightarrow> unk" where
  "progress_unk g =
     UObj ([(js ''phase'', UStr (phase_name (pg_phase g)))] @ uopt ''host'' UStr (pg_host g) @ uopt ''done'' UNum (pg_done g)
       @ uopt ''total'' UNum (pg_total g) @ uopt ''bytesDone'' UNum (pg_bytesDone g) @ uopt ''bytesTotal'' UNum (pg_bytesTotal g))"

definition xferState_unk :: "XferState \<Rightarrow> unk" where
  "xferState_unk s =
     UObj [(js ''numUploads'', UNum (xs_numUploads s)), (js ''numDownloads'', UNum (xs_numDownloads s)),
           (js ''progress'', progress_unk (xs_progress s))]"

definition isReconcileReport :: "unk \<Rightarrow> bool" where
  "isReconcileReport v =
     (case uprop (js ''msgcheck'') v of
        Some (UBytes b) \<Rightarrow>
          length b = 32 \<and> Option.bind (uprop (js ''numBags'') v) unum \<noteq> None \<and> Option.bind (uprop (js ''numDupes'') v) unum \<noteq> None
      | _ \<Rightarrow> False)"

section \<open>The client over a worker (client.ts)\<close>

text \<open>How a promise ends: with a value, with the status of a reply, or with another error.\<close>

datatype answer = Answered unk | Refused status | Failed

datatype waiter = Rpc | Handshake

record ClientState =
  cs_hasSeed :: bool
  cs_hasHost :: bool
  cs_connected :: bool

datatype sched_wait = NoPass | PassIdle | PassAwaits nat

text \<open>
  \<open>wk_wired\<close> is the worker whose handlers are set, \<open>wk_timers\<close> the handshakes whose timer runs,
  \<open>wk_answers\<close> how the promises ended, \<open>wk_posted\<close> what was posted to which worker. \<open>wk_wait\<close> is what the
  running pass of the scheduled synchronisation waits for.
\<close>

record ('s, 'e) WorkerClient =
  wk_local :: "('s, 'e) SyncClient"
  wk_worker :: "nat option"
  wk_wired :: "nat option"
  wk_spawned :: nat
  wk_nextId :: nat
  wk_pending :: "(nat, waiter) jsmap"
  wk_timers :: "nat list"
  wk_sched :: "unit Debounced"
  wk_wait :: sched_wait
  wk_clientState :: ClientState
  wk_xferState :: XferState
  wk_answers :: "(nat \<times> answer) list"
  wk_posted :: "(nat \<times> WorkerCmd) list"
  wk_emits :: "(ClientState + XferState) list"

text \<open>The queue depths are read from the store, the session from the local client.\<close>

definition loadSession :: "'s ClientStore \<Rightarrow> bool \<Rightarrow> ('s, 'e) WorkerClient \<Rightarrow> ('s, 'e) WorkerClient" where
  "loadSession K online c =
     c\<lparr>wk_clientState :=
        \<lparr>cs_hasSeed = (cl_account (wk_local c) \<noteq> None),
         cs_hasHost = (0 < length (is_hosts_list (co_store K) (cl_store (wk_local c)))), cs_connected = online\<rparr>\<rparr>"

definition hydrateStateFromStore :: "'s ClientStore \<Rightarrow> int \<Rightarrow> int \<Rightarrow> ('s, 'e) WorkerClient \<Rightarrow> ('s, 'e) WorkerClient" where
  "hydrateStateFromStore K numUploads numDownloads c =
     (loadSession K False c)\<lparr>wk_xferState := \<lparr>xs_numUploads = numUploads, xs_numDownloads = numDownloads, xs_progress = idleProgress\<rparr>\<rparr>"

definition emitClient :: "('s, 'e) WorkerClient \<Rightarrow> ('s, 'e) WorkerClient" where
  "emitClient c = c\<lparr>wk_emits := wk_emits c @ [Inl (wk_clientState c)]\<rparr>"

definition emitXfer :: "('s, 'e) WorkerClient \<Rightarrow> ('s, 'e) WorkerClient" where
  "emitXfer c = c\<lparr>wk_emits := wk_emits c @ [Inr (wk_xferState c)]\<rparr>"

definition WorkerClient_open ::
    "'s ClientStore \<Rightarrow> int \<Rightarrow> int \<Rightarrow> int \<Rightarrow> ('s, 'e) SyncClient \<Rightarrow> ('s, 'e) WorkerClient" where
  "WorkerClient_open K debounce numUploads numDownloads local =
     hydrateStateFromStore K numUploads numDownloads
       \<lparr>wk_local = local, wk_worker = None, wk_wired = None, wk_spawned = 0, wk_nextId = 1, wk_pending = [], wk_timers = [],
        wk_sched = Debounced_new debounce, wk_wait = NoPass,
        wk_clientState = \<lparr>cs_hasSeed = False, cs_hasHost = False, cs_connected = False\<rparr>,
        wk_xferState = \<lparr>xs_numUploads = 0, xs_numDownloads = 0, xs_progress = idleProgress\<rparr>,
        wk_answers = [], wk_posted = [], wk_emits = []\<rparr>"

text \<open>A listener of the local client's transfers: its depths, the worker's progress.\<close>

definition onLocalXfer :: "int \<Rightarrow> int \<Rightarrow> ('s, 'e) WorkerClient \<Rightarrow> ('s, 'e) WorkerClient" where
  "onLocalXfer numUploads numDownloads c =
     emitXfer (c\<lparr>wk_xferState := (wk_xferState c)\<lparr>xs_numUploads := numUploads, xs_numDownloads := numDownloads\<rparr>\<rparr>)"

section \<open>Requests\<close>

definition allocId :: "('s, 'e) WorkerClient \<Rightarrow> ('s, 'e) WorkerClient \<times> nat" where
  "allocId c = (c\<lparr>wk_nextId := wk_nextId c + 1\<rparr>, wk_nextId c)"

definition postMessage :: "nat \<Rightarrow> WorkerCmd \<Rightarrow> ('s, 'e) WorkerClient \<Rightarrow> ('s, 'e) WorkerClient" where
  "postMessage w cmd c = c\<lparr>wk_posted := wk_posted c @ [(w, cmd)]\<rparr>"

text \<open>\<open>request({ id: this.allocId(), ... })\<close>. \<^term>\<open>Throw\<close> without a worker; otherwise the number of the promise.\<close>

definition request :: "WorkerOp \<Rightarrow> ('s, 'e) WorkerClient \<Rightarrow> ('s, 'e) WorkerClient \<times> nat vs" where
  "request cmd c =
     (case allocId c of
        (c, i) \<Rightarrow>
          (case wk_worker c of
             None \<Rightarrow> (c, Throw)
           | Some w \<Rightarrow> (postMessage w \<lparr>wm_id = i, wm_op = cmd\<rparr> (c\<lparr>wk_pending := map_set i Rpc (wk_pending c)\<rparr>), Ok i)))"

text \<open>\<open>resolve\<close> and \<open>reject\<close>: those of a handshake also clear its timer.\<close>

definition settle :: "nat \<Rightarrow> answer \<Rightarrow> ('s, 'e) WorkerClient \<Rightarrow> ('s, 'e) WorkerClient" where
  "settle i a c = c\<lparr>wk_timers := removeAll i (wk_timers c), wk_answers := wk_answers c @ [(i, a)]\<rparr>"

definition failPending :: "('s, 'e) WorkerClient \<Rightarrow> ('s, 'e) WorkerClient" where
  "failPending c = (foldl (\<lambda>c (i, _). settle i Failed c) c (wk_pending c))\<lparr>wk_pending := []\<rparr>"

definition bindWorker :: "nat \<Rightarrow> ('s, 'e) WorkerClient \<Rightarrow> ('s, 'e) WorkerClient" where
  "bindWorker w c = c\<lparr>wk_worker := Some w, wk_wired := Some w\<rparr>"

definition onReply :: "nat \<Rightarrow> answer \<Rightarrow> ('s, 'e) WorkerClient \<Rightarrow> ('s, 'e) WorkerClient" where
  "onReply i a c =
     (if map_has (wk_pending c) i then settle i a (c\<lparr>wk_pending := map_delete i (wk_pending c)\<rparr>) else c)"

text \<open>\<open>refresh\<close> of the state manager: the cache, if there is one, reads these entities again.\<close>

definition sm_refresh :: "(bytes list \<Rightarrow> 'e \<Rightarrow> 'e) option \<Rightarrow> bytes list \<Rightarrow> 'e StateManager \<Rightarrow> 'e StateManager" where
  "sm_refresh peerIngest eids sm =
     (case peerIngest of None \<Rightarrow> sm | Some ingest \<Rightarrow> sm\<lparr>sm_state := ingest eids (sm_state sm)\<rparr>)"

definition on_state :: "('e StateManager \<Rightarrow> 'e StateManager) \<Rightarrow> ('s, 'e) WorkerClient \<Rightarrow> ('s, 'e) WorkerClient" where
  "on_state f c = c\<lparr>wk_local := (wk_local c)\<lparr>cl_state := f (cl_state (wk_local c))\<rparr>\<rparr>"

text \<open>A message that is no event of the protocol is \<^term>\<open>None\<close>.\<close>

definition onMessage ::
    "'e AppState \<Rightarrow> (bytes list \<Rightarrow> 'e \<Rightarrow> 'e) option \<Rightarrow> WorkerEvent option \<Rightarrow> ('s, 'e) WorkerClient \<Rightarrow> ('s, 'e) WorkerClient" where
  "onMessage A peerIngest data c =
     (case data of
        None \<Rightarrow> c
      | Some msg \<Rightarrow>
          (case msg of
             EvReady \<Rightarrow> c
           | EvInitError _ \<Rightarrow> failPending c
           | EvClientState online \<Rightarrow>
               if cs_connected (wk_clientState c) = online then c
               else emitClient (c\<lparr>wk_clientState := (wk_clientState c)\<lparr>cs_connected := online\<rparr>\<rparr>)
           | EvXferState state \<Rightarrow> emitXfer (c\<lparr>wk_xferState := state\<rparr>)
           | EvDirty eids \<Rightarrow> on_state (sm_refresh peerIngest eids) c
           | EvWiped \<Rightarrow> on_state (\<lambda>sm. fst (sm_clear (as_clearer A) sm)) c
           | EvReplyOk i result \<Rightarrow> onReply i (Answered result) c
           | EvReplyErr i status \<Rightarrow> onReply i (Refused status) c))"

text \<open>Only the worker whose handlers are set is heard.\<close>

definition deliver ::
    "'e AppState \<Rightarrow> (bytes list \<Rightarrow> 'e \<Rightarrow> 'e) option \<Rightarrow> nat \<Rightarrow> WorkerEvent option \<Rightarrow> ('s, 'e) WorkerClient \<Rightarrow> ('s, 'e) WorkerClient" where
  "deliver A peerIngest w data c = (if wk_wired c = Some w then onMessage A peerIngest data c else c)"

text \<open>\<open>onerror\<close> and \<open>onmessageerror\<close>.\<close>

definition onWorkerError :: "nat \<Rightarrow> ('s, 'e) WorkerClient \<Rightarrow> ('s, 'e) WorkerClient" where
  "onWorkerError w c = (if wk_wired c = Some w then failPending c else c)"

definition terminate :: "('s, 'e) WorkerClient \<Rightarrow> ('s, 'e) WorkerClient" where
  "terminate c = failPending (c\<lparr>wk_sched := db_cancel (wk_sched c), wk_worker := None\<rparr>)"

text \<open>The timer of a handshake runs out.\<close>

definition onTimeout :: "nat \<Rightarrow> ('s, 'e) WorkerClient \<Rightarrow> ('s, 'e) WorkerClient" where
  "onTimeout i c =
     (if i \<in> set (wk_timers c) then settle i Failed (c\<lparr>wk_pending := map_delete i (wk_pending c)\<rparr>) else c)"

section \<open>The scheduled synchronisation\<close>

text \<open>When a pass of the debouncer started, its work asks the worker to synchronise.\<close>

definition sched_work :: "('s, 'e) WorkerClient \<Rightarrow> ('s, 'e) WorkerClient" where
  "sched_work c =
     (case wk_worker c of
        None \<Rightarrow> c\<lparr>wk_wait := PassIdle\<rparr>
      | Some _ \<Rightarrow>
          (case request OpSync c of
             (c, Ok i) \<Rightarrow> c\<lparr>wk_wait := PassAwaits i\<rparr>
           | (c, _) \<Rightarrow> c\<lparr>wk_wait := PassIdle\<rparr>))"

definition with_sched :: "unit Debounced \<Rightarrow> ('s, 'e) WorkerClient \<Rightarrow> ('s, 'e) WorkerClient" where
  "with_sched d c =
     (let started = ct_passes (db_tail (wk_sched c)) < ct_passes (db_tail d); c = c\<lparr>wk_sched := d\<rparr>
      in if started then sched_work c else c)"

definition wk_schedule :: "int \<Rightarrow> ('s, 'e) WorkerClient \<Rightarrow> ('s, 'e) WorkerClient" where
  "wk_schedule now c = with_sched (db_schedule now Running (wk_sched c)) c"

definition wk_tick :: "int \<Rightarrow> ('s, 'e) WorkerClient \<Rightarrow> ('s, 'e) WorkerClient" where
  "wk_tick now c = with_sched (db_tick now Running (wk_sched c)) c"

text \<open>The promise that \<open>flushScheduledSync\<close> and \<open>rebuild\<close> wait for.\<close>

definition flushScheduledSync :: "('s, 'e) WorkerClient \<Rightarrow> ('s, 'e) WorkerClient \<times> nat option" where
  "flushScheduledSync c = (case db_flush Running (wk_sched c) of (d, promise) \<Rightarrow> (with_sched d c, promise))"

text \<open>The work resumes when its request has ended; an error is logged.\<close>

definition sched_ready :: "('s, 'e) WorkerClient \<Rightarrow> bool" where
  "sched_ready c =
     (case wk_wait c of NoPass \<Rightarrow> False | PassIdle \<Rightarrow> True | PassAwaits i \<Rightarrow> list_ex (\<lambda>(j, _). j = i) (wk_answers c))"

definition sched_resume :: "('s, 'e) WorkerClient \<Rightarrow> ('s, 'e) WorkerClient" where
  "sched_resume c =
     (if sched_ready c
      then with_sched ((wk_sched c)\<lparr>db_tail := ct_complete (Some ()) Running (db_tail (wk_sched c))\<rparr>) (c\<lparr>wk_wait := NoPass\<rparr>)
      else c)"

section \<open>Operations of the client\<close>

text \<open>What an operation leaves its caller with: a result, or a request to wait for.\<close>

datatype 'r started = Returns 'r | Awaits nat

definition ask :: "WorkerOp \<Rightarrow> 'r vs \<Rightarrow> ('s, 'e) WorkerClient \<Rightarrow> ('s, 'e) WorkerClient \<times> 'r vs started" where
  "ask cmd failed c = (case request cmd c of (c, Ok i) \<Rightarrow> (c, Awaits i) | (c, _) \<Rightarrow> (c, Returns failed))"

text \<open>With no worker, nothing is asked.\<close>

definition ask_if :: "WorkerOp \<Rightarrow> ('s, 'e) WorkerClient \<Rightarrow> ('s, 'e) WorkerClient \<times> unit vs started" where
  "ask_if cmd c = (if wk_worker c = None then (c, Returns (Ok ())) else ask cmd Throw c)"

definition unitResult :: "answer \<Rightarrow> unit vs" where
  "unitResult a = (case a of Answered _ \<Rightarrow> Ok () | _ \<Rightarrow> Throw)"

definition wk_ping :: "('s, 'e) WorkerClient \<Rightarrow> ('s, 'e) WorkerClient \<times> unit vs started" where
  "wk_ping c = ask OpPing Throw c"

definition pingResult :: "answer \<Rightarrow> unit vs" where
  "pingResult a = (case a of Answered v \<Rightarrow> if v = UStr (js ''pong'') then Ok () else Throw | _ \<Rightarrow> Throw)"

definition requestStatus :: "answer \<Rightarrow> status" where
  "requestStatus a =
     (case a of
        Answered v \<Rightarrow> (case statusFromUnknown v of Some st \<Rightarrow> st | None \<Rightarrow> Success)
      | Refused st \<Rightarrow> st
      | Failed \<Rightarrow> InternalError)"

definition pullRemoteXfer :: "('s, 'e) WorkerClient \<Rightarrow> ('s, 'e) WorkerClient \<times> unit vs started" where
  "pullRemoteXfer c = ask OpGetXferState Throw c"

definition pulledXfer :: "answer \<Rightarrow> ('s, 'e) WorkerClient \<Rightarrow> ('s, 'e) WorkerClient \<times> unit vs" where
  "pulledXfer a c =
     (case a of
        Answered v \<Rightarrow> ((case xferStateFromUnknown v of Some state \<Rightarrow> c\<lparr>wk_xferState := state\<rparr> | None \<Rightarrow> c), Ok ())
      | _ \<Rightarrow> (c, Throw))"

text \<open>
  The handshake of \<open>setSeed\<close>: the request waits in the table before the enclave spawns the worker, \<open>spawns\<close>
  is whether that succeeds. \<open>bound\<close> names the databases, if the store has any.
\<close>

definition spawnSyncWorker :: "nat \<Rightarrow> OuterEnclave \<Rightarrow> bool option \<Rightarrow> ('s, 'e) WorkerClient \<Rightarrow> ('s, 'e) WorkerClient \<times> nat" where
  "spawnSyncWorker i enclave persist c =
     (let w = wk_spawned c
      in (postMessage w \<lparr>wm_id = i, wm_op = OpSetSeed (ie_seed (oe_inner enclave)) persist\<rparr> (c\<lparr>wk_spawned := w + 1\<rparr>), w))"

definition handshake ::
    "OuterEnclave \<Rightarrow> bool option \<Rightarrow> jsstr \<Rightarrow> (jsstr \<times> jsstr) option \<Rightarrow> bool \<Rightarrow> ('s, 'e) WorkerClient \<Rightarrow> ('s, 'e) WorkerClient \<times> nat" where
  "handshake enclave persist label bound spawns c =
     (case allocId c of
        (c, i) \<Rightarrow>
          (let c = c\<lparr>wk_pending := map_set i Handshake (wk_pending c), wk_timers := wk_timers c @ [i]\<rparr>
           in if \<not> spawns then (settle i Failed (c\<lparr>wk_pending := map_delete i (wk_pending c)\<rparr>), i)
              else (case spawnSyncWorker i enclave persist c of
                      (c, w) \<Rightarrow>
                        (let c = bindWorker w c
                         in ((case bound of
                                None \<Rightarrow> c
                              | Some (data, ents) \<Rightarrow> postMessage w \<lparr>wm_id = 0, wm_op = OpBind label data ents\<rparr> c), i)))))"

definition wk_setSeed ::
    "'s ClientStore \<Rightarrow> bytes \<Rightarrow> OuterEnclave \<Rightarrow> jsstr option \<Rightarrow> bool option \<Rightarrow> (jsstr \<times> jsstr) option vs \<Rightarrow> bool
     \<Rightarrow> ('s, 'e) WorkerClient \<Rightarrow> ('s, 'e) WorkerClient \<times> unit vs started" where
  "wk_setSeed K nonce enclave optLabel persist bound spawns c =
     (case setSeed K nonce enclave optLabel (wk_local c) of
        (local, Ok _) \<Rightarrow>
          (let c = emitClient (loadSession K False (c\<lparr>wk_local := local\<rparr>));
               label = (case cl_account local of None \<Rightarrow> [] | Some a \<Rightarrow> oa_label a)
           in case bound of
                Ok b \<Rightarrow> (case handshake enclave persist label b spawns c of (c, i) \<Rightarrow> (c, Awaits i))
              | Err st \<Rightarrow> (c, Returns (Err st)) | Throw \<Rightarrow> (c, Returns Throw) | Hang \<Rightarrow> (c, Returns Hang))
      | (local, r) \<Rightarrow> (c\<lparr>wk_local := local\<rparr>, Returns r))"

text \<open>After the handshake; that the worker may not know its transfers is ignored.\<close>

definition setSeed_answered :: "answer \<Rightarrow> ('s, 'e) WorkerClient \<Rightarrow> ('s, 'e) WorkerClient \<times> unit vs started" where
  "setSeed_answered a c =
     (case a of
        Answered _ \<Rightarrow> (case pullRemoteXfer c of (c, Awaits i) \<Rightarrow> (c, Awaits i) | (c, Returns _) \<Rightarrow> (c, Returns (Ok ())))
      | _ \<Rightarrow> (c, Returns Throw))"

definition serializeHost :: "IHostConnectionInfo \<Rightarrow> SerializedHost" where
  "serializeHost host =
     \<lparr>sh_handle = hi_handle host, sh_label = hi_label host, sh_idx = (case hi_idx host of None \<Rightarrow> 0 | Some i \<Rightarrow> i)\<rparr>"

definition wk_link ::
    "prims \<Rightarrow> 's ClientStore \<Rightarrow> unit Net \<Rightarrow> IHostConnectionInfo \<Rightarrow> bool option \<Rightarrow> ('s, 'e) WorkerClient
     \<Rightarrow> ('s, 'e) WorkerClient \<times> unit vs started" where
  "wk_link p K N host connect c =
     (case client_link p K N host False ((), wk_local c) of
        ((_, local), Ok _) \<Rightarrow>
          (let c = c\<lparr>wk_local := local\<rparr>; c = emitClient (loadSession K (cs_connected (wk_clientState c)) c)
           in ask (OpLink (serializeHost host) (Some (case connect of None \<Rightarrow> True | Some b \<Rightarrow> b))) Throw c)
      | ((_, local), r) \<Rightarrow> (c\<lparr>wk_local := local\<rparr>, Returns r))"

definition wk_unlink :: "'s ClientStore \<Rightarrow> jsstr \<Rightarrow> ('s, 'e) WorkerClient \<Rightarrow> ('s, 'e) WorkerClient \<times> unit vs started" where
  "wk_unlink K label c =
     (let c = c\<lparr>wk_local := client_unlink K label (wk_local c)\<rparr>;
          c = emitClient (loadSession K (cs_connected (wk_clientState c)) c)
      in ask_if (OpUnlink label) c)"

definition wk_connect :: "bool option \<Rightarrow> bool option \<Rightarrow> ('s, 'e) WorkerClient \<Rightarrow> ('s, 'e) WorkerClient \<times> unit vs started" where
  "wk_connect listen sync c =
     ask_if (OpConnect (Some (case listen of None \<Rightarrow> True | Some b \<Rightarrow> b)) (Some (case sync of None \<Rightarrow> True | Some b \<Rightarrow> b))) c"

definition wk_disconnect :: "('s, 'e) WorkerClient \<Rightarrow> ('s, 'e) WorkerClient \<times> unit vs started" where
  "wk_disconnect c = ask_if OpDisconnect c"

definition wk_sync :: "('s, 'e) WorkerClient \<Rightarrow> ('s, 'e) WorkerClient \<times> unit vs started" where
  "wk_sync c = (if wk_worker c = None then (c, Returns (Ok ())) else ask OpSync (Err InternalError) c)"

text \<open>\<open>rebuild\<close> waits for the scheduled synchronisation, if one runs, before it asks.\<close>

definition wk_rebuild :: "('s, 'e) WorkerClient \<Rightarrow> ('s, 'e) WorkerClient \<times> nat option" where
  "wk_rebuild c = flushScheduledSync (c\<lparr>wk_sched := db_cancel (wk_sched c)\<rparr>)"

definition wk_rebuild_flushed :: "bool option \<Rightarrow> ('s, 'e) WorkerClient \<Rightarrow> ('s, 'e) WorkerClient \<times> unit vs started" where
  "wk_rebuild_flushed checkHost c = ask (OpRebuild checkHost) (Err InternalError) c"

definition wk_reconcile ::
    "jsstr \<Rightarrow> bool option \<Rightarrow> bool option \<Rightarrow> bool option \<Rightarrow> ('s, 'e) WorkerClient \<Rightarrow> ('s, 'e) WorkerClient \<times> unk vs started" where
  "wk_reconcile hostLabel pull push sync c = ask (OpReconcile hostLabel pull push sync) (Err InternalError) c"

definition reconcileResult :: "answer \<Rightarrow> unk vs" where
  "reconcileResult a =
     (case a of
        Answered v \<Rightarrow> if isReconcileReport v then Ok v else Err InternalError
      | Refused st \<Rightarrow> if st \<noteq> Success then Err st else Err InternalError
      | Failed \<Rightarrow> Err InternalError)"

definition wk_msgcheck :: "('s, 'e) WorkerClient \<Rightarrow> ('s, 'e) WorkerClient \<times> bytes vs started" where
  "wk_msgcheck c = ask OpMsgcheck Throw c"

definition wk_entcheck :: "('s, 'e) WorkerClient \<Rightarrow> ('s, 'e) WorkerClient \<times> bytes vs started" where
  "wk_entcheck c = ask OpEntcheck Throw c"

definition digestResult :: "answer \<Rightarrow> bytes vs" where
  "digestResult a = (case a of Answered (UBytes b) \<Rightarrow> Ok b | _ \<Rightarrow> Throw)"

text \<open>\<open>wipe\<close>: a wipe of the seed first has the worker close its databases, any other is told to the worker afterwards.\<close>

definition wk_wipe_ask ::
    "bool option \<Rightarrow> bool option \<Rightarrow> bool option \<Rightarrow> bool option \<Rightarrow> ('s, 'e) WorkerClient \<Rightarrow> ('s, 'e) WorkerClient \<times> unit vs started" where
  "wk_wipe_ask msgs ents meta seed c = ask_if (OpWipe msgs ents meta seed) c"

definition wk_wipe_local ::
    "'e AppState \<Rightarrow> 's ClientStore \<Rightarrow> unit Net \<Rightarrow> bool option \<Rightarrow> bool option \<Rightarrow> bool option \<Rightarrow> bool option
     \<Rightarrow> ('s, 'e) WorkerClient \<Rightarrow> ('s, 'e) WorkerClient \<times> unit vs" where
  "wk_wipe_local A K N msgs ents meta seed c =
     (case client_wipe A K N msgs ents meta seed ((), wk_local c) of ((_, local), r) \<Rightarrow> (c\<lparr>wk_local := local\<rparr>, r))"

definition wk_wipe_done :: "'s ClientStore \<Rightarrow> int \<Rightarrow> int \<Rightarrow> ('s, 'e) WorkerClient \<Rightarrow> ('s, 'e) WorkerClient" where
  "wk_wipe_done K numUploads numDownloads c = emitXfer (emitClient (hydrateStateFromStore K numUploads numDownloads c))"

definition wk_import :: "bytes \<Rightarrow> ('s, 'e) WorkerClient \<Rightarrow> ('s, 'e) WorkerClient \<times> unit vs started" where
  "wk_import b c = ask (OpImport b) (Err InternalError) c"

definition wk_export :: "('s, 'e) WorkerClient \<Rightarrow> ('s, 'e) WorkerClient \<times> unit vs started" where
  "wk_export c = ask OpExport (Err InternalError) c"

text \<open>The status and the bytes saved to the file.\<close>

definition exportResult :: "answer \<Rightarrow> status \<times> bytes option" where
  "exportResult a =
     (case a of
        Answered (UBytes b) \<Rightarrow> (Success, Some b)
      | Answered _ \<Rightarrow> (InternalError, None)
      | Refused st \<Rightarrow> (st, None)
      | Failed \<Rightarrow> (InternalError, None))"

section \<open>Events\<close>

text \<open>
  \<open>Ask\<close> stands for every operation that does nothing before its request, \<open>Local\<close> is for what the local client does meanwhile.
\<close>

datatype ('s, 'e) wk_event =
    Ask WorkerOp
  | Link IHostConnectionInfo "bool option"
  | Unlink jsstr
  | Wipe "bool option" "bool option" "bool option" "bool option"
  | Wiped int int
  | SetSeed bytes OuterEnclave "jsstr option" "bool option" "(jsstr \<times> jsstr) option vs" bool
  | Seeded answer
  | Xfer answer
  | Deliver nat "WorkerEvent option"
  | WorkerError nat
  | Timeout nat
  | Terminate
  | Schedule int
  | Tick int
  | Flush
  | Rebuild
  | Resume
  | Depths int int
  | Local "('s, 'e) SyncClient"

fun wk_run ::
    "prims \<Rightarrow> 'e AppState \<Rightarrow> 's ClientStore \<Rightarrow> unit Net \<Rightarrow> (bytes list \<Rightarrow> 'e \<Rightarrow> 'e) option \<Rightarrow> ('s, 'e) WorkerClient
     \<Rightarrow> ('s, 'e) wk_event \<Rightarrow> ('s, 'e) WorkerClient" where
  "wk_run p A K N I c (Ask cmd) = fst (request cmd c)"
| "wk_run p A K N I c (Link host connect) = fst (wk_link p K N host connect c)"
| "wk_run p A K N I c (Unlink label) = fst (wk_unlink K label c)"
| "wk_run p A K N I c (Wipe msgs ents meta seed) = fst (wk_wipe_local A K N msgs ents meta seed c)"
| "wk_run p A K N I c (Wiped up down) = wk_wipe_done K up down c"
| "wk_run p A K N I c (SetSeed nonce enclave optLabel persist bound spawns) =
     fst (wk_setSeed K nonce enclave optLabel persist bound spawns c)"
| "wk_run p A K N I c (Seeded a) = fst (setSeed_answered a c)"
| "wk_run p A K N I c (Xfer a) = fst (pulledXfer a c)"
| "wk_run p A K N I c (Deliver w data) = deliver A I w data c"
| "wk_run p A K N I c (WorkerError w) = onWorkerError w c"
| "wk_run p A K N I c (Timeout i) = onTimeout i c"
| "wk_run p A K N I c Terminate = terminate c"
| "wk_run p A K N I c (Schedule now) = wk_schedule now c"
| "wk_run p A K N I c (Tick now) = wk_tick now c"
| "wk_run p A K N I c Flush = fst (flushScheduledSync c)"
| "wk_run p A K N I c Rebuild = fst (wk_rebuild c)"
| "wk_run p A K N I c Resume = sched_resume c"
| "wk_run p A K N I c (Depths up down) = onLocalXfer up down c"
| "wk_run p A K N I c (Local local) = c\<lparr>wk_local := local\<rparr>"

inductive wk_reach ::
    "prims \<Rightarrow> 'e AppState \<Rightarrow> 's ClientStore \<Rightarrow> unit Net \<Rightarrow> (bytes list \<Rightarrow> 'e \<Rightarrow> 'e) option \<Rightarrow> ('s, 'e) WorkerClient \<Rightarrow> bool"
  for p A K N I where
  opened: "wk_reach p A K N I (WorkerClient_open K debounce up down local)"
| event: "wk_reach p A K N I c \<Longrightarrow> wk_reach p A K N I (wk_run p A K N I c e)"

section \<open>What the operations do to the requests\<close>

lemma fst_ask [simp]: "fst (ask cmd failed c) = fst (request cmd c)"
  by (simp add: ask_def split: prod.split vs.split)

lemma fst_ask_if [simp]: "fst (ask_if cmd c) = (if wk_worker c = None then c else fst (request cmd c))"
  by (simp add: ask_if_def)

lemma fst_seeded: "fst (setSeed_answered a c) = (case a of Answered _ \<Rightarrow> fst (request OpGetXferState c) | _ \<Rightarrow> c)"
  by (simp add: setSeed_answered_def pullRemoteXfer_def case_prod_unfold split: answer.split started.split)

lemma request_eq:
  "request cmd c =
     (case wk_worker c of
        None \<Rightarrow> (c\<lparr>wk_nextId := wk_nextId c + 1\<rparr>, Throw)
      | Some w \<Rightarrow>
          (c\<lparr>wk_nextId := wk_nextId c + 1, wk_pending := map_set (wk_nextId c) Rpc (wk_pending c),
             wk_posted := wk_posted c @ [(w, \<lparr>wm_id = wk_nextId c, wm_op = cmd\<rparr>)]\<rparr>, Ok (wk_nextId c)))"
  by (simp add: request_def allocId_def postMessage_def split: option.split)

lemma settle_all:
  "foldl (\<lambda>c (i, _). settle i a c) c ps =
     c\<lparr>wk_timers := filter (\<lambda>i. i \<notin> fst ` set ps) (wk_timers c), wk_answers := wk_answers c @ map (\<lambda>(i, _). (i, a)) ps\<rparr>"
proof (induction ps arbitrary: c)
  case (Cons q ps)
  obtain j x where q: "q = (j, x)" by fastforce
  have "filter (\<lambda>i. i \<notin> fst ` set ps) (removeAll j (wk_timers c)) = filter (\<lambda>i. i \<notin> fst ` set (q # ps)) (wk_timers c)"
    by (induction "wk_timers c" rule: rev_induct) (auto simp: q removeAll_filter_not_eq intro!: filter_cong)
  then show ?case using Cons.IH by (simp add: q settle_def)
qed simp

lemma failPending_eq:
  "failPending c =
     c\<lparr>wk_timers := filter (\<lambda>i. i \<notin> fst ` set (wk_pending c)) (wk_timers c),
       wk_answers := wk_answers c @ map (\<lambda>(i, _). (i, Failed)) (wk_pending c), wk_pending := []\<rparr>"
  by (simp add: failPending_def settle_all)

text \<open>A predicate that a change of the other fields, a request and a handshake keep is kept by every operation.\<close>

locale rpc_kept =
  fixes P :: "('s, 'e) WorkerClient \<Rightarrow> bool"
  assumes on_local: "P c \<Longrightarrow> P (c\<lparr>wk_local := l\<rparr>)"
    and on_client: "P c \<Longrightarrow> P (c\<lparr>wk_clientState := a\<rparr>)"
    and on_xfer: "P c \<Longrightarrow> P (c\<lparr>wk_xferState := x\<rparr>)"
    and on_emits: "P c \<Longrightarrow> P (c\<lparr>wk_emits := m\<rparr>)"
    and on_request: "P c \<Longrightarrow> P (fst (request cmd c))"
    and on_handshake: "P c \<Longrightarrow> P (fst (handshake enclave persist label bound spawns c))"
begin

lemma session: "P c \<Longrightarrow> P (loadSession K b c)" "P c \<Longrightarrow> P (emitClient c)" "P c \<Longrightarrow> P (emitXfer c)"
  by (simp_all add: loadSession_def emitClient_def emitXfer_def on_client on_emits)

lemma hydrated: "P c \<Longrightarrow> P (hydrateStateFromStore K up down c)"
  by (simp add: hydrateStateFromStore_def session on_xfer)

lemma setSeed_kept: "P c \<Longrightarrow> P (fst (wk_setSeed K nonce enclave optLabel persist bound spawns c))"
proof -
  assume c: "P c"
  obtain local r where s: "setSeed K nonce enclave optLabel (wk_local c) = (local, r)" by fastforce
  let ?c = "emitClient (loadSession K False (c\<lparr>wk_local := local\<rparr>))"
  have "P ?c" using c by (intro session on_local)
  then have "P (fst (handshake enclave persist label b spawns ?c))" for label b by (rule on_handshake)
  then show ?thesis
    using c on_local [OF c] \<open>P ?c\<close> by (cases r; cases bound) (simp_all add: wk_setSeed_def s Let_def case_prod_unfold)
qed

lemma link_kept: "P c \<Longrightarrow> P (fst (wk_link p K N host online c))"
  by (simp add: wk_link_def Let_def on_request session on_local split: prod.split vs.split)

lemma unlink_kept: "P c \<Longrightarrow> P (fst (wk_unlink K label c))"
  by (simp add: wk_unlink_def Let_def on_request session on_local)

lemma calm:
  "P c \<Longrightarrow> P (wk_run p A K N I c (Ask cmd))"
  "P c \<Longrightarrow> P (wk_run p A K N I c (Link host online))"
  "P c \<Longrightarrow> P (wk_run p A K N I c (Unlink label))"
  "P c \<Longrightarrow> P (wk_run p A K N I c (Wipe msgs ents meta seed))"
  "P c \<Longrightarrow> P (wk_run p A K N I c (Wiped up down))"
  "P c \<Longrightarrow> P (wk_run p A K N I c (SetSeed nonce enclave optLabel persist bound spawns))"
  "P c \<Longrightarrow> P (wk_run p A K N I c (Seeded a))"
  "P c \<Longrightarrow> P (wk_run p A K N I c (Xfer a))"
  "P c \<Longrightarrow> P (wk_run p A K N I c (Depths up down))"
  "P c \<Longrightarrow> P (wk_run p A K N I c (Local local))"
proof -
  show "P (wk_run p A K N I c (Seeded a))" if "P c"
    by (simp add: fst_seeded that on_request split: answer.split)
  show "P (wk_run p A K N I c (Wipe msgs ents meta seed))" if "P c"
    by (simp add: wk_wipe_local_def on_local [OF that] split: prod.split)
  show "P (wk_run p A K N I c (Depths up down))" if "P c"
    by (simp add: onLocalXfer_def on_xfer session that)
qed (simp_all add: on_request link_kept unlink_kept wk_wipe_done_def hydrated session setSeed_kept pulledXfer_def on_xfer on_local
       split: answer.split option.split)

text \<open>So are the messages that answer no request.\<close>

lemma heard: "P c \<Longrightarrow> case data of Some (EvInitError _) \<Rightarrow> False | Some (EvReplyOk _ _) \<Rightarrow> False | Some (EvReplyErr _ _) \<Rightarrow> False | _ \<Rightarrow> True
    \<Longrightarrow> P (deliver A I w data c)"
  by (auto simp: deliver_def onMessage_def on_state_def on_local on_client on_xfer session split: option.split WorkerEvent.split)

end

section \<open>The invariant\<close>

definition open_ids :: "('s, 'e) WorkerClient \<Rightarrow> nat set" where
  "open_ids c = fst ` set (wk_pending c)"

definition ended_ids :: "('s, 'e) WorkerClient \<Rightarrow> nat set" where
  "ended_ids c = fst ` set (wk_answers c)"

text \<open>The numbers of what was posted; the binding of the databases has number 0 and no reply.\<close>

definition asked_ids :: "('s, 'e) WorkerClient \<Rightarrow> nat list" where
  "asked_ids c = filter (\<lambda>i. i \<noteq> 0) (map (\<lambda>(_, cmd). wm_id cmd) (wk_posted c))"

text \<open>
  Numbers are fresh; a promise is open or ended, not both, and ends once; a number is posted once, to a worker
  that exists; a running timer is that of an open handshake; the current worker is the one that is heard.
\<close>

definition rpc_inv :: "('s, 'e) WorkerClient \<Rightarrow> bool" where
  "rpc_inv c =
     (0 < wk_nextId c \<and> distinct (map fst (wk_pending c)) \<and> distinct (map fst (wk_answers c)) \<and> open_ids c \<inter> ended_ids c = {}
      \<and> (\<forall>i \<in> open_ids c \<union> ended_ids c. 0 < i \<and> i < wk_nextId c)
      \<and> (\<forall>i \<in> set (wk_timers c). map_get (wk_pending c) i = Some Handshake)
      \<and> (\<forall>(w, cmd) \<in> set (wk_posted c). w < wk_spawned c) \<and> set (asked_ids c) \<subseteq> open_ids c \<union> ended_ids c \<and> distinct (asked_ids c)
      \<and> (\<forall>w. wk_worker c = Some w \<longrightarrow> wk_wired c = Some w) \<and> (\<forall>w. wk_wired c = Some w \<longrightarrow> w < wk_spawned c))"

lemmas ids_def = open_ids_def ended_ids_def asked_ids_def

lemma rpc_inv_fields:
  assumes "rpc_inv c"
  shows "rpc_inv (c\<lparr>wk_local := l\<rparr>)" "rpc_inv (c\<lparr>wk_clientState := a\<rparr>)" "rpc_inv (c\<lparr>wk_xferState := x\<rparr>)"
    "rpc_inv (c\<lparr>wk_emits := m\<rparr>)" "rpc_inv (c\<lparr>wk_sched := d\<rparr>)" "rpc_inv (c\<lparr>wk_wait := v\<rparr>)"
    "rpc_inv (c\<lparr>wk_worker := None\<rparr>)"
  using assms by (simp_all add: rpc_inv_def ids_def)

lemma rpc_invD:
  assumes "rpc_inv c"
  shows "0 < wk_nextId c" "distinct (map fst (wk_pending c))" "distinct (map fst (wk_answers c))" "open_ids c \<inter> ended_ids c = {}"
    "i \<in> open_ids c \<union> ended_ids c \<Longrightarrow> 0 < i \<and> i < wk_nextId c" "i \<in> set (wk_timers c) \<Longrightarrow> map_get (wk_pending c) i = Some Handshake"
    "(w, cmd) \<in> set (wk_posted c) \<Longrightarrow> w < wk_spawned c" "set (asked_ids c) \<subseteq> open_ids c \<union> ended_ids c" "distinct (asked_ids c)"
    "wk_worker c = Some w \<Longrightarrow> wk_wired c = Some w" "wk_wired c = Some w \<Longrightarrow> w < wk_spawned c"
  using assms by (auto simp: rpc_inv_def)

lemma rpc_inv_fresh:
  assumes "rpc_inv c"
  shows "wk_nextId c \<notin> open_ids c" "wk_nextId c \<notin> ended_ids c" "wk_nextId c \<notin> set (asked_ids c)" "wk_nextId c \<notin> set (wk_timers c)"
proof -
  show f: "wk_nextId c \<notin> open_ids c" "wk_nextId c \<notin> ended_ids c" using rpc_invD(5) [OF assms, of "wk_nextId c"] by auto
  then show "wk_nextId c \<notin> set (asked_ids c)" using rpc_invD(8) [OF assms] by auto
  show "wk_nextId c \<notin> set (wk_timers c)"
  proof
    assume "wk_nextId c \<in> set (wk_timers c)"
    then have "map_get (wk_pending c) (wk_nextId c) = Some Handshake" by (rule rpc_invD(6) [OF assms])
    then have "wk_nextId c \<in> open_ids c" by (auto simp: open_ids_def dest: map_of_SomeD intro: image_eqI [rotated])
    then show False using f by simp
  qed
qed

text \<open>A promise is entered under the next number; its command is posted to the worker that is heard.\<close>

lemma rpc_inv_enter:
  assumes "rpc_inv c"
  shows "rpc_inv (c\<lparr>wk_nextId := wk_nextId c + 1, wk_pending := map_set (wk_nextId c) k (wk_pending c)\<rparr>)"
  using assms rpc_inv_fresh [OF assms] rpc_invD(6) [OF assms]
  by (auto simp: rpc_inv_def ids_def dom_update distinct_update less_SucI)

lemma rpc_inv_post:
  assumes "rpc_inv c" "w < wk_spawned c" "wm_id cmd \<in> insert 0 (open_ids c)" "wm_id cmd \<notin> set (asked_ids c)"
  shows "rpc_inv (postMessage w cmd c)"
proof -
  have a: "asked_ids (postMessage w cmd c) = asked_ids c @ (if wm_id cmd = 0 then [] else [wm_id cmd])"
    by (simp add: asked_ids_def postMessage_def)
  have o: "open_ids (postMessage w cmd c) = open_ids c" "ended_ids (postMessage w cmd c) = ended_ids c"
    by (simp_all add: ids_def postMessage_def)
  show ?thesis using assms unfolding rpc_inv_def a o by (auto simp: postMessage_def)
qed

lemma rpc_inv_request: "rpc_inv c \<Longrightarrow> rpc_inv (fst (request cmd c))"
proof (cases "wk_worker c")
  case None
  assume "rpc_inv c"
  with None show ?thesis by (auto simp: request_eq rpc_inv_def ids_def less_SucI)
next
  case (Some w)
  assume c: "rpc_inv c"
  let ?c = "c\<lparr>wk_nextId := wk_nextId c + 1, wk_pending := map_set (wk_nextId c) Rpc (wk_pending c)\<rparr>"
  have "rpc_inv (postMessage w \<lparr>wm_id = wk_nextId c, wm_op = cmd\<rparr> ?c)"
  proof (rule rpc_inv_post [OF rpc_inv_enter [OF c]])
    show "w < wk_spawned ?c" using rpc_invD(10,11) [OF c] Some by simp
    show "wm_id \<lparr>wm_id = wk_nextId c, wm_op = cmd\<rparr> \<notin> set (asked_ids ?c)" using rpc_inv_fresh(3) [OF c] by (simp add: asked_ids_def)
  qed (simp add: open_ids_def dom_update)
  then show ?thesis by (simp add: request_eq Some postMessage_def)
qed

lemma ends:
  "open_ids (settle i a (c\<lparr>wk_pending := map_delete i (wk_pending c)\<rparr>)) = open_ids c - {i}"
  "ended_ids (settle i a (c\<lparr>wk_pending := map_delete i (wk_pending c)\<rparr>)) = insert i (ended_ids c)"
  "asked_ids (settle i a (c\<lparr>wk_pending := map_delete i (wk_pending c)\<rparr>)) = asked_ids c"
  by (auto simp: ids_def settle_def AList.delete_keys AList.delete_eq)

lemma rpc_inv_end:
  "rpc_inv c \<Longrightarrow> i \<in> open_ids c \<Longrightarrow> rpc_inv (settle i a (c\<lparr>wk_pending := map_delete i (wk_pending c)\<rparr>))"
  unfolding rpc_inv_def ends by (auto simp: settle_def distinct_delete ids_def)

lemma fails:
  "open_ids (failPending c) = {}" "ended_ids (failPending c) = ended_ids c \<union> open_ids c" "asked_ids (failPending c) = asked_ids c"
proof -
  show "ended_ids (failPending c) = ended_ids c \<union> open_ids c"
    by (simp add: ids_def failPending_eq case_prod_unfold image_Un image_image)
qed (simp_all add: ids_def failPending_eq)

lemma rpc_inv_failPending: "rpc_inv c \<Longrightarrow> rpc_inv (failPending c)"
proof -
  assume c: "rpc_inv c"
  have "map fst (wk_answers (failPending c)) = map fst (wk_answers c) @ map fst (wk_pending c)"
    by (simp add: failPending_eq case_prod_unfold comp_def)
  moreover have "distinct (map fst (wk_answers c) @ map fst (wk_pending c))"
    using rpc_invD(2,3,4) [OF c] by (auto simp: ids_def)
  moreover have "wk_timers (failPending c) = []"
  proof -
    have "i \<in> fst ` set (wk_pending c)" if "i \<in> set (wk_timers c)" for i
      using rpc_invD(6) [OF c that] by (auto dest: map_of_SomeD intro: image_eqI [rotated])
    then show ?thesis by (auto simp: failPending_eq filter_empty_conv)
  qed
  ultimately show ?thesis
    using c rpc_invD(5) [OF c] unfolding rpc_inv_def fails
    by (simp add: Un_commute) (simp add: failPending_eq)
qed

lemma rpc_inv_handshake: "rpc_inv c \<Longrightarrow> rpc_inv (fst (handshake enclave persist label bound spawns c))"
proof -
  assume c: "rpc_inv c"
  let ?i = "wk_nextId c"
  define d where "d = c\<lparr>wk_nextId := ?i + 1, wk_pending := map_set ?i Handshake (wk_pending c), wk_timers := wk_timers c @ [?i]\<rparr>"
  have d: "rpc_inv d" "?i \<in> open_ids d" "?i \<notin> set (asked_ids d)" "wk_spawned d = wk_spawned c" "0 < ?i"
    using rpc_inv_enter [OF c, of Handshake] rpc_inv_fresh(3) [OF c] rpc_invD(1) [OF c]
    by (auto simp: d_def rpc_inv_def ids_def dom_update)
  have e: "handshake enclave persist label bound spawns c =
      (if \<not> spawns then (settle ?i Failed (d\<lparr>wk_pending := map_delete ?i (wk_pending d)\<rparr>), ?i)
       else (let w = wk_spawned d;
                 c' = bindWorker w (postMessage w \<lparr>wm_id = ?i, wm_op = OpSetSeed (ie_seed (oe_inner enclave)) persist\<rparr> (d\<lparr>wk_spawned := w + 1\<rparr>))
             in ((case bound of None \<Rightarrow> c' | Some (data, ents) \<Rightarrow> postMessage w \<lparr>wm_id = 0, wm_op = OpBind label data ents\<rparr> c'), ?i)))"
    by (simp add: handshake_def allocId_def d_def spawnSyncWorker_def Let_def)
  show ?thesis
  proof (cases spawns)
    case False
    then show ?thesis unfolding e using rpc_inv_end [OF d(1,2)] by simp
  next
    case True
    let ?w = "wk_spawned d" and ?cmd = "\<lparr>wm_id = ?i, wm_op = OpSetSeed (ie_seed (oe_inner enclave)) persist\<rparr>"
    let ?s = "d\<lparr>wk_spawned := ?w + 1\<rparr>"
    have s: "rpc_inv ?s" using d(1) by (auto simp: rpc_inv_def ids_def less_SucI)
    have "rpc_inv (postMessage ?w ?cmd ?s)" by (rule rpc_inv_post [OF s]) (use d in \<open>auto simp: ids_def\<close>)
    then have b: "rpc_inv (bindWorker ?w (postMessage ?w ?cmd ?s))"
      by (auto simp: bindWorker_def rpc_inv_def ids_def postMessage_def)
    have "rpc_inv (postMessage ?w \<lparr>wm_id = 0, wm_op = op\<rparr> (bindWorker ?w (postMessage ?w ?cmd ?s)))" for op
      by (rule rpc_inv_post [OF b]) (auto simp: bindWorker_def postMessage_def asked_ids_def)
    then show ?thesis unfolding e using b True by (simp add: Let_def split: option.split prod.split)
  qed
qed

interpretation wk: rpc_kept rpc_inv
  by unfold_locales (rule rpc_inv_fields rpc_inv_request rpc_inv_handshake, assumption)+

lemma open_ids_iff: "i \<in> open_ids c \<longleftrightarrow> map_has (wk_pending c) i"
  by (simp add: open_ids_def map_of_eq_None_iff)

lemma rpc_inv_reply: "rpc_inv c \<Longrightarrow> rpc_inv (onReply i a c)"
  using rpc_inv_end [of c i a] by (simp add: onReply_def open_ids_iff)

lemma rpc_inv_deliver: "rpc_inv c \<Longrightarrow> rpc_inv (deliver A I w data c)"
proof (cases "case data of Some (EvInitError _) \<Rightarrow> False | Some (EvReplyOk _ _) \<Rightarrow> False | Some (EvReplyErr _ _) \<Rightarrow> False | _ \<Rightarrow> True")
  case True
  assume "rpc_inv c"
  then show ?thesis using True by (rule wk.heard)
next
  case False
  assume "rpc_inv c"
  then show ?thesis using False
    by (auto simp: deliver_def onMessage_def rpc_inv_reply rpc_inv_failPending split: option.splits WorkerEvent.splits)
qed

lemma rpc_inv_timeout: "rpc_inv c \<Longrightarrow> rpc_inv (onTimeout i c)"
proof (cases "i \<in> set (wk_timers c)")
  case True
  assume c: "rpc_inv c"
  have "i \<in> open_ids c" using rpc_invD(6) [OF c True] by (simp add: open_ids_iff)
  then show ?thesis using True rpc_inv_end [OF c] by (simp add: onTimeout_def)
qed (simp add: onTimeout_def)

text \<open>The scheduled work.\<close>

lemma with_sched_eq:
  "with_sched d c =
     (if ct_passes (db_tail (wk_sched c)) < ct_passes (db_tail d) then sched_work (c\<lparr>wk_sched := d\<rparr>) else c\<lparr>wk_sched := d\<rparr>)"
  by (simp add: with_sched_def Let_def)

lemma sched_work_eq:
  "sched_work c = (if wk_worker c = None then c\<lparr>wk_wait := PassIdle\<rparr> else (fst (request OpSync c))\<lparr>wk_wait := PassAwaits (wk_nextId c)\<rparr>)"
  by (simp add: sched_work_def request_eq split: option.split)

lemma rpc_inv_sched: "rpc_inv c \<Longrightarrow> rpc_inv (with_sched d c)"
  by (simp add: with_sched_eq sched_work_eq rpc_inv_fields rpc_inv_request)

lemma rpc_inv_run: "rpc_inv c \<Longrightarrow> rpc_inv (wk_run p A K N I c e)"
  by (cases e)
    (simp_all add: wk.calm rpc_inv_deliver rpc_inv_timeout rpc_inv_failPending onWorkerError_def terminate_def wk_schedule_def wk_tick_def
      flushScheduledSync_def wk_rebuild_def sched_resume_def rpc_inv_sched rpc_inv_fields split: prod.split del: wk_run.simps(1-8,18,19))

lemma rpc_inv_reach: "wk_reach p A K N I c \<Longrightarrow> rpc_inv c"
proof (induction rule: wk_reach.induct)
  case (opened debounce up down local)
  show ?case unfolding WorkerClient_open_def by (rule wk.hydrated) (simp add: rpc_inv_def ids_def)
qed (rule rpc_inv_run)

section \<open>Requests to a worker that was replaced\<close>

lemma posted_once:
  assumes "rpc_inv c" "(w, cmd) \<in> set (wk_posted c)" "(w', cmd') \<in> set (wk_posted c)" "wm_id cmd = wm_id cmd'" "wm_id cmd \<noteq> 0"
  shows "w = w'"
proof -
  have "distinct (map (\<lambda>(_, cmd). wm_id cmd) (filter (\<lambda>(_, cmd). wm_id cmd \<noteq> 0) (wk_posted c)))"
    using rpc_invD(9) [OF assms(1)] by (simp add: asked_ids_def filter_map comp_def case_prod_unfold)
  then have "inj_on (\<lambda>(_, cmd). wm_id cmd) {(w, cmd) \<in> set (wk_posted c). wm_id cmd \<noteq> 0}"
    by (simp add: distinct_map case_prod_unfold)
  then show ?thesis using assms(2-5) by (auto dest: inj_onD [where x = "(w, cmd)" and y = "(w', cmd')"])
qed

text \<open>
  Request \<open>i\<close> waits and went to a worker that is not heard; given \<open>Some n\<close>, it is what the scheduled
  synchronisation waits for in its \<open>n\<close>-th pass.
\<close>

definition lost :: "nat \<Rightarrow> nat option \<Rightarrow> ('s, 'e) WorkerClient \<Rightarrow> bool" where
  "lost i q c =
     (rpc_inv c \<and> i \<noteq> 0 \<and> map_get (wk_pending c) i = Some Rpc
      \<and> (\<exists>w cmd. (w, cmd) \<in> set (wk_posted c) \<and> wm_id cmd = i \<and> wk_wired c \<noteq> Some w)
      \<and> (\<forall>n. q = Some n \<longrightarrow> wk_wait c = PassAwaits i \<and> ct_inflight (db_tail (wk_sched c)) \<noteq> None \<and> ct_passes (db_tail (wk_sched c)) = n))"

text \<open>Events that end no other worker's requests: a worker answers only what was posted to it, and does not fail.\<close>

definition quiet :: "('s, 'e) WorkerClient \<Rightarrow> ('s, 'e) wk_event \<Rightarrow> bool" where
  "quiet c e =
     (case e of
        Terminate \<Rightarrow> False
      | WorkerError w \<Rightarrow> wk_wired c \<noteq> Some w
      | Deliver w (Some (EvInitError _)) \<Rightarrow> wk_wired c \<noteq> Some w
      | Deliver w (Some (EvReplyOk i _)) \<Rightarrow> wk_wired c = Some w \<longrightarrow> list_ex (\<lambda>(v, cmd). v = w \<and> wm_id cmd = i) (wk_posted c)
      | Deliver w (Some (EvReplyErr i _)) \<Rightarrow> wk_wired c = Some w \<longrightarrow> list_ex (\<lambda>(v, cmd). v = w \<and> wm_id cmd = i) (wk_posted c)
      | _ \<Rightarrow> True)"

fun quiet_runs ::
    "prims \<Rightarrow> 'e AppState \<Rightarrow> 's ClientStore \<Rightarrow> unit Net \<Rightarrow> (bytes list \<Rightarrow> 'e \<Rightarrow> 'e) option \<Rightarrow> ('s, 'e) WorkerClient
     \<Rightarrow> ('s, 'e) wk_event list \<Rightarrow> bool" where
  "quiet_runs p A K N I c [] = True"
| "quiet_runs p A K N I c (e # es) = (quiet c e \<and> quiet_runs p A K N I (wk_run p A K N I c e) es)"

lemma lost_fields:
  assumes "lost i q c"
  shows "lost i q (c\<lparr>wk_local := l\<rparr>)" "lost i q (c\<lparr>wk_clientState := a\<rparr>)" "lost i q (c\<lparr>wk_xferState := x\<rparr>)" "lost i q (c\<lparr>wk_emits := m\<rparr>)"
  using assms by (simp_all add: lost_def rpc_inv_fields)

lemma lost_fresh: "lost i q c \<Longrightarrow> i \<noteq> wk_nextId c"
  using rpc_inv_fresh(1) [of c] by (auto simp: lost_def open_ids_iff)

lemma lost_request: "lost i q c \<Longrightarrow> lost i q (fst (request cmd c))"
proof -
  assume l: "lost i q c"
  have "rpc_inv (fst (request cmd c))" using l by (simp add: lost_def rpc_inv_request)
  then show ?thesis using l lost_fresh [OF l] by (auto simp: lost_def request_eq split: option.split)
qed

lemma lost_handshake: "lost i q c \<Longrightarrow> lost i q (fst (handshake enclave persist label bound spawns c))"
proof -
  assume l: "lost i q c"
  have "rpc_inv (fst (handshake enclave persist label bound spawns c))" using l by (simp add: lost_def rpc_inv_handshake)
  moreover have "w < wk_spawned c" if "(w, cmd) \<in> set (wk_posted c)" for w cmd
    using rpc_invD(7) [OF _ that] l by (simp add: lost_def)
  moreover obtain w cmd where w: "(w, cmd) \<in> set (wk_posted c)" "wm_id cmd = i" "wk_wired c \<noteq> Some w" using l by (auto simp: lost_def)
  moreover have "(w, cmd) \<in> set (wk_posted (fst (handshake enclave persist label bound spawns c)))"
    using w(1) by (simp add: handshake_def allocId_def spawnSyncWorker_def bindWorker_def postMessage_def settle_def Let_def split: option.split)
  moreover have "wk_wired (fst (handshake enclave persist label bound spawns c)) \<in> {wk_wired c, Some (wk_spawned c)}"
    by (simp add: handshake_def allocId_def spawnSyncWorker_def bindWorker_def postMessage_def settle_def Let_def split: option.split)
  moreover have "map_get (wk_pending (fst (handshake enclave persist label bound spawns c))) i = Some Rpc"
    "wk_wait (fst (handshake enclave persist label bound spawns c)) = wk_wait c"
    "wk_sched (fst (handshake enclave persist label bound spawns c)) = wk_sched c"
    using l lost_fresh [OF l]
    by (simp_all add: lost_def handshake_def allocId_def spawnSyncWorker_def bindWorker_def postMessage_def settle_def Let_def split: option.split)
  ultimately show ?thesis using l unfolding lost_def by (metis insertE less_irrefl option.inject singletonD)
qed

interpretation lost: rpc_kept "lost i q" for i q
  by unfold_locales (rule lost_fields lost_request lost_handshake, assumption)+

lemma lost_reply:
  assumes l: "lost i q c" and "wk_wired c = Some w" "list_ex (\<lambda>(v, cmd). v = w \<and> wm_id cmd = j) (wk_posted c)"
  shows "lost i q (onReply j a c)"
proof -
  obtain v cmd where v: "(v, cmd) \<in> set (wk_posted c)" "wm_id cmd = i" "wk_wired c \<noteq> Some v" using l by (auto simp: lost_def)
  obtain cmd' where w: "(w, cmd') \<in> set (wk_posted c)" "wm_id cmd' = j" using assms(3) by (auto simp: list_ex_iff)
  have "i \<noteq> j" using posted_once [OF _ v(1) w(1)] v w assms(2) l by (auto simp: lost_def)
  moreover have "rpc_inv (onReply j a c)" using l by (simp add: lost_def rpc_inv_reply)
  ultimately show ?thesis using l by (simp add: lost_def onReply_def settle_def)
qed

lemma lost_deliver: "lost i q c \<Longrightarrow> quiet c (Deliver w data) \<Longrightarrow> lost i q (deliver A I w data c)"
proof (cases "case data of Some (EvInitError _) \<Rightarrow> False | Some (EvReplyOk _ _) \<Rightarrow> False | Some (EvReplyErr _ _) \<Rightarrow> False | _ \<Rightarrow> True")
  case True
  assume "lost i q c"
  then show ?thesis using True by (rule lost.heard)
next
  case False
  assume "lost i q c" "quiet c (Deliver w data)"
  then show ?thesis using False
    by (auto simp: deliver_def onMessage_def quiet_def lost_reply split: option.splits WorkerEvent.splits)
qed

lemma lost_timeout: "lost i q c \<Longrightarrow> lost i q (onTimeout j c)"
proof -
  assume l: "lost i q c"
  have "j \<noteq> i" if "j \<in> set (wk_timers c)" using rpc_invD(6) [OF _ that] l by (auto simp: lost_def)
  moreover have "rpc_inv (onTimeout j c)" using l by (simp add: lost_def rpc_inv_timeout)
  ultimately show ?thesis using l by (auto simp: lost_def onTimeout_def settle_def)
qed

text \<open>No pass of the debouncer starts while one runs.\<close>

lemma run_inflight:
  assumes "ct_inflight (db_tail d) \<noteq> None"
  shows "ct_inflight (db_tail (db_schedule now Running d)) \<noteq> None \<and> ct_passes (db_tail (db_schedule now Running d)) = ct_passes (db_tail d)"
    "ct_inflight (db_tail (db_tick now Running d)) \<noteq> None \<and> ct_passes (db_tail (db_tick now Running d)) = ct_passes (db_tail d)"
    "ct_inflight (db_tail (fst (db_flush Running d))) \<noteq> None \<and> ct_passes (db_tail (fst (db_flush Running d))) = ct_passes (db_tail d)"
  using assms by (auto simp: db_schedule_def db_tick_def db_flush_def db_fire_def ct_run_def Let_def split: option.split)

lemma lost_None:
  "lost i None c \<Longrightarrow> lost i None (c\<lparr>wk_wait := v\<rparr>)" "lost i None c \<Longrightarrow> lost i None (c\<lparr>wk_sched := d\<rparr>)"
  by (simp_all add: lost_def rpc_inv_fields)

lemma lost_sched_None: "lost i None c \<Longrightarrow> lost i None (with_sched d c)"
  by (simp add: with_sched_eq sched_work_eq lost_None lost_request)

lemma lost_sched:
  assumes l: "lost i q c"
    and d: "ct_inflight (db_tail (wk_sched c)) \<noteq> None \<Longrightarrow>
      ct_inflight (db_tail d) \<noteq> None \<and> ct_passes (db_tail d) = ct_passes (db_tail (wk_sched c))"
  shows "lost i q (with_sched d c)"
proof (cases "ct_passes (db_tail (wk_sched c)) < ct_passes (db_tail d)")
  case True
  then have "q = None" using l d by (cases q) (auto simp: lost_def)
  then show ?thesis using l lost_sched_None by simp
next
  case False
  then show ?thesis using l d by (auto simp: with_sched_eq lost_def rpc_inv_fields)
qed

lemma lost_resume: "lost i q c \<Longrightarrow> lost i q (sched_resume c)"
proof (cases q)
  case None
  assume "lost i q c"
  then show ?thesis by (simp add: sched_resume_def None lost_None lost_sched_None)
next
  case (Some n)
  assume l: "lost i q c"
  have "i \<in> open_ids c" using l by (simp add: lost_def open_ids_iff)
  then have "i \<notin> ended_ids c" using rpc_invD(4) [of c] l by (auto simp: lost_def)
  then have "\<not> sched_ready c" using l Some by (force simp: lost_def sched_ready_def list_ex_iff ended_ids_def)
  then show ?thesis using l by (simp add: sched_resume_def)
qed

lemma lost_run: "lost i q c \<Longrightarrow> quiet c e \<Longrightarrow> lost i q (wk_run p A K N I c e)"
proof -
  assume l: "lost i q c" "quiet c e"
  have r: "lost i q (c\<lparr>wk_sched := db_cancel (wk_sched c)\<rparr>)" using l(1) by (auto simp: lost_def rpc_inv_fields db_cancel_def)
  have f: "lost i q (fst (flushScheduledSync c))" if "lost i q c" for c :: "('a, 'b) WorkerClient"
    using lost_sched [OF that run_inflight(3)] by (simp add: flushScheduledSync_def case_prod_unfold)
  show ?thesis
    using l by (cases e)
      (simp_all add: lost.calm lost_deliver lost_timeout lost_resume onWorkerError_def wk_schedule_def wk_tick_def f [OF r] f wk_rebuild_def
        lost_sched run_inflight del: wk_run.simps(1-8,18,19), simp_all add: quiet_def)
qed

lemma lost_runs: "lost i q c \<Longrightarrow> quiet_runs p A K N I c es \<Longrightarrow> lost i q (foldl (wk_run p A K N I) c es)"
  by (induction es arbitrary: c) (simp_all add: lost_run)

text \<open>A pass that waits is in flight.\<close>

definition sched_inv :: "('s, 'e) WorkerClient \<Rightarrow> bool" where
  "sched_inv c = (wk_wait c \<noteq> NoPass \<longrightarrow> ct_inflight (db_tail (wk_sched c)) \<noteq> None)"

lemma sched_inv_request: "sched_inv c \<Longrightarrow> sched_inv (fst (request cmd c))"
  by (simp add: sched_inv_def request_eq split: option.split)

lemma sched_inv_handshake: "sched_inv c \<Longrightarrow> sched_inv (fst (handshake enclave persist label bound spawns c))"
  by (simp add: sched_inv_def handshake_def allocId_def spawnSyncWorker_def bindWorker_def postMessage_def settle_def Let_def
      split: option.split)

interpretation sc: rpc_kept sched_inv
  by unfold_locales (simp_all add: sched_inv_request sched_inv_handshake, simp_all add: sched_inv_def)

lemma sched_inv_with:
  assumes "sched_inv c" "ct_inflight (db_tail (wk_sched c)) \<noteq> None \<Longrightarrow> ct_inflight (db_tail d) \<noteq> None"
    and "ct_passes (db_tail (wk_sched c)) < ct_passes (db_tail d) \<Longrightarrow> ct_inflight (db_tail d) \<noteq> None"
  shows "sched_inv (with_sched d c)"
  using assms by (auto simp: with_sched_eq sched_work_eq sched_inv_def request_eq split: option.split)

lemma run_starts:
  "ct_passes (db_tail d) < ct_passes (db_tail (db_schedule now Running d)) \<Longrightarrow> ct_inflight (db_tail (db_schedule now Running d)) \<noteq> None"
  "ct_passes (db_tail d) < ct_passes (db_tail (db_tick now Running d)) \<Longrightarrow> ct_inflight (db_tail (db_tick now Running d)) \<noteq> None"
  "ct_passes (db_tail d) < ct_passes (db_tail (fst (db_flush Running d))) \<Longrightarrow> ct_inflight (db_tail (fst (db_flush Running d))) \<noteq> None"
  by (auto simp: db_schedule_def db_tick_def db_flush_def db_fire_def ct_run_def Let_def split: option.splits if_splits)

lemma sched_inv_flush: "sched_inv c \<Longrightarrow> sched_inv (fst (flushScheduledSync c))"
  using sched_inv_with [of c "fst (db_flush Running (wk_sched c))", OF _ run_inflight(3) [THEN conjunct1] run_starts(3)]
  by (simp add: flushScheduledSync_def case_prod_unfold)

lemma sched_inv_resume: "sched_inv c \<Longrightarrow> sched_inv (sched_resume c)"
proof (cases "sched_ready c")
  case True
  assume c: "sched_inv c"
  have "wk_wait c \<noteq> NoPass" using True by (auto simp: sched_ready_def)
  then have "ct_inflight (db_tail (wk_sched c)) \<noteq> None" using c by (simp add: sched_inv_def)
  then show ?thesis
    by (auto simp: sched_resume_def with_sched_eq sched_work_eq sched_inv_def request_eq ct_complete_def ct_pass_def ct_finish_def Let_def
        split: option.split)
qed (simp add: sched_resume_def)

lemma sched_inv_same: "sched_inv c \<Longrightarrow> wk_wait c' = wk_wait c \<Longrightarrow> wk_sched c' = wk_sched c \<Longrightarrow> sched_inv c'"
  by (simp add: sched_inv_def)

lemma same_sched:
  "wk_wait (deliver A I w data c) = wk_wait c" "wk_sched (deliver A I w data c) = wk_sched c"
  "wk_wait (failPending c) = wk_wait c" "wk_sched (failPending c) = wk_sched c"
  by (simp_all add: deliver_def onMessage_def onReply_def settle_def failPending_eq emitClient_def emitXfer_def on_state_def
      split: option.split WorkerEvent.split)

lemma sched_inv_run: "sched_inv c \<Longrightarrow> sched_inv (wk_run p A K N I c e)"
proof -
  assume c: "sched_inv c"
  have "sched_inv (c\<lparr>wk_sched := db_cancel (wk_sched c)\<rparr>)" using c by (simp add: sched_inv_def db_cancel_def)
  then show ?thesis
    using c by (cases e)
      (simp_all add: sc.calm sched_inv_flush sched_inv_resume wk_rebuild_def wk_schedule_def wk_tick_def sched_inv_with run_inflight run_starts
        onWorkerError_def onTimeout_def settle_def terminate_def del: wk_run.simps(1-8,18,19),
       simp_all add: sched_inv_def same_sched db_cancel_def)
qed

lemma sched_inv_reach: "wk_reach p A K N I c \<Longrightarrow> sched_inv c"
proof (induction rule: wk_reach.induct)
  case (opened debounce up down local)
  show ?case unfolding WorkerClient_open_def by (rule sc.hydrated) (simp add: sched_inv_def)
qed (rule sched_inv_run)

lemma loadSession_same [simp]:
  "wk_pending (loadSession K b c) = wk_pending c" "wk_posted (loadSession K b c) = wk_posted c" "wk_wired (loadSession K b c) = wk_wired c"
  "wk_spawned (loadSession K b c) = wk_spawned c" "wk_wait (loadSession K b c) = wk_wait c" "wk_sched (loadSession K b c) = wk_sched c"
  "wk_nextId (loadSession K b c) = wk_nextId c"
  by (simp_all add: loadSession_def)

section \<open>Properties\<close>

text \<open>C10: Each request of the client over a worker has a number of its own, and its promise is settled at most once: at any time it
  is either waiting in the table or has ended, whatever replies, failures, timeouts and replacements of the worker came.\<close>

theorem worker_requests:
  assumes "wk_reach p A K N I c"
  shows "distinct (asked_ids c) \<and> distinct (map fst (wk_answers c))
    \<and> (\<forall>i \<in> set (asked_ids c). map_has (wk_pending c) i \<noteq> (\<exists>a. (i, a) \<in> set (wk_answers c)))"
proof -
  have c: "rpc_inv c" using assms by (rule rpc_inv_reach)
  have "map_has (wk_pending c) i \<noteq> (\<exists>a. (i, a) \<in> set (wk_answers c))" if "i \<in> set (asked_ids c)" for i
    using rpc_invD(4,8) [OF c] that open_ids_iff [of i c] by (force simp: ended_ids_def)
  then show ?thesis using rpc_invD(3,9) [OF c] by blast
qed

text \<open>C26: The end of the worker leaves no request hanging: when it is terminated, fails, or reports that it could not open its
  databases, every waiting promise is rejected and every request made so far has an answer.\<close>

theorem worker_end_fails_all:
  assumes "wk_reach p A K N I c"
    and "e = Terminate \<or> wk_wired c = Some w \<and> (e = WorkerError w \<or> e = Deliver w (Some (EvInitError m)))"
  shows "let c' = wk_run p A K N I c e in wk_pending c' = [] \<and> wk_timers c' = []
    \<and> wk_answers c' = wk_answers c @ map (\<lambda>(i, _). (i, Failed)) (wk_pending c) \<and> set (asked_ids c') \<subseteq> fst ` set (wk_answers c')"
proof -
  let ?c' = "wk_run p A K N I c e"
  have e: "wk_pending ?c' = []" "wk_answers ?c' = wk_answers c @ map (\<lambda>(i, _). (i, Failed)) (wk_pending c)"
    using assms(2) by (auto simp: terminate_def onWorkerError_def deliver_def onMessage_def failPending_eq)
  have c': "rpc_inv ?c'" by (rule rpc_inv_run [OF rpc_inv_reach [OF assms(1)]])
  have "wk_timers ?c' = []" using rpc_invD(6) [OF c'] e(1) by (cases "wk_timers ?c'") auto
  then show ?thesis using rpc_invD(8) [OF c'] e by (simp add: Let_def ids_def)
qed

text \<open>C27: Replacing the worker is not such an end. A second \<open>setSeed\<close> while a request runs leaves that request waiting for ever, as
  long as the new worker works; if the request was the scheduled synchronisation, no local write ever schedules another one.\<close>

theorem replaced_worker_orphans:
  assumes "wk_reach p A K N I c" "wk_worker c = Some w" "(w, cmd) \<in> set (wk_posted c)" "map_get (wk_pending c) (wm_id cmd) = Some Rpc"
    and "snd (setSeed K nonce enclave optLabel (wk_local c)) = Ok ()"
    and "quiet_runs p A K N I (wk_run p A K N I c (SetSeed nonce enclave optLabel persist (Ok bound) True)) es"
  shows "let c' = foldl (wk_run p A K N I) c (SetSeed nonce enclave optLabel persist (Ok bound) True # es)
    in map_get (wk_pending c') (wm_id cmd) = Some Rpc \<and> wm_id cmd \<notin> fst ` set (wk_answers c')
       \<and> (wk_wait c = PassAwaits (wm_id cmd) \<longrightarrow> ct_passes (db_tail (wk_sched c')) = ct_passes (db_tail (wk_sched c)))"
proof -
  let ?i = "wm_id cmd" and ?c = "wk_run p A K N I c (SetSeed nonce enclave optLabel persist (Ok bound) True)"
  have c: "rpc_inv c" "sched_inv c" using assms(1) by (rule rpc_inv_reach, rule sched_inv_reach)
  have i: "?i \<noteq> 0" "?i \<noteq> wk_nextId c" "w \<noteq> wk_spawned c"
    using rpc_invD(5) [OF c(1), of ?i] rpc_inv_fresh(1) [OF c(1)] rpc_invD(7) [OF c(1) assms(3)] assms(4) by (auto simp: open_ids_iff)
  obtain local where s: "setSeed K nonce enclave optLabel (wk_local c) = (local, Ok ())" using assms(5) by (cases "setSeed K nonce enclave optLabel (wk_local c)") auto
  define q where "q = (if wk_wait c = PassAwaits ?i then Some (ct_passes (db_tail (wk_sched c))) else None)"
  have f: "map_get (wk_pending ?c) ?i = Some Rpc" "(w, cmd) \<in> set (wk_posted ?c)" "wk_wired ?c \<noteq> Some w"
      "wk_wait ?c = wk_wait c" "wk_sched ?c = wk_sched c"
    using i assms(3,4)
    by (simp_all add: wk_setSeed_def s Let_def handshake_def allocId_def spawnSyncWorker_def bindWorker_def postMessage_def emitClient_def
        split: option.split)
  have "lost ?i q ?c"
    unfolding lost_def f(4,5) using rpc_inv_run [OF c(1)] f(1-3) i(1) c(2) by (auto simp: q_def sched_inv_def simp del: wk_run.simps)
  from lost_runs [OF this assms(6)] have l: "lost ?i q (foldl (wk_run p A K N I) ?c es)" .
  then have "?i \<in> open_ids (foldl (wk_run p A K N I) ?c es)" "rpc_inv (foldl (wk_run p A K N I) ?c es)"
    by (simp_all add: lost_def open_ids_iff del: wk_run.simps)
  then have "?i \<notin> ended_ids (foldl (wk_run p A K N I) ?c es)" using rpc_invD(4) by blast
  then show ?thesis using l by (auto simp: lost_def q_def Let_def ended_ids_def split: if_splits)
qed

section \<open>Witnesses\<close>

text \<open>A store that keeps no account, a client on it without any message, a worker that took its seed, and a local write.\<close>

definition light_store :: "MemoryStore ClientStore" where
  "light_store = (memClientStore toy_prims)\<lparr>co_account_save := \<lambda>_ enclave _ s. (s, Ok enclave)\<rparr>"

definition light_net :: "unit Net" where
  "light_net = \<lparr>nt_conn = \<lambda>_ api. \<lparr>sc_pull = \<lambda>_ _ w. (w, Throw), sc_push = \<lambda>_ w. (w, Throw), sc_peek = \<lambda>_ _ w. (w, Throw),
       sc_seal = \<lambda>_ _ w. (w, Throw), sc_client = api\<rparr>,
     nt_register = \<lambda>_ _ w. (w, Throw), nt_listen = \<lambda>_ _ w. (w, Throw), nt_connected = \<lambda>_ _. False, nt_close = \<lambda>_ w. w\<rparr>"

definition light_client :: "(MemoryStore, EntDBMemory) SyncClient" where
  "light_client = \<lparr>cl_connections = [], cl_account = None, cl_store = MemoryStore_new,
     cl_state = \<lparr>sm_state = EntDBMemory_new [] True, sm_listeners = [], sm_cacheDriven = False, sm_emitted = [], sm_dirty = []\<rparr>,
     cl_scheduled = False\<rparr>"

definition light_state :: "EntDBMemory AppState" where
  "light_state = \<lparr>as_applier = edb_applier, as_clearer = edb_clearer\<rparr>"

definition seeding :: "(MemoryStore, EntDBMemory) wk_event" where
  "seeding = SetSeed [] \<lparr>oe_inner = \<lparr>ie_seed = replicate 32 5\<rparr>\<rparr> None None (Ok None) True"

definition busy :: "(MemoryStore, EntDBMemory) WorkerClient" where
  "busy = foldl (wk_run toy_prims light_state light_store light_net None) (WorkerClient_open light_store 0 0 0 light_client)
     [seeding, Deliver 0 (Some (EvReplyOk 1 UUndef)), Schedule 5]"

lemma seeds: "snd (setSeed light_store nonce enclave None c) = Ok ()"
  by (simp add: setSeed_def accountLabel_def light_store_def account_open_def memClientStore_def)

lemma busy_reach: "wk_reach toy_prims light_state light_store light_net None busy"
  unfolding busy_def by (simp only: foldl.simps) (intro wk_reach.intros)

lemmas wk_eval = wk_setSeed_def Let_def handshake_def allocId_def spawnSyncWorker_def bindWorker_def postMessage_def emitClient_def
  deliver_def onMessage_def onReply_def settle_def with_sched_eq sched_work_eq request_eq

lemma seeding_run:
  "\<exists>l a m. wk_run p A light_store N I c seeding =
     c\<lparr>wk_local := l, wk_clientState := a, wk_emits := m, wk_nextId := wk_nextId c + 1,
       wk_pending := map_set (wk_nextId c) Handshake (wk_pending c), wk_timers := wk_timers c @ [wk_nextId c], wk_spawned := wk_spawned c + 1,
       wk_posted := wk_posted c @ [(wk_spawned c, \<lparr>wm_id = wk_nextId c, wm_op = OpSetSeed (replicate 32 5) None\<rparr>)],
       wk_worker := Some (wk_spawned c), wk_wired := Some (wk_spawned c)\<rparr>"
proof -
  obtain l where "setSeed light_store [] \<lparr>oe_inner = \<lparr>ie_seed = replicate 32 5\<rparr>\<rparr> None (wk_local c) = (l, Ok ())"
    using seeds [of "[]" "\<lparr>oe_inner = \<lparr>ie_seed = replicate 32 5\<rparr>\<rparr>" "wk_local c"]
    by (cases "setSeed light_store [] \<lparr>oe_inner = \<lparr>ie_seed = replicate 32 5\<rparr>\<rparr> None (wk_local c)") auto
  then show ?thesis
    by (intro exI [of _ l] exI [of _ "\<lparr>cs_hasSeed = (cl_account l \<noteq> None),
           cs_hasHost = (0 < length (is_hosts_list (co_store light_store) (cl_store l))), cs_connected = False\<rparr>"]
         exI [of _ "wk_emits c @ [Inl \<lparr>cs_hasSeed = (cl_account l \<noteq> None),
           cs_hasHost = (0 < length (is_hosts_list (co_store light_store) (cl_store l))), cs_connected = False\<rparr>]"])
       (simp add: seeding_def wk_eval loadSession_def)
qed

lemma busy_state:
  "wk_worker busy = Some 0" "wk_wired busy = Some 0" "wk_spawned busy = 1" "wk_nextId busy = 3" "wk_pending busy = [(2, Rpc)]"
  "wk_timers busy = []" "wk_wait busy = PassAwaits 2" "(0, \<lparr>wm_id = 2, wm_op = OpSync\<rparr>) \<in> set (wk_posted busy)"
  "ct_passes (db_tail (wk_sched busy)) = 1" "ct_inflight (db_tail (wk_sched busy)) = Some 0" "wk_answers busy = [(1, Answered UUndef)]"
  "db_delayMs (wk_sched busy) = 0"
proof -
  define c where "c = (WorkerClient_open light_store 0 0 0 light_client :: (MemoryStore, EntDBMemory) WorkerClient)"
  have c: "wk_spawned c = 0" "wk_nextId c = 1" "wk_pending c = []" "wk_timers c = []" "wk_sched c = Debounced_new 0" "wk_wait c = NoPass"
      "wk_answers c = []" "wk_posted c = []"
    by (simp_all add: c_def WorkerClient_open_def hydrateStateFromStore_def loadSession_def)
  obtain l a m where s: "wk_run toy_prims light_state light_store light_net None c seeding =
     c\<lparr>wk_local := l, wk_clientState := a, wk_emits := m, wk_nextId := Suc (Suc 0), wk_pending := [(1, Handshake)], wk_timers := [1], wk_spawned := 1,
       wk_posted := [(0, \<lparr>wm_id = 1, wm_op = OpSetSeed (replicate 32 5) None\<rparr>)], wk_worker := Some 0, wk_wired := Some 0\<rparr>"
    using seeding_run [of toy_prims light_state light_net None c] by (auto simp: c)
  show "wk_worker busy = Some 0" "wk_wired busy = Some 0" "wk_spawned busy = 1" "wk_nextId busy = 3" "wk_pending busy = [(2, Rpc)]"
    "wk_timers busy = []" "wk_wait busy = PassAwaits 2" "(0, \<lparr>wm_id = 2, wm_op = OpSync\<rparr>) \<in> set (wk_posted busy)"
    "ct_passes (db_tail (wk_sched busy)) = 1" "ct_inflight (db_tail (wk_sched busy)) = Some 0" "wk_answers busy = [(1, Answered UUndef)]"
    "db_delayMs (wk_sched busy) = 0"
    unfolding busy_def c_def [symmetric]
    by (simp_all add: s c wk_eval wk_schedule_def db_schedule_def db_fire_def ct_run_def ct_pass_def Debounced_new_def CoalesceTail_new_def)
qed

theorem worker_requests_witness:
  "distinct (asked_ids busy) \<and> map_has (wk_pending busy) 2 \<noteq> (\<exists>a. (2, a) \<in> set (wk_answers busy))"
proof -
  have "2 \<in> set (asked_ids busy)" using busy_state(8) by (force simp: asked_ids_def)
  then show ?thesis using worker_requests [OF busy_reach] by blast
qed

theorem worker_end_fails_all_witness:
  "wk_answers (wk_run toy_prims light_state light_store light_net None busy (WorkerError 0)) = [(1, Answered UUndef), (2, Failed)]"
  using worker_end_fails_all [OF busy_reach, of "WorkerError 0" 0] by (simp add: Let_def busy_state)

theorem replaced_worker_orphans_witness:
  "let c = foldl (wk_run toy_prims light_state light_store light_net None) busy
       [seeding, Deliver 1 (Some (EvReplyOk 3 UUndef)), Schedule 9, Schedule 10]
   in map_get (wk_pending c) 2 = Some Rpc \<and> ct_passes (db_tail (wk_sched c)) = 1"
proof -
  let ?run = "wk_run toy_prims light_state light_store light_net None"
  let ?es = "[Deliver 1 (Some (EvReplyOk 3 UUndef)), Schedule 9, Schedule 10] :: (MemoryStore, EntDBMemory) wk_event list"
  obtain l a m where s: "?run busy seeding =
     busy\<lparr>wk_local := l, wk_clientState := a, wk_emits := m, wk_nextId := 4, wk_pending := [(2, Rpc), (3, Handshake)], wk_timers := [3],
       wk_spawned := Suc (Suc 0), wk_posted := wk_posted busy @ [(1, \<lparr>wm_id = 3, wm_op = OpSetSeed (replicate 32 5) None\<rparr>)],
       wk_worker := Some 1, wk_wired := Some 1\<rparr>"
    using seeding_run [of toy_prims light_state light_net None busy] by (auto simp: busy_state)
  have q: "quiet_runs toy_prims light_state light_store light_net None (?run busy seeding) ?es"
    by (simp only: quiet_runs.simps) (simp add: quiet_def s)
  show ?thesis
    using replaced_worker_orphans [OF busy_reach busy_state(1,8), of "[]" "\<lparr>oe_inner = \<lparr>ie_seed = replicate 32 5\<rparr>\<rparr>" None None None ?es,
        folded seeding_def, OF _ _ q]
    by (simp add: busy_state Let_def seeds)
qed

end
