(* ===== verification/WorkerRuntime.thy ===== *)
theory WorkerRuntime
  imports Worker Exim
begin

text \<open>
  The worker's side (\<^verbatim>\<open>web/src/worker/runtime.ts\<close> and \<^verbatim>\<open>entry.ts\<close>): a client of its own on the databases
  the main thread names, a command at a time, a reply to each.

  Commands that arrive before the databases are bound wait. What the worker is built from is the record \<open>rt_env\<close>;
  opening the databases and parsing a URL are the browser's and are functions of it. The application state counts
  how often it was cleared, because each clearing is announced.

  The properties: each command is answered exactly once, and only after the databases are bound; the transfer state
  that the worker reports is the one the main thread then shows.
\<close>

section \<open>The worker's client\<close>

record ('w, 's, 'e) rt_env =
  ev_prims :: prims
  ev_app :: "'e AppState"
  ev_store :: "'s ClientStore"
  ev_net :: "'w Net"
  ev_limits :: SyncLimits
  ev_upCount :: "'s \<Rightarrow> int"
  ev_dnCount :: "'s \<Rightarrow> int"
  ev_checksum :: "'e \<Rightarrow> bytes vs"
  ev_close :: "'s \<Rightarrow> 's"
  ev_closeEnts :: "'e \<Rightarrow> 'e"
  ev_open :: "jsstr \<Rightarrow> 's option"
  ev_openEnts :: "jsstr \<Rightarrow> 'e option"
  ev_url :: "jsstr \<Rightarrow> jsstr option"
  ev_nonce :: bytes
  ev_headNonce :: "nat \<Rightarrow> nat \<Rightarrow> bytes"
  ev_bodyNonce :: "nat \<Rightarrow> nat \<Rightarrow> bytes"

definition counting :: "'e AppState \<Rightarrow> ('e \<times> nat) AppState" where
  "counting A =
     \<lparr>as_applier = (\<lambda>(e, n) ops. case as_applier A e ops of (e, r) \<Rightarrow> ((e, n), r)),
      as_clearer = (\<lambda>(e, n). case as_clearer A e of (e, Ok _) \<Rightarrow> ((e, n + 1), Ok ()) | (e, r) \<Rightarrow> ((e, n), r))\<rparr>"

datatype readiness = RtWaiting | RtReady | RtFailed

text \<open>\<open>rt_progress\<close> is the client's last progress, \<open>rt_out\<close> what was posted, \<open>rt_hung\<close> the commands that never end.\<close>

record ('w, 's, 'e) WorkerRuntime =
  rt_net :: 'w
  rt_client :: "('s, 'e \<times> nat) SyncClient option"
  rt_boundLabel :: jsstr
  rt_progress :: SyncProgressEvent
  rt_ready :: readiness
  rt_waiting :: "WorkerCmd list"
  rt_out :: "WorkerEvent list"
  rt_hung :: "nat list"

definition WorkerRuntime_new :: "'w \<Rightarrow> ('w, 's, 'e) WorkerRuntime" where
  "WorkerRuntime_new w =
     \<lparr>rt_net = w, rt_client = None, rt_boundLabel = [], rt_progress = idleProgress, rt_ready = RtWaiting, rt_waiting = [],
      rt_out = [], rt_hung = []\<rparr>"

definition rt_post :: "WorkerEvent list \<Rightarrow> ('w, 's, 'e) WorkerRuntime \<Rightarrow> ('w, 's, 'e) WorkerRuntime" where
  "rt_post evs t = t\<lparr>rt_out := rt_out t @ evs\<rparr>"

text \<open>\<open>clientState.get\<close> and \<open>xferState.get\<close> of the client.\<close>

definition client_connected :: "'w Net \<Rightarrow> 'w \<Rightarrow> ('s, 'e) SyncClient \<Rightarrow> bool" where
  "client_connected N w c = list_ex (\<lambda>(label, _). nt_connected N label w) (cl_connections c)"

definition getXferState :: "('w, 's, 'e) rt_env \<Rightarrow> SyncProgressEvent \<Rightarrow> ('s, 'x) SyncClient \<Rightarrow> XferState" where
  "getXferState E progress c =
     \<lparr>xs_numUploads = ev_upCount E (cl_store c), xs_numDownloads = ev_dnCount E (cl_store c), xs_progress = progress\<rparr>"

definition emitClientState :: "('w, 's, 'e) rt_env \<Rightarrow> ('w, 's, 'e) WorkerRuntime \<Rightarrow> ('w, 's, 'e) WorkerRuntime" where
  "emitClientState E t =
     (case rt_client t of None \<Rightarrow> t | Some c \<Rightarrow> rt_post [EvClientState (client_connected (ev_net E) (rt_net t) c)] t)"

definition emitXferState :: "('w, 's, 'e) rt_env \<Rightarrow> ('w, 's, 'e) WorkerRuntime \<Rightarrow> ('w, 's, 'e) WorkerRuntime" where
  "emitXferState E t =
     (case rt_client t of None \<Rightarrow> t | Some c \<Rightarrow> rt_post [EvXferState (getXferState E (rt_progress t) c)] t)"

section \<open>Binding the databases\<close>

definition bindStores :: "('w, 's, 'e) rt_env \<Rightarrow> jsstr \<Rightarrow> jsstr \<Rightarrow> jsstr \<Rightarrow> ('w, 's, 'e) WorkerRuntime \<Rightarrow> ('w, 's, 'e) WorkerRuntime \<times> unit vs" where
  "bindStores E label data ents t =
     (if rt_client t \<noteq> None then (t, Ok ())
      else case (ev_open E data, ev_openEnts E ents) of
        (Some s, Some e) \<Rightarrow>
          (let t = t\<lparr>rt_client := Some \<lparr>cl_connections = [], cl_account = None, cl_store = s,
                       cl_state = \<lparr>sm_state = (e, 0), sm_listeners = [], sm_cacheDriven = False, sm_emitted = [], sm_dirty = []\<rparr>,
                       cl_scheduled = False\<rparr>, rt_boundLabel := label\<rparr>;
               t = rt_post [EvReady] (emitXferState E t)
           in (if rt_ready t = RtWaiting then t\<lparr>rt_ready := RtReady\<rparr> else t, Ok ()))
      | _ \<Rightarrow>
          (let t = rt_post [EvInitError []] t
           in (if rt_ready t = RtWaiting then t\<lparr>rt_ready := RtFailed\<rparr> else t, Throw)))"

section \<open>Commands\<close>

fun void :: "unit vs \<Rightarrow> unk vs" where
  "void Throw = Throw"
| "void Hang = Hang"
| "void _ = Ok UUndef"

fun statusUnk :: "unit vs \<Rightarrow> unk vs" where
  "statusUnk (Ok _) = Ok (UNum (int (status_code Success)))"
| "statusUnk (Err st) = Ok (UNum (int (status_code st)))"
| "statusUnk Throw = Throw"
| "statusUnk Hang = Hang"

definition report_unk :: "ReconcileResult \<Rightarrow> unk" where
  "report_unk r =
     UObj [(js ''msgcheck'', UBytes (rr_msgcheck r)), (js ''numBags'', UNum (rr_numBags r)), (js ''uniqueMsgs'', UNum (rr_uniqueMsgs r)),
       (js ''numDupes'', UNum (rr_numDupes r)), (js ''missingLocal'', UNum (rr_missingLocal r)), (js ''missingHost'', UNum (rr_missingHost r))]"

definition hostFromSerialized :: "('w, 's, 'e) rt_env \<Rightarrow> SerializedHost \<Rightarrow> IHostConnectionInfo vs" where
  "hostFromSerialized E h =
     (case ev_url E (sh_handle h) of
        None \<Rightarrow> Throw
      | Some href \<Rightarrow> Ok \<lparr>hi_handle = href, hi_label = sh_label h, hi_idx = Some (sh_idx h)\<rparr>)"

definition opt_true :: "bool option \<Rightarrow> bool" where
  "opt_true b = (case b of None \<Rightarrow> True | Some b \<Rightarrow> b)"

text \<open>
  \<open>handle\<close>, once the worker is ready, on the connections and the client. \<^term>\<open>Err\<close> is a \<open>WorkerStatusError\<close>,
  \<^term>\<open>Throw\<close> any other error.
\<close>

fun rt_exec ::
    "('w, 's, 'e) rt_env \<Rightarrow> jsstr \<Rightarrow> SyncProgressEvent \<Rightarrow> WorkerOp \<Rightarrow> ('w, 's, 'e \<times> nat) cworld \<Rightarrow> ('w, 's, 'e \<times> nat) cworld \<times> unk vs" where
  "rt_exec E label pg OpPing (w, c) = ((w, c), Ok (UStr (js ''pong'')))"
| "rt_exec E label pg (OpSetSeed seed persist) (w, c) =
     (case fromBytes seed of
        Ok enclave \<Rightarrow>
          (case adopt (ev_store E) enclave label c of (c, r) \<Rightarrow> ((w, c), case r of Ok _ \<Rightarrow> Ok UUndef | Err st \<Rightarrow> Err st | Throw \<Rightarrow> Throw | Hang \<Rightarrow> Hang))
      | Err st \<Rightarrow> ((w, c), Err st) | Throw \<Rightarrow> ((w, c), Throw) | Hang \<Rightarrow> ((w, c), Hang))"
| "rt_exec E label pg (OpBind l data ents) (w, c) = ((w, c), Ok UUndef)"
| "rt_exec E label pg (OpLink host connect) (w, c) =
     (case hostFromSerialized E host of
        Ok info \<Rightarrow> (case client_link (ev_prims E) (ev_store E) (ev_net E) info (opt_true connect) (w, c) of (wc, r) \<Rightarrow> (wc, void r))
      | _ \<Rightarrow> ((w, c), Throw))"
| "rt_exec E label pg (OpUnlink l) (w, c) = ((w, client_unlink (ev_store E) l c), Ok UUndef)"
| "rt_exec E label pg (OpConnect listen sync) (w, c) =
     (case client_connect (ev_prims E) (counting (ev_app E)) (ev_store E) (ev_net E) (opt_true listen) (opt_true sync) (w, c) of
        (wc, r) \<Rightarrow> (wc, void r))"
| "rt_exec E label pg OpDisconnect (w, c) = (client_disconnect (ev_net E) (w, c), Ok UUndef)"
| "rt_exec E label pg OpSync (w, c) =
     (case doSync (ev_prims E) (counting (ev_app E)) (ev_store E) (ev_net E) (ev_limits E) (w, c) of (wc, r) \<Rightarrow> (wc, statusUnk r))"
| "rt_exec E label pg (OpRebuild checkHost) (w, c) =
     (case rebuild (ev_prims E) (counting (ev_app E)) (ev_store E) (ev_net E) (ev_limits E) (Some (opt_true checkHost)) (w, c) of
        (wc, r) \<Rightarrow> (wc, statusUnk r))"
| "rt_exec E label pg (OpReconcile host pull push sync) (w, c) =
     (case client_reconcile (ev_prims E) (counting (ev_app E)) (ev_store E) (ev_net E) (ev_limits E) host pull push sync (w, c) of
        (wc, r) \<Rightarrow> (wc, case r of Ok report \<Rightarrow> Ok (report_unk report) | Err st \<Rightarrow> Err st | Throw \<Rightarrow> Throw | Hang \<Rightarrow> Hang))"
| "rt_exec E label pg OpMsgcheck (w, c) = ((w, c), Ok (UBytes (msgcheck (ev_prims E) (co_store (ev_store E)) (cl_store c))))"
| "rt_exec E label pg OpEntcheck (w, c) =
     ((w, c), case ev_checksum E (fst (sm_state (cl_state c))) of
                Ok digest \<Rightarrow> Ok (UBytes digest) | Err st \<Rightarrow> Err st | Throw \<Rightarrow> Throw | Hang \<Rightarrow> Hang)"
| "rt_exec E label pg (OpWipe msgs ents meta seed) (w, c) =
     (case client_wipe (counting (ev_app E)) (ev_store E) (ev_net E) msgs ents meta seed (w, c) of
        ((w, c), Ok _) \<Rightarrow>
          ((w, if seed = Some True
               then c\<lparr>cl_store := ev_close E (cl_store c),
                      cl_state := (cl_state c)\<lparr>sm_state := apfst (ev_closeEnts E) (sm_state (cl_state c))\<rparr>\<rparr>
               else c), Ok UUndef)
      | (wc, r) \<Rightarrow> (wc, void r))"
| "rt_exec E label pg (OpImport b) (w, c) =
     (case client_import (ev_prims E) (counting (ev_app E)) (ev_store E) b c of (c, r) \<Rightarrow> ((w, c), statusUnk r))"
| "rt_exec E label pg OpExport (w, c) =
     ((w, c), case exportBytes (ev_prims E) (ev_store E) (ev_nonce E) (ev_headNonce E) (ev_bodyNonce E) c of
                Ok b \<Rightarrow> Ok (UBytes b) | Err st \<Rightarrow> Err st | Throw \<Rightarrow> Throw | Hang \<Rightarrow> Hang)"
| "rt_exec E label pg OpGetXferState (w, c) = ((w, c), Ok (xferState_unk (getXferState E pg c)))"

text \<open>What the state manager of the worker announced meanwhile.\<close>

definition announced :: "('s, 'e \<times> nat) SyncClient \<Rightarrow> ('s, 'e \<times> nat) SyncClient \<Rightarrow> WorkerEvent list" where
  "announced c c' =
     replicate (snd (sm_state (cl_state c')) - snd (sm_state (cl_state c))) EvWiped
       @ map EvDirty (drop (length (sm_dirty (cl_state c))) (sm_dirty (cl_state c')))"

text \<open>\<open>handleCmd\<close> (entry.ts) posts the reply.\<close>

definition rt_reply :: "nat \<Rightarrow> unk vs \<Rightarrow> ('w, 's, 'e) WorkerRuntime \<Rightarrow> ('w, 's, 'e) WorkerRuntime" where
  "rt_reply i r t =
     (case r of
        Ok v \<Rightarrow> rt_post [EvReplyOk i v] t
      | Err st \<Rightarrow> rt_post [EvReplyErr i st] t
      | Throw \<Rightarrow> rt_post [EvReplyErr i InternalError] t
      | Hang \<Rightarrow> t\<lparr>rt_hung := rt_hung t @ [i]\<rparr>)"

definition rt_run :: "('w, 's, 'e) rt_env \<Rightarrow> WorkerCmd \<Rightarrow> ('w, 's, 'e) WorkerRuntime \<Rightarrow> ('w, 's, 'e) WorkerRuntime" where
  "rt_run E cmd t =
     (if rt_ready t = RtFailed then rt_reply (wm_id cmd) Throw t
      else case rt_client t of
        None \<Rightarrow> rt_reply (wm_id cmd) Throw t
      | Some c \<Rightarrow>
          (case rt_exec E (rt_boundLabel t) (rt_progress t) (wm_op cmd) (rt_net t, c) of
             ((w, c'), r) \<Rightarrow> rt_reply (wm_id cmd) r (rt_post (announced c c') (t\<lparr>rt_net := w, rt_client := Some c'\<rparr>))))"

definition is_bind :: "WorkerOp \<Rightarrow> bool" where
  "is_bind cmd = (case cmd of OpBind _ _ _ \<Rightarrow> True | _ \<Rightarrow> False)"

text \<open>A command arrives. When the databases are settled, those that waited go on, in their order.\<close>

definition rt_receive :: "('w, 's, 'e) rt_env \<Rightarrow> WorkerCmd \<Rightarrow> ('w, 's, 'e) WorkerRuntime \<Rightarrow> ('w, 's, 'e) WorkerRuntime" where
  "rt_receive E cmd t =
     (case wm_op cmd of
        OpBind label data ents \<Rightarrow>
          (case bindStores E label data ents t of
             (t, r) \<Rightarrow>
               (let t = rt_reply (wm_id cmd) (void r) t
                in if rt_ready t = RtWaiting then t else foldl (\<lambda>t cmd. rt_run E cmd t) (t\<lparr>rt_waiting := []\<rparr>) (rt_waiting t)))
      | _ \<Rightarrow> if rt_ready t = RtWaiting then t\<lparr>rt_waiting := rt_waiting t @ [cmd]\<rparr> else rt_run E cmd t)"

text \<open>The client reports progress.\<close>

definition rt_tick :: "('w, 's, 'e) rt_env \<Rightarrow> SyncProgressEvent \<Rightarrow> ('w, 's, 'e) WorkerRuntime \<Rightarrow> ('w, 's, 'e) WorkerRuntime" where
  "rt_tick E progress t = (if rt_client t = None then t else emitXferState E (t\<lparr>rt_progress := progress\<rparr>))"

datatype rt_event = Receive WorkerCmd | Progress SyncProgressEvent | Connection

fun rt_step :: "('w, 's, 'e) rt_env \<Rightarrow> ('w, 's, 'e) WorkerRuntime \<Rightarrow> rt_event \<Rightarrow> ('w, 's, 'e) WorkerRuntime" where
  "rt_step E t (Receive cmd) = rt_receive E cmd t"
| "rt_step E t (Progress progress) = rt_tick E progress t"
| "rt_step E t Connection = emitClientState E t"

section \<open>Lemmas\<close>

definition reply_id :: "WorkerEvent \<Rightarrow> nat option" where
  "reply_id ev = (case ev of EvReplyOk i _ \<Rightarrow> Some i | EvReplyErr i _ \<Rightarrow> Some i | _ \<Rightarrow> None)"

definition reply_ids :: "WorkerEvent list \<Rightarrow> nat list" where
  "reply_ids evs = List.map_filter reply_id evs"

lemma reply_ids_simps [simp]:
  "reply_ids [] = []" "reply_ids (ev # evs) = (case reply_id ev of None \<Rightarrow> [] | Some i \<Rightarrow> [i]) @ reply_ids evs"
  "reply_ids (evs @ evs') = reply_ids evs @ reply_ids evs'"
  by (simp_all add: reply_ids_def map_filter_simps split: option.split) (simp add: List.map_filter_def)

lemma reply_ids_announced [simp]: "reply_ids (announced c c') = []"
proof -
  have "reply_ids (map EvDirty ds) = []" for ds by (induction ds) (simp_all add: reply_id_def)
  moreover have "reply_ids (replicate n EvWiped) = []" for n by (induction n) (simp_all add: reply_id_def)
  ultimately show ?thesis by (simp add: announced_def)
qed

definition received :: "rt_event list \<Rightarrow> nat list" where
  "received evs = List.map_filter (\<lambda>e. case e of Receive cmd \<Rightarrow> Some (wm_id cmd) | _ \<Rightarrow> None) evs"

text \<open>The numbers that were answered or will never be.\<close>

definition dealt :: "('w, 's, 'e) WorkerRuntime \<Rightarrow> nat multiset" where
  "dealt t = mset (reply_ids (rt_out t)) + mset (rt_hung t)"

lemma dealt_fields [simp]:
  "dealt (t\<lparr>rt_waiting := ws\<rparr>) = dealt t" "dealt (t\<lparr>rt_progress := g\<rparr>) = dealt t" "dealt (t\<lparr>rt_ready := a\<rparr>) = dealt t"
  "dealt (t\<lparr>rt_client := c\<rparr>) = dealt t" "dealt (t\<lparr>rt_boundLabel := l\<rparr>) = dealt t"
  "dealt (rt_post [EvReady] t) = dealt t" "dealt (rt_post [EvInitError m] t) = dealt t"
  "rt_ready (rt_post evs t) = rt_ready t" "rt_waiting (rt_post evs t) = rt_waiting t" "rt_client (rt_post evs t) = rt_client t"
  by (simp_all add: dealt_def rt_post_def reply_id_def)

lemma dealt_reply [simp]:
  "dealt (rt_reply i r t) = add_mset i (dealt t)" "rt_waiting (rt_reply i r t) = rt_waiting t" "rt_ready (rt_reply i r t) = rt_ready t"
  "rt_client (rt_reply i r t) = rt_client t"
  by (simp_all add: rt_reply_def dealt_def rt_post_def reply_id_def split: vs.split)

lemma dealt_run [simp]:
  "dealt (rt_run E cmd t) = add_mset (wm_id cmd) (dealt t)" "rt_waiting (rt_run E cmd t) = rt_waiting t" "rt_ready (rt_run E cmd t) = rt_ready t"
  "rt_ready t \<noteq> RtWaiting \<Longrightarrow> rt_client (rt_run E cmd t) = None \<longleftrightarrow> rt_client t = None"
  by (auto simp: rt_run_def dealt_def rt_post_def split: option.split prod.split)
    (auto simp: rt_reply_def rt_post_def reply_id_def split: vs.split)

lemma dealt_runs [simp]:
  "dealt (foldl (\<lambda>t cmd. rt_run E cmd t) t cmds) = mset (map wm_id cmds) + dealt t"
  "rt_waiting (foldl (\<lambda>t cmd. rt_run E cmd t) t cmds) = rt_waiting t" "rt_ready (foldl (\<lambda>t cmd. rt_run E cmd t) t cmds) = rt_ready t"
  by (induction cmds arbitrary: t) simp_all

lemma dealt_emit [simp]:
  "dealt (emitXferState E t) = dealt t" "rt_waiting (emitXferState E t) = rt_waiting t" "rt_ready (emitXferState E t) = rt_ready t"
  "dealt (emitClientState E t) = dealt t" "rt_waiting (emitClientState E t) = rt_waiting t" "rt_ready (emitClientState E t) = rt_ready t"
  "rt_client (emitXferState E t) = rt_client t" "rt_client (emitClientState E t) = rt_client t"
  by (simp_all add: emitXferState_def emitClientState_def dealt_def rt_post_def reply_id_def split: option.split)

text \<open>While the worker waits it has no client and has answered nothing; afterwards nothing waits.\<close>

definition rt_inv :: "('w, 's, 'e) WorkerRuntime \<Rightarrow> bool" where
  "rt_inv t = (if rt_ready t = RtWaiting then rt_client t = None \<and> dealt t = {#} else rt_waiting t = [])"

lemma bindStores_inv:
  assumes "rt_inv t" "bindStores E label data ents t = (t', r)"
  shows "dealt t' = dealt t" "rt_waiting t' = rt_waiting t" "rt_ready t' \<noteq> RtWaiting"
  using assms
  by (auto simp: bindStores_def Let_def rt_inv_def split: option.splits if_splits)

lemma receive_inv:
  assumes "rt_inv t"
  shows "rt_inv (rt_receive E cmd t) \<and>
    dealt (rt_receive E cmd t) + mset (map wm_id (rt_waiting (rt_receive E cmd t))) =
      add_mset (wm_id cmd) (dealt t + mset (map wm_id (rt_waiting t)))"
proof (cases "is_bind (wm_op cmd)")
  case True
  then obtain label data ents where cmd: "wm_op cmd = OpBind label data ents" by (auto simp: is_bind_def split: WorkerOp.splits)
  obtain t' r where b: "bindStores E label data ents t = (t', r)" by fastforce
  note i = bindStores_inv [OF assms b]
  have e: "rt_receive E cmd t = foldl (\<lambda>t cmd. rt_run E cmd t) ((rt_reply (wm_id cmd) (void r) t')\<lparr>rt_waiting := []\<rparr>) (rt_waiting t')"
    using i(3) by (simp add: rt_receive_def cmd b Let_def)
  show ?thesis unfolding e rt_inv_def using i by simp
next
  case False
  then have e: "rt_receive E cmd t = (if rt_ready t = RtWaiting then t\<lparr>rt_waiting := rt_waiting t @ [cmd]\<rparr> else rt_run E cmd t)"
    by (simp add: rt_receive_def is_bind_def split: WorkerOp.splits)
  show ?thesis unfolding e using assms by (auto simp: rt_inv_def)
qed

lemma step_inv:
  assumes "rt_inv t"
  shows "rt_inv (rt_step E t e) \<and> dealt (rt_step E t e) + mset (map wm_id (rt_waiting (rt_step E t e))) =
    mset (received [e]) + (dealt t + mset (map wm_id (rt_waiting t)))"
proof (cases e)
  case (Receive cmd)
  then show ?thesis using receive_inv [OF assms, of E cmd] by (simp add: received_def map_filter_simps)
next
  case (Progress g)
  then show ?thesis using assms by (auto simp: received_def map_filter_simps rt_tick_def rt_inv_def split: if_splits)
next
  case Connection
  then show ?thesis using assms by (simp add: received_def map_filter_simps rt_inv_def)
qed

lemma steps_inv:
  "rt_inv t \<Longrightarrow> rt_inv (foldl (rt_step E) t evs) \<and>
     dealt (foldl (rt_step E) t evs) + mset (map wm_id (rt_waiting (foldl (rt_step E) t evs))) =
       mset (received evs) + (dealt t + mset (map wm_id (rt_waiting t)))"
proof (induction evs arbitrary: t)
  case (Cons e evs)
  have "received (e # evs) = received [e] @ received evs" by (simp add: received_def map_filter_simps split: option.split)
  then show ?case using step_inv [OF Cons.prems, of E e] Cons.IH [of "rt_step E t e"] by simp
qed (simp add: received_def map_filter_simps)

lemma phase_roundtrip: "phaseFromUnknown (UStr (phase_name ph)) = Some ph"
  by (cases ph) (simp_all add: phaseFromUnknown_def phase_name_def js_def)

lemma js_keys: "js s = js t \<longleftrightarrow> s = t" if "list_all (\<lambda>c. of_char c < (128 :: nat)) (s @ t)"
  using that
proof (induction s arbitrary: t)
  case Nil
  then show ?case by (cases t) (simp_all add: js_def)
next
  case (Cons a s)
  then show ?case by (cases t) (auto simp: js_def word_of_nat_eq_iff take_bit_nat_eq_self)
qed

section \<open>Properties\<close>

text \<open>C28: The worker answers each command it receives exactly once, unless the command itself never ends; before the databases are
  bound it answers none and keeps them all, afterwards none is left waiting, also when opening the databases failed.\<close>

theorem runtime_answers_once:
  "let t = foldl (rt_step E) (WorkerRuntime_new w) evs
   in mset (reply_ids (rt_out t)) + mset (rt_hung t) + mset (map wm_id (rt_waiting t)) = mset (received evs)
      \<and> (if rt_ready t = RtWaiting then reply_ids (rt_out t) = [] else rt_waiting t = [])"
proof -
  have "rt_inv (WorkerRuntime_new w)" by (simp add: WorkerRuntime_new_def rt_inv_def dealt_def)
  from steps_inv [OF this, of E evs] show ?thesis
    by (auto simp: Let_def rt_inv_def dealt_def WorkerRuntime_new_def split: if_splits)
qed

text \<open>What the worker reports survives the untyped message: its transfer state, with every optional field of the progress, is
  exactly what the main thread shows afterwards, and a reconcile report is accepted exactly if its checksum has 32 bytes.\<close>

theorem worker_reports_arrive:
  "(\<exists>v. rt_exec E label pg OpGetXferState (w, cl) = ((w, cl), Ok v)
      \<and> pulledXfer (Answered v) c = (c\<lparr>wk_xferState := getXferState E pg cl\<rparr>, Ok ()))
   \<and> reconcileResult (Answered (report_unk r)) = (if length (rr_msgcheck r) = 32 then Ok (report_unk r) else Err InternalError)"
proof -
  have "progressFromUnknown (progress_unk g) = Some g" for g
    by (cases g) (simp add: progressFromUnknown_def progress_unk_def uopt_def phase_roundtrip js_keys split: option.split)
  then have "xferStateFromUnknown (xferState_unk s) = Some s" for s
    by (cases s) (simp add: xferStateFromUnknown_def xferState_unk_def js_keys)
  moreover have "isReconcileReport (report_unk r) \<longleftrightarrow> length (rr_msgcheck r) = 32"
    by (simp add: isReconcileReport_def report_unk_def js_keys)
  ultimately show ?thesis by (simp add: pulledXfer_def reconcileResult_def)
qed

end
