(* ===== verification/Spec2Isabelle.thy ===== *)
theory Spec2Isabelle
  imports HostHttp SyncHost Writes Coalesce Exim Decoded EntIDB StoreRefine Pairing WorkerRuntime
begin

text \<open>
  A verification development of DIPLOMATIC, a local-first synchronisation library: clients keep
  encrypted messages about entities, exchange them through hosts that cannot read them, and render the
  messages into an entity database by a last-writer-wins rule.

  \<^bold>\<open>Reading guide.\<close> TypeScript values become HOL values: a struct or class is a record, a tagged union a datatype,
  \<open>Uint8Array\<close> a list of \<open>8 word\<close>, a string a list of UTF-16 code units, a \<open>Date\<close> an \<open>int option\<close> in
  milliseconds (\<open>None\<close> is an Invalid Date), a \<open>Map\<close> an association list in insertion order. \<open>ValStat\<close> is the type
  \<open>vs\<close>: \<open>Ok\<close>, \<open>Err\<close> with a status, \<open>Throw\<close> for an exception and \<open>Hang\<close> for a promise that never settles. An asynchronous method
  is a function on explicit state where nothing can interleave with it, and a list of steps, one per await, where
  something can (Coalesce, Cached, Worker). What the sources take from outside is a parameter: cryptographic primitives
  (record \<open>prims\<close> in Crypto, with the documented laws \<open>prims_ok\<close>), random bytes and nonces, clock readings, the
  outcome of WebAuthn ceremonies, what WebCrypto computes for X25519 (\<open>webcrypto\<close>), failing requests of a database.

  \<^bold>\<open>Foundations.\<close> Prelude holds statuses, dates, results and maps; Utf8 the platform's text encoder and decoder; Codec the
  varints, Decoder and Encoder of shared/codec.ts; Codecs the wire formats of shared/codecs, each an instance of the locale
  \<open>struct_codec\<close> (round trip with any rest, consumption, no throw), with Decoded for the types of what decoders accept;
  Binary the hex and base encodings, byte order and the set and frontier checksums.

  \<^bold>\<open>Cryptography and messages.\<close> Crypto: shared/crypto/noble.ts, derivation.ts, realms.ts, bagman.ts, enclave.ts and key tags.
  Bag: shared/message.ts, bag.ts, blobs.ts: sealing and opening, authenticity, realm isolation. Exim: export files and their import.
  Pairing: X25519 (RFC 7748) over WebCrypto and the transfer of a master seed to a new device.

  \<^bold>\<open>Hosts.\<close> HostStorage: the storage interface as locale \<open>bag_storage\<close> and the memory storage. HostApi: shared/auth.ts and shared/api,
  the whole handlers. HostClient: shared/client.ts and the local transport. HostHttp: shared/http/server.ts always answers.

  \<^bold>\<open>Application state.\<close> EntDB: web/src/entdb/entdb.ts and memory.ts; rows form a last-writer-wins register (locale \<open>lww_register\<close>),
  so that replicas converge; indexed queries equal scans. State: web/src/state.ts and events.ts. Cached: the write-through cache over any
  \<open>durable_db\<close>. EntIDB: the database over IndexedDB, which satisfies \<open>durable_db\<close> and answers queries like the memory
  database. IndexedDB: object stores in key order (locale \<open>key_order\<close>) and key ranges.

  \<^bold>\<open>Clients.\<close> Stores: labels, realms, cursors, archive rows and the memory stores, with the contract \<open>client_store\<close>. IDBStores: the
  stores over IndexedDB, a second instance of that contract. StoreRefine: both implement one abstract store, command by command, and
  answer alike. Sync: web/src/sync.ts, every phase proved inside the locale over any store and connection. SyncHost: synchronisation
  against a real host model: what one device uploads the other receives, and an upload over the local connection finishes.
  Client: web/src/client.ts; Writes: what local writes and the apply queue do to the archive, the queues and the rest of the store
  (locale \<open>archive_store\<close>). Coalesce: web/src/coalesce.ts. Worker: the client over a sync worker, a table of requests
  that replies, failures and timeouts empty (locale \<open>rpc_kept\<close>: what every operation keeps). WorkerRuntime: the worker's side.

  \<^bold>\<open>What the lemmas show.\<close> Per component: an invariant and its preservation, the effect of each operation on an abstract view, then the
  properties, marked by their claim ids. Loops of the sources are structural recursions or carry a measure; fuel occurs in no
  statement without a proof that it suffices. Convergence and replay theorems assume that no two different writes to an entity carry the
  same timestamp and that times are valid dates; theorems beside them show what happens otherwise. Witnesses apply each conditional property at a concrete input.

  \<^bold>\<open>Abstractions.\<close> Wiping of buffers, method locks, logging and progress callbacks are left out. A sort with an inconsistent comparator
  (possible only with invalid dates) is the stable insertion sort. Metadata that a connection reports is applied in the
  connection's world. The overlapped crypto of \<open>mapPool\<close> is sequential, its items being independent.

  \<^bold>\<open>Not modelled.\<close> WebAuthn ceremonies and the passkey stores above them, React hooks, command-line tools, the Deno, Bun and Cloudflare servers
  and their SQL storages (SQL is executed by engines outside the repository), websockets, the opening and schema upgrade of browser
  databases, benchmarks, demos and templates: they call browser or server interfaces and carry no logic that could be stated apart
  from those interfaces' behaviour.
\<close>

end
